(* ===== verification/RRF_Prelude.thy ===== *)
theory RRF_Prelude
  imports Main "HOL-Library.Word" "HOL-Library.List_Lexorder"
begin

text \<open>
  Shared material of the development: bytes and machine integers, Rust's checked and
  saturating arithmetic on 64-bit unsigned values, big-endian fields, slices, results
  (\<open>Result<T, E>\<close> with the question-mark operator), and the interface of an ordered map
  (\<open>BTreeMap\<close>) with its model as a key-sorted association list.

  Numbers of type \<open>u64\<close> and \<open>usize\<close> are natural numbers; every place where the code uses
  a checked or saturating operation uses the operation below, whose bound is
  \<open>u64_max\<close> (the code targets 64-bit machines, where \<open>usize\<close> has the same bound).
\<close>

named_theorems rrf_consts \<open>format constants of the source, unfolded for arithmetic\<close>
named_theorems rrf_res \<open>inversion of successful results\<close>

section \<open>Bytes and slices\<close>

type_synonym byte = "8 word"
type_synonym bytes = "byte list"

text \<open>\<open>slice.get(a..b)\<close>: absent when the range is inverted or out of bounds.\<close>

definition slice_get :: "'a list \<Rightarrow> nat \<Rightarrow> nat \<Rightarrow> 'a list option" where
  "slice_get xs a b = (if a \<le> b \<and> b \<le> length xs then Some (take (b - a) (drop a xs)) else None)"

lemma slice_get_Some [rrf_res]:
  "slice_get xs a b = Some ys \<longleftrightarrow> a \<le> b \<and> b \<le> length xs \<and> ys = take (b - a) (drop a xs)"
  by (auto simp: slice_get_def)

lemma slice_get_length: "slice_get xs a b = Some ys \<Longrightarrow> length ys = b - a"
  by (auto simp: slice_get_def split: if_splits)

lemma slice_get_append [simp]:
  "slice_get (xs @ ys @ zs) (length xs) (length xs + length ys) = Some ys"
  by (simp add: slice_get_def)

section \<open>Checked and saturating arithmetic\<close>

definition u64_max :: nat where [rrf_consts]:
  "u64_max = 18446744073709551615"

definition u32_max :: nat where [rrf_consts]:
  "u32_max = 4294967295"

definition checked_add :: "nat \<Rightarrow> nat \<Rightarrow> nat option" where
  "checked_add a b = (if a + b \<le> u64_max then Some (a + b) else None)"

definition checked_sub :: "nat \<Rightarrow> nat \<Rightarrow> nat option" where
  "checked_sub a b = (if b \<le> a then Some (a - b) else None)"

definition checked_mul :: "nat \<Rightarrow> nat \<Rightarrow> nat option" where
  "checked_mul a b = (if a * b \<le> u64_max then Some (a * b) else None)"

definition saturating_add :: "nat \<Rightarrow> nat \<Rightarrow> nat" where
  "saturating_add a b = min (a + b) u64_max"

definition saturating_sub :: "nat \<Rightarrow> nat \<Rightarrow> nat" where
  "saturating_sub a b = a - b"

definition saturating_mul :: "nat \<Rightarrow> nat \<Rightarrow> nat" where
  "saturating_mul a b = min (a * b) u64_max"

lemma checked_add_Some [simp]: "checked_add a b = Some c \<longleftrightarrow> c = a + b \<and> a + b \<le> u64_max"
  by (auto simp: checked_add_def)

lemma checked_add_None [simp]: "checked_add a b = None \<longleftrightarrow> u64_max < a + b"
  by (auto simp: checked_add_def)

lemma checked_sub_Some [simp]: "checked_sub a b = Some c \<longleftrightarrow> b \<le> a \<and> c = a - b"
  by (auto simp: checked_sub_def)

lemma checked_sub_None [simp]: "checked_sub a b = None \<longleftrightarrow> a < b"
  by (auto simp: checked_sub_def)

lemma checked_mul_Some [simp]: "checked_mul a b = Some c \<longleftrightarrow> c = a * b \<and> a * b \<le> u64_max"
  by (auto simp: checked_mul_def)

section \<open>Results\<close>

text \<open>
  \<open>Result<T, E>\<close> is a sum with the error on the left; \<open>rbind\<close> is the question-mark
  operator, \<open>fail_if\<close> an early return guarded by a condition, and \<open>ok_or\<close> is
  \<open>Option::ok_or\<close>.
\<close>

definition rbind :: "'e + 'a \<Rightarrow> ('a \<Rightarrow> 'e + 'b) \<Rightarrow> 'e + 'b" where
  "rbind m f = (case m of Inl e \<Rightarrow> Inl e | Inr x \<Rightarrow> f x)"

definition fail_if :: "bool \<Rightarrow> 'e \<Rightarrow> 'e + unit" where
  "fail_if b e = (if b then Inl e else Inr ())"

definition ok_or :: "'e \<Rightarrow> 'a option \<Rightarrow> 'e + 'a" where
  "ok_or e x = (case x of None \<Rightarrow> Inl e | Some y \<Rightarrow> Inr y)"

lemma rbind_simps [simp]: "rbind (Inl e) f = Inl e" "rbind (Inr x) f = f x"
  by (simp_all add: rbind_def)

lemma rbind_Inr [rrf_res]: "rbind m f = Inr y \<longleftrightarrow> (\<exists>x. m = Inr x \<and> f x = Inr y)"
  by (cases m) auto

lemma rbind_Inl [rrf_res]:
  "rbind m f = Inl e \<longleftrightarrow> m = Inl e \<or> (\<exists>x. m = Inr x \<and> f x = Inl e)"
  by (cases m) auto

lemma fail_if_simps [simp]: "fail_if True e = Inl e" "fail_if False e = Inr ()"
  by (simp_all add: fail_if_def)

lemma fail_if_Inr [rrf_res]: "fail_if b e = Inr u \<longleftrightarrow> \<not> b"
  by (simp add: fail_if_def)

lemma fail_if_Inl [rrf_res]: "fail_if b e = Inl e' \<longleftrightarrow> b \<and> e' = e"
  by (auto simp: fail_if_def)

lemma ok_or_simps [simp]: "ok_or e None = Inl e" "ok_or e (Some x) = Inr x"
  by (simp_all add: ok_or_def)

lemma ok_or_Inr [rrf_res]: "ok_or e x = Inr y \<longleftrightarrow> x = Some y"
  by (cases x) auto

lemma ok_or_Inl [rrf_res]: "ok_or e x = Inl e' \<longleftrightarrow> x = None \<and> e' = e"
  by (cases x) auto

lemma rbind_cong [fundef_cong]:
  "m = m' \<Longrightarrow> (\<And>x. m' = Inr x \<Longrightarrow> f x = g x) \<Longrightarrow> rbind m f = rbind m' g"
  by (cases m') auto

text \<open>A loop body applied to every element, stopping at the first error (\<open>try_fold\<close>).\<close>

fun try_fold :: "('s \<Rightarrow> 'a \<Rightarrow> 'e + 's) \<Rightarrow> 's \<Rightarrow> 'a list \<Rightarrow> 'e + 's" where
  "try_fold f s [] = Inr s"
| "try_fold f s (x # xs) = rbind (f s x) (\<lambda>s'. try_fold f s' xs)"

lemma try_fold_append: "try_fold f s (xs @ ys) = rbind (try_fold f s xs) (\<lambda>s'. try_fold f s' ys)"
proof (induction xs arbitrary: s)
  case (Cons x xs)
  then show ?case by (cases "f s x") auto
qed simp

lemma try_fold_invariant:
  assumes "try_fold f s xs = Inr s'" and "P s"
    and "\<And>t x t'. P t \<Longrightarrow> x \<in> set xs \<Longrightarrow> f t x = Inr t' \<Longrightarrow> P t'"
  shows "P s'"
  using assms
proof (induction xs arbitrary: s)
  case (Cons x xs)
  from Cons.prems(1) obtain t where t: "f s x = Inr t" and rest: "try_fold f t xs = Inr s'"
    by (auto simp: rbind_Inr)
  have "P t" by (rule Cons.prems(3) [OF Cons.prems(2) _ t]) simp
  with rest show ?case by (rule Cons.IH) (rule Cons.prems(3), auto)
qed simp

lemma try_fold_prefix:
  assumes "try_fold f s xs = Inr s'" and "P [] s"
    and "\<And>ys x t t'. P ys t \<Longrightarrow> x \<in> set xs \<Longrightarrow> f t x = Inr t' \<Longrightarrow> P (ys @ [x]) t'"
  shows "P xs s'"
  using assms
proof (induction xs arbitrary: s' rule: rev_induct)
  case (snoc x xs)
  from snoc.prems(1) obtain t where t: "try_fold f s xs = Inr t" and step: "f t x = Inr s'"
    by (auto simp: try_fold_append rbind_Inr)
  have "P xs t" by (rule snoc.IH [OF t snoc.prems(2)]) (rule snoc.prems(3), auto)
  with step show ?case by (intro snoc.prems(3)) auto
qed simp

text \<open>A loop whose body never fails is a fold.\<close>

lemma try_fold_foldl: "(\<And>t x. x \<in> set xs \<Longrightarrow> f t x = Inr (g t x)) \<Longrightarrow> try_fold f s xs = Inr (foldl g s xs)"
  by (induction xs arbitrary: s) auto

lemma try_fold_upt:
  assumes "try_fold f s [0..<n] = Inr s'" and "P 0 s"
    and "\<And>i t t'. i < n \<Longrightarrow> P i t \<Longrightarrow> f t i = Inr t' \<Longrightarrow> P (Suc i) t'"
  shows "P n s'"
  using assms
proof (induction n arbitrary: s')
  case (Suc n)
  from Suc.prems(1) obtain t where t: "try_fold f s [0..<n] = Inr t" and step: "f t n = Inr s'"
    by (auto simp: try_fold_append rbind_Inr)
  have "P n t" by (rule Suc.IH [OF t Suc.prems(2)]) (rule Suc.prems(3), auto)
  with step show ?case by (intro Suc.prems(3)) auto
qed simp

section \<open>Big-endian fields\<close>

fun be_bytes :: "nat \<Rightarrow> nat \<Rightarrow> bytes" where
  "be_bytes 0 x = []"
| "be_bytes (Suc n) x = word_of_nat (x div 256 ^ n) # be_bytes n x"

fun be_nat :: "bytes \<Rightarrow> nat" where
  "be_nat [] = 0"
| "be_nat (b # bs) = unat b * 256 ^ length bs + be_nat bs"

lemma length_be_bytes [simp]: "length (be_bytes n x) = n"
  by (induction n) auto

lemma unat_byte_of_nat [simp]: "unat (word_of_nat x :: byte) = x mod 256"
  by (simp add: unat_of_nat)

lemma unat_byte_less [simp]: "unat (b :: byte) < 256"
  using unsigned_less [of b, where 'a = nat] by simp

lemma be_nat_bound: "be_nat bs < 256 ^ length bs"
proof (induction bs)
  case (Cons b bs)
  have "unat b * 256 ^ length bs + be_nat bs < unat b * 256 ^ length bs + 256 ^ length bs"
    using Cons by simp
  also have "\<dots> = (unat b + 1) * 256 ^ length bs" by simp
  also have "\<dots> \<le> 256 * 256 ^ length bs"
    by (rule mult_right_mono) (use unat_byte_less [of b] in linarith, simp)
  finally show ?case by simp
qed simp

lemma mod_256_power_Suc: "x mod 256 ^ Suc n = (x div 256 ^ n) mod 256 * 256 ^ n + x mod 256 ^ n"
  for x :: nat
proof -
  have "x mod (256 ^ n * 256) = 256 ^ n * (x div 256 ^ n mod 256) + x mod 256 ^ n"
    by (rule mod_mult2_eq)
  then show ?thesis by (simp only: power_Suc2 mult.commute [of "256 ^ n" "x div 256 ^ n mod 256"])
qed

lemma be_nat_be_bytes: "be_nat (be_bytes n x) = x mod 256 ^ n"
proof (induction n)
  case (Suc n)
  then show ?case
    by (simp only: be_bytes.simps be_nat.simps length_be_bytes unat_byte_of_nat mod_256_power_Suc)
qed simp

lemma be_nat_be_bytes_id: "x < 256 ^ n \<Longrightarrow> be_nat (be_bytes n x) = x"
  by (simp add: be_nat_be_bytes)

lemma unat_word_of_nat_id: "word_of_nat (unat b) = (b :: byte)"
  by simp

lemma byte_of_nat_eq_iff: "(word_of_nat a :: byte) = word_of_nat b \<longleftrightarrow> a mod 256 = b mod 256"
  by (simp only: word_of_nat_eq_iff take_bit_eq_mod) simp

lemma be_bytes_add: "be_bytes n (y * 256 ^ n + x) = be_bytes n x"
proof (induction n arbitrary: y)
  case 0
  show ?case by (simp only: be_bytes.simps)
next
  case (Suc n)
  have "(y * 256 ^ Suc n + x) div 256 ^ n = y * 256 + x div 256 ^ n"
    using div_mult_self3 [of "256 ^ n" "y * 256" x]
    by (simp only: power_Suc mult.assoc) simp
  then have hd: "(word_of_nat ((y * 256 ^ Suc n + x) div 256 ^ n) :: byte)
      = word_of_nat (x div 256 ^ n)"
    by (simp only: byte_of_nat_eq_iff mod_mult_self3)
  have "be_bytes n (y * 256 ^ Suc n + x) = be_bytes n ((y * 256) * 256 ^ n + x)"
    by (simp only: power_Suc mult.assoc)
  also have "\<dots> = be_bytes n x" by (rule Suc.IH)
  finally have tl: "be_bytes n (y * 256 ^ Suc n + x) = be_bytes n x" .
  show ?case unfolding be_bytes.simps hd tl by (rule refl)
qed

lemma be_bytes_be_nat: "be_bytes (length bs) (be_nat bs) = bs"
proof (induction bs)
  case (Cons b bs)
  have "(unat b * 256 ^ length bs + be_nat bs) div 256 ^ length bs = unat b"
    using be_nat_bound [of bs] by simp
  then have "(word_of_nat ((unat b * 256 ^ length bs + be_nat bs) div 256 ^ length bs) :: byte) = b"
    by (simp only: unat_word_of_nat_id)
  moreover have "be_bytes (length bs) (unat b * 256 ^ length bs + be_nat bs) = bs"
    by (simp only: be_bytes_add Cons.IH)
  ultimately show ?case by (simp only: list.size be_nat.simps be_bytes.simps add_0_right add_Suc_right)
qed simp

lemma be_nat_inj: "length as = length bs \<Longrightarrow> be_nat as = be_nat bs \<Longrightarrow> as = bs"
  by (rule box_equals [OF _ be_bytes_be_nat be_bytes_be_nat]) (simp only:)

section \<open>Little-endian fields\<close>

definition le_bytes :: "nat \<Rightarrow> nat \<Rightarrow> bytes" where
  "le_bytes n x = rev (be_bytes n x)"

definition le_nat :: "bytes \<Rightarrow> nat" where
  "le_nat bs = be_nat (rev bs)"

lemma length_le_bytes [simp]: "length (le_bytes n x) = n"
  by (simp add: le_bytes_def)

lemma le_nat_bound: "le_nat bs < 256 ^ length bs"
  using be_nat_bound [of "rev bs"] by (simp add: le_nat_def)

lemma le_nat_le_bytes: "le_nat (le_bytes n x) = x mod 256 ^ n"
  by (simp add: le_nat_def le_bytes_def be_nat_be_bytes)

lemma le_nat_le_bytes_id [simp]: "x < 256 ^ n \<Longrightarrow> le_nat (le_bytes n x) = x"
  by (simp add: le_nat_le_bytes)

lemma le_bytes_le_nat: "le_bytes (length bs) (le_nat bs) = bs"
  using be_bytes_be_nat [of "rev bs"] by (simp add: le_nat_def le_bytes_def)

section \<open>Strings\<close>

text \<open>
  A Rust string is its UTF-8 bytes. The strings of the engine are ASCII, so a character is one
  byte. \<open>utf8_valid\<close> is the test of \<open>str::from_utf8\<close>.
\<close>

definition str_bytes :: "string \<Rightarrow> bytes" where
  "str_bytes s = map (\<lambda>c. word_of_nat (of_char c)) s"

definition byte_in :: "nat \<Rightarrow> nat \<Rightarrow> byte \<Rightarrow> bool" where
  "byte_in lo hi b \<longleftrightarrow> lo \<le> unat b \<and> unat b \<le> hi"

fun utf8_valid :: "bytes \<Rightarrow> bool" where
  "utf8_valid [] \<longleftrightarrow> True"
| "utf8_valid (a # bs) \<longleftrightarrow>
     (if unat a \<le> 0x7f then utf8_valid bs
      else case bs of
        [] \<Rightarrow> False
      | b # cs \<Rightarrow>
        (if byte_in 0xc2 0xdf a then byte_in 0x80 0xbf b \<and> utf8_valid cs
         else case cs of
           [] \<Rightarrow> False
         | c # ds \<Rightarrow>
           (if byte_in 0xe0 0xef a then
              byte_in (if unat a = 0xe0 then 0xa0 else 0x80) (if unat a = 0xed then 0x9f else 0xbf) b
              \<and> byte_in 0x80 0xbf c \<and> utf8_valid ds
            else case ds of
              [] \<Rightarrow> False
            | d # es \<Rightarrow>
                byte_in 0xf0 0xf4 a
                \<and> byte_in (if unat a = 0xf0 then 0x90 else 0x80) (if unat a = 0xf4 then 0x8f else 0xbf) b
                \<and> byte_in 0x80 0xbf c \<and> byte_in 0x80 0xbf d \<and> utf8_valid es)))"

lemma length_str_bytes [simp]: "length (str_bytes s) = length s"
  by (simp add: str_bytes_def)

lemma utf8_valid_ascii: "\<forall>b \<in> set bs. unat b \<le> 0x7f \<Longrightarrow> utf8_valid bs"
  by (induction bs) auto

end
