(* ===== verification/Lsm_Error.thy ===== *)
theory Lsm_Error
  imports RRF_Prelude
begin

text \<open>
  The error type of the storage engine (\<open>rrd-lsm/src/error.rs\<close>) and the resource names its
  admission errors carry. Messages keep the literal text of the source; values that the
  source formats into a message are not part of the text. Operating-system failures are
  told apart by the kinds the code produces itself. The constructor \<open>Panic\<close> is not a variant of
  the source: it stands for a Rust panic, which like an error leaves every caller.
\<close>

datatype write_batch_resource = EncodedBytes | Operations

datatype mutable_resource =
  AccountedBytes | Versions | RetainedAccountedBytes | RetainedVersions | Generations

datatype transaction_resource = Active | BufferedBytes

datatype maintenance_resource =
  InputBytes | InputLogicalBytes | InputVersions | OutputSegments | MaintenanceElapsedMs | L0Segments

datatype recovery_resource =
  RecoveryMetadataBytes | RecoveryFiles | RecoveryReadBytes | RecoveryWalBytes
| RecoveryWalFrames | RecoveryElapsedMs

datatype reclamation_resource =
  ReclaimInventoryEntries | ReclaimMetadataBytes | ReclaimDeleteBytes | ReclaimElapsedMs

datatype projected_read_resource =
  ActiveViews | Ranges | Runs | PinnedBytes | VersionsExamined | PageRequests | PageLogicalBytes
| OutputRows | OutputBufferBytes | BatchRows | BatchAllocatedBytes | RetainedOutputBytes

datatype io_error = WriteZero | UnexpectedEof | OsError nat

datatype lsm_error =
  SegmentHandleLimit nat nat
| SourcePageLimit nat nat
| CheckpointLimit nat nat
| TransactionLimit transaction_resource nat nat
| DiskAdmission nat nat nat
| Io io_error
| IoContext string string io_error
| Corruption nat string
| UnsupportedVersion string nat
| RecoveryLimit recovery_resource nat nat
| ReclamationPending
| ReclamationLimit reclamation_resource nat nat
| MaintenanceLimit maintenance_resource nat nat
| MutableLimit mutable_resource nat nat
| InvalidConfiguration string
| InvalidBatch string
| WriteBatchLimit write_batch_resource nat nat
| InvalidManifest string
| ManifestConflict "string option" "string option"
| InvalidSegment string
| InvalidProjectedRead string
| InvalidProjectedReadBudget projected_read_resource
| ProjectedReadLimit projected_read_resource nat nat
| DuplicateProjectedSequence string nat
| PoisonedReadViewRegistry
| TornTail nat
| DatabaseWriterLock string
| RecoveryRequired string
| InvalidTransaction string
| TransactionConflict nat nat
| TransactionDatabaseMismatch
| ActiveTransactions string
| PoisonedTransactionState
| PoisonedWriter
| InjectedFailure string string
| Panic string

type_synonym 'a res = "lsm_error + 'a"

end
