(* ===== verification/Batch.thy ===== *)
theory Batch
  imports Lsm_Error
begin

unbundle bit_operations_syntax

text \<open>
  Atomic write batches (\<open>rrd-lsm/src/batch.rs\<close>): mutations, the size accounting that admits
  a batch, and the byte format a batch has as the payload of one write-ahead-log frame.

  Format: an eight-byte magic, a two-byte version, two zero flag bytes, a four-byte
  operation count, then one record per operation: key length, tagged value length (the
  top bit marks a deletion), key bytes and value bytes. The lemmas show that the two
  directions of the codec are inverse to one another and that the size accounting is the
  length of the encoding.
\<close>

section \<open>Constants\<close>

definition WAL_MAX_PAYLOAD_BYTES :: nat where [rrf_consts]: "WAL_MAX_PAYLOAD_BYTES = 16777216"
definition BATCH_FORMAT_VERSION :: nat where [rrf_consts]: "BATCH_FORMAT_VERSION = 2"
definition BATCH_MAGIC :: bytes where "BATCH_MAGIC = [82, 82, 68, 66, 65, 84, 48, 50]"
definition BATCH_HEADER_BYTES :: nat where [rrf_consts]: "BATCH_HEADER_BYTES = 16"
definition OP_HEADER_BYTES :: nat where [rrf_consts]: "OP_HEADER_BYTES = 8"
definition DELETE_MASK :: "32 word" where "DELETE_MASK = push_bit 31 1"
definition VALUE_LEN_MASK :: "32 word" where "VALUE_LEN_MASK = NOT DELETE_MASK"
definition MAX_OPERATIONS :: nat where [rrf_consts]: "MAX_OPERATIONS = 1000000"
definition MAX_KEY_BYTES :: nat where [rrf_consts]: "MAX_KEY_BYTES = 1048576"
definition MAX_VALUE_BYTES :: nat where [rrf_consts]: "MAX_VALUE_BYTES = 8388608"

section \<open>Mutations and their admission\<close>

datatype mutation = Put bytes bytes | Delete bytes

fun mutation_key :: "mutation \<Rightarrow> bytes" where
  "mutation_key (Put k v) = k"
| "mutation_key (Delete k) = k"

fun mutation_value :: "mutation \<Rightarrow> bytes option" where
  "mutation_value (Put k v) = Some v"
| "mutation_value (Delete k) = None"

definition validate_key :: "bytes \<Rightarrow> unit res" where
  "validate_key key = fail_if (key = [] \<or> length key > MAX_KEY_BYTES)
     (InvalidBatch ''key length must be in 1..=MAX_KEY_BYTES bytes'')"

definition validate_value :: "bytes \<Rightarrow> unit res" where
  "validate_value v = fail_if (length v > MAX_VALUE_BYTES)
     (InvalidBatch ''value length exceeds MAX_VALUE_BYTES bytes'')"

definition mutation_validate :: "mutation \<Rightarrow> unit res" where
  "mutation_validate m = rbind (validate_key (mutation_key m))
     (\<lambda>_. case mutation_value m of None \<Rightarrow> Inr () | Some v \<Rightarrow> validate_value v)"

record write_batch_size =
  wbs_operations :: nat
  wbs_encoded_bytes :: nat

definition write_batch_size_default :: write_batch_size where
  "write_batch_size_default = \<lparr>wbs_operations = 0, wbs_encoded_bytes = BATCH_HEADER_BYTES\<rparr>"

text \<open>The closure \<open>length\<close> of \<open>with_replacement\<close>: encoded size of one operation.\<close>

definition op_length :: "bytes \<Rightarrow> bytes option \<Rightarrow> nat res" where
  "op_length key v = ok_or (InvalidBatch ''encoded operation length overflow'')
     (Option.bind (checked_add OP_HEADER_BYTES (length key))
        (\<lambda>n. checked_add n (case v of None \<Rightarrow> 0 | Some x \<Rightarrow> length x)))"

definition with_replacement ::
  "write_batch_size \<Rightarrow> bytes \<Rightarrow> bytes option option \<Rightarrow> bytes option \<Rightarrow> write_batch_size res" where
  "with_replacement self key previous v =
     rbind (validate_key key) (\<lambda>_.
     rbind (case v of None \<Rightarrow> Inr () | Some x \<Rightarrow> validate_value x) (\<lambda>_.
     rbind (case previous of
              None \<Rightarrow> ok_or (InvalidBatch ''operation count overflow'')
                        (checked_add (wbs_operations self) 1)
            | Some _ \<Rightarrow> rbind (fail_if (wbs_operations self = 0)
                        (InvalidBatch ''replacement has no charged operation''))
                        (\<lambda>_. Inr (wbs_operations self))) (\<lambda>operations.
     rbind (fail_if (operations > MAX_OPERATIONS)
              (WriteBatchLimit Operations MAX_OPERATIONS operations)) (\<lambda>_.
     rbind (case previous of None \<Rightarrow> Inr 0 | Some p \<Rightarrow> op_length key p) (\<lambda>old.
     rbind (op_length key v) (\<lambda>new.
     rbind (ok_or (InvalidBatch ''encoded batch accounting overflow'')
              (Option.bind (checked_sub (wbs_encoded_bytes self) old)
                 (\<lambda>n. if n \<ge> BATCH_HEADER_BYTES then checked_add n new else None))) (\<lambda>encoded.
     rbind (fail_if (encoded > WAL_MAX_PAYLOAD_BYTES)
              (WriteBatchLimit EncodedBytes WAL_MAX_PAYLOAD_BYTES encoded)) (\<lambda>_.
     Inr \<lparr>wbs_operations = operations, wbs_encoded_bytes = encoded\<rparr>))))))))"

section \<open>Batches\<close>

record write_batch =
  operations :: "mutation list"
  encoded_len :: nat

definition validate_operations :: "mutation list \<Rightarrow> nat res" where
  "validate_operations ops =
     rbind (fail_if (ops = []) (InvalidBatch ''operation count must be greater than zero'')) (\<lambda>_.
     rbind (fail_if (length ops > MAX_OPERATIONS)
              (WriteBatchLimit Operations MAX_OPERATIONS (length ops))) (\<lambda>_.
     rbind (try_fold (\<lambda>size m. with_replacement size (mutation_key m) None (mutation_value m))
              write_batch_size_default ops) (\<lambda>size.
     Inr (wbs_encoded_bytes size))))"

definition write_batch_new :: "mutation list \<Rightarrow> write_batch res" where
  "write_batch_new ops = rbind (validate_operations ops)
     (\<lambda>n. Inr \<lparr>operations = ops, encoded_len = n\<rparr>)"

definition u32_try_from :: "string \<Rightarrow> nat \<Rightarrow> nat res" where
  "u32_try_from reason n = (if n \<le> u32_max then Inr n else Inl (InvalidBatch reason))"

definition encode_op :: "mutation \<Rightarrow> bytes res" where
  "encode_op m =
     rbind (case m of
              Put k v \<Rightarrow> rbind (u32_try_from ''value length exceeds u32'' (length v))
                           (\<lambda>n. Inr (k, v, word_of_nat n :: 32 word))
            | Delete k \<Rightarrow> Inr (k, [], DELETE_MASK)) (\<lambda>(key, val, tagged_value_len).
     rbind (u32_try_from ''key length exceeds u32'' (length key)) (\<lambda>key_len.
     Inr (be_bytes 4 key_len @ be_bytes 4 (unat tagged_value_len) @ key @ val)))"

definition batch_encode :: "write_batch \<Rightarrow> bytes res" where
  "batch_encode self =
     rbind (u32_try_from ''operation count exceeds u32'' (length (operations self))) (\<lambda>count.
     try_fold (\<lambda>output m. rbind (encode_op m) (\<lambda>bs. Inr (output @ bs)))
       (BATCH_MAGIC @ be_bytes 2 BATCH_FORMAT_VERSION @ be_bytes 2 0 @ be_bytes 4 count)
       (operations self))"

definition decode_op :: "bytes \<Rightarrow> nat \<Rightarrow> (mutation \<times> nat) res" where
  "decode_op bs cursor =
     rbind (ok_or (InvalidBatch ''operation header length overflow'')
              (checked_add cursor OP_HEADER_BYTES)) (\<lambda>header_end.
     rbind (ok_or (InvalidBatch ''incomplete operation header'')
              (slice_get bs cursor header_end)) (\<lambda>header.
     let tagged_value_len = (word_of_nat (be_nat (take 4 (drop 4 header))) :: 32 word);
         delete = tagged_value_len AND DELETE_MASK \<noteq> 0;
         value_len = unat (tagged_value_len AND VALUE_LEN_MASK);
         key_len = be_nat (take 4 header)
     in rbind (fail_if (delete \<and> value_len \<noteq> 0)
                 (InvalidBatch ''delete operation carries a value length'')) (\<lambda>_.
        rbind (fail_if (key_len = 0 \<or> key_len > MAX_KEY_BYTES \<or> value_len > MAX_VALUE_BYTES)
                 (InvalidBatch ''operation key/value length exceeds its contract'')) (\<lambda>_.
        rbind (ok_or (InvalidBatch ''operation length overflow'')
                 (Option.bind (checked_add header_end key_len) (\<lambda>n. checked_add n value_len))) (\<lambda>stop.
        rbind (ok_or (InvalidBatch ''incomplete operation body'')
                 (slice_get bs header_end stop)) (\<lambda>body.
        let key = take key_len body; val = drop key_len body
        in if \<not> delete then Inr (Put key val, stop)
           else if val = [] then Inr (Delete key, stop)
           else Inl (InvalidBatch ''delete operation carries a value''))))))) "

fun decode_ops :: "nat \<Rightarrow> bytes \<Rightarrow> nat \<Rightarrow> (mutation list \<times> nat) res" where
  "decode_ops 0 bs cursor = Inr ([], cursor)"
| "decode_ops (Suc n) bs cursor =
     rbind (decode_op bs cursor) (\<lambda>(m, stop).
     rbind (decode_ops n bs stop) (\<lambda>(ms, last). Inr (m # ms, last)))"

definition batch_decode :: "bytes \<Rightarrow> write_batch res" where
  "batch_decode bs =
     rbind (fail_if (length bs < BATCH_HEADER_BYTES) (InvalidBatch ''incomplete batch header'')) (\<lambda>_.
     rbind (fail_if (length bs > WAL_MAX_PAYLOAD_BYTES)
              (InvalidBatch ''encoded batch exceeds WAL_MAX_PAYLOAD_BYTES bytes'')) (\<lambda>_.
     let version = be_nat (take 2 (drop 8 bs)) in
     rbind (fail_if (version \<noteq> BATCH_FORMAT_VERSION) (UnsupportedVersion ''write batch'' version)) (\<lambda>_.
     rbind (fail_if (take 8 bs \<noteq> BATCH_MAGIC)
              (InvalidBatch ''batch magic does not match its format version'')) (\<lambda>_.
     rbind (fail_if (take 2 (drop 10 bs) \<noteq> [0, 0]) (InvalidBatch ''unknown batch flags'')) (\<lambda>_.
     let count = be_nat (take 4 (drop 12 bs)) in
     rbind (fail_if (count = 0 \<or> count > MAX_OPERATIONS)
              (InvalidBatch ''invalid operation count'')) (\<lambda>_.
     rbind (decode_ops count bs BATCH_HEADER_BYTES) (\<lambda>(ops, cursor).
     rbind (fail_if (cursor \<noteq> length bs)
              (InvalidBatch ''trailing byte(s) after the declared batch'')) (\<lambda>_.
     write_batch_new ops))))))))"

section \<open>Admission and size accounting\<close>

text \<open>What admission means for one mutation, and the size its encoding has.\<close>

definition mutation_ok :: "mutation \<Rightarrow> bool" where
  "mutation_ok m \<longleftrightarrow> mutation_key m \<noteq> [] \<and> length (mutation_key m) \<le> MAX_KEY_BYTES
     \<and> (case mutation_value m of None \<Rightarrow> True | Some v \<Rightarrow> length v \<le> MAX_VALUE_BYTES)"

definition op_size :: "bytes \<Rightarrow> bytes option \<Rightarrow> nat" where
  "op_size k v = OP_HEADER_BYTES + length k + (case v of None \<Rightarrow> 0 | Some x \<Rightarrow> length x)"

definition mutation_size :: "mutation \<Rightarrow> nat" where
  "mutation_size m = op_size (mutation_key m) (mutation_value m)"

abbreviation value_ok :: "bytes option \<Rightarrow> bool" where
  "value_ok v \<equiv> (case v of None \<Rightarrow> True | Some x \<Rightarrow> length x \<le> MAX_VALUE_BYTES)"

abbreviation key_ok :: "bytes \<Rightarrow> bool" where
  "key_ok k \<equiv> k \<noteq> [] \<and> length k \<le> MAX_KEY_BYTES"

lemma validate_key_Inr [rrf_res]: "validate_key k = Inr u \<longleftrightarrow> key_ok k"
  by (auto simp: validate_key_def fail_if_def)

lemma validate_opt_value_Inr [rrf_res]:
  "(case v of None \<Rightarrow> Inr () | Some x \<Rightarrow> validate_value x) = Inr u \<longleftrightarrow> value_ok v"
  by (auto simp: validate_value_def fail_if_def split: option.splits)

lemma op_length_Inr [rrf_res]:
  "op_length k v = Inr n \<longleftrightarrow> n = op_size k v \<and> op_size k v \<le> u64_max"
  by (auto simp: op_length_def op_size_def ok_or_Inr bind_eq_Some_conv split: option.splits)

lemma op_size_bound: "key_ok k \<Longrightarrow> value_ok v \<Longrightarrow> op_size k v \<le> u64_max"
  by (auto simp: op_size_def rrf_consts split: option.splits)

lemma with_replacement_new_iff:
  "with_replacement s k None v = Inr s' \<longleftrightarrow>
     key_ok k \<and> value_ok v \<and> wbs_operations s + 1 \<le> MAX_OPERATIONS
     \<and> BATCH_HEADER_BYTES \<le> wbs_encoded_bytes s
     \<and> wbs_encoded_bytes s + op_size k v \<le> WAL_MAX_PAYLOAD_BYTES
     \<and> s' = \<lparr>wbs_operations = wbs_operations s + 1,
              wbs_encoded_bytes = wbs_encoded_bytes s + op_size k v\<rparr>" (is "?l \<longleftrightarrow> ?r")
proof
  assume ?l
  then show ?r
    by (auto simp: with_replacement_def rrf_res bind_eq_Some_conv not_less simp del: rbind_simps
        split: if_splits)
next
  assume ?r
  moreover from this have "op_size k v \<le> u64_max" by (simp add: op_size_bound)
  moreover have "WAL_MAX_PAYLOAD_BYTES \<le> u64_max" "MAX_OPERATIONS \<le> u64_max" by (simp_all add: rrf_consts)
  ultimately show ?l
    by (auto simp: with_replacement_def rrf_res bind_eq_Some_conv not_less simp del: rbind_simps)
qed

lemma validate_fold_iff:
  "try_fold (\<lambda>size m. with_replacement size (mutation_key m) None (mutation_value m)) s ops = Inr s' \<longleftrightarrow>
     (if ops = [] then s' = s
      else (\<forall>m \<in> set ops. mutation_ok m) \<and> wbs_operations s + length ops \<le> MAX_OPERATIONS
        \<and> BATCH_HEADER_BYTES \<le> wbs_encoded_bytes s
        \<and> wbs_encoded_bytes s + sum_list (map mutation_size ops) \<le> WAL_MAX_PAYLOAD_BYTES
        \<and> s' = \<lparr>wbs_operations = wbs_operations s + length ops,
                 wbs_encoded_bytes = wbs_encoded_bytes s + sum_list (map mutation_size ops)\<rparr>)"
proof (induction ops arbitrary: s)
  case (Cons m ops)
  show ?case
    by (cases "ops = []")
      (auto simp: rbind_Inr with_replacement_new_iff Cons.IH mutation_ok_def mutation_size_def add_ac)
qed auto

lemma validate_operations_iff:
  "validate_operations ops = Inr n \<longleftrightarrow>
     ops \<noteq> [] \<and> length ops \<le> MAX_OPERATIONS \<and> (\<forall>m \<in> set ops. mutation_ok m)
     \<and> n = BATCH_HEADER_BYTES + sum_list (map mutation_size ops) \<and> n \<le> WAL_MAX_PAYLOAD_BYTES"
  by (auto simp: validate_operations_def rrf_res validate_fold_iff write_batch_size_default_def
      not_less simp del: rbind_simps)

lemma write_batch_new_iff [rrf_res]:
  "write_batch_new ops = Inr b \<longleftrightarrow>
     validate_operations ops = Inr (encoded_len b) \<and> operations b = ops"
  by (auto simp: write_batch_new_def rbind_Inr)

section \<open>The codec\<close>

text \<open>The tagged value length: the top bit marks a deletion, the rest is the length.\<close>

lemma bit_DELETE_MASK: "bit DELETE_MASK n \<longleftrightarrow> n = 31"
  unfolding DELETE_MASK_def bit_push_bit_iff bit_1_iff by auto

lemma and_DELETE_MASK_eq_0: "w AND DELETE_MASK = 0 \<longleftrightarrow> \<not> bit w 31" for w :: "32 word"
proof
  assume "w AND DELETE_MASK = 0"
  then have "\<not> bit (w AND DELETE_MASK) 31" by simp
  then show "\<not> bit w 31" by (simp add: bit_and_iff bit_DELETE_MASK)
next
  assume "\<not> bit w 31"
  then show "w AND DELETE_MASK = 0"
    by (intro bit_word_eqI) (auto simp: bit_and_iff bit_DELETE_MASK)
qed

lemma value_len_untagged: "\<not> bit w 31 \<Longrightarrow> w AND VALUE_LEN_MASK = w" for w :: "32 word"
  by (rule bit_word_eqI) (auto simp: VALUE_LEN_MASK_def bit_and_iff bit_not_iff bit_DELETE_MASK)

lemma value_len_tagged: "bit w 31 \<Longrightarrow> w AND VALUE_LEN_MASK = 0 \<Longrightarrow> w = DELETE_MASK" for w :: "32 word"
proof (rule bit_word_eqI)
  fix n assume "bit w 31" "w AND VALUE_LEN_MASK = 0" "n < LENGTH(32)"
  then have "\<not> bit (w AND VALUE_LEN_MASK) n" by simp
  with \<open>bit w 31\<close> \<open>n < LENGTH(32)\<close> show "bit w n = bit DELETE_MASK n"
    by (auto simp: VALUE_LEN_MASK_def bit_and_iff bit_not_iff bit_DELETE_MASK)
qed

lemma length_tag_clear: "n \<le> MAX_VALUE_BYTES \<Longrightarrow> \<not> bit (word_of_nat n :: 32 word) 31"
proof -
  assume "n \<le> MAX_VALUE_BYTES"
  then have "n < 2 ^ 31" by (simp add: rrf_consts)
  then have "\<not> bit n 31" by (simp add: bit_iff_odd)
  then show ?thesis by (simp add: bit_of_nat_iff)
qed

lemma unat_u32_of_nat: "n \<le> u32_max \<Longrightarrow> unat (word_of_nat n :: 32 word) = n"
  by (simp add: unat_of_nat rrf_consts)

definition op_tag :: "mutation \<Rightarrow> 32 word" where
  "op_tag m = (case mutation_value m of Some v \<Rightarrow> word_of_nat (length v) | None \<Rightarrow> DELETE_MASK)"

definition op_image :: "mutation \<Rightarrow> bytes" where
  "op_image m = be_bytes 4 (length (mutation_key m)) @ be_bytes 4 (unat (op_tag m))
     @ mutation_key m @ (case mutation_value m of Some v \<Rightarrow> v | None \<Rightarrow> [])"

lemma length_op_image [simp]: "length (op_image m) = mutation_size m"
  by (simp add: op_image_def mutation_size_def op_size_def OP_HEADER_BYTES_def split: option.splits)

lemma encode_op_ok: "mutation_ok m \<Longrightarrow> encode_op m = Inr (op_image m)"
  by (cases m) (auto simp: encode_op_def op_image_def op_tag_def mutation_ok_def u32_try_from_def rrf_consts)

lemma encode_fold:
  "\<forall>m \<in> set ops. mutation_ok m \<Longrightarrow>
   try_fold (\<lambda>output m. rbind (encode_op m) (\<lambda>bs. Inr (output @ bs))) acc ops
     = Inr (acc @ concat (map op_image ops))"
  by (induction ops arbitrary: acc) (auto simp: encode_op_ok)

definition batch_header :: "nat \<Rightarrow> bytes" where
  "batch_header count = BATCH_MAGIC @ be_bytes 2 BATCH_FORMAT_VERSION @ be_bytes 2 0 @ be_bytes 4 count"

lemma length_batch_header [simp]: "length (batch_header count) = BATCH_HEADER_BYTES"
  by (simp add: batch_header_def BATCH_MAGIC_def BATCH_HEADER_BYTES_def)

lemma batch_encode_valid:
  assumes "validate_operations (operations b) = Inr n"
  shows "batch_encode b = Inr (batch_header (length (operations b)) @ concat (map op_image (operations b)))"
proof -
  have "length (operations b) \<le> u32_max" "\<forall>m \<in> set (operations b). mutation_ok m"
    using assms by (auto simp: validate_operations_iff rrf_consts)
  then show ?thesis
    by (simp add: batch_encode_def u32_try_from_def encode_fold batch_header_def)
qed

lemma length_concat_images: "length (concat (map op_image ops)) = sum_list (map mutation_size ops)"
  by (induction ops) auto

lemma decode_op_image:
  assumes ok: "mutation_ok m" and len: "length (pre @ op_image m @ post) \<le> u64_max"
  shows "decode_op (pre @ op_image m @ post) (length pre) = Inr (m, length pre + mutation_size m)"
proof -
  let ?k = "mutation_key m" and ?v = "case mutation_value m of Some v \<Rightarrow> v | None \<Rightarrow> []"
  let ?hdr = "be_bytes 4 (length ?k) @ be_bytes 4 (unat (op_tag m))"
  let ?bs = "pre @ op_image m @ post"
  have bs1: "?bs = pre @ ?hdr @ (?k @ ?v @ post)" by (simp add: op_image_def)
  have bs2: "?bs = (pre @ ?hdr) @ (?k @ ?v) @ post" by (simp add: op_image_def)
  have header: "slice_get ?bs (length pre) (length pre + 8) = Some ?hdr"
    unfolding bs1 using slice_get_append [of pre ?hdr "?k @ ?v @ post"] by simp
  have body: "slice_get ?bs (length pre + 8) (length pre + 8 + (length ?k + length ?v)) = Some (?k @ ?v)"
    unfolding bs2 using slice_get_append [of "pre @ ?hdr" "?k @ ?v" post] by simp
  have klen: "be_nat (be_bytes 4 (length ?k)) = length ?k"
    using ok by (intro be_nat_be_bytes_id) (auto simp: mutation_ok_def rrf_consts)
  have tag: "be_nat (be_bytes 4 (unat (op_tag m))) = unat (op_tag m)"
    by (rule be_nat_be_bytes_id) (use unsigned_less [of "op_tag m", where 'a = nat] in simp)
  have size: "mutation_size m = 8 + length ?k + length ?v"
    by (auto simp: mutation_size_def op_size_def OP_HEADER_BYTES_def split: option.splits)
  show ?thesis
  proof (cases m)
    case (Put k v)
    have v: "length v \<le> MAX_VALUE_BYTES" using ok Put by (simp add: mutation_ok_def)
    have "unat (op_tag m) = length v"
      using v Put by (simp add: op_tag_def unat_u32_of_nat rrf_consts)
    with Put header body klen tag size ok len v show ?thesis
      by (auto simp: decode_op_def OP_HEADER_BYTES_def Let_def mutation_ok_def op_tag_def
          and_DELETE_MASK_eq_0 length_tag_clear value_len_untagged checked_add_def add.assoc)
  next
    case (Delete k)
    have "op_tag m = DELETE_MASK" using Delete by (simp add: op_tag_def)
    moreover have "DELETE_MASK AND DELETE_MASK \<noteq> 0"
      unfolding and_DELETE_MASK_eq_0 by (simp add: bit_DELETE_MASK)
    moreover have "DELETE_MASK AND VALUE_LEN_MASK = 0" by (simp add: VALUE_LEN_MASK_def)
    ultimately show ?thesis using Delete header body klen tag size ok len
      by (auto simp: decode_op_def OP_HEADER_BYTES_def Let_def mutation_ok_def checked_add_def add.assoc)
  qed
qed

lemma decode_op_inv:
  assumes dec: "decode_op bs c = Inr (m, e)"
  shows "mutation_ok m \<and> e = c + mutation_size m \<and> e \<le> length bs
    \<and> take (mutation_size m) (drop c bs) = op_image m"
proof -
  define h where "h = take 8 (drop c bs)"
  define hk where "hk = take 4 h"
  define ht where "ht = take 4 (drop 4 h)"
  define kl where "kl = be_nat hk"
  define tag where "tag = (word_of_nat (be_nat ht) :: 32 word)"
  define vl where "vl = unat (tag AND VALUE_LEN_MASK)"
  define body where "body = take (kl + vl) (drop (c + 8) bs)"
  note defs = h_def hk_def ht_def kl_def tag_def vl_def body_def
  from dec have kl: "kl \<noteq> 0" "kl \<le> MAX_KEY_BYTES" and vl: "vl \<le> MAX_VALUE_BYTES"
    and e: "e = c + 8 + kl + vl" and le: "e \<le> length bs"
    and notag: "\<not> (bit tag 31 \<and> vl \<noteq> 0)"
    and m: "m = (if bit tag 31 then Delete (take kl body) else Put (take kl body) (drop kl body))"
    unfolding defs
    by (auto simp: decode_op_def Let_def rrf_res bind_eq_Some_conv OP_HEADER_BYTES_def
        and_DELETE_MASK_eq_0 add.assoc simp del: rbind_simps split: if_splits)
  have blen: "length body = kl + vl" using e le by (simp add: body_def)
  have parts: "take (8 + (kl + vl)) (drop c bs) = h @ body"
    using take_add [of 8 "kl + vl" "drop c bs"] by (simp add: h_def body_def add.commute [of 8])
  have hlen: "length h = 8" using e le by (simp add: h_def)
  then have lens: "length hk = 4" "length ht = 4" and h: "h = hk @ ht"
    by (simp_all add: hk_def ht_def)
  have hk: "be_bytes 4 kl = hk"
    using be_bytes_be_nat [of hk] lens(1) by (simp add: kl_def)
  have "be_nat ht \<le> u32_max" using be_nat_bound [of ht] lens(2) by (simp add: rrf_consts)
  then have ht: "be_bytes 4 (unat tag) = ht"
    using be_bytes_be_nat [of ht] lens(2) by (simp add: tag_def unat_u32_of_nat)
  show ?thesis
  proof (cases "bit tag 31")
    case True
    have v0: "vl = 0" using notag True by simp
    then have "tag AND VALUE_LEN_MASK = 0" unfolding vl_def by (simp only: unsigned_eq_0_iff)
    with True have tag: "tag = DELETE_MASK" by (rule value_len_tagged)
    have md: "m = Delete body" using m True v0 blen by simp
    have "op_image m = h @ body"
      using md tag hk ht h blen v0 by (simp add: op_image_def op_tag_def)
    moreover have "mutation_size m = 8 + (kl + vl)"
      using md blen v0 by (simp add: mutation_size_def op_size_def OP_HEADER_BYTES_def)
    ultimately show ?thesis using md kl vl e le blen v0 parts
      by (auto simp: mutation_ok_def)
  next
    case False
    have vt: "vl = unat tag" using value_len_untagged [OF False] by (simp add: vl_def)
    define k v where "k = take kl body" and "v = drop kl body"
    have kv: "body = k @ v" "length k = kl" "length v = vl" using blen by (simp_all add: k_def v_def)
    have mp: "m = Put k v" using m False by (simp add: k_def v_def)
    have tag: "op_tag m = tag" using mp kv vt by (simp add: op_tag_def)
    have "op_image m = h @ body"
      using mp tag hk ht h kv by (simp add: op_image_def)
    moreover have "mutation_size m = 8 + (kl + vl)"
      using mp kv by (simp add: mutation_size_def op_size_def OP_HEADER_BYTES_def)
    ultimately show ?thesis using mp kl vl e le kv parts
      by (auto simp: mutation_ok_def)
  qed
qed

lemma decode_ops_images:
  "\<forall>m \<in> set ops. mutation_ok m \<Longrightarrow> length (pre @ concat (map op_image ops)) \<le> u64_max \<Longrightarrow>
   decode_ops (length ops) (pre @ concat (map op_image ops)) (length pre)
     = Inr (ops, length pre + sum_list (map mutation_size ops))"
proof (induction ops arbitrary: pre)
  case (Cons m ops)
  have "decode_op (pre @ op_image m @ concat (map op_image ops)) (length pre)
      = Inr (m, length pre + mutation_size m)"
    using Cons.prems by (intro decode_op_image) auto
  with Cons.IH [of "pre @ op_image m"] Cons.prems show ?case by (simp add: add.assoc)
qed simp

lemma decode_ops_inv:
  "decode_ops n bs c = Inr (ops, e) \<Longrightarrow> c \<le> length bs \<Longrightarrow>
   length ops = n \<and> (\<forall>m \<in> set ops. mutation_ok m) \<and> e = c + sum_list (map mutation_size ops)
   \<and> e \<le> length bs \<and> take (e - c) (drop c bs) = concat (map op_image ops)"
proof (induction n bs c arbitrary: ops rule: decode_ops.induct)
  case (2 n bs c)
  from "2.prems"(1) obtain m c' ms where one: "decode_op bs c = Inr (m, c')"
    and rest: "decode_ops n bs c' = Inr (ms, e)" and ops: "ops = m # ms"
    by (auto simp: rbind_Inr)
  note d = decode_op_inv [OF one]
  have ih: "length ms = n \<and> (\<forall>m \<in> set ms. mutation_ok m) \<and> e = c' + sum_list (map mutation_size ms)
      \<and> e \<le> length bs \<and> take (e - c') (drop c' bs) = concat (map op_image ms)"
    by (rule "2.IH" [OF one refl rest]) (use d in simp)
  have "take (e - c) (drop c bs) = take (mutation_size m) (drop c bs) @ take (e - c') (drop c' bs)"
    using d ih take_add [of "mutation_size m" "e - c'" "drop c bs"] by (simp add: add.commute)
  with d ih ops show ?case by auto
qed simp

section \<open>Round trips\<close>

lemma header_fields:
  assumes "count \<le> MAX_OPERATIONS"
  shows "take 8 (batch_header count @ rest) = BATCH_MAGIC"
    "be_nat (take 2 (drop 8 (batch_header count @ rest))) = BATCH_FORMAT_VERSION"
    "take 2 (drop 10 (batch_header count @ rest)) = [0, 0]"
    "be_nat (take 4 (drop 12 (batch_header count @ rest))) = count"
proof -
  have magic: "length BATCH_MAGIC = 8" by (simp add: BATCH_MAGIC_def)
  show "take 8 (batch_header count @ rest) = BATCH_MAGIC"
    by (simp add: batch_header_def magic)
  show "be_nat (take 2 (drop 8 (batch_header count @ rest))) = BATCH_FORMAT_VERSION"
    by (simp add: batch_header_def magic be_nat_be_bytes rrf_consts)
  show "take 2 (drop 10 (batch_header count @ rest)) = [0, 0]"
    by (simp add: batch_header_def magic numeral_2_eq_2)
  have "be_nat (be_bytes 4 count) = count"
    by (rule be_nat_be_bytes_id) (use assms in \<open>simp add: rrf_consts\<close>)
  then show "be_nat (take 4 (drop 12 (batch_header count @ rest))) = count"
    by (simp add: batch_header_def magic)
qed

lemma header_from_fields:
  assumes "BATCH_HEADER_BYTES \<le> length bs" and "take 8 bs = BATCH_MAGIC"
    and "be_nat (take 2 (drop 8 bs)) = BATCH_FORMAT_VERSION" and "take 2 (drop 10 bs) = [0, 0]"
  shows "take BATCH_HEADER_BYTES bs = batch_header (be_nat (take 4 (drop 12 bs)))"
proof -
  have split: "take 16 bs = take 8 bs @ take 2 (drop 8 bs) @ take 2 (drop 10 bs) @ take 4 (drop 12 bs)"
    using take_add [of 8 8 bs] take_add [of 2 6 "drop 8 bs"] take_add [of 2 4 "drop 10 bs"] by simp
  have "be_bytes 2 BATCH_FORMAT_VERSION = take 2 (drop 8 bs)"
    using be_bytes_be_nat [of "take 2 (drop 8 bs)"] assms(1,3) by (simp add: BATCH_HEADER_BYTES_def)
  moreover have "be_bytes 4 (be_nat (take 4 (drop 12 bs))) = take 4 (drop 12 bs)"
    using be_bytes_be_nat [of "take 4 (drop 12 bs)"] assms(1) by (simp add: BATCH_HEADER_BYTES_def)
  moreover have "be_bytes 2 0 = [0, 0]" by (simp add: numeral_2_eq_2)
  ultimately show ?thesis using split assms(2,4)
    by (simp add: batch_header_def BATCH_HEADER_BYTES_def)
qed

lemma batch_decode_image:
  assumes "write_batch_new ops = Inr b"
  shows "batch_decode (batch_header (length ops) @ concat (map op_image ops)) = Inr b"
proof -
  from assms have v: "validate_operations ops = Inr (encoded_len b)" by (simp add: write_batch_new_iff)
  let ?bs = "batch_header (length ops) @ concat (map op_image ops)"
  have ok: "\<forall>m \<in> set ops. mutation_ok m" and count: "length ops \<le> MAX_OPERATIONS" "ops \<noteq> []"
    and len: "length ?bs = encoded_len b" "encoded_len b \<le> WAL_MAX_PAYLOAD_BYTES"
    using v by (auto simp: validate_operations_iff length_concat_images)
  have dec: "decode_ops (length ops) ?bs BATCH_HEADER_BYTES = Inr (ops, length ?bs)"
    using decode_ops_images [OF ok, of "batch_header (length ops)"] len
    by (simp add: length_concat_images rrf_consts)
  have "batch_decode ?bs = write_batch_new ops"
    using len count dec header_fields [OF count(1), of "concat (map op_image ops)"]
    by (simp add: batch_decode_def Let_def)
  with assms show ?thesis by simp
qed

text \<open>
  (C15) Every admitted batch is encodable, the encoding has exactly the length the admission
  accounting charged, and decoding the encoding gives the batch back.
\<close>

theorem batch_roundtrip:
  assumes "write_batch_new ops = Inr b"
  shows "\<exists>bs. batch_encode b = Inr bs \<and> length bs = encoded_len b \<and> batch_decode bs = Inr b"
proof -
  from assms have v: "validate_operations ops = Inr (encoded_len b)" and ops: "operations b = ops"
    by (simp_all add: write_batch_new_iff)
  have "batch_encode b = Inr (batch_header (length ops) @ concat (map op_image ops))"
    using batch_encode_valid v ops by simp
  moreover have "length (batch_header (length ops) @ concat (map op_image ops)) = encoded_len b"
    using v by (simp add: validate_operations_iff length_concat_images)
  ultimately show ?thesis using batch_decode_image [OF assms] by blast
qed

theorem batch_roundtrip_witness:
  "\<exists>b bs. write_batch_new [Put [1] [2], Delete [3]] = Inr b \<and> batch_encode b = Inr bs
     \<and> length bs = encoded_len b \<and> batch_decode bs = Inr b"
proof -
  have "write_batch_new [Put [1] [2], Delete [3]]
      = Inr \<lparr>operations = [Put [1] [2], Delete [3]], encoded_len = 35\<rparr>"
    by (simp add: write_batch_new_iff validate_operations_iff mutation_ok_def mutation_size_def
        op_size_def rrf_consts)
  then show ?thesis using batch_roundtrip by blast
qed

text \<open>
  (C16) Decoding is canonical: a byte string that decodes to a batch is the one encoding of
  that batch, so two different byte strings never denote the same batch, and whatever is
  decoded has passed admission.
\<close>

theorem batch_decode_canonical:
  assumes "batch_decode bs = Inr b"
  shows "batch_encode b = Inr bs \<and> write_batch_new (operations b) = Inr b"
proof -
  from assms obtain ops where hdr: "BATCH_HEADER_BYTES \<le> length bs" "take 8 bs = BATCH_MAGIC"
      "be_nat (take 2 (drop 8 bs)) = BATCH_FORMAT_VERSION" "take 2 (drop 10 bs) = [0, 0]"
    and dec: "decode_ops (be_nat (take 4 (drop 12 bs))) bs BATCH_HEADER_BYTES = Inr (ops, length bs)"
    and new: "write_batch_new ops = Inr b"
    by (auto simp: batch_decode_def Let_def rrf_res not_less simp del: rbind_simps
        simp flip: write_batch_new_iff)
  from new have v: "validate_operations (operations b) = Inr (encoded_len b)" and ops: "operations b = ops"
    by (simp_all add: write_batch_new_iff)
  note inv = decode_ops_inv [OF dec hdr(1)]
  have "bs = take BATCH_HEADER_BYTES bs @ drop BATCH_HEADER_BYTES bs" by simp
  also have "\<dots> = batch_header (length ops) @ concat (map op_image ops)"
    using inv header_from_fields [OF hdr] by simp
  finally have "batch_encode b = Inr bs" using batch_encode_valid [OF v] ops by simp
  with new ops show ?thesis by simp
qed

theorem batch_decode_canonical_witness:
  "\<exists>bs b. batch_decode bs = Inr b \<and> operations b = [Put [7] [8, 9]] \<and> batch_encode b = Inr bs"
proof -
  have "write_batch_new [Put [7] [8, 9]] = Inr \<lparr>operations = [Put [7] [8, 9]], encoded_len = 27\<rparr>"
    by (simp add: write_batch_new_iff validate_operations_iff mutation_ok_def mutation_size_def
        op_size_def rrf_consts)
  then have "batch_decode (batch_header 1 @ op_image (Put [7] [8, 9]))
      = Inr \<lparr>operations = [Put [7] [8, 9]], encoded_len = 27\<rparr>"
    using batch_decode_image [of "[Put [7] [8, 9]]"] by simp
  then show ?thesis using batch_decode_canonical by fastforce
qed

end
