(* ===== verification/Recovery_Budget.thy ===== *)
theory Recovery_Budget
  imports Lsm_Error
begin

text \<open>
  Admission of recovery work (\<open>rrd-lsm/src/recovery_budget.rs\<close>). The monotonic clock is the
  argument \<open>clock\<close>: \<open>clock i\<close> is the elapsed time, in milliseconds, that the \<open>i\<close>-th reading
  observes; the budget counts its readings. What the file system answers when a metadata
  file is opened and read is the record \<open>metadata_file\<close>.
\<close>

record recovery_limits =
  rl_metadata_bytes :: nat
  rl_files :: nat
  rl_read_bytes :: nat
  rl_wal_bytes :: nat
  rl_wal_frames :: nat
  rl_elapsed_ms :: nat

definition recovery_limits_default :: recovery_limits where
  "recovery_limits_default = \<lparr>rl_metadata_bytes = 67108864, rl_files = 262144,
     rl_read_bytes = 1099511627776, rl_wal_bytes = 268435456, rl_wal_frames = 1048576,
     rl_elapsed_ms = 120000\<rparr>"

definition recovery_limits_validate :: "recovery_limits \<Rightarrow> unit res" where
  "recovery_limits_validate l = fail_if
     (0 \<in> set [rl_metadata_bytes l, rl_files l, rl_read_bytes l, rl_wal_bytes l, rl_wal_frames l,
               rl_elapsed_ms l])
     (InvalidConfiguration ''recovery limits must be positive'')"

record recovery_budget =
  bud_limits :: recovery_limits
  bud_files :: nat
  bud_read_bytes :: nat
  bud_metadata_bytes :: nat
  bud_frames :: nat
  bud_readings :: nat

definition budget_new :: "recovery_limits \<Rightarrow> recovery_budget" where
  "budget_new l = \<lparr>bud_limits = l, bud_files = 0, bud_read_bytes = 0, bud_metadata_bytes = 0,
     bud_frames = 0, bud_readings = 0\<rparr>"

definition budget_check :: "recovery_resource \<Rightarrow> nat \<Rightarrow> nat \<Rightarrow> unit res" where
  "budget_check resource limit observed =
     fail_if (observed > limit) (RecoveryLimit resource limit observed)"

definition budget_tick :: "(nat \<Rightarrow> nat) \<Rightarrow> recovery_budget \<Rightarrow> recovery_budget res" where
  "budget_tick clock b =
     rbind (budget_check RecoveryElapsedMs (rl_elapsed_ms (bud_limits b)) (clock (bud_readings b))) (\<lambda>_.
     Inr (b\<lparr>bud_readings := bud_readings b + 1\<rparr>))"

definition budget_file :: "(nat \<Rightarrow> nat) \<Rightarrow> recovery_budget \<Rightarrow> nat \<Rightarrow> recovery_budget res" where
  "budget_file clock b n =
     rbind (budget_tick clock b) (\<lambda>b.
     rbind (ok_or (InvalidManifest ''recovery file count overflow'') (checked_add (bud_files b) 1)) (\<lambda>files.
     rbind (ok_or (InvalidManifest ''recovery read charge overflow'')
              (checked_add (bud_read_bytes b) n)) (\<lambda>read.
     rbind (budget_check RecoveryFiles (rl_files (bud_limits b)) files) (\<lambda>_.
     rbind (budget_check RecoveryReadBytes (rl_read_bytes (bud_limits b)) read) (\<lambda>_.
     Inr (b\<lparr>bud_files := files, bud_read_bytes := read\<rparr>))))))"

definition budget_wal :: "(nat \<Rightarrow> nat) \<Rightarrow> recovery_budget \<Rightarrow> nat \<Rightarrow> recovery_budget res" where
  "budget_wal clock b n =
     rbind (budget_check RecoveryWalBytes (rl_wal_bytes (bud_limits b)) n) (\<lambda>_.
     budget_file clock b n)"

definition budget_frame :: "(nat \<Rightarrow> nat) \<Rightarrow> recovery_budget \<Rightarrow> recovery_budget res" where
  "budget_frame clock b =
     rbind (budget_tick clock b) (\<lambda>b.
     rbind (ok_or (InvalidManifest ''recovery frame count overflow'') (checked_add (bud_frames b) 1)) (\<lambda>frames.
     rbind (budget_check RecoveryWalFrames (rl_wal_frames (bud_limits b)) frames) (\<lambda>_.
     Inr (b\<lparr>bud_frames := frames\<rparr>))))"

record metadata_file =
  mf_regular :: bool
  mf_len :: nat
  mf_content :: bytes

definition budget_metadata ::
  "(nat \<Rightarrow> nat) \<Rightarrow> io_error + metadata_file \<Rightarrow> recovery_budget \<Rightarrow> (bytes \<times> recovery_budget) res" where
  "budget_metadata clock opened b =
     rbind (budget_tick clock b) (\<lambda>b.
     rbind (case opened of Inl e \<Rightarrow> Inl (Io e) | Inr file \<Rightarrow> Inr file) (\<lambda>file.
     rbind (fail_if (\<not> mf_regular file)
              (InvalidManifest ''recovery metadata is not a regular file'')) (\<lambda>_.
     rbind (ok_or (InvalidManifest ''recovery metadata charge overflow'')
              (checked_add (bud_metadata_bytes b) (mf_len file))) (\<lambda>next.
     rbind (budget_check RecoveryMetadataBytes (rl_metadata_bytes (bud_limits b)) next) (\<lambda>_.
     rbind (budget_file clock b (mf_len file)) (\<lambda>b.
     let read = take (saturating_add (mf_len file) 1) (mf_content file) in
     rbind (fail_if (length read \<noteq> mf_len file)
              (InvalidManifest ''recovery metadata changed while reading'')) (\<lambda>_.
     rbind (budget_tick clock (b\<lparr>bud_metadata_bytes := next\<rparr>)) (\<lambda>b.
     Inr (read, b)))))))))"

text \<open>The admitted totals never pass the configured limits.\<close>

definition budget_within :: "recovery_budget \<Rightarrow> bool" where
  "budget_within b \<longleftrightarrow> bud_files b \<le> rl_files (bud_limits b)
     \<and> bud_read_bytes b \<le> rl_read_bytes (bud_limits b) \<and> bud_frames b \<le> rl_wal_frames (bud_limits b)
     \<and> bud_metadata_bytes b \<le> rl_metadata_bytes (bud_limits b)"

lemma budget_new_within: "budget_within (budget_new l)"
  by (simp add: budget_within_def budget_new_def)

lemma budget_tick_Inr [rrf_res]:
  "budget_tick clock b = Inr b' \<longleftrightarrow>
     clock (bud_readings b) \<le> rl_elapsed_ms (bud_limits b) \<and> b' = b\<lparr>bud_readings := bud_readings b + 1\<rparr>"
  by (auto simp: budget_tick_def budget_check_def rbind_Inr fail_if_Inr)

lemma budget_file_Inr [rrf_res]:
  "budget_file clock b n = Inr b' \<longleftrightarrow>
     clock (bud_readings b) \<le> rl_elapsed_ms (bud_limits b)
     \<and> bud_files b + 1 \<le> min u64_max (rl_files (bud_limits b))
     \<and> bud_read_bytes b + n \<le> min u64_max (rl_read_bytes (bud_limits b))
     \<and> b' = b\<lparr>bud_readings := bud_readings b + 1, bud_files := bud_files b + 1,
               bud_read_bytes := bud_read_bytes b + n\<rparr>"
  by (auto simp: budget_file_def budget_check_def rbind_Inr fail_if_Inr ok_or_Inr budget_tick_Inr)

lemma budget_frame_Inr [rrf_res]:
  "budget_frame clock b = Inr b' \<longleftrightarrow>
     clock (bud_readings b) \<le> rl_elapsed_ms (bud_limits b)
     \<and> bud_frames b + 1 \<le> min u64_max (rl_wal_frames (bud_limits b))
     \<and> b' = b\<lparr>bud_readings := bud_readings b + 1, bud_frames := bud_frames b + 1\<rparr>"
  by (auto simp: budget_frame_def budget_check_def rbind_Inr fail_if_Inr ok_or_Inr budget_tick_Inr)

lemma budget_within_steps:
  assumes "budget_within b"
  shows "budget_tick clock b = Inr b' \<Longrightarrow> budget_within b'"
    and "budget_file clock b n = Inr b' \<Longrightarrow> budget_within b'"
    and "budget_wal clock b n = Inr b' \<Longrightarrow> budget_within b'"
    and "budget_frame clock b = Inr b' \<Longrightarrow> budget_within b'"
  using assms by (auto simp: budget_wal_def budget_check_def budget_within_def rrf_res)

lemma budget_within_metadata:
  "budget_within b \<Longrightarrow> budget_metadata clock opened b = Inr (bs, b') \<Longrightarrow> budget_within b'"
  by (auto simp: budget_metadata_def budget_check_def budget_within_def Let_def rrf_res
      simp del: rbind_simps)

end
