(* ===== verification/Wal.thy ===== *)
theory Wal
  imports Batch Recovery_Budget "HOL-Library.Sublist"
begin

text \<open>
  The write-ahead log (\<open>rrd-lsm/src/wal.rs\<close>). A log file is a sixteen-byte checked header
  followed by frames; a frame is a thirty-two-byte record header (magic, version, kind,
  flags, payload length, first and last sequence, checksum) and the payload.

  A file is the byte string it holds. The checksum is the third-party function
  \<open>crc32c_append\<close>, the argument \<open>crc\<close> of the definitions. What the operating system does is
  an argument too: a list of outcomes of successive write calls (interrupted, failed, or
  the number of bytes accepted, at most the bytes offered), and the outcomes of admission,
  opening and syncing. A list of outcomes that ends before the bytes do is a process that
  stops there; such an operation has the result \<open>None\<close> and leaves the bytes written so far.
  The recovery functions take the length that the file reports after the scan as the
  argument \<open>later\<close>. Phase timing, block reservation, and read errors are not modelled.
\<close>

section \<open>Constants and data\<close>

definition WAL_FORMAT_VERSION :: nat where [rrf_consts]: "WAL_FORMAT_VERSION = 1"
definition FILE_MAGIC :: bytes where "FILE_MAGIC = [82, 82, 68, 87, 65, 76, 48, 49]"
definition RECORD_MAGIC :: bytes where "RECORD_MAGIC = [82, 82, 68, 49]"
definition FILE_HEADER_BYTES :: nat where [rrf_consts]: "FILE_HEADER_BYTES = 16"
definition RECORD_HEADER_BYTES :: nat where [rrf_consts]: "RECORD_HEADER_BYTES = 32"
definition RECORD_KIND_BATCH :: byte where "RECORD_KIND_BATCH = 1"

datatype durability = Buffered | Authoritative

record wal_batch =
  wb_first_sequence :: nat
  wb_last_sequence :: nat
  wb_payload :: bytes

record append_receipt =
  ar_offset :: nat
  ar_end_offset :: nat
  ar_first_sequence :: nat
  ar_last_sequence :: nat
  ar_checksum :: "32 word"
  ar_durable :: bool

record recovered_batch =
  rb_offset :: nat
  rb_first_sequence :: nat
  rb_last_sequence :: nat
  rb_checksum :: "32 word"
  rb_payload :: bytes

record recovery_summary =
  rs_recovered_through :: nat
  rs_valid_bytes :: nat
  rs_torn_tail :: "nat option"
  rs_payload_bytes :: nat

record recovery =
  rec_batches :: "recovered_batch list"
  rec_recovered_through :: nat
  rec_valid_bytes :: nat
  rec_torn_tail :: "nat option"

record wal_writer =
  wal_file :: bytes
  wal_offset :: nat
  wal_next_sequence :: nat
  wal_poisoned :: bool

datatype os_write = Interrupted | Refused io_error | Accepted nat

datatype os_sync = SyncOk | SyncFailed io_error | SyncStopped

record wal_io =
  io_admit :: "lsm_error option"
  io_writes :: "os_write list"
  io_sync :: os_sync

record create_io =
  cio_admit :: "lsm_error option"
  cio_open :: "io_error option"
  cio_writes :: "os_write list"
  cio_sync :: os_sync
  cio_sync_dir :: os_sync

type_synonym crc_fn = "32 word \<Rightarrow> bytes \<Rightarrow> 32 word"

definition crc32c :: "crc_fn \<Rightarrow> bytes list \<Rightarrow> 32 word" where
  "crc32c crc chunks = foldl crc 0 chunks"

definition wal_batch_validate :: "wal_batch \<Rightarrow> unit res" where
  "wal_batch_validate b =
     rbind (fail_if (wb_first_sequence b = 0 \<or> wb_last_sequence b < wb_first_sequence b
                     \<or> wb_last_sequence b = u64_max)
       (InvalidBatch ''sequence range must be non-zero, ordered, and leave room for its successor'')) (\<lambda>_.
     rbind (fail_if (wb_payload b = []) (InvalidBatch ''payload must not be empty'')) (\<lambda>_.
     fail_if (length (wb_payload b) > WAL_MAX_PAYLOAD_BYTES)
       (InvalidBatch ''payload is longer than the maximum'')))"

section \<open>Headers\<close>

definition file_header :: "crc_fn \<Rightarrow> bytes" where
  "file_header crc =
     (let fields = FILE_MAGIC @ be_bytes 2 WAL_FORMAT_VERSION @ be_bytes 2 FILE_HEADER_BYTES
      in fields @ be_bytes 4 (unat (crc32c crc [fields])))"

definition validate_file_header :: "crc_fn \<Rightarrow> bytes \<Rightarrow> unit res" where
  "validate_file_header crc header =
     rbind (fail_if (take 8 header \<noteq> FILE_MAGIC) (Corruption 0 ''WAL file magic does not match'')) (\<lambda>_.
     let version = be_nat (take 2 (drop 8 header)) in
     rbind (fail_if (version \<noteq> WAL_FORMAT_VERSION) (UnsupportedVersion ''WAL'' version)) (\<lambda>_.
     rbind (fail_if (be_nat (take 2 (drop 10 header)) \<noteq> FILE_HEADER_BYTES)
              (Corruption 10 ''unexpected WAL header length'')) (\<lambda>_.
     fail_if (crc32c crc [take 12 header] \<noteq> word_of_nat (be_nat (take 4 (drop 12 header))))
              (Corruption 0 ''WAL header checksum mismatch''))))"

definition record_fields :: "wal_batch \<Rightarrow> bytes" where
  "record_fields b = be_bytes 2 WAL_FORMAT_VERSION @ [RECORD_KIND_BATCH, 0]
     @ be_bytes 4 (length (wb_payload b)) @ be_bytes 8 (wb_first_sequence b)
     @ be_bytes 8 (wb_last_sequence b)"

definition record_header :: "crc_fn \<Rightarrow> wal_batch \<Rightarrow> bytes res" where
  "record_header crc b =
     (if length (wb_payload b) \<le> u32_max
      then Inr (RECORD_MAGIC @ record_fields b
             @ be_bytes 4 (unat (crc32c crc [record_fields b, wb_payload b])))
      else Inl (InvalidBatch ''payload length exceeds u32''))"

record decoded_header =
  dh_payload_len :: nat
  dh_first_sequence :: nat
  dh_last_sequence :: nat
  dh_checksum :: "32 word"

definition decode_record_header :: "bytes \<Rightarrow> nat \<Rightarrow> decoded_header res" where
  "decode_record_header header offset =
     rbind (fail_if (take 4 header \<noteq> RECORD_MAGIC) (Corruption offset ''record magic does not match'')) (\<lambda>_.
     let version = be_nat (take 2 (drop 4 header)) in
     rbind (fail_if (version \<noteq> WAL_FORMAT_VERSION) (UnsupportedVersion ''WAL record'' version)) (\<lambda>_.
     rbind (fail_if (take 2 (drop 6 header) \<noteq> [RECORD_KIND_BATCH, 0])
              (Corruption offset ''unknown WAL record kind or flags'')) (\<lambda>_.
     let payload_len = be_nat (take 4 (drop 8 header)) in
     rbind (fail_if (payload_len = 0 \<or> payload_len > WAL_MAX_PAYLOAD_BYTES)
              (Corruption offset ''invalid payload length'')) (\<lambda>_.
     let first_sequence = be_nat (take 8 (drop 12 header));
         last_sequence = be_nat (take 8 (drop 20 header)) in
     rbind (fail_if (first_sequence = 0 \<or> last_sequence < first_sequence)
              (Corruption offset ''invalid record sequence range'')) (\<lambda>_.
     Inr \<lparr>dh_payload_len = payload_len, dh_first_sequence = first_sequence,
          dh_last_sequence = last_sequence,
          dh_checksum = word_of_nat (be_nat (take 4 (drop 28 header)))\<rparr>)))))"

section \<open>Writing\<close>

text \<open>The native write loops of \<open>filesystem/io.rs\<close>: bytes written, how it ended, outcomes left.\<close>

datatype write_end = Written | WriteFailed io_error | WriteStopped

fun write_all :: "os_write list \<Rightarrow> bytes \<Rightarrow> bytes \<times> write_end \<times> os_write list" where
  "write_all outs bs =
     (if bs = [] then ([], Written, outs)
      else case outs of
        [] \<Rightarrow> ([], WriteStopped, [])
      | Interrupted # outs' \<Rightarrow> write_all outs' bs
      | Refused e # outs' \<Rightarrow> ([], WriteFailed e, outs')
      | Accepted n # outs' \<Rightarrow>
          if n = 0 then ([], WriteFailed WriteZero, outs')
          else (case write_all outs' (drop n bs) of (ws, r, left) \<Rightarrow> (take n bs @ ws, r, left)))"

declare write_all.simps [simp del]

text \<open>The write closure of \<open>append_inner\<close>: one vectored write, then the remainders.\<close>

fun write_frame :: "os_write list \<Rightarrow> bytes \<Rightarrow> bytes \<Rightarrow> bytes \<times> write_end" where
  "write_frame [] header payload = ([], WriteStopped)"
| "write_frame (Interrupted # outs) header payload = write_frame outs header payload"
| "write_frame (Refused e # outs) header payload = ([], WriteFailed e)"
| "write_frame (Accepted written # outs) header payload =
     (if written = 0 then ([], WriteFailed WriteZero)
      else if written < length header then
        (case write_all outs (drop written header) of
           (ws, Written, outs') \<Rightarrow>
             (case write_all outs' payload of (ws', r, _) \<Rightarrow> (take written header @ ws @ ws', r))
         | (ws, r, _) \<Rightarrow> (take written header @ ws, r))
      else
        (case write_all outs (drop (written - length header) payload) of
           (ws, r, _) \<Rightarrow> (header @ take (written - length header) payload @ ws, r)))"

text \<open>\<open>create_at\<close>: the result and what the new file holds, if one was made.\<close>

definition wal_create_at ::
  "crc_fn \<Rightarrow> create_io \<Rightarrow> nat \<Rightarrow> wal_writer res option \<times> bytes option" where
  "wal_create_at crc io next_sequence =
     (if next_sequence = 0
      then (Some (Inl (InvalidBatch ''WAL starting sequence must be non-zero'')), None)
      else case cio_admit io of Some e \<Rightarrow> (Some (Inl e), None) | None \<Rightarrow>
      (case cio_open io of Some e \<Rightarrow> (Some (Inl (Io e)), None) | None \<Rightarrow>
      (case write_all (cio_writes io) (file_header crc) of
         (ws, WriteStopped, _) \<Rightarrow> (None, Some ws)
       | (ws, WriteFailed e, _) \<Rightarrow> (Some (Inl (Io e)), Some ws)
       | (ws, Written, _) \<Rightarrow>
           (case cio_sync io of
              SyncStopped \<Rightarrow> (None, Some ws)
            | SyncFailed e \<Rightarrow> (Some (Inl (Io e)), Some ws)
            | SyncOk \<Rightarrow>
                (case cio_sync_dir io of
                   SyncStopped \<Rightarrow> (None, Some ws)
                 | SyncFailed e \<Rightarrow> (Some (Inl (Io e)), Some ws)
                 | SyncOk \<Rightarrow>
                     (Some (Inr \<lparr>wal_file = ws, wal_offset = FILE_HEADER_BYTES,
                        wal_next_sequence = next_sequence, wal_poisoned = False\<rparr>), Some ws))))))"

definition append_inner ::
  "crc_fn \<Rightarrow> wal_io \<Rightarrow> wal_writer \<Rightarrow> wal_batch \<Rightarrow> durability
     \<Rightarrow> append_receipt res option \<times> wal_writer" where
  "append_inner crc io w b durability =
     (if wal_poisoned w then (Some (Inl PoisonedWriter), w)
      else case wal_batch_validate b of Inl e \<Rightarrow> (Some (Inl e), w) | Inr _ \<Rightarrow>
      if wb_first_sequence b \<noteq> wal_next_sequence w
      then (Some (Inl (InvalidBatch ''unexpected first sequence'')), w)
      else case record_header crc b of Inl e \<Rightarrow> (Some (Inl e), w) | Inr header \<Rightarrow>
      (case Option.bind (checked_add (wal_offset w) RECORD_HEADER_BYTES)
              (\<lambda>n. checked_add n (length (wb_payload b))) of
         None \<Rightarrow> (Some (Inl (InvalidBatch ''WAL offset overflow'')), w)
       | Some end_offset \<Rightarrow>
      (case io_admit io of Some e \<Rightarrow> (Some (Inl e), w) | None \<Rightarrow>
      (case write_frame (io_writes io) header (wb_payload b) of
         (ws, WriteStopped) \<Rightarrow> (None, w\<lparr>wal_file := wal_file w @ ws\<rparr>)
       | (ws, WriteFailed e) \<Rightarrow>
           (Some (Inl (Io e)), w\<lparr>wal_file := wal_file w @ ws, wal_poisoned := True\<rparr>)
       | (ws, Written) \<Rightarrow>
           (case (if durability = Authoritative then io_sync io else SyncOk) of
              SyncStopped \<Rightarrow> (None, w\<lparr>wal_file := wal_file w @ ws\<rparr>)
            | SyncFailed e \<Rightarrow>
                (Some (Inl (Io e)), w\<lparr>wal_file := wal_file w @ ws, wal_poisoned := True\<rparr>)
            | SyncOk \<Rightarrow>
                (case checked_add (wb_last_sequence b) 1 of
                   None \<Rightarrow> (Some (Inl (InvalidBatch ''sequence overflow'')),
                            w\<lparr>wal_file := wal_file w @ ws, wal_offset := end_offset\<rparr>)
                 | Some next \<Rightarrow>
                     (Some (Inr \<lparr>ar_offset = wal_offset w, ar_end_offset = end_offset,
                           ar_first_sequence = wb_first_sequence b,
                           ar_last_sequence = wb_last_sequence b,
                           ar_checksum = word_of_nat (be_nat (take 4 (drop 28 header))),
                           ar_durable = (durability = Authoritative)\<rparr>),
                      w\<lparr>wal_file := wal_file w @ ws, wal_offset := end_offset,
                        wal_next_sequence := next\<rparr>)))))))"

text \<open>
  The caller passes the encoding it already has; the batch only supplies the number of
  sequences, one per operation.
\<close>

definition append_encoded_write_batch ::
  "crc_fn \<Rightarrow> wal_io \<Rightarrow> wal_writer \<Rightarrow> write_batch \<Rightarrow> bytes \<Rightarrow> durability
     \<Rightarrow> append_receipt res option \<times> wal_writer" where
  "append_encoded_write_batch crc io w batch payload durability =
     (case checked_add (wal_next_sequence w) (length (operations batch) - 1) of
        None \<Rightarrow> (Some (Inl (InvalidBatch ''sequence range overflow'')), w)
      | Some last_sequence \<Rightarrow>
          append_inner crc io w \<lparr>wb_first_sequence = wal_next_sequence w,
            wb_last_sequence = last_sequence, wb_payload = payload\<rparr> durability)"

definition append_write_batch ::
  "crc_fn \<Rightarrow> wal_io \<Rightarrow> wal_writer \<Rightarrow> write_batch \<Rightarrow> durability
     \<Rightarrow> append_receipt res option \<times> wal_writer" where
  "append_write_batch crc io w batch durability =
     (case batch_encode batch of
        Inl e \<Rightarrow> (Some (Inl e), w)
      | Inr payload \<Rightarrow> append_encoded_write_batch crc io w batch payload durability)"

definition wal_sync :: "os_sync \<Rightarrow> wal_writer \<Rightarrow> nat res option \<times> wal_writer" where
  "wal_sync outcome w =
     (if wal_poisoned w then (Some (Inl PoisonedWriter), w)
      else case outcome of
        SyncStopped \<Rightarrow> (None, w)
      | SyncFailed e \<Rightarrow> (Some (Inl (Io e)), w\<lparr>wal_poisoned := True\<rparr>)
      | SyncOk \<Rightarrow> (Some (Inr (saturating_sub (wal_next_sequence w) 1)), w))"

section \<open>Recovery\<close>

text \<open>
  One iteration of the scan up to the checksum comparison: \<open>None\<close> is an incomplete final
  frame, \<open>Some (batch, end)\<close> a complete valid one.
\<close>

definition read_frame :: "crc_fn \<Rightarrow> bytes \<Rightarrow> nat \<Rightarrow> nat \<Rightarrow> (recovered_batch \<times> nat) option res" where
  "read_frame crc file offset expected_sequence =
     (let remaining = length file - offset in
      if remaining < RECORD_HEADER_BYTES then Inr None
      else
        let header = take RECORD_HEADER_BYTES (drop offset file) in
        rbind (decode_record_header header offset) (\<lambda>decoded.
        rbind (fail_if (dh_first_sequence decoded \<noteq> expected_sequence)
                 (Corruption offset ''non-contiguous sequence'')) (\<lambda>_.
        rbind (ok_or (Corruption offset ''record length overflow'')
                 (Option.bind (checked_add offset RECORD_HEADER_BYTES)
                    (\<lambda>n. checked_add n (dh_payload_len decoded)))) (\<lambda>stop.
        if stop > length file then Inr None
        else
          let payload = take (dh_payload_len decoded) (drop (offset + RECORD_HEADER_BYTES) file) in
          rbind (fail_if (crc32c crc [take 24 (drop 4 header), payload] \<noteq> dh_checksum decoded)
                   (Corruption offset ''checksum mismatch'')) (\<lambda>_.
          Inr (Some (\<lparr>rb_offset = offset, rb_first_sequence = dh_first_sequence decoded,
                      rb_last_sequence = dh_last_sequence decoded,
                      rb_checksum = dh_checksum decoded, rb_payload = payload\<rparr>, stop)))))))"

lemma read_frame_progress: "read_frame crc file offset n = Inr (Some (b, stop)) \<Longrightarrow> offset < stop"
  by (auto simp: read_frame_def Let_def rrf_res bind_eq_Some_conv RECORD_HEADER_BYTES_def
      simp del: rbind_simps split: if_splits)

definition with_budget ::
  "(recovery_budget \<Rightarrow> recovery_budget res) \<Rightarrow> recovery_budget option \<Rightarrow> recovery_budget option res" where
  "with_budget f budget =
     (case budget of None \<Rightarrow> Inr None | Some b \<Rightarrow> rbind (f b) (\<lambda>b. Inr (Some b)))"

text \<open>
  The scan. The consumer of the batches is a function on its own state. The result holds
  the next expected sequence, the offset reached, the torn tail, the payload bytes, the
  budget and the consumer's state.
\<close>

function replay_loop ::
  "crc_fn \<Rightarrow> (nat \<Rightarrow> nat) \<Rightarrow> (recovered_batch \<Rightarrow> 's \<Rightarrow> 's res) \<Rightarrow> bytes \<Rightarrow> nat \<Rightarrow> nat \<Rightarrow> nat
     \<Rightarrow> recovery_budget option \<Rightarrow> 's
     \<Rightarrow> (nat \<times> nat \<times> nat option \<times> nat \<times> recovery_budget option \<times> 's) res" where
  "replay_loop crc clock replay file offset expected payload_bytes budget st =
     (if offset < length file then
        rbind (with_budget (budget_frame clock) budget) (\<lambda>budget.
        rbind (read_frame crc file offset expected) (\<lambda>frame.
        case frame of
          None \<Rightarrow> Inr (expected, offset, Some offset, payload_bytes, budget, st)
        | Some (batch, stop) \<Rightarrow>
            rbind (ok_or (Corruption offset ''recovered payload byte count overflow'')
                     (checked_add payload_bytes (length (rb_payload batch)))) (\<lambda>payload_bytes.
            rbind (replay batch st) (\<lambda>st.
            rbind (ok_or (Corruption offset ''sequence overflow'')
                     (checked_add (rb_last_sequence batch) 1)) (\<lambda>expected.
            replay_loop crc clock replay file stop expected payload_bytes budget st)))))
      else Inr (expected, offset, None, payload_bytes, budget, st))"
  by pat_completeness auto
termination
  by (relation "measure (\<lambda>(crc, clock, replay, file, offset, expected, n, budget, st).
        length file - offset)")
    (auto dest!: read_frame_progress intro: diff_less_mono2)

declare replay_loop.simps [simp del]

definition replay_file_inner ::
  "crc_fn \<Rightarrow> (nat \<Rightarrow> nat) \<Rightarrow> bytes \<Rightarrow> nat \<Rightarrow> nat \<Rightarrow> recovery_budget option
     \<Rightarrow> (recovered_batch \<Rightarrow> 's \<Rightarrow> 's res) \<Rightarrow> 's
     \<Rightarrow> (recovery_summary \<times> recovery_budget option \<times> 's) res" where
  "replay_file_inner crc clock file later starting_sequence budget replay st =
     rbind (fail_if (starting_sequence = 0)
              (InvalidBatch ''WAL recovery sequence must be non-zero'')) (\<lambda>_.
     rbind (with_budget (\<lambda>b. budget_wal clock b (length file)) budget) (\<lambda>budget.
     rbind (fail_if (length file < FILE_HEADER_BYTES) (Corruption 0 ''incomplete WAL file header'')) (\<lambda>_.
     rbind (validate_file_header crc (take FILE_HEADER_BYTES file)) (\<lambda>_.
     rbind (replay_loop crc clock replay file FILE_HEADER_BYTES starting_sequence 0 budget st)
       (\<lambda>(expected, offset, torn, payload_bytes, budget, st).
     rbind (fail_if (later \<noteq> length file) (Corruption offset ''WAL length changed during recovery'')) (\<lambda>_.
     rbind (with_budget (budget_tick clock) budget) (\<lambda>budget.
     Inr (\<lparr>rs_recovered_through = saturating_sub expected 1, rs_valid_bytes = offset,
           rs_torn_tail = torn, rs_payload_bytes = payload_bytes\<rparr>, budget, st))))))))"

definition replay_file ::
  "crc_fn \<Rightarrow> bytes \<Rightarrow> nat \<Rightarrow> nat \<Rightarrow> (recovered_batch \<Rightarrow> 's \<Rightarrow> 's res) \<Rightarrow> 's
     \<Rightarrow> (recovery_summary \<times> 's) res" where
  "replay_file crc file later starting_sequence replay st =
     rbind (replay_file_inner crc (\<lambda>_. 0) file later starting_sequence None replay st)
       (\<lambda>(summary, _, st). Inr (summary, st))"

definition replay_file_bounded ::
  "crc_fn \<Rightarrow> (nat \<Rightarrow> nat) \<Rightarrow> bytes \<Rightarrow> nat \<Rightarrow> nat \<Rightarrow> recovery_budget
     \<Rightarrow> (recovered_batch \<Rightarrow> 's \<Rightarrow> 's res) \<Rightarrow> 's \<Rightarrow> (recovery_summary \<times> recovery_budget \<times> 's) res" where
  "replay_file_bounded crc clock file later starting_sequence budget replay st =
     rbind (replay_file_inner crc clock file later starting_sequence (Some budget) replay st)
       (\<lambda>(summary, budget', st). Inr (summary, case budget' of Some b \<Rightarrow> b | None \<Rightarrow> budget, st))"

definition push_batch :: "recovered_batch \<Rightarrow> recovered_batch list \<Rightarrow> recovered_batch list res" where
  "push_batch b batches = Inr (batches @ [b])"

definition recover_from :: "crc_fn \<Rightarrow> bytes \<Rightarrow> nat \<Rightarrow> nat \<Rightarrow> recovery res" where
  "recover_from crc file later starting_sequence =
     rbind (replay_file crc file later starting_sequence push_batch []) (\<lambda>(summary, batches).
     Inr \<lparr>rec_batches = batches, rec_recovered_through = rs_recovered_through summary,
          rec_valid_bytes = rs_valid_bytes summary, rec_torn_tail = rs_torn_tail summary\<rparr>)"

definition from_recovered_file :: "bytes \<Rightarrow> recovery_summary \<Rightarrow> wal_writer res" where
  "from_recovered_file file recovery =
     (case rs_torn_tail recovery of
        Some offset \<Rightarrow> Inl (TornTail offset)
      | None \<Rightarrow>
          rbind (ok_or (InvalidBatch ''sequence overflow'')
                   (checked_add (rs_recovered_through recovery) 1)) (\<lambda>next.
          Inr \<lparr>wal_file = file, wal_offset = rs_valid_bytes recovery, wal_next_sequence = next,
               wal_poisoned = False\<rparr>))"

definition wal_open_at :: "crc_fn \<Rightarrow> bytes \<Rightarrow> nat \<Rightarrow> nat \<Rightarrow> wal_writer res" where
  "wal_open_at crc file later starting_sequence =
     rbind (replay_file crc file later starting_sequence (\<lambda>_ u. Inr u) ()) (\<lambda>(recovery, _).
     from_recovered_file file recovery)"

definition open_empty_at ::
  "crc_fn \<Rightarrow> bytes \<Rightarrow> nat \<Rightarrow> nat \<Rightarrow> os_sync \<Rightarrow> os_sync \<Rightarrow> wal_writer res option" where
  "open_empty_at crc file later starting_sequence sync sync_dir =
     (case replay_file crc file later starting_sequence
             (\<lambda>_ _. Inl (Corruption 0 ''unpublished successor WAL contains data'')) () of
        Inl e \<Rightarrow> Some (Inl e)
      | Inr (summary, _) \<Rightarrow>
          (case sync of SyncStopped \<Rightarrow> None | SyncFailed e \<Rightarrow> Some (Inl (Io e)) | SyncOk \<Rightarrow>
          (case sync_dir of SyncStopped \<Rightarrow> None | SyncFailed e \<Rightarrow> Some (Inl (Io e)) | SyncOk \<Rightarrow>
             Some (from_recovered_file file summary))))"

text \<open>\<open>repair_torn_tail_from\<close>: the report and the file it leaves (truncation and sync succeed).\<close>

definition repair_torn_tail_from :: "crc_fn \<Rightarrow> bytes \<Rightarrow> nat \<Rightarrow> nat \<Rightarrow> (recovery \<times> bytes) res" where
  "repair_torn_tail_from crc file later starting_sequence =
     rbind (replay_file crc file later starting_sequence push_batch []) (\<lambda>(summary, batches).
     Inr (\<lparr>rec_batches = batches, rec_recovered_through = rs_recovered_through summary,
           rec_valid_bytes = rs_valid_bytes summary, rec_torn_tail = None\<rparr>,
          if rs_torn_tail summary \<noteq> None then take (rs_valid_bytes summary) file else file))"

end
