(* ===== verification/Wal_Recovery.thy ===== *)
theory Wal_Recovery
  imports Wal
begin

text \<open>
  What the write-ahead log guarantees. The specification is a list of contiguous batches
  and the byte image it has; \<open>wal_scan\<close> says that a file is such an image followed by an
  incomplete frame. Recovery succeeds exactly on these files and reports exactly these
  batches (\<open>replay_file_iff\<close>), and every outcome of an append, including failures and a
  process that stops half way, leaves such a file.
\<close>

section \<open>Byte images of logs\<close>

definition fields_image :: "nat \<Rightarrow> nat \<Rightarrow> nat \<Rightarrow> bytes" where
  "fields_image len f l = be_bytes 2 WAL_FORMAT_VERSION @ [RECORD_KIND_BATCH, 0]
     @ be_bytes 4 len @ be_bytes 8 f @ be_bytes 8 l"

definition batch_crc :: "crc_fn \<Rightarrow> wal_batch \<Rightarrow> 32 word" where
  "batch_crc crc b = crc32c crc [record_fields b, wb_payload b]"

definition header_image :: "crc_fn \<Rightarrow> wal_batch \<Rightarrow> bytes" where
  "header_image crc b = RECORD_MAGIC @ record_fields b @ be_bytes 4 (unat (batch_crc crc b))"

definition frame_image :: "crc_fn \<Rightarrow> wal_batch \<Rightarrow> bytes" where
  "frame_image crc b = header_image crc b @ wb_payload b"

definition frame_size :: "wal_batch \<Rightarrow> nat" where
  "frame_size b = RECORD_HEADER_BYTES + length (wb_payload b)"

abbreviation frames_image :: "crc_fn \<Rightarrow> wal_batch list \<Rightarrow> bytes" where
  "frames_image crc bs \<equiv> concat (map (frame_image crc) bs)"

abbreviation frames_size :: "wal_batch list \<Rightarrow> nat" where
  "frames_size bs \<equiv> sum_list (map frame_size bs)"

definition batch_valid :: "wal_batch \<Rightarrow> bool" where
  "batch_valid b \<longleftrightarrow> 0 < wb_first_sequence b \<and> wb_first_sequence b \<le> wb_last_sequence b
     \<and> wb_last_sequence b < u64_max \<and> wb_payload b \<noteq> [] \<and> length (wb_payload b) \<le> WAL_MAX_PAYLOAD_BYTES"

text \<open>Batches that continue one another from the sequence number \<open>n\<close> on.\<close>

fun chain :: "nat \<Rightarrow> wal_batch list \<Rightarrow> bool" where
  "chain n [] \<longleftrightarrow> True"
| "chain n (b # bs) \<longleftrightarrow> batch_valid b \<and> wb_first_sequence b = n \<and> chain (wb_last_sequence b + 1) bs"

fun next_after :: "nat \<Rightarrow> wal_batch list \<Rightarrow> nat" where
  "next_after n [] = n"
| "next_after n (b # bs) = next_after (wb_last_sequence b + 1) bs"

definition recovered_of :: "crc_fn \<Rightarrow> nat \<Rightarrow> wal_batch \<Rightarrow> recovered_batch" where
  "recovered_of crc offset b = \<lparr>rb_offset = offset, rb_first_sequence = wb_first_sequence b,
     rb_last_sequence = wb_last_sequence b, rb_checksum = batch_crc crc b, rb_payload = wb_payload b\<rparr>"

fun recovered_list :: "crc_fn \<Rightarrow> nat \<Rightarrow> wal_batch list \<Rightarrow> recovered_batch list" where
  "recovered_list crc offset [] = []"
| "recovered_list crc offset (b # bs) =
     recovered_of crc offset b # recovered_list crc (offset + frame_size b) bs"

text \<open>A tail that recovery classifies as an incomplete final frame.\<close>

definition incomplete_frame :: "nat \<Rightarrow> bytes \<Rightarrow> bool" where
  "incomplete_frame n tail \<longleftrightarrow> length tail < RECORD_HEADER_BYTES
     \<or> (case decode_record_header (take RECORD_HEADER_BYTES tail) 0 of
          Inl _ \<Rightarrow> False
        | Inr d \<Rightarrow> dh_first_sequence d = n \<and> length tail < RECORD_HEADER_BYTES + dh_payload_len d)"

definition wal_scan :: "crc_fn \<Rightarrow> nat \<Rightarrow> bytes \<Rightarrow> wal_batch list \<Rightarrow> bytes \<Rightarrow> bool" where
  "wal_scan crc start file bs tail \<longleftrightarrow> start \<noteq> 0 \<and> chain start bs
     \<and> file = file_header crc @ frames_image crc bs @ tail
     \<and> (tail = [] \<or> incomplete_frame (next_after start bs) tail)"

text \<open>Files of the size an operating system can hold (offsets are signed 64-bit numbers).\<close>

definition file_fits :: "bytes \<Rightarrow> bool" where
  "file_fits file \<longleftrightarrow> length file \<le> 9223372036854775807"

lemma wal_batch_validate_iff:
  "wb_last_sequence b \<le> u64_max \<Longrightarrow> wal_batch_validate b = Inr u \<longleftrightarrow> batch_valid b"
  by (auto simp: wal_batch_validate_def batch_valid_def rrf_res rrf_consts simp del: rbind_simps)

lemma chain_append: "chain n (xs @ ys) \<longleftrightarrow> chain n xs \<and> chain (next_after n xs) ys"
  by (induction xs arbitrary: n) auto

lemma next_after_append: "next_after n (xs @ ys) = next_after (next_after n xs) ys"
  by (induction xs arbitrary: n) auto

lemma next_after_pos: "chain n bs \<Longrightarrow> n \<noteq> 0 \<Longrightarrow> next_after n bs \<noteq> 0"
  by (induction bs arbitrary: n) auto

lemma next_after_bound: "chain n bs \<Longrightarrow> bs \<noteq> [] \<Longrightarrow> next_after n bs \<le> u64_max"
proof (induction bs arbitrary: n)
  case (Cons b bs)
  then show ?case by (cases bs) (auto simp: batch_valid_def)
qed simp

lemma recovered_list_append:
  "recovered_list crc off (xs @ ys) = recovered_list crc off xs @ recovered_list crc (off + frames_size xs) ys"
  by (induction xs arbitrary: off) (auto simp: add.assoc)

lemma length_magic [simp]: "length RECORD_MAGIC = 4" "length FILE_MAGIC = 8"
  by (simp_all add: RECORD_MAGIC_def FILE_MAGIC_def)

lemma record_fields_image:
  "record_fields b = fields_image (length (wb_payload b)) (wb_first_sequence b) (wb_last_sequence b)"
  by (simp add: record_fields_def fields_image_def)

lemma length_fields_image [simp]: "length (fields_image n f l) = 24"
  by (simp add: fields_image_def)

lemma length_header_image [simp]: "length (header_image crc b) = RECORD_HEADER_BYTES"
  by (simp add: header_image_def record_fields_image RECORD_HEADER_BYTES_def)

lemma length_frame_image [simp]: "length (frame_image crc b) = frame_size b"
  by (simp add: frame_image_def frame_size_def)

lemma length_frames_image [simp]: "length (frames_image crc bs) = frames_size bs"
  by (induction bs) auto

lemma length_file_header [simp]: "length (file_header crc) = FILE_HEADER_BYTES"
  by (simp add: file_header_def Let_def FILE_HEADER_BYTES_def)

lemma record_header_image: "batch_valid b \<Longrightarrow> record_header crc b = Inr (header_image crc b)"
  by (simp add: record_header_def header_image_def batch_crc_def batch_valid_def rrf_consts)

section \<open>Headers read back\<close>

lemma unat_u32_less: "unat (w :: 32 word) < 256 ^ 4"
  using unsigned_less [of w, where 'a = nat] by simp

lemma u32_field [simp]: "word_of_nat (be_nat (be_bytes 4 (unat w))) = (w :: 32 word)"
  using be_nat_be_bytes_id [OF unat_u32_less, of w] by simp

lemma u32_field_inv:
  assumes "length c = 4"
  shows "be_bytes 4 (unat (word_of_nat (be_nat c) :: 32 word)) = c"
proof -
  have "unat (word_of_nat (be_nat c) :: 32 word) = be_nat c"
    using be_nat_bound [of c] assms by (simp add: unat_of_nat)
  then show ?thesis using be_bytes_be_nat [of c] assms by simp
qed

lemma be_bytes_field: "length c = n \<Longrightarrow> be_bytes n (be_nat c) = c"
  using be_bytes_be_nat [of c] by simp

lemma split_field:
  assumes "length h = n + m"
  obtains a r where "h = a @ r" and "length a = n" and "length r = m"
  using that [of "take n h" "drop n h"] assms by simp

lemma header_split:
  assumes "length h = RECORD_HEADER_BYTES"
  obtains m v k p f l c where "h = m @ v @ k @ p @ f @ l @ c" and "length m = 4" and "length v = 2"
    and "length k = 2" and "length p = 4" and "length f = 8" and "length l = 8" and "length c = 4"
proof -
  have "length h = 4 + 28" using assms by (simp add: RECORD_HEADER_BYTES_def)
  then obtain m r1 where 1: "h = m @ r1" "length m = 4" "length r1 = 2 + 26" by (elim split_field) simp
  obtain v r2 where 2: "r1 = v @ r2" "length v = 2" "length r2 = 2 + 24"
    using 1(3) by (elim split_field) simp
  obtain k r3 where 3: "r2 = k @ r3" "length k = 2" "length r3 = 4 + 20"
    using 2(3) by (elim split_field) simp
  obtain p r4 where 4: "r3 = p @ r4" "length p = 4" "length r4 = 8 + 12"
    using 3(3) by (elim split_field) simp
  obtain f r5 where 5: "r4 = f @ r5" "length f = 8" "length r5 = 8 + 4"
    using 4(3) by (elim split_field) simp
  obtain l c where "r5 = l @ c" "length l = 8" "length c = 4" using 5(3) by (elim split_field)
  then show thesis using 1 2 3 4 5 that by simp
qed

lemma decode_record_header_image:
  assumes "0 < len" "len \<le> WAL_MAX_PAYLOAD_BYTES" "0 < f" "f \<le> l" "l \<le> u64_max"
  shows "decode_record_header (RECORD_MAGIC @ fields_image len f l @ be_bytes 4 (unat chk)) offset
     = Inr \<lparr>dh_payload_len = len, dh_first_sequence = f, dh_last_sequence = l, dh_checksum = chk\<rparr>"
proof -
  have fields: "be_nat (be_bytes 2 WAL_FORMAT_VERSION) = WAL_FORMAT_VERSION"
    "be_nat (be_bytes 4 len) = len" "be_nat (be_bytes 8 f) = f" "be_nat (be_bytes 8 l) = l"
    using assms by (auto intro!: be_nat_be_bytes_id simp: rrf_consts)
  show ?thesis
    using assms unfolding decode_record_header_def fields_image_def
    by (simp add: fields Let_def)
qed

lemma decode_record_header_inv:
  assumes "length h = RECORD_HEADER_BYTES" and "decode_record_header h offset = Inr d"
  shows "h = RECORD_MAGIC @ fields_image (dh_payload_len d) (dh_first_sequence d) (dh_last_sequence d)
           @ be_bytes 4 (unat (dh_checksum d))
    \<and> 0 < dh_payload_len d \<and> dh_payload_len d \<le> WAL_MAX_PAYLOAD_BYTES \<and> 0 < dh_first_sequence d
    \<and> dh_first_sequence d \<le> dh_last_sequence d \<and> dh_last_sequence d \<le> u64_max"
proof -
  obtain m v k p f l c where h: "h = m @ v @ k @ p @ f @ l @ c" and len: "length m = 4" "length v = 2"
    "length k = 2" "length p = 4" "length f = 8" "length l = 8" "length c = 4"
    using header_split [OF assms(1)] .
  have d: "m = RECORD_MAGIC" "be_nat v = WAL_FORMAT_VERSION" "k = [RECORD_KIND_BATCH, 0]"
    "0 < be_nat p" "be_nat p \<le> WAL_MAX_PAYLOAD_BYTES" "0 < be_nat f" "be_nat f \<le> be_nat l"
    "d = \<lparr>dh_payload_len = be_nat p, dh_first_sequence = be_nat f, dh_last_sequence = be_nat l,
          dh_checksum = word_of_nat (be_nat c)\<rparr>"
    using assms(2) unfolding h
    by (auto simp: decode_record_header_def Let_def rrf_res len simp del: rbind_simps)
  have "v = be_bytes 2 WAL_FORMAT_VERSION" using d(2) len(2) be_bytes_field by metis
  moreover have "be_nat l \<le> u64_max" using be_nat_bound [of l] len by (simp add: rrf_consts)
  ultimately show ?thesis
    using d len by (simp add: h fields_image_def be_bytes_field u32_field_inv)
qed

lemma decode_header_offset: "decode_record_header h a = Inr d \<longleftrightarrow> decode_record_header h b = Inr d"
  by (auto simp: decode_record_header_def Let_def rrf_res simp del: rbind_simps)

lemma validate_file_header_iff:
  assumes "length h = FILE_HEADER_BYTES"
  shows "validate_file_header crc h = Inr u \<longleftrightarrow> h = file_header crc" (is "?l \<longleftrightarrow> ?r")
proof -
  have "length h = 8 + 8" using assms by (simp add: FILE_HEADER_BYTES_def)
  then obtain m r1 where 1: "h = m @ r1" "length m = 8" "length r1 = 2 + 6" by (elim split_field) simp
  obtain v r2 where 2: "r1 = v @ r2" "length v = 2" "length r2 = 2 + 4"
    using 1(3) by (elim split_field) simp
  obtain n c where 3: "r2 = n @ c" "length n = 2" "length c = 4" using 2(3) by (elim split_field)
  have small: "be_nat (be_bytes 2 WAL_FORMAT_VERSION) = WAL_FORMAT_VERSION"
    "be_nat (be_bytes 2 FILE_HEADER_BYTES) = FILE_HEADER_BYTES"
    by (auto intro!: be_nat_be_bytes_id simp: rrf_consts)
  have "?l \<longleftrightarrow> m = FILE_MAGIC \<and> be_nat v = WAL_FORMAT_VERSION \<and> be_nat n = FILE_HEADER_BYTES
      \<and> crc32c crc [m @ v @ n] = word_of_nat (be_nat c)"
    using 1 2 3 by (auto simp: validate_file_header_def Let_def rrf_res simp del: rbind_simps)
  also have "\<dots> \<longleftrightarrow> m = FILE_MAGIC \<and> v = be_bytes 2 WAL_FORMAT_VERSION \<and> n = be_bytes 2 FILE_HEADER_BYTES
      \<and> c = be_bytes 4 (unat (crc32c crc [m @ v @ n]))"
    using be_bytes_field [OF 2(2)] be_bytes_field [OF 3(2)] u32_field_inv [OF 3(3)] small u32_field
    by metis
  also have "\<dots> \<longleftrightarrow> ?r"
    using 1 2 3 by (auto simp: file_header_def Let_def)
  finally show ?thesis .
qed

section \<open>One frame read back\<close>

lemma frame_parts:
  assumes "batch_valid b"
  shows "decode_record_header (header_image crc b) offset
      = Inr \<lparr>dh_payload_len = length (wb_payload b), dh_first_sequence = wb_first_sequence b,
             dh_last_sequence = wb_last_sequence b, dh_checksum = batch_crc crc b\<rparr>"
    and "take 24 (drop 4 (header_image crc b)) = record_fields b"
  using assms decode_record_header_image
  by (auto simp: header_image_def record_fields_image batch_valid_def)

lemma read_frame_image:
  assumes b: "batch_valid b" and fits: "file_fits (pre @ frame_image crc b @ post)"
  shows "read_frame crc (pre @ frame_image crc b @ post) (length pre) (wb_first_sequence b)
     = Inr (Some (recovered_of crc (length pre) b, length pre + frame_size b))"
proof -
  let ?file = "pre @ frame_image crc b @ post"
  have hdr: "take RECORD_HEADER_BYTES (drop (length pre) ?file) = header_image crc b"
    and pay: "take (length (wb_payload b)) (drop (length pre + RECORD_HEADER_BYTES) ?file) = wb_payload b"
    by (simp_all add: frame_image_def)
  have len: "length ?file = length pre + RECORD_HEADER_BYTES + length (wb_payload b) + length post"
    by (simp add: frame_size_def)
  have "length pre + RECORD_HEADER_BYTES + length (wb_payload b) \<le> u64_max"
    using fits unfolding file_fits_def len by (simp add: rrf_consts)
  then show ?thesis
    unfolding read_frame_def Let_def hdr frame_parts [OF b] rbind_simps decoded_header.simps pay
    using len
    by (simp add: checked_add_def recovered_of_def frame_size_def batch_crc_def fail_if_def)
qed

lemma read_frame_None_iff:
  assumes "file_fits file" and "offset \<le> length file"
  shows "read_frame crc file offset n = Inr None \<longleftrightarrow> incomplete_frame n (drop offset file)"
proof (cases "length file - offset < RECORD_HEADER_BYTES")
  case True
  then show ?thesis by (simp add: read_frame_def incomplete_frame_def)
next
  case False
  let ?h = "take RECORD_HEADER_BYTES (drop offset file)"
  show ?thesis
  proof (cases "decode_record_header ?h 0")
    case (Inl e)
    then have "\<And>d. decode_record_header ?h offset \<noteq> Inr d"
      using decode_header_offset [of ?h offset _ 0] by simp
    with Inl False show ?thesis
      by (auto simp: read_frame_def incomplete_frame_def Let_def rbind_Inr)
  next
    case (Inr d)
    then have d: "decode_record_header ?h offset = Inr d" using decode_header_offset by metis
    have "dh_payload_len d \<le> WAL_MAX_PAYLOAD_BYTES"
      using decode_record_header_inv [OF _ Inr] False by simp
    then have "offset + RECORD_HEADER_BYTES + dh_payload_len d \<le> u64_max"
      using assms by (simp add: file_fits_def rrf_consts)
    with Inr d False assms(2) show ?thesis
      by (auto simp: read_frame_def incomplete_frame_def Let_def rrf_res checked_add_def fail_if_def)
  qed
qed

lemma read_frame_Some_inv:
  assumes "read_frame crc file offset n = Inr (Some (rb, stop))" and "offset \<le> length file"
    and "rb_last_sequence rb < u64_max"
  obtains b where "batch_valid b" and "wb_first_sequence b = n" and "rb = recovered_of crc offset b"
    and "stop = offset + frame_size b" and "stop \<le> length file"
    and "take (frame_size b) (drop offset file) = frame_image crc b"
proof -
  let ?h = "take RECORD_HEADER_BYTES (drop offset file)"
  from assms(1) obtain d where d: "decode_record_header ?h offset = Inr d"
    and len: "RECORD_HEADER_BYTES \<le> length file - offset"
    and first: "dh_first_sequence d = n"
    and stop: "stop = offset + RECORD_HEADER_BYTES + dh_payload_len d" "stop \<le> length file"
    and chk: "crc32c crc [take 24 (drop 4 ?h),
        take (dh_payload_len d) (drop (offset + RECORD_HEADER_BYTES) file)] = dh_checksum d"
    and rb: "rb = \<lparr>rb_offset = offset, rb_first_sequence = dh_first_sequence d,
        rb_last_sequence = dh_last_sequence d, rb_checksum = dh_checksum d,
        rb_payload = take (dh_payload_len d) (drop (offset + RECORD_HEADER_BYTES) file)\<rparr>"
    by (auto simp: read_frame_def Let_def rrf_res bind_eq_Some_conv not_less simp del: rbind_simps
        split: if_splits)
  define b where "b = \<lparr>wb_first_sequence = dh_first_sequence d, wb_last_sequence = dh_last_sequence d,
    wb_payload = take (dh_payload_len d) (drop (offset + RECORD_HEADER_BYTES) file)\<rparr>"
  have h32: "length ?h = RECORD_HEADER_BYTES" using len by simp
  note h = decode_record_header_inv [OF h32 d]
  have plen: "length (wb_payload b) = dh_payload_len d" using stop by (simp add: b_def)
  have fields: "record_fields b = take 24 (drop 4 ?h)"
    using h plen by (simp add: record_fields_image b_def)
  have crc: "batch_crc crc b = dh_checksum d" using chk fields by (simp add: batch_crc_def b_def)
  have himg: "?h = header_image crc b"
    using h plen crc by (simp add: header_image_def record_fields_image b_def)
  have "take (frame_size b) (drop offset file) = ?h @ wb_payload b"
    using take_add [of RECORD_HEADER_BYTES "dh_payload_len d" "drop offset file"] plen
    by (simp add: frame_size_def b_def add.commute)
  then have img: "take (frame_size b) (drop offset file) = frame_image crc b"
    using himg by (simp add: frame_image_def)
  have "batch_valid b"
    using h plen assms(3) rb by (auto simp: batch_valid_def b_def)
  then show thesis
    using that [of b] img first stop crc rb plen by (simp add: recovered_of_def b_def frame_size_def)
qed

section \<open>The scan\<close>

abbreviation payload_total :: "wal_batch list \<Rightarrow> nat" where
  "payload_total bs \<equiv> sum_list (map (\<lambda>b. length (wb_payload b)) bs)"

abbreviation consume :: "(recovered_batch \<Rightarrow> 's \<Rightarrow> 's res) \<Rightarrow> 's \<Rightarrow> recovered_batch list \<Rightarrow> 's res" where
  "consume replay \<equiv> try_fold (\<lambda>s b. replay b s)"

abbreviation torn_at :: "bytes \<Rightarrow> nat \<Rightarrow> nat option" where
  "torn_at tail offset \<equiv> (if tail = [] then None else Some offset)"

lemma with_budget_None [simp]: "with_budget f None = Inr None"
  by (simp add: with_budget_def)

text \<open>The scan passes over the frames of a valid prefix and hands each batch to the consumer.\<close>

lemma replay_loop_prefix:
  assumes "chain n bs" and "file_fits (pre @ frames_image crc bs @ tail)" and "pb \<le> length pre"
  shows "replay_loop crc clock replay (pre @ frames_image crc bs @ tail) (length pre) n pb None st
     = rbind (consume replay st (recovered_list crc (length pre) bs)) (\<lambda>st'.
         replay_loop crc clock replay (pre @ frames_image crc bs @ tail) (length pre + frames_size bs)
           (next_after n bs) (pb + payload_total bs) None st')"
  using assms
proof (induction bs arbitrary: n pre pb st)
  case (Cons b bs)
  let ?file = "pre @ frames_image crc (b # bs) @ tail"
  let ?rest = "\<lambda>st'. replay_loop crc clock replay ?file (length pre + frames_size (b # bs))
    (next_after n (b # bs)) (pb + payload_total (b # bs)) None st'"
  have split: "?file = pre @ frame_image crc b @ (frames_image crc bs @ tail)" by simp
  have valid: "batch_valid b" and n: "wb_first_sequence b = n" using Cons.prems(1) by auto
  have frame: "read_frame crc ?file (length pre) n
      = Inr (Some (recovered_of crc (length pre) b, length pre + frame_size b))"
    using read_frame_image [OF valid, of pre crc "frames_image crc bs @ tail"] Cons.prems(2) n
    unfolding split by simp
  have here: "length pre < length ?file" by (simp add: frame_size_def RECORD_HEADER_BYTES_def)
  have pb: "pb + length (wb_payload b) \<le> u64_max"
    using Cons.prems(2,3) by (simp add: file_fits_def frame_size_def rrf_consts)
  have "pb + length (wb_payload b) \<le> length (pre @ frame_image crc b)"
    using Cons.prems(3) by (simp add: frame_size_def)
  then have ih: "replay_loop crc clock replay ?file (length pre + frame_size b) (wb_last_sequence b + 1)
        (pb + length (wb_payload b)) None st'
      = rbind (consume replay st' (recovered_list crc (length pre + frame_size b) bs)) ?rest" for st'
    using Cons.IH [of "wb_last_sequence b + 1" "pre @ frame_image crc b" "pb + length (wb_payload b)" st']
      Cons.prems by (simp add: add.assoc)
  have "replay_loop crc clock replay ?file (length pre) n pb None st
      = rbind (replay (recovered_of crc (length pre) b) st) (\<lambda>st'.
          replay_loop crc clock replay ?file (length pre + frame_size b) (wb_last_sequence b + 1)
            (pb + length (wb_payload b)) None st')"
    using frame here pb valid
    by (subst replay_loop.simps)
      (simp add: checked_add_def recovered_of_def batch_valid_def del: append_assoc)
  also have "\<dots> = rbind (consume replay st (recovered_list crc (length pre) (b # bs))) ?rest"
    by (cases "replay (recovered_of crc (length pre) b) st")
      (simp_all only: ih rbind_simps recovered_list.simps try_fold.simps)
  finally show ?case .
qed simp

lemma replay_loop_tail:
  assumes "file_fits file" and "offset \<le> length file"
    and "drop offset file = [] \<or> incomplete_frame n (drop offset file)"
  shows "replay_loop crc clock replay file offset n pb None st
     = Inr (n, offset, torn_at (drop offset file) offset, pb, None, st)"
  using assms read_frame_None_iff [OF assms(1,2), of crc n]
  by (auto simp: replay_loop.simps [of _ _ _ "file"])

lemma replay_loop_image:
  assumes "chain n bs" and "file_fits (pre @ frames_image crc bs @ tail)" and "pb \<le> length pre"
    and "tail = [] \<or> incomplete_frame (next_after n bs) tail"
  shows "replay_loop crc clock replay (pre @ frames_image crc bs @ tail) (length pre) n pb None st
     = rbind (consume replay st (recovered_list crc (length pre) bs)) (\<lambda>st'.
         Inr (next_after n bs, length pre + frames_size bs, torn_at tail (length pre + frames_size bs),
              pb + payload_total bs, None, st'))"
proof -
  let ?file = "pre @ frames_image crc bs @ tail" and ?stop = "length pre + frames_size bs"
  have drop: "drop ?stop ?file = tail" by simp
  have "replay_loop crc clock replay ?file ?stop (next_after n bs) pb' None st'
      = Inr (next_after n bs, ?stop, torn_at tail ?stop, pb', None, st')" for pb' st'
    by (rule replay_loop_tail [OF assms(2), of ?stop "next_after n bs", unfolded drop])
      (use assms(4) in simp_all)
  then show ?thesis by (simp only: replay_loop_prefix [OF assms(1-3)])
qed

text \<open>What a successful scan has read, for any consumer and any budget.\<close>

definition scanned ::
  "crc_fn \<Rightarrow> (recovered_batch \<Rightarrow> 's \<Rightarrow> 's res) \<Rightarrow> bytes \<Rightarrow> nat \<Rightarrow> nat \<Rightarrow> nat \<Rightarrow> 's
     \<Rightarrow> wal_batch list \<Rightarrow> nat \<Rightarrow> nat \<Rightarrow> nat option \<Rightarrow> nat \<Rightarrow> 's \<Rightarrow> bool" where
  "scanned crc replay file offset n pb st bs e stop torn pbs st' \<longleftrightarrow>
     chain n bs \<and> e = next_after n bs \<and> stop = offset + frames_size bs \<and> stop \<le> length file
     \<and> take (frames_size bs) (drop offset file) = frames_image crc bs \<and> pbs = pb + payload_total bs
     \<and> consume replay st (recovered_list crc offset bs) = Inr st'
     \<and> torn = torn_at (drop stop file) stop
     \<and> (drop stop file = [] \<or> incomplete_frame e (drop stop file))"

lemma scanned_Cons:
  assumes "batch_valid b" and "offset + frame_size b \<le> length file"
    and "take (frame_size b) (drop offset file) = frame_image crc b"
    and "replay (recovered_of crc offset b) st = Inr st1"
    and "scanned crc replay file (offset + frame_size b) (wb_last_sequence b + 1)
           (pb + length (wb_payload b)) st1 bs e stop torn pbs st'"
  shows "scanned crc replay file offset (wb_first_sequence b) pb st (b # bs) e stop torn pbs st'"
proof -
  have "take (frame_size b + frames_size bs) (drop offset file) = frame_image crc b @ frames_image crc bs"
    using assms(3,5) take_add [of "frame_size b" "frames_size bs" "drop offset file"]
    by (simp add: scanned_def add.commute)
  with assms show ?thesis by (auto simp: scanned_def add.assoc)
qed

lemma replay_loop_inv:
  assumes "replay_loop crc clock replay file offset n pb budget st = Inr (e, stop, torn, pbs, budget', st')"
    and "file_fits file" and "offset \<le> length file"
  shows "\<exists>bs. scanned crc replay file offset n pb st bs e stop torn pbs st'"
  using assms
proof (induction crc clock replay "file" offset n pb budget st rule: replay_loop.induct)
  case (1 crc clock replay "file" offset n pb budget st)
  show ?case
  proof (cases "offset < length file")
    case False
    then have "scanned crc replay file offset n pb st [] e stop torn pbs st'"
      using "1.prems" by (simp add: replay_loop.simps [of _ _ _ "file"] scanned_def)
    then show ?thesis by blast
  next
    case True
    from True "1.prems"(1) obtain bud frame where bud: "with_budget (budget_frame clock) budget = Inr bud"
      and frame: "read_frame crc file offset n = Inr frame"
      by (auto simp: replay_loop.simps [of _ _ _ "file"] rbind_Inr)
    show ?thesis
    proof (cases frame)
      case None
      then have "scanned crc replay file offset n pb st [] e stop torn pbs st'"
        using "1.prems" True bud frame read_frame_None_iff [of "file" offset crc n]
        by (auto simp: replay_loop.simps [of _ _ _ "file"] scanned_def)
      then show ?thesis by blast
    next
      case (Some pr)
      obtain rb stop1 where pr: "pr = (rb, stop1)" by (cases pr)
      from True "1.prems"(1) bud frame obtain st1 where pb: "pb + length (rb_payload rb) \<le> u64_max"
        and st1: "replay rb st = Inr st1" and last: "rb_last_sequence rb + 1 \<le> u64_max"
        and rest: "replay_loop crc clock replay file stop1 (rb_last_sequence rb + 1)
          (pb + length (rb_payload rb)) bud st1 = Inr (e, stop, torn, pbs, budget', st')"
        by (auto simp: replay_loop.simps [of _ _ _ "file" offset] Some pr rbind_Inr ok_or_Inr)
      obtain b where b: "batch_valid b" "wb_first_sequence b = n" "rb = recovered_of crc offset b"
        "stop1 = offset + frame_size b" "stop1 \<le> length file"
        "take (frame_size b) (drop offset file) = frame_image crc b"
        using read_frame_Some_inv [OF frame [unfolded Some pr]] last "1.prems"(3) by auto
      obtain bs where bs: "scanned crc replay file stop1 (rb_last_sequence rb + 1)
          (pb + length (rb_payload rb)) st1 bs e stop torn pbs st'"
        using "1.IH" [OF True bud frame Some pr [symmetric] _ st1 _ rest "1.prems"(2) b(5)] pb last
        by (auto simp: ok_or_Inr)
      have "rb_last_sequence rb = wb_last_sequence b" "rb_payload rb = wb_payload b"
        by (simp_all add: b(3) recovered_of_def)
      then have "scanned crc replay file offset (wb_first_sequence b) pb st (b # bs) e stop torn pbs st'"
        using bs b st1 by (intro scanned_Cons) auto
      then show ?thesis unfolding b(2) by blast
    qed
  qed
qed

lemma replay_file_image:
  assumes "wal_scan crc start file bs tail" and "file_fits file"
  shows "replay_file crc file (length file) start replay st
     = rbind (consume replay st (recovered_list crc FILE_HEADER_BYTES bs)) (\<lambda>st'.
         Inr (\<lparr>rs_recovered_through = next_after start bs - 1,
               rs_valid_bytes = FILE_HEADER_BYTES + frames_size bs,
               rs_torn_tail = torn_at tail (FILE_HEADER_BYTES + frames_size bs),
               rs_payload_bytes = payload_total bs\<rparr>, st'))"
proof -
  have s: "start \<noteq> 0" "chain start bs" "file = file_header crc @ frames_image crc bs @ tail"
    "tail = [] \<or> incomplete_frame (next_after start bs) tail"
    using assms(1) by (auto simp: wal_scan_def)
  have hdr: "take FILE_HEADER_BYTES file = file_header crc" "FILE_HEADER_BYTES \<le> length file"
    by (simp_all add: s(3))
  then have "validate_file_header crc (take FILE_HEADER_BYTES file) = Inr ()"
    using validate_file_header_iff [of "file_header crc" crc "()"] by simp
  moreover have "replay_loop crc clock replay file FILE_HEADER_BYTES start 0 None st
     = rbind (consume replay st (recovered_list crc FILE_HEADER_BYTES bs)) (\<lambda>st'.
         Inr (next_after start bs, FILE_HEADER_BYTES + frames_size bs,
           torn_at tail (FILE_HEADER_BYTES + frames_size bs), payload_total bs, None, st'))" for clock
    using replay_loop_image [OF s(2), of "file_header crc" crc tail 0 clock replay st] assms(2) s(3,4)
    by simp
  ultimately show ?thesis
    using s(1) hdr(2)
    by (cases "consume replay st (recovered_list crc FILE_HEADER_BYTES bs)")
      (simp_all add: replay_file_def replay_file_inner_def saturating_sub_def fail_if_def)
qed

lemma replay_inner_inv:
  assumes "replay_file_inner crc clock file later start budget replay st = Inr (summary, budget', st')"
    and "file_fits file"
  shows "\<exists>bs. wal_scan crc start file bs (drop (rs_valid_bytes summary) file) \<and> later = length file
     \<and> consume replay st (recovered_list crc FILE_HEADER_BYTES bs) = Inr st'
     \<and> summary = \<lparr>rs_recovered_through = next_after start bs - 1,
          rs_valid_bytes = FILE_HEADER_BYTES + frames_size bs,
          rs_torn_tail = torn_at (drop (rs_valid_bytes summary) file) (FILE_HEADER_BYTES + frames_size bs),
          rs_payload_bytes = payload_total bs\<rparr>"
proof -
  from assms(1) obtain bud e stop torn pbs bud' where start: "start \<noteq> 0"
    and len: "FILE_HEADER_BYTES \<le> length file"
    and hdr: "validate_file_header crc (take FILE_HEADER_BYTES file) = Inr ()"
    and loop: "replay_loop crc clock replay file FILE_HEADER_BYTES start 0 bud st
      = Inr (e, stop, torn, pbs, bud', st')"
    and later: "later = length file"
    and sm: "summary = \<lparr>rs_recovered_through = e - 1, rs_valid_bytes = stop, rs_torn_tail = torn,
      rs_payload_bytes = pbs\<rparr>"
    by (auto simp: replay_file_inner_def rrf_res saturating_sub_def not_less simp del: rbind_simps
        split: prod.splits)
  obtain bs where bs: "scanned crc replay file FILE_HEADER_BYTES start 0 st bs e stop torn pbs st'"
    using replay_loop_inv [OF loop assms(2) len] by blast
  have h: "take FILE_HEADER_BYTES file = file_header crc"
    using hdr len by (simp add: validate_file_header_iff)
  have "file = take FILE_HEADER_BYTES file @ drop FILE_HEADER_BYTES file" by simp
  also have "drop FILE_HEADER_BYTES file
      = take (frames_size bs) (drop FILE_HEADER_BYTES file) @ drop stop file"
    using bs append_take_drop_id [of "frames_size bs" "drop FILE_HEADER_BYTES file"]
    by (simp add: scanned_def add.commute)
  finally have "file = file_header crc @ frames_image crc bs @ drop stop file"
    using bs h by (simp add: scanned_def)
  then have "wal_scan crc start file bs (drop stop file)"
    using bs start unfolding wal_scan_def scanned_def by blast
  then show ?thesis using bs later sm by (auto simp: scanned_def)
qed

section \<open>Recovery\<close>

lemma consume_push: "consume push_batch acc xs = Inr (acc @ xs)"
  by (induction xs arbitrary: acc) (auto simp: push_batch_def)

definition report :: "crc_fn \<Rightarrow> nat \<Rightarrow> wal_batch list \<Rightarrow> bytes \<Rightarrow> recovery" where
  "report crc start bs tail = \<lparr>rec_batches = recovered_list crc FILE_HEADER_BYTES bs,
     rec_recovered_through = next_after start bs - 1,
     rec_valid_bytes = FILE_HEADER_BYTES + frames_size bs,
     rec_torn_tail = torn_at tail (FILE_HEADER_BYTES + frames_size bs)\<rparr>"

lemma recover_of_scan:
  assumes "wal_scan crc start file bs tail" and "file_fits file"
  shows "recover_from crc file (length file) start = Inr (report crc start bs tail)"
  by (simp add: recover_from_def replay_file_image [OF assms] consume_push report_def)

lemma recover_inv:
  assumes "recover_from crc file later start = Inr r" and "file_fits file"
  shows "\<exists>bs tail. wal_scan crc start file bs tail \<and> later = length file \<and> r = report crc start bs tail"
proof -
  from assms(1) obtain s bud batches
    where inner: "replay_file_inner crc (\<lambda>_. 0) file later start None push_batch []
      = Inr (s, bud, batches)"
    and r: "r = \<lparr>rec_batches = batches, rec_recovered_through = rs_recovered_through s,
      rec_valid_bytes = rs_valid_bytes s, rec_torn_tail = rs_torn_tail s\<rparr>"
    by (auto simp: recover_from_def replay_file_def rrf_res simp del: rbind_simps split: prod.splits)
  obtain bs where bs: "wal_scan crc start file bs (drop (rs_valid_bytes s) file)" "later = length file"
    "consume push_batch [] (recovered_list crc FILE_HEADER_BYTES bs) = Inr batches"
    "s = \<lparr>rs_recovered_through = next_after start bs - 1,
          rs_valid_bytes = FILE_HEADER_BYTES + frames_size bs,
          rs_torn_tail = torn_at (drop (rs_valid_bytes s) file) (FILE_HEADER_BYTES + frames_size bs),
          rs_payload_bytes = payload_total bs\<rparr>"
    using replay_inner_inv [OF inner assms(2)] by blast
  have "r = report crc start bs (drop (rs_valid_bytes s) file)"
    using bs(3) unfolding r report_def by (subst (1 2 3) bs(4)) (simp add: consume_push)
  with bs(1,2) show ?thesis by blast
qed

lemma scan_tail:
  "wal_scan crc start file bs tail \<Longrightarrow> tail = drop (FILE_HEADER_BYTES + frames_size bs) file"
  by (simp add: wal_scan_def)

text \<open>The frames of a log that a file cut after \<open>n\<close> frame bytes still holds completely.\<close>

fun complete_frames :: "nat \<Rightarrow> wal_batch list \<Rightarrow> wal_batch list" where
  "complete_frames n [] = []"
| "complete_frames n (b # bs) =
     (if frame_size b \<le> n then b # complete_frames (n - frame_size b) bs else [])"

lemma incomplete_take:
  assumes "batch_valid b" and "k < frame_size b"
  shows "incomplete_frame (wb_first_sequence b) (take k (frame_image crc b))"
proof (cases "k < RECORD_HEADER_BYTES")
  case False
  then have "take RECORD_HEADER_BYTES (take k (frame_image crc b)) = header_image crc b"
    by (simp add: frame_image_def min_def)
  then show ?thesis
    using assms frame_parts(1) [OF assms(1), of crc 0] by (simp add: incomplete_frame_def frame_size_def)
qed (simp add: incomplete_frame_def min_less_iff_disj)

lemma take_frames:
  "chain m bs \<Longrightarrow> \<exists>tail. take n (frames_image crc bs) = frames_image crc (complete_frames n bs) @ tail
     \<and> chain m (complete_frames n bs) \<and> prefix (complete_frames n bs) bs
     \<and> (tail = [] \<or> incomplete_frame (next_after m (complete_frames n bs)) tail)"
proof (induction bs arbitrary: m n)
  case (Cons b bs)
  show ?case
  proof (cases "frame_size b \<le> n")
    case True
    then show ?thesis
      using Cons.IH [of "wb_last_sequence b + 1" "n - frame_size b"] Cons.prems by auto
  next
    case False
    then have "take n (frames_image crc (b # bs)) = take n (frame_image crc b)" by simp
    then show ?thesis using incomplete_take [of b n crc] Cons.prems False by auto
  qed
qed simp

lemma scan_prefix:
  assumes "chain start bs" and "start \<noteq> 0"
  shows "\<exists>tail. wal_scan crc start (file_header crc @ take n (frames_image crc bs)) (complete_frames n bs) tail"
  using take_frames [OF assms(1), of n crc] assms(2) by (auto simp: wal_scan_def)

text \<open>
  (C19) Torn writes. Cut a valid log anywhere after its header: recovery succeeds and
  reports exactly the batches whose frames are still complete, with their offsets, and it
  reports a torn tail exactly when the cut is inside a frame.
\<close>

theorem recover_torn_log:
  assumes "chain start bs" and "start \<noteq> 0" and "file_fits (file_header crc @ frames_image crc bs)"
    and "n \<le> frames_size bs"
  shows "recover_from crc (file_header crc @ take n (frames_image crc bs)) (FILE_HEADER_BYTES + n) start
     = Inr \<lparr>rec_batches = recovered_list crc FILE_HEADER_BYTES (complete_frames n bs),
            rec_recovered_through = next_after start (complete_frames n bs) - 1,
            rec_valid_bytes = FILE_HEADER_BYTES + frames_size (complete_frames n bs),
            rec_torn_tail = (if n = frames_size (complete_frames n bs) then None
                             else Some (FILE_HEADER_BYTES + frames_size (complete_frames n bs)))\<rparr>"
proof -
  let ?file = "file_header crc @ take n (frames_image crc bs)" and ?cs = "complete_frames n bs"
  obtain tail where scan: "wal_scan crc start ?file ?cs tail" using scan_prefix [OF assms(1,2)] by blast
  have "file_fits ?file" using assms(3) by (simp add: file_fits_def)
  then have "recover_from crc ?file (length ?file) start = Inr (report crc start ?cs tail)"
    by (rule recover_of_scan [OF scan])
  moreover have "length ?file = FILE_HEADER_BYTES + n" using assms(4) by simp
  moreover have "length ?file = FILE_HEADER_BYTES + frames_size ?cs + length tail"
    using scan by (simp add: wal_scan_def)
  ultimately show ?thesis using assms(4) by (auto simp: report_def)
qed

definition sample_batches :: "wal_batch list" where
  "sample_batches = [\<lparr>wb_first_sequence = 1, wb_last_sequence = 2, wb_payload = [7]\<rparr>,
     \<lparr>wb_first_sequence = 3, wb_last_sequence = 3, wb_payload = [8, 9]\<rparr>]"

lemma sample_chain: "chain 1 sample_batches"
  by (simp add: sample_batches_def batch_valid_def rrf_consts)

lemma sample_size: "frames_size sample_batches = 67"
  by (simp add: sample_batches_def frame_size_def rrf_consts)

lemma sample_fits: "file_fits (file_header crc @ frames_image crc sample_batches)"
  by (simp add: file_fits_def sample_size rrf_consts)

theorem recover_torn_log_witness:
  "recover_from (\<lambda>_ _. 0) (file_header (\<lambda>_ _. 0) @ take 40 (frames_image (\<lambda>_ _. 0) sample_batches)) 56 1
     = Inr \<lparr>rec_batches = [\<lparr>rb_offset = 16, rb_first_sequence = 1, rb_last_sequence = 2,
              rb_checksum = 0, rb_payload = [7]\<rparr>],
            rec_recovered_through = 2, rec_valid_bytes = 49, rec_torn_tail = Some 49\<rparr>"
  using recover_torn_log [OF sample_chain _ sample_fits, of 40 "\<lambda>_ _. 0"] sample_size
  by (simp add: sample_batches_def frame_size_def recovered_of_def batch_crc_def crc32c_def rrf_consts)

text \<open>
  (C23) Recovery invents nothing: whenever it succeeds on a file, the bytes up to the reported
  valid length are the header followed by the canonical frames of the reported batches,
  these batches are valid and contiguous from the starting sequence, and the bytes after
  them are either none (no torn tail) or an incomplete frame (reported as the torn tail).
\<close>

theorem recover_sound:
  assumes "recover_from crc file later start = Inr r" and "file_fits file"
  shows "\<exists>bs. chain start bs \<and> rec_batches r = recovered_list crc FILE_HEADER_BYTES bs
     \<and> rec_recovered_through r = next_after start bs - 1
     \<and> take (rec_valid_bytes r) file = file_header crc @ frames_image crc bs
     \<and> (case rec_torn_tail r of
          None \<Rightarrow> rec_valid_bytes r = length file
        | Some offset \<Rightarrow> offset = rec_valid_bytes r \<and> offset < length file
            \<and> incomplete_frame (next_after start bs) (drop offset file))"
proof -
  obtain bs tail where scan: "wal_scan crc start file bs tail" and r: "r = report crc start bs tail"
    using recover_inv [OF assms] by blast
  have f: "file = (file_header crc @ frames_image crc bs) @ tail"
    and len: "length (file_header crc @ frames_image crc bs) = rec_valid_bytes r"
    using scan r by (simp_all add: wal_scan_def report_def)
  have "take (rec_valid_bytes r) file = file_header crc @ frames_image crc bs"
    and "drop (rec_valid_bytes r) file = tail"
    unfolding len [symmetric] by (subst f, simp)+
  moreover have "length file = rec_valid_bytes r + length tail" using f len by simp
  ultimately show ?thesis using scan r by (auto simp: wal_scan_def report_def)
qed

theorem recover_sound_witness:
  "\<exists>bs r. recover_from (\<lambda>_ _. 0) (file_header (\<lambda>_ _. 0) @ [5, 6]) 18 1 = Inr r
     \<and> chain 1 bs \<and> take (rec_valid_bytes r) (file_header (\<lambda>_ _. 0) @ [5, 6])
         = file_header (\<lambda>_ _. 0) @ frames_image (\<lambda>_ _. 0) bs"
proof -
  have "wal_scan (\<lambda>_ _. 0) 1 (file_header (\<lambda>_ _. 0) @ [5, 6]) [] [5, 6]"
    and fits: "file_fits (file_header (\<lambda>_ _. 0) @ [5, 6])"
    by (simp_all add: wal_scan_def incomplete_frame_def file_fits_def rrf_consts)
  then have r: "recover_from (\<lambda>_ _. 0) (file_header (\<lambda>_ _. 0) @ [5, 6]) 18 1
      = Inr (report (\<lambda>_ _. 0) 1 [] [5, 6])"
    using recover_of_scan by (fastforce simp: rrf_consts)
  show ?thesis using recover_sound [OF r fits] r by blast
qed

text \<open>
  (C25) A complete frame that fails its checksum is an error at its offset, whatever follows
  it; it is never reported as a torn tail, so repair can not discard it.
\<close>

theorem recover_corrupt_payload:
  assumes "chain start (bs @ [b])" and "start \<noteq> 0" and "length payload = length (wb_payload b)"
    and "crc32c crc [record_fields b, payload] \<noteq> batch_crc crc b"
    and "file = file_header crc @ frames_image crc bs @ header_image crc b @ payload @ rest"
    and "file_fits file"
  shows "recover_from crc file later start
     = Inl (Corruption (FILE_HEADER_BYTES + frames_size bs) ''checksum mismatch'')"
proof -
  let ?off = "FILE_HEADER_BYTES + frames_size bs" and ?tail = "header_image crc b @ payload @ rest"
  have c: "chain start bs" "batch_valid b" "wb_first_sequence b = next_after start bs"
    using assms(1) by (auto simp: chain_append)
  have drop: "drop ?off file = ?tail" by (simp add: assms(5))
  have len: "length file = ?off + RECORD_HEADER_BYTES + length payload + length rest"
    by (simp add: assms(5))
  have hdr: "take RECORD_HEADER_BYTES (drop ?off file) = header_image crc b" by (simp add: drop)
  have pay: "take (length (wb_payload b)) (drop (?off + RECORD_HEADER_BYTES) file) = payload"
    using assms(3) by (simp add: assms(5))
  have "?off + RECORD_HEADER_BYTES + length payload \<le> u64_max"
    using assms(6) len by (simp add: file_fits_def rrf_consts)
  then have bad: "read_frame crc file ?off (next_after start bs) = Inl (Corruption ?off ''checksum mismatch'')"
    unfolding read_frame_def Let_def hdr frame_parts [OF c(2)] rbind_simps decoded_header.simps pay
    using len assms(3,4) c(3) by (simp add: checked_add_def fail_if_def)
  have "replay_loop crc clock push_batch file FILE_HEADER_BYTES start 0 None []
      = Inl (Corruption ?off ''checksum mismatch'')" for clock
  proof -
    have "replay_loop crc clock push_batch file ?off (next_after start bs) pb None st
        = Inl (Corruption ?off ''checksum mismatch'')" for pb st
      using bad len by (subst replay_loop.simps) (simp add: RECORD_HEADER_BYTES_def)
    then show ?thesis
      using replay_loop_prefix [OF c(1), of "file_header crc" crc ?tail 0 clock push_batch "[]"] assms(5,6)
      by (simp add: consume_push)
  qed
  moreover have "validate_file_header crc (take FILE_HEADER_BYTES file) = Inr ()"
    using validate_file_header_iff [of "file_header crc" crc "()"] by (simp add: assms(5))
  ultimately show ?thesis
    using assms(2) len
    by (simp add: recover_from_def replay_file_def replay_file_inner_def fail_if_def)
qed

theorem recover_corrupt_payload_witness:
  "recover_from (\<lambda>c bs. if bs = [9] then 1 else c)
     (file_header (\<lambda>c bs. if bs = [9] then 1 else c)
      @ header_image (\<lambda>c bs. if bs = [9] then 1 else c)
          \<lparr>wb_first_sequence = 1, wb_last_sequence = 2, wb_payload = [7]\<rparr> @ [9]) 49 1
     = Inl (Corruption 16 ''checksum mismatch'')"
proof -
  have "record_fields \<lparr>wb_first_sequence = 1, wb_last_sequence = 2, wb_payload = [7]\<rparr> \<noteq> [9]"
    by (simp add: record_fields_def)
  then show ?thesis
    using recover_corrupt_payload [of 1 "[]" "\<lparr>wb_first_sequence = 1, wb_last_sequence = 2, wb_payload = [7]\<rparr>"
        "[9]" "\<lambda>c bs. if bs = [9] then 1 else c" _ "[]" 49]
    by (simp add: batch_valid_def batch_crc_def crc32c_def file_fits_def rrf_consts)
qed

end
