(* ===== verification/Wal_Writer.thy ===== *)
theory Wal_Writer
  imports Wal_Recovery
begin

text \<open>
  The writing side of the log: every outcome of an append leaves a prefix of the new frame
  behind the frames already there, an acknowledged append leaves all of it, and a run of
  the writer over any sequence of operations and failures keeps every acknowledged batch
  recoverable. Repair and reopening continue such a log.
\<close>

section \<open>Native writes\<close>

lemma prefix_take_append: "prefix ws (drop n bs) \<Longrightarrow> prefix (take n bs @ ws) bs"
  using same_prefix_prefix [of "take n bs" ws "drop n bs"] by (simp only: append_take_drop_id)

lemma take_drop_append [simp]: "take n h @ drop n h @ x = h @ x"
  unfolding append_assoc [symmetric] by simp

lemma write_all_steps:
  "write_all outs [] = ([], Written, outs)"
  "bs \<noteq> [] \<Longrightarrow> write_all [] bs = ([], WriteStopped, [])"
  "bs \<noteq> [] \<Longrightarrow> write_all (Interrupted # outs) bs = write_all outs bs"
  "bs \<noteq> [] \<Longrightarrow> write_all (Refused e # outs) bs = ([], WriteFailed e, outs)"
  "bs \<noteq> [] \<Longrightarrow> write_all (Accepted 0 # outs) bs = ([], WriteFailed WriteZero, outs)"
  "bs \<noteq> [] \<Longrightarrow> 0 < n \<Longrightarrow> write_all (Accepted n # outs) bs
     = (take n bs @ fst (write_all outs (drop n bs)), snd (write_all outs (drop n bs)))"
  by (subst write_all.simps; simp split: prod.split)+

lemma write_all_prefix: "write_all outs bs = (ws, r, rest) \<Longrightarrow> prefix ws bs \<and> (r = Written \<longrightarrow> ws = bs)"
proof (induction outs arbitrary: bs ws)
  case Nil
  then show ?case by (cases "bs = []") (auto simp: write_all_steps)
next
  case (Cons o1 outs)
  show ?case
  proof (cases "bs = []")
    case False
    show ?thesis
    proof (cases o1)
      case (Accepted n)
      show ?thesis
      proof (cases "n = 0")
        case False
        obtain ws1 where ws1: "write_all outs (drop n bs) = (ws1, r, rest)" and ws: "ws = take n bs @ ws1"
          using Cons.prems Accepted False \<open>bs \<noteq> []\<close>
          by (cases "write_all outs (drop n bs)") (auto simp: write_all_steps)
        show ?thesis using Cons.IH [OF ws1] by (auto simp: ws prefix_take_append)
      qed (use Cons.prems Accepted False in \<open>auto simp: write_all_steps\<close>)
    qed (use Cons.prems Cons.IH False in \<open>auto simp: write_all_steps\<close>)
  qed (use Cons.prems in \<open>auto simp: write_all_steps\<close>)
qed

lemma write_frame_prefix:
  "write_frame outs header payload = (ws, r) \<Longrightarrow>
   prefix ws (header @ payload) \<and> (r = Written \<longrightarrow> ws = header @ payload)"
proof (induction outs header payload rule: write_frame.induct)
  case (4 n outs header payload)
  show ?case
  proof (cases "n < length header")
    case True
    obtain ws1 r1 outs1 where one: "write_all outs (drop n header) = (ws1, r1, outs1)"
      by (cases "write_all outs (drop n header)")
    obtain ws2 r2 outs2 where two: "write_all outs1 payload = (ws2, r2, outs2)"
      by (cases "write_all outs1 payload")
    have p1: "prefix (take n header @ ws1) (header @ payload)"
      using write_all_prefix [OF one] by (auto intro: prefix_prefix prefix_take_append)
    show ?thesis
      using "4.prems" True one two p1 write_all_prefix [OF one] write_all_prefix [OF two]
      by (cases r1) (auto split: if_splits)
  next
    case False
    obtain ws1 r1 outs1 where one: "write_all outs (drop (n - length header) payload) = (ws1, r1, outs1)"
      by (cases "write_all outs (drop (n - length header) payload)")
    have "prefix (header @ take (n - length header) payload @ ws1) (header @ payload)"
      using write_all_prefix [OF one] by (simp add: prefix_take_append)
    then show ?thesis
      using "4.prems" False one write_all_prefix [OF one] by (auto split: if_splits)
  qed
qed auto

section \<open>The writer\<close>

definition wal_inv :: "crc_fn \<Rightarrow> nat \<Rightarrow> wal_batch list \<Rightarrow> wal_writer \<Rightarrow> bool" where
  "wal_inv crc start bs w \<longleftrightarrow> start \<noteq> 0 \<and> chain start bs
     \<and> wal_file w = file_header crc @ frames_image crc bs \<and> wal_offset w = length (wal_file w)
     \<and> wal_next_sequence w = next_after start bs \<and> \<not> wal_poisoned w"

text \<open>The outcomes of one append, whatever the operating system does.\<close>

lemma append_inner_cases [consumes 3, case_names acknowledged refused failed stopped]:
  assumes "append_inner crc io w b d = (r, w')" and "wal_inv crc start bs w"
    and "wb_last_sequence b \<le> u64_max"
  obtains (acknowledged) receipt where "r = Some (Inr receipt)" and "wal_inv crc start (bs @ [b]) w'"
      and "receipt = \<lparr>ar_offset = wal_offset w, ar_end_offset = wal_offset w + frame_size b,
             ar_first_sequence = wb_first_sequence b, ar_last_sequence = wb_last_sequence b,
             ar_checksum = batch_crc crc b, ar_durable = (d = Authoritative)\<rparr>"
  | (refused) e where "r = Some (Inl e)" and "w' = w"
  | (failed) e ws where "r = Some (Inl (Io e))" and "chain start (bs @ [b])" and "prefix ws (frame_image crc b)"
      and "w' = w\<lparr>wal_file := wal_file w @ ws, wal_poisoned := True\<rparr>"
  | (stopped) ws where "r = None" and "chain start (bs @ [b])" and "prefix ws (frame_image crc b)"
      and "w' = w\<lparr>wal_file := wal_file w @ ws\<rparr>"
proof -
  have inv: "start \<noteq> 0" "chain start bs" "wal_file w = file_header crc @ frames_image crc bs"
    "wal_offset w = length (wal_file w)" "wal_next_sequence w = next_after start bs" "\<not> wal_poisoned w"
    using assms(2) by (auto simp: wal_inv_def)
  show thesis
  proof (cases "batch_valid b \<and> wb_first_sequence b = wal_next_sequence w
      \<and> wal_offset w + frame_size b \<le> u64_max \<and> io_admit io = None")
    case True
    then have ok: "wal_batch_validate b = Inr ()" "record_header crc b = Inr (header_image crc b)"
      using assms(3) by (simp_all add: wal_batch_validate_iff record_header_image)
    have ch: "chain start (bs @ [b])" using True inv by (simp add: chain_append)
    have off: "Option.bind (checked_add (wal_offset w) RECORD_HEADER_BYTES)
        (\<lambda>n. checked_add n (length (wb_payload b))) = Some (wal_offset w + frame_size b)"
      using True by (simp add: bind_eq_Some_conv frame_size_def)
    have succ: "checked_add (wb_last_sequence b) 1 = Some (wb_last_sequence b + 1)"
      using True by (simp add: batch_valid_def)
    have chk: "word_of_nat (be_nat (take 4 (drop 28 (header_image crc b)))) = batch_crc crc b"
      by (simp add: header_image_def record_fields_image)
    obtain ws res where wf: "write_frame (io_writes io) (header_image crc b) (wb_payload b) = (ws, res)"
      by (cases "write_frame (io_writes io) (header_image crc b) (wb_payload b)")
    have pre: "prefix ws (frame_image crc b)" "res = Written \<Longrightarrow> ws = frame_image crc b"
      using write_frame_prefix [OF wf] by (simp_all add: frame_image_def)
    note run = assms(1) [unfolded append_inner_def ok off wf succ chk sum.case option.case prod.case]
    show thesis
    proof (cases res)
      case Written
      define s where "s = (if d = Authoritative then io_sync io else SyncOk)"
      show thesis
      proof (cases s)
        case SyncOk
        have "wal_inv crc start (bs @ [b]) w'"
          using run True inv SyncOk Written pre(2) ch
          by (auto simp: s_def wal_inv_def next_after_append)
        with run True inv SyncOk Written show thesis
          by (intro acknowledged) (auto simp: s_def)
      next
        case (SyncFailed e)
        with run True inv Written ch pre(1) show thesis by (intro failed [of e ws]) (auto simp: s_def)
      next
        case SyncStopped
        with run True inv Written ch pre(1) show thesis by (intro stopped [of ws]) (auto simp: s_def)
      qed
    next
      case (WriteFailed e)
      with run True inv ch pre(1) show thesis by (intro failed [of e ws]) auto
    next
      case WriteStopped
      with run True inv ch pre(1) show thesis by (intro stopped [of ws]) auto
    qed
  next
    case False
    have "wal_batch_validate b = Inr () \<Longrightarrow> batch_valid b"
      using assms(3) by (simp add: wal_batch_validate_iff)
    then have "w' = w \<and> (\<exists>e. r = Some (Inl e))"
      using assms(1) inv(6) False
      by (auto simp: append_inner_def frame_size_def bind_eq_None_conv bind_eq_Some_conv add.assoc
          split: sum.splits if_splits option.splits)
    then show thesis using refused by blast
  qed
qed

lemma wal_create_at_inv:
  assumes "wal_create_at crc io start = (Some (Inr w), f)"
  shows "wal_inv crc start [] w \<and> f = Some (wal_file w)"
  using assms write_all_prefix [of "cio_writes io" "file_header crc"]
  by (auto simp: wal_create_at_def wal_inv_def
      split: if_splits option.splits prod.splits write_end.splits os_sync.splits)

lemma complete_frames_append:
  "frames_size bs \<le> n \<Longrightarrow> complete_frames n (bs @ cs) = bs @ complete_frames (n - frames_size bs) cs"
  by (induction bs arbitrary: n) auto

lemma complete_frames_all: "complete_frames (frames_size bs) bs = bs"
  using complete_frames_append [of bs "frames_size bs" "[]"] by simp

text \<open>A file that ends with a prefix of one more frame.\<close>

lemma scan_partial:
  assumes "chain start (bs @ [b])" and "start \<noteq> 0" and "prefix ws (frame_image crc b)"
  shows "\<exists>tail. wal_scan crc start (file_header crc @ frames_image crc bs @ ws)
     (if length ws = frame_size b then bs @ [b] else bs) tail"
proof -
  have ws: "ws = take (length ws) (frame_image crc b)" and len: "length ws \<le> frame_size b"
    using assms(3) prefix_length_le [OF assms(3)] by (auto simp: prefix_def)
  have "take (frames_size bs + length ws) (frames_image crc (bs @ [b])) = frames_image crc bs @ ws"
    using ws by simp
  moreover have "complete_frames (frames_size bs + length ws) (bs @ [b])
      = (if length ws = frame_size b then bs @ [b] else bs)"
    using len by (simp add: complete_frames_append)
  ultimately show ?thesis
    using scan_prefix [OF assms(1,2), of crc "frames_size bs + length ws"] by (simp only:)
qed

lemma scan_complete: "chain start bs \<Longrightarrow> start \<noteq> 0 \<Longrightarrow> wal_scan crc start (file_header crc @ frames_image crc bs) bs []"
  by (simp add: wal_scan_def)

text \<open>What an append leaves behind the frames that were there, for every outcome.\<close>

lemma append_inner_file:
  assumes "append_inner crc io w b d = (r, w')" and "wal_inv crc start bs w"
    and "wb_last_sequence b \<le> u64_max"
  obtains ws where "wal_file w' = wal_file w @ ws" and "prefix ws (frame_image crc b)"
    and "ws = [] \<or> chain start (bs @ [b])"
    and "\<And>receipt. r = Some (Inr receipt) \<Longrightarrow> ws = frame_image crc b"
  using assms
proof (cases rule: append_inner_cases)
  case (acknowledged receipt)
  then have "wal_file w' = wal_file w @ frame_image crc b" "chain start (bs @ [b])"
    using assms(2) by (simp_all add: wal_inv_def)
  then show thesis using that [of "frame_image crc b"] by auto
next
  case (refused e)
  then show thesis using that [of "[]"] by auto
next
  case (failed e ws)
  then show thesis using that [of ws] by auto
next
  case (stopped ws)
  then show thesis using that [of ws] by auto
qed

text \<open>
  (C18) Crash atomicity of an append. Whatever the operating system does during the append
  (short writes, interruptions, errors, a process that stops, a failing sync), and whatever
  part of the new bytes is lost afterwards, recovery succeeds and reports either all the
  earlier batches or these and the new one; after an acknowledged append the whole file
  recovers with the new batch.
\<close>

theorem append_crash_atomic:
  assumes "wal_inv crc start bs w" and "append_inner crc io w b d = (r, w')"
    and "wb_last_sequence b \<le> u64_max" and "file_fits (wal_file w @ frame_image crc b)"
    and "length (wal_file w) \<le> n" and "n \<le> length (wal_file w')"
  shows "\<exists>rep cs. recover_from crc (take n (wal_file w')) n start = Inr rep
     \<and> rec_batches rep = recovered_list crc FILE_HEADER_BYTES (bs @ cs) \<and> (cs = [] \<or> cs = [b])
     \<and> (\<forall>receipt. r = Some (Inr receipt) \<longrightarrow> n = length (wal_file w') \<longrightarrow> cs = [b])"
proof -
  obtain ws where ws: "wal_file w' = wal_file w @ ws" "prefix ws (frame_image crc b)"
    "ws = [] \<or> chain start (bs @ [b])" "\<And>receipt. r = Some (Inr receipt) \<Longrightarrow> ws = frame_image crc b"
    using append_inner_file [OF assms(2,1,3)] by blast
  have inv: "start \<noteq> 0" "chain start bs" "wal_file w = file_header crc @ frames_image crc bs"
    using assms(1) by (auto simp: wal_inv_def)
  define us where "us = take (n - length (wal_file w)) ws"
  have us: "take n (wal_file w') = file_header crc @ frames_image crc bs @ us" "prefix us (frame_image crc b)"
    using ws(1,2) assms(5) inv(3) prefix_order.trans [OF take_is_prefix ws(2)] by (auto simp: us_def)
  have len: "length (take n (wal_file w')) = n" using assms(6) by simp
  have fits: "file_fits (take n (wal_file w'))"
    using assms(4,6) ws(1) prefix_length_le [OF ws(2)] by (simp add: file_fits_def)
  define cs where "cs = (if length us = frame_size b then [b] else [])"
  have "\<exists>tail. wal_scan crc start (take n (wal_file w')) (bs @ cs) tail"
  proof (cases "us = []")
    case True
    then show ?thesis
      using scan_complete [OF inv(2,1)] by (auto simp: us(1) cs_def frame_size_def RECORD_HEADER_BYTES_def)
  next
    case False
    then have "chain start (bs @ [b])" using ws(3) by (auto simp: us_def)
    then show ?thesis using scan_partial [OF _ inv(1) us(2)] by (auto simp: us(1) cs_def split: if_splits)
  qed
  then obtain tail where scan: "wal_scan crc start (take n (wal_file w')) (bs @ cs) tail" by blast
  have "recover_from crc (take n (wal_file w')) n start = Inr (report crc start (bs @ cs) tail)"
    using recover_of_scan [OF scan fits] len by simp
  moreover have "r = Some (Inr receipt) \<Longrightarrow> n = length (wal_file w') \<Longrightarrow> cs = [b]" for receipt
    using ws(1,4) by (simp add: cs_def us_def)
  moreover have "cs = [] \<or> cs = [b]" by (simp add: cs_def)
  ultimately show ?thesis by (auto simp: report_def)
qed

definition sample_crc :: crc_fn where
  "sample_crc c bs = c + word_of_nat (length bs)"

definition sample_writer :: wal_writer where
  "sample_writer = \<lparr>wal_file = file_header sample_crc, wal_offset = 16, wal_next_sequence = 1,
     wal_poisoned = False\<rparr>"

definition sample_frame :: wal_batch where
  "sample_frame = \<lparr>wb_first_sequence = 1, wb_last_sequence = 2, wb_payload = [7]\<rparr>"

definition short_io :: wal_io where
  "short_io = \<lparr>io_admit = None, io_writes = [Interrupted, Accepted 10, Accepted 3], io_sync = SyncOk\<rparr>"

lemma sample_writer_inv: "wal_inv sample_crc 1 [] sample_writer"
  by (simp add: wal_inv_def sample_writer_def FILE_HEADER_BYTES_def)

lemma sample_append:
  "append_inner sample_crc short_io sample_writer sample_frame Authoritative
     = (None, sample_writer\<lparr>wal_file := file_header sample_crc @ take 13 (header_image sample_crc sample_frame)\<rparr>)"
proof -
  have valid: "batch_valid sample_frame" by (simp add: batch_valid_def sample_frame_def rrf_consts)
  let ?h = "header_image sample_crc sample_frame"
  have len: "length ?h = 32" by (simp add: RECORD_HEADER_BYTES_def)
  then have "drop 10 ?h \<noteq> []" "drop 13 ?h \<noteq> []" by simp_all
  then have "write_all [Accepted 3] (drop 10 ?h) = (take 3 (drop 10 ?h), WriteStopped, [])"
    by (simp add: write_all_steps)
  moreover have "take 10 ?h @ take 3 (drop 10 ?h) = take 13 ?h" using take_add [of 10 3 ?h] by simp
  ultimately have "write_frame (io_writes short_io) ?h [7] = (take 13 ?h, WriteStopped)"
    using len by (simp add: short_io_def)
  moreover have "wal_batch_validate sample_frame = Inr ()"
    using valid by (simp add: wal_batch_validate_iff batch_valid_def)
  moreover have "wb_first_sequence sample_frame = 1" "wb_payload sample_frame = [7]" "io_admit short_io = None"
    by (simp_all add: sample_frame_def short_io_def)
  ultimately show ?thesis
    using record_header_image [OF valid]
    by (simp add: append_inner_def sample_writer_def checked_add_def rrf_consts)
qed

theorem append_crash_atomic_witness:
  "\<exists>rep. recover_from sample_crc
       (take 20 (wal_file (snd (append_inner sample_crc short_io sample_writer sample_frame Authoritative)))) 20 1
     = Inr rep"
proof -
  have l: "length (wal_file sample_writer) \<le> 20" by (simp add: sample_writer_def FILE_HEADER_BYTES_def)
  have m: "20 \<le> length (wal_file (sample_writer\<lparr>wal_file :=
      file_header sample_crc @ take 13 (header_image sample_crc sample_frame)\<rparr>))"
    by (simp add: rrf_consts)
  have "wb_last_sequence sample_frame \<le> u64_max"
    "file_fits (wal_file sample_writer @ frame_image sample_crc sample_frame)"
    by (simp_all add: sample_frame_def sample_writer_def file_fits_def frame_size_def rrf_consts)
  from append_crash_atomic [OF sample_writer_inv sample_append this l m]
  show ?thesis unfolding sample_append snd_conv by blast
qed

section \<open>Runs of a writer\<close>

text \<open>
  A writer is created and then used for any sequence of appends and syncs with any
  outcomes after which the process still runs. The run records the acknowledged batches
  and the ones that were refused or failed.
\<close>

inductive wal_run :: "crc_fn \<Rightarrow> nat \<Rightarrow> wal_writer \<Rightarrow> wal_batch list \<Rightarrow> wal_batch list \<Rightarrow> bool"
  for crc :: crc_fn and start :: nat where
  created: "wal_create_at crc io start = (Some (Inr w), f) \<Longrightarrow> wal_run crc start w [] []"
| acknowledged: "wal_run crc start w acked denied \<Longrightarrow> wb_last_sequence b \<le> u64_max \<Longrightarrow>
    append_inner crc io w b d = (Some (Inr receipt), w') \<Longrightarrow> wal_run crc start w' (acked @ [b]) denied"
| denied: "wal_run crc start w acked denied \<Longrightarrow> wb_last_sequence b \<le> u64_max \<Longrightarrow>
    append_inner crc io w b d = (Some (Inl e), w') \<Longrightarrow> wal_run crc start w' acked (denied @ [b])"
| synced: "wal_run crc start w acked denied \<Longrightarrow> wal_sync outcome w = (Some r, w') \<Longrightarrow>
    wal_run crc start w' acked denied"

definition run_inv :: "crc_fn \<Rightarrow> nat \<Rightarrow> wal_writer \<Rightarrow> wal_batch list \<Rightarrow> wal_batch list \<Rightarrow> bool" where
  "run_inv crc start w acked denied \<longleftrightarrow>
     (if wal_poisoned w then
        start \<noteq> 0 \<and> chain start acked \<and>
        (\<exists>ws. wal_file w = file_header crc @ frames_image crc acked @ ws \<and>
           (ws = [] \<or> (\<exists>b \<in> set denied. chain start (acked @ [b]) \<and> prefix ws (frame_image crc b))))
      else wal_inv crc start acked w)"

lemma append_poisoned: "wal_poisoned w \<Longrightarrow> append_inner crc io w b d = (Some (Inl PoisonedWriter), w)"
  by (simp add: append_inner_def)

lemma run_inv_append:
  assumes "run_inv crc start w acked denied" and "wb_last_sequence b \<le> u64_max"
    and "append_inner crc io w b d = (Some r, w')"
  shows "run_inv crc start w' (if isl r then acked else acked @ [b]) (if isl r then denied @ [b] else denied)"
proof (cases "wal_poisoned w")
  case True
  then have "r = Inl PoisonedWriter" "w' = w" using append_poisoned assms(3) by auto
  with True assms(1) show ?thesis by (auto simp: run_inv_def)
next
  case False
  then have inv: "wal_inv crc start acked w" using assms(1) by (simp add: run_inv_def)
  from assms(3) inv assms(2) show ?thesis
  proof (cases rule: append_inner_cases)
    case (acknowledged receipt)
    then show ?thesis by (simp add: run_inv_def wal_inv_def)
  next
    case (refused e)
    with inv False show ?thesis by (simp add: run_inv_def)
  next
    case (failed e ws)
    with inv show ?thesis by (auto simp: run_inv_def wal_inv_def)
  qed simp
qed

lemma wal_run_inv: "wal_run crc start w acked denied \<Longrightarrow> run_inv crc start w acked denied"
proof (induction rule: wal_run.induct)
  case (created io w f)
  then show ?case using wal_create_at_inv [of crc io start w f] by (simp add: run_inv_def wal_inv_def)
next
  case (acknowledged w acked denied b io d receipt w')
  then show ?case using run_inv_append [of crc start w acked denied b io d "Inr receipt" w'] by simp
next
  case (denied w acked denied b io d e w')
  then show ?case using run_inv_append [of crc start w acked denied b io d "Inl e" w'] by simp
next
  case (synced w acked denied outcome r w')
  then show ?case
    by (auto simp: wal_sync_def run_inv_def wal_inv_def split: if_splits os_sync.splits)
qed

text \<open>
  (C17) Acknowledged writes are never lost. After any run of a writer, with any failures,
  recovery of its file reports all acknowledged batches in order, and at most one further
  batch, which is one whose append failed; a writer that is not poisoned has a file with
  exactly the acknowledged batches and no torn tail.
\<close>

theorem wal_run_recovers:
  assumes "wal_run crc start w acked denied" and "file_fits (wal_file w)"
  shows "\<exists>rep cs. recover_from crc (wal_file w) (length (wal_file w)) start = Inr rep
     \<and> rec_batches rep = recovered_list crc FILE_HEADER_BYTES (acked @ cs)
     \<and> (cs = [] \<or> (\<exists>b \<in> set denied. cs = [b]))
     \<and> (wal_poisoned w \<or> cs = [] \<and> rec_torn_tail rep = None)"
proof (cases "wal_poisoned w")
  case True
  then obtain ws where s: "start \<noteq> 0" "chain start acked"
    and f: "wal_file w = file_header crc @ frames_image crc acked @ ws"
    and ws: "ws = [] \<or> (\<exists>b \<in> set denied. chain start (acked @ [b]) \<and> prefix ws (frame_image crc b))"
    using wal_run_inv [OF assms(1)] by (auto simp: run_inv_def)
  have "\<exists>cs tail. wal_scan crc start (wal_file w) (acked @ cs) tail \<and> (cs = [] \<or> (\<exists>b \<in> set denied. cs = [b]))"
  proof (cases "ws = []")
    case True
    then show ?thesis using scan_complete [OF s(2,1)] f by (intro exI [of _ "[]"]) auto
  next
    case False
    then obtain b where b: "b \<in> set denied" "chain start (acked @ [b])" "prefix ws (frame_image crc b)"
      using ws by blast
    obtain tail where "wal_scan crc start (wal_file w)
        (acked @ (if length ws = frame_size b then [b] else [])) tail"
      using scan_partial [OF b(2) s(1) b(3)] unfolding f by (auto split: if_splits)
    then show ?thesis
      using b(1) by (intro exI [of _ "if length ws = frame_size b then [b] else []"]) auto
  qed
  then obtain cs tail where scan: "wal_scan crc start (wal_file w) (acked @ cs) tail"
    and cs: "cs = [] \<or> (\<exists>b \<in> set denied. cs = [b])" by blast
  show ?thesis using recover_of_scan [OF scan assms(2)] cs True by (auto simp: report_def)
next
  case False
  then have "wal_scan crc start (wal_file w) acked []"
    using wal_run_inv [OF assms(1)] scan_complete [of start acked crc] by (simp add: run_inv_def wal_inv_def)
  then have "recover_from crc (wal_file w) (length (wal_file w)) start = Inr (report crc start acked [])"
    using assms(2) by (rule recover_of_scan)
  then show ?thesis by (intro exI [of _ "report crc start acked []"] exI [of _ "[]"]) (simp add: report_def)
qed

theorem wal_run_recovers_witness:
  "\<exists>w rep. wal_run sample_crc 1 w [] [\<lparr>wb_first_sequence = 9, wb_last_sequence = 9, wb_payload = [7]\<rparr>]
     \<and> recover_from sample_crc (wal_file w) (length (wal_file w)) 1 = Inr rep \<and> rec_torn_tail rep = None"
proof -
  let ?b = "\<lparr>wb_first_sequence = 9, wb_last_sequence = 9, wb_payload = [7]\<rparr>"
  have "file_header sample_crc \<noteq> []" by (simp add: file_header_def FILE_MAGIC_def Let_def)
  then have "wal_create_at sample_crc \<lparr>cio_admit = None, cio_open = None, cio_writes = [Accepted 16],
      cio_sync = SyncOk, cio_sync_dir = SyncOk\<rparr> 1 = (Some (Inr sample_writer), Some (wal_file sample_writer))"
    by (simp add: wal_create_at_def write_all_steps sample_writer_def rrf_consts)
  then have run: "wal_run sample_crc 1 sample_writer [] []" by (rule wal_run.created)
  have "wal_batch_validate ?b = Inr ()" by (simp add: wal_batch_validate_def rrf_consts)
  then have "append_inner sample_crc short_io sample_writer ?b Buffered
      = (Some (Inl (InvalidBatch ''unexpected first sequence'')), sample_writer)"
    by (simp add: append_inner_def sample_writer_def)
  from wal_run.denied [OF run _ this] have den: "wal_run sample_crc 1 sample_writer [] [?b]"
    by (simp add: rrf_consts)
  have "file_fits (wal_file sample_writer)" "\<not> wal_poisoned sample_writer"
    by (simp_all add: sample_writer_def file_fits_def rrf_consts)
  with wal_run_recovers [OF den] den show ?thesis by blast
qed

section \<open>Reopening and repair\<close>

lemma consume_unit: "consume (\<lambda>_ u. Inr u) () xs = Inr ()"
  by (induction xs) auto

lemma open_at_scan:
  assumes "wal_scan crc start file bs []" and "file_fits file" and "start \<le> u64_max"
  shows "\<exists>w. wal_open_at crc file (length file) start = Inr w \<and> wal_inv crc start bs w"
proof -
  have s: "start \<noteq> 0" "chain start bs" "file = file_header crc @ frames_image crc bs"
    using assms(1) by (auto simp: wal_scan_def)
  have "next_after start bs \<le> u64_max" "next_after start bs \<noteq> 0"
    using next_after_bound [OF s(2)] next_after_pos [OF s(2,1)] assms(3) by (cases bs; simp)+
  then have succ: "checked_add (next_after start bs - 1) 1 = Some (next_after start bs)" by simp
  have "length file = FILE_HEADER_BYTES + frames_size bs" by (simp add: s(3))
  then have "wal_open_at crc file (length file) start
      = Inr \<lparr>wal_file = file, wal_offset = length file, wal_next_sequence = next_after start bs,
             wal_poisoned = False\<rparr>"
    unfolding wal_open_at_def replay_file_image [OF assms(1,2)] consume_unit rbind_simps prod.case
      from_recovered_file_def recovery_summary.simps succ by simp
  with s show ?thesis by (auto simp: wal_inv_def)
qed

text \<open>
  (C28) Repair. When the repair of a log succeeds it keeps exactly the batches recovery found:
  the repaired file recovers to the same report without a torn tail, it can be opened for
  writing, and the writer continues after these batches.
\<close>

theorem repair_then_open:
  assumes "repair_torn_tail_from crc file later start = Inr (rep, file')" and "file_fits file"
    and "start \<le> u64_max"
  shows "\<exists>r bs w. recover_from crc file later start = Inr r \<and> rep = r\<lparr>rec_torn_tail := None\<rparr>
     \<and> rec_batches r = recovered_list crc FILE_HEADER_BYTES bs
     \<and> recover_from crc file' (length file') start = Inr rep
     \<and> wal_open_at crc file' (length file') start = Inr w \<and> wal_inv crc start bs w"
proof -
  from assms(1) obtain s where replay: "replay_file crc file later start push_batch [] = Inr (s, rec_batches rep)"
    and rep: "rep = \<lparr>rec_batches = rec_batches rep, rec_recovered_through = rs_recovered_through s,
      rec_valid_bytes = rs_valid_bytes s, rec_torn_tail = None\<rparr>"
    and file': "file' = (if rs_torn_tail s \<noteq> None then take (rs_valid_bytes s) file else file)"
    by (auto simp: repair_torn_tail_from_def rrf_res simp del: rbind_simps split: prod.splits)
  define r where "r = \<lparr>rec_batches = rec_batches rep, rec_recovered_through = rs_recovered_through s,
    rec_valid_bytes = rs_valid_bytes s, rec_torn_tail = rs_torn_tail s\<rparr>"
  have rec: "recover_from crc file later start = Inr r"
    by (simp add: recover_from_def replay r_def)
  obtain bs tail where scan: "wal_scan crc start file bs tail" and rr: "r = report crc start bs tail"
    using recover_inv [OF rec assms(2)] by blast
  have "file' = file_header crc @ frames_image crc bs"
    using scan rr unfolding file' by (auto simp: wal_scan_def report_def r_def)
  then have scan': "wal_scan crc start file' bs []" and "length file' \<le> length file"
    using scan by (auto simp: wal_scan_def)
  then have fits: "file_fits file'" using assms(2) by (simp add: file_fits_def)
  have "rep = r\<lparr>rec_torn_tail := None\<rparr>" by (subst rep) (simp add: r_def)
  moreover from this have "rep = report crc start bs []" by (simp add: rr report_def)
  ultimately show ?thesis
    using rec recover_of_scan [OF scan' fits] open_at_scan [OF scan' fits assms(3)] rr
    by (auto simp: report_def)
qed

theorem repair_then_open_witness:
  "\<exists>rep file' w. repair_torn_tail_from sample_crc (file_header sample_crc @ [1, 2, 3]) 19 1 = Inr (rep, file')
     \<and> wal_open_at sample_crc file' (length file') 1 = Inr w"
proof -
  let ?file = "file_header sample_crc @ [1, 2, 3]"
  have scan: "wal_scan sample_crc 1 ?file [] [1, 2, 3]" and fits: "file_fits ?file"
    by (simp_all add: wal_scan_def incomplete_frame_def file_fits_def rrf_consts)
  have "length ?file = 19" by (simp add: rrf_consts)
  then obtain rep file' where r: "repair_torn_tail_from sample_crc ?file 19 1 = Inr (rep, file')"
    using replay_file_image [OF scan fits, of push_batch "[]"]
    by (simp add: repair_torn_tail_from_def FILE_HEADER_BYTES_def)
  show ?thesis using repair_then_open [OF r fits] r by (auto simp: u64_max_def)
qed

text \<open>
  (C29) A replay under a recovery budget that succeeds has the outcome of the unbounded replay:
  the budget can only refuse work, never change what is recovered.
\<close>

theorem bounded_replay_agrees:
  assumes "replay_file_bounded crc clock file later start budget replay st = Inr (summary, budget', st')"
    and "file_fits file"
  shows "replay_file crc file later start replay st = Inr (summary, st')"
proof -
  from assms(1) obtain b where
    "replay_file_inner crc clock file later start (Some budget) replay st = Inr (summary, b, st')"
    by (auto simp: replay_file_bounded_def rrf_res simp del: rbind_simps split: prod.splits)
  from replay_inner_inv [OF this assms(2)]
  obtain bs where bs: "wal_scan crc start file bs (drop (rs_valid_bytes summary) file)" "later = length file"
    "consume replay st (recovered_list crc FILE_HEADER_BYTES bs) = Inr st'"
    "summary = \<lparr>rs_recovered_through = next_after start bs - 1,
          rs_valid_bytes = FILE_HEADER_BYTES + frames_size bs,
          rs_torn_tail = torn_at (drop (rs_valid_bytes summary) file) (FILE_HEADER_BYTES + frames_size bs),
          rs_payload_bytes = payload_total bs\<rparr>"
    by blast
  show ?thesis
    unfolding bs(2) replay_file_image [OF bs(1) assms(2)] bs(3) rbind_simps bs(4) [symmetric] by (rule refl)
qed

theorem bounded_replay_agrees_witness:
  "\<exists>summary. replay_file sample_crc (file_header sample_crc) 16 1 push_batch [] = Inr (summary, [])"
proof -
  have "validate_file_header sample_crc (file_header sample_crc) = Inr ()"
    by (simp add: validate_file_header_iff)
  then have "\<exists>summary budget'. replay_file_bounded sample_crc (\<lambda>i. i) (file_header sample_crc) 16 1
      (budget_new recovery_limits_default) push_batch [] = Inr (summary, budget', [])"
    by (simp add: replay_file_bounded_def replay_file_inner_def with_budget_def budget_wal_def budget_file_def
        budget_tick_def budget_check_def budget_new_def recovery_limits_default_def replay_loop.simps
        fail_if_def checked_add_def rrf_consts)
  then obtain summary budget' where "replay_file_bounded sample_crc (\<lambda>i. i) (file_header sample_crc) 16 1
      (budget_new recovery_limits_default) push_batch [] = Inr (summary, budget', [])" by blast
  from bounded_replay_agrees [OF this] show ?thesis by (auto simp: file_fits_def rrf_consts)
qed

end
