(* ===== verification/Mutable_Limits.thy ===== *)
theory Mutable_Limits
  imports Batch
begin

text \<open>
  Accounting of the active mutable state (\<open>rrd-lsm/src/mutable.rs\<close>): the charge of one
  version is its key, its value and the native version record; the charge of a batch is
  the checked sum over its operations; hard limits reject a charge and the flush predicate
  decides, without overflow, whether the next batch would pass them.
\<close>

record mutable_limits =
  ml_accounted_bytes :: nat
  ml_versions :: nat

record mutable_charge =
  mc_bytes :: nat
  mc_versions :: nat

definition mutable_limits_default :: mutable_limits where
  "mutable_limits_default = \<lparr>ml_accounted_bytes = 134217728, ml_versions = 1048576\<rparr>"

definition mutable_charge_default :: mutable_charge where
  "mutable_charge_default = \<lparr>mc_bytes = 0, mc_versions = 0\<rparr>"

text \<open>\<open>size_of::<VersionedValue>()\<close> on a 64-bit target.\<close>

definition VERSION_RECORD_BYTES :: nat where [rrf_consts]: "VERSION_RECORD_BYTES = 24"

definition limits_validate :: "mutable_limits \<Rightarrow> mutable_limits res" where
  "limits_validate l = rbind (fail_if (ml_accounted_bytes l = 0 \<or> ml_versions l = 0)
     (InvalidConfiguration
        ''hard mutable accounted-byte and version limits must be greater than zero''))
     (\<lambda>_. Inr l)"

definition limits_check :: "mutable_limits \<Rightarrow> mutable_charge \<Rightarrow> unit res" where
  "limits_check l c =
     rbind (fail_if (mc_versions c > ml_versions l)
              (MutableLimit Versions (ml_versions l) (mc_versions c))) (\<lambda>_.
     fail_if (mc_bytes c > ml_accounted_bytes l)
              (MutableLimit AccountedBytes (ml_accounted_bytes l) (mc_bytes c)))"

definition needs_flush :: "mutable_limits \<Rightarrow> mutable_charge \<Rightarrow> mutable_charge \<Rightarrow> bool" where
  "needs_flush l current incoming \<longleftrightarrow>
     mc_bytes current > saturating_sub (ml_accounted_bytes l) (mc_bytes incoming)
     \<or> mc_versions current > saturating_sub (ml_versions l) (mc_versions incoming)"

definition version_charge :: "nat \<Rightarrow> nat \<Rightarrow> nat res" where
  "version_charge key_len value_len =
     ok_or (InvalidBatch ''mutable version byte accounting overflow'')
       (Option.bind (checked_add key_len value_len) (\<lambda>n. checked_add n VERSION_RECORD_BYTES))"

definition charge_batch :: "write_batch \<Rightarrow> mutable_charge res" where
  "charge_batch b =
     rbind (try_fold (\<lambda>bytes m.
        rbind (version_charge (length (mutation_key m))
                 (case m of Put k v \<Rightarrow> length v | Delete k \<Rightarrow> 0)) (\<lambda>n.
        ok_or (InvalidBatch ''mutable byte accounting overflow'') (checked_add bytes n)))
        0 (operations b)) (\<lambda>bytes.
     Inr \<lparr>mc_bytes = bytes, mc_versions = length (operations b)\<rparr>)"

definition charge_add :: "mutable_charge \<Rightarrow> mutable_charge \<Rightarrow> mutable_charge res" where
  "charge_add a b =
     rbind (ok_or (InvalidBatch ''mutable byte accounting overflow'')
              (checked_add (mc_bytes a) (mc_bytes b))) (\<lambda>bytes.
     rbind (ok_or (InvalidBatch ''mutable version accounting overflow'')
              (checked_add (mc_versions a) (mc_versions b))) (\<lambda>versions.
     Inr \<lparr>mc_bytes = bytes, mc_versions = versions\<rparr>))"

section \<open>What the accounting computes\<close>

definition version_bytes :: "bytes \<Rightarrow> bytes option \<Rightarrow> nat" where
  "version_bytes k v = length k + (case v of None \<Rightarrow> 0 | Some x \<Rightarrow> length x) + VERSION_RECORD_BYTES"

definition mutation_bytes :: "mutation \<Rightarrow> nat" where
  "mutation_bytes m = version_bytes (mutation_key m) (mutation_value m)"

lemma version_charge_Inr [rrf_res]:
  "version_charge a b = Inr n \<longleftrightarrow> n = a + b + VERSION_RECORD_BYTES \<and> n \<le> u64_max"
  by (auto simp: version_charge_def ok_or_Inr bind_eq_Some_conv)

lemma charge_fold_Inr:
  "try_fold (\<lambda>bytes m.
        rbind (version_charge (length (mutation_key m))
                 (case m of Put k v \<Rightarrow> length v | Delete k \<Rightarrow> 0)) (\<lambda>n.
        ok_or (InvalidBatch ''mutable byte accounting overflow'') (checked_add bytes n))) acc ops = Inr r
   \<longleftrightarrow> r = acc + sum_list (map mutation_bytes ops) \<and> (ops = [] \<or> r \<le> u64_max)"
proof (induction ops arbitrary: acc)
  case (Cons m ops)
  show ?case
    by (cases m) (auto simp: rbind_Inr ok_or_Inr version_charge_Inr mutation_bytes_def version_bytes_def
        Cons.IH)
qed auto

lemma charge_batch_Inr [rrf_res]:
  "charge_batch b = Inr c \<longleftrightarrow>
     mc_bytes c = sum_list (map mutation_bytes (operations b)) \<and> mc_versions c = length (operations b)
     \<and> (operations b = [] \<or> mc_bytes c \<le> u64_max)"
  by (auto simp: charge_batch_def rbind_Inr charge_fold_Inr)

lemma charge_add_Inr [rrf_res]:
  "charge_add a b = Inr c \<longleftrightarrow>
     mc_bytes c = mc_bytes a + mc_bytes b \<and> mc_versions c = mc_versions a + mc_versions b
     \<and> mc_bytes c \<le> u64_max \<and> mc_versions c \<le> u64_max"
  by (auto simp: charge_add_def rbind_Inr ok_or_Inr)

lemma limits_check_Inr [rrf_res]:
  "limits_check l c = Inr u \<longleftrightarrow> mc_versions c \<le> ml_versions l \<and> mc_bytes c \<le> ml_accounted_bytes l"
  by (auto simp: limits_check_def rbind_Inr fail_if_Inr not_less)

text \<open>
  The flush predicate is exact and free of overflow: for a batch that fits the limits by
  itself, it holds precisely when admitting the batch on top of the current state would be
  refused by the hard limits.
\<close>

lemma needs_flush_iff_refused:
  assumes "limits_check l incoming = Inr ()"
    and "mc_bytes current + mc_bytes incoming \<le> u64_max"
    and "mc_versions current + mc_versions incoming \<le> u64_max"
  shows "needs_flush l current incoming \<longleftrightarrow>
    (\<forall>total. charge_add current incoming = Inr total \<longrightarrow> limits_check l total \<noteq> Inr ())"
proof -
  define total where "total = \<lparr>mc_bytes = mc_bytes current + mc_bytes incoming,
    mc_versions = mc_versions current + mc_versions incoming\<rparr>"
  have "charge_add current incoming = Inr t \<longleftrightarrow> t = total" for t
    using assms(2,3) by (auto simp: charge_add_Inr total_def)
  moreover have "limits_check l total \<noteq> Inr () \<longleftrightarrow> needs_flush l current incoming"
    using assms(1) by (auto simp: limits_check_Inr needs_flush_def saturating_sub_def total_def)
  ultimately show ?thesis by auto
qed

end
