(* ===== verification/Ordered_Map.thy ===== *)
theory Ordered_Map
  imports RRF_Prelude
begin

text \<open>
  The contract of \<open>BTreeMap\<close>, the one container the storage engine keeps its mutable state
  in, as the locale \<open>ordered_map\<close>: point lookup after insertion and removal, and the
  entries as the key-sorted list that iteration visits. The model of the container is a
  key-sorted association list (the tree's in-order traversal); the interpretation \<open>bt\<close>
  discharges the laws for it. Range views filter the traversal by the bounds of
  \<open>std::ops::Bound\<close>.
\<close>

section \<open>Sorted association lists\<close>

type_synonym ('k, 'v) btree = "('k \<times> 'v) list"

abbreviation key_sorted :: "('k::linorder \<times> 'v) list \<Rightarrow> bool" where
  "key_sorted m \<equiv> sorted_wrt (<) (map fst m)"

fun bt_insert :: "'k::linorder \<Rightarrow> 'v \<Rightarrow> ('k, 'v) btree \<Rightarrow> ('k, 'v) btree" where
  "bt_insert k v [] = [(k, v)]"
| "bt_insert k v ((a, w) # m) =
     (if k < a then (k, v) # (a, w) # m
      else if k = a then (k, v) # m
      else (a, w) # bt_insert k v m)"

definition bt_remove :: "'k \<Rightarrow> ('k, 'v) btree \<Rightarrow> ('k, 'v) btree" where
  "bt_remove k m = filter (\<lambda>e. fst e \<noteq> k) m"

datatype 'k bound = Included 'k | Excluded 'k | Unbounded

fun above :: "'k::linorder bound \<Rightarrow> 'k \<Rightarrow> bool" where
  "above (Included a) k \<longleftrightarrow> a \<le> k"
| "above (Excluded a) k \<longleftrightarrow> a < k"
| "above Unbounded k \<longleftrightarrow> True"

fun below :: "'k::linorder bound \<Rightarrow> 'k \<Rightarrow> bool" where
  "below (Included a) k \<longleftrightarrow> k \<le> a"
| "below (Excluded a) k \<longleftrightarrow> k < a"
| "below Unbounded k \<longleftrightarrow> True"

definition bt_range :: "'k::linorder bound \<Rightarrow> 'k bound \<Rightarrow> ('k, 'v) btree \<Rightarrow> ('k \<times> 'v) list" where
  "bt_range lo hi m = filter (\<lambda>e. above lo (fst e) \<and> below hi (fst e)) m"

lemma key_sorted_distinct: "key_sorted m \<Longrightarrow> distinct (map fst m)"
  by (simp add: strict_sorted_iff)

lemma key_sorted_filter: "key_sorted m \<Longrightarrow> key_sorted (filter P m)"
proof (induction m)
  case (Cons e m)
  then show ?case by (auto simp: sorted_wrt_map)
qed simp

lemma key_sorted_map_snd: "key_sorted m \<Longrightarrow> key_sorted (map (\<lambda>(k, v). (k, f k v)) m)"
  by (simp add: case_prod_unfold comp_def)

lemma set_bt_insert: "set (map fst (bt_insert k v m)) = insert k (set (map fst m))"
  by (induction k v m rule: bt_insert.induct) auto

lemma key_sorted_bt_insert: "key_sorted m \<Longrightarrow> key_sorted (bt_insert k v m)"
proof (induction k v m rule: bt_insert.induct)
  case (2 k v a w m)
  have keys: "\<forall>y \<in> set (map fst (bt_insert k v m)). a < y" if "a < k"
    using "2.prems" that by (simp only: set_bt_insert) auto
  from 2 keys show ?case by (auto dest: less_trans)
qed simp

lemma map_of_bt_insert: "map_of (bt_insert k v m) = (map_of m)(k \<mapsto> v)"
  by (induction k v m rule: bt_insert.induct) (auto simp: fun_eq_iff)

lemma map_of_filter_keys: "map_of (filter (\<lambda>e. P (fst e)) m) k = (if P k then map_of m k else None)"
  by (induction m) auto

lemma map_of_map_filter:
  "key_sorted m \<Longrightarrow> map_of (List.map_filter (\<lambda>(k, v). map_option (Pair k) (f k v)) m) k
     = Option.bind (map_of m k) (f k)"
proof (induction m)
  case (Cons e m)
  obtain a v where e: "e = (a, v)" by (cases e)
  have "map_of m a = None"
    using Cons.prems e by (auto simp: map_of_eq_None_iff)
  with Cons e show ?case
    by (auto simp: List.map_filter_simps split: option.splits)
qed (simp add: List.map_filter_simps)

lemma key_sorted_map_filter:
  "key_sorted m \<Longrightarrow> key_sorted (List.map_filter (\<lambda>(k, v). map_option (Pair k) (f k v)) m)"
proof (induction m)
  case (Cons e m)
  obtain a v where e: "e = (a, v)" by (cases e)
  have "\<forall>x \<in> set (List.map_filter (\<lambda>(k, v). map_option (Pair k) (f k v)) m). fst x \<in> fst ` set m"
    by (force simp: List.map_filter_def)
  then have "\<forall>x \<in> set (List.map_filter (\<lambda>(k, v). map_option (Pair k) (f k v)) m). a < fst x"
    using Cons.prems e by fastforce
  with Cons e show ?case
    by (simp add: List.map_filter_simps split: option.splits)
qed (simp add: List.map_filter_simps)

text \<open>A key-sorted list is determined by the map it denotes.\<close>

lemma alist_from_keys: "distinct (map fst m) \<Longrightarrow> m = map (\<lambda>k. (k, the (map_of m k))) (map fst m)"
proof (induction m)
  case (Cons e m)
  have "map (\<lambda>k. (k, the (map_of (e # m) k))) (map fst m) = map (\<lambda>k. (k, the (map_of m k))) (map fst m)"
    using Cons.prems by (cases e) (auto simp: image_iff)
  with Cons show ?case by (cases e) simp
qed simp

lemma key_sorted_unique:
  assumes "key_sorted xs" and "key_sorted ys" and "map_of xs = map_of ys"
  shows "xs = ys"
proof -
  have "set (map fst xs) = set (map fst ys)"
    using assms(3) by (metis dom_map_of_conv_image_fst set_map)
  then have "map fst xs = map fst ys"
    using assms(1,2) by (intro strict_sorted_equal)
  then show ?thesis
    using alist_from_keys [of xs] alist_from_keys [of ys] assms key_sorted_distinct by metis
qed

text \<open>Sums over the entries, and what an insertion does to them.\<close>

definition bt_sum :: "('k \<Rightarrow> 'v \<Rightarrow> nat) \<Rightarrow> ('k, 'v) btree \<Rightarrow> nat" where
  "bt_sum g t = sum_list (map (\<lambda>(k, c). g k c) t)"

lemma bt_sum_insert_new:
  "map_of t k = None \<Longrightarrow> bt_sum g (bt_insert k c t) = bt_sum g t + g k c"
proof (induction t)
  case (Cons e t)
  then show ?case by (cases e) (auto simp: bt_sum_def split: if_splits)
qed (simp add: bt_sum_def)

lemma key_sorted_below: "key_sorted ((a, w) # t) \<Longrightarrow> k < a \<Longrightarrow> map_of t k = None"
  by (force simp: map_of_eq_None_iff)

lemma bt_sum_insert_old:
  "key_sorted t \<Longrightarrow> map_of t k = Some c \<Longrightarrow>
   bt_sum g (bt_insert k c' t) + g k c = bt_sum g t + g k c'"
proof (induction t)
  case (Cons e t)
  obtain a w where e: "e = (a, w)" by (cases e)
  show ?case
  proof (cases "k < a")
    case True
    then have "map_of t k = None" using key_sorted_below [of a w t k] Cons.prems(1) e by simp
    then show ?thesis using Cons.prems(2) e True by (auto split: if_splits)
  next
    case False
    then show ?thesis
      using Cons e by (auto simp: bt_sum_def split: if_splits)
  qed
qed simp

lemma bt_sum_member_le: "map_of t k = Some c \<Longrightarrow> g k c \<le> bt_sum g t"
proof (induction t)
  case (Cons e t)
  then show ?case by (cases e) (auto simp: bt_sum_def trans_le_add2 split: if_splits)
qed simp

lemma bt_sum_length: "bt_sum (\<lambda>_ _. Suc 0) t = length t"
  by (induction t) (auto simp: bt_sum_def)

lemma length_bt_insert:
  assumes "key_sorted t"
  shows "length (bt_insert k c t) = (if map_of t k = None then length t + 1 else length t)"
proof (cases "map_of t k")
  case None
  then show ?thesis using bt_sum_insert_new [of t k "\<lambda>_ _. Suc 0" c] by (simp add: bt_sum_length)
next
  case (Some c')
  then show ?thesis using bt_sum_insert_old [OF assms Some, of "\<lambda>_ _. Suc 0" c] by (simp add: bt_sum_length)
qed

section \<open>The interface\<close>

locale ordered_map =
  fixes get :: "'m \<Rightarrow> 'k::linorder \<Rightarrow> 'v option"
    and put :: "'k \<Rightarrow> 'v \<Rightarrow> 'm \<Rightarrow> 'm"
    and remove :: "'k \<Rightarrow> 'm \<Rightarrow> 'm"
    and entries :: "'m \<Rightarrow> ('k \<times> 'v) list"
    and wf :: "'m \<Rightarrow> bool"
  assumes get_put: "wf m \<Longrightarrow> get (put k v m) = (get m)(k \<mapsto> v)"
    and get_remove: "wf m \<Longrightarrow> get (remove k m) = (get m)(k := None)"
    and entries_sorted: "wf m \<Longrightarrow> key_sorted (entries m)"
    and entries_get: "wf m \<Longrightarrow> map_of (entries m) = get m"
    and wf_put: "wf m \<Longrightarrow> wf (put k v m)"
    and wf_remove: "wf m \<Longrightarrow> wf (remove k m)"
begin

lemma entries_eqI: "wf m \<Longrightarrow> wf m' \<Longrightarrow> get m = get m' \<Longrightarrow> entries m = entries m'"
  by (rule key_sorted_unique) (simp_all add: entries_sorted entries_get)

lemma entries_distinct: "wf m \<Longrightarrow> distinct (map fst (entries m))"
  by (rule key_sorted_distinct) (rule entries_sorted)

lemma in_entries: "wf m \<Longrightarrow> (k, v) \<in> set (entries m) \<longleftrightarrow> get m k = Some v"
  using map_of_eq_Some_iff [OF entries_distinct, of m k v] by (simp add: entries_get)

text \<open>
  Merging rows into a map where a row replaces the stored one only when it is better:
  the value kept for a key is a best one among the stored value and the rows of that key.
\<close>

lemma wf_fold_better:
  "wf m \<Longrightarrow> wf (fold (\<lambda>(k, v) m. if better v (get m k) then put k v m else m) rows m)"
  by (induction rows arbitrary: m) (auto simp: wf_put)

lemma get_fold_better:
  "wf m \<Longrightarrow>
   get (fold (\<lambda>(k, v) m. if better v (get m k) then put k v m else m) rows m) k
     = fold (\<lambda>v cur. if better v cur then Some v else cur) (map snd (filter (\<lambda>r. fst r = k) rows)) (get m k)"
proof (induction rows arbitrary: m)
  case (Cons r rows)
  obtain a v where r: "r = (a, v)" by (cases r)
  show ?case
    using Cons.IH [of "if better v (get m a) then put a v m else m"] Cons.prems
    by (auto simp: r wf_put get_put)
qed simp

end

interpretation bt: ordered_map map_of bt_insert bt_remove "\<lambda>m. m" key_sorted
proof unfold_locales
  fix m :: "('k, 'v) btree" and k
  show "map_of (bt_remove k m) = (map_of m)(k := None)"
    unfolding bt_remove_def fun_eq_iff by (auto simp: map_of_filter_keys [where P = "\<lambda>x. x \<noteq> k"])
qed (auto simp: map_of_bt_insert key_sorted_bt_insert bt_remove_def key_sorted_filter)

lemma map_of_bt_range: "map_of (bt_range lo hi m) k = (if above lo k \<and> below hi k then map_of m k else None)"
  unfolding bt_range_def by (rule map_of_filter_keys)

lemma key_sorted_bt_range: "key_sorted m \<Longrightarrow> key_sorted (bt_range lo hi m)"
  unfolding bt_range_def by (rule key_sorted_filter)

end
