(* ===== verification/Memtable.thy ===== *)
theory Memtable
  imports Mutable_Limits Ordered_Map Wal
begin

text \<open>
  The ordered multi-version memtable (\<open>rrd-lsm/src/memtable.rs\<close>): a map from keys to chains
  of versions in ascending sequence order. \<open>BTreeMap\<close> is the key-sorted association list of
  \<open>Ordered_Map\<close>; its \<open>range\<close> panics on inverted bounds of a non-empty map. The allocator
  capacity of spilled chains is not modelled.
\<close>

section \<open>Versions and chains\<close>

record versioned_value =
  vv_sequence :: nat
  vv_value :: "bytes option"

datatype version_chain = One versioned_value | Many "versioned_value list"

fun chain_slice :: "version_chain \<Rightarrow> versioned_value list" where
  "chain_slice (One v) = [v]"
| "chain_slice (Many vs) = vs"

definition chain_from_vec :: "versioned_value list \<Rightarrow> version_chain" where
  "chain_from_vec vs = (case vs of [v] \<Rightarrow> One v | _ \<Rightarrow> Many vs)"

fun chain_push :: "version_chain \<Rightarrow> versioned_value \<Rightarrow> version_chain" where
  "chain_push (Many vs) v = Many (vs @ [v])"
| "chain_push (One p) v = Many [p, v]"

fun chain_spilled :: "version_chain \<Rightarrow> bool" where
  "chain_spilled (One v) = False"
| "chain_spilled (Many vs) = True"

record profile_counters =
  pc_key_payload_bytes :: nat
  pc_value_payload_bytes :: nat
  pc_tombstones :: nat
  pc_spilled_chains :: nat

definition profile_counters_default :: profile_counters where
  "profile_counters_default = \<lparr>pc_key_payload_bytes = 0, pc_value_payload_bytes = 0,
     pc_tombstones = 0, pc_spilled_chains = 0\<rparr>"

definition add_version :: "profile_counters \<Rightarrow> versioned_value \<Rightarrow> profile_counters" where
  "add_version c v =
     (case vv_value v of
        Some x \<Rightarrow> c\<lparr>pc_value_payload_bytes := saturating_add (pc_value_payload_bytes c) (length x)\<rparr>
      | None \<Rightarrow> c\<lparr>pc_tombstones := saturating_add (pc_tombstones c) 1\<rparr>)"

record memtable =
  mt_versions :: "(bytes, version_chain) btree"
  mt_maximum_sequence :: nat
  mt_version_count :: nat
  mt_approximate_bytes :: nat
  mt_profile :: profile_counters

definition at_sequence :: "nat \<Rightarrow> memtable" where
  "at_sequence n = \<lparr>mt_versions = [], mt_maximum_sequence = n, mt_version_count = 0,
     mt_approximate_bytes = 0, mt_profile = profile_counters_default\<rparr>"

definition memtable_charge :: "memtable \<Rightarrow> mutable_charge" where
  "memtable_charge m = \<lparr>mc_bytes = mt_approximate_bytes m, mc_versions = mt_version_count m\<rparr>"

section \<open>Writing\<close>

definition insert_version :: "bytes \<Rightarrow> versioned_value \<Rightarrow> memtable \<Rightarrow> memtable" where
  "insert_version key v m =
     (let c = add_version (mt_profile m) v in
      case map_of (mt_versions m) key of
        None \<Rightarrow>
          m\<lparr>mt_versions := bt_insert key (One v) (mt_versions m),
            mt_profile := c\<lparr>pc_key_payload_bytes :=
              saturating_add (pc_key_payload_bytes c) (length key)\<rparr>\<rparr>
      | Some chain \<Rightarrow>
          m\<lparr>mt_versions := bt_insert key (chain_push chain v) (mt_versions m),
            mt_profile := (if chain_spilled chain then c
              else c\<lparr>pc_spilled_chains := saturating_add (pc_spilled_chains c) 1\<rparr>)\<rparr>)"

fun insert_operations :: "nat \<Rightarrow> mutation list \<Rightarrow> memtable \<Rightarrow> memtable" where
  "insert_operations sequence [] m = m"
| "insert_operations sequence (op # ops) m =
     insert_operations (sequence + 1) ops
       (insert_version (mutation_key op) \<lparr>vv_sequence = sequence, vv_value = mutation_value op\<rparr> m)"

definition apply_write_batch :: "memtable \<Rightarrow> write_batch \<Rightarrow> nat \<Rightarrow> nat \<Rightarrow> memtable res" where
  "apply_write_batch m batch first_sequence last_sequence =
     rbind (ok_or (InvalidBatch ''batch sequence range overflow'')
              (checked_add first_sequence (length (operations batch) - 1))) (\<lambda>expected_last.
     rbind (fail_if (first_sequence \<noteq> saturating_add (mt_maximum_sequence m) 1
                     \<or> last_sequence \<noteq> expected_last)
              (InvalidBatch ''batch sequence range does not match'')) (\<lambda>_.
     rbind (charge_batch batch) (\<lambda>charge.
     rbind (charge_add (memtable_charge m) charge) (\<lambda>next_charge.
     Inr ((insert_operations first_sequence (operations batch) m)
       \<lparr>mt_maximum_sequence := last_sequence, mt_version_count := mc_versions next_charge,
        mt_approximate_bytes := mc_bytes next_charge\<rparr>)))))"

text \<open>\<open>apply_owned_write_batch\<close> moves the payloads instead of cloning them.\<close>

definition apply_owned_write_batch :: "memtable \<Rightarrow> write_batch \<Rightarrow> nat \<Rightarrow> nat \<Rightarrow> memtable res" where
  "apply_owned_write_batch = apply_write_batch"

definition memtable_apply :: "memtable \<Rightarrow> recovered_batch \<Rightarrow> memtable res" where
  "memtable_apply m recovered =
     rbind (batch_decode (rb_payload recovered)) (\<lambda>batch.
     apply_write_batch m batch (rb_first_sequence recovered) (rb_last_sequence recovered))"

definition apply_owned_recovered :: "memtable \<Rightarrow> recovered_batch \<Rightarrow> mutable_limits \<Rightarrow> memtable res" where
  "apply_owned_recovered m recovered limits =
     rbind (batch_decode (rb_payload recovered)) (\<lambda>batch.
     rbind (charge_batch batch) (\<lambda>charge.
     rbind (charge_add (memtable_charge m) charge) (\<lambda>total.
     rbind (limits_check limits total) (\<lambda>_.
     apply_owned_write_batch m batch (rb_first_sequence recovered) (rb_last_sequence recovered)))))"

definition memtable_recover_from :: "recovered_batch list \<Rightarrow> nat \<Rightarrow> memtable res" where
  "memtable_recover_from batches previous_sequence =
     try_fold (\<lambda>table recovered.
       rbind (batch_decode (rb_payload recovered)) (\<lambda>batch.
       apply_owned_write_batch table batch (rb_first_sequence recovered) (rb_last_sequence recovered)))
     (at_sequence previous_sequence) batches"

text \<open>
  \<open>from_versions\<close>: the inner loop over the versions of one key carries the previous
  sequence, the counters and the charged bytes.
\<close>

definition from_versions_step ::
  "nat \<Rightarrow> bytes \<Rightarrow> nat \<times> profile_counters \<times> nat \<Rightarrow> versioned_value \<Rightarrow> (nat \<times> profile_counters \<times> nat) res" where
  "from_versions_step maximum_sequence key = (\<lambda>(previous, c, bytes) v.
     rbind (fail_if (vv_sequence v = 0 \<or> vv_sequence v \<le> previous \<or> vv_sequence v > maximum_sequence)
              (InvalidSegment ''compacted versions are not strictly ordered'')) (\<lambda>_.
     rbind (version_charge (length key) (case vv_value v of None \<Rightarrow> 0 | Some x \<Rightarrow> length x)) (\<lambda>n.
     rbind (ok_or (InvalidSegment ''compacted mutable byte accounting overflow'')
              (checked_add bytes n)) (\<lambda>bytes.
     Inr (vv_sequence v, add_version c v, bytes)))))"

definition from_versions_entry ::
  "nat \<Rightarrow> profile_counters \<times> nat \<times> nat \<Rightarrow> bytes \<times> versioned_value list \<Rightarrow> (profile_counters \<times> nat \<times> nat) res" where
  "from_versions_entry maximum_sequence = (\<lambda>(c, bytes, count) (key, vs).
     rbind (fail_if (key = [] \<or> vs = [])
              (InvalidSegment ''compacted memtable contains an empty key/version set'')) (\<lambda>_.
     let c = c\<lparr>pc_key_payload_bytes := saturating_add (pc_key_payload_bytes c) (length key)\<rparr>;
         c = (if length vs > 1 then c\<lparr>pc_spilled_chains := saturating_add (pc_spilled_chains c) 1\<rparr> else c) in
     rbind (try_fold (from_versions_step maximum_sequence key) (0, c, bytes) vs) (\<lambda>(previous, c, bytes).
     rbind (ok_or (InvalidSegment ''compacted version count overflow'')
              (checked_add count (length vs))) (\<lambda>count.
     Inr (c, bytes, count)))))"

definition from_versions :: "(bytes, versioned_value list) btree \<Rightarrow> nat \<Rightarrow> memtable res" where
  "from_versions versions maximum_sequence =
     rbind (try_fold (from_versions_entry maximum_sequence) (profile_counters_default, 0, 0) versions)
     (\<lambda>(c, bytes, count).
     Inr \<lparr>mt_versions = map (\<lambda>(key, vs). (key, chain_from_vec vs)) versions,
          mt_maximum_sequence = maximum_sequence, mt_version_count = count,
          mt_approximate_bytes = bytes, mt_profile = c\<rparr>)"

section \<open>Reading\<close>

definition inverted_bounds :: "'k::linorder bound \<Rightarrow> 'k bound \<Rightarrow> bool" where
  "inverted_bounds lo hi \<longleftrightarrow>
     (case (lo, hi) of
        (Excluded a, Excluded b) \<Rightarrow> a \<ge> b
      | (Included a, Included b) \<Rightarrow> a > b
      | (Included a, Excluded b) \<Rightarrow> a > b
      | (Excluded a, Included b) \<Rightarrow> a > b
      | _ \<Rightarrow> False)"

definition btree_range :: "'k::linorder bound \<Rightarrow> 'k bound \<Rightarrow> ('k, 'v) btree \<Rightarrow> ('k \<times> 'v) list res" where
  "btree_range lo hi m =
     rbind (fail_if (m \<noteq> [] \<and> inverted_bounds lo hi)
              (Panic ''range start is greater than range end in BTreeMap'')) (\<lambda>_.
     Inr (bt_range lo hi m))"

definition end_bound :: "'k option \<Rightarrow> 'k bound" where
  "end_bound stop = (case stop of None \<Rightarrow> Unbounded | Some k \<Rightarrow> Excluded k)"

text \<open>The newest version of a chain that a read sequence may see.\<close>

definition chain_visible :: "nat \<Rightarrow> version_chain \<Rightarrow> versioned_value option" where
  "chain_visible read_sequence c = find (\<lambda>v. vv_sequence v \<le> read_sequence) (rev (chain_slice c))"

definition memtable_get_version :: "memtable \<Rightarrow> bytes \<Rightarrow> nat \<Rightarrow> versioned_value option" where
  "memtable_get_version m key read_sequence =
     Option.bind (map_of (mt_versions m) key) (chain_visible read_sequence)"

definition memtable_get :: "memtable \<Rightarrow> bytes \<Rightarrow> nat \<Rightarrow> bytes option" where
  "memtable_get m key read_sequence =
     Option.bind (memtable_get_version m key read_sequence) vv_value"

definition memtable_scan :: "memtable \<Rightarrow> bytes \<Rightarrow> bytes option \<Rightarrow> nat \<Rightarrow> (bytes \<times> bytes) list res" where
  "memtable_scan m start stop read_sequence =
     rbind (btree_range (Included start) (end_bound stop) (mt_versions m)) (\<lambda>entries.
     Inr (List.map_filter (\<lambda>(key, c). map_option (Pair key)
            (Option.bind (chain_visible read_sequence c) vv_value)) entries))"

text \<open>\<open>scan_each\<close>: the visitor is a function on its own state with its own errors; \<open>unwind\<close> is a panic.\<close>

definition memtable_scan_each ::
  "(lsm_error \<Rightarrow> 'e) \<Rightarrow> memtable \<Rightarrow> bytes \<Rightarrow> bytes option \<Rightarrow> nat
     \<Rightarrow> ('s \<Rightarrow> bytes \<Rightarrow> bytes \<Rightarrow> 'e + 's) \<Rightarrow> 's \<Rightarrow> 'e + 's" where
  "memtable_scan_each unwind m start stop read_sequence visit st =
     (case btree_range (Included start) (end_bound stop) (mt_versions m) of
        Inl e \<Rightarrow> Inl (unwind e)
      | Inr entries \<Rightarrow>
          try_fold (\<lambda>st (key, c).
            case Option.bind (chain_visible read_sequence c) vv_value of
              None \<Rightarrow> Inr st
            | Some v \<Rightarrow> visit st key v) st entries)"

definition memtable_visible_from ::
  "memtable \<Rightarrow> bytes \<Rightarrow> bytes option \<Rightarrow> nat \<Rightarrow> (bytes \<times> versioned_value) list res" where
  "memtable_visible_from m start stop read_sequence =
     rbind (btree_range (Included start) (end_bound stop) (mt_versions m)) (\<lambda>entries.
     Inr (List.map_filter (\<lambda>(key, c). map_option (Pair key) (chain_visible read_sequence c)) entries))"

definition visible_versions :: "memtable \<Rightarrow> nat \<Rightarrow> (bytes \<times> versioned_value) list res" where
  "visible_versions m read_sequence = memtable_visible_from m [] None read_sequence"

definition range_versions ::
  "memtable \<Rightarrow> bytes option \<Rightarrow> bytes option \<Rightarrow> (bytes \<times> versioned_value list) list res" where
  "range_versions m first stop =
     rbind (btree_range (case first of None \<Rightarrow> Unbounded | Some k \<Rightarrow> Included k) (end_bound stop)
              (mt_versions m)) (\<lambda>entries.
     Inr (map (\<lambda>(key, c). (key, chain_slice c)) entries))"

record projected_read_range =
  pr_start :: bytes
  pr_end :: "bytes option"

text \<open>
  \<open>seek_visible_after\<close>: the loops over the versions of a chain, the keys of a range and the
  ranges, each with the number of versions examined so far.
\<close>

fun seek_chain :: "nat \<Rightarrow> nat \<Rightarrow> versioned_value list \<Rightarrow> (nat option \<times> nat) res" where
  "seek_chain read_sequence examined [] = Inr (None, examined)"
| "seek_chain read_sequence examined (v # vs) =
     rbind (ok_or (InvalidProjectedRead ''memtable projected version count overflow'')
              (checked_add examined 1)) (\<lambda>examined.
     if vv_sequence v \<le> read_sequence then Inr (Some (vv_sequence v), examined)
     else seek_chain read_sequence examined vs)"

fun seek_entries ::
  "nat \<Rightarrow> nat \<Rightarrow> (bytes \<times> version_chain) list \<Rightarrow> ((bytes \<times> nat) option \<times> nat) res" where
  "seek_entries read_sequence examined [] = Inr (None, examined)"
| "seek_entries read_sequence examined ((key, c) # entries) =
     rbind (seek_chain read_sequence examined (rev (chain_slice c))) (\<lambda>(visible, examined).
     case visible of
       Some sequence \<Rightarrow> Inr (Some (key, sequence), examined)
     | None \<Rightarrow> seek_entries read_sequence examined entries)"

fun seek_ranges ::
  "memtable \<Rightarrow> bytes option \<Rightarrow> nat \<Rightarrow> nat \<Rightarrow> projected_read_range list
     \<Rightarrow> ((bytes \<times> nat) option \<times> nat) res" where
  "seek_ranges m after read_sequence examined [] = Inr (None, examined)"
| "seek_ranges m after read_sequence examined (rng # ranges) =
     (if (case after of None \<Rightarrow> False
          | Some a \<Rightarrow> (case pr_end rng of None \<Rightarrow> False | Some e \<Rightarrow> e \<le> a))
      then seek_ranges m after read_sequence examined ranges
      else
        let lower = (case after of
              Some a \<Rightarrow> if a \<ge> pr_start rng then Excluded a else Included (pr_start rng)
            | None \<Rightarrow> Included (pr_start rng)) in
        rbind (btree_range lower (end_bound (pr_end rng)) (mt_versions m)) (\<lambda>entries.
        rbind (seek_entries read_sequence examined entries) (\<lambda>(found, examined).
        case found of
          Some f \<Rightarrow> Inr (Some f, examined)
        | None \<Rightarrow> seek_ranges m after read_sequence examined ranges)))"

definition seek_visible_after ::
  "memtable \<Rightarrow> projected_read_range list \<Rightarrow> bytes option \<Rightarrow> nat \<Rightarrow> ((bytes \<times> nat) option \<times> nat) res" where
  "seek_visible_after m ranges after read_sequence = seek_ranges m after read_sequence 0 ranges"

end
