(* ===== verification/Version_Source.thy ===== *)
theory Version_Source
  imports Memtable
begin

text \<open>
  What a multi-version table promises to its readers. A table holds rows, each a key and a
  version; the version a read sequence sees for a key is the one with the greatest sequence
  not after it. The locale \<open>version_source\<close> is the contract of a component that answers
  such reads, and its lemmas are what the readers that merge several of them rely on.
\<close>

section \<open>Visibility\<close>

type_synonym rows = "(bytes \<times> versioned_value) set"

definition visible_at :: "rows \<Rightarrow> bytes \<Rightarrow> nat \<Rightarrow> versioned_value \<Rightarrow> bool" where
  "visible_at R k r v \<longleftrightarrow> (k, v) \<in> R \<and> vv_sequence v \<le> r
     \<and> (\<forall>w. (k, w) \<in> R \<and> vv_sequence w \<le> r \<longrightarrow> vv_sequence w \<le> vv_sequence v)"

text \<open>A sequence number names at most one version of a key.\<close>

definition rows_unique :: "rows \<Rightarrow> bool" where
  "rows_unique R \<longleftrightarrow> (\<forall>k v w. (k, v) \<in> R \<and> (k, w) \<in> R \<and> vv_sequence v = vv_sequence w \<longrightarrow> v = w)"

lemma option_extI: "(\<And>v. a = Some v \<longleftrightarrow> b = Some v) \<Longrightarrow> a = b"
  by (metis option.exhaust)

lemma visible_unique:
  "rows_unique R \<Longrightarrow> visible_at R k r v \<Longrightarrow> visible_at R k r w \<Longrightarrow> v = w"
  unfolding visible_at_def rows_unique_def using order_antisym by blast

lemma visible_exists:
  assumes "(k, w) \<in> R" and "vv_sequence w \<le> r"
  shows "\<exists>v. visible_at R k r v"
proof -
  let ?P = "\<lambda>x. (k, x) \<in> R \<and> vv_sequence x \<le> r"
  have "\<exists>m. ?P m \<and> (\<forall>x. ?P x \<longrightarrow> vv_sequence x \<le> vv_sequence m)"
    using assms by (intro ex_has_greatest_nat [of ?P w vv_sequence "Suc r"]) auto
  then show ?thesis by (auto simp: visible_at_def)
qed

lemma visible_same_rows:
  assumes "\<And>w. vv_sequence w \<le> r \<Longrightarrow> (k, w) \<in> R \<longleftrightarrow> (k, w) \<in> R'"
  shows "visible_at R k r v \<longleftrightarrow> visible_at R' k r v"
  unfolding visible_at_def using assms by blast

definition in_range :: "bytes \<Rightarrow> bytes option \<Rightarrow> bytes \<Rightarrow> bool" where
  "in_range start stop k \<longleftrightarrow> start \<le> k \<and> (case stop of None \<Rightarrow> True | Some e \<Rightarrow> k < e)"

definition range_ok :: "bytes \<Rightarrow> bytes option \<Rightarrow> bool" where
  "range_ok start stop \<longleftrightarrow> (case stop of None \<Rightarrow> True | Some e \<Rightarrow> start \<le> e)"

text \<open>The newer of two optional versions; on a tie the first.\<close>

definition newer :: "versioned_value option \<Rightarrow> versioned_value option \<Rightarrow> versioned_value option" where
  "newer a b = (case (a, b) of
      (Some v, Some w) \<Rightarrow> if vv_sequence w > vv_sequence v then Some w else Some v
    | (None, _) \<Rightarrow> b | (_, None) \<Rightarrow> a)"

lemma newer_None [simp]: "newer None b = b" "newer a None = a"
  by (auto simp: newer_def split: option.splits)

section \<open>Keeping the newest version per key\<close>

text \<open>
  The readers that merge rows keep, per key, the first version with the greatest sequence:
  \<open>if map.get(&key).is_none_or(|current| version.sequence > current.sequence) { map.insert(key, version) }\<close>.
\<close>

definition newest_put ::
  "(bytes, versioned_value) btree \<Rightarrow> bytes \<times> versioned_value \<Rightarrow> (bytes, versioned_value) btree" where
  "newest_put m = (\<lambda>(key, version).
     if (case map_of m key of None \<Rightarrow> True | Some current \<Rightarrow> vv_sequence version > vv_sequence current)
     then bt_insert key version m else m)"

lemma key_sorted_newest_put: "key_sorted m \<Longrightarrow> key_sorted (newest_put m e)"
  by (cases e) (auto simp: newest_put_def key_sorted_bt_insert)

lemma key_sorted_newest_fold: "key_sorted m \<Longrightarrow> key_sorted (foldl newest_put m es)"
  by (induction es arbitrary: m) (auto simp: key_sorted_newest_put)

lemma map_of_newest_put:
  "map_of (newest_put m (k', v')) k =
     (if k = k' \<and> (case map_of m k of None \<Rightarrow> True | Some v \<Rightarrow> vv_sequence v' > vv_sequence v)
      then Some v' else map_of m k)"
  by (auto simp: newest_put_def map_of_bt_insert split: option.splits)

lemma newest_fold_visible:
  assumes "rows_unique (set es)" and "\<forall>e \<in> set es. vv_sequence (snd e) \<le> r"
  shows "map_of (foldl newest_put [] es) k = Some v \<longleftrightarrow> visible_at (set es) k r v"
  using assms
proof (induction es arbitrary: v rule: rev_induct)
  case Nil
  show ?case by (simp add: visible_at_def)
next
  case (snoc e es)
  obtain k' v' where e: "e = (k', v')" by (cases e)
  have uniq: "rows_unique (set es)" using snoc.prems(1) by (auto simp: rows_unique_def)
  note IH = snoc.IH [OF uniq]
  show ?case
  proof (cases "map_of (foldl newest_put [] es) k")
    case None
    then have none: "(k, w) \<notin> set es" for w
      using IH visible_exists [of k w "set es" r] snoc.prems(2) by auto
    then show ?thesis
      using None snoc.prems(2) by (auto simp: e map_of_newest_put visible_at_def)
  next
    case (Some u)
    with IH have u: "visible_at (set es) k r u" using snoc.prems(2) by auto
    then have max: "(k, w) \<in> set es \<Longrightarrow> vv_sequence w \<le> vv_sequence u" for w
      using snoc.prems(2) by (auto simp: visible_at_def)
    have old: "visible_at (set (es @ [e])) k r w \<longleftrightarrow> w = u"
      if "k = k' \<longrightarrow> vv_sequence v' \<le> vv_sequence u" for w
    proof -
      have "visible_at (set (es @ [e])) k r u"
        using u that by (auto simp: visible_at_def e)
      then show ?thesis using visible_unique [OF snoc.prems(1)] by blast
    qed
    have new: "visible_at (set (es @ [e])) k r w \<longleftrightarrow> w = v'" if "k = k'" "vv_sequence u < vv_sequence v'" for w
    proof -
      have "visible_at (set (es @ [e])) k r v'"
        using max that snoc.prems(2) by (fastforce simp: visible_at_def e)
      then show ?thesis using visible_unique [OF snoc.prems(1)] by blast
    qed
    show ?thesis
    proof (cases "k = k' \<and> vv_sequence u < vv_sequence v'")
      case True
      then show ?thesis using Some new by (auto simp: e map_of_newest_put)
    next
      case False
      then show ?thesis using Some old [of v] by (auto simp: e map_of_newest_put)
    qed
  qed
qed

section \<open>The interface\<close>

locale version_source =
  fixes rows :: "'s \<Rightarrow> rows"
    and wf :: "'s \<Rightarrow> bool"
    and get_version :: "'s \<Rightarrow> bytes \<Rightarrow> nat \<Rightarrow> versioned_value option"
    and visible_from :: "'s \<Rightarrow> bytes \<Rightarrow> bytes option \<Rightarrow> nat \<Rightarrow> (bytes \<times> versioned_value) list res"
  assumes rows_uniq: "wf s \<Longrightarrow> rows_unique (rows s)"
    and get_version_visible: "wf s \<Longrightarrow> get_version s k r = Some v \<longleftrightarrow> visible_at (rows s) k r v"
    and visible_from_ok: "wf s \<Longrightarrow> range_ok start stop \<Longrightarrow> \<exists>es. visible_from s start stop r = Inr es"
    and visible_from_sorted: "wf s \<Longrightarrow> visible_from s start stop r = Inr es \<Longrightarrow> key_sorted es"
    and visible_from_get: "wf s \<Longrightarrow> visible_from s start stop r = Inr es \<Longrightarrow>
      map_of es k = (if in_range start stop k then get_version s k r else None)"
begin

lemma get_version_None:
  assumes "wf s"
  shows "get_version s k r = None \<longleftrightarrow> (\<forall>w. (k, w) \<in> rows s \<longrightarrow> r < vv_sequence w)"
proof (cases "get_version s k r")
  case None
  then have "\<nexists>v. visible_at (rows s) k r v" using get_version_visible [OF assms, of k r] by simp
  then show ?thesis using None visible_exists not_le by blast
next
  case (Some v)
  then show ?thesis using get_version_visible [OF assms, of k r v] by (auto simp: visible_at_def not_less)
qed

lemma get_version_cong:
  assumes "wf s" and "wf s'" and "\<And>w. vv_sequence w \<le> r \<Longrightarrow> (k, w) \<in> rows s \<longleftrightarrow> (k, w) \<in> rows s'"
  shows "get_version s k r = get_version s' k r"
proof -
  have "get_version s k r = Some v \<longleftrightarrow> get_version s' k r = Some v" for v
    using assms visible_same_rows [of r k "rows s" "rows s'"] by (simp add: get_version_visible)
  then show ?thesis by (rule option_extI)
qed

end

end
