(* ===== verification/Memtable_Spec.thy ===== *)
theory Memtable_Spec
  imports Version_Source
begin

text \<open>
  Correctness of the memtable: the well-formedness invariant and its preservation, the
  refinement of batch application to adding rows, reads as visibility of rows, exact
  accounting and profile counters, and the interpretation of \<open>version_source\<close>.
\<close>

section \<open>Invariant and rows\<close>

definition chain_ok :: "nat \<Rightarrow> versioned_value list \<Rightarrow> bool" where
  "chain_ok n vs \<longleftrightarrow> vs \<noteq> [] \<and> sorted_wrt (<) (map vv_sequence vs)
     \<and> (\<forall>v \<in> set vs. 0 < vv_sequence v \<and> vv_sequence v \<le> n)"

definition table_ok :: "nat \<Rightarrow> (bytes, version_chain) btree \<Rightarrow> bool" where
  "table_ok n t \<longleftrightarrow> key_sorted t \<and> (\<forall>k c. map_of t k = Some c \<longrightarrow>
     k \<noteq> [] \<and> chain_ok n (chain_slice c) \<and> chain_spilled c = (length (chain_slice c) > 1))"

definition table_rows :: "(bytes, version_chain) btree \<Rightarrow> rows" where
  "table_rows t = {(k, v). \<exists>c. map_of t k = Some c \<and> v \<in> set (chain_slice c)}"

text \<open>Totals over all versions and over all chains of a table.\<close>

definition chain_total :: "(bytes \<Rightarrow> versioned_value \<Rightarrow> nat) \<Rightarrow> bytes \<Rightarrow> version_chain \<Rightarrow> nat" where
  "chain_total f k c = sum_list (map (f k) (chain_slice c))"

abbreviation table_sum :: "(bytes \<Rightarrow> version_chain \<Rightarrow> nat) \<Rightarrow> (bytes, version_chain) btree \<Rightarrow> nat" where
  "table_sum \<equiv> bt_sum"

abbreviation table_count :: "(bytes, version_chain) btree \<Rightarrow> nat" where
  "table_count \<equiv> table_sum (chain_total (\<lambda>_ _. 1))"

abbreviation table_bytes :: "(bytes, version_chain) btree \<Rightarrow> nat" where
  "table_bytes \<equiv> table_sum (chain_total (\<lambda>k v. version_bytes k (vv_value v)))"

definition profile_of :: "(bytes, version_chain) btree \<Rightarrow> profile_counters" where
  "profile_of t = \<lparr>pc_key_payload_bytes = min (table_sum (\<lambda>k c. length k) t) u64_max,
     pc_value_payload_bytes = min (table_sum (chain_total (\<lambda>k v. case vv_value v of None \<Rightarrow> 0 | Some x \<Rightarrow> length x)) t) u64_max,
     pc_tombstones = min (table_sum (chain_total (\<lambda>k v. if vv_value v = None then 1 else 0)) t) u64_max,
     pc_spilled_chains = min (table_sum (\<lambda>k c. if chain_spilled c then 1 else 0) t) u64_max\<rparr>"

definition mt_inv :: "memtable \<Rightarrow> bool" where
  "mt_inv m \<longleftrightarrow> table_ok (mt_maximum_sequence m) (mt_versions m)
     \<and> mt_version_count m = table_count (mt_versions m)
     \<and> mt_approximate_bytes m = table_bytes (mt_versions m)
     \<and> mt_profile m = profile_of (mt_versions m)"

definition mt_rows :: "memtable \<Rightarrow> rows" where
  "mt_rows m = table_rows (mt_versions m)"

fun batch_rows :: "nat \<Rightarrow> mutation list \<Rightarrow> (bytes \<times> versioned_value) list" where
  "batch_rows n [] = []"
| "batch_rows n (op # ops) =
     (mutation_key op, \<lparr>vv_sequence = n, vv_value = mutation_value op\<rparr>) # batch_rows (n + 1) ops"

lemma mt_inv_at_sequence: "mt_inv (at_sequence n)" "mt_rows (at_sequence n) = {}"
  by (simp_all add: mt_inv_def at_sequence_def table_ok_def bt_sum_def profile_of_def
      profile_counters_default_def mt_rows_def table_rows_def)

lemma chain_slice_push: "chain_slice (chain_push c v) = chain_slice c @ [v]"
  by (cases c) auto

lemma chain_spilled_push: "chain_spilled (chain_push c v)"
  by (cases c) auto

lemma table_okD:
  assumes "table_ok n t" and "map_of t k = Some c"
  shows "k \<noteq> []" and "chain_ok n (chain_slice c)" and "chain_spilled c = (length (chain_slice c) > 1)"
  using assms by (auto simp: table_ok_def)

section \<open>Inserting a version\<close>

definition grown_chain :: "(bytes, version_chain) btree \<Rightarrow> bytes \<Rightarrow> versioned_value \<Rightarrow> version_chain" where
  "grown_chain t k v = (case map_of t k of None \<Rightarrow> One v | Some c \<Rightarrow> chain_push c v)"

definition chain_of :: "(bytes, version_chain) btree \<Rightarrow> bytes \<Rightarrow> versioned_value list" where
  "chain_of t k = (case map_of t k of None \<Rightarrow> [] | Some c \<Rightarrow> chain_slice c)"

lemma chain_slice_grown: "chain_slice (grown_chain t k v) = chain_of t k @ [v]"
  by (simp add: grown_chain_def chain_slice_push chain_of_def split: option.splits)

lemma insert_version_fields [simp]:
  "mt_versions (insert_version k v m) = bt_insert k (grown_chain (mt_versions m) k v) (mt_versions m)"
  "mt_maximum_sequence (insert_version k v m) = mt_maximum_sequence m"
  "mt_version_count (insert_version k v m) = mt_version_count m"
  "mt_approximate_bytes (insert_version k v m) = mt_approximate_bytes m"
  by (simp_all add: insert_version_def grown_chain_def Let_def split: option.splits)

lemma chain_ok_snoc: "vs = [] \<or> chain_ok n vs \<Longrightarrow> vv_sequence v = n + 1 \<Longrightarrow> chain_ok (n + 1) (vs @ [v])"
  by (auto simp: chain_ok_def sorted_wrt_append less_Suc_eq_le le_SucI)

lemma table_ok_grow:
  assumes "table_ok n t" and "k \<noteq> []" and "vv_sequence v = n + 1"
  shows "table_ok (n + 1) (bt_insert k (grown_chain t k v) t)"
proof -
  have up: "chain_ok (n + 1) vs" if "chain_ok n vs" for vs using that by (auto simp: chain_ok_def)
  have "chain_of t k = [] \<or> chain_ok n (chain_of t k)"
    using assms(1) by (auto simp: table_ok_def chain_of_def split: option.splits)
  then have "chain_ok (n + 1) (chain_of t k @ [v])" using assms(3) by (rule chain_ok_snoc)
  moreover have "chain_spilled (grown_chain t k v) = (length (chain_of t k @ [v]) > 1)"
    using assms(1) by (auto simp: grown_chain_def chain_spilled_push table_ok_def chain_ok_def chain_of_def split: option.splits)
  ultimately show ?thesis
    using assms(1,2) up
    by (auto simp: table_ok_def key_sorted_bt_insert map_of_bt_insert chain_slice_grown)
qed

lemma table_rows_grow:
  "table_rows (bt_insert k (grown_chain t k v) t) = insert (k, v) (table_rows t)"
  by (auto simp: table_rows_def map_of_bt_insert chain_slice_grown chain_of_def split: option.splits if_splits)

lemma table_total_grow:
  "key_sorted t \<Longrightarrow>
   table_sum (chain_total f) (bt_insert k (grown_chain t k v) t) = table_sum (chain_total f) t + f k v"
proof (cases "map_of t k")
  case None
  then show ?thesis by (simp add: bt_sum_insert_new grown_chain_def chain_total_def)
next
  case (Some c)
  assume "key_sorted t"
  from bt_sum_insert_old [OF this Some, of "chain_total f" "chain_push c v"] Some
  show ?thesis by (simp add: grown_chain_def chain_total_def chain_slice_push)
qed

lemma saturating_min: "saturating_add (min a u64_max) b = min (a + b) u64_max"
  by (auto simp: saturating_add_def)

lemma profile_grow:
  assumes "key_sorted t" and "mt_versions m = t" and "mt_profile m = profile_of t"
  shows "mt_profile (insert_version k v m) = profile_of (bt_insert k (grown_chain t k v) t)"
proof -
  have keys: "table_sum (\<lambda>k c. length k) (bt_insert k (grown_chain t k v) t)
      = table_sum (\<lambda>k c. length k) t + (if map_of t k = None then length k else 0)"
    and spilled: "table_sum (\<lambda>k c. if chain_spilled c then 1 else 0) (bt_insert k (grown_chain t k v) t)
      = table_sum (\<lambda>k c. if chain_spilled c then 1 else 0) t
        + (case map_of t k of None \<Rightarrow> 0 | Some c \<Rightarrow> if chain_spilled c then 0 else 1)"
    using bt_sum_insert_old [OF assms(1), of k _ "\<lambda>k c. length k" "grown_chain t k v"]
      bt_sum_insert_old [OF assms(1), of k _ "\<lambda>k c. if chain_spilled c then 1 else 0" "grown_chain t k v"]
    by (cases "map_of t k"; fastforce simp: bt_sum_insert_new grown_chain_def chain_spilled_push)+
  show ?thesis
    using assms(2,3)
    by (auto simp: insert_version_def Let_def add_version_def profile_of_def saturating_min keys spilled
        table_total_grow [OF assms(1)] split: option.splits)
qed

section \<open>Applying a batch\<close>

lemma insert_operations_ok:
  assumes "table_ok n (mt_versions m)" and "mt_profile m = profile_of (mt_versions m)"
    and "\<forall>op \<in> set ops. mutation_key op \<noteq> []"
  defines "m' \<equiv> insert_operations (n + 1) ops m"
  shows "table_ok (n + length ops) (mt_versions m')
    \<and> table_rows (mt_versions m') = table_rows (mt_versions m) \<union> set (batch_rows (n + 1) ops)
    \<and> table_count (mt_versions m') = table_count (mt_versions m) + length ops
    \<and> table_bytes (mt_versions m') = table_bytes (mt_versions m) + sum_list (map mutation_bytes ops)
    \<and> mt_profile m' = profile_of (mt_versions m')"
  using assms(1-3) unfolding m'_def
proof (induction ops arbitrary: n m)
  case (Cons op ops)
  let ?v = "\<lparr>vv_sequence = n + 1, vv_value = mutation_value op\<rparr>"
  let ?m = "insert_version (mutation_key op) ?v m"
  have sorted: "key_sorted (mt_versions m)" using Cons.prems(1) by (simp add: table_ok_def)
  have ok: "table_ok (n + 1) (mt_versions ?m)"
    using table_ok_grow [OF Cons.prems(1), of "mutation_key op" ?v] Cons.prems(3) by simp
  have prof: "mt_profile ?m = profile_of (mt_versions ?m)"
    using profile_grow [OF sorted refl Cons.prems(2)] by simp
  show ?case
    using Cons.IH [OF ok prof] Cons.prems(3)
    by (simp add: table_rows_grow table_total_grow [OF sorted] mutation_bytes_def)
qed simp

lemma apply_write_batch_Inr:
  assumes "mt_inv m" and "mt_maximum_sequence m < u64_max" and "write_batch_new ops = Inr b"
    and "apply_write_batch m b f l = Inr m'"
  shows "f = mt_maximum_sequence m + 1 \<and> l = mt_maximum_sequence m + length ops \<and> l \<le> u64_max
    \<and> mt_inv m' \<and> mt_maximum_sequence m' = l \<and> mt_rows m' = mt_rows m \<union> set (batch_rows f ops)"
proof -
  have ops: "operations b = ops" "ops \<noteq> []" "\<forall>op \<in> set ops. mutation_key op \<noteq> []"
    using assms(3) by (auto simp: write_batch_new_iff validate_operations_iff mutation_ok_def)
  from assms(4) obtain charge total where f: "f = saturating_add (mt_maximum_sequence m) 1"
    and l: "l = f + (length ops - 1)" "l \<le> u64_max" and charge: "charge_batch b = Inr charge"
    and total: "charge_add (memtable_charge m) charge = Inr total"
    and m': "m' = (insert_operations f ops m)\<lparr>mt_maximum_sequence := l,
      mt_version_count := mc_versions total, mt_approximate_bytes := mc_bytes total\<rparr>"
    unfolding apply_write_batch_def ops(1) by (auto simp: rbind_Inr fail_if_Inr ok_or_Inr)
  have f1: "f = mt_maximum_sequence m + 1" using f assms(2) by (simp add: saturating_add_def)
  have l1: "l = mt_maximum_sequence m + length ops" using l(1) f1 ops(2) by (cases ops) auto
  have inv: "table_ok (mt_maximum_sequence m) (mt_versions m)" "mt_profile m = profile_of (mt_versions m)"
    using assms(1) by (auto simp: mt_inv_def)
  note ins = insert_operations_ok [OF inv ops(3)]
  show ?thesis
    using ins f1 l1 l(2) assms(1) charge total ops(1)
    by (auto simp: m' mt_inv_def mt_rows_def charge_batch_Inr charge_add_Inr memtable_charge_def)
qed

lemma apply_write_batch_total:
  assumes "write_batch_new ops = Inr b" and "mt_maximum_sequence m + length ops \<le> u64_max"
    and "mt_approximate_bytes m + sum_list (map mutation_bytes ops) \<le> u64_max"
    and "mt_version_count m + length ops \<le> u64_max"
  shows "\<exists>m'. apply_write_batch m b (mt_maximum_sequence m + 1) (mt_maximum_sequence m + length ops) = Inr m'"
proof -
  have ops: "operations b = ops" "ops \<noteq> []"
    using assms(1) by (auto simp: write_batch_new_iff validate_operations_iff)
  have charge: "charge_batch b = Inr \<lparr>mc_bytes = sum_list (map mutation_bytes ops), mc_versions = length ops\<rparr>"
    using ops assms(3) by (simp add: charge_batch_Inr)
  have total: "charge_add (memtable_charge m)
        \<lparr>mc_bytes = sum_list (map mutation_bytes ops), mc_versions = length ops\<rparr>
      = Inr \<lparr>mc_bytes = mt_approximate_bytes m + sum_list (map mutation_bytes ops),
             mc_versions = mt_version_count m + length ops\<rparr>"
    using assms(3,4) by (simp add: charge_add_Inr memtable_charge_def)
  have seq: "saturating_add (mt_maximum_sequence m) 1 = mt_maximum_sequence m + 1"
    "checked_add (mt_maximum_sequence m + 1) (length ops - 1) = Some (mt_maximum_sequence m + length ops)"
    using assms(2) ops(2) by (cases ops; simp add: saturating_add_def)+
  show ?thesis
    unfolding apply_write_batch_def ops(1) charge total seq ok_or_simps rbind_simps by (simp add: fail_if_def)
qed

section \<open>Reading\<close>

lemma find_rev_newest:
  assumes "sorted_wrt (<) (map vv_sequence vs)"
  shows "find (\<lambda>v. vv_sequence v \<le> r) (rev vs) = Some v \<longleftrightarrow>
    v \<in> set vs \<and> vv_sequence v \<le> r \<and> (\<forall>w \<in> set vs. vv_sequence w \<le> r \<longrightarrow> vv_sequence w \<le> vv_sequence v)"
  using assms
proof (induction vs rule: rev_induct)
  case (snoc x vs)
  then have below: "\<forall>w \<in> set vs. vv_sequence w < vv_sequence x" by (simp add: sorted_wrt_append)
  show ?case
  proof (cases "vv_sequence x \<le> r")
    case True
    then show ?thesis using below by (auto dest: less_imp_le)
  next
    case False
    then show ?thesis using snoc by (auto simp: sorted_wrt_append)
  qed
qed simp

lemma rows_unique_table: "table_ok n t \<Longrightarrow> rows_unique (table_rows t)"
proof -
  assume ok: "table_ok n t"
  have "v = w" if "map_of t k = Some c" "v \<in> set (chain_slice c)" "w \<in> set (chain_slice c)"
    "vv_sequence v = vv_sequence w" for k c v w
  proof -
    have "distinct (map vv_sequence (chain_slice c))"
      using table_okD(2) [OF ok that(1)] by (simp add: chain_ok_def strict_sorted_iff)
    then show ?thesis using that(2-4) by (auto simp: distinct_map inj_on_def)
  qed
  then show ?thesis by (auto simp: rows_unique_def table_rows_def)
qed

lemma get_version_table:
  assumes "table_ok n (mt_versions m)"
  shows "memtable_get_version m k r = Some v \<longleftrightarrow> visible_at (mt_rows m) k r v"
proof (cases "map_of (mt_versions m) k")
  case (Some c)
  then have "sorted_wrt (<) (map vv_sequence (chain_slice c))"
    using table_okD(2) [OF assms Some] by (simp add: chain_ok_def)
  from find_rev_newest [OF this, of r v] show ?thesis
    by (auto simp: memtable_get_version_def chain_visible_def Some visible_at_def mt_rows_def table_rows_def)
qed (auto simp: memtable_get_version_def visible_at_def mt_rows_def table_rows_def)

lemma range_bounds: "above (Included start) k \<and> below (end_bound stop) k \<longleftrightarrow> in_range start stop k"
  by (auto simp: in_range_def end_bound_def split: option.splits)

lemma btree_range_Inr:
  "btree_range (Included start) (end_bound stop) t = Inr es \<longleftrightarrow>
     (t = [] \<or> range_ok start stop) \<and> es = bt_range (Included start) (end_bound stop) t"
  by (auto simp: btree_range_def rbind_Inr fail_if_Inr inverted_bounds_def end_bound_def range_ok_def
      not_less split: option.splits)

lemma map_filter_range:
  fixes f :: "bytes \<Rightarrow> 'c \<Rightarrow> 'v option"
  assumes "key_sorted t" and "btree_range (Included start) (end_bound stop) t = Inr es"
  defines "xs \<equiv> List.map_filter (\<lambda>(k, c). map_option (Pair k) (f k c)) es"
  shows "key_sorted xs" and "map_of xs k = (if in_range start stop k then Option.bind (map_of t k) (f k) else None)"
proof -
  have es: "es = bt_range (Included start) (end_bound stop) t" using assms(2) by (simp add: btree_range_Inr)
  have sorted: "key_sorted es" unfolding es using assms(1) by (rule key_sorted_bt_range)
  show "key_sorted xs" unfolding xs_def using sorted by (rule key_sorted_map_filter)
  have "map_of xs k = Option.bind (map_of es k) (f k)"
    unfolding xs_def by (rule map_of_map_filter [OF sorted])
  then show "map_of xs k = (if in_range start stop k then Option.bind (map_of t k) (f k) else None)"
    unfolding es map_of_bt_range range_bounds by simp
qed

lemma visible_from_Inr:
  "memtable_visible_from m start stop r = Inr xs \<longleftrightarrow>
     (\<exists>es. btree_range (Included start) (end_bound stop) (mt_versions m) = Inr es
        \<and> xs = List.map_filter (\<lambda>(k, c). map_option (Pair k) (chain_visible r c)) es)"
  by (auto simp: memtable_visible_from_def rbind_Inr)

interpretation mt: version_source mt_rows mt_inv memtable_get_version memtable_visible_from
proof unfold_locales
  fix m k r v start stop es
  assume inv: "mt_inv m"
  then have ok: "table_ok (mt_maximum_sequence m) (mt_versions m)" and sorted: "key_sorted (mt_versions m)"
    by (auto simp: mt_inv_def table_ok_def)
  show "rows_unique (mt_rows m)" using rows_unique_table [OF ok] by (simp add: mt_rows_def)
  show "memtable_get_version m k r = Some v \<longleftrightarrow> visible_at (mt_rows m) k r v"
    by (rule get_version_table [OF ok])
  show "\<exists>es. memtable_visible_from m start stop r = Inr es" if "range_ok start stop"
    using that by (auto simp: visible_from_Inr btree_range_Inr)
  assume "memtable_visible_from m start stop r = Inr es"
  then obtain entries where "btree_range (Included start) (end_bound stop) (mt_versions m) = Inr entries"
    and es: "es = List.map_filter (\<lambda>(k, c). map_option (Pair k) (chain_visible r c)) entries"
    by (auto simp: visible_from_Inr)
  note mf = map_filter_range [OF sorted this(1), of "\<lambda>_. chain_visible r"]
  show "key_sorted es" unfolding es by (rule mf(1))
  show "map_of es k = (if in_range start stop k then memtable_get_version m k r else None)"
    unfolding es memtable_get_version_def by (rule mf(2))
qed

section \<open>Properties\<close>

text \<open>
  (C30) Applying a batch refines adding its rows: on success the invariant is kept (sorted
  keys, ascending chains, exact counters), the rows are the old ones and one new version
  per operation with consecutive sequences after the old maximum, and the accounted bytes
  grow by exactly the charge of the batch.
\<close>

theorem apply_write_batch_refines:
  assumes "mt_inv m" and "mt_maximum_sequence m < u64_max" and "write_batch_new ops = Inr b"
    and "apply_write_batch m b f l = Inr m'"
  shows "mt_inv m' \<and> mt_rows m' = mt_rows m \<union> set (batch_rows (mt_maximum_sequence m + 1) ops)
    \<and> mt_maximum_sequence m' = mt_maximum_sequence m + length ops
    \<and> mt_version_count m' = mt_version_count m + length ops
    \<and> mt_approximate_bytes m' = mt_approximate_bytes m + sum_list (map mutation_bytes ops)"
proof -
  note r = apply_write_batch_Inr [OF assms]
  have ops: "operations b = ops" using assms(3) by (simp add: write_batch_new_iff)
  from assms(4) obtain charge total where "charge_batch b = Inr charge"
    and "charge_add (memtable_charge m) charge = Inr total"
    and "mt_version_count m' = mc_versions total" "mt_approximate_bytes m' = mc_bytes total"
    unfolding apply_write_batch_def by (auto simp: rbind_Inr fail_if_Inr ok_or_Inr)
  with r ops show ?thesis by (auto simp: charge_batch_Inr charge_add_Inr memtable_charge_def)
qed

definition sample_ops :: "mutation list" where
  "sample_ops = [Put [1] [2], Put [3] [4], Delete [1]]"

definition sample_write :: write_batch where
  "sample_write = \<lparr>operations = sample_ops, encoded_len = 45\<rparr>"

lemma sample_write_new: "write_batch_new sample_ops = Inr sample_write"
  by (simp add: write_batch_new_iff validate_operations_iff mutation_ok_def mutation_size_def
      op_size_def sample_ops_def sample_write_def rrf_consts)

lemma sample_apply: "\<exists>m'. apply_write_batch (at_sequence 0) sample_write 1 3 = Inr m'"
  using apply_write_batch_total [OF sample_write_new, of "at_sequence 0"]
  by (simp add: at_sequence_def sample_ops_def mutation_bytes_def version_bytes_def rrf_consts numeral_3_eq_3)

theorem apply_write_batch_refines_witness:
  "\<exists>m'. apply_write_batch (at_sequence 0) sample_write 1 3 = Inr m' \<and> mt_inv m'
     \<and> mt_maximum_sequence m' = 3 \<and> mt_approximate_bytes m' = 77"
proof -
  obtain m' where m': "apply_write_batch (at_sequence 0) sample_write 1 3 = Inr m'" using sample_apply by blast
  from apply_write_batch_refines [OF mt_inv_at_sequence(1) _ sample_write_new m'] m'
  show ?thesis
    by (auto simp: at_sequence_def sample_ops_def mutation_bytes_def version_bytes_def rrf_consts)
qed

text \<open>Chains after a batch: the versions of a key are appended in operation order.\<close>

abbreviation rows_of :: "bytes \<Rightarrow> (bytes \<times> versioned_value) list \<Rightarrow> versioned_value list" where
  "rows_of k rs \<equiv> map snd (filter (\<lambda>r. fst r = k) rs)"

lemma insert_operations_chain:
  "chain_of (mt_versions (insert_operations n ops m)) k = chain_of (mt_versions m) k @ rows_of k (batch_rows n ops)"
proof (induction ops arbitrary: n m)
  case (Cons op ops)
  let ?v = "\<lparr>vv_sequence = n, vv_value = mutation_value op\<rparr>"
  have "chain_of (mt_versions (insert_version (mutation_key op) ?v m)) k
      = chain_of (mt_versions m) k @ (if mutation_key op = k then [?v] else [])"
    using chain_slice_grown [of "mt_versions m" k ?v] by (simp add: map_of_bt_insert chain_of_def)
  with Cons.IH [of "n + 1" "insert_version (mutation_key op) ?v m"] show ?case by simp
qed simp

lemma chain_of_bound: "table_ok n t \<Longrightarrow> v \<in> set (chain_of t k) \<Longrightarrow> vv_sequence v \<le> n"
  using table_okD(2) [of n t k] by (cases "map_of t k") (auto simp: chain_ok_def chain_of_def)

lemma get_version_chain:
  "memtable_get_version m k r = find (\<lambda>v. vv_sequence v \<le> r) (rev (chain_of (mt_versions m) k))"
  by (cases "map_of (mt_versions m) k") (simp_all add: memtable_get_version_def chain_visible_def chain_of_def)

lemma batch_rows_sequences: "v \<in> set (batch_rows n ops) \<Longrightarrow> n \<le> vv_sequence (snd v) \<and> vv_sequence (snd v) < n + length ops"
  by (induction n ops rule: batch_rows.induct) fastforce+

lemma apply_write_batch_versions:
  assumes "apply_write_batch m b f l = Inr m'"
  shows "mt_versions m' = mt_versions (insert_operations f (operations b) m)"
  using assms unfolding apply_write_batch_def by (auto simp: rbind_Inr)

lemma find_append: "find P (xs @ ys) = (case find P xs of None \<Rightarrow> find P ys | Some x \<Rightarrow> Some x)"
  by (induction xs) auto

text \<open>
  (C31) Read your writes and isolation: after a batch, a read at its last sequence sees the
  value of the last operation of the batch on that key, or the old newest value if the batch
  does not touch the key; a read at any older sequence is unchanged.
\<close>

theorem apply_write_batch_reads:
  assumes "mt_inv m" and "mt_maximum_sequence m < u64_max" and "write_batch_new ops = Inr b"
    and "apply_write_batch m b f l = Inr m'"
  shows "memtable_get m' k l =
      (case find (\<lambda>op. mutation_key op = k) (rev ops) of
         Some op \<Rightarrow> mutation_value op
       | None \<Rightarrow> memtable_get m k (mt_maximum_sequence m))
    \<and> (r \<le> mt_maximum_sequence m \<longrightarrow> memtable_get_version m' k r = memtable_get_version m k r)"
proof
  note a = apply_write_batch_Inr [OF assms]
  have ops: "operations b = ops" using assms(3) by (simp add: write_batch_new_iff)
  have chain: "chain_of (mt_versions m') k = chain_of (mt_versions m) k @ rows_of k (batch_rows f ops)"
    using apply_write_batch_versions [OF assms(4)] insert_operations_chain ops by simp
  have old: "vv_sequence v \<le> mt_maximum_sequence m" if "v \<in> set (chain_of (mt_versions m) k)" for v
    by (rule chain_of_bound [OF _ that]) (use assms(1) in \<open>simp add: mt_inv_def\<close>)
  have new: "f \<le> vv_sequence v" "vv_sequence v \<le> l" if "v \<in> set (rows_of k (batch_rows f ops))" for v
    using that a batch_rows_sequences [of _ f ops] by fastforce+
  have all: "find (\<lambda>v. vv_sequence v \<le> l) (rev (chain_of (mt_versions m) k))
      = find (\<lambda>v. vv_sequence v \<le> mt_maximum_sequence m) (rev (chain_of (mt_versions m) k))"
    using old a by (intro find_cong) (auto simp: trans_le_add1)
  have top: "map_option vv_value (find (\<lambda>v. vv_sequence v \<le> l) (rev (rows_of k (batch_rows f ops))))
      = map_option mutation_value (find (\<lambda>op. mutation_key op = k) (rev ops))"
  proof -
    have "find (\<lambda>v. vv_sequence v \<le> l) (rev (rows_of k (batch_rows f ops)))
        = find (\<lambda>v. True) (rev (rows_of k (batch_rows f ops)))"
      using new by (intro find_cong) auto
    moreover have "map_option vv_value (find (\<lambda>v. True) (rev (rows_of k (batch_rows n os))))
        = map_option mutation_value (find (\<lambda>op. mutation_key op = k) (rev os))" for n os
      by (induction n os rule: batch_rows.induct) (auto simp: find_append split: option.splits)
    ultimately show ?thesis by simp
  qed
  show "memtable_get m' k l = (case find (\<lambda>op. mutation_key op = k) (rev ops) of
         Some op \<Rightarrow> mutation_value op | None \<Rightarrow> memtable_get m k (mt_maximum_sequence m))"
    using top all by (auto simp: memtable_get_def get_version_chain chain find_append split: option.splits)
  show "r \<le> mt_maximum_sequence m \<longrightarrow> memtable_get_version m' k r = memtable_get_version m k r"
  proof
    assume "r \<le> mt_maximum_sequence m"
    then have "find (\<lambda>v. vv_sequence v \<le> r) (rev (rows_of k (batch_rows f ops))) = None"
      using new(1) a by (fastforce simp: find_None_iff)
    then show "memtable_get_version m' k r = memtable_get_version m k r"
      by (simp add: get_version_chain chain find_append)
  qed
qed

theorem apply_write_batch_reads_witness:
  "\<exists>m'. apply_write_batch (at_sequence 0) sample_write 1 3 = Inr m'
     \<and> memtable_get m' [1] 3 = None \<and> memtable_get_version m' [1] 0 = None"
proof -
  obtain m' where m': "apply_write_batch (at_sequence 0) sample_write 1 3 = Inr m'" using sample_apply by blast
  from apply_write_batch_reads [OF mt_inv_at_sequence(1) _ sample_write_new m', of "[1]" 0] m'
  show ?thesis
    by (auto simp: at_sequence_def sample_ops_def memtable_get_version_def rrf_consts)
qed

text \<open>
  (C32) A scan returns, in strictly ascending key order, exactly the keys of the half-open
  range that a point read at the same sequence finds, with the same values; it returns for
  every range that is not inverted.
\<close>

theorem memtable_scan_spec:
  assumes "mt_inv m" and "range_ok start stop"
  shows "\<exists>xs. memtable_scan m start stop r = Inr xs \<and> key_sorted xs
    \<and> (\<forall>k. map_of xs k = (if in_range start stop k then memtable_get m k r else None))"
proof -
  have sorted: "key_sorted (mt_versions m)" using assms(1) by (simp add: mt_inv_def table_ok_def)
  obtain es where es: "btree_range (Included start) (end_bound stop) (mt_versions m) = Inr es"
    using assms(2) by (auto simp: btree_range_Inr)
  let ?f = "\<lambda>(k :: bytes) c. Option.bind (chain_visible r c) vv_value"
  have "memtable_scan m start stop r = Inr (List.map_filter (\<lambda>(k, c). map_option (Pair k) (?f k c)) es)"
    by (simp add: memtable_scan_def es)
  moreover have "Option.bind (map_of (mt_versions m) k) (?f k) = memtable_get m k r" for k
    by (cases "map_of (mt_versions m) k") (simp_all add: memtable_get_def memtable_get_version_def)
  ultimately show ?thesis using map_filter_range [OF sorted es, of ?f] by auto
qed

theorem memtable_scan_spec_witness:
  "\<exists>xs. memtable_scan (at_sequence 5) [1] (Some [2]) 5 = Inr xs \<and> key_sorted xs"
  using memtable_scan_spec [OF mt_inv_at_sequence(1), of "[1]" "Some [2]" 5 5] by (auto simp: range_ok_def)



text \<open>The visitor of \<open>scan_each\<close> sees the rows of the scan, in the same order.\<close>

lemma scan_each_fold:
  "memtable_scan m start stop r = Inr xs \<Longrightarrow>
   memtable_scan_each unwind m start stop r visit st = try_fold (\<lambda>st (k, v). visit st k v) st xs"
proof -
  assume "memtable_scan m start stop r = Inr xs"
  then obtain es where es: "btree_range (Included start) (end_bound stop) (mt_versions m) = Inr es"
    and xs: "xs = List.map_filter (\<lambda>(k, c). map_option (Pair k) (Option.bind (chain_visible r c) vv_value)) es"
    by (auto simp: memtable_scan_def rbind_Inr)
  have "try_fold (\<lambda>st (k, c). case Option.bind (chain_visible r c) vv_value of
          None \<Rightarrow> Inr st | Some v \<Rightarrow> visit st k v) st es
      = try_fold (\<lambda>st (k, v). visit st k v) st
          (List.map_filter (\<lambda>(k, c). map_option (Pair k) (Option.bind (chain_visible r c) vv_value)) es)"
  proof (induction es arbitrary: st)
    case (Cons e es)
    obtain k c where e: "e = (k, c)" by (cases e)
    show ?case
      by (cases "Option.bind (chain_visible r c) vv_value")
        (simp_all add: e Cons.IH List.map_filter_simps)
  qed (simp add: List.map_filter_simps)
  then show ?thesis by (simp add: memtable_scan_each_def es xs)
qed

section \<open>Seeking\<close>

text \<open>The visible entries of one range after a key, in order.\<close>

definition seek_candidates ::
  "memtable \<Rightarrow> bytes option \<Rightarrow> nat \<Rightarrow> projected_read_range \<Rightarrow> (bytes \<times> nat) list" where
  "seek_candidates m after r rng =
     List.map_filter (\<lambda>(k, c). if in_range (pr_start rng) (pr_end rng) k
          \<and> (case after of None \<Rightarrow> True | Some a \<Rightarrow> a < k)
        then map_option (\<lambda>v. (k, vv_sequence v)) (chain_visible r c) else None) (mt_versions m)"

lemma seek_chain_Inr:
  "seek_chain r n vs = Inr (s, n') \<Longrightarrow> s = map_option vv_sequence (find (\<lambda>v. vv_sequence v \<le> r) vs) \<and> n \<le> n'"
  by (induction r n vs rule: seek_chain.induct) (auto simp: rbind_Inr ok_or_Inr split: if_splits)

lemma seek_entries_Inr:
  "seek_entries r n es = Inr (s, n') \<Longrightarrow>
   s = List.find (\<lambda>_. True) (List.map_filter (\<lambda>(k, c). map_option (\<lambda>v. (k, vv_sequence v)) (chain_visible r c)) es)"
proof (induction r n es rule: seek_entries.induct)
  case (2 r n k c es)
  from "2.prems" obtain vis n1 where one: "seek_chain r n (rev (chain_slice c)) = Inr (vis, n1)"
    and rest: "(case vis of Some q \<Rightarrow> Inr (Some (k, q), n1) | None \<Rightarrow> seek_entries r n1 es) = Inr (s, n')"
    by (auto simp: rbind_Inr)
  have vis: "vis = map_option vv_sequence (chain_visible r c)"
    using seek_chain_Inr [OF one] by (simp add: chain_visible_def)
  show ?case
  proof (cases "chain_visible r c")
    case None
    then show ?thesis using "2.IH" [OF one refl] rest vis by (simp add: List.map_filter_simps)
  next
    case (Some v)
    then show ?thesis using rest vis by (auto simp: List.map_filter_simps)
  qed
qed (simp add: List.map_filter_simps)

lemma map_filter_filter:
  "List.map_filter f (filter P xs) = List.map_filter (\<lambda>x. if P x then f x else None) xs"
  by (induction xs) (auto simp: List.map_filter_simps split: option.splits)

definition seek_lower :: "bytes option \<Rightarrow> bytes \<Rightarrow> bytes bound" where
  "seek_lower after start = (case after of
      Some a \<Rightarrow> if a \<ge> start then Excluded a else Included start | None \<Rightarrow> Included start)"

lemma above_seek_lower:
  "above (seek_lower after start) k \<longleftrightarrow> start \<le> k \<and> (case after of None \<Rightarrow> True | Some a \<Rightarrow> a < k)"
  by (auto simp: seek_lower_def split: option.splits)

lemma candidates_range:
  "List.map_filter (\<lambda>(k, c). map_option (\<lambda>v. (k, vv_sequence v)) (chain_visible r c))
     (bt_range (seek_lower after (pr_start rng)) (end_bound (pr_end rng)) (mt_versions m))
   = seek_candidates m after r rng"
proof -
  have "above (seek_lower after (pr_start rng)) k \<and> below (end_bound (pr_end rng)) k \<longleftrightarrow>
      in_range (pr_start rng) (pr_end rng) k \<and> (case after of None \<Rightarrow> True | Some a \<Rightarrow> a < k)" for k
    by (auto simp: above_seek_lower in_range_def end_bound_def split: option.splits)
  then show ?thesis
    unfolding seek_candidates_def bt_range_def map_filter_filter by (simp add: case_prod_unfold cong: if_cong)
qed

lemma candidates_skipped:
  assumes "e \<le> a" and "pr_end rng = Some e"
  shows "seek_candidates m (Some a) r rng = []"
proof -
  have "\<not> (in_range (pr_start rng) (pr_end rng) k \<and> a < k)" for k
    using assms by (auto simp: in_range_def)
  then show ?thesis unfolding seek_candidates_def
    by (auto simp: List.map_filter_def filter_empty_conv split: if_splits)
qed

lemma seek_ranges_Inr:
  "seek_ranges m after r n rngs = Inr (s, n') \<Longrightarrow>
   s = find (\<lambda>_. True) (concat (map (seek_candidates m after r) rngs))"
proof (induction m after r n rngs rule: seek_ranges.induct)
  case (2 m after r n rng rngs)
  show ?case
  proof (cases "case after of None \<Rightarrow> False
      | Some a \<Rightarrow> (case pr_end rng of None \<Rightarrow> False | Some e \<Rightarrow> e \<le> a)")
    case True
    then have "seek_candidates m after r rng = []"
      by (auto split: option.splits intro: candidates_skipped)
    then show ?thesis using "2.IH"(1) [OF True] "2.prems" True by simp
  next
    case False
    from "2.prems" False obtain es found n1
      where es: "btree_range (seek_lower after (pr_start rng)) (end_bound (pr_end rng)) (mt_versions m) = Inr es"
      and one: "seek_entries r n es = Inr (found, n1)"
      and rest: "(case found of Some f \<Rightarrow> Inr (Some f, n1) | None \<Rightarrow> seek_ranges m after r n1 rngs) = Inr (s, n')"
      by (auto simp: rbind_Inr Let_def seek_lower_def)
    have "es = bt_range (seek_lower after (pr_start rng)) (end_bound (pr_end rng)) (mt_versions m)"
      using es by (auto simp: btree_range_def rbind_Inr)
    then have found: "found = find (\<lambda>_. True) (seek_candidates m after r rng)"
      using seek_entries_Inr [OF one] candidates_range by simp
    show ?thesis
    proof (cases found)
      case None
      have "s = find (\<lambda>_. True) (concat (map (seek_candidates m after r) rngs))"
        using "2.IH"(2) [OF False refl es [unfolded seek_lower_def] one refl None] rest None by simp
      then show ?thesis using found None by (simp add: find_append)
    next
      case (Some f)
      then show ?thesis using found [symmetric] rest by (auto simp: find_append split: option.splits)
    qed
  qed
qed simp

text \<open>
  (C35) A seek that succeeds returns the first visible key after the given one over the ranges
  in their order, together with the sequence of the version a point read sees there, and
  nothing exactly when no range holds such a key.
\<close>

theorem seek_visible_after_first:
  assumes "seek_visible_after m ranges after r = Inr (found, examined)"
  shows "found = find (\<lambda>_. True) (concat (map (seek_candidates m after r) ranges))"
  using assms unfolding seek_visible_after_def by (rule seek_ranges_Inr)

theorem seek_visible_after_first_witness:
  "seek_visible_after (insert_version [4] \<lparr>vv_sequence = 1, vv_value = Some [7]\<rparr> (at_sequence 0))
     [\<lparr>pr_start = [2], pr_end = None\<rparr>] (Some [3]) 1 = Inr (Some ([4], 1), 1)
   \<and> Some ([4], 1) = find (\<lambda>_. True) (concat (map (seek_candidates
       (insert_version [4] \<lparr>vv_sequence = 1, vv_value = Some [7]\<rparr> (at_sequence 0)) (Some [3]) 1)
       [\<lparr>pr_start = [2], pr_end = None\<rparr>]))"
proof -
  let ?m = "insert_version [4] \<lparr>vv_sequence = 1, vv_value = Some [7]\<rparr> (at_sequence 0)"
  have "seek_visible_after ?m [\<lparr>pr_start = [2], pr_end = None\<rparr>] (Some [3]) 1 = Inr (Some ([4], 1), 1)"
    by (simp add: seek_visible_after_def at_sequence_def grown_chain_def end_bound_def btree_range_def
        inverted_bounds_def bt_range_def checked_add_def rrf_consts)
  then show ?thesis using seek_visible_after_first by blast
qed

section \<open>Rebuilding a table from its versions\<close>

definition built_table :: "(bytes, versioned_value list) btree \<Rightarrow> (bytes, version_chain) btree" where
  "built_table vs = map (\<lambda>(k, xs). (k, chain_from_vec xs)) vs"

lemma chain_slice_from_vec: "chain_slice (chain_from_vec vs) = vs"
  by (auto simp: chain_from_vec_def split: list.splits)

lemma chain_spilled_from_vec: "vs \<noteq> [] \<Longrightarrow> chain_spilled (chain_from_vec vs) = (length vs > 1)"
  by (auto simp: chain_from_vec_def split: list.splits)

lemma table_sum_snoc: "table_sum g (t @ [(k, c)]) = table_sum g t + g k c"
  by (simp add: bt_sum_def)

lemma foldl_add_version:
  "pc_value_payload_bytes c = min a u64_max \<Longrightarrow> pc_tombstones c = min b u64_max \<Longrightarrow>
   foldl add_version c vs =
     c\<lparr>pc_value_payload_bytes := min (a + sum_list (map (\<lambda>v. case vv_value v of None \<Rightarrow> 0 | Some x \<Rightarrow> length x) vs)) u64_max,
       pc_tombstones := min (b + sum_list (map (\<lambda>v. if vv_value v = None then 1 else 0) vs)) u64_max\<rparr>"
proof (induction vs arbitrary: a b c)
  case (Cons v vs)
  show ?case
  proof (cases "vv_value v")
    case None
    with Cons.prems Cons.IH [of "add_version c v" a "b + 1"] show ?thesis
      by (simp add: add_version_def saturating_min add.assoc)
  next
    case (Some x)
    with Cons.prems Cons.IH [of "add_version c v" "a + length x" b] show ?thesis
      by (simp add: add_version_def saturating_min add.assoc)
  qed
qed simp

lemma from_versions_inner:
  "try_fold (from_versions_step n key) (p, c, b) vs = Inr (p', c', b') \<Longrightarrow>
    sorted_wrt (<) (map vv_sequence vs)
    \<and> (\<forall>v \<in> set vs. p < vv_sequence v \<and> 0 < vv_sequence v \<and> vv_sequence v \<le> n)
    \<and> c' = foldl add_version c vs \<and> b' = b + sum_list (map (\<lambda>v. version_bytes key (vv_value v)) vs)"
proof (induction vs arbitrary: p c b)
  case (Cons v vs)
  from Cons.prems obtain b1 where v: "0 < vv_sequence v" "p < vv_sequence v" "vv_sequence v \<le> n"
    and b1: "b1 = b + version_bytes key (vv_value v)"
    and rest: "try_fold (from_versions_step n key) (vv_sequence v, add_version c v, b1) vs = Inr (p', c', b')"
    by (auto simp: from_versions_step_def [of n key] rrf_res version_bytes_def add.assoc simp del: rbind_simps)
  from Cons.IH [OF rest] v b1 show ?case by auto
qed simp

lemma from_versions_entry_Inr:
  assumes "from_versions_entry n (profile_of t, table_bytes t, table_count t) (k, vs) = Inr (c, bytes, count)"
  defines "t' \<equiv> t @ [(k, chain_from_vec vs)]"
  shows "k \<noteq> [] \<and> chain_ok n vs \<and> c = profile_of t' \<and> bytes = table_bytes t' \<and> count = table_count t'"
proof -
  define c0 where "c0 = (profile_of t)\<lparr>pc_key_payload_bytes :=
      saturating_add (pc_key_payload_bytes (profile_of t)) (length k)\<rparr>"
  define c1 where "c1 = (if length vs > 1 then c0\<lparr>pc_spilled_chains :=
      saturating_add (pc_spilled_chains c0) 1\<rparr> else c0)"
  from assms(1) obtain p where ne: "k \<noteq> []" "vs \<noteq> []"
    and fold: "try_fold (from_versions_step n k) (0, c1, table_bytes t) vs = Inr (p, c, bytes)"
    and count: "count = table_count t + length vs"
    unfolding c1_def c0_def
    by (auto simp: from_versions_entry_def Let_def rrf_res simp del: rbind_simps split: prod.splits)
  note inner = from_versions_inner [OF fold]
  have fields: "pc_value_payload_bytes c1 = pc_value_payload_bytes (profile_of t)"
    "pc_tombstones c1 = pc_tombstones (profile_of t)"
    by (simp_all add: c1_def c0_def)
  have "c = profile_of t'"
    using inner foldl_add_version [OF fields [unfolded profile_of_def profile_counters.simps], of vs] ne
    by (simp add: c1_def c0_def t'_def profile_of_def table_sum_snoc chain_total_def chain_slice_from_vec
        chain_spilled_from_vec saturating_min)
  moreover have "bytes = table_bytes t'" "count = table_count t'"
    using inner count by (simp_all add: t'_def table_sum_snoc chain_total_def chain_slice_from_vec sum_list_triv)
  ultimately show ?thesis using ne inner by (simp add: chain_ok_def)
qed

lemma from_versions_fold:
  "try_fold (from_versions_entry n) (profile_of t, table_bytes t, table_count t) vs = Inr (c, bytes, count) \<Longrightarrow>
   (\<forall>(k, xs) \<in> set vs. k \<noteq> [] \<and> chain_ok n xs) \<and> c = profile_of (t @ built_table vs)
   \<and> bytes = table_bytes (t @ built_table vs) \<and> count = table_count (t @ built_table vs)"
proof (induction vs arbitrary: t)
  case (Cons e vs)
  obtain k xs where e: "e = (k, xs)" by (cases e)
  from Cons.prems obtain c1 b1 n1
    where one: "from_versions_entry n (profile_of t, table_bytes t, table_count t) (k, xs) = Inr (c1, b1, n1)"
    and rest: "try_fold (from_versions_entry n) (c1, b1, n1) vs = Inr (c, bytes, count)"
    by (auto simp: e rbind_Inr)
  note entry = from_versions_entry_Inr [OF one]
  from rest entry have "try_fold (from_versions_entry n) (profile_of (t @ [(k, chain_from_vec xs)]),
      table_bytes (t @ [(k, chain_from_vec xs)]), table_count (t @ [(k, chain_from_vec xs)])) vs = Inr (c, bytes, count)"
    by simp
  from Cons.IH [OF this] entry show ?case by (simp add: e built_table_def)
qed (simp add: built_table_def)

lemma from_versions_inv:
  assumes "key_sorted vs" and "from_versions vs n = Inr m"
  shows "mt_inv m \<and> mt_maximum_sequence m = n
    \<and> mt_rows m = {(k, v). \<exists>xs. map_of vs k = Some xs \<and> v \<in> set xs}
    \<and> (\<forall>(k, xs) \<in> set vs. k \<noteq> [] \<and> chain_ok n xs)"
proof -
  from assms(2) obtain c bytes count
    where fold: "try_fold (from_versions_entry n) (profile_counters_default, 0, 0) vs = Inr (c, bytes, count)"
    and m: "m = \<lparr>mt_versions = built_table vs, mt_maximum_sequence = n, mt_version_count = count,
      mt_approximate_bytes = bytes, mt_profile = c\<rparr>"
    by (auto simp: from_versions_def rbind_Inr built_table_def)
  have start: "profile_of [] = profile_counters_default" "table_bytes [] = 0" "table_count [] = 0"
    by (simp_all add: profile_of_def profile_counters_default_def bt_sum_def)
  from fold have "try_fold (from_versions_entry n) (profile_of [], table_bytes [], table_count []) vs
      = Inr (c, bytes, count)"
    unfolding start .
  note built = from_versions_fold [OF this]
  have get: "map_of (built_table vs) k = map_option chain_from_vec (map_of vs k)" for k
    by (simp add: built_table_def map_of_map)
  have sorted: "key_sorted (built_table vs)"
    unfolding built_table_def by (rule key_sorted_map_snd [OF assms(1)])
  have ok: "table_ok n (built_table vs)"
    using built sorted
    by (auto simp: table_ok_def get chain_slice_from_vec chain_ok_def chain_spilled_from_vec dest!: map_of_SomeD)
  moreover have "mt_rows m = {(k, v). \<exists>xs. map_of vs k = Some xs \<and> v \<in> set xs}"
    by (auto simp: m mt_rows_def table_rows_def get chain_slice_from_vec)
  ultimately show ?thesis using built by (auto simp: m mt_inv_def)
qed

end
