(* ===== verification/Transaction.thy ===== *)
theory Transaction
  imports Batch Ordered_Map
begin

text \<open>
  Snapshot-isolated byte transactions (\<open>rrd-lsm/src/transaction.rs\<close> and
  \<open>transaction/scan.rs\<close>): the ownership registry shared by the transactions of one open
  database, the local write set with its two accounts (encoded batch size and owned buffer
  bytes), and the overlay reads.

  The registry is an explicit state passed to the operations; its flag \<open>reg_poisoned\<close> is the
  poison flag of the mutex. A \<open>Vec\<close> is its bytes and its capacity. The database below a
  transaction is an argument: the point read at the snapshot and the rows of the projected
  read, each of which may be an error. A reservation of vector capacity succeeds and gives
  exactly the capacity asked for.
\<close>

section \<open>The ownership registry\<close>

record transaction_limits =
  tl_active :: nat
  tl_buffered_bytes :: nat

definition transaction_limits_default :: transaction_limits where
  "transaction_limits_default = \<lparr>tl_active = 64, tl_buffered_bytes = 67108864\<rparr>"

definition transaction_limits_validate :: "transaction_limits \<Rightarrow> unit res" where
  "transaction_limits_validate l = fail_if (tl_active l = 0 \<or> tl_buffered_bytes l = 0)
     (InvalidConfiguration ''native transaction limits must be positive'')"

record transaction_snapshots =
  reg_pins :: "(nat, nat) btree"
  reg_active :: nat
  reg_bytes :: nat
  reg_limits :: transaction_limits
  reg_poisoned :: bool

definition registry_new :: "transaction_limits \<Rightarrow> transaction_snapshots" where
  "registry_new l = \<lparr>reg_pins = [], reg_active = 0, reg_bytes = 0, reg_limits = l, reg_poisoned = False\<rparr>"

definition registry_lock :: "transaction_snapshots \<Rightarrow> unit res" where
  "registry_lock reg = fail_if (reg_poisoned reg) PoisonedTransactionState"

definition registry_acquire :: "nat \<Rightarrow> transaction_snapshots \<Rightarrow> transaction_snapshots res" where
  "registry_acquire sequence reg =
     rbind (registry_lock reg) (\<lambda>_.
     rbind (ok_or PoisonedTransactionState (checked_add (reg_active reg) 1)) (\<lambda>next.
     rbind (fail_if (next > tl_active (reg_limits reg))
              (TransactionLimit Active (tl_active (reg_limits reg)) next)) (\<lambda>_.
     rbind (ok_or PoisonedTransactionState
              (checked_add (case map_of (reg_pins reg) sequence of None \<Rightarrow> 0 | Some n \<Rightarrow> n) 1)) (\<lambda>count.
     Inr (reg\<lparr>reg_pins := bt_insert sequence count (reg_pins reg), reg_active := next\<rparr>)))))"

definition registry_resize :: "nat \<Rightarrow> nat \<Rightarrow> transaction_snapshots \<Rightarrow> transaction_snapshots res" where
  "registry_resize previous next reg =
     rbind (registry_lock reg) (\<lambda>_.
     rbind (ok_or (InvalidTransaction ''transaction reservation overflow'')
              (Option.bind (checked_sub (reg_bytes reg) previous) (\<lambda>v. checked_add v next))) (\<lambda>total.
     rbind (fail_if (total > tl_buffered_bytes (reg_limits reg))
              (TransactionLimit BufferedBytes (tl_buffered_bytes (reg_limits reg)) total)) (\<lambda>_.
     Inr (reg\<lparr>reg_bytes := total\<rparr>))))"

definition release_sequence :: "nat \<Rightarrow> nat \<Rightarrow> transaction_snapshots \<Rightarrow> transaction_snapshots res" where
  "release_sequence sequence bytes reg =
     rbind (ok_or PoisonedTransactionState (map_of (reg_pins reg) sequence)) (\<lambda>count.
     rbind (ok_or PoisonedTransactionState (checked_sub (reg_active reg) 1)) (\<lambda>active.
     rbind (ok_or PoisonedTransactionState (checked_sub (reg_bytes reg) bytes)) (\<lambda>remaining.
     Inr (reg\<lparr>reg_pins := (if count = 1 then bt_remove sequence (reg_pins reg)
                else bt_insert sequence (count - 1) (reg_pins reg)),
              reg_active := active, reg_bytes := remaining\<rparr>))))"

definition registry_release :: "nat \<Rightarrow> nat \<Rightarrow> transaction_snapshots \<Rightarrow> transaction_snapshots res" where
  "registry_release sequence bytes reg =
     rbind (registry_lock reg) (\<lambda>_. release_sequence sequence bytes reg)"

definition release_after_panic :: "nat \<Rightarrow> nat \<Rightarrow> transaction_snapshots \<Rightarrow> transaction_snapshots" where
  "release_after_panic sequence bytes reg =
     (case release_sequence sequence bytes reg of Inl _ \<Rightarrow> reg | Inr reg' \<Rightarrow> reg')"

definition registry_ownership :: "transaction_snapshots \<Rightarrow> (nat \<times> nat) res" where
  "registry_ownership reg = rbind (registry_lock reg) (\<lambda>_. Inr (reg_active reg, reg_bytes reg))"

definition registry_sequences :: "transaction_snapshots \<Rightarrow> nat list res" where
  "registry_sequences reg = rbind (registry_lock reg) (\<lambda>_. Inr (map fst (reg_pins reg)))"

definition registry_is_empty :: "transaction_snapshots \<Rightarrow> bool res" where
  "registry_is_empty reg = rbind (registry_lock reg) (\<lambda>_. Inr (reg_pins reg = []))"

section \<open>Transactions\<close>

record vec_u8 =
  vec_data :: bytes
  vec_capacity :: nat

text \<open>\<open>size_of\<close> of a map entry and of a mutation on a 64-bit target.\<close>

definition MAP_ENTRY_BYTES :: nat where [rrf_consts]: "MAP_ENTRY_BYTES = 48"
definition MUTATION_BYTES :: nat where [rrf_consts]: "MUTATION_BYTES = 48"

definition buffer_charge :: "nat \<Rightarrow> vec_u8 option \<Rightarrow> nat res" where
  "buffer_charge key_capacity v =
     ok_or (InvalidTransaction ''transaction buffer charge overflow'')
       (Option.bind (checked_add key_capacity (case v of None \<Rightarrow> 0 | Some x \<Rightarrow> vec_capacity x)) (\<lambda>n.
        Option.bind (checked_add n MAP_ENTRY_BYTES) (\<lambda>n. checked_add n MUTATION_BYTES)))"

text \<open>The write set keeps, with each key, the capacity of the stored key vector.\<close>

record transaction =
  tx_snapshot :: nat
  tx_writes :: "(bytes, nat \<times> vec_u8 option) btree"
  tx_write_size :: write_batch_size
  tx_buffered_bytes :: nat
  tx_owner :: nat
  tx_released :: bool

definition transaction_begin ::
  "nat \<Rightarrow> nat \<Rightarrow> transaction_snapshots \<Rightarrow> (transaction \<times> transaction_snapshots) res" where
  "transaction_begin snapshot owner reg =
     rbind (registry_acquire snapshot reg) (\<lambda>reg.
     Inr (\<lparr>tx_snapshot = snapshot, tx_writes = [], tx_write_size = write_batch_size_default,
           tx_buffered_bytes = 0, tx_owner = owner, tx_released = False\<rparr>, reg))"

definition reserve_replacement ::
  "transaction \<Rightarrow> transaction_snapshots \<Rightarrow> vec_u8 \<Rightarrow> vec_u8 option
     \<Rightarrow> (nat \<times> transaction \<times> transaction_snapshots) res" where
  "reserve_replacement tx reg key v =
     rbind (case map_of (tx_writes tx) (vec_data key) of
              Some (stored_capacity, prior) \<Rightarrow>
                rbind (buffer_charge stored_capacity prior) (\<lambda>n. Inr (n, stored_capacity))
            | None \<Rightarrow> Inr (0, vec_capacity key)) (\<lambda>(old, capacity).
     rbind (buffer_charge capacity v) (\<lambda>replacement.
     rbind (ok_or (InvalidTransaction ''transaction replacement charge overflow'')
              (Option.bind (checked_sub (tx_buffered_bytes tx) old) (\<lambda>n. checked_add n replacement))) (\<lambda>next.
     if next > tx_buffered_bytes tx then
       rbind (registry_resize (tx_buffered_bytes tx) next reg) (\<lambda>reg.
       Inr (next, tx\<lparr>tx_buffered_bytes := next\<rparr>, reg))
     else Inr (next, tx, reg))))"

definition finish_replacement ::
  "nat \<Rightarrow> transaction \<Rightarrow> transaction_snapshots \<Rightarrow> unit res \<times> transaction \<times> transaction_snapshots" where
  "finish_replacement next tx reg =
     (if next < tx_buffered_bytes tx then
        (case registry_resize (tx_buffered_bytes tx) next reg of
           Inl e \<Rightarrow> (Inl e, tx, reg)
         | Inr reg \<Rightarrow> (Inr (), tx\<lparr>tx_buffered_bytes := next\<rparr>, reg))
      else (Inr (), tx, reg))"

text \<open>\<open>BTreeMap::insert\<close> on an occupied key keeps the stored key vector.\<close>

definition write_insert :: "vec_u8 \<Rightarrow> vec_u8 option \<Rightarrow> transaction \<Rightarrow> transaction" where
  "write_insert key v tx = tx\<lparr>tx_writes := bt_insert (vec_data key)
     (case map_of (tx_writes tx) (vec_data key) of None \<Rightarrow> vec_capacity key | Some (cap, _) \<Rightarrow> cap, v)
     (tx_writes tx)\<rparr>"

text \<open>\<open>put\<close> and \<open>delete\<close> differ only in the value, which is absent for a tombstone.\<close>

definition transaction_replace ::
  "transaction \<Rightarrow> transaction_snapshots \<Rightarrow> vec_u8 \<Rightarrow> vec_u8 option
     \<Rightarrow> unit res \<times> transaction \<times> transaction_snapshots" where
  "transaction_replace tx reg key v =
     (case with_replacement (tx_write_size tx) (vec_data key)
             (map_option (\<lambda>(_, prior). map_option vec_data prior) (map_of (tx_writes tx) (vec_data key)))
             (map_option vec_data v) of
        Inl e \<Rightarrow> (Inl e, tx, reg)
      | Inr new_size \<Rightarrow>
     (case reserve_replacement tx reg key v of
        Inl e \<Rightarrow> (Inl e, tx, reg)
      | Inr (reserved, tx, reg) \<Rightarrow>
          finish_replacement reserved ((write_insert key v tx)\<lparr>tx_write_size := new_size\<rparr>) reg))"

definition transaction_put ::
  "transaction \<Rightarrow> transaction_snapshots \<Rightarrow> vec_u8 \<Rightarrow> vec_u8 \<Rightarrow> unit res \<times> transaction \<times> transaction_snapshots" where
  "transaction_put tx reg key v = transaction_replace tx reg key (Some v)"

definition transaction_delete ::
  "transaction \<Rightarrow> transaction_snapshots \<Rightarrow> vec_u8 \<Rightarrow> unit res \<times> transaction \<times> transaction_snapshots" where
  "transaction_delete tx reg key = transaction_replace tx reg key None"

definition transaction_release ::
  "transaction \<Rightarrow> transaction_snapshots \<Rightarrow> unit res \<times> transaction \<times> transaction_snapshots" where
  "transaction_release tx reg =
     (if tx_released tx then (Inr (), tx, reg)
      else let tx = tx\<lparr>tx_writes := []\<rparr> in
        case registry_release (tx_snapshot tx) (tx_buffered_bytes tx) reg of
          Inl e \<Rightarrow> (Inl e, tx, reg)
        | Inr reg \<Rightarrow> (Inr (), tx\<lparr>tx_released := True\<rparr>, reg))"

definition transaction_drop ::
  "transaction \<Rightarrow> transaction_snapshots \<Rightarrow> transaction_snapshots" where
  "transaction_drop tx reg =
     (if tx_released tx then reg
      else release_after_panic (tx_snapshot tx) (tx_buffered_bytes tx) reg)"

record transaction_rollback =
  trb_snapshot_sequence :: nat
  trb_discarded_mutations :: nat

text \<open>\<open>rollback\<close> consumes the transaction, so the destructor runs after the release.\<close>

definition rollback :: "transaction \<Rightarrow> transaction_snapshots \<Rightarrow> transaction_rollback res \<times> transaction_snapshots" where
  "rollback tx reg =
     (case transaction_release tx reg of
        (Inl e, tx', reg') \<Rightarrow> (Inl e, transaction_drop tx' reg')
      | (Inr _, tx', reg') \<Rightarrow>
          (Inr \<lparr>trb_snapshot_sequence = tx_snapshot tx, trb_discarded_mutations = length (tx_writes tx)\<rparr>,
           transaction_drop tx' reg'))"

definition entry_mutation :: "bytes \<times> nat \<times> vec_u8 option \<Rightarrow> mutation" where
  "entry_mutation = (\<lambda>(key, _, v). case v of Some x \<Rightarrow> Put key (vec_data x) | None \<Rightarrow> Delete key)"

definition take_mutations :: "transaction \<Rightarrow> mutation list \<times> transaction" where
  "take_mutations tx =
     (map entry_mutation (tx_writes tx),
      tx\<lparr>tx_write_size := write_batch_size_default, tx_writes := []\<rparr>)"

section \<open>Reads\<close>

text \<open>\<open>pending_prefix\<close>: \<open>take_while\<close> over the ordered range that starts at the prefix.\<close>

definition starts_with :: "bytes \<Rightarrow> bytes \<Rightarrow> bool" where
  "starts_with key p \<longleftrightarrow> length p \<le> length key \<and> take (length p) key = p"

definition pending_prefix :: "transaction \<Rightarrow> bytes \<Rightarrow> (bytes \<times> bytes option) list" where
  "pending_prefix tx p =
     map (\<lambda>(key, _, v). (key, map_option vec_data v))
       (takeWhile (\<lambda>(key, _). starts_with key p) (bt_range (Included p) Unbounded (tx_writes tx)))"

definition transaction_get ::
  "unit res \<Rightarrow> (bytes \<Rightarrow> nat \<Rightarrow> bytes option res) \<Rightarrow> transaction \<Rightarrow> bytes \<Rightarrow> bytes option res" where
  "transaction_get owner_check database_get tx key =
     rbind (validate_key key) (\<lambda>_.
     rbind owner_check (\<lambda>_.
     case map_of (tx_writes tx) key of
       Some (_, v) \<Rightarrow> Inr (map_option vec_data v)
     | None \<Rightarrow> database_get key (tx_snapshot tx)))"

definition ROW_BYTES :: nat where [rrf_consts]: "ROW_BYTES = 48"

record output_rows =
  out_rows :: "(bytes \<times> bytes) list"
  out_payload :: nat
  out_bytes :: nat
  out_limit :: nat
  out_capacity :: nat

text \<open>\<open>OutputRows::push\<close>: the payload admitted, the capacity after growing, and the push.\<close>

definition output_admit :: "output_rows \<Rightarrow> bytes \<Rightarrow> bytes \<Rightarrow> nat res" where
  "output_admit out key v =
     rbind (ok_or (InvalidProjectedRead ''transaction scan output overflow'')
              (Option.bind (checked_add (out_payload out) (length key)) (\<lambda>n. checked_add n (length v)))) (\<lambda>payload.
     rbind (ok_or (InvalidProjectedRead ''transaction scan row overflow'')
              (Option.bind (checked_add (length (out_rows out)) 1) (\<lambda>n.
               Option.bind (checked_mul n ROW_BYTES) (\<lambda>n. checked_add n payload)))) (\<lambda>minimum.
     rbind (fail_if (minimum > out_bytes out)
              (ProjectedReadLimit OutputBufferBytes (out_bytes out) minimum)) (\<lambda>_.
     Inr payload)))"

definition output_grow :: "output_rows \<Rightarrow> nat \<Rightarrow> nat res" where
  "output_grow out payload =
     (if length (out_rows out) = out_capacity out then
        let capacity = min (min (max (saturating_mul (out_capacity out) 2) 4) (out_limit out))
                           ((out_bytes out - payload) div ROW_BYTES) in
        rbind (fail_if (capacity < length (out_rows out))
                 (Panic ''attempt to subtract with overflow'')) (\<lambda>_. Inr capacity)
      else Inr (out_capacity out))"

definition output_push :: "output_rows \<Rightarrow> bytes \<Rightarrow> bytes \<Rightarrow> output_rows res" where
  "output_push out key v =
     rbind (output_admit out key v) (\<lambda>payload.
     rbind (output_grow out payload) (\<lambda>capacity.
     rbind (ok_or (InvalidProjectedRead ''transaction scan capacity overflow'')
              (Option.bind (checked_mul capacity ROW_BYTES) (\<lambda>n. checked_add n payload))) (\<lambda>actual.
     rbind (fail_if (actual > out_bytes out)
              (ProjectedReadLimit OutputBufferBytes (out_bytes out) actual)) (\<lambda>_.
     Inr (out\<lparr>out_rows := out_rows out @ [(key, v)], out_payload := payload, out_capacity := capacity\<rparr>)))))"

text \<open>The merge loop over the rows of the base stream and the pending writes.\<close>

function merge_rows ::
  "(bytes \<times> bytes) res list \<Rightarrow> (bytes \<times> bytes option) list \<Rightarrow> output_rows \<Rightarrow> output_rows res" where
  "merge_rows base pending out =
     (if length (out_rows out) < out_limit out then
        rbind (case base of [] \<Rightarrow> Inr None | Inl e # _ \<Rightarrow> Inl e | Inr row # _ \<Rightarrow> Inr (Some row)) (\<lambda>row.
        (case (row, pending) of
           (None, []) \<Rightarrow> Inr out
         | (Some (key, v), []) \<Rightarrow>
             rbind (output_push out key v) (\<lambda>out. merge_rows (tl base) [] out)
         | (None, (pkey, pv) # rest) \<Rightarrow>
             rbind (case pv of Some v \<Rightarrow> output_push out pkey v | None \<Rightarrow> Inr out) (\<lambda>out.
             merge_rows base rest out)
         | (Some (key, v), (pkey, pv) # rest) \<Rightarrow>
             if key < pkey then
               rbind (output_push out key v) (\<lambda>out. merge_rows (tl base) pending out)
             else
               rbind (case pv of Some v \<Rightarrow> output_push out pkey v | None \<Rightarrow> Inr out) (\<lambda>out.
               merge_rows (if key = pkey then tl base else base) rest out)))
      else Inr out)"
  by pat_completeness auto
termination
  by (relation "measure (\<lambda>(base, pending, out). length base + length pending)")
    (auto split: list.splits sum.splits)

declare merge_rows.simps [simp del]

text \<open>
  \<open>Transaction::scan\<close>: \<open>bytes\<close> is the configured projected output limit and \<open>base\<close> the rows the
  projected read of the range at the snapshot yields.
\<close>

definition scan_range_check :: "bytes \<Rightarrow> unit res" where
  "scan_range_check b =
     (if b = [] then Inr ()
      else case validate_key b of Inl _ \<Rightarrow> Inl (InvalidTransaction ''scan range'') | Inr u \<Rightarrow> Inr u)"

definition scan_bounded ::
  "unit res \<Rightarrow> nat \<Rightarrow> (bytes \<Rightarrow> bytes \<Rightarrow> nat \<Rightarrow> (bytes \<times> bytes) res list res) \<Rightarrow> transaction
     \<Rightarrow> bytes \<Rightarrow> bytes \<Rightarrow> nat \<Rightarrow> (bytes \<times> bytes) list res" where
  "scan_bounded owner_check bytes projected_read tx start stop limit =
     rbind (fail_if (start \<ge> stop \<or> limit = 0)
              (InvalidTransaction ''scan requires a non-empty half-open range and positive limit'')) (\<lambda>_.
     rbind owner_check (\<lambda>_.
     rbind (scan_range_check start) (\<lambda>_.
     rbind (scan_range_check stop) (\<lambda>_.
     rbind (projected_read start stop (tx_snapshot tx)) (\<lambda>base.
     let pending = map (\<lambda>(key, _, v). (key, map_option vec_data v))
           (bt_range (Included start) (Excluded stop) (tx_writes tx)) in
     rbind (merge_rows base pending \<lparr>out_rows = [], out_payload = 0, out_bytes = bytes,
              out_limit = limit, out_capacity = 0\<rparr>) (\<lambda>out.
     Inr (out_rows out)))))))"

end
