(* ===== verification/Transaction_Spec.thy ===== *)
theory Transaction_Spec
  imports Transaction
begin

text \<open>
  Correctness of transactions. The write set is accounted exactly, both as an encoded batch
  and as owned bytes; the registry of a database with any number of interleaved
  transactions accounts exactly for the live ones; reads overlay the write set on the
  snapshot.
\<close>

section \<open>Replacement accounting\<close>

lemma with_replacement_old_iff:
  "with_replacement s k (Some p) v = Inr s' \<longleftrightarrow>
     key_ok k \<and> value_ok v \<and> wbs_operations s \<noteq> 0 \<and> wbs_operations s \<le> MAX_OPERATIONS
     \<and> op_size k p \<le> u64_max \<and> BATCH_HEADER_BYTES + op_size k p \<le> wbs_encoded_bytes s
     \<and> wbs_encoded_bytes s - op_size k p + op_size k v \<le> WAL_MAX_PAYLOAD_BYTES
     \<and> s' = \<lparr>wbs_operations = wbs_operations s,
              wbs_encoded_bytes = wbs_encoded_bytes s - op_size k p + op_size k v\<rparr>" (is "?l \<longleftrightarrow> ?r")
proof
  assume ?l
  then show ?r
    by (auto simp: with_replacement_def rrf_res bind_eq_Some_conv not_less simp del: rbind_simps
        split: if_splits)
next
  assume ?r
  moreover from this have "op_size k v \<le> u64_max" by (simp add: op_size_bound)
  moreover have "WAL_MAX_PAYLOAD_BYTES \<le> u64_max" by (simp add: rrf_consts)
  ultimately show ?l
    by (auto simp: with_replacement_def rrf_res bind_eq_Some_conv not_less simp del: rbind_simps)
qed

abbreviation entry_value :: "nat \<times> vec_u8 option \<Rightarrow> bytes option" where
  "entry_value e \<equiv> map_option vec_data (snd e)"

definition entry_charge :: "nat \<times> vec_u8 option \<Rightarrow> nat" where
  "entry_charge e = fst e + (case snd e of None \<Rightarrow> 0 | Some x \<Rightarrow> vec_capacity x) + MAP_ENTRY_BYTES + MUTATION_BYTES"

lemma buffer_charge_Inr [rrf_res]:
  "buffer_charge cap v = Inr n \<longleftrightarrow> n = entry_charge (cap, v) \<and> n \<le> u64_max"
  by (auto simp: buffer_charge_def entry_charge_def ok_or_Inr bind_eq_Some_conv)

lemma registry_resize_Inr [rrf_res]:
  "registry_resize a b reg = Inr reg' \<longleftrightarrow> \<not> reg_poisoned reg \<and> a \<le> reg_bytes reg
     \<and> reg_bytes reg - a + b \<le> u64_max \<and> reg_bytes reg - a + b \<le> tl_buffered_bytes (reg_limits reg)
     \<and> reg' = reg\<lparr>reg_bytes := reg_bytes reg - a + b\<rparr>"
  by (auto simp: registry_resize_def registry_lock_def rbind_Inr fail_if_Inr ok_or_Inr bind_eq_Some_conv)

section \<open>The transaction invariant\<close>

definition tx_inv :: "transaction \<Rightarrow> bool" where
  "tx_inv tx \<longleftrightarrow> key_sorted (tx_writes tx)
     \<and> (\<forall>k e. map_of (tx_writes tx) k = Some e \<longrightarrow> key_ok k \<and> value_ok (entry_value e))
     \<and> tx_write_size tx = \<lparr>wbs_operations = length (tx_writes tx),
          wbs_encoded_bytes = BATCH_HEADER_BYTES + bt_sum (\<lambda>k e. op_size k (entry_value e)) (tx_writes tx)\<rparr>
     \<and> length (tx_writes tx) \<le> MAX_OPERATIONS
     \<and> wbs_encoded_bytes (tx_write_size tx) \<le> WAL_MAX_PAYLOAD_BYTES
     \<and> tx_buffered_bytes tx = bt_sum (\<lambda>k e. entry_charge e) (tx_writes tx)"

lemma tx_invD:
  assumes "tx_inv tx" and "map_of (tx_writes tx) k = Some e"
  shows "key_ok k" and "value_ok (entry_value e)"
  using assms unfolding tx_inv_def by blast+

lemma write_insert_fields [simp]:
  "tx_writes (write_insert key v tx) = bt_insert (vec_data key)
     (case map_of (tx_writes tx) (vec_data key) of None \<Rightarrow> vec_capacity key | Some (cap, _) \<Rightarrow> cap, v) (tx_writes tx)"
  "tx_write_size (write_insert key v tx) = tx_write_size tx"
  "tx_buffered_bytes (write_insert key v tx) = tx_buffered_bytes tx"
  "tx_snapshot (write_insert key v tx) = tx_snapshot tx" "tx_owner (write_insert key v tx) = tx_owner tx"
  "tx_released (write_insert key v tx) = tx_released tx"
  by (simp_all add: write_insert_def)

definition new_entry :: "transaction \<Rightarrow> vec_u8 \<Rightarrow> vec_u8 option \<Rightarrow> nat \<times> vec_u8 option" where
  "new_entry tx key v =
     (case map_of (tx_writes tx) (vec_data key) of None \<Rightarrow> vec_capacity key | Some (cap, _) \<Rightarrow> cap, v)"

lemma reserve_replacement_Inr:
  assumes "tx_inv tx" and "reserve_replacement tx reg key v = Inr (nx, tx', reg')"
  shows "nx = bt_sum (\<lambda>k e. entry_charge e) (bt_insert (vec_data key) (new_entry tx key v) (tx_writes tx))
    \<and> tx' = tx\<lparr>tx_buffered_bytes := max (tx_buffered_bytes tx) nx\<rparr>
    \<and> (if nx > tx_buffered_bytes tx
       then registry_resize (tx_buffered_bytes tx) nx reg = Inr reg' else reg' = reg)"
proof -
  have sorted: "key_sorted (tx_writes tx)" and buf: "tx_buffered_bytes tx = bt_sum (\<lambda>k e. entry_charge e) (tx_writes tx)"
    using assms(1) by (simp_all add: tx_inv_def)
  have "nx = bt_sum (\<lambda>k e. entry_charge e) (bt_insert (vec_data key) (new_entry tx key v) (tx_writes tx))"
  proof (cases "map_of (tx_writes tx) (vec_data key)")
    case None
    then show ?thesis
      using assms(2) buf
      by (auto simp: reserve_replacement_def new_entry_def bt_sum_insert_new rrf_res bind_eq_Some_conv
          simp del: rbind_simps split: if_splits)
  next
    case (Some e)
    obtain cap prior where e: "e = (cap, prior)" by (cases e)
    note sum = bt_sum_insert_old [OF sorted Some, of "\<lambda>k e. entry_charge e" "new_entry tx key v"]
    show ?thesis
      using assms(2) buf sum bt_sum_member_le [OF Some, of "\<lambda>k e. entry_charge e"]
      by (auto simp: reserve_replacement_def new_entry_def Some e rrf_res bind_eq_Some_conv
          simp del: rbind_simps split: if_splits)
  qed
  moreover from assms(2) have "tx' = tx\<lparr>tx_buffered_bytes := max (tx_buffered_bytes tx) nx\<rparr>
    \<and> (if nx > tx_buffered_bytes tx
       then registry_resize (tx_buffered_bytes tx) nx reg = Inr reg' else reg' = reg)"
    by (auto simp: reserve_replacement_def rbind_Inr simp del: registry_resize_Inr split: prod.splits if_splits)
  ultimately show ?thesis by blast
qed

lemma replacement_size:
  assumes "tx_inv tx"
    and "with_replacement (tx_write_size tx) (vec_data key)
      (map_option (\<lambda>(_, prior). map_option vec_data prior) (map_of (tx_writes tx) (vec_data key)))
      (map_option vec_data v) = Inr s"
  defines "ws \<equiv> bt_insert (vec_data key) (new_entry tx key v) (tx_writes tx)"
  shows "key_ok (vec_data key) \<and> value_ok (map_option vec_data v) \<and> length ws \<le> MAX_OPERATIONS
    \<and> s = \<lparr>wbs_operations = length ws,
           wbs_encoded_bytes = BATCH_HEADER_BYTES + bt_sum (\<lambda>k e. op_size k (entry_value e)) ws\<rparr>
    \<and> wbs_encoded_bytes s \<le> WAL_MAX_PAYLOAD_BYTES"
proof -
  have sorted: "key_sorted (tx_writes tx)"
    and size: "tx_write_size tx = \<lparr>wbs_operations = length (tx_writes tx),
      wbs_encoded_bytes = BATCH_HEADER_BYTES + bt_sum (\<lambda>k e. op_size k (entry_value e)) (tx_writes tx)\<rparr>"
    using assms(1) by (simp_all add: tx_inv_def)
  show ?thesis
  proof (cases "map_of (tx_writes tx) (vec_data key)")
    case None
    then show ?thesis
      using assms(2) sorted
      by (simp add: size with_replacement_new_iff ws_def length_bt_insert bt_sum_insert_new new_entry_def add_ac)
  next
    case (Some e)
    obtain cap prior where e: "e = (cap, prior)" by (cases e)
    note sum = bt_sum_insert_old [OF sorted Some, of "\<lambda>k e. op_size k (entry_value e)" "new_entry tx key v"]
    show ?thesis
      using assms(2) sorted sum
      by (auto simp: size with_replacement_old_iff ws_def length_bt_insert Some e new_entry_def)
  qed
qed

lemma transaction_replace_ok:
  assumes "tx_inv tx" and "transaction_replace tx reg key v = (Inr (), tx', reg')"
    and "tx_buffered_bytes tx \<le> reg_bytes reg"
  shows "tx_inv tx' \<and> tx_snapshot tx' = tx_snapshot tx \<and> tx_owner tx' = tx_owner tx \<and> tx_released tx' = tx_released tx
    \<and> (\<lambda>k. map_option entry_value (map_of (tx_writes tx') k))
        = (\<lambda>k. map_option entry_value (map_of (tx_writes tx) k))(vec_data key \<mapsto> map_option vec_data v)
    \<and> reg' = reg\<lparr>reg_bytes := reg_bytes reg - tx_buffered_bytes tx + tx_buffered_bytes tx'\<rparr>
    \<and> (reg_bytes reg' \<le> reg_bytes reg
       \<or> reg_bytes reg' \<le> tl_buffered_bytes (reg_limits reg) \<and> reg_bytes reg' \<le> u64_max)"
proof -
  define ws where "ws = bt_insert (vec_data key) (new_entry tx key v) (tx_writes tx)"
  from assms(2) obtain s nx tx1 reg1
    where s: "with_replacement (tx_write_size tx) (vec_data key)
      (map_option (\<lambda>(_, prior). map_option vec_data prior) (map_of (tx_writes tx) (vec_data key)))
      (map_option vec_data v) = Inr s"
    and r: "reserve_replacement tx reg key v = Inr (nx, tx1, reg1)"
    and f: "finish_replacement nx ((write_insert key v tx1)\<lparr>tx_write_size := s\<rparr>) reg1 = (Inr (), tx', reg')"
    by (auto simp: transaction_replace_def split: sum.splits prod.splits)
  note rr = reserve_replacement_Inr [OF assms(1) r]
  note rs = replacement_size [OF assms(1) s]
  have sorted: "key_sorted (tx_writes tx)" and buf: "tx_buffered_bytes tx = bt_sum (\<lambda>k e. entry_charge e) (tx_writes tx)"
    and ok: "\<forall>k e. map_of (tx_writes tx) k = Some e \<longrightarrow> key_ok k \<and> value_ok (entry_value e)"
    using assms(1) by (simp_all add: tx_inv_def)
  have w1: "tx_writes (write_insert key v tx1) = ws"
    using rr by (simp add: ws_def new_entry_def)
  have tx': "tx' = tx\<lparr>tx_writes := ws, tx_write_size := s, tx_buffered_bytes := nx\<rparr>"
    and reg': "reg' = reg\<lparr>reg_bytes := reg_bytes reg - tx_buffered_bytes tx + nx\<rparr>"
    using f rr w1 assms(3)
    by (cases "nx > tx_buffered_bytes tx";
        auto simp: finish_replacement_def registry_resize_Inr max_def split: if_splits sum.splits)+
  have keys: "map_of ws = (map_of (tx_writes tx))(vec_data key \<mapsto> new_entry tx key v)"
    by (simp add: ws_def map_of_bt_insert)
  have "tx_inv tx'"
    using rs rr ok sorted keys
    by (auto simp: tx' tx_inv_def ws_def key_sorted_bt_insert new_entry_def)
  moreover have "reg_bytes reg' \<le> reg_bytes reg
      \<or> reg_bytes reg' \<le> tl_buffered_bytes (reg_limits reg) \<and> reg_bytes reg' \<le> u64_max"
    using rr assms(3) by (auto simp: reg' registry_resize_Inr split: if_splits)
  ultimately show ?thesis using reg' by (auto simp: tx' keys fun_eq_iff new_entry_def)
qed

text \<open>A refused mutation changes nothing, unless the registry mutex was poisoned meanwhile.\<close>

lemma transaction_replace_error:
  assumes "tx_inv tx" and "transaction_replace tx reg key v = (Inl e, tx', reg')"
    and "tx_buffered_bytes tx \<le> reg_bytes reg" and "reg_bytes reg \<le> tl_buffered_bytes (reg_limits reg)"
    and "reg_bytes reg \<le> u64_max" and "\<not> reg_poisoned reg"
  shows "tx' = tx \<and> reg' = reg"
proof (cases "with_replacement (tx_write_size tx) (vec_data key)
      (map_option (\<lambda>(_, prior). map_option vec_data prior) (map_of (tx_writes tx) (vec_data key)))
      (map_option vec_data v)")
  case (Inl x)
  then show ?thesis using assms(2) by (simp add: transaction_replace_def)
next
  case (Inr s)
  show ?thesis
  proof (cases "reserve_replacement tx reg key v")
    case Inl
    then show ?thesis using assms(2) Inr by (simp add: transaction_replace_def)
  next
    case (Inr res)
    obtain nx tx1 reg1 where r: "reserve_replacement tx reg key v = Inr (nx, tx1, reg1)"
      using Inr by (cases res) auto
    have "\<exists>x y. finish_replacement nx ((write_insert key v tx1)\<lparr>tx_write_size := s\<rparr>) reg1 = (Inr (), x, y)"
    proof (cases "nx < tx_buffered_bytes tx")
      case True
      then have "\<exists>reg2. registry_resize (tx_buffered_bytes tx) nx reg = Inr reg2"
        using assms(3-6) by (auto simp: registry_resize_Inr)
      then show ?thesis
        using reserve_replacement_Inr [OF assms(1) r] True by (auto simp: finish_replacement_def)
    qed (use reserve_replacement_Inr [OF assms(1) r] in \<open>auto simp: finish_replacement_def\<close>)
    then show ?thesis
      using assms(2) \<open>with_replacement _ _ _ _ = Inr s\<close> r by (auto simp: transaction_replace_def)
  qed
qed

text \<open>
  (C40) The write set of a transaction is always a batch the log accepts: buffering a mutation
  that succeeds keeps the exact accounting of the pending batch and of the owned bytes and
  replaces the pending value of that key only; a mutation that is refused leaves the
  transaction and the registry as they were.
\<close>

theorem transaction_replace_invariant:
  assumes "tx_inv tx" and "transaction_replace tx reg key v = (r, tx', reg')"
    and "tx_buffered_bytes tx \<le> reg_bytes reg" and "reg_bytes reg \<le> tl_buffered_bytes (reg_limits reg)"
    and "reg_bytes reg \<le> u64_max" and "\<not> reg_poisoned reg"
  shows "tx_inv tx' \<and> (case r of
      Inr _ \<Rightarrow> (\<lambda>k. map_option entry_value (map_of (tx_writes tx') k))
          = (\<lambda>k. map_option entry_value (map_of (tx_writes tx) k))(vec_data key \<mapsto> map_option vec_data v)
    | Inl _ \<Rightarrow> tx' = tx \<and> reg' = reg)"
proof (cases r)
  case (Inl e)
  then show ?thesis
    using transaction_replace_error [OF assms(1) assms(2) [unfolded Inl] assms(3-6)] assms(1) by simp
next
  case (Inr u)
  then show ?thesis using transaction_replace_ok [of tx reg key v tx' reg'] assms(1-3) by simp
qed

lemma tx_inv_begin:
  "transaction_begin n owner reg = Inr (tx, reg') \<Longrightarrow> tx_inv tx"
  by (auto simp: transaction_begin_def rbind_Inr tx_inv_def write_batch_size_default_def bt_sum_def rrf_consts)

theorem transaction_replace_invariant_witness:
  "\<exists>tx tx' reg reg'. transaction_begin 7 0 (registry_new transaction_limits_default) = Inr (tx, reg)
     \<and> transaction_replace tx reg \<lparr>vec_data = [1], vec_capacity = 4\<rparr> None = (Inr (), tx', reg') \<and> tx_inv tx'"
proof -
  let ?tx = "\<lparr>tx_snapshot = 7, tx_writes = [], tx_write_size = write_batch_size_default,
    tx_buffered_bytes = 0, tx_owner = 0, tx_released = False\<rparr>"
  let ?reg = "(registry_new transaction_limits_default)\<lparr>reg_pins := [(7, 1)], reg_active := 1\<rparr>"
  have b: "transaction_begin 7 0 (registry_new transaction_limits_default) = Inr (?tx, ?reg)"
    by (simp add: transaction_begin_def registry_acquire_def registry_lock_def registry_new_def
        transaction_limits_default_def checked_add_def rrf_consts)
  obtain tx' reg' where r: "transaction_replace ?tx ?reg \<lparr>vec_data = [1], vec_capacity = 4\<rparr> None = (Inr (), tx', reg')"
    by (simp add: transaction_replace_def with_replacement_def reserve_replacement_def finish_replacement_def
        registry_new_def transaction_limits_default_def validate_key_def op_length_def buffer_charge_def
        registry_resize_def registry_lock_def checked_add_def checked_sub_def write_batch_size_default_def
        fail_if_def rrf_consts)
  have "tx_inv tx'"
    using transaction_replace_invariant [OF tx_inv_begin [OF b] r] by (simp add: registry_new_def)
  with b r show ?thesis by blast
qed

section \<open>Handing over the write set\<close>

lemma map_of_key_sorted_in: "key_sorted m \<Longrightarrow> e \<in> set m \<Longrightarrow> map_of m (fst e) = Some (snd e)"
  using bt.in_entries [of m "fst e" "snd e"] by simp

lemma entry_mutation_parts [simp]:
  "mutation_key (entry_mutation e) = fst e" "mutation_value (entry_mutation e) = entry_value (snd e)"
  by (auto simp: entry_mutation_def split: prod.splits option.splits)

text \<open>
  (C39) The mutations a transaction hands to commit form a batch that admission accepts, whose
  encoded length is exactly the size the transaction accounted, with every key once and in
  ascending order.
\<close>

theorem take_mutations_admitted:
  assumes "tx_inv tx" and "tx_writes tx \<noteq> []"
  shows "\<exists>b. write_batch_new (fst (take_mutations tx)) = Inr b
    \<and> encoded_len b = wbs_encoded_bytes (tx_write_size tx)
    \<and> sorted_wrt (<) (map mutation_key (operations b))"
proof -
  let ?ops = "map entry_mutation (tx_writes tx)"
  have sorted: "key_sorted (tx_writes tx)" using assms(1) by (simp add: tx_inv_def)
  have ok: "mutation_ok m" if "m \<in> set ?ops" for m
  proof -
    from that obtain e where e: "e \<in> set (tx_writes tx)" "m = entry_mutation e" by auto
    from map_of_key_sorted_in [OF sorted e(1)]
    have "key_ok (fst e)" "value_ok (entry_value (snd e))" using tx_invD [OF assms(1)] by blast+
    then show ?thesis unfolding mutation_ok_def e(2) entry_mutation_parts by simp
  qed
  have size: "sum_list (map mutation_size ?ops) = bt_sum (\<lambda>k e. op_size k (entry_value e)) (tx_writes tx)"
    by (simp add: bt_sum_def comp_def mutation_size_def case_prod_unfold)
  have "write_batch_new ?ops = Inr \<lparr>operations = ?ops, encoded_len = wbs_encoded_bytes (tx_write_size tx)\<rparr>"
    using assms ok size by (auto simp: write_batch_new_iff validate_operations_iff tx_inv_def)
  then show ?thesis using sorted by (simp add: take_mutations_def comp_def)
qed

theorem take_mutations_admitted_witness:
  "\<exists>tx b. tx_writes tx = [([1], 1, None)] \<and> write_batch_new (fst (take_mutations tx)) = Inr b"
proof -
  let ?tx = "\<lparr>tx_snapshot = 7, tx_writes = [([1], 1, None)],
    tx_write_size = \<lparr>wbs_operations = 1, wbs_encoded_bytes = 25\<rparr>,
    tx_buffered_bytes = 97, tx_owner = 0, tx_released = False\<rparr>"
  have "tx_inv ?tx"
    by (simp add: tx_inv_def bt_sum_def op_size_def entry_charge_def rrf_consts)
  from take_mutations_admitted [OF this] show ?thesis
    by (intro exI [of _ ?tx]) auto
qed

section \<open>Interleaved transactions of one database\<close>

record tx_system =
  sys_registry :: transaction_snapshots
  sys_live :: "transaction list"

inductive tx_step :: "tx_system \<Rightarrow> tx_system \<Rightarrow> bool" where
  started: "transaction_begin n owner reg = Inr (tx, reg') \<Longrightarrow>
    tx_step \<lparr>sys_registry = reg, sys_live = live\<rparr> \<lparr>sys_registry = reg', sys_live = tx # live\<rparr>"
| mutated: "transaction_replace tx reg key v = (r, tx', reg') \<Longrightarrow>
    tx_step \<lparr>sys_registry = reg, sys_live = pre @ tx # post\<rparr> \<lparr>sys_registry = reg', sys_live = pre @ tx' # post\<rparr>"
| rolled_back: "rollback tx reg = (r, reg') \<Longrightarrow>
    tx_step \<lparr>sys_registry = reg, sys_live = pre @ tx # post\<rparr> \<lparr>sys_registry = reg', sys_live = pre @ post\<rparr>"
| dropped: "transaction_drop tx reg = reg' \<Longrightarrow>
    tx_step \<lparr>sys_registry = reg, sys_live = pre @ tx # post\<rparr> \<lparr>sys_registry = reg', sys_live = pre @ post\<rparr>"
| finished: "transaction_release (snd (take_mutations tx)) reg = (r, tx', reg') \<Longrightarrow>
    tx_step \<lparr>sys_registry = reg, sys_live = pre @ tx # post\<rparr>
      \<lparr>sys_registry = transaction_drop tx' reg', sys_live = pre @ post\<rparr>"

definition pin_count :: "transaction list \<Rightarrow> nat \<Rightarrow> nat option" where
  "pin_count live n = (let c = count_list (map tx_snapshot live) n in if c = 0 then None else Some c)"

definition sys_inv :: "tx_system \<Rightarrow> bool" where
  "sys_inv s \<longleftrightarrow> \<not> reg_poisoned (sys_registry s) \<and> key_sorted (reg_pins (sys_registry s))
     \<and> map_of (reg_pins (sys_registry s)) = pin_count (sys_live s)
     \<and> reg_active (sys_registry s) = length (sys_live s)
     \<and> reg_bytes (sys_registry s) = sum_list (map tx_buffered_bytes (sys_live s))
     \<and> reg_active (sys_registry s) \<le> tl_active (reg_limits (sys_registry s))
     \<and> reg_bytes (sys_registry s) \<le> tl_buffered_bytes (reg_limits (sys_registry s))
     \<and> reg_bytes (sys_registry s) \<le> u64_max
     \<and> (\<forall>tx \<in> set (sys_live s). tx_inv tx \<and> \<not> tx_released tx)"

lemma registry_acquire_Inr:
  "registry_acquire n reg = Inr reg' \<Longrightarrow>
   reg' = reg\<lparr>reg_pins := bt_insert n (case map_of (reg_pins reg) n of None \<Rightarrow> 1 | Some c \<Rightarrow> c + 1) (reg_pins reg),
             reg_active := reg_active reg + 1\<rparr>
   \<and> reg_active reg + 1 \<le> tl_active (reg_limits reg)"
  by (auto simp: registry_acquire_def rbind_Inr fail_if_Inr ok_or_Inr split: option.splits)

lemma sys_inv_started:
  assumes "sys_inv \<lparr>sys_registry = reg, sys_live = live\<rparr>" and "transaction_begin n owner reg = Inr (tx, reg')"
  shows "sys_inv \<lparr>sys_registry = reg', sys_live = tx # live\<rparr>"
proof -
  from assms(2) have acq: "registry_acquire n reg = Inr reg'"
    and tx: "tx_snapshot tx = n" "tx_buffered_bytes tx = 0" "\<not> tx_released tx"
    by (auto simp: transaction_begin_def rbind_Inr)
  note reg' = registry_acquire_Inr [OF acq]
  have "map_of (reg_pins reg') = pin_count (tx # live)"
    using assms(1) reg' tx(1)
    by (auto simp: sys_inv_def map_of_bt_insert pin_count_def Let_def fun_eq_iff)
  with assms(1) reg' tx tx_inv_begin [OF assms(2)] show ?thesis
    by (simp add: sys_inv_def key_sorted_bt_insert)
qed

text \<open>The release of a live transaction always succeeds and removes exactly its account.\<close>

lemma release_live:
  assumes "sys_inv \<lparr>sys_registry = reg, sys_live = pre @ tx # post\<rparr>"
  shows "\<exists>reg'. release_sequence (tx_snapshot tx) (tx_buffered_bytes tx) reg = Inr reg'
    \<and> sys_inv \<lparr>sys_registry = reg', sys_live = pre @ post\<rparr>"
proof -
  let ?n = "tx_snapshot tx" and ?rest = "pre @ post"
  let ?c = "count_list (map tx_snapshot ?rest) ?n"
  have inv: "key_sorted (reg_pins reg)" "map_of (reg_pins reg) = pin_count (pre @ tx # post)"
    "reg_active reg = length (pre @ tx # post)"
    "reg_bytes reg = sum_list (map tx_buffered_bytes (pre @ tx # post))"
    using assms by (simp_all add: sys_inv_def)
  define pins where "pins = (if ?c + 1 = 1 then bt_remove ?n (reg_pins reg) else bt_insert ?n ?c (reg_pins reg))"
  have get: "map_of (reg_pins reg) ?n = Some (?c + 1)" by (simp add: inv(2) pin_count_def)
  have "release_sequence ?n (tx_buffered_bytes tx) reg
      = Inr (reg\<lparr>reg_pins := pins, reg_active := length ?rest, reg_bytes := sum_list (map tx_buffered_bytes ?rest)\<rparr>)"
    using get inv(3,4) by (simp add: release_sequence_def pins_def checked_sub_def)
  moreover have "map_of pins = pin_count ?rest"
  proof
    fix n
    have "pin_count (pre @ tx # post) n = pin_count ?rest n" if "n \<noteq> ?n"
      using that by (simp add: pin_count_def)
    then show "map_of pins n = pin_count ?rest n"
      using bt.get_remove [OF inv(1), of ?n] inv(2)
      by (cases "n = ?n") (auto simp: pins_def map_of_bt_insert pin_count_def Let_def)
  qed
  moreover have "key_sorted pins"
    using inv(1) by (simp add: pins_def key_sorted_bt_insert bt.wf_remove)
  ultimately show ?thesis using assms by (auto simp: sys_inv_def)
qed

lemma sys_inv_replaced:
  assumes "sys_inv \<lparr>sys_registry = reg, sys_live = pre @ tx # post\<rparr>"
    and "transaction_replace tx reg key v = (r, tx', reg')"
  shows "sys_inv \<lparr>sys_registry = reg', sys_live = pre @ tx' # post\<rparr>"
proof -
  have inv: "tx_inv tx" "\<not> tx_released tx" "\<not> reg_poisoned reg"
    "reg_bytes reg = sum_list (map tx_buffered_bytes (pre @ tx # post))"
    "reg_bytes reg \<le> tl_buffered_bytes (reg_limits reg)" "reg_bytes reg \<le> u64_max"
    using assms(1) by (simp_all add: sys_inv_def)
  then have le: "tx_buffered_bytes tx \<le> reg_bytes reg" by simp
  show ?thesis
  proof (cases r)
    case (Inl e)
    then have "tx' = tx \<and> reg' = reg"
      using transaction_replace_error [OF inv(1) assms(2) [unfolded Inl] le inv(5,6,3)] by simp
    then show ?thesis using assms(1) by simp
  next
    case (Inr u)
    then have ok: "tx_inv tx'" "tx_snapshot tx' = tx_snapshot tx" "\<not> tx_released tx'"
      "reg' = reg\<lparr>reg_bytes := reg_bytes reg - tx_buffered_bytes tx + tx_buffered_bytes tx'\<rparr>"
      "reg_bytes reg' \<le> reg_bytes reg
       \<or> reg_bytes reg' \<le> tl_buffered_bytes (reg_limits reg) \<and> reg_bytes reg' \<le> u64_max"
      using transaction_replace_ok [OF inv(1) _ le, of key v tx' reg'] assms(2) inv(2) by auto
    have "pin_count (pre @ tx' # post) = pin_count (pre @ tx # post)"
      by (simp add: pin_count_def ok(2) fun_eq_iff)
    with assms(1) ok inv show ?thesis by (auto simp: sys_inv_def)
  qed
qed

lemma sys_inv_gone:
  assumes "sys_inv \<lparr>sys_registry = reg, sys_live = pre @ tx # post\<rparr>"
  shows "sys_inv \<lparr>sys_registry = transaction_drop tx reg, sys_live = pre @ post\<rparr>"
    and "transaction_release (snd (take_mutations tx)) reg = (r, tx', reg') \<Longrightarrow>
      sys_inv \<lparr>sys_registry = transaction_drop tx' reg', sys_live = pre @ post\<rparr>"
    and "rollback tx reg = (rb, reg'') \<Longrightarrow> sys_inv \<lparr>sys_registry = reg'', sys_live = pre @ post\<rparr>"
proof -
  have tx: "\<not> tx_released tx" "\<not> reg_poisoned reg" using assms by (simp_all add: sys_inv_def)
  obtain reg1 where rel: "release_sequence (tx_snapshot tx) (tx_buffered_bytes tx) reg = Inr reg1"
    and inv: "sys_inv \<lparr>sys_registry = reg1, sys_live = pre @ post\<rparr>"
    using release_live [OF assms] by blast
  show "sys_inv \<lparr>sys_registry = transaction_drop tx reg, sys_live = pre @ post\<rparr>"
    using tx rel inv by (simp add: transaction_drop_def release_after_panic_def)
  have release: "registry_release (tx_snapshot tx) (tx_buffered_bytes tx) reg = Inr reg1"
    using tx(2) rel by (simp add: registry_release_def registry_lock_def)
  show "sys_inv \<lparr>sys_registry = transaction_drop tx' reg', sys_live = pre @ post\<rparr>"
    if "transaction_release (snd (take_mutations tx)) reg = (r, tx', reg')"
    using that tx release inv
    by (auto simp: transaction_release_def take_mutations_def transaction_drop_def Let_def)
  show "sys_inv \<lparr>sys_registry = reg'', sys_live = pre @ post\<rparr>" if "rollback tx reg = (rb, reg'')"
    using that tx release inv
    by (auto simp: rollback_def transaction_release_def transaction_drop_def Let_def)
qed

lemma sys_inv_step: "tx_step s s' \<Longrightarrow> sys_inv s \<Longrightarrow> sys_inv s'"
proof (induction rule: tx_step.induct)
  case (started n owner reg tx reg' live)
  then show ?case by (rule sys_inv_started [rotated])
next
  case (mutated tx reg key v r tx' reg' pre post)
  then show ?case by (rule sys_inv_replaced [rotated])
next
  case (rolled_back tx reg r reg' pre post)
  then show ?case by (rule sys_inv_gone(3) [rotated])
next
  case (dropped tx reg reg' pre post)
  then show ?case using sys_inv_gone(1) by blast
next
  case (finished tx reg r tx' reg' pre post)
  then show ?case by (rule sys_inv_gone(2) [rotated])
qed

lemma replace_limits: "transaction_replace tx reg key v = (r, tx', reg') \<Longrightarrow> reg_limits reg' = reg_limits reg"
  by (auto simp: transaction_replace_def reserve_replacement_def finish_replacement_def registry_resize_Inr
      rbind_Inr split: sum.splits prod.splits if_splits)

lemma release_limits: "release_sequence n b reg = Inr reg' \<Longrightarrow> reg_limits reg' = reg_limits reg"
  by (auto simp: release_sequence_def rbind_Inr)

lemma drop_limits: "reg_limits (transaction_drop tx reg) = reg_limits reg"
  by (auto simp: transaction_drop_def release_after_panic_def dest: release_limits split: sum.splits)

lemma transaction_release_limits:
  "transaction_release tx reg = (r, tx', reg') \<Longrightarrow> reg_limits reg' = reg_limits reg"
  by (auto simp: transaction_release_def registry_release_def rbind_Inr Let_def dest!: release_limits
      split: if_splits sum.splits)

lemma limits_step: "tx_step s s' \<Longrightarrow> reg_limits (sys_registry s') = reg_limits (sys_registry s)"
proof (induction rule: tx_step.induct)
  case (started n owner reg tx reg' live)
  then show ?case by (auto simp: transaction_begin_def rbind_Inr dest!: registry_acquire_Inr)
next
  case (mutated tx reg key v r tx' reg' pre post)
  then show ?case by (simp add: replace_limits)
next
  case (rolled_back tx reg r reg' pre post)
  then show ?case
    by (auto simp: rollback_def drop_limits dest: transaction_release_limits split: prod.splits sum.splits)
next
  case (dropped tx reg reg' pre post)
  then show ?case by (auto simp: drop_limits)
next
  case (finished tx reg r tx' reg' pre post)
  then show ?case by (auto simp: drop_limits dest: transaction_release_limits)
qed

text \<open>
  (C37) The registry accounts exactly for the live transactions, however they interleave: the
  pinned sequences are those of the live transactions, so that no snapshot still in use can
  be collected and none is pinned by a finished transaction; the active count and the owned
  bytes are their number and their sum, and stay within the configured limits.
\<close>

theorem registry_accounts_live:
  assumes "tx_step\<^sup>*\<^sup>* \<lparr>sys_registry = registry_new limits, sys_live = []\<rparr> s"
  shows "\<exists>seqs. registry_sequences (sys_registry s) = Inr seqs
      \<and> set seqs = tx_snapshot ` set (sys_live s) \<and> sorted_wrt (<) seqs
    \<and> registry_ownership (sys_registry s)
        = Inr (length (sys_live s), sum_list (map tx_buffered_bytes (sys_live s)))
    \<and> reg_limits (sys_registry s) = limits
    \<and> length (sys_live s) \<le> tl_active limits
    \<and> sum_list (map tx_buffered_bytes (sys_live s)) \<le> tl_buffered_bytes limits"
proof -
  have "sys_inv s \<and> reg_limits (sys_registry s) = limits"
    using assms
  proof (induction rule: rtranclp_induct)
    case base
    show ?case by (simp add: sys_inv_def registry_new_def pin_count_def fun_eq_iff)
  next
    case (step s s')
    then show ?case using sys_inv_step [OF step(2)] limits_step [OF step(2)] by simp
  qed
  then have inv: "sys_inv s" and lim: "reg_limits (sys_registry s) = limits" by auto
  have "n \<in> set (map fst (reg_pins (sys_registry s))) \<longleftrightarrow> n \<in> tx_snapshot ` set (sys_live s)" for n
  proof -
    have "n \<in> set (map fst (reg_pins (sys_registry s))) \<longleftrightarrow> pin_count (sys_live s) n \<noteq> None"
      using inv map_of_eq_None_iff [of "reg_pins (sys_registry s)" n] by (simp add: sys_inv_def)
    then show ?thesis by (auto simp: pin_count_def Let_def count_list_0_iff split: if_splits)
  qed
  then show ?thesis
    using inv lim by (auto simp: sys_inv_def registry_sequences_def registry_ownership_def registry_lock_def)
qed

theorem registry_accounts_live_witness:
  "\<exists>s seqs. tx_step\<^sup>*\<^sup>* \<lparr>sys_registry = registry_new transaction_limits_default, sys_live = []\<rparr> s
     \<and> length (sys_live s) = 1 \<and> registry_sequences (sys_registry s) = Inr seqs \<and> set seqs = {7}"
proof -
  let ?tx = "\<lparr>tx_snapshot = 7, tx_writes = [], tx_write_size = write_batch_size_default,
    tx_buffered_bytes = 0, tx_owner = 0, tx_released = False\<rparr>"
  let ?reg = "(registry_new transaction_limits_default)\<lparr>reg_pins := [(7, 1)], reg_active := 1\<rparr>"
  have "transaction_begin 7 0 (registry_new transaction_limits_default) = Inr (?tx, ?reg)"
    by (simp add: transaction_begin_def registry_acquire_def registry_lock_def registry_new_def
        transaction_limits_default_def checked_add_def rrf_consts)
  then have "tx_step\<^sup>*\<^sup>* \<lparr>sys_registry = registry_new transaction_limits_default, sys_live = []\<rparr>
      \<lparr>sys_registry = ?reg, sys_live = [?tx]\<rparr>"
    using tx_step.started by blast
  from this registry_accounts_live [OF this] show ?thesis by fastforce
qed

section \<open>Overlay reads\<close>

text \<open>The rows of a snapshot with pending puts and deletes laid over them.\<close>

fun overlay :: "(bytes \<times> bytes) list \<Rightarrow> (bytes \<times> bytes option) list \<Rightarrow> (bytes \<times> bytes) list" where
  "overlay base [] = base"
| "overlay [] ((k, p) # pending) = (case p of Some v \<Rightarrow> [(k, v)] | None \<Rightarrow> []) @ overlay [] pending"
| "overlay ((a, w) # base) ((k, p) # pending) =
     (if a < k then (a, w) # overlay base ((k, p) # pending)
      else (case p of Some v \<Rightarrow> [(k, v)] | None \<Rightarrow> [])
        @ overlay (if a = k then base else (a, w) # base) pending)"

lemma overlay_key: "e \<in> set (overlay base pending) \<Longrightarrow> fst e \<in> fst ` set base \<union> fst ` set pending"
  by (induction base pending rule: overlay.induct) (auto split: option.splits if_splits)

lemma overlay_above:
  assumes "\<forall>e \<in> set base. k < fst e" and "\<forall>e \<in> set pending. k < fst e"
  shows "\<forall>e \<in> set (overlay base pending). k < fst e"
  using assms overlay_key by fastforce

lemma overlay_sorted: "key_sorted base \<Longrightarrow> key_sorted pending \<Longrightarrow> key_sorted (overlay base pending)"
proof (induction base pending rule: overlay.induct)
  case (2 k p pending)
  have "\<forall>e \<in> set (overlay [] pending). k < fst e"
    using "2.prems"(2) by (intro overlay_above) auto
  with 2 show ?case by (auto split: option.splits)
next
  case (3 a w base k p pending)
  show ?case
  proof (cases "a < k")
    case True
    have "\<forall>e \<in> set (overlay base ((k, p) # pending)). a < fst e"
      using "3.prems" True by (intro overlay_above) (auto dest: less_trans)
    with 3 True show ?thesis by simp
  next
    case False
    have "\<forall>e \<in> set (overlay (if a = k then base else (a, w) # base) pending). k < fst e"
      using "3.prems" False by (intro overlay_above) (auto dest: less_trans)
    with 3 False show ?thesis by (auto split: option.splits if_splits)
  qed
qed simp

lemma map_of_below: "key_sorted m \<Longrightarrow> \<forall>e \<in> set m. k < fst e \<Longrightarrow> map_of m k = None"
  by (auto simp: map_of_eq_None_iff)

lemma overlay_get:
  "key_sorted base \<Longrightarrow> key_sorted pending \<Longrightarrow>
   map_of (overlay base pending) x = (case map_of pending x of Some p \<Rightarrow> p | None \<Rightarrow> map_of base x)"
proof (induction base pending rule: overlay.induct)
  case (2 k p pending)
  have "map_of pending k = None" using "2.prems" by (auto intro!: map_of_below)
  with 2 show ?case by (auto split: option.splits)
next
  case (3 a w base k p pending)
  have pk: "map_of pending k = None" using "3.prems" by (auto intro!: map_of_below)
  show ?case
  proof (cases "a < k")
    case True
    then have "map_of ((k, p) # pending) a = None" using "3.prems" by (intro map_of_below) auto
    with 3 True show ?thesis by (auto split: option.splits)
  next
    case False
    have "map_of base k = None" using "3.prems" False by (intro map_of_below) auto
    with 3 False pk show ?thesis by (auto split: option.splits if_splits)
  qed
qed (simp split: option.splits)

lemma output_push_Inr:
  assumes "output_push out k v = Inr out'"
  shows "out_rows out' = out_rows out @ [(k, v)] \<and> out_limit out' = out_limit out"
  using assms unfolding output_push_def by (auto simp: rbind_Inr)

lemma output_push_opt:
  assumes "(case p of Some v \<Rightarrow> output_push out k v | None \<Rightarrow> Inr out) = Inr out'"
  shows "out_rows out' = out_rows out @ (case p of Some v \<Rightarrow> [(k, v)] | None \<Rightarrow> [])
    \<and> out_limit out' = out_limit out"
  using assms output_push_Inr by (auto split: option.splits)

lemma take_after:
  "length rs + length xs \<le> n \<Longrightarrow>
   (rs @ xs) @ take (n - length (rs @ xs)) ys = rs @ take (n - length rs) (xs @ ys)"
  by simp

lemma merge_rows_overlay:
  "merge_rows (map Inr base) pending out = Inr out' \<Longrightarrow>
   out_rows out' = out_rows out @ take (out_limit out - length (out_rows out)) (overlay base pending)"
proof (induction "length base + length pending" arbitrary: base pending out rule: less_induct)
  case less
  let ?opt = "\<lambda>k p. case p of Some v \<Rightarrow> [(k, v)] | None \<Rightarrow> []"
  have small: "length (?opt k p) \<le> 1" for k :: bytes and p :: "bytes option" by (cases p) auto
  note run = trans [OF merge_rows.simps [symmetric] less.prems]
  show ?case
  proof (cases "length (out_rows out) < out_limit out")
    case True
    have step: ?thesis
      if "out_rows out1 = out_rows out @ xs" "out_limit out1 = out_limit out" "length xs \<le> 1"
        "merge_rows (map Inr base') pending' out1 = Inr out'" "overlay base pending = xs @ overlay base' pending'"
        "length base' + length pending' < length base + length pending" for out1 xs base' pending'
      using less.hyps [OF that(6) that(4)] that(1-3,5) True
        take_after [of "out_rows out" xs "out_limit out" "overlay base' pending'"] by simp
    show ?thesis
    proof (cases pending)
      case Nil
      show ?thesis
      proof (cases base)
        case (Cons row rest)
        obtain a w where row: "row = (a, w)" by (cases row)
        obtain out1 where "output_push out a w = Inr out1" "merge_rows (map Inr rest) [] out1 = Inr out'"
          using run True by (auto simp: Nil Cons row rbind_Inr)
        then show ?thesis
          using step [of out1 "[(a, w)]" rest "[]"] output_push_Inr by (simp add: Nil Cons row)
      qed (use run True Nil in simp)
    next
      case (Cons e pend)
      obtain k p where e: "e = (k, p)" by (cases e)
      show ?thesis
      proof (cases base)
        case Nil
        obtain out1 where "(case p of Some v \<Rightarrow> output_push out k v | None \<Rightarrow> Inr out) = Inr out1"
          "merge_rows [] pend out1 = Inr out'"
          using run True by (auto simp: Nil Cons e rbind_Inr)
        then show ?thesis
          using step [of out1 "?opt k p" "[]" pend] output_push_opt [where p = p and out = out and k = k and out' = out1] small [of k p]
          by (simp add: Nil Cons e)
      next
        case base: (Cons row rest)
        obtain a w where row: "row = (a, w)" by (cases row)
        show ?thesis
        proof (cases "a < k")
          case True
          obtain out1 where "output_push out a w = Inr out1" "merge_rows (map Inr rest) pending out1 = Inr out'"
            using run \<open>length (out_rows out) < out_limit out\<close> True
            by (auto simp: Cons base e row rbind_Inr)
          then show ?thesis
            using step [of out1 "[(a, w)]" rest pending] output_push_Inr [of out a w out1] True
            by (simp add: Cons base e row)
        next
          case False
          let ?base' = "if a = k then rest else base"
          obtain out1 where "(case p of Some v \<Rightarrow> output_push out k v | None \<Rightarrow> Inr out) = Inr out1"
            "merge_rows (map Inr ?base') pend out1 = Inr out'"
            using run \<open>length (out_rows out) < out_limit out\<close> False
            by (auto simp: Cons base e row rbind_Inr split: if_splits)
          then show ?thesis
            using step [of out1 "?opt k p" ?base' pend] output_push_opt [where p = p and out = out and k = k and out' = out1] small [of k p] False
            by (simp add: Cons base e row)
        qed
      qed
    qed
  qed (use run in simp)
qed

text \<open>
  (C38) A bounded scan reads the transaction's own writes over its snapshot: when the projected
  read of the range yields the ordered snapshot rows, a scan that succeeds returns the first
  rows, up to the limit, of the ordered overlay, in which a pending put replaces the
  snapshot value, a pending delete hides it, and every other row is the snapshot row.
\<close>

theorem scan_bounded_overlay:
  assumes "tx_inv tx" and "projected_read start stop (tx_snapshot tx) = Inr (map Inr rows)"
    and "key_sorted rows" and "scan_bounded owner_check bytes projected_read tx start stop limit = Inr out"
  shows "\<exists>full. out = take limit full \<and> key_sorted full \<and> (\<forall>k. map_of full k =
      (case map_of (tx_writes tx) k of
         Some e \<Rightarrow> if start \<le> k \<and> k < stop then entry_value e else map_of rows k
       | None \<Rightarrow> map_of rows k))"
proof -
  let ?pending = "map (\<lambda>(key, _, v). (key, map_option vec_data v))
      (bt_range (Included start) (Excluded stop) (tx_writes tx))"
  have pending: "?pending = map (\<lambda>(k, e). (k, entry_value e)) (bt_range (Included start) (Excluded stop) (tx_writes tx))"
    by (simp add: case_prod_unfold)
  from assms(2,4) obtain o1 where merge: "merge_rows (map Inr rows) ?pending \<lparr>out_rows = [], out_payload = 0,
      out_bytes = bytes, out_limit = limit, out_capacity = 0\<rparr> = Inr o1" and out: "out = out_rows o1"
    by (auto simp: scan_bounded_def rbind_Inr Let_def)
  have sorted: "key_sorted ?pending"
    unfolding pending using assms(1) by (intro key_sorted_map_snd key_sorted_bt_range) (simp add: tx_inv_def)
  have "map_of ?pending k = (if start \<le> k \<and> k < stop then map_option entry_value (map_of (tx_writes tx) k) else None)" for k
    unfolding pending by (simp add: map_of_map map_of_bt_range)
  then have "\<forall>k. map_of (overlay rows ?pending) k = (case map_of (tx_writes tx) k of
         Some e \<Rightarrow> if start \<le> k \<and> k < stop then entry_value e else map_of rows k
       | None \<Rightarrow> map_of rows k)"
    unfolding overlay_get [OF assms(3) sorted] by (simp split: option.splits)
  moreover have "out = take limit (overlay rows ?pending)"
    using merge_rows_overlay [OF merge] out by simp
  ultimately show ?thesis using overlay_sorted [OF assms(3) sorted] by blast
qed

theorem scan_bounded_overlay_witness:
  "\<exists>tx out. tx_writes tx = [([1], 1, None)]
     \<and> scan_bounded (Inr ()) 1000 (\<lambda>_ _ _. Inr (map Inr [([1], [5]), ([2], [6])])) tx [1] [3] 9 = Inr out
     \<and> (\<exists>full. out = take 9 full \<and> map_of full [1] = None)"
proof -
  let ?tx = "\<lparr>tx_snapshot = 7, tx_writes = [([1], 1, None)],
    tx_write_size = \<lparr>wbs_operations = 1, wbs_encoded_bytes = 25\<rparr>,
    tx_buffered_bytes = 97, tx_owner = 0, tx_released = False\<rparr>"
  have inv: "tx_inv ?tx"
    by (simp add: tx_inv_def bt_sum_def op_size_def entry_charge_def rrf_consts)
  have run: "scan_bounded (Inr ()) 1000 (\<lambda>_ _ _. Inr (map Inr [([1], [5]), ([2], [6])])) ?tx [1] [3] 9 = Inr [([2], [6])]"
    by (simp add: scan_bounded_def scan_range_check_def validate_key_def bt_range_def merge_rows.simps
        output_push_def output_admit_def output_grow_def checked_add_def checked_mul_def saturating_mul_def Let_def fail_if_def rrf_consts)
  have "key_sorted [([1], [5 :: byte]), ([2 :: byte], [6])]" by simp
  from scan_bounded_overlay [OF inv refl this run] obtain full :: "(bytes \<times> bytes) list"
    where "[([2], [6])] = take 9 full" "map_of full [1] = None" by auto
  with run show ?thesis by (intro exI [of _ ?tx] exI [of _ "[([2], [6])]"]) auto
qed

text \<open>The capacity computed before a reservation is never below the rows already there.\<close>

lemma output_admit_Inr:
  assumes "output_admit out k v = Inr payload"
  shows "(length (out_rows out) + 1) * ROW_BYTES + payload \<le> out_bytes out"
    and "(length (out_rows out) + 1) * ROW_BYTES \<le> u64_max"
  using assms unfolding output_admit_def rbind_Inr ok_or_Inr bind_eq_Some_conv fail_if_Inr checked_add_Some
    checked_mul_Some by auto

lemma output_admit_panic: "output_admit out k v \<noteq> Inl (Panic msg)"
  unfolding output_admit_def by (simp add: rbind_Inl ok_or_Inl fail_if_Inl)

lemma output_grow_safe:
  assumes "length (out_rows out) \<le> out_capacity out" and "length (out_rows out) < out_limit out"
    and "output_admit out k v = Inr payload"
  shows "\<exists>capacity. output_grow out payload = Inr capacity \<and> length (out_rows out) + 1 \<le> capacity"
proof -
  define n where "n = length (out_rows out)"
  note admit = output_admit_Inr [OF assms(3), folded n_def]
  have "(n + 1) * ROW_BYTES \<le> out_bytes out - payload" using admit(1) by linarith
  then have "n + 1 \<le> (out_bytes out - payload) div ROW_BYTES"
    unfolding ROW_BYTES_def by (simp add: less_eq_div_iff_mult_less_eq)
  moreover have "n + 1 \<le> max (saturating_mul n 2) 4"
    using admit(2) by (auto simp: saturating_mul_def rrf_consts)
  ultimately have "n + 1 \<le> min (min (max (saturating_mul n 2) 4) (out_limit out))
                            ((out_bytes out - payload) div ROW_BYTES)" (is "_ \<le> ?grown")
    using assms(2) by (simp add: n_def)
  then have "\<not> ?grown < n" by linarith
  then have "fail_if (?grown < n) (Panic ''attempt to subtract with overflow'') = Inr ()"
    by (simp only: fail_if_def if_False)
  with \<open>n + 1 \<le> ?grown\<close> assms(1) show ?thesis
    unfolding output_grow_def Let_def n_def [symmetric] by (auto simp: n_def)
qed

lemma output_push_safe:
  assumes "length (out_rows out) \<le> out_capacity out" and "length (out_rows out) < out_limit out"
  shows "output_push out k v \<noteq> Inl (Panic msg)"
    and "output_push out k v = Inr out' \<Longrightarrow> length (out_rows out') \<le> out_capacity out'"
  using output_grow_safe [OF assms, of k v] output_admit_panic [of out k v msg]
  unfolding output_push_def by (auto simp: rbind_Inl rbind_Inr ok_or_Inl fail_if_Inl)

text \<open>
  The bounded scan never panics: over readable snapshot rows the merge either returns or
  fails with an error of its contract, and its capacity arithmetic never underflows.
\<close>

lemma merge_rows_never_panics:
  assumes "length (out_rows out) \<le> out_capacity out"
  shows "merge_rows (map Inr base) pending out \<noteq> Inl (Panic msg)"
  using assms
proof (induction "length base + length pending" arbitrary: base pending out rule: less_induct)
  case less
  have push: False if "rbind (output_push out k v) f = Inl (Panic msg)" "length (out_rows out) < out_limit out"
    "\<And>out'. length (out_rows out') \<le> out_capacity out' \<Longrightarrow> f out' \<noteq> Inl (Panic msg)" for k v f
    using that output_push_safe [OF less.prems that(2), of k v] by (auto simp: rbind_Inl)
  have opt: False if "rbind (case p of Some v \<Rightarrow> output_push out k v | None \<Rightarrow> Inr out) f = Inl (Panic msg)"
    "length (out_rows out) < out_limit out"
    "\<And>out'. length (out_rows out') \<le> out_capacity out' \<Longrightarrow> f out' \<noteq> Inl (Panic msg)" for p k f
    using that push [of k _ f] less.prems by (auto split: option.splits)
  show ?case
  proof
    assume "merge_rows (map Inr base) pending out = Inl (Panic msg)"
    note run = trans [OF merge_rows.simps [symmetric] this]
    show False
    proof (cases base)
      case Nil
      show ?thesis
        using run less.hyps [of "[]"] Nil
        by (cases pending) (auto split: if_splits elim!: opt)
    next
      case (Cons row rest)
      obtain a w where row: "row = (a, w)" by (cases row)
      show ?thesis
        using run less.hyps less.hyps [of "(a, w) # rest" "tl pending"] Cons row
        by (cases pending) (auto split: if_splits elim!: opt push)
    qed
  qed
qed

end
