(* ===== verification/Segment_Filter.thy ===== *)
theory Segment_Filter
  imports Lsm_Error
begin

text \<open>
  The Bloom filter of a row group (\<open>RowGroupFilter\<close> of \<open>rrd-lsm/src/segment/format.rs\<close>): a
  vector of 64-bit words, seven probe positions per key from two seeded hashes with wrapping
  arithmetic. Readers skip a row group when the filter excludes the key, so what matters is
  that a filter never excludes a key that was inserted.
\<close>

unbundle bit_operations_syntax

definition FILTER_BITS_PER_KEY :: nat where [rrf_consts]: "FILTER_BITS_PER_KEY = 10"
definition FILTER_HASH_FUNCTIONS :: nat where [rrf_consts]: "FILTER_HASH_FUNCTIONS = 7"

type_synonym row_group_filter = "64 word list"

definition filter_word_count :: "nat \<Rightarrow> nat res" where
  "filter_word_count unique_key_count =
     rbind (fail_if (unique_key_count = 0)
              (InvalidSegment ''v6 row-group filter has no unique keys'')) (\<lambda>_.
     rbind (ok_or (InvalidSegment ''v6 row-group filter size overflow'')
              (checked_mul unique_key_count FILTER_BITS_PER_KEY)) (\<lambda>bits.
     Inr ((max bits 64 + 63) div 64)))"

definition filter_new :: "nat \<Rightarrow> row_group_filter res" where
  "filter_new unique_key_count =
     rbind (filter_word_count unique_key_count) (\<lambda>word_count. Inr (replicate word_count 0))"

definition filter_from_words :: "nat \<Rightarrow> 64 word list \<Rightarrow> row_group_filter res" where
  "filter_from_words unique_key_count words =
     rbind (filter_word_count unique_key_count) (\<lambda>expected.
     rbind (fail_if (length words \<noteq> expected)
              (InvalidSegment ''v6 row-group filter word count is noncanonical'')) (\<lambda>_.
     Inr words))"

definition hash_byte :: "64 word \<Rightarrow> byte \<Rightarrow> 64 word" where
  "hash_byte hash b = (hash XOR ucast b) * 0x00000100000001b3"

definition filter_hash :: "bytes \<Rightarrow> 64 word \<Rightarrow> 64 word" where
  "filter_hash key seed =
     (let hash = foldl hash_byte seed key;
          hash = hash XOR drop_bit 33 hash;
          hash = hash * 0xff51afd7ed558ccd;
          hash = hash XOR drop_bit 33 hash;
          hash = hash * 0xc4ceb9fe1a85ec53 in
      hash XOR drop_bit 33 hash)"

definition filter_positions :: "row_group_filter \<Rightarrow> bytes \<Rightarrow> nat list" where
  "filter_positions words key =
     (let bit_count = length words * 64;
          first = filter_hash key 0xcbf29ce484222325;
          second = filter_hash key 0x9e3779b97f4a7c15 OR 1 in
      map (\<lambda>index. unat (first + word_of_nat index * second) mod bit_count)
        [0..<FILTER_HASH_FUNCTIONS])"

definition set_filter_bit :: "row_group_filter \<Rightarrow> nat \<Rightarrow> row_group_filter" where
  "set_filter_bit words position =
     words[position div 64 := words ! (position div 64) OR push_bit (position mod 64) 1]"

definition filter_insert :: "row_group_filter \<Rightarrow> bytes \<Rightarrow> row_group_filter" where
  "filter_insert words key = foldl set_filter_bit words (filter_positions words key)"

definition test_filter_bit :: "row_group_filter \<Rightarrow> nat \<Rightarrow> bool" where
  "test_filter_bit words position \<longleftrightarrow>
     (words ! (position div 64)) AND push_bit (position mod 64) 1 \<noteq> 0"

definition may_contain :: "row_group_filter \<Rightarrow> bytes \<Rightarrow> bool" where
  "may_contain words key \<longleftrightarrow> (\<forall>position \<in> set (filter_positions words key). test_filter_bit words position)"

section \<open>A filter never excludes an inserted key\<close>

lemma length_set_filter_bit [simp]: "length (set_filter_bit ws b) = length ws"
  by (simp add: set_filter_bit_def)

lemma length_filter_bits [simp]: "length (foldl set_filter_bit ws bs) = length ws"
  by (induction bs arbitrary: ws) auto

lemma length_filter_insert [simp]: "length (filter_insert ws k) = length ws"
  by (simp add: filter_insert_def)

lemma filter_positions_cong: "length ws = length ws' \<Longrightarrow> filter_positions ws k = filter_positions ws' k"
  by (simp add: filter_positions_def)

lemma filter_positions_bound: "b \<in> set (filter_positions ws k) \<Longrightarrow> ws \<noteq> [] \<Longrightarrow> b div 64 < length ws"
  by (auto simp: filter_positions_def Let_def less_mult_imp_div_less)

lemma test_filter_bit_iff: "test_filter_bit ws b \<longleftrightarrow> bit (ws ! (b div 64)) (b mod 64)"
  by (simp add: test_filter_bit_def push_bit_eq_mult and_exp_eq_0_iff_not_bit)

lemma test_set_filter_bit:
  assumes "b div 64 < length ws"
  shows "test_filter_bit (set_filter_bit ws b) c \<longleftrightarrow> c = b \<or> test_filter_bit ws c"
proof (cases "c div 64 = b div 64")
  case True
  have "c = b \<longleftrightarrow> c mod 64 = b mod 64"
    using True mult_div_mod_eq [of 64 c] mult_div_mod_eq [of 64 b] by metis
  with True assms show ?thesis
    by (auto simp: test_filter_bit_iff set_filter_bit_def bit_simps)
next
  case False
  then have "c \<noteq> b" by auto
  with False show ?thesis by (simp add: test_filter_bit_iff set_filter_bit_def)
qed

lemma test_filter_bits:
  assumes "\<forall>b \<in> set bs. b div 64 < length ws"
  shows "test_filter_bit (foldl set_filter_bit ws bs) c \<longleftrightarrow> c \<in> set bs \<or> test_filter_bit ws c"
  using assms
proof (induction bs arbitrary: ws)
  case (Cons b bs)
  then show ?case by (auto simp: test_set_filter_bit)
qed simp

lemma may_contain_insert:
  assumes "ws \<noteq> []"
  shows "may_contain (filter_insert ws k) k"
    and "may_contain ws k' \<Longrightarrow> may_contain (filter_insert ws k) k'"
proof -
  have pos: "filter_positions (filter_insert ws k) k' = filter_positions ws k'" for k'
    by (rule filter_positions_cong) simp
  have "test_filter_bit (filter_insert ws k) c \<longleftrightarrow> c \<in> set (filter_positions ws k) \<or> test_filter_bit ws c"
    for c
    unfolding filter_insert_def using filter_positions_bound assms by (intro test_filter_bits) blast
  then show "may_contain (filter_insert ws k) k"
    and "may_contain ws k' \<Longrightarrow> may_contain (filter_insert ws k) k'"
    unfolding may_contain_def pos by auto
qed

lemma filter_word_count_pos: "filter_word_count n = Inr c \<Longrightarrow> 0 < c"
  by (auto simp: filter_word_count_def rrf_res simp del: rbind_simps)

lemma filter_new_nonempty: "filter_new n = Inr ws \<Longrightarrow> ws \<noteq> []"
  using filter_word_count_pos by (fastforce simp: filter_new_def rrf_res simp del: rbind_simps)

lemma may_contain_fold:
  assumes "ws \<noteq> []" and "k \<in> set ks \<or> may_contain ws k"
  shows "may_contain (foldl filter_insert ws ks) k"
  using assms
proof (induction ks arbitrary: ws)
  case (Cons x ks)
  have "filter_insert ws x \<noteq> []"
    using Cons.prems(1) length_filter_insert [of ws x] by (metis length_0_conv)
  moreover have "k \<in> set ks \<or> may_contain (filter_insert ws x) k"
    using Cons.prems may_contain_insert [of ws] by auto
  ultimately show ?case using Cons.IH by simp
qed simp

text \<open>
  (C33) A row-group filter has no false negatives: whatever keys were inserted into a new filter,
  a probe for any of them answers that the row group may contain it.
\<close>

theorem filter_no_false_negative:
  assumes "filter_new unique_key_count = Inr words" and "key \<in> set keys"
  shows "may_contain (foldl filter_insert words keys) key"
  by (rule may_contain_fold) (use assms filter_new_nonempty in auto)

theorem filter_no_false_negative_witness:
  "filter_new 2 = Inr [0] \<and> may_contain (foldl filter_insert [0] [[1], [2, 3]]) [2, 3]"
proof -
  have new: "filter_new 2 = Inr [0]"
    by (simp add: filter_new_def filter_word_count_def checked_mul_def rrf_consts)
  moreover have "may_contain (foldl filter_insert [0] [[1], [2, 3]]) [2, 3]"
    by (rule filter_no_false_negative [OF new]) simp
  ultimately show ?thesis ..
qed

end
