(* ===== verification/Segment_Format.thy ===== *)
theory Segment_Format
  imports Segment_Filter Memtable
begin

text \<open>
  The byte format of immutable segments (\<open>rrd-lsm/src/segment/format.rs\<close>): a 256-byte header,
  64-byte aligned pages (six per row group), an index with one entry per row group, and a
  64-byte footer with the hexadecimal SHA-256 digest of everything before it. \<open>encode_versions\<close>
  writes it, \<open>parse_metadata\<close> reads and checks header and index.

  SHA-256 (\<open>ring\<close>) and LZ4 (\<open>lz4_flex\<close>) are third-party code: the record \<open>codec\<close> holds them
  and every definition that uses them takes it as argument. Failing allocations, the write
  evidence counters and the counts of bytes read, which only feed trace lines, are left out.
\<close>

section \<open>Constants\<close>

definition SEGMENT_FORMAT_VERSION :: nat where [rrf_consts]: "SEGMENT_FORMAT_VERSION = 6"
definition SEGMENT_MAGIC :: bytes where "SEGMENT_MAGIC = str_bytes ''RRDSEG06''"
definition INDEX_MAGIC :: bytes where "INDEX_MAGIC = str_bytes ''RRDIX006''"
definition PAGE_ALIGNMENT :: nat where [rrf_consts]: "PAGE_ALIGNMENT = 64"
definition SEGMENT_HEADER_BYTES :: nat where [rrf_consts]: "SEGMENT_HEADER_BYTES = 256"
definition INDEX_HEADER_BYTES :: nat where [rrf_consts]: "INDEX_HEADER_BYTES = 32"
definition ROW_GROUP_HEADER_BYTES :: nat where [rrf_consts]: "ROW_GROUP_HEADER_BYTES = 32"
definition PAGE_DESCRIPTOR_BYTES :: nat where [rrf_consts]: "PAGE_DESCRIPTOR_BYTES = 96"
definition PAGES_PER_ROW_GROUP :: nat where [rrf_consts]: "PAGES_PER_ROW_GROUP = 6"
definition FOOTER_BYTES :: nat where [rrf_consts]: "FOOTER_BYTES = 64"
definition MAX_SEGMENT_BYTES :: nat where [rrf_consts]: "MAX_SEGMENT_BYTES = 1073741824"
definition MAX_INDEX_BYTES :: nat where [rrf_consts]: "MAX_INDEX_BYTES = 67108864"
definition SEGMENT_MAX_KEY_BYTES :: nat where [rrf_consts]: "SEGMENT_MAX_KEY_BYTES = 1048576"
definition SEGMENT_MAX_VALUE_BYTES :: nat where [rrf_consts]: "SEGMENT_MAX_VALUE_BYTES = 8388608"
definition COMPRESSION_BASIS_POINTS :: nat where [rrf_consts]: "COMPRESSION_BASIS_POINTS = 10000"
definition FILTER_FORMAT_VERSION :: nat where [rrf_consts]: "FILTER_FORMAT_VERSION = 1"

definition SEGMENT_SCHEMA_DIGEST :: string where
  "SEGMENT_SCHEMA_DIGEST = ''7f9ffd70086074178df404606f44560f7d04546ff21ae49e802935563e5c8861''"
definition SEGMENT_KEY_CODEC_DIGEST :: string where
  "SEGMENT_KEY_CODEC_DIGEST = ''542c8fdcc2419e2b8de3b54d85e4d1fc168d4c8705acceaa1b196883a20938da''"
definition SEGMENT_PAGE_FORMAT_DIGEST :: string where
  "SEGMENT_PAGE_FORMAT_DIGEST = ''250248477e88f988e5b8a5eecbb5e71a31fd57dabab9dd42d24e1bd58982a20d''"

definition i64_max :: nat where [rrf_consts]: "i64_max = 9223372036854775807"

record codec =
  sha256 :: "bytes \<Rightarrow> bytes"
  lz4_compress :: "bytes \<Rightarrow> bytes res"
  lz4_decompress :: "bytes \<Rightarrow> nat \<Rightarrow> bytes res"

section \<open>Policies and budgets\<close>

datatype segment_compression_policy = PolicyNone | AdaptiveLz4 nat nat

definition compression_policy_validate :: "segment_compression_policy \<Rightarrow> segment_compression_policy res" where
  "compression_policy_validate policy =
     (case policy of
        PolicyNone \<Rightarrow> Inr policy
      | AdaptiveLz4 savings page_limit \<Rightarrow>
          if 1 \<le> savings \<and> savings < COMPRESSION_BASIS_POINTS \<and> 1 \<le> page_limit \<and> page_limit \<le> MAX_SEGMENT_BYTES
          then Inr policy
          else Inl (InvalidConfiguration ''adaptive LZ4 savings must be 1..=9999 basis points and the logical page limit must be 1 byte..=1 GiB''))"

record segment_row_group_budget =
  gb_max_rows :: nat
  gb_target_bytes :: nat

definition row_group_budget_validate :: "segment_row_group_budget \<Rightarrow> segment_row_group_budget res" where
  "row_group_budget_validate budget =
     rbind (fail_if (gb_max_rows budget = 0 \<or> gb_max_rows budget > u32_max \<or> gb_target_bytes budget = 0
                     \<or> gb_target_bytes budget > MAX_SEGMENT_BYTES)
              (InvalidConfiguration ''segment row-group target bytes must fit within the segment limit and max rows must fit u32; both must be non-zero'')) (\<lambda>_.
     Inr budget)"

section \<open>Pages\<close>

datatype page_compression = PageNone | Lz4Block

fun page_compression_byte :: "page_compression \<Rightarrow> nat" where
  "page_compression_byte PageNone = 0"
| "page_compression_byte Lz4Block = 1"

definition page_compression_from_byte :: "nat \<Rightarrow> page_compression res" where
  "page_compression_from_byte b =
     (if b = 0 then Inr PageNone else if b = 1 then Inr Lz4Block
      else Inl (InvalidSegment ''unknown v6 page compression codec''))"

datatype page_kind = KeyOffsets | KeyData | SequenceValues | ValueValidity | ValueOffsets | ValueData

definition page_kinds_ordered :: "page_kind list" where
  "page_kinds_ordered = [KeyOffsets, KeyData, SequenceValues, ValueValidity, ValueOffsets, ValueData]"

fun page_kind_byte :: "page_kind \<Rightarrow> nat" where
  "page_kind_byte KeyOffsets = 1"
| "page_kind_byte KeyData = 2"
| "page_kind_byte SequenceValues = 3"
| "page_kind_byte ValueValidity = 4"
| "page_kind_byte ValueOffsets = 5"
| "page_kind_byte ValueData = 6"

definition page_kind_from_byte :: "nat \<Rightarrow> page_kind res" where
  "page_kind_from_byte b =
     (if b = 1 then Inr KeyOffsets else if b = 2 then Inr KeyData else if b = 3 then Inr SequenceValues
      else if b = 4 then Inr ValueValidity else if b = 5 then Inr ValueOffsets
      else if b = 6 then Inr ValueData else Inl (InvalidSegment ''unknown v6 page kind''))"

definition page_kind_column :: "page_kind \<Rightarrow> nat" where
  "page_kind_column k = (if k = KeyOffsets \<or> k = KeyData then 1 else if k = SequenceValues then 2 else 3)"

definition page_kind_buffer_kind :: "page_kind \<Rightarrow> nat" where
  "page_kind_buffer_kind k =
     (if k = KeyOffsets \<or> k = ValueOffsets then 2 else if k = ValueValidity then 1 else 3)"

definition page_kind_logical_type :: "page_kind \<Rightarrow> nat" where
  "page_kind_logical_type k = (if k = SequenceValues then 2 else 1)"

definition page_kind_physical_type :: "page_kind \<Rightarrow> nat" where
  "page_kind_physical_type k =
     (if k = KeyOffsets \<or> k = ValueOffsets then 2 else if k = SequenceValues then 3
      else if k = ValueValidity then 1 else 4)"

record page_descriptor =
  pg_kind :: page_kind
  pg_compression :: page_compression
  pg_row_start :: nat
  pg_row_count :: nat
  pg_null_count :: nat
  pg_offset :: nat
  pg_physical_bytes :: nat
  pg_logical_bytes :: nat
  pg_statistic_min :: nat
  pg_statistic_max :: nat
  pg_digest :: bytes

record row_group_descriptor =
  rg_row_start :: nat
  rg_row_count :: nat
  rg_unique_key_count :: nat
  rg_first_key :: bytes
  rg_last_key :: bytes
  rg_pages :: "page_descriptor list"
  rg_filter :: row_group_filter

definition rg_page :: "row_group_descriptor \<Rightarrow> page_kind \<Rightarrow> page_descriptor" where
  "rg_page g kind = rg_pages g ! (page_kind_byte kind - 1)"

record segment_descriptor =
  sd_id :: string
  sd_level :: nat
  sd_format_version :: nat
  sd_schema_digest :: string
  sd_key_codec_digest :: string
  sd_page_format_digest :: string
  sd_first_key :: bytes
  sd_last_key :: bytes
  sd_minimum_sequence :: nat
  sd_maximum_sequence :: nat
  sd_entries :: nat
  sd_bytes :: nat
  sd_checksum :: string

section \<open>Digests as text\<close>

definition HEX :: string where "HEX = ''0123456789abcdef''"

definition encode_digest :: "bytes \<Rightarrow> string" where
  "encode_digest digest = concat (map (\<lambda>b. [HEX ! (unat b div 16), HEX ! (unat b mod 16)]) digest)"

definition hex_nibble :: "nat \<Rightarrow> nat" where
  "hex_nibble b = (if 48 \<le> b \<and> b \<le> 57 then b - 48 else b - 97 + 10)"

fun decode_pairs :: "nat list \<Rightarrow> bytes" where
  "decode_pairs (a # b # rest) = word_of_nat (hex_nibble a * 16 + hex_nibble b) # decode_pairs rest"
| "decode_pairs _ = []"

definition decode_fixed_digest :: "string \<Rightarrow> bytes" where
  "decode_fixed_digest encoded = decode_pairs (map of_char encoded)"

definition sha256_hex :: "codec \<Rightarrow> bytes \<Rightarrow> string" where
  "sha256_hex cx bs = encode_digest (sha256 cx bs)"

section \<open>Building row groups\<close>

record row_group_builder =
  bd_row_start :: nat
  bd_keys :: bytes
  bd_key_offsets :: "nat list"
  bd_sequences :: "nat list"
  bd_value_validity :: bytes
  bd_values :: bytes
  bd_value_offsets :: "nat list"
  bd_first_key :: bytes
  bd_last_key :: bytes
  bd_unique_key_count :: nat
  bd_null_count :: nat
  bd_minimum_key_bytes :: nat
  bd_maximum_key_bytes :: nat
  bd_minimum_value_bytes :: nat
  bd_maximum_value_bytes :: nat

definition builder_new :: "nat \<Rightarrow> row_group_builder" where
  "builder_new row_start = \<lparr>bd_row_start = row_start, bd_keys = [], bd_key_offsets = [0],
     bd_sequences = [], bd_value_validity = [], bd_values = [], bd_value_offsets = [0],
     bd_first_key = [], bd_last_key = [], bd_unique_key_count = 0, bd_null_count = 0,
     bd_minimum_key_bytes = u64_max, bd_maximum_key_bytes = 0,
     bd_minimum_value_bytes = u64_max, bd_maximum_value_bytes = 0\<rparr>"

text \<open>\<open>reset\<close> clears every field, which leaves a new builder.\<close>

definition builder_reset :: "row_group_builder \<Rightarrow> nat \<Rightarrow> row_group_builder" where
  "builder_reset b row_start = b\<lparr>bd_row_start := row_start, bd_keys := [], bd_key_offsets := [0],
     bd_sequences := [], bd_value_validity := [], bd_values := [], bd_value_offsets := [0],
     bd_first_key := [], bd_last_key := [], bd_unique_key_count := 0, bd_null_count := 0,
     bd_minimum_key_bytes := u64_max, bd_maximum_key_bytes := 0,
     bd_minimum_value_bytes := u64_max, bd_maximum_value_bytes := 0\<rparr>"

definition builder_rows :: "row_group_builder \<Rightarrow> nat" where
  "builder_rows b = length (bd_sequences b)"

definition estimated_bytes :: "row_group_builder \<Rightarrow> nat" where
  "estimated_bytes b =
     saturating_add (saturating_add (saturating_add (saturating_add (saturating_add
       (length (bd_keys b)) (length (bd_values b)))
       (saturating_mul (length (bd_key_offsets b)) 8))
       (saturating_mul (length (bd_value_offsets b)) 8))
       (saturating_mul (length (bd_sequences b)) 8))
       ((length (bd_sequences b) + 7) div 8)"

definition validate_key_value :: "bytes \<Rightarrow> bytes \<Rightarrow> unit res" where
  "validate_key_value key v =
     fail_if (key = [] \<or> length key > SEGMENT_MAX_KEY_BYTES \<or> length v > SEGMENT_MAX_VALUE_BYTES)
       (InvalidSegment ''key or value exceeds the v6 segment contract'')"

definition value_or_default :: "versioned_value \<Rightarrow> bytes" where
  "value_or_default v = (case vv_value v of None \<Rightarrow> [] | Some x \<Rightarrow> x)"

definition set_validity :: "bytes \<Rightarrow> nat \<Rightarrow> bool \<Rightarrow> bytes" where
  "set_validity validity row present =
     (let i = row div 8;
          resized = (if length validity \<le> i then validity @ replicate (i + 1 - length validity) 0 else validity) in
      if present then resized[i := resized ! i OR push_bit (row mod 8) 1] else resized)"

definition builder_append :: "row_group_builder \<Rightarrow> bytes \<Rightarrow> versioned_value \<Rightarrow> row_group_builder res" where
  "builder_append b key version =
     rbind (validate_key_value key (value_or_default version)) (\<lambda>_.
     rbind (if bd_last_key b \<noteq> key
            then (if bd_unique_key_count b + 1 \<le> u32_max then Inr (bd_unique_key_count b + 1)
                  else Inl (InvalidSegment ''v6 row-group unique-key count overflow''))
            else Inr (bd_unique_key_count b)) (\<lambda>unique.
     let keys = bd_keys b @ key;
         row = length (bd_sequences b);
         v = value_or_default version;
         vals = bd_values b @ v in
     rbind (fail_if (length keys > i64_max)
              (InvalidSegment ''v6 key page length exceeds signed Arrow offsets'')) (\<lambda>_.
     rbind (fail_if (length vals > i64_max)
              (InvalidSegment ''v6 value page length exceeds signed Arrow offsets'')) (\<lambda>_.
     Inr (b\<lparr>bd_keys := keys, bd_key_offsets := bd_key_offsets b @ [length keys],
           bd_sequences := bd_sequences b @ [vv_sequence version],
           bd_value_validity := set_validity (bd_value_validity b) row (vv_value version \<noteq> None),
           bd_values := vals, bd_value_offsets := bd_value_offsets b @ [length vals],
           bd_first_key := (if bd_first_key b = [] then key else bd_first_key b),
           bd_last_key := key, bd_unique_key_count := unique,
           bd_null_count := (if vv_value version = None then min (bd_null_count b + 1) u32_max
                             else bd_null_count b),
           bd_minimum_key_bytes := min (bd_minimum_key_bytes b) (length key),
           bd_maximum_key_bytes := max (bd_maximum_key_bytes b) (length key),
           bd_minimum_value_bytes := min (bd_minimum_value_bytes b) (length v),
           bd_maximum_value_bytes := max (bd_maximum_value_bytes b) (length v)\<rparr>)))))"

fun windows2 :: "'a list \<Rightarrow> ('a \<times> 'a) list" where
  "windows2 (a # b # rest) = (a, b) # windows2 (b # rest)"
| "windows2 _ = []"

definition filter_step ::
  "bytes \<Rightarrow> row_group_filter \<times> bytes option \<Rightarrow> nat \<times> nat \<Rightarrow> (row_group_filter \<times> bytes option) res" where
  "filter_step keys = (\<lambda>(words, previous) (start, stop).
     rbind (ok_or (InvalidSegment ''v6 key offsets escape key data'') (slice_get keys start stop)) (\<lambda>key.
     if previous \<noteq> Some key then Inr (filter_insert words key, Some key) else Inr (words, previous)))"

definition builder_filter :: "row_group_builder \<Rightarrow> row_group_filter res" where
  "builder_filter b =
     rbind (filter_new (bd_unique_key_count b)) (\<lambda>words.
     rbind (try_fold (filter_step (bd_keys b)) (words, None) (windows2 (bd_key_offsets b))) (\<lambda>(words, _).
     Inr words))"

section \<open>Writing pages and row groups\<close>

definition compression_saves :: "nat \<Rightarrow> nat \<Rightarrow> nat \<Rightarrow> bool res" where
  "compression_saves logical stored minimum_savings =
     (if stored \<ge> logical then Inr False
      else if minimum_savings > COMPRESSION_BASIS_POINTS
      then Inl (InvalidSegment ''v6 compression threshold is invalid'')
      else Inr (stored * COMPRESSION_BASIS_POINTS
                  \<le> logical * (COMPRESSION_BASIS_POINTS - minimum_savings)))"

definition align :: "bytes \<Rightarrow> bytes" where
  "align output = output @ replicate ((PAGE_ALIGNMENT - length output mod PAGE_ALIGNMENT) mod PAGE_ALIGNMENT) 0"

definition compress_page ::
  "codec \<Rightarrow> segment_compression_policy \<Rightarrow> bytes \<Rightarrow> (page_compression \<times> bytes) res" where
  "compress_page cx policy bs =
     (case policy of
        PolicyNone \<Rightarrow> Inr (PageNone, bs)
      | AdaptiveLz4 savings page_limit \<Rightarrow>
          if bs \<noteq> [] \<and> length bs \<le> page_limit then
            rbind (lz4_compress cx bs) (\<lambda>compressed.
            rbind (compression_saves (length bs) (length compressed) savings) (\<lambda>saves.
            Inr (if saves then (Lz4Block, compressed) else (PageNone, bs))))
          else Inr (PageNone, bs))"

definition append_page ::
  "codec \<Rightarrow> segment_compression_policy \<Rightarrow> bytes \<Rightarrow> page_kind \<Rightarrow> nat \<Rightarrow> nat \<Rightarrow> nat \<times> nat \<times> nat \<Rightarrow> bytes
     \<Rightarrow> (bytes \<times> page_descriptor) res" where
  "append_page cx policy output kind row_start row_count = (\<lambda>(null_count, minimum, maximum) bs.
     let output = align output in
     rbind (compress_page cx policy bs) (\<lambda>(compression, stored).
     Inr (output @ stored,
       \<lparr>pg_kind = kind, pg_compression = compression, pg_row_start = row_start,
        pg_row_count = row_count, pg_null_count = null_count, pg_offset = length output,
        pg_physical_bytes = length stored, pg_logical_bytes = length bs,
        pg_statistic_min = minimum, pg_statistic_max = maximum, pg_digest = sha256 cx stored\<rparr>)))"

definition encode_values :: "nat list \<Rightarrow> bytes" where
  "encode_values xs = concat (map (le_bytes 8) xs)"

text \<open>The pages of a builder with their statistics, in the order they are written.\<close>

definition builder_pages :: "row_group_builder \<Rightarrow> (page_kind \<times> (nat \<times> nat \<times> nat) \<times> bytes) list" where
  "builder_pages b =
     [(KeyOffsets, (0, bd_minimum_key_bytes b, bd_maximum_key_bytes b), encode_values (bd_key_offsets b)),
      (KeyData, (0, bd_minimum_key_bytes b, bd_maximum_key_bytes b), bd_keys b),
      (SequenceValues, (0, Min (set (bd_sequences b)), Max (set (bd_sequences b))), encode_values (bd_sequences b)),
      (ValueValidity, (bd_null_count b, 0, 1), bd_value_validity b),
      (ValueOffsets, (bd_null_count b, bd_minimum_value_bytes b, bd_maximum_value_bytes b),
         encode_values (bd_value_offsets b)),
      (ValueData, (bd_null_count b, bd_minimum_value_bytes b, bd_maximum_value_bytes b), bd_values b)]"

definition append_pages ::
  "codec \<Rightarrow> segment_compression_policy \<Rightarrow> nat \<Rightarrow> nat
     \<Rightarrow> bytes \<times> page_descriptor list \<Rightarrow> page_kind \<times> (nat \<times> nat \<times> nat) \<times> bytes
     \<Rightarrow> (bytes \<times> page_descriptor list) res" where
  "append_pages cx policy row_start row_count = (\<lambda>(output, pages) (kind, stats, bs).
     rbind (append_page cx policy output kind row_start row_count stats bs) (\<lambda>(output, page).
     Inr (output, pages @ [page])))"

definition append_row_group ::
  "codec \<Rightarrow> segment_compression_policy \<Rightarrow> row_group_builder \<Rightarrow> bytes \<Rightarrow> (bytes \<times> row_group_descriptor) res" where
  "append_row_group cx policy b output =
     rbind (fail_if (builder_rows b > u32_max)
              (InvalidSegment ''v6 row-group count exceeds u32'')) (\<lambda>_.
     rbind (builder_filter b) (\<lambda>words.
     rbind (try_fold (append_pages cx policy (bd_row_start b) (builder_rows b)) (output, [])
              (builder_pages b)) (\<lambda>(output, pages).
     Inr (output, \<lparr>rg_row_start = bd_row_start b, rg_row_count = builder_rows b,
       rg_unique_key_count = bd_unique_key_count b, rg_first_key = bd_first_key b,
       rg_last_key = bd_last_key b, rg_pages = pages, rg_filter = words\<rparr>))))"

section \<open>Encoding a segment\<close>

definition encode_page_descriptor :: "page_descriptor \<Rightarrow> bytes" where
  "encode_page_descriptor p =
     [word_of_nat (page_kind_byte (pg_kind p)), word_of_nat (page_kind_column (pg_kind p)),
      word_of_nat (page_kind_buffer_kind (pg_kind p)), word_of_nat (page_kind_logical_type (pg_kind p)),
      word_of_nat (page_kind_physical_type (pg_kind p)), 0,
      word_of_nat (page_compression_byte (pg_compression p)), 0]
     @ le_bytes 8 (pg_row_start p) @ le_bytes 4 (pg_row_count p) @ le_bytes 4 (pg_null_count p)
     @ le_bytes 8 (pg_offset p) @ le_bytes 8 (pg_physical_bytes p) @ le_bytes 8 (pg_logical_bytes p)
     @ le_bytes 8 (pg_statistic_min p) @ le_bytes 8 (pg_statistic_max p) @ pg_digest p"

definition encode_row_group :: "row_group_descriptor \<Rightarrow> bytes res" where
  "encode_row_group g =
     rbind (fail_if (length (rg_filter g) > u32_max)
              (InvalidSegment ''v6 filter word count exceeds u32'')) (\<lambda>_.
     Inr (le_bytes 8 (rg_row_start g) @ le_bytes 4 (rg_row_count g)
       @ le_bytes 4 (length (rg_first_key g)) @ le_bytes 4 (length (rg_last_key g))
       @ le_bytes 2 PAGES_PER_ROW_GROUP @ [0, 0] @ le_bytes 4 (rg_unique_key_count g)
       @ le_bytes 4 (length (rg_filter g)) @ rg_first_key g @ rg_last_key g
       @ concat (map encode_page_descriptor (rg_pages g))
       @ concat (map (\<lambda>w. le_bytes 8 (unat w)) (rg_filter g))))"

definition index_header :: "nat \<Rightarrow> bytes" where
  "index_header groups =
     INDEX_MAGIC @ le_bytes 4 groups @ le_bytes 2 PAGES_PER_ROW_GROUP
     @ le_bytes 2 ROW_GROUP_HEADER_BYTES @ le_bytes 2 PAGE_DESCRIPTOR_BYTES
     @ [word_of_nat FILTER_FORMAT_VERSION, word_of_nat FILTER_BITS_PER_KEY, word_of_nat FILTER_HASH_FUNCTIONS]
     @ replicate 11 0"

definition encode_compression_policy :: "segment_compression_policy \<Rightarrow> bytes" where
  "encode_compression_policy policy =
     (case policy of
        PolicyNone \<Rightarrow> [0, 0] @ le_bytes 2 0 @ le_bytes 8 0
      | AdaptiveLz4 savings page_limit \<Rightarrow>
          [1, word_of_nat (page_compression_byte Lz4Block)] @ le_bytes 2 savings @ le_bytes 8 page_limit)"

text \<open>The 256 header bytes, which the encoder fills field by field at fixed offsets.\<close>

definition segment_header ::
  "nat \<Rightarrow> nat \<Rightarrow> nat \<Rightarrow> nat \<Rightarrow> nat \<Rightarrow> nat \<Rightarrow> segment_row_group_budget \<Rightarrow> segment_compression_policy \<Rightarrow> bytes" where
  "segment_header entries minimum_sequence maximum_sequence groups index_offset index_bytes budget policy =
     SEGMENT_MAGIC @ le_bytes 2 SEGMENT_FORMAT_VERSION @ le_bytes 2 SEGMENT_HEADER_BYTES @ le_bytes 4 0
     @ le_bytes 8 entries @ le_bytes 8 minimum_sequence @ le_bytes 8 maximum_sequence
     @ le_bytes 4 groups @ le_bytes 2 PAGES_PER_ROW_GROUP @ le_bytes 2 PAGE_ALIGNMENT
     @ le_bytes 8 index_offset @ le_bytes 8 index_bytes
     @ decode_fixed_digest SEGMENT_SCHEMA_DIGEST @ decode_fixed_digest SEGMENT_KEY_CODEC_DIGEST
     @ decode_fixed_digest SEGMENT_PAGE_FORMAT_DIGEST
     @ le_bytes 8 (gb_target_bytes budget) @ le_bytes 8 (gb_max_rows budget)
     @ encode_compression_policy policy @ replicate 68 0"

definition align_u64 :: "nat \<Rightarrow> nat res" where
  "align_u64 x =
     ok_or (InvalidSegment ''v6 logical alignment overflow'')
       (map_option (\<lambda>y. y div PAGE_ALIGNMENT * PAGE_ALIGNMENT) (checked_add x (PAGE_ALIGNMENT - 1)))"

definition envelope_step :: "nat \<Rightarrow> page_descriptor \<Rightarrow> nat res" where
  "envelope_step cursor page =
     rbind (align_u64 cursor) (\<lambda>cursor.
     ok_or (InvalidSegment ''v6 logical segment length overflow'') (checked_add cursor (pg_logical_bytes page)))"

definition validate_logical_envelope :: "row_group_descriptor list \<Rightarrow> nat \<Rightarrow> unit res" where
  "validate_logical_envelope row_groups index_bytes =
     rbind (try_fold envelope_step SEGMENT_HEADER_BYTES (concat (map rg_pages row_groups))) (\<lambda>cursor.
     rbind (align_u64 cursor) (\<lambda>cursor.
     rbind (ok_or (InvalidSegment ''v6 logical segment envelope overflow'')
              (Option.bind (checked_add cursor index_bytes) (\<lambda>n. checked_add n FOOTER_BYTES))) (\<lambda>cursor.
     fail_if (cursor > MAX_SEGMENT_BYTES)
       (InvalidSegment ''v6 reconstructed logical segment exceeds the 1 GiB safety limit''))))"

definition count_version :: "nat \<times> nat \<times> nat \<Rightarrow> versioned_value \<Rightarrow> (nat \<times> nat \<times> nat) res" where
  "count_version = (\<lambda>(entries, minimum, maximum) version.
     rbind (ok_or (InvalidSegment ''v6 entry count exceeds u64'') (checked_add entries 1)) (\<lambda>entries.
     Inr (entries, min minimum (vv_sequence version), max maximum (vv_sequence version))))"

definition group_estimate :: "bytes \<Rightarrow> nat \<Rightarrow> versioned_value \<Rightarrow> nat res" where
  "group_estimate key acc version =
     rbind (validate_key_value key (value_or_default version)) (\<lambda>_.
     ok_or (InvalidSegment ''v6 row-group estimate overflow'')
       (Option.bind (checked_add acc (length key)) (\<lambda>t.
        Option.bind (checked_add t (length (value_or_default version))) (\<lambda>t. checked_add t 24))))"

type_synonym encoder_state = "bytes \<times> row_group_descriptor list \<times> row_group_builder"

definition flush_row_group ::
  "codec \<Rightarrow> segment_compression_policy \<Rightarrow> encoder_state \<Rightarrow> encoder_state res" where
  "flush_row_group cx policy = (\<lambda>(output, row_groups, current).
     rbind (ok_or (InvalidSegment ''v6 row offset overflow'')
              (checked_add (bd_row_start current) (builder_rows current))) (\<lambda>row_start.
     rbind (append_row_group cx policy current output) (\<lambda>(output, group).
     Inr (output, row_groups @ [group], builder_reset current row_start))))"

definition encode_key ::
  "codec \<Rightarrow> segment_row_group_budget \<Rightarrow> segment_compression_policy
     \<Rightarrow> encoder_state \<Rightarrow> bytes \<times> versioned_value list \<Rightarrow> encoder_state res" where
  "encode_key cx budget policy = (\<lambda>(output, row_groups, current) (key, versions).
     rbind (try_fold (group_estimate key) 0 versions) (\<lambda>key_bytes.
     rbind (if builder_rows current > 0
               \<and> (saturating_add (builder_rows current) (length versions) > gb_max_rows budget
                  \<or> saturating_add (estimated_bytes current) key_bytes > gb_target_bytes budget)
            then flush_row_group cx policy (output, row_groups, current)
            else Inr (output, row_groups, current)) (\<lambda>(output, row_groups, current).
     rbind (try_fold (\<lambda>b version. builder_append b key version) current versions) (\<lambda>current.
     Inr (output, row_groups, current)))))"

record encoded_segment =
  enc_bytes :: bytes
  enc_checksum :: string

definition encode_versions ::
  "codec \<Rightarrow> (bytes \<times> versioned_value list) list \<Rightarrow> segment_row_group_budget
     \<Rightarrow> segment_compression_policy \<Rightarrow> encoded_segment res" where
  "encode_versions cx versions budget policy =
     rbind (row_group_budget_validate budget) (\<lambda>budget.
     rbind (compression_policy_validate policy) (\<lambda>policy.
     rbind (try_fold count_version (0, u64_max, 0) (concat (map snd versions)))
       (\<lambda>(entries, minimum_sequence, maximum_sequence).
     rbind (fail_if (entries = 0) (InvalidSegment ''cannot write an empty segment'')) (\<lambda>_.
     rbind (try_fold (encode_key cx budget policy)
              (replicate SEGMENT_HEADER_BYTES 0, [], builder_new 0) versions) (\<lambda>(output, row_groups, current).
     rbind (if builder_rows current > 0
            then rbind (append_row_group cx policy current output) (\<lambda>(output, group).
                 Inr (output, row_groups @ [group]))
            else Inr (output, row_groups)) (\<lambda>(output, row_groups).
     let output = align output;
         index_offset = length output in
     rbind (try_fold (\<lambda>index g. rbind (encode_row_group g) (\<lambda>e. Inr (index @ e)))
              (index_header (length row_groups)) row_groups) (\<lambda>index.
     rbind (fail_if (length index > MAX_INDEX_BYTES)
              (InvalidSegment ''v6 index exceeds its bounded contract'')) (\<lambda>_.
     rbind (fail_if (length output + length index > MAX_SEGMENT_BYTES - FOOTER_BYTES)
              (InvalidSegment ''encoded v6 segment exceeds the 1 GiB safety limit'')) (\<lambda>_.
     rbind (validate_logical_envelope row_groups (length index)) (\<lambda>_.
     let content = segment_header entries minimum_sequence maximum_sequence (length row_groups)
                     index_offset (length index) budget policy
                   @ drop SEGMENT_HEADER_BYTES output @ index;
         checksum = sha256_hex cx content in
     Inr \<lparr>enc_bytes = content @ str_bytes checksum, enc_checksum = checksum\<rparr>))))))))))"

definition encode_table ::
  "codec \<Rightarrow> memtable \<Rightarrow> segment_row_group_budget \<Rightarrow> segment_compression_policy \<Rightarrow> encoded_segment res" where
  "encode_table cx table budget policy =
     encode_versions cx (map (\<lambda>(key, c). (key, chain_slice c)) (mt_versions table)) budget policy"

section \<open>Parsing header and index\<close>

definition seg_slice :: "bytes \<Rightarrow> nat \<Rightarrow> nat \<Rightarrow> bytes res" where
  "seg_slice bs offset len =
     rbind (ok_or (InvalidSegment ''range overflow'') (checked_add offset len)) (\<lambda>stop.
     ok_or (InvalidSegment ''truncated'') (slice_get bs offset stop))"

definition read_uint :: "nat \<Rightarrow> bytes \<Rightarrow> nat \<Rightarrow> nat res" where
  "read_uint n bs offset = rbind (seg_slice bs offset n) (\<lambda>field. Inr (le_nat field))"

text \<open>A seek followed by \<open>read_exact\<close> on the file image.\<close>

definition read_exact_at :: "bytes \<Rightarrow> nat \<Rightarrow> nat \<Rightarrow> bytes res" where
  "read_exact_at img offset len = ok_or (Io UnexpectedEof) (slice_get img offset (offset + len))"

definition require_current_format :: "bytes \<Rightarrow> unit res" where
  "require_current_format bs =
     rbind (case find (\<lambda>(magic, _). slice_get bs 0 8 = Some magic)
                   [(str_bytes ''RRDSEG01'', 1), (str_bytes ''RRDSEG02'', 2), (str_bytes ''RRDSEG03'', 3),
                    (str_bytes ''RRDSEG04'', 4), (str_bytes ''RRDSEG05'', 5)] of
              Some (_, version) \<Rightarrow> Inl (UnsupportedVersion ''segment'' version)
            | None \<Rightarrow> Inr ()) (\<lambda>_.
     rbind (ok_or (InvalidSegment ''segment has no complete format header'') (slice_get bs 8 10)) (\<lambda>field.
     rbind (fail_if (le_nat field \<noteq> SEGMENT_FORMAT_VERSION)
              (UnsupportedVersion ''segment'' (le_nat field))) (\<lambda>_.
     fail_if (slice_get bs 0 8 \<noteq> Some SEGMENT_MAGIC)
       (InvalidSegment ''segment magic does not match its format version''))))"

definition decode_row_group_budget :: "bytes \<Rightarrow> segment_row_group_budget res" where
  "decode_row_group_budget header =
     rbind (read_uint 8 header 160) (\<lambda>target_bytes.
     rbind (read_uint 8 header 168) (\<lambda>max_rows.
     rbind (fail_if (target_bytes = 0 \<or> target_bytes > MAX_SEGMENT_BYTES \<or> max_rows = 0 \<or> max_rows > u32_max)
              (InvalidSegment ''v6 segment row-group budget is invalid'')) (\<lambda>_.
     Inr \<lparr>gb_max_rows = max_rows, gb_target_bytes = target_bytes\<rparr>)))"

definition decode_compression_policy :: "bytes \<Rightarrow> segment_compression_policy res" where
  "decode_compression_policy header =
     rbind (read_uint 2 header 178) (\<lambda>savings.
     rbind (read_uint 8 header 180) (\<lambda>page_limit.
     let mode = unat (header ! 176); algorithm = unat (header ! 177) in
     if mode = 0 \<and> algorithm = 0 \<and> savings = 0 \<and> page_limit = 0 then Inr PolicyNone
     else if mode = 1 \<and> algorithm = 1 then
       (case compression_policy_validate (AdaptiveLz4 savings page_limit) of
          Inl _ \<Rightarrow> Inl (InvalidSegment ''v6 compression policy is invalid'')
        | Inr policy \<Rightarrow> Inr policy)
     else Inl (InvalidSegment ''v6 compression policy metadata is unknown or noncanonical'')))"

definition validate_page_compression ::
  "segment_compression_policy \<Rightarrow> page_compression \<Rightarrow> nat \<Rightarrow> nat \<Rightarrow> unit res" where
  "validate_page_compression policy compression physical logical =
     (case compression of
        PageNone \<Rightarrow>
          fail_if (physical \<noteq> logical)
            (InvalidSegment ''v6 raw page has different physical and logical lengths'')
      | Lz4Block \<Rightarrow>
          (case policy of
             PolicyNone \<Rightarrow> Inl (InvalidSegment ''v6 none policy cannot contain an LZ4 page'')
           | AdaptiveLz4 savings page_limit \<Rightarrow>
               rbind (if physical > 0 \<and> logical \<le> page_limit
                      then compression_saves logical physical savings else Inr False) (\<lambda>saves.
               fail_if (\<not> saves)
                 (InvalidSegment ''v6 LZ4 page violates its authenticated lengths or saving policy''))))"

definition decode_page_descriptor :: "bytes \<Rightarrow> segment_compression_policy \<Rightarrow> page_descriptor res" where
  "decode_page_descriptor bs policy =
     rbind (page_kind_from_byte (unat (bs ! 0))) (\<lambda>kind.
     rbind (fail_if (unat (bs ! 1) \<noteq> page_kind_column kind \<or> unat (bs ! 2) \<noteq> page_kind_buffer_kind kind
                     \<or> unat (bs ! 3) \<noteq> page_kind_logical_type kind
                     \<or> unat (bs ! 4) \<noteq> page_kind_physical_type kind \<or> bs ! 5 \<noteq> 0 \<or> bs ! 7 \<noteq> 0)
              (InvalidSegment ''v6 page type, encoding, or reserved metadata is unknown'')) (\<lambda>_.
     rbind (page_compression_from_byte (unat (bs ! 6))) (\<lambda>compression.
     rbind (read_uint 8 bs 32) (\<lambda>physical.
     rbind (read_uint 8 bs 40) (\<lambda>logical.
     rbind (validate_page_compression policy compression physical logical) (\<lambda>_.
     rbind (read_uint 8 bs 8) (\<lambda>row_start.
     rbind (read_uint 4 bs 16) (\<lambda>row_count.
     rbind (read_uint 4 bs 20) (\<lambda>null_count.
     rbind (read_uint 8 bs 24) (\<lambda>offset.
     rbind (read_uint 8 bs 48) (\<lambda>statistic_min.
     rbind (read_uint 8 bs 56) (\<lambda>statistic_max.
     Inr \<lparr>pg_kind = kind, pg_compression = compression, pg_row_start = row_start,
       pg_row_count = row_count, pg_null_count = null_count, pg_offset = offset,
       pg_physical_bytes = physical, pg_logical_bytes = logical,
       pg_statistic_min = statistic_min, pg_statistic_max = statistic_max,
       pg_digest = take 32 (drop 64 bs)\<rparr>))))))))))))"

definition validate_page_shapes :: "page_descriptor list \<Rightarrow> nat \<Rightarrow> unit res" where
  "validate_page_shapes pages rows =
     rbind (ok_or (InvalidSegment ''v6 offset page length overflow'')
              (Option.bind (checked_add rows 1) (\<lambda>n. checked_mul n 8))) (\<lambda>expected_offsets.
     fail_if (pg_logical_bytes (pages ! 0) \<noteq> expected_offsets
              \<or> pg_logical_bytes (pages ! 2) \<noteq> saturating_mul rows 8
              \<or> pg_logical_bytes (pages ! 3) \<noteq> (rows + 7) div 8
              \<or> pg_logical_bytes (pages ! 4) \<noteq> expected_offsets
              \<or> (\<exists>page \<in> set pages. pg_null_count page > pg_row_count page)
              \<or> pg_null_count (pages ! 0) \<noteq> 0 \<or> pg_null_count (pages ! 1) \<noteq> 0
              \<or> pg_null_count (pages ! 2) \<noteq> 0
              \<or> pg_null_count (pages ! 3) \<noteq> pg_null_count (pages ! 4)
              \<or> pg_null_count (pages ! 3) \<noteq> pg_null_count (pages ! 5))
       (InvalidSegment ''v6 Arrow-compatible page lengths or null counts are invalid''))"

text \<open>The loop over the six page descriptors of a row group: pages, cursor, end of the last page.\<close>

definition parse_page ::
  "bytes \<Rightarrow> segment_compression_policy \<Rightarrow> nat \<Rightarrow> nat \<Rightarrow> nat
     \<Rightarrow> page_descriptor list \<times> nat \<times> nat \<Rightarrow> page_kind \<Rightarrow> (page_descriptor list \<times> nat \<times> nat) res" where
  "parse_page index policy row_start row_count index_offset = (\<lambda>(pages, cursor, prior_page_end) expected_kind.
     rbind (seg_slice index cursor PAGE_DESCRIPTOR_BYTES) (\<lambda>encoded.
     rbind (decode_page_descriptor encoded policy) (\<lambda>page.
     rbind (fail_if (pg_kind page \<noteq> expected_kind \<or> pg_row_start page \<noteq> row_start
                     \<or> pg_row_count page \<noteq> row_count \<or> pg_offset page mod PAGE_ALIGNMENT \<noteq> 0
                     \<or> pg_offset page < prior_page_end
                     \<or> saturating_sub (pg_offset page) prior_page_end \<ge> PAGE_ALIGNMENT
                     \<or> (case checked_add (pg_offset page) (pg_physical_bytes page) of
                          None \<Rightarrow> True | Some stop \<Rightarrow> stop > index_offset))
              (InvalidSegment ''v6 page descriptor violates ordering or bounds'')) (\<lambda>_.
     Inr (pages @ [page], cursor + PAGE_DESCRIPTOR_BYTES, pg_offset page + pg_physical_bytes page)))))"

fun chunks8 :: "bytes \<Rightarrow> bytes list" where
  "chunks8 (a # b # c # d # e # f # g # h # rest) = [a, b, c, d, e, f, g, h] # chunks8 rest"
| "chunks8 _ = []"

record index_cursor =
  ix_cursor :: nat
  ix_row_groups :: "row_group_descriptor list"
  ix_expected_row_start :: nat
  ix_prior_last_key :: "bytes option"
  ix_prior_page_end :: nat

definition parse_row_group ::
  "bytes \<Rightarrow> segment_compression_policy \<Rightarrow> nat \<Rightarrow> index_cursor \<Rightarrow> index_cursor res" where
  "parse_row_group index policy index_offset st =
     rbind (seg_slice index (ix_cursor st) ROW_GROUP_HEADER_BYTES) (\<lambda>fixed.
     rbind (read_uint 8 fixed 0) (\<lambda>row_start.
     rbind (read_uint 4 fixed 8) (\<lambda>row_count.
     rbind (read_uint 4 fixed 12) (\<lambda>first_key_bytes.
     rbind (read_uint 4 fixed 16) (\<lambda>last_key_bytes.
     rbind (read_uint 4 fixed 24) (\<lambda>unique_key_count.
     rbind (read_uint 4 fixed 28) (\<lambda>filter_words.
     rbind (read_uint 2 fixed 20) (\<lambda>page_count.
     rbind (fail_if (row_start \<noteq> ix_expected_row_start st \<or> row_count = 0 \<or> page_count \<noteq> PAGES_PER_ROW_GROUP
                     \<or> (\<exists>b \<in> set (take 2 (drop 22 fixed)). b \<noteq> 0)
                     \<or> unique_key_count = 0 \<or> unique_key_count > row_count)
              (InvalidSegment ''v6 row-group framing is invalid'')) (\<lambda>_.
     rbind (filter_word_count unique_key_count) (\<lambda>expected_words.
     rbind (fail_if (filter_words \<noteq> expected_words
                     \<or> first_key_bytes = 0 \<or> first_key_bytes > SEGMENT_MAX_KEY_BYTES
                     \<or> last_key_bytes = 0 \<or> last_key_bytes > SEGMENT_MAX_KEY_BYTES)
              (InvalidSegment ''v6 row-group framing is invalid'')) (\<lambda>_.
     let cursor = ix_cursor st + ROW_GROUP_HEADER_BYTES in
     rbind (seg_slice index cursor first_key_bytes) (\<lambda>first_key.
     let cursor = cursor + first_key_bytes in
     rbind (seg_slice index cursor last_key_bytes) (\<lambda>last_key.
     let cursor = cursor + last_key_bytes in
     rbind (fail_if (first_key > last_key
                     \<or> (case ix_prior_last_key st of None \<Rightarrow> False | Some prior \<Rightarrow> prior \<ge> first_key))
              (InvalidSegment ''v6 row-group key ranges are not strictly ordered'')) (\<lambda>_.
     rbind (try_fold (parse_page index policy row_start row_count index_offset)
              ([], cursor, ix_prior_page_end st) page_kinds_ordered) (\<lambda>(pages, cursor, prior_page_end).
     rbind (ok_or (InvalidSegment ''v6 filter byte count overflow'') (checked_mul filter_words 8)) (\<lambda>filter_bytes.
     rbind (seg_slice index cursor filter_bytes) (\<lambda>encoded_filter.
     rbind (filter_from_words unique_key_count
              (map (\<lambda>w. word_of_nat (le_nat w)) (chunks8 encoded_filter))) (\<lambda>words.
     rbind (ok_or (InvalidSegment ''v6 filter cursor overflow'') (checked_add cursor filter_bytes)) (\<lambda>cursor.
     rbind (validate_page_shapes pages row_count) (\<lambda>_.
     rbind (ok_or (InvalidSegment ''v6 row count overflow'')
              (checked_add (ix_expected_row_start st) row_count)) (\<lambda>expected_row_start.
     Inr \<lparr>ix_cursor = cursor,
       ix_row_groups = ix_row_groups st @
         [\<lparr>rg_row_start = row_start, rg_row_count = row_count, rg_unique_key_count = unique_key_count,
           rg_first_key = first_key, rg_last_key = last_key, rg_pages = pages, rg_filter = words\<rparr>],
       ix_expected_row_start = expected_row_start, ix_prior_last_key = Some last_key,
       ix_prior_page_end = prior_page_end\<rparr>)))))))))))))))))))))"

fun parse_row_groups ::
  "bytes \<Rightarrow> segment_compression_policy \<Rightarrow> nat \<Rightarrow> nat \<Rightarrow> index_cursor \<Rightarrow> index_cursor res" where
  "parse_row_groups index policy index_offset 0 st = Inr st"
| "parse_row_groups index policy index_offset (Suc n) st =
     rbind (parse_row_group index policy index_offset st) (parse_row_groups index policy index_offset n)"

definition validate_zero_range :: "bytes \<Rightarrow> nat \<Rightarrow> nat \<Rightarrow> unit res" where
  "validate_zero_range img start stop =
     rbind (ok_or (InvalidSegment ''v6 padding range is inverted'') (checked_sub stop start)) (\<lambda>len.
     rbind (fail_if (len \<ge> PAGE_ALIGNMENT)
              (InvalidSegment ''v6 page padding exceeds the alignment contract'')) (\<lambda>_.
     if len = 0 then Inr ()
     else rbind (read_exact_at img start len) (\<lambda>padding.
       fail_if (\<exists>b \<in> set padding. b \<noteq> 0) (InvalidSegment ''v6 page alignment padding is non-zero''))))"

definition padding_step :: "bytes \<Rightarrow> nat \<Rightarrow> page_descriptor \<Rightarrow> nat res" where
  "padding_step img expected page =
     rbind (validate_zero_range img expected (pg_offset page)) (\<lambda>_.
     ok_or (InvalidSegment ''v6 page end overflow'') (checked_add (pg_offset page) (pg_physical_bytes page)))"

definition validate_zero_padding :: "bytes \<Rightarrow> row_group_descriptor list \<Rightarrow> nat \<Rightarrow> unit res" where
  "validate_zero_padding img row_groups index_offset =
     rbind (try_fold (padding_step img) SEGMENT_HEADER_BYTES (concat (map rg_pages row_groups))) (\<lambda>expected.
     validate_zero_range img expected index_offset)"

record parsed_metadata =
  pm_descriptor :: segment_descriptor
  pm_row_group_budget :: segment_row_group_budget
  pm_compression_policy :: segment_compression_policy
  pm_row_groups :: "row_group_descriptor list"

definition check_header :: "bytes \<Rightarrow> unit res" where
  "check_header header =
     rbind (require_current_format header) (\<lambda>_.
     rbind (read_uint 2 header 10) (\<lambda>header_bytes.
     rbind (read_uint 4 header 12) (\<lambda>flags.
     rbind (read_uint 2 header 44) (\<lambda>page_count.
     rbind (read_uint 2 header 46) (\<lambda>alignment.
     fail_if (header_bytes \<noteq> SEGMENT_HEADER_BYTES \<or> flags \<noteq> 0 \<or> page_count \<noteq> PAGES_PER_ROW_GROUP
              \<or> alignment \<noteq> PAGE_ALIGNMENT \<or> (\<exists>b \<in> set (drop 188 header). b \<noteq> 0))
       (InvalidSegment ''v6 segment header contains unsupported framing or flags''))))))"

definition check_digests :: "bytes \<Rightarrow> unit res" where
  "check_digests header =
     fail_if (encode_digest (take 32 (drop 64 header)) \<noteq> SEGMENT_SCHEMA_DIGEST
              \<or> encode_digest (take 32 (drop 96 header)) \<noteq> SEGMENT_KEY_CODEC_DIGEST
              \<or> encode_digest (take 32 (drop 128 header)) \<noteq> SEGMENT_PAGE_FORMAT_DIGEST)
       (InvalidSegment ''v6 segment schema, key codec, or page format digest is unknown'')"

definition check_index_header :: "bytes \<Rightarrow> nat \<Rightarrow> unit res" where
  "check_index_header index row_group_count =
     rbind (read_uint 4 index 8) (\<lambda>groups.
     rbind (read_uint 2 index 12) (\<lambda>page_count.
     rbind (read_uint 2 index 14) (\<lambda>group_header.
     rbind (read_uint 2 index 16) (\<lambda>page_descriptor_bytes.
     fail_if (slice_get index 0 8 \<noteq> Some INDEX_MAGIC \<or> groups \<noteq> row_group_count
              \<or> page_count \<noteq> PAGES_PER_ROW_GROUP \<or> group_header \<noteq> ROW_GROUP_HEADER_BYTES
              \<or> page_descriptor_bytes \<noteq> PAGE_DESCRIPTOR_BYTES
              \<or> unat (index ! 18) \<noteq> FILTER_FORMAT_VERSION \<or> unat (index ! 19) \<noteq> FILTER_BITS_PER_KEY
              \<or> unat (index ! 20) \<noteq> FILTER_HASH_FUNCTIONS
              \<or> (\<exists>b \<in> set (take 11 (drop 21 index)). b \<noteq> 0))
       (InvalidSegment ''v6 segment index header or filter policy is invalid'')))))"

definition parse_metadata :: "bytes \<Rightarrow> string \<Rightarrow> parsed_metadata res" where
  "parse_metadata img checksum =
     rbind (fail_if (length img < SEGMENT_HEADER_BYTES + INDEX_HEADER_BYTES + FOOTER_BYTES)
              (InvalidSegment ''v6 segment is shorter than its framing'')) (\<lambda>_.
     rbind (read_exact_at img 0 SEGMENT_HEADER_BYTES) (\<lambda>header.
     rbind (check_header header) (\<lambda>_.
     rbind (read_uint 8 header 16) (\<lambda>entries.
     rbind (read_uint 8 header 24) (\<lambda>minimum_sequence.
     rbind (read_uint 8 header 32) (\<lambda>maximum_sequence.
     rbind (read_uint 4 header 40) (\<lambda>row_group_count.
     rbind (read_uint 8 header 48) (\<lambda>index_offset.
     rbind (read_uint 8 header 56) (\<lambda>index_bytes.
     rbind (decode_row_group_budget header) (\<lambda>budget.
     rbind (decode_compression_policy header) (\<lambda>policy.
     rbind (fail_if (entries = 0 \<or> minimum_sequence = 0 \<or> minimum_sequence > maximum_sequence
                     \<or> row_group_count = 0 \<or> index_offset < SEGMENT_HEADER_BYTES
                     \<or> index_offset mod PAGE_ALIGNMENT \<noteq> 0
                     \<or> \<not> (INDEX_HEADER_BYTES \<le> index_bytes \<and> index_bytes \<le> MAX_INDEX_BYTES)
                     \<or> checked_add index_offset index_bytes \<noteq> Some (length img - FOOTER_BYTES))
              (InvalidSegment ''v6 segment header contract is invalid'')) (\<lambda>_.
     rbind (check_digests header) (\<lambda>_.
     rbind (read_exact_at img index_offset index_bytes) (\<lambda>index.
     rbind (check_index_header index row_group_count) (\<lambda>_.
     rbind (fail_if (row_group_count > (index_bytes - INDEX_HEADER_BYTES)
                       div (ROW_GROUP_HEADER_BYTES + PAGES_PER_ROW_GROUP * PAGE_DESCRIPTOR_BYTES + 8))
              (InvalidSegment ''v6 row-group count cannot fit in the bounded index'')) (\<lambda>_.
     rbind (parse_row_groups index policy index_offset row_group_count
              \<lparr>ix_cursor = INDEX_HEADER_BYTES, ix_row_groups = [], ix_expected_row_start = 0,
               ix_prior_last_key = None, ix_prior_page_end = SEGMENT_HEADER_BYTES\<rparr>) (\<lambda>st.
     rbind (fail_if (ix_cursor st \<noteq> length index \<or> ix_expected_row_start st \<noteq> entries)
              (InvalidSegment ''v6 index does not exactly describe all rows'')) (\<lambda>_.
     let row_groups = ix_row_groups st in
     rbind (validate_logical_envelope row_groups index_bytes) (\<lambda>_.
     rbind (validate_zero_padding img row_groups index_offset) (\<lambda>_.
     Inr \<lparr>pm_descriptor = \<lparr>sd_id = checksum, sd_level = 0, sd_format_version = SEGMENT_FORMAT_VERSION,
            sd_schema_digest = SEGMENT_SCHEMA_DIGEST, sd_key_codec_digest = SEGMENT_KEY_CODEC_DIGEST,
            sd_page_format_digest = SEGMENT_PAGE_FORMAT_DIGEST,
            sd_first_key = rg_first_key (hd row_groups), sd_last_key = rg_last_key (last row_groups),
            sd_minimum_sequence = minimum_sequence, sd_maximum_sequence = maximum_sequence,
            sd_entries = entries, sd_bytes = length img, sd_checksum = checksum\<rparr>,
          pm_row_group_budget = budget, pm_compression_policy = policy,
          pm_row_groups = row_groups\<rparr>))))))))))))))))))))"

end
