(* ===== verification/Segment.thy ===== *)
theory Segment
  imports Segment_Format Version_Source
begin

text \<open>
  Immutable segments (\<open>rrd-lsm/src/segment/mod.rs\<close>): opening and validating a file image,
  publishing an encoded segment under its content address, and reading keys, versions and
  values out of the authenticated pages. A page is looked up in its file image; the page cache
  in front of it returns the same immutable pages and the source-memory reservation can only
  refuse a read, so neither is part of this model.
\<close>

section \<open>Pages\<close>

datatype page_source = SourceFile bytes | SourceMapped bytes | SourceBytes bytes

record segment =
  sg_descriptor :: segment_descriptor
  sg_row_group_budget :: segment_row_group_budget
  sg_compression_policy :: segment_compression_policy
  sg_source :: page_source
  sg_row_groups :: "row_group_descriptor list"

fun source_bytes :: "page_source \<Rightarrow> nat \<Rightarrow> nat \<Rightarrow> bytes res" where
  "source_bytes (SourceFile img) offset len = read_exact_at img offset len"
| "source_bytes (SourceMapped img) offset len =
     ok_or (InvalidSegment ''v6 mapped page range is absent'') (slice_get img offset (offset + len))"
| "source_bytes (SourceBytes img) offset len =
     ok_or (InvalidSegment ''v6 snapshot page range is absent'') (slice_get img offset (offset + len))"

definition verify_stored_page :: "codec \<Rightarrow> bytes \<Rightarrow> page_descriptor \<Rightarrow> unit res" where
  "verify_stored_page cx stored page =
     fail_if (sha256 cx stored \<noteq> pg_digest page) (InvalidSegment ''v6 stored-page checksum does not match'')"

definition finish_page :: "codec \<Rightarrow> bytes \<Rightarrow> page_descriptor \<Rightarrow> bytes res" where
  "finish_page cx stored page =
     (case pg_compression page of
        PageNone \<Rightarrow> Inr stored
      | Lz4Block \<Rightarrow>
          rbind (lz4_decompress cx stored (pg_logical_bytes page)) (\<lambda>decoded.
          rbind (fail_if (length decoded \<noteq> pg_logical_bytes page)
                   (InvalidSegment ''v6 LZ4 page decoded another length'')) (\<lambda>_.
          Inr decoded)))"

definition read_page :: "codec \<Rightarrow> page_source \<Rightarrow> page_descriptor \<Rightarrow> bytes res" where
  "read_page cx source page =
     rbind (ok_or (InvalidSegment ''v6 page range overflow'')
              (checked_add (pg_offset page) (pg_physical_bytes page))) (\<lambda>_.
     rbind (source_bytes source (pg_offset page) (pg_physical_bytes page)) (\<lambda>stored.
     rbind (verify_stored_page cx stored page) (\<lambda>_.
     finish_page cx stored page)))"

definition load_page :: "codec \<Rightarrow> segment \<Rightarrow> nat \<Rightarrow> page_kind \<Rightarrow> bytes res" where
  "load_page cx seg row_group kind =
     (if row_group < length (sg_row_groups seg)
      then read_page cx (sg_source seg) (rg_page (sg_row_groups seg ! row_group) kind)
      else Inl (InvalidSegment ''row-group index is outside the segment''))"

record key_spine =
  ks_offsets :: bytes
  ks_data :: bytes
  ks_sequences :: bytes

record loaded_value_columns =
  lv_validity :: bytes
  lv_offsets :: bytes
  lv_values :: bytes

record loaded_row_group =
  lg_spine :: key_spine
  lg_columns :: loaded_value_columns

definition load_key_spine :: "codec \<Rightarrow> segment \<Rightarrow> nat \<Rightarrow> key_spine res" where
  "load_key_spine cx seg row_group =
     rbind (load_page cx seg row_group KeyOffsets) (\<lambda>offsets.
     rbind (load_page cx seg row_group KeyData) (\<lambda>data.
     rbind (load_page cx seg row_group SequenceValues) (\<lambda>sequences.
     Inr \<lparr>ks_offsets = offsets, ks_data = data, ks_sequences = sequences\<rparr>)))"

definition load_value_columns :: "codec \<Rightarrow> segment \<Rightarrow> nat \<Rightarrow> loaded_value_columns res" where
  "load_value_columns cx seg row_group =
     rbind (load_page cx seg row_group ValueValidity) (\<lambda>validity.
     rbind (load_page cx seg row_group ValueOffsets) (\<lambda>offsets.
     rbind (load_page cx seg row_group ValueData) (\<lambda>vals.
     Inr \<lparr>lv_validity = validity, lv_offsets = offsets, lv_values = vals\<rparr>)))"

definition load_row_group :: "codec \<Rightarrow> segment \<Rightarrow> nat \<Rightarrow> loaded_row_group res" where
  "load_row_group cx seg row_group =
     rbind (load_key_spine cx seg row_group) (\<lambda>spine.
     rbind (load_value_columns cx seg row_group) (\<lambda>columns.
     Inr \<lparr>lg_spine = spine, lg_columns = columns\<rparr>))"

section \<open>Rows of a page\<close>

definition offset_at :: "bytes \<Rightarrow> nat \<Rightarrow> nat res" where
  "offset_at offsets index =
     rbind (ok_or (InvalidSegment ''v6 Arrow offset index overflow'') (checked_mul index 8)) (\<lambda>offset.
     rbind (ok_or (InvalidSegment ''v6 Arrow offset is absent'') (slice_get offsets offset (offset + 8))) (\<lambda>field.
     rbind (fail_if (le_nat field > i64_max)
              (InvalidSegment ''v6 Arrow offset is negative or too large'')) (\<lambda>_.
     Inr (le_nat field))))"

definition binary_at :: "bytes \<Rightarrow> bytes \<Rightarrow> nat \<Rightarrow> bytes res" where
  "binary_at offsets data row =
     rbind (offset_at offsets row) (\<lambda>start.
     rbind (offset_at offsets (row + 1)) (\<lambda>stop.
     rbind (fail_if (start > stop \<or> stop > length data)
              (InvalidSegment ''v6 Arrow binary offsets are not monotonic or in bounds'')) (\<lambda>_.
     Inr (take (stop - start) (drop start data)))))"

definition key_at :: "key_spine \<Rightarrow> nat \<Rightarrow> bytes res" where
  "key_at spine row = binary_at (ks_offsets spine) (ks_data spine) row"

definition sequence_at :: "key_spine \<Rightarrow> nat \<Rightarrow> nat res" where
  "sequence_at spine row =
     rbind (ok_or (InvalidSegment ''v6 sequence offset overflow'') (checked_mul row 8)) (\<lambda>offset.
     rbind (ok_or (InvalidSegment ''v6 sequence row is absent'')
              (slice_get (ks_sequences spine) offset (offset + 8))) (\<lambda>field.
     Inr (le_nat field)))"

definition valid_at :: "bytes \<Rightarrow> nat \<Rightarrow> bool res" where
  "valid_at validity row =
     (if row div 8 < length validity
      then Inr (validity ! (row div 8) AND push_bit (row mod 8) 1 \<noteq> 0)
      else Inl (InvalidSegment ''v6 validity row is absent''))"

definition value_from_columns :: "loaded_value_columns \<Rightarrow> nat \<Rightarrow> bytes option res" where
  "value_from_columns columns row =
     rbind (valid_at (lv_validity columns) row) (\<lambda>valid.
     if \<not> valid then Inr None
     else rbind (binary_at (lv_offsets columns) (lv_values columns) row) (\<lambda>v. Inr (Some v)))"

text \<open>\<open>value_at\<close> loads the offset and data pages only for a present value.\<close>

definition value_at :: "codec \<Rightarrow> segment \<Rightarrow> nat \<Rightarrow> nat \<Rightarrow> bytes option res" where
  "value_at cx seg row_group row =
     rbind (load_page cx seg row_group ValueValidity) (\<lambda>validity.
     rbind (valid_at validity row) (\<lambda>valid.
     if \<not> valid then Inr None
     else
       rbind (load_page cx seg row_group ValueOffsets) (\<lambda>offsets.
       rbind (load_page cx seg row_group ValueData) (\<lambda>vals.
       rbind (binary_at offsets vals row) (\<lambda>v. Inr (Some v))))))"

section \<open>Validation of all pages\<close>

definition offsets_step :: "bytes \<Rightarrow> bytes \<Rightarrow> nat \<Rightarrow> bool \<Rightarrow> unit \<Rightarrow> nat \<Rightarrow> unit res" where
  "offsets_step offsets data maximum_item_bytes allow_empty u row =
     rbind (offset_at offsets row) (\<lambda>start.
     rbind (offset_at offsets (row + 1)) (\<lambda>stop.
     fail_if (start > stop \<or> stop > length data \<or> stop - start > maximum_item_bytes
              \<or> (\<not> allow_empty \<and> start = stop))
       (InvalidSegment ''v6 Arrow binary offsets violate item bounds'')))"

definition validate_offsets :: "bytes \<Rightarrow> bytes \<Rightarrow> nat \<Rightarrow> nat \<Rightarrow> bool \<Rightarrow> unit res" where
  "validate_offsets offsets data rows maximum_item_bytes allow_empty =
     rbind (fail_if (length offsets \<noteq> saturating_mul (rows + 1) 8)
              (InvalidSegment ''v6 Arrow binary offset page has the wrong shape'')) (\<lambda>_.
     rbind (offset_at offsets 0) (\<lambda>first.
     rbind (fail_if (first \<noteq> 0)
              (InvalidSegment ''v6 Arrow binary offset page has the wrong shape'')) (\<lambda>_.
     rbind (try_fold (offsets_step offsets data maximum_item_bytes allow_empty) () [0..<rows]) (\<lambda>_.
     rbind (offset_at offsets rows) (\<lambda>final_offset.
     fail_if (final_offset \<noteq> length data)
       (InvalidSegment ''v6 Arrow binary offsets do not terminate at the data length''))))))"

definition validate_validity :: "bytes \<Rightarrow> nat \<Rightarrow> unit res" where
  "validate_validity validity rows =
     rbind (fail_if (length validity \<noteq> (rows + 7) div 8)
              (InvalidSegment ''v6 Arrow validity bitmap has the wrong length'')) (\<lambda>_.
     fail_if (rows mod 8 \<noteq> 0 \<and> validity \<noteq> [] \<and> drop_bit (rows mod 8) (last validity) \<noteq> 0)
       (InvalidSegment ''v6 Arrow validity bitmap has non-zero padding bits''))"

record group_audit =
  ga_filter :: row_group_filter
  ga_unique_key_count :: nat
  ga_previous_group_key :: "bytes option"
  ga_first :: "bytes option"
  ga_last :: "bytes option"
  ga_null_count :: nat
  ga_key_min :: nat
  ga_key_max :: nat
  ga_value_min :: nat
  ga_value_max :: nat
  ga_sequence_min :: nat
  ga_sequence_max :: nat

record segment_audit =
  sa_previous :: "(bytes \<times> nat) option"
  sa_rows :: nat
  sa_minimum :: nat
  sa_maximum :: nat

definition audit_row ::
  "segment_descriptor \<Rightarrow> loaded_row_group \<Rightarrow> segment_audit \<times> group_audit \<Rightarrow> nat
     \<Rightarrow> (segment_audit \<times> group_audit) res" where
  "audit_row d loaded = (\<lambda>(sa, ga) row.
     rbind (key_at (lg_spine loaded) row) (\<lambda>key.
     rbind (sequence_at (lg_spine loaded) row) (\<lambda>sequence.
     rbind (fail_if (sequence = 0 \<or> sequence < sd_minimum_sequence d \<or> sequence > sd_maximum_sequence d
                     \<or> (case sa_previous sa of None \<Rightarrow> False
                        | Some (prior_key, prior_sequence) \<Rightarrow>
                            key < prior_key \<or> (key = prior_key \<and> sequence \<le> prior_sequence)))
              (InvalidSegment ''v6 spine is not in canonical key/sequence order'')) (\<lambda>_.
     rbind (if ga_previous_group_key ga \<noteq> Some key then
              (if ga_unique_key_count ga + 1 \<le> u32_max then
                 Inr (ga\<lparr>ga_filter := filter_insert (ga_filter ga) key,
                         ga_unique_key_count := ga_unique_key_count ga + 1,
                         ga_previous_group_key := Some key\<rparr>)
               else Inl (InvalidSegment ''v6 unique-key validation count overflow''))
            else Inr ga) (\<lambda>ga.
     rbind (value_from_columns (lg_columns loaded) row) (\<lambda>v.
     Inr (sa\<lparr>sa_previous := Some (key, sequence), sa_minimum := min (sa_minimum sa) sequence,
             sa_maximum := max (sa_maximum sa) sequence\<rparr>,
          ga\<lparr>ga_first := (case ga_first ga of None \<Rightarrow> Some key | Some k \<Rightarrow> Some k),
             ga_last := Some key,
             ga_key_min := min (ga_key_min ga) (length key),
             ga_key_max := max (ga_key_max ga) (length key),
             ga_sequence_min := min (ga_sequence_min ga) sequence,
             ga_sequence_max := max (ga_sequence_max ga) sequence,
             ga_null_count := (case v of None \<Rightarrow> min (ga_null_count ga + 1) u32_max | Some _ \<Rightarrow> ga_null_count ga),
             ga_value_min := (case v of None \<Rightarrow> 0 | Some x \<Rightarrow> min (ga_value_min ga) (length x)),
             ga_value_max := (case v of None \<Rightarrow> ga_value_max ga | Some x \<Rightarrow> max (ga_value_max ga) (length x))\<rparr>)))))))"

definition audit_group ::
  "codec \<Rightarrow> segment \<Rightarrow> segment_audit \<Rightarrow> nat \<Rightarrow> segment_audit res" where
  "audit_group cx seg sa index =
     (let g = sg_row_groups seg ! index in
     rbind (load_row_group cx seg index) (\<lambda>loaded.
     rbind (validate_offsets (ks_offsets (lg_spine loaded)) (ks_data (lg_spine loaded)) (rg_row_count g)
              SEGMENT_MAX_KEY_BYTES False) (\<lambda>_.
     rbind (validate_offsets (lv_offsets (lg_columns loaded)) (lv_values (lg_columns loaded)) (rg_row_count g)
              SEGMENT_MAX_VALUE_BYTES True) (\<lambda>_.
     rbind (validate_validity (lv_validity (lg_columns loaded)) (rg_row_count g)) (\<lambda>_.
     rbind (filter_new (rg_unique_key_count g)) (\<lambda>words.
     rbind (try_fold (audit_row (sg_descriptor seg) loaded)
              (sa, \<lparr>ga_filter = words, ga_unique_key_count = 0, ga_previous_group_key = None,
                    ga_first = None, ga_last = None, ga_null_count = 0, ga_key_min = u64_max,
                    ga_key_max = 0, ga_value_min = u64_max, ga_value_max = 0,
                    ga_sequence_min = u64_max, ga_sequence_max = 0\<rparr>)
              [0..<rg_row_count g]) (\<lambda>(sa, ga).
     rbind (fail_if (ga_first ga \<noteq> Some (rg_first_key g) \<or> ga_last ga \<noteq> Some (rg_last_key g)
                     \<or> pg_statistic_min (rg_page g KeyOffsets) \<noteq> ga_key_min ga
                     \<or> pg_statistic_max (rg_page g KeyOffsets) \<noteq> ga_key_max ga
                     \<or> pg_statistic_min (rg_page g SequenceValues) \<noteq> ga_sequence_min ga
                     \<or> pg_statistic_max (rg_page g SequenceValues) \<noteq> ga_sequence_max ga
                     \<or> pg_null_count (rg_page g ValueValidity) \<noteq> ga_null_count ga
                     \<or> pg_statistic_min (rg_page g ValueOffsets) \<noteq> ga_value_min ga
                     \<or> pg_statistic_max (rg_page g ValueOffsets) \<noteq> ga_value_max ga)
              (InvalidSegment ''v6 page statistics or row-group bounds disagree with data'')) (\<lambda>_.
     rbind (fail_if (ga_unique_key_count ga \<noteq> rg_unique_key_count g \<or> ga_filter ga \<noteq> rg_filter g)
              (InvalidSegment ''v6 persisted row-group filter disagrees with decoded keys'')) (\<lambda>_.
     rbind (ok_or (InvalidSegment ''v6 observed row count overflow'')
              (checked_add (sa_rows sa) (rg_row_count g))) (\<lambda>rows.
     Inr (sa\<lparr>sa_rows := rows\<rparr>)))))))))))"

definition validate_all_pages :: "codec \<Rightarrow> segment \<Rightarrow> unit res" where
  "validate_all_pages cx seg =
     rbind (try_fold (audit_group cx seg)
              \<lparr>sa_previous = None, sa_rows = 0, sa_minimum = u64_max, sa_maximum = 0\<rparr>
              [0..<length (sg_row_groups seg)]) (\<lambda>sa.
     fail_if (sa_rows sa \<noteq> sd_entries (sg_descriptor seg)
              \<or> sa_minimum sa \<noteq> sd_minimum_sequence (sg_descriptor seg)
              \<or> sa_maximum sa \<noteq> sd_maximum_sequence (sg_descriptor seg))
       (InvalidSegment ''v6 header counts or sequence range disagree with pages''))"

section \<open>Opening and publishing\<close>

definition validate_physical_file :: "bytes \<Rightarrow> unit res" where
  "validate_physical_file img =
     rbind (fail_if (length img > MAX_SEGMENT_BYTES)
              (InvalidSegment ''segment exceeds the 1 GiB physical safety limit'')) (\<lambda>_.
     rbind (ok_or (InvalidSegment ''segment has no complete format header'') (slice_get img 0 10)) (\<lambda>prefix.
     rbind (require_current_format prefix) (\<lambda>_.
     fail_if (length img < SEGMENT_HEADER_BYTES + INDEX_HEADER_BYTES + FOOTER_BYTES)
       (InvalidSegment ''segment is shorter than its framing''))))"

definition verify_file_digest :: "codec \<Rightarrow> bytes \<Rightarrow> string res" where
  "verify_file_digest cx img =
     rbind (ok_or (InvalidSegment ''segment footer underflow'') (checked_sub (length img) FOOTER_BYTES)) (\<lambda>content_bytes.
     rbind (fail_if (\<not> utf8_valid (drop content_bytes img)) (InvalidSegment ''segment footer is not ASCII'')) (\<lambda>_.
     let actual = sha256_hex cx (take content_bytes img) in
     rbind (fail_if (drop content_bytes img \<noteq> str_bytes actual)
              (InvalidSegment ''segment content checksum does not match'')) (\<lambda>_.
     Inr actual)))"

definition build_segment :: "parsed_metadata \<Rightarrow> page_source \<Rightarrow> segment" where
  "build_segment metadata source =
     \<lparr>sg_descriptor = pm_descriptor metadata, sg_row_group_budget = pm_row_group_budget metadata,
      sg_compression_policy = pm_compression_policy metadata, sg_source = source,
      sg_row_groups = pm_row_groups metadata\<rparr>"

text \<open>\<open>backend\<close> is the page source the I/O policy selects for a file.\<close>

definition segment_open :: "codec \<Rightarrow> (bytes \<Rightarrow> page_source) \<Rightarrow> bytes \<Rightarrow> segment res" where
  "segment_open cx backend img =
     rbind (validate_physical_file img) (\<lambda>_.
     rbind (verify_file_digest cx img) (\<lambda>checksum.
     rbind (parse_metadata img checksum) (\<lambda>metadata.
     let seg = build_segment metadata (backend img) in
     rbind (validate_all_pages cx seg) (\<lambda>_.
     Inr seg))))"

definition segment_open_expected ::
  "codec \<Rightarrow> (bytes \<Rightarrow> page_source) \<Rightarrow> bytes \<Rightarrow> segment_descriptor \<Rightarrow> segment res" where
  "segment_open_expected cx backend img expected =
     rbind (validate_physical_file img) (\<lambda>_.
     rbind (fail_if (length img \<noteq> sd_bytes expected)
              (InvalidSegment ''segment physical size differs from its manifest descriptor'')) (\<lambda>_.
     rbind (verify_file_digest cx img) (\<lambda>checksum.
     rbind (fail_if (checksum \<noteq> sd_checksum expected \<or> checksum \<noteq> sd_id expected)
              (InvalidSegment ''segment content digest differs from its manifest descriptor'')) (\<lambda>_.
     rbind (parse_metadata img checksum) (\<lambda>metadata.
     let seg = build_segment metadata (backend img);
         seg = seg\<lparr>sg_descriptor := (sg_descriptor seg)\<lparr>sd_level := sd_level expected\<rparr>\<rparr> in
     rbind (fail_if (sg_descriptor seg \<noteq> expected)
              (InvalidSegment ''v6 segment differs from its manifest descriptor'')) (\<lambda>_.
     Inr seg))))))"

definition validate_snapshot_owned :: "codec \<Rightarrow> segment_descriptor \<Rightarrow> bytes \<Rightarrow> segment res" where
  "validate_snapshot_owned cx expected img =
     rbind (fail_if (length img > MAX_SEGMENT_BYTES)
              (InvalidSegment ''snapshot segment exceeds the 1 GiB physical safety limit'')) (\<lambda>_.
     rbind (require_current_format img) (\<lambda>_.
     rbind (ok_or (InvalidSegment ''v6 snapshot footer underflow'') (checked_sub (length img) FOOTER_BYTES)) (\<lambda>content_end.
     rbind (fail_if (\<not> utf8_valid (drop content_end img)) (InvalidSegment ''segment footer is not ASCII'')) (\<lambda>_.
     let checksum = sha256_hex cx (take content_end img) in
     rbind (fail_if (drop content_end img \<noteq> str_bytes checksum)
              (InvalidSegment ''segment content checksum does not match'')) (\<lambda>_.
     rbind (parse_metadata img checksum) (\<lambda>metadata.
     let seg = build_segment metadata (SourceBytes img) in
     rbind (validate_all_pages cx seg) (\<lambda>_.
     let seg = seg\<lparr>sg_descriptor := (sg_descriptor seg)\<lparr>sd_level := sd_level expected\<rparr>\<rparr> in
     rbind (fail_if (sg_descriptor seg \<noteq> expected)
              (InvalidSegment ''snapshot segment differs from its descriptor'')) (\<lambda>_.
     Inr seg))))))))"

text \<open>
  The segment directory maps content addresses to file images. Writing a temporary file,
  synchronizing it, renaming it and synchronizing the directory is one publication: it takes
  effect, or it fails with an error after which the name may or may not be there.
\<close>

type_synonym segment_files = "string \<rightharpoonup> bytes"

datatype publish_outcome = Published | PublishFailed bool lsm_error

fun publish_file :: "publish_outcome \<Rightarrow> string \<Rightarrow> bytes \<Rightarrow> segment_files \<Rightarrow> unit res \<times> segment_files" where
  "publish_file Published name img files = (Inr (), files(name \<mapsto> img))"
| "publish_file (PublishFailed taken e) name img files = (Inl e, if taken then files(name \<mapsto> img) else files)"

text \<open>An existing name is reused after a directory synchronization, which may fail too.\<close>

fun sync_existing :: "publish_outcome \<Rightarrow> unit res" where
  "sync_existing Published = Inr ()"
| "sync_existing (PublishFailed _ e) = Inl e"

definition write_encoded ::
  "codec \<Rightarrow> (bytes \<Rightarrow> page_source) \<Rightarrow> publish_outcome \<Rightarrow> encoded_segment \<Rightarrow> segment_files
     \<Rightarrow> segment res \<times> segment_files" where
  "write_encoded cx backend os enc files =
     (case files (enc_checksum enc) of
        Some img \<Rightarrow>
          (rbind (segment_open cx backend img) (\<lambda>seg.
           rbind (fail_if (sd_id (sg_descriptor seg) \<noteq> enc_checksum enc)
                    (InvalidSegment ''existing content-addressed segment has another identity'')) (\<lambda>_.
           rbind (sync_existing os) (\<lambda>_.
           Inr seg))), files)
      | None \<Rightarrow>
          (case publish_file os (enc_checksum enc) (enc_bytes enc) files of
             (Inl e, files) \<Rightarrow> (Inl e, files)
           | (Inr _, files) \<Rightarrow> (segment_open cx backend (enc_bytes enc), files)))"

definition write_from_versions ::
  "codec \<Rightarrow> (bytes \<Rightarrow> page_source) \<Rightarrow> publish_outcome \<Rightarrow> (bytes \<times> versioned_value list) list
     \<Rightarrow> segment_row_group_budget \<Rightarrow> segment_compression_policy \<Rightarrow> segment_files
     \<Rightarrow> segment res \<times> segment_files" where
  "write_from_versions cx backend os versions budget policy files =
     (case encode_versions cx versions budget policy of
        Inl e \<Rightarrow> (Inl e, files)
      | Inr enc \<Rightarrow> write_encoded cx backend os enc files)"

definition write_from_memtable ::
  "codec \<Rightarrow> (bytes \<Rightarrow> page_source) \<Rightarrow> publish_outcome \<Rightarrow> memtable
     \<Rightarrow> segment_row_group_budget \<Rightarrow> segment_compression_policy \<Rightarrow> segment_files
     \<Rightarrow> segment res \<times> segment_files" where
  "write_from_memtable cx backend os table budget policy files =
     (case encode_table cx table budget policy of
        Inl e \<Rightarrow> (Inl e, files)
      | Inr enc \<Rightarrow> write_encoded cx backend os enc files)"

definition install_snapshot_bytes ::
  "codec \<Rightarrow> (bytes \<Rightarrow> page_source) \<Rightarrow> publish_outcome \<Rightarrow> segment_descriptor \<Rightarrow> bytes \<Rightarrow> segment_files
     \<Rightarrow> segment res \<times> segment_files" where
  "install_snapshot_bytes cx backend os expected img files =
     (case validate_snapshot_owned cx expected img of
        Inl e \<Rightarrow> (Inl e, files)
      | Inr _ \<Rightarrow>
          (case files (sd_id expected) of
             Some existing_img \<Rightarrow>
               (rbind (segment_open_expected cx backend existing_img expected) (\<lambda>existing.
                rbind (fail_if (existing_img \<noteq> img)
                         (InvalidSegment ''existing snapshot segment has different bytes'')) (\<lambda>_.
                rbind (sync_existing os) (\<lambda>_.
                Inr existing))), files)
           | None \<Rightarrow>
               (case publish_file os (sd_id expected) img files of
                  (Inl e, files) \<Rightarrow> (Inl e, files)
                | (Inr _, files) \<Rightarrow> (segment_open_expected cx backend img expected, files))))"

section \<open>Point reads\<close>

function lower_bound_between :: "key_spine \<Rightarrow> bytes \<Rightarrow> nat \<Rightarrow> nat \<Rightarrow> nat res" where
  "lower_bound_between spine key left right =
     (if left < right then
        let middle = left + (right - left) div 2 in
        rbind (key_at spine middle) (\<lambda>k.
        if k < key then lower_bound_between spine key (middle + 1) right
        else lower_bound_between spine key left middle)
      else Inr left)"
  by pat_completeness auto
termination
  by (relation "measure (\<lambda>(spine, key, left, right). right - left)") auto

declare lower_bound_between.simps [simp del]

definition lower_bound :: "key_spine \<Rightarrow> nat \<Rightarrow> bytes \<Rightarrow> nat res" where
  "lower_bound spine rows key = lower_bound_between spine key 0 rows"

text \<open>\<open>partition_point\<close> on the row groups: the number of leading groups before the key.\<close>

definition partition_point :: "('a \<Rightarrow> bool) \<Rightarrow> 'a list \<Rightarrow> nat" where
  "partition_point P xs = length (takeWhile P xs)"

record selected_version =
  sv_row_group :: nat
  sv_row :: nat
  sv_sequence :: nat

function select_rows ::
  "key_spine \<Rightarrow> nat \<Rightarrow> bytes \<Rightarrow> nat \<Rightarrow> nat \<Rightarrow> (nat \<times> nat) option \<Rightarrow> (nat \<times> nat) option res" where
  "select_rows spine rows key read_sequence row selected =
     (if row < rows then
        rbind (key_at spine row) (\<lambda>actual.
        if actual \<noteq> key then Inr selected
        else
          rbind (sequence_at spine row) (\<lambda>sequence.
          select_rows spine rows key read_sequence (row + 1)
            (if sequence \<le> read_sequence then Some (row, sequence) else selected)))
      else Inr selected)"
  by pat_completeness auto
termination
  by (relation "measure (\<lambda>(spine, rows, key, r, row, selected). rows - row)") auto

declare select_rows.simps [simp del]

definition select_version ::
  "codec \<Rightarrow> segment \<Rightarrow> bytes \<Rightarrow> nat \<Rightarrow> selected_version option res" where
  "select_version cx seg key read_sequence =
     (if key < sd_first_key (sg_descriptor seg) \<or> key > sd_last_key (sg_descriptor seg)
         \<or> read_sequence < sd_minimum_sequence (sg_descriptor seg)
      then Inr None
      else
        let index = partition_point (\<lambda>g. rg_last_key g < key) (sg_row_groups seg) in
        if index \<ge> length (sg_row_groups seg) then Inr None
        else
          let group = sg_row_groups seg ! index in
          if key < rg_first_key group then Inr None
          else if \<not> may_contain (rg_filter group) key then Inr None
          else
            rbind (load_key_spine cx seg index) (\<lambda>spine.
            rbind (lower_bound spine (rg_row_count group) key) (\<lambda>row.
            rbind (select_rows spine (rg_row_count group) key read_sequence row None) (\<lambda>selected.
            Inr (map_option (\<lambda>(row, sequence).
              \<lparr>sv_row_group = index, sv_row = row, sv_sequence = sequence\<rparr>) selected)))))"

definition selected_value :: "codec \<Rightarrow> segment \<Rightarrow> selected_version \<Rightarrow> bytes option res" where
  "selected_value cx seg selected = value_at cx seg (sv_row_group selected) (sv_row selected)"

definition segment_get_version :: "codec \<Rightarrow> segment \<Rightarrow> bytes \<Rightarrow> nat \<Rightarrow> versioned_value option res" where
  "segment_get_version cx seg key read_sequence =
     rbind (select_version cx seg key read_sequence) (\<lambda>selected.
     case selected of
       None \<Rightarrow> Inr None
     | Some s \<Rightarrow> rbind (selected_value cx seg s) (\<lambda>v.
         Inr (Some \<lparr>vv_sequence = sv_sequence s, vv_value = v\<rparr>)))"

definition segment_get :: "codec \<Rightarrow> segment \<Rightarrow> bytes \<Rightarrow> nat \<Rightarrow> bytes option res" where
  "segment_get cx seg key read_sequence =
     rbind (segment_get_version cx seg key read_sequence) (\<lambda>version. Inr (Option.bind version vv_value))"

definition get_sequence :: "codec \<Rightarrow> segment \<Rightarrow> bytes \<Rightarrow> nat \<Rightarrow> nat option res" where
  "get_sequence cx seg key read_sequence =
     rbind (select_version cx seg key read_sequence) (\<lambda>selected. Inr (map_option sv_sequence selected))"

section \<open>Scans\<close>

text \<open>The row loop of \<open>visible_from\<close> and \<open>visible_ranges\<close>; \<open>wanted\<close> is the test of the key.\<close>

definition visible_row ::
  "codec \<Rightarrow> segment \<Rightarrow> nat \<Rightarrow> key_spine \<Rightarrow> (bytes \<Rightarrow> bool) \<Rightarrow> nat
     \<Rightarrow> (bytes, versioned_value) btree \<Rightarrow> nat \<Rightarrow> (bytes, versioned_value) btree res" where
  "visible_row cx seg index spine wanted read_sequence grouped row =
     rbind (key_at spine row) (\<lambda>key.
     if \<not> wanted key then Inr grouped
     else
       rbind (sequence_at spine row) (\<lambda>sequence.
       if sequence \<le> read_sequence then
         rbind (load_value_columns cx seg index) (\<lambda>columns.
         rbind (value_from_columns columns row) (\<lambda>v.
         Inr (newest_put grouped (key, \<lparr>vv_sequence = sequence, vv_value = v\<rparr>))))
       else Inr grouped))"

definition visible_group ::
  "codec \<Rightarrow> segment \<Rightarrow> (bytes \<Rightarrow> bool) \<Rightarrow> nat
     \<Rightarrow> (bytes, versioned_value) btree \<Rightarrow> nat \<Rightarrow> (bytes, versioned_value) btree res" where
  "visible_group cx seg wanted read_sequence grouped index =
     rbind (load_key_spine cx seg index) (\<lambda>spine.
     try_fold (visible_row cx seg index spine wanted read_sequence) grouped
       [0..<rg_row_count (sg_row_groups seg ! index)])"

definition segment_visible_from ::
  "codec \<Rightarrow> segment \<Rightarrow> bytes \<Rightarrow> bytes option \<Rightarrow> nat \<Rightarrow> (bytes \<times> versioned_value) list res" where
  "segment_visible_from cx seg start stop read_sequence =
     (let first = partition_point (\<lambda>g. rg_last_key g < start) (sg_row_groups seg);
          wanted = (\<lambda>key. \<not> (key < start \<or> (case stop of None \<Rightarrow> False | Some e \<Rightarrow> key \<ge> e))) in
      try_fold (visible_group cx seg wanted read_sequence) []
        (takeWhile (\<lambda>index. \<not> (case stop of None \<Rightarrow> False
                                | Some e \<Rightarrow> rg_first_key (sg_row_groups seg ! index) \<ge> e))
          [first..<length (sg_row_groups seg)]))"

definition segment_scan ::
  "codec \<Rightarrow> segment \<Rightarrow> bytes \<Rightarrow> bytes option \<Rightarrow> nat \<Rightarrow> (bytes \<times> bytes) list res" where
  "segment_scan cx seg start stop read_sequence =
     rbind (segment_visible_from cx seg start stop read_sequence) (\<lambda>visible.
     Inr (List.map_filter (\<lambda>(key, version). map_option (Pair key) (vv_value version)) visible))"

definition range_groups :: "segment \<Rightarrow> bytes \<times> bytes \<Rightarrow> nat list" where
  "range_groups seg = (\<lambda>(start, stop).
     takeWhile (\<lambda>index. rg_first_key (sg_row_groups seg ! index) < stop)
       [partition_point (\<lambda>g. rg_last_key g < start) (sg_row_groups seg)..<length (sg_row_groups seg)])"

definition ranges_wanted :: "(bytes \<times> bytes) list \<Rightarrow> bytes \<Rightarrow> bool" where
  "ranges_wanted ranges key =
     (let after_start = partition_point (\<lambda>r. fst r \<le> key) ranges in
      after_start \<noteq> 0 \<and> key < snd (ranges ! (after_start - 1)))"

definition segment_visible_ranges ::
  "codec \<Rightarrow> segment \<Rightarrow> (bytes \<times> bytes) list \<Rightarrow> nat \<Rightarrow> (bytes \<times> versioned_value) list res" where
  "segment_visible_ranges cx seg ranges read_sequence =
     (if ranges = [] \<or> read_sequence < sd_minimum_sequence (sg_descriptor seg) then Inr []
      else
        let selected_groups = remdups (sort (concat (map (range_groups seg) ranges))) in
        try_fold (visible_group cx seg (ranges_wanted ranges) read_sequence) [] selected_groups)"

definition logical_step :: "nat \<Rightarrow> page_descriptor \<Rightarrow> nat res" where
  "logical_step acc page =
     ok_or (InvalidSegment ''compaction decoded input overflow'') (checked_add acc (pg_logical_bytes page))"

definition compaction_logical_bytes :: "segment \<Rightarrow> nat res" where
  "compaction_logical_bytes seg =
     try_fold logical_step 0 (concat (map rg_pages (sg_row_groups seg)))"

section \<open>Record cursors\<close>

record record_cursor =
  rc_row_group_index :: nat
  rc_row_index :: nat
  rc_loaded :: "loaded_row_group option"

definition cursor_start :: record_cursor where
  "cursor_start = \<lparr>rc_row_group_index = 0, rc_row_index = 0, rc_loaded = None\<rparr>"

definition cursor_load :: "codec \<Rightarrow> segment \<Rightarrow> record_cursor \<Rightarrow> (loaded_row_group \<times> nat) res" where
  "cursor_load cx seg cur =
     (case rc_loaded cur of
        Some loaded \<Rightarrow> Inr (loaded, rc_row_index cur)
      | None \<Rightarrow> rbind (load_row_group cx seg (rc_row_group_index cur)) (\<lambda>loaded. Inr (loaded, 0)))"

function next_record ::
  "codec \<Rightarrow> segment \<Rightarrow> record_cursor \<Rightarrow> ((bytes \<times> versioned_value) option \<times> record_cursor) res" where
  "next_record cx seg cur =
     (if rc_row_group_index cur \<ge> length (sg_row_groups seg) then Inr (None, cur)
      else
        rbind (cursor_load cx seg cur) (\<lambda>(loaded, row).
        if row < rg_row_count (sg_row_groups seg ! rc_row_group_index cur) then
          rbind (key_at (lg_spine loaded) row) (\<lambda>key.
          rbind (sequence_at (lg_spine loaded) row) (\<lambda>sequence.
          rbind (value_from_columns (lg_columns loaded) row) (\<lambda>v.
          Inr (Some (key, \<lparr>vv_sequence = sequence, vv_value = v\<rparr>),
               cur\<lparr>rc_row_index := row + 1, rc_loaded := Some loaded\<rparr>))))
        else
          next_record cx seg
            \<lparr>rc_row_group_index = rc_row_group_index cur + 1, rc_row_index = row, rc_loaded = None\<rparr>))"
  by pat_completeness auto
termination
  by (relation "measure (\<lambda>(cx, seg, cur). length (sg_row_groups seg) - rc_row_group_index cur)") auto

declare next_record.simps [simp del]

end
