(* ===== verification/Segment_Spec.thy ===== *)
theory Segment_Spec
  imports Segment
begin

text \<open>
  What a well-formed segment promises to its readers. The rows of a segment are the rows of its
  groups in order; the invariant \<open>seg_inv\<close> says that every row can be read, that the rows are in
  strict key and sequence order, and that the bounds and filters of the row groups describe them.
  Point reads, scans and cursors are proved against these rows, and the segment meets the
  contract \<open>version_source\<close> of its readers.
\<close>

section \<open>Rows and invariant\<close>

definition record_less :: "bytes \<times> versioned_value \<Rightarrow> bytes \<times> versioned_value \<Rightarrow> bool" where
  "record_less a b \<longleftrightarrow> fst a < fst b \<or> (fst a = fst b \<and> vv_sequence (snd a) < vv_sequence (snd b))"

definition row_of :: "loaded_row_group \<Rightarrow> nat \<Rightarrow> bytes \<times> versioned_value" where
  "row_of l row = (projr (key_at (lg_spine l) row),
     \<lparr>vv_sequence = projr (sequence_at (lg_spine l) row),
      vv_value = projr (value_from_columns (lg_columns l) row)\<rparr>)"

definition row_readable :: "loaded_row_group \<Rightarrow> nat \<Rightarrow> bool" where
  "row_readable l row \<longleftrightarrow>
     key_at (lg_spine l) row = Inr (fst (row_of l row))
     \<and> sequence_at (lg_spine l) row = Inr (vv_sequence (snd (row_of l row)))
     \<and> value_from_columns (lg_columns l) row = Inr (vv_value (snd (row_of l row)))"

definition group_ok :: "codec \<Rightarrow> segment \<Rightarrow> nat \<Rightarrow> bool" where
  "group_ok cx seg i \<longleftrightarrow> (\<exists>l. load_row_group cx seg i = Inr l
     \<and> (\<forall>row < rg_row_count (sg_row_groups seg ! i). row_readable l row))"

definition group_records :: "codec \<Rightarrow> segment \<Rightarrow> nat \<Rightarrow> (bytes \<times> versioned_value) list" where
  "group_records cx seg i =
     (case load_row_group cx seg i of
        Inl _ \<Rightarrow> []
      | Inr l \<Rightarrow> map (row_of l) [0..<rg_row_count (sg_row_groups seg ! i)])"

definition segment_records :: "codec \<Rightarrow> segment \<Rightarrow> (bytes \<times> versioned_value) list" where
  "segment_records cx seg = concat (map (group_records cx seg) [0..<length (sg_row_groups seg)])"

definition segment_rows :: "codec \<Rightarrow> segment \<Rightarrow> rows" where
  "segment_rows cx seg = set (segment_records cx seg)"

definition group_described :: "codec \<Rightarrow> segment \<Rightarrow> nat \<Rightarrow> bool" where
  "group_described cx seg i \<longleftrightarrow>
     group_ok cx seg i \<and> group_records cx seg i \<noteq> []
     \<and> fst (hd (group_records cx seg i)) = rg_first_key (sg_row_groups seg ! i)
     \<and> fst (last (group_records cx seg i)) = rg_last_key (sg_row_groups seg ! i)
     \<and> (\<forall>e \<in> set (group_records cx seg i). may_contain (rg_filter (sg_row_groups seg ! i)) (fst e))"

definition seg_inv :: "codec \<Rightarrow> segment \<Rightarrow> bool" where
  "seg_inv cx seg \<longleftrightarrow>
     sg_row_groups seg \<noteq> []
     \<and> (\<forall>i < length (sg_row_groups seg). group_described cx seg i)
     \<and> sorted_wrt (\<lambda>g h. rg_last_key g < rg_first_key h) (sg_row_groups seg)
     \<and> sorted_wrt record_less (segment_records cx seg)
     \<and> sd_first_key (sg_descriptor seg) = rg_first_key (hd (sg_row_groups seg))
     \<and> sd_last_key (sg_descriptor seg) = rg_last_key (last (sg_row_groups seg))
     \<and> 0 < sd_minimum_sequence (sg_descriptor seg)
     \<and> (\<forall>e \<in> segment_rows cx seg. sd_minimum_sequence (sg_descriptor seg) \<le> vv_sequence (snd e)
          \<and> vv_sequence (snd e) \<le> sd_maximum_sequence (sg_descriptor seg))"

section \<open>Consequences of the invariant\<close>

lemma load_row_group_Inr:
  "load_row_group cx seg i = Inr l \<longleftrightarrow>
     load_key_spine cx seg i = Inr (lg_spine l) \<and> load_value_columns cx seg i = Inr (lg_columns l)"
  by (cases l) (auto simp: load_row_group_def rbind_Inr)

lemma group_okE:
  assumes "group_ok cx seg i"
  obtains spine columns where "load_key_spine cx seg i = Inr spine"
    and "load_value_columns cx seg i = Inr columns"
    and "length (group_records cx seg i) = rg_row_count (sg_row_groups seg ! i)"
    and "\<And>row. row < rg_row_count (sg_row_groups seg ! i) \<Longrightarrow>
      key_at spine row = Inr (fst (group_records cx seg i ! row))
      \<and> sequence_at spine row = Inr (vv_sequence (snd (group_records cx seg i ! row)))
      \<and> value_from_columns columns row = Inr (vv_value (snd (group_records cx seg i ! row)))"
proof -
  from assms obtain l where l: "load_row_group cx seg i = Inr l"
    and ok: "\<forall>row < rg_row_count (sg_row_groups seg ! i). row_readable l row"
    by (auto simp: group_ok_def)
  have "group_records cx seg i = map (row_of l) [0..<rg_row_count (sg_row_groups seg ! i)]"
    using l by (simp add: group_records_def)
  with l ok show ?thesis
    by (intro that [of "lg_spine l" "lg_columns l"]) (auto simp: load_row_group_Inr row_readable_def)
qed

lemma sorted_wrt_concat: "sorted_wrt P (concat xss) \<Longrightarrow> xs \<in> set xss \<Longrightarrow> sorted_wrt P xs"
  by (induction xss) (auto simp: sorted_wrt_append)

lemma record_less_trans: "record_less a b \<Longrightarrow> record_less b c \<Longrightarrow> record_less a c"
  by (auto simp: record_less_def)

lemma records_mono:
  assumes "sorted_wrt record_less rs" and "i \<le> j" and "j < length rs"
  shows "fst (rs ! i) \<le> fst (rs ! j)"
proof (cases "i = j")
  case False
  then have "record_less (rs ! i) (rs ! j)" using assms by (intro sorted_wrt_nth_less [OF assms(1)]) auto
  then show ?thesis by (auto simp: record_less_def)
qed simp

lemma segment_rows_iff: "e \<in> segment_rows cx seg \<longleftrightarrow> (\<exists>i < length (sg_row_groups seg). e \<in> set (group_records cx seg i))"
  by (auto simp: segment_rows_def segment_records_def)

lemma seg_inv_group:
  assumes "seg_inv cx seg" and "i < length (sg_row_groups seg)"
  shows "group_described cx seg i" and "sorted_wrt record_less (group_records cx seg i)"
  using assms sorted_wrt_concat [of record_less _ "group_records cx seg i"]
  by (auto simp: seg_inv_def segment_records_def)

lemma group_bounds:
  assumes "seg_inv cx seg" and "i < length (sg_row_groups seg)" and "e \<in> set (group_records cx seg i)"
  shows "rg_first_key (sg_row_groups seg ! i) \<le> fst e" and "fst e \<le> rg_last_key (sg_row_groups seg ! i)"
proof -
  let ?rs = "group_records cx seg i"
  have ne: "?rs \<noteq> []" using assms(3) by auto
  have sorted: "sorted_wrt record_less ?rs" by (rule seg_inv_group [OF assms(1,2)])
  have hd: "fst (hd ?rs) = rg_first_key (sg_row_groups seg ! i)"
    and last: "fst (last ?rs) = rg_last_key (sg_row_groups seg ! i)"
    using seg_inv_group(1) [OF assms(1,2)] by (auto simp: group_described_def)
  have "fst (hd ?rs) \<le> fst e"
    using sorted assms(3) ne by (cases ?rs) (auto simp: record_less_def)
  moreover have "fst e \<le> fst (last ?rs)"
    using sorted assms(3) ne by (cases ?rs rule: rev_cases) (auto simp: record_less_def sorted_wrt_append)
  ultimately show "rg_first_key (sg_row_groups seg ! i) \<le> fst e"
    and "fst e \<le> rg_last_key (sg_row_groups seg ! i)"
    by (simp_all add: hd last)
qed

lemma group_first_le_last:
  assumes "seg_inv cx seg" and "i < length (sg_row_groups seg)"
  shows "rg_first_key (sg_row_groups seg ! i) \<le> rg_last_key (sg_row_groups seg ! i)"
proof -
  have "hd (group_records cx seg i) \<in> set (group_records cx seg i)"
    using seg_inv_group(1) [OF assms] by (simp add: group_described_def)
  from group_bounds [OF assms this] show ?thesis by (rule order_trans)
qed

lemma groups_ordered:
  "seg_inv cx seg \<Longrightarrow> i < j \<Longrightarrow> j < length (sg_row_groups seg) \<Longrightarrow>
   rg_last_key (sg_row_groups seg ! i) < rg_first_key (sg_row_groups seg ! j)"
  by (auto simp: seg_inv_def sorted_wrt_iff_nth_less)

lemma segment_bounds:
  assumes "seg_inv cx seg" and "e \<in> segment_rows cx seg"
  shows "sd_first_key (sg_descriptor seg) \<le> fst e" and "fst e \<le> sd_last_key (sg_descriptor seg)"
proof -
  let ?n = "length (sg_row_groups seg)"
  obtain i where i: "i < ?n" and e: "e \<in> set (group_records cx seg i)"
    using assms(2) by (auto simp: segment_rows_iff)
  have ne: "sg_row_groups seg \<noteq> []" using i by auto
  have "rg_first_key (sg_row_groups seg ! 0) \<le> rg_first_key (sg_row_groups seg ! i)"
  proof (cases "i = 0")
    case False
    have "rg_first_key (sg_row_groups seg ! 0) \<le> rg_last_key (sg_row_groups seg ! 0)"
      by (rule group_first_le_last [OF assms(1)]) (use ne in simp)
    also have "\<dots> < rg_first_key (sg_row_groups seg ! i)"
      by (rule groups_ordered [OF assms(1)]) (use False i in auto)
    finally show ?thesis by simp
  qed simp
  moreover have "rg_last_key (sg_row_groups seg ! i) \<le> rg_last_key (sg_row_groups seg ! (?n - 1))"
  proof (cases "i = ?n - 1")
    case False
    have "rg_last_key (sg_row_groups seg ! i) < rg_first_key (sg_row_groups seg ! (?n - 1))"
      by (rule groups_ordered [OF assms(1)]) (use False i in auto)
    also have "\<dots> \<le> rg_last_key (sg_row_groups seg ! (?n - 1))"
      by (rule group_first_le_last [OF assms(1)]) (use i in auto)
    finally show ?thesis by simp
  qed simp
  ultimately show "sd_first_key (sg_descriptor seg) \<le> fst e" and "fst e \<le> sd_last_key (sg_descriptor seg)"
    using group_bounds [OF assms(1) i e] assms(1) ne
    by (auto simp: seg_inv_def hd_conv_nth last_conv_nth intro: order_trans)
qed

lemma records_unique: "sorted_wrt record_less rs \<Longrightarrow> rows_unique (set rs)"
  by (induction rs) (fastforce simp: rows_unique_def record_less_def)+

lemma segment_rows_unique: "seg_inv cx seg \<Longrightarrow> rows_unique (segment_rows cx seg)"
  unfolding segment_rows_def by (rule records_unique) (simp add: seg_inv_def)

section \<open>Binary search\<close>

lemma lower_bound_between_spec:
  assumes "\<And>row. row < length rs \<Longrightarrow> key_at spine row = Inr (fst (rs ! row))"
    and "sorted_wrt record_less rs" and "left \<le> right" and "right \<le> length rs"
    and "\<And>row. row < left \<Longrightarrow> fst (rs ! row) < key"
    and "\<And>row. right \<le> row \<Longrightarrow> row < length rs \<Longrightarrow> key \<le> fst (rs ! row)"
  shows "\<exists>l \<le> length rs. lower_bound_between spine key left right = Inr l
    \<and> (\<forall>row < l. fst (rs ! row) < key) \<and> (\<forall>row. l \<le> row \<and> row < length rs \<longrightarrow> key \<le> fst (rs ! row))"
  using assms(3-)
proof (induction "right - left" arbitrary: left right rule: less_induct)
  case less
  show ?case
  proof (cases "left < right")
    case False
    then show ?thesis using less.prems by (auto simp: lower_bound_between.simps)
  next
    case True
    define middle where "middle = left + (right - left) div 2"
    have m: "middle < length rs" "left \<le> middle" "middle < right"
      using True less.prems by (auto simp: middle_def)
    note mono = records_mono [OF assms(2)]
    have step: "lower_bound_between spine key left right =
        (if fst (rs ! middle) < key then lower_bound_between spine key (middle + 1) right
         else lower_bound_between spine key left middle)"
      using True assms(1) [OF m(1)]
      by (simp add: lower_bound_between.simps [of spine key left right] Let_def middle_def)
    show ?thesis
    proof (cases "fst (rs ! middle) < key")
      case lt: True
      have "fst (rs ! row) < key" if "row < middle + 1" for row
        using mono [of row middle] m lt that by (auto intro: order_le_less_trans)
      with less.prems m lt show ?thesis unfolding step by (simp only: if_True) (rule less.hyps, auto)
    next
      case False
      have "key \<le> fst (rs ! row)" if "middle \<le> row" "row < length rs" for row
        using mono [of middle row] m False that by (auto simp: not_less intro: order_trans)
      with less.prems m False show ?thesis unfolding step by (simp only: if_False) (rule less.hyps, auto)
    qed
  qed
qed

section \<open>Point reads\<close>

text \<open>What has been selected after the rows before \<open>row\<close>: the newest readable version of the key.\<close>

definition selected_upto ::
  "(bytes \<times> versioned_value) list \<Rightarrow> bytes \<Rightarrow> nat \<Rightarrow> nat \<Rightarrow> (nat \<times> nat) option \<Rightarrow> bool" where
  "selected_upto rs key r row sel \<longleftrightarrow>
     (case sel of
        None \<Rightarrow> \<forall>j < row. fst (rs ! j) = key \<longrightarrow> r < vv_sequence (snd (rs ! j))
      | Some (i, n) \<Rightarrow> i < row \<and> fst (rs ! i) = key \<and> n = vv_sequence (snd (rs ! i)) \<and> n \<le> r
          \<and> (\<forall>j < row. fst (rs ! j) = key \<and> vv_sequence (snd (rs ! j)) \<le> r \<longrightarrow> vv_sequence (snd (rs ! j)) \<le> n))"

lemma selected_upto_Suc:
  assumes "sorted_wrt record_less rs" and "row < length rs" and "fst (rs ! row) = key"
    and "selected_upto rs key r row sel"
  shows "selected_upto rs key r (row + 1)
    (if vv_sequence (snd (rs ! row)) \<le> r then Some (row, vv_sequence (snd (rs ! row))) else sel)"
proof -
  have "vv_sequence (snd (rs ! j)) \<le> vv_sequence (snd (rs ! row))" if "j < row" "fst (rs ! j) = key" for j
    using sorted_wrt_nth_less [OF assms(1) that(1) assms(2)] that assms(3) by (auto simp: record_less_def)
  with assms show ?thesis
    by (auto simp: selected_upto_def less_Suc_eq split: option.splits)
qed

lemma selected_upto_end:
  assumes "row \<le> n" and "\<And>j. row \<le> j \<Longrightarrow> j < n \<Longrightarrow> fst (rs ! j) \<noteq> key"
    and "selected_upto rs key r row sel"
  shows "selected_upto rs key r n sel"
proof -
  have "j < row" if "j < n" "fst (rs ! j) = key" for j
    using assms(2) [of j] that by (meson not_le)
  with assms show ?thesis by (auto simp: selected_upto_def split: option.splits)
qed

lemma select_rows_spec:
  assumes "\<And>row. row < length rs \<Longrightarrow> key_at spine row = Inr (fst (rs ! row))
      \<and> sequence_at spine row = Inr (vv_sequence (snd (rs ! row)))"
    and "sorted_wrt record_less rs" and "row \<le> length rs"
    and "\<And>j. row \<le> j \<Longrightarrow> j < length rs \<Longrightarrow> key \<le> fst (rs ! j)"
    and "selected_upto rs key r row sel"
  shows "\<exists>out. select_rows spine (length rs) key r row sel = Inr out \<and> selected_upto rs key r (length rs) out"
  using assms(3-)
proof (induction "length rs - row" arbitrary: row sel)
  case 0
  then show ?case by (auto simp: select_rows.simps [of _ _ _ _ row])
next
  case (Suc n)
  then have lt: "row < length rs" by simp
  show ?case
  proof (cases "fst (rs ! row) = key")
    case True
    have "selected_upto rs key r (row + 1)
        (if vv_sequence (snd (rs ! row)) \<le> r then Some (row, vv_sequence (snd (rs ! row))) else sel)"
      by (rule selected_upto_Suc [OF assms(2) lt True Suc.prems(3)])
    then have "\<exists>out. select_rows spine (length rs) key r (row + 1)
        (if vv_sequence (snd (rs ! row)) \<le> r then Some (row, vv_sequence (snd (rs ! row))) else sel) = Inr out
        \<and> selected_upto rs key r (length rs) out"
      using Suc lt by (intro Suc.hyps(1)) auto
    with True lt assms(1) [OF lt] show ?thesis by (simp add: select_rows.simps [of _ _ _ _ row])
  next
    case False
    have after: "fst (rs ! j) \<noteq> key" if "row \<le> j" "j < length rs" for j
    proof -
      have "key < fst (rs ! row)" using Suc.prems(2) [of row] lt False by simp
      also have "fst (rs ! row) \<le> fst (rs ! j)"
        by (rule records_mono [OF assms(2) that])
      finally show ?thesis by simp
    qed
    have "selected_upto rs key r (length rs) sel"
      by (rule selected_upto_end [OF Suc.prems(1) after Suc.prems(3)])
    with False lt assms(1) [OF lt] show ?thesis by (simp add: select_rows.simps [of _ _ _ _ row])
  qed
qed

lemma partition_point_le: "partition_point P xs \<le> length xs"
  by (simp add: partition_point_def length_takeWhile_le)

lemma partition_point_before: "j < partition_point P xs \<Longrightarrow> P (xs ! j)"
  unfolding partition_point_def by (metis nth_mem set_takeWhileD takeWhile_nth)

lemma partition_point_at: "partition_point P xs < length xs \<Longrightarrow> \<not> P (xs ! partition_point P xs)"
  unfolding partition_point_def by (rule nth_length_takeWhile)

text \<open>A key lives in the one group the search finds.\<close>

lemma key_in_group:
  fixes key :: bytes and seg :: segment
  defines "index \<equiv> partition_point (\<lambda>g. rg_last_key g < key) (sg_row_groups seg)"
  assumes "seg_inv cx seg" and "(key, v) \<in> segment_rows cx seg"
  shows "index < length (sg_row_groups seg)" and "rg_first_key (sg_row_groups seg ! index) \<le> key"
    and "(key, v) \<in> set (group_records cx seg index)"
proof -
  obtain i where i: "i < length (sg_row_groups seg)" and mem: "(key, v) \<in> set (group_records cx seg i)"
    using assms(3) by (auto simp: segment_rows_iff)
  have bounds: "rg_first_key (sg_row_groups seg ! i) \<le> key" "key \<le> rg_last_key (sg_row_groups seg ! i)"
    using group_bounds [OF assms(2) i mem] by simp_all
  have "\<not> i < index"
    using partition_point_before [of i "\<lambda>g. rg_last_key g < key" "sg_row_groups seg"] bounds(2)
    by (auto simp: index_def)
  moreover have "\<not> index < i"
  proof
    assume lt: "index < i"
    have "key \<le> rg_last_key (sg_row_groups seg ! index)"
      using partition_point_at [of "\<lambda>g. rg_last_key g < key" "sg_row_groups seg"] lt i by (simp add: index_def)
    also have "\<dots> < rg_first_key (sg_row_groups seg ! i)" by (rule groups_ordered [OF assms(2) lt i])
    finally show False using bounds(1) by simp
  qed
  ultimately have "index = i" by simp
  with i mem bounds show "index < length (sg_row_groups seg)"
    "rg_first_key (sg_row_groups seg ! index) \<le> key" "(key, v) \<in> set (group_records cx seg index)"
    by simp_all
qed

lemma value_at_columns:
  "load_value_columns cx seg i = Inr columns \<Longrightarrow> value_at cx seg i row = value_from_columns columns row"
  by (cases "load_page cx seg i ValueValidity"; cases "load_page cx seg i ValueOffsets";
      cases "load_page cx seg i ValueData")
    (auto simp: load_value_columns_def value_at_def value_from_columns_def intro!: rbind_cong)

text \<open>The version a point read selects, told by the sequence and the value it reads.\<close>

definition selects :: "codec \<Rightarrow> segment \<Rightarrow> bytes \<Rightarrow> nat \<Rightarrow> selected_version option \<Rightarrow> bool" where
  "selects cx seg key r s \<longleftrightarrow>
     (case s of
        None \<Rightarrow> \<forall>v. \<not> visible_at (segment_rows cx seg) key r v
      | Some sv \<Rightarrow> \<exists>v. visible_at (segment_rows cx seg) key r v
          \<and> sv_sequence sv = vv_sequence v \<and> selected_value cx seg sv = Inr (vv_value v))"

lemma selects_None: "(\<And>v. (key, v) \<in> segment_rows cx seg \<Longrightarrow> r < vv_sequence v) \<Longrightarrow> selects cx seg key r None"
  by (fastforce simp: selects_def visible_at_def)

lemma select_in_group:
  fixes key :: bytes and seg :: segment
  defines "index \<equiv> partition_point (\<lambda>g. rg_last_key g < key) (sg_row_groups seg)"
  assumes inv: "seg_inv cx seg" and lt: "index < length (sg_row_groups seg)"
    and spine: "load_key_spine cx seg index = Inr spine"
  shows "\<exists>row selected. lower_bound spine (rg_row_count (sg_row_groups seg ! index)) key = Inr row
    \<and> select_rows spine (rg_row_count (sg_row_groups seg ! index)) key r row None = Inr selected
    \<and> selects cx seg key r (map_option (\<lambda>(row, sequence).
        \<lparr>sv_row_group = index, sv_row = row, sv_sequence = sequence\<rparr>) selected)"
proof -
  let ?rs = "group_records cx seg index" and ?n = "rg_row_count (sg_row_groups seg ! index)"
  note described = seg_inv_group [OF inv lt]
  from described(1) have "group_ok cx seg index" by (simp add: group_described_def)
  then obtain columns where columns: "load_value_columns cx seg index = Inr columns"
    and len: "length ?rs = ?n"
    and rows: "\<And>row. row < ?n \<Longrightarrow> key_at spine row = Inr (fst (?rs ! row))
      \<and> sequence_at spine row = Inr (vv_sequence (snd (?rs ! row)))
      \<and> value_from_columns columns row = Inr (vv_value (snd (?rs ! row)))"
    using spine by (elim group_okE) auto
  obtain row where row: "row \<le> length ?rs" "lower_bound spine ?n key = Inr row"
    and below: "\<forall>j < row. fst (?rs ! j) < key"
    and above: "\<forall>j. row \<le> j \<and> j < length ?rs \<longrightarrow> key \<le> fst (?rs ! j)"
    using lower_bound_between_spec [of ?rs spine 0 ?n key] rows described(2) len
    by (auto simp: lower_bound_def)
  have "selected_upto ?rs key r row None" using below by (auto simp: selected_upto_def)
  then obtain selected where sel: "select_rows spine (length ?rs) key r row None = Inr selected"
    and upto: "selected_upto ?rs key r (length ?rs) selected"
    using select_rows_spec [of ?rs spine row key r None] rows described(2) row above len by auto
  have all: "(key, v) \<in> segment_rows cx seg \<Longrightarrow> \<exists>j < length ?rs. ?rs ! j = (key, v)" for v
    using key_in_group(3) [OF inv, of key v] by (auto simp: index_def in_set_conv_nth)
  have mem: "?rs ! j \<in> segment_rows cx seg" if "j < length ?rs" for j
    using that lt by (auto simp: segment_rows_iff intro: nth_mem)
  have "selects cx seg key r (map_option (\<lambda>(row, sequence).
        \<lparr>sv_row_group = index, sv_row = row, sv_sequence = sequence\<rparr>) selected)"
  proof (cases selected)
    case None
    have "r < vv_sequence v" if "(key, v) \<in> segment_rows cx seg" for v
      using all [OF that] upto None by (force simp: selected_upto_def)
    then show ?thesis using None by (simp add: selects_None)
  next
    case (Some p)
    obtain j n where p: "p = (j, n)" by (cases p)
    have j: "j < length ?rs" "fst (?rs ! j) = key" "n = vv_sequence (snd (?rs ! j))" "n \<le> r"
      and newest: "\<And>i. i < length ?rs \<Longrightarrow> fst (?rs ! i) = key \<Longrightarrow> vv_sequence (snd (?rs ! i)) \<le> r
        \<Longrightarrow> vv_sequence (snd (?rs ! i)) \<le> n"
      using upto Some p by (auto simp: selected_upto_def)
    have pair: "(key, snd (?rs ! j)) = ?rs ! j" using j(2) by (simp add: prod_eq_iff)
    have "visible_at (segment_rows cx seg) key r (snd (?rs ! j))"
      unfolding visible_at_def pair using mem [OF j(1)] j all newest by force
    moreover have "selected_value cx seg \<lparr>sv_row_group = index, sv_row = j, sv_sequence = n\<rparr>
        = Inr (vv_value (snd (?rs ! j)))"
      using rows [of j] j(1) len by (simp add: selected_value_def value_at_columns [OF columns])
    ultimately show ?thesis using Some p j by (auto simp: selects_def)
  qed
  with row sel len show ?thesis by auto
qed

lemma select_version_spec:
  assumes inv: "seg_inv cx seg"
  shows "\<exists>s. select_version cx seg key r = Inr s \<and> selects cx seg key r s"
proof -
  let ?d = "sg_descriptor seg"
  define index where "index = partition_point (\<lambda>g. rg_last_key g < key) (sg_row_groups seg)"
  have outside: "selects cx seg key r None" if "\<And>v. (key, v) \<notin> segment_rows cx seg"
    using that by (intro selects_None) auto
  consider "key < sd_first_key ?d \<or> key > sd_last_key ?d" | "r < sd_minimum_sequence ?d"
    | "\<not> (key < sd_first_key ?d \<or> key > sd_last_key ?d)" "\<not> r < sd_minimum_sequence ?d" by blast
  then show ?thesis
  proof cases
    case 1
    then have "(key, v) \<notin> segment_rows cx seg" for v
      using segment_bounds [OF inv, of "(key, v)"] by auto
    with 1 outside show ?thesis by (auto simp: select_version_def)
  next
    case 2
    have "r < vv_sequence v" if "(key, v) \<in> segment_rows cx seg" for v
      using inv that 2 by (force simp: seg_inv_def)
    then show ?thesis using 2 selects_None by (auto simp: select_version_def)
  next
    case 3
    show ?thesis
    proof (cases "index \<ge> length (sg_row_groups seg) \<or> key < rg_first_key (sg_row_groups seg ! index)
        \<or> \<not> may_contain (rg_filter (sg_row_groups seg ! index)) key")
      case True
      have "(key, v) \<notin> segment_rows cx seg" for v
      proof
        assume mem: "(key, v) \<in> segment_rows cx seg"
        note in_group = key_in_group [OF inv mem, folded index_def]
        have "may_contain (rg_filter (sg_row_groups seg ! index)) key"
          using seg_inv_group(1) [OF inv in_group(1)] in_group(3) by (force simp: group_described_def)
        with True in_group show False by auto
      qed
      then have "selects cx seg key r None" by (rule outside)
      moreover have "select_version cx seg key r = Inr None"
        using 3 True by (simp add: select_version_def index_def Let_def) blast
      ultimately show ?thesis by auto
    next
      case False
      then have lt: "index < length (sg_row_groups seg)" by simp
      then have "group_ok cx seg index" using seg_inv_group(1) [OF inv] by (simp add: group_described_def)
      then obtain spine where spine: "load_key_spine cx seg index = Inr spine" by (elim group_okE)
      obtain row selected
        where "lower_bound spine (rg_row_count (sg_row_groups seg ! index)) key = Inr row"
          and "select_rows spine (rg_row_count (sg_row_groups seg ! index)) key r row None = Inr selected"
          and "selects cx seg key r (map_option (\<lambda>(row, sequence).
            \<lparr>sv_row_group = index, sv_row = row, sv_sequence = sequence\<rparr>) selected)"
        using select_in_group [OF inv, of key spine r] lt spine by (auto simp: index_def)
      with 3 False spine show ?thesis by (simp add: select_version_def index_def [symmetric] Let_def)
    qed
  qed
qed

section \<open>Scans\<close>

lemma visible_group_spec:
  assumes "group_ok cx seg i"
  shows "visible_group cx seg wanted r grouped i = Inr (foldl newest_put grouped
    (filter (\<lambda>e. wanted (fst e) \<and> vv_sequence (snd e) \<le> r) (group_records cx seg i)))"
proof -
  let ?rs = "group_records cx seg i" and ?n = "rg_row_count (sg_row_groups seg ! i)"
  let ?P = "\<lambda>e. wanted (fst e) \<and> vv_sequence (snd e) \<le> r"
  obtain spine columns where spine: "load_key_spine cx seg i = Inr spine"
    and columns: "load_value_columns cx seg i = Inr columns" and len: "length ?rs = ?n"
    and rows: "\<And>row. row < ?n \<Longrightarrow> key_at spine row = Inr (fst (?rs ! row))
      \<and> sequence_at spine row = Inr (vv_sequence (snd (?rs ! row)))
      \<and> value_from_columns columns row = Inr (vv_value (snd (?rs ! row)))"
    using assms by (elim group_okE) blast
  have pair: "(fst e, \<lparr>vv_sequence = vv_sequence (snd e), vv_value = vv_value (snd e)\<rparr>) = e"
    for e :: "bytes \<times> versioned_value" by (cases e) auto
  have "visible_row cx seg i spine wanted r m row
      = Inr (if ?P (?rs ! row) then newest_put m (?rs ! row) else m)" if "row < ?n" for m row
    using rows [OF that] columns by (simp add: visible_row_def pair)
  then have "try_fold (visible_row cx seg i spine wanted r) grouped [0..<?n]
      = Inr (foldl (\<lambda>m row. if ?P (?rs ! row) then newest_put m (?rs ! row) else m) grouped [0..<?n])"
    by (intro try_fold_foldl) simp
  moreover have "foldl (\<lambda>m row. if ?P (?rs ! row) then newest_put m (?rs ! row) else m) grouped [0..<?n]
      = foldl (\<lambda>m e. if ?P e then newest_put m e else m) grouped (map ((!) ?rs) [0..<?n])"
    by (simp add: foldl_map)
  moreover have "map ((!) ?rs) [0..<?n] = ?rs" using len by (metis map_nth)
  moreover have "foldl (\<lambda>m e. if ?P e then newest_put m e else m) grouped xs
      = foldl newest_put grouped (filter ?P xs)" for xs grouped
    by (induction xs arbitrary: grouped) auto
  ultimately show ?thesis by (simp add: visible_group_def spine)
qed

text \<open>
  A scan over a selection of groups that misses no wanted key returns, in key order, the
  visible version of every wanted key.
\<close>

lemma visible_groups_spec:
  assumes inv: "seg_inv cx seg" and "set indices \<subseteq> {..<length (sg_row_groups seg)}"
    and "\<And>i e. i < length (sg_row_groups seg) \<Longrightarrow> e \<in> set (group_records cx seg i) \<Longrightarrow> wanted (fst e)
      \<Longrightarrow> i \<in> set indices"
  shows "\<exists>es. try_fold (visible_group cx seg wanted r) [] indices = Inr es \<and> key_sorted es
    \<and> (\<forall>k v. map_of es k = Some v \<longleftrightarrow> wanted k \<and> visible_at (segment_rows cx seg) k r v)"
proof -
  let ?P = "\<lambda>e. wanted (fst e) \<and> vv_sequence (snd e) \<le> r"
  define rs where "rs = filter ?P (concat (map (group_records cx seg) indices))"
  have "group_ok cx seg i" if "i \<in> set indices" for i
    using seg_inv_group(1) [OF inv, of i] that assms(2) by (auto simp: group_described_def)
  then have "try_fold (visible_group cx seg wanted r) [] indices
      = Inr (foldl (\<lambda>m i. foldl newest_put m (filter ?P (group_records cx seg i))) [] indices)"
    by (intro try_fold_foldl visible_group_spec)
  moreover have "foldl (\<lambda>m i. foldl newest_put m (filter ?P (group_records cx seg i))) m is
      = foldl newest_put m (filter ?P (concat (map (group_records cx seg) is)))" for m "is"
    by (induction "is" arbitrary: m) auto
  ultimately have run: "try_fold (visible_group cx seg wanted r) [] indices = Inr (foldl newest_put [] rs)"
    by (simp add: rs_def)
  have rows: "set rs = {e \<in> segment_rows cx seg. ?P e}"
    using assms(2,3) by (fastforce simp: rs_def segment_rows_iff)
  have uniq: "rows_unique (set rs)"
    using segment_rows_unique [OF inv] unfolding rows by (auto simp: rows_unique_def)
  have visible: "visible_at (set rs) k r v \<longleftrightarrow> wanted k \<and> visible_at (segment_rows cx seg) k r v" for k v
    unfolding rows by (auto simp: visible_at_def)
  have "\<forall>e \<in> set rs. vv_sequence (snd e) \<le> r" unfolding rows by simp
  from newest_fold_visible [OF uniq this]
  have "map_of (foldl newest_put [] rs) k = Some v
      \<longleftrightarrow> wanted k \<and> visible_at (segment_rows cx seg) k r v" for k v
    by (simp only: visible)
  with run show ?thesis using key_sorted_newest_fold [of "[]" rs] by auto
qed

lemma takeWhile_upt_mem:
  assumes "a \<le> i" and "i < n" and "\<And>j. a \<le> j \<Longrightarrow> j \<le> i \<Longrightarrow> P j"
  shows "i \<in> set (takeWhile P [a..<n])"
proof -
  have split: "[a..<n] = [a..<Suc i] @ [Suc i..<n]"
    using assms(1,2) upt_add_eq_append [of a "Suc i" "n - Suc i"] by simp
  have "takeWhile P [a..<n] = [a..<Suc i] @ takeWhile P [Suc i..<n]"
    unfolding split by (rule takeWhile_append2) (use assms(3) in auto)
  then show ?thesis using assms(1) by simp
qed

text \<open>The groups between the first that reaches \<open>start\<close> and the first that begins at or after \<open>stop\<close>.\<close>

lemma range_groups_cover:
  fixes seg :: segment and start :: bytes
  defines "first \<equiv> partition_point (\<lambda>g. rg_last_key g < start) (sg_row_groups seg)"
  assumes inv: "seg_inv cx seg" and i: "i < length (sg_row_groups seg)"
    and e: "e \<in> set (group_records cx seg i)" and "start \<le> fst e" and "case stop of None \<Rightarrow> True | Some s \<Rightarrow> fst e < s"
  shows "i \<in> set (takeWhile (\<lambda>index. \<not> (case stop of None \<Rightarrow> False
    | Some s \<Rightarrow> rg_first_key (sg_row_groups seg ! index) \<ge> s)) [first..<length (sg_row_groups seg)])"
proof (rule takeWhile_upt_mem [OF _ i])
  note bounds = group_bounds [OF inv i e]
  show "first \<le> i"
  proof (rule ccontr)
    assume "\<not> first \<le> i"
    then have "rg_last_key (sg_row_groups seg ! i) < start"
      unfolding first_def using partition_point_before [of i _ "sg_row_groups seg"] by (simp add: not_le)
    with bounds(2) assms(5) show False by simp
  qed
  fix j assume "j \<le> i"
  then have "rg_first_key (sg_row_groups seg ! j) \<le> rg_first_key (sg_row_groups seg ! i)"
    using groups_ordered [OF inv, of j i] group_first_le_last [OF inv, of j] i
    by (cases "j = i") (auto intro: order_trans less_imp_le)
  with bounds(1) assms(6) show "\<not> (case stop of None \<Rightarrow> False
      | Some s \<Rightarrow> s \<le> rg_first_key (sg_row_groups seg ! j))"
    by (auto split: option.splits)
qed

lemma segment_visible_from_spec:
  assumes "seg_inv cx seg"
  shows "\<exists>es. segment_visible_from cx seg start stop r = Inr es \<and> key_sorted es
    \<and> (\<forall>k v. map_of es k = Some v \<longleftrightarrow> in_range start stop k \<and> visible_at (segment_rows cx seg) k r v)"
proof -
  define first where "first = partition_point (\<lambda>g. rg_last_key g < start) (sg_row_groups seg)"
  define indices where "indices = takeWhile (\<lambda>index. \<not> (case stop of None \<Rightarrow> False
    | Some s \<Rightarrow> rg_first_key (sg_row_groups seg ! index) \<ge> s)) [first..<length (sg_row_groups seg)]"
  have wanted: "(\<lambda>key. \<not> (key < start \<or> (case stop of None \<Rightarrow> False | Some e \<Rightarrow> key \<ge> e))) = in_range start stop"
    by (auto simp: in_range_def fun_eq_iff split: option.splits)
  have eq: "segment_visible_from cx seg start stop r
      = try_fold (visible_group cx seg (in_range start stop) r) [] indices"
    unfolding segment_visible_from_def Let_def wanted indices_def first_def by (rule refl)
  show ?thesis unfolding eq
  proof (rule visible_groups_spec [OF assms])
    show "set indices \<subseteq> {..<length (sg_row_groups seg)}"
      by (auto simp: indices_def dest: set_takeWhileD)
    fix i e
    assume "i < length (sg_row_groups seg)" "e \<in> set (group_records cx seg i)" "in_range start stop (fst e)"
    then show "i \<in> set indices"
      unfolding indices_def first_def using assms
      by (intro range_groups_cover) (auto simp: in_range_def)
  qed
qed

text \<open>Several ranges: sorted, disjoint and non-empty, as the callers check.\<close>

definition ranges_ok :: "(bytes \<times> bytes) list \<Rightarrow> bool" where
  "ranges_ok ranges \<longleftrightarrow> (\<forall>rg \<in> set ranges. fst rg < snd rg) \<and> sorted_wrt (\<lambda>a b. snd a \<le> fst b) ranges"

definition in_ranges :: "(bytes \<times> bytes) list \<Rightarrow> bytes \<Rightarrow> bool" where
  "in_ranges ranges key \<longleftrightarrow> (\<exists>rg \<in> set ranges. fst rg \<le> key \<and> key < snd rg)"

lemma ranges_wanted_iff:
  assumes "ranges_ok ranges"
  shows "ranges_wanted ranges key \<longleftrightarrow> in_ranges ranges key"
proof -
  define p where "p = partition_point (\<lambda>r. fst r \<le> key) ranges"
  have le: "p \<le> length ranges" by (simp add: p_def partition_point_le)
  have before: "fst (ranges ! i) \<le> key" if "i < p" for i
    using partition_point_before [of i "\<lambda>r. fst r \<le> key"] that by (simp add: p_def)
  have after: "key < fst (ranges ! p)" if "p < length ranges"
    using partition_point_at [of "\<lambda>r. fst r \<le> key"] that by (simp add: p_def not_le)
  have order: "snd (ranges ! i) \<le> fst (ranges ! j)" if "i < j" "j < length ranges" for i j
    using assms that by (auto simp: ranges_ok_def sorted_wrt_iff_nth_less)
  have nonempty: "fst (ranges ! i) < snd (ranges ! i)" if "i < length ranges" for i
    using assms that by (auto simp: ranges_ok_def)
  have "i = p - 1 \<and> p \<noteq> 0" if i: "i < length ranges" "fst (ranges ! i) \<le> key" "key < snd (ranges ! i)" for i
  proof -
    have "i < p"
    proof (rule ccontr)
      assume "\<not> i < p"
      then have "fst (ranges ! p) \<le> fst (ranges ! i)" if "p < length ranges"
        using order [of p i] nonempty [of p] i that by (cases "p = i") (auto intro: order_trans less_imp_le)
      with \<open>\<not> i < p\<close> i after show False by (meson leD le_less_trans not_le order_trans)
    qed
    moreover have "\<not> i < p - 1"
    proof
      assume lt: "i < p - 1"
      have "snd (ranges ! i) \<le> fst (ranges ! (p - 1))" using lt le by (intro order) auto
      also have "\<dots> \<le> key" using lt by (intro before) simp
      finally show False using i(3) by simp
    qed
    ultimately show ?thesis by simp
  qed
  moreover have "fst (ranges ! (p - 1)) \<le> key" "p - 1 < length ranges" if "p \<noteq> 0"
    using that before [of "p - 1"] le by auto
  ultimately show ?thesis
    unfolding ranges_wanted_def Let_def in_ranges_def p_def [symmetric]
    by (metis in_set_conv_nth)
qed

lemma segment_visible_ranges_spec:
  assumes inv: "seg_inv cx seg" and ok: "ranges_ok ranges"
  shows "\<exists>es. segment_visible_ranges cx seg ranges r = Inr es \<and> key_sorted es
    \<and> (\<forall>k v. map_of es k = Some v \<longleftrightarrow> in_ranges ranges k \<and> visible_at (segment_rows cx seg) k r v)"
proof (cases "ranges = [] \<or> r < sd_minimum_sequence (sg_descriptor seg)")
  case True
  have "\<not> visible_at (segment_rows cx seg) k r v" if "r < sd_minimum_sequence (sg_descriptor seg)" for k v
    using inv that by (force simp: seg_inv_def visible_at_def)
  with True show ?thesis by (auto simp: segment_visible_ranges_def in_ranges_def)
next
  case False
  define indices where "indices = remdups (sort (concat (map (range_groups seg) ranges)))"
  have mem: "set indices = (\<Union>rg \<in> set ranges. set (range_groups seg rg))" by (auto simp: indices_def)
  have eq: "segment_visible_ranges cx seg ranges r
      = try_fold (visible_group cx seg (in_ranges ranges) r) [] indices"
  proof -
    have "ranges_wanted ranges = in_ranges ranges" by (rule ext) (rule ranges_wanted_iff [OF ok])
    then show ?thesis using False by (simp add: segment_visible_ranges_def Let_def indices_def)
  qed
  show ?thesis unfolding eq
  proof (rule visible_groups_spec [OF inv])
    show "set indices \<subseteq> {..<length (sg_row_groups seg)}"
      unfolding mem by (auto simp: range_groups_def dest: set_takeWhileD)
    fix i e
    assume i: "i < length (sg_row_groups seg)" "e \<in> set (group_records cx seg i)"
      and "in_ranges ranges (fst e)"
    then obtain start stop where rg: "(start, stop) \<in> set ranges" "start \<le> fst e" "fst e < stop"
      by (auto simp: in_ranges_def)
    then have "i \<in> set (range_groups seg (start, stop))"
      using range_groups_cover [OF inv i, of start "Some stop"] by (simp add: range_groups_def not_le)
    with rg(1) show "i \<in> set indices" unfolding mem by blast
  qed
qed

section \<open>The contract of version sources\<close>

lemma segment_get_version_spec:
  assumes inv: "seg_inv cx seg"
  shows "\<exists>out. segment_get_version cx seg key r = Inr out
    \<and> (\<forall>v. out = Some v \<longleftrightarrow> visible_at (segment_rows cx seg) key r v)"
proof -
  obtain s where s: "select_version cx seg key r = Inr s" "selects cx seg key r s"
    using select_version_spec [OF inv] by blast
  show ?thesis
  proof (cases s)
    case None
    with s show ?thesis by (auto simp: segment_get_version_def selects_def)
  next
    case (Some sv)
    then obtain v where v: "visible_at (segment_rows cx seg) key r v"
      "sv_sequence sv = vv_sequence v" "selected_value cx seg sv = Inr (vv_value v)"
      using s(2) by (auto simp: selects_def)
    have "segment_get_version cx seg key r = Inr (Some v)"
      using s(1) Some v(2,3) by (simp add: segment_get_version_def)
    with v(1) show ?thesis using visible_unique [OF segment_rows_unique [OF inv]] by auto
  qed
qed

definition segment_version :: "codec \<Rightarrow> segment \<Rightarrow> bytes \<Rightarrow> nat \<Rightarrow> versioned_value option" where
  "segment_version cx seg key r = projr (segment_get_version cx seg key r)"

lemma segment_get_version_Inr:
  assumes "seg_inv cx seg"
  shows "segment_get_version cx seg key r = Inr (segment_version cx seg key r)"
proof -
  obtain out where "segment_get_version cx seg key r = Inr out"
    using segment_get_version_spec [OF assms] by blast
  then show ?thesis by (simp add: segment_version_def)
qed

lemma segment_version_visible:
  assumes "seg_inv cx seg"
  shows "segment_version cx seg key r = Some v \<longleftrightarrow> visible_at (segment_rows cx seg) key r v"
proof -
  obtain out where out: "segment_get_version cx seg key r = Inr out"
    and visible: "\<And>v. out = Some v \<longleftrightarrow> visible_at (segment_rows cx seg) key r v"
    using segment_get_version_spec [OF assms] by blast
  have "segment_version cx seg key r = out" by (simp add: segment_version_def out)
  then show ?thesis by (simp only: visible)
qed

interpretation sg: version_source "segment_rows cx" "seg_inv cx" "segment_version cx" "segment_visible_from cx"
  for cx
proof
  fix s k r v start stop es
  assume inv: "seg_inv cx s"
  show "rows_unique (segment_rows cx s)" by (rule segment_rows_unique [OF inv])
  show visible: "segment_version cx s k r = Some v \<longleftrightarrow> visible_at (segment_rows cx s) k r v" for k v
    by (rule segment_version_visible [OF inv])
  obtain es' where es': "segment_visible_from cx s start stop r = Inr es'" "key_sorted es'"
    and get: "\<And>k v. map_of es' k = Some v \<longleftrightarrow> in_range start stop k \<and> visible_at (segment_rows cx s) k r v"
    using segment_visible_from_spec [OF inv, of start stop r] by blast
  show "\<exists>es. segment_visible_from cx s start stop r = Inr es" using es' by blast
  assume es: "segment_visible_from cx s start stop r = Inr es"
  show "key_sorted es" using es es' by simp
  have "es = es'" using es es'(1) by simp
  then have "map_of es k = Some v \<longleftrightarrow> in_range start stop k \<and> segment_version cx s k r = Some v" for v
    by (simp only: get visible)
  then show "map_of es k = (if in_range start stop k then segment_version cx s k r else None)"
    by (intro option_extI) auto
qed

section \<open>Cursors\<close>

definition cursor_ok :: "codec \<Rightarrow> segment \<Rightarrow> record_cursor \<Rightarrow> bool" where
  "cursor_ok cx seg cur \<longleftrightarrow>
     (case rc_loaded cur of
        None \<Rightarrow> True
      | Some l \<Rightarrow> rc_row_group_index cur < length (sg_row_groups seg)
          \<and> load_row_group cx seg (rc_row_group_index cur) = Inr l)"

definition cursor_rest :: "codec \<Rightarrow> segment \<Rightarrow> record_cursor \<Rightarrow> (bytes \<times> versioned_value) list" where
  "cursor_rest cx seg cur =
     (case rc_loaded cur of
        None \<Rightarrow> concat (map (group_records cx seg) [rc_row_group_index cur..<length (sg_row_groups seg)])
      | Some _ \<Rightarrow> drop (rc_row_index cur) (group_records cx seg (rc_row_group_index cur))
          @ concat (map (group_records cx seg) [rc_row_group_index cur + 1..<length (sg_row_groups seg)]))"

lemma cursor_start_ok: "cursor_ok cx seg cursor_start" "cursor_rest cx seg cursor_start = segment_records cx seg"
  by (simp_all add: cursor_ok_def cursor_rest_def cursor_start_def segment_records_def)

text \<open>The cursor is a queue of the remaining records.\<close>

definition cursor_yields ::
  "codec \<Rightarrow> segment \<Rightarrow> (bytes \<times> versioned_value) list \<Rightarrow> (bytes \<times> versioned_value) option \<times> record_cursor \<Rightarrow> bool" where
  "cursor_yields cx seg rest out \<longleftrightarrow>
     cursor_ok cx seg (snd out) \<and> cursor_rest cx seg (snd out) = tl rest
     \<and> fst out = (case rest of [] \<Rightarrow> None | e # _ \<Rightarrow> Some e)"

lemma next_record_spec:
  assumes inv: "seg_inv cx seg" and "cursor_ok cx seg cur"
  shows "\<exists>out. next_record cx seg cur = Inr out \<and> cursor_yields cx seg (cursor_rest cx seg cur) out"
  using assms(2)
proof (induction "length (sg_row_groups seg) - rc_row_group_index cur" arbitrary: cur)
  case 0
  then show ?case
    by (auto simp: next_record.simps [of cx seg cur] cursor_yields_def cursor_rest_def cursor_ok_def
        split: option.splits)
next
  case (Suc n)
  define i where "i = rc_row_group_index cur"
  have i: "i < length (sg_row_groups seg)" using Suc.hyps(2) by (simp add: i_def)
  have described: "group_described cx seg i" by (rule seg_inv_group(1) [OF inv i])
  then obtain l where l: "load_row_group cx seg i = Inr l"
    and readable: "\<forall>row < rg_row_count (sg_row_groups seg ! i). row_readable l row"
    by (auto simp: group_described_def group_ok_def)
  have rs: "group_records cx seg i = map (row_of l) [0..<rg_row_count (sg_row_groups seg ! i)]"
    using l by (simp add: group_records_def)
  have nonempty: "rg_row_count (sg_row_groups seg ! i) \<noteq> 0"
    using described rs by (auto simp: group_described_def)
  define row where "row = (case rc_loaded cur of None \<Rightarrow> 0 | Some _ \<Rightarrow> rc_row_index cur)"
  have load: "cursor_load cx seg cur = Inr (l, row)"
    using Suc.prems l by (auto simp: cursor_load_def cursor_ok_def i_def row_def split: option.splits)
  have rest: "cursor_rest cx seg cur = drop row (group_records cx seg i)
      @ concat (map (group_records cx seg) [i + 1..<length (sg_row_groups seg)])"
    using i by (auto simp: cursor_rest_def row_def i_def upt_conv_Cons split: option.splits)
  show ?case
  proof (cases "row < rg_row_count (sg_row_groups seg ! i)")
    case True
    have pair: "(fst e, \<lparr>vv_sequence = vv_sequence (snd e), vv_value = vv_value (snd e)\<rparr>) = e"
      for e :: "bytes \<times> versioned_value" by (cases e) auto
    let ?cur = "cur\<lparr>rc_row_index := row + 1, rc_loaded := Some l\<rparr>"
    have "next_record cx seg cur = Inr (Some (row_of l row), ?cur)"
      using True readable i load
      by (simp add: next_record.simps [of cx seg cur] i_def [symmetric] row_readable_def pair)
    moreover have "drop row (group_records cx seg i) = row_of l row # drop (row + 1) (group_records cx seg i)"
      using True by (simp add: rs Cons_nth_drop_Suc [symmetric] del: upt_Suc)
    ultimately show ?thesis
      using i l rest by (auto simp: cursor_yields_def cursor_ok_def cursor_rest_def i_def)
  next
    case False
    let ?cur = "\<lparr>rc_row_group_index = i + 1, rc_row_index = row, rc_loaded = None\<rparr>"
    have "next_record cx seg cur = next_record cx seg ?cur"
      using False i load by (simp add: next_record.simps [of cx seg cur] i_def [symmetric])
    moreover have "cursor_rest cx seg cur = cursor_rest cx seg ?cur"
      using False rest by (simp add: rs cursor_rest_def)
    ultimately show ?thesis using Suc.hyps(1) [of ?cur] Suc.hyps(2) by (simp add: i_def cursor_ok_def)
  qed
qed

end
