(* ===== verification/Segment_Open.thy ===== *)
theory Segment_Open
  imports Segment_Spec
begin

text \<open>
  Opening a segment is sound: whatever bytes \<open>segment_open\<close> accepts form a segment that meets the
  invariant, because the index parser and the audit of all pages check everything the readers
  rely on.
\<close>

section \<open>The index parser\<close>

definition groups_ok :: "row_group_descriptor list \<Rightarrow> bool" where
  "groups_ok groups \<longleftrightarrow> sorted_wrt (\<lambda>g h. rg_last_key g < rg_first_key h) groups
     \<and> (\<forall>g \<in> set groups. rg_first_key g \<le> rg_last_key g)"

definition index_inv :: "index_cursor \<Rightarrow> bool" where
  "index_inv st \<longleftrightarrow> groups_ok (ix_row_groups st)
     \<and> ix_prior_last_key st = (if ix_row_groups st = [] then None
          else Some (rg_last_key (last (ix_row_groups st))))"

lemma groups_ok_snoc:
  assumes "groups_ok gs" and "rg_first_key g \<le> rg_last_key g"
    and "gs \<noteq> [] \<Longrightarrow> rg_last_key (last gs) < rg_first_key g"
  shows "groups_ok (gs @ [g])"
proof -
  have "rg_last_key h < rg_first_key g" if "h \<in> set gs" for h
  proof (cases gs rule: rev_cases)
    case (snoc hs l)
    have last: "rg_last_key l < rg_first_key g" using assms(3) snoc by simp
    show ?thesis
    proof (cases "h = l")
      case False
      then have "rg_last_key h < rg_first_key l" "rg_first_key l \<le> rg_last_key l"
        using assms(1) that snoc by (auto simp: groups_ok_def sorted_wrt_append)
      then show ?thesis using last by (meson le_less_trans less_trans)
    qed (use last in simp)
  qed (use that in simp)
  with assms show ?thesis by (auto simp: groups_ok_def sorted_wrt_append)
qed

lemma parse_row_group_inv:
  assumes "parse_row_group index policy index_offset st = Inr st'" and "index_inv st"
  shows "index_inv st'" and "length (ix_row_groups st') = length (ix_row_groups st) + 1"
proof -
  from assms(1) obtain row_start row_count unique first_key last_key pages words cursor expected prior_page_end
    where "Inr \<lparr>ix_cursor = cursor, ix_row_groups = ix_row_groups st @
         [\<lparr>rg_row_start = row_start, rg_row_count = row_count, rg_unique_key_count = unique,
           rg_first_key = first_key, rg_last_key = last_key, rg_pages = pages, rg_filter = words\<rparr>],
       ix_expected_row_start = expected, ix_prior_last_key = Some last_key,
       ix_prior_page_end = prior_page_end\<rparr> = (Inr st' :: index_cursor res)"
      and order: "\<not> (first_key > last_key
      \<or> (case ix_prior_last_key st of None \<Rightarrow> False | Some prior \<Rightarrow> prior \<ge> first_key))"
    unfolding parse_row_group_def Let_def rbind_Inr fail_if_Inr split_def by blast
  then obtain g where st': "st' = \<lparr>ix_cursor = cursor,
      ix_row_groups = ix_row_groups st @ [g], ix_expected_row_start = expected,
      ix_prior_last_key = Some (rg_last_key g), ix_prior_page_end = prior_page_end\<rparr>"
    and g: "rg_first_key g = first_key" "rg_last_key g = last_key" by auto
  have "groups_ok (ix_row_groups st @ [g])"
    using order assms(2) by (intro groups_ok_snoc) (auto simp: index_inv_def g)
  then show "index_inv st'" and "length (ix_row_groups st') = length (ix_row_groups st) + 1"
    by (simp_all add: st' index_inv_def)
qed

lemma parse_row_groups_inv:
  assumes "parse_row_groups index policy index_offset n st = Inr st'" and "index_inv st"
  shows "index_inv st' \<and> length (ix_row_groups st') = length (ix_row_groups st) + n"
  using assms
proof (induction n arbitrary: st)
  case (Suc n)
  from Suc.prems(1) obtain t where t: "parse_row_group index policy index_offset st = Inr t"
    and rest: "parse_row_groups index policy index_offset n t = Inr st'" by (auto simp: rbind_Inr)
  show ?case using Suc.IH [OF rest] parse_row_group_inv [OF t Suc.prems(2)] by simp
qed simp

lemma parse_metadata_inv:
  assumes "parse_metadata img checksum = Inr m"
  shows "groups_ok (pm_row_groups m)" and "pm_row_groups m \<noteq> []"
    and "sd_first_key (pm_descriptor m) = rg_first_key (hd (pm_row_groups m))"
    and "sd_last_key (pm_descriptor m) = rg_last_key (last (pm_row_groups m))"
    and "0 < sd_minimum_sequence (pm_descriptor m)"
    and "sd_id (pm_descriptor m) = checksum" and "sd_checksum (pm_descriptor m) = checksum"
    and "sd_level (pm_descriptor m) = 0" and "sd_bytes (pm_descriptor m) = length img"
proof -
  let ?st = "\<lparr>ix_cursor = INDEX_HEADER_BYTES, ix_row_groups = [], ix_expected_row_start = 0,
               ix_prior_last_key = None, ix_prior_page_end = SEGMENT_HEADER_BYTES\<rparr>"
  from assms obtain st index policy index_offset index_bytes count budget entries minimum_sequence maximum_sequence
    where st: "parse_row_groups index policy index_offset count ?st = Inr st"
      and guard: "\<not> (entries = 0 \<or> minimum_sequence = 0 \<or> minimum_sequence > maximum_sequence
        \<or> count = 0 \<or> index_offset < SEGMENT_HEADER_BYTES \<or> index_offset mod PAGE_ALIGNMENT \<noteq> 0
        \<or> \<not> (INDEX_HEADER_BYTES \<le> index_bytes \<and> index_bytes \<le> MAX_INDEX_BYTES)
        \<or> checked_add index_offset index_bytes \<noteq> Some (length img - FOOTER_BYTES))"
      and "Inr \<lparr>pm_descriptor = \<lparr>sd_id = checksum, sd_level = 0, sd_format_version = SEGMENT_FORMAT_VERSION,
            sd_schema_digest = SEGMENT_SCHEMA_DIGEST, sd_key_codec_digest = SEGMENT_KEY_CODEC_DIGEST,
            sd_page_format_digest = SEGMENT_PAGE_FORMAT_DIGEST,
            sd_first_key = rg_first_key (hd (ix_row_groups st)),
            sd_last_key = rg_last_key (last (ix_row_groups st)),
            sd_minimum_sequence = minimum_sequence, sd_maximum_sequence = maximum_sequence,
            sd_entries = entries, sd_bytes = length img, sd_checksum = checksum\<rparr>,
          pm_row_group_budget = budget, pm_compression_policy = policy,
          pm_row_groups = ix_row_groups st\<rparr> = (Inr m :: parsed_metadata res)"
    unfolding parse_metadata_def Let_def rbind_Inr fail_if_Inr
    by (elim exE conjE) (rule that, assumption+)
  then have m: "pm_row_groups m = ix_row_groups st"
      "sd_first_key (pm_descriptor m) = rg_first_key (hd (ix_row_groups st))"
      "sd_last_key (pm_descriptor m) = rg_last_key (last (ix_row_groups st))"
      "sd_minimum_sequence (pm_descriptor m) \<noteq> 0" "sd_id (pm_descriptor m) = checksum"
      "sd_checksum (pm_descriptor m) = checksum" "sd_level (pm_descriptor m) = 0"
      "sd_bytes (pm_descriptor m) = length img" and count: "count \<noteq> 0"
    by auto
  have "index_inv ?st" by (simp add: index_inv_def groups_ok_def)
  with st have "index_inv st" "length (ix_row_groups st) = count"
    using parse_row_groups_inv by fastforce+
  with m count show "groups_ok (pm_row_groups m)" "pm_row_groups m \<noteq> []"
    "sd_first_key (pm_descriptor m) = rg_first_key (hd (pm_row_groups m))"
    "sd_last_key (pm_descriptor m) = rg_last_key (last (pm_row_groups m))"
    "0 < sd_minimum_sequence (pm_descriptor m)" "sd_id (pm_descriptor m) = checksum"
    "sd_checksum (pm_descriptor m) = checksum" "sd_level (pm_descriptor m) = 0"
    "sd_bytes (pm_descriptor m) = length img"
    by (auto simp: index_inv_def)
qed

section \<open>The audit of all pages\<close>

definition last_record :: "(bytes \<times> versioned_value) list \<Rightarrow> (bytes \<times> nat) option" where
  "last_record xs = (if xs = [] then None else Some (fst (last xs), vv_sequence (snd (last xs))))"

lemma sorted_records_snoc:
  assumes "sorted_wrt record_less xs"
    and "case last_record xs of None \<Rightarrow> True | Some (k, n) \<Rightarrow> k < fst e \<or> (k = fst e \<and> n < vv_sequence (snd e))"
  shows "sorted_wrt record_less (xs @ [e])"
proof (cases xs rule: rev_cases)
  case (snoc ys y)
  then have "record_less y e" using assms(2) by (auto simp: last_record_def record_less_def)
  moreover have "record_less x y" if "x \<in> set ys" for x
    using assms(1) that snoc by (auto simp: sorted_wrt_append)
  ultimately have "record_less x e" if "x \<in> set xs" for x
    using that snoc record_less_trans [of x y e] by (cases x) auto
  with assms(1) show ?thesis by (simp add: sorted_wrt_append)
qed simp

definition audit_inv ::
  "segment_descriptor \<Rightarrow> (bytes \<times> versioned_value) list \<Rightarrow> loaded_row_group \<Rightarrow> nat
     \<Rightarrow> segment_audit \<times> group_audit \<Rightarrow> bool" where
  "audit_inv d pre l row = (\<lambda>(sa, ga).
     (\<forall>j < row. row_readable l j)
     \<and> sorted_wrt record_less (pre @ map (row_of l) [0..<row])
     \<and> sa_previous sa = last_record (pre @ map (row_of l) [0..<row])
     \<and> (\<forall>j < row. sd_minimum_sequence d \<le> vv_sequence (snd (row_of l j))
          \<and> vv_sequence (snd (row_of l j)) \<le> sd_maximum_sequence d)
     \<and> ga_first ga = (if row = 0 then None else Some (fst (row_of l 0)))
     \<and> ga_last ga = (if row = 0 then None else Some (fst (row_of l (row - 1))))
     \<and> ga_previous_group_key ga = ga_last ga
     \<and> ga_filter ga \<noteq> [] \<and> (\<forall>j < row. may_contain (ga_filter ga) (fst (row_of l j))))"

lemma audit_row_Inr:
  assumes "audit_row d l (sa, ga) row = Inr (sa', ga')"
  obtains key sequence v where "row_of l row = (key, \<lparr>vv_sequence = sequence, vv_value = v\<rparr>)"
    and "row_readable l row"
    and "sd_minimum_sequence d \<le> sequence" "sequence \<le> sd_maximum_sequence d"
    and "case sa_previous sa of None \<Rightarrow> True | Some (k, n) \<Rightarrow> k < key \<or> (k = key \<and> n < sequence)"
    and "sa_previous sa' = Some (key, sequence)" and "sa_rows sa' = sa_rows sa"
    and "ga_first ga' = (case ga_first ga of None \<Rightarrow> Some key | Some k \<Rightarrow> Some k)"
    and "ga_last ga' = Some key" and "ga_previous_group_key ga' = Some key"
    and "ga_filter ga' = (if ga_previous_group_key ga \<noteq> Some key then filter_insert (ga_filter ga) key
           else ga_filter ga)"
proof -
  from assms obtain key sequence ga1 v where key: "key_at (lg_spine l) row = Inr key"
    and seq: "sequence_at (lg_spine l) row = Inr sequence"
    and guard: "\<not> (sequence = 0 \<or> sequence < sd_minimum_sequence d \<or> sequence > sd_maximum_sequence d
        \<or> (case sa_previous sa of None \<Rightarrow> False | Some (prior_key, prior_sequence) \<Rightarrow>
             key < prior_key \<or> (key = prior_key \<and> sequence \<le> prior_sequence)))"
    and ga1: "(if ga_previous_group_key ga \<noteq> Some key then
              (if ga_unique_key_count ga + 1 \<le> u32_max then
                 Inr (ga\<lparr>ga_filter := filter_insert (ga_filter ga) key,
                         ga_unique_key_count := ga_unique_key_count ga + 1,
                         ga_previous_group_key := Some key\<rparr>)
               else Inl (InvalidSegment ''v6 unique-key validation count overflow''))
            else Inr ga) = Inr ga1"
    and v: "value_from_columns (lg_columns l) row = Inr v"
    and out: "sa' = sa\<lparr>sa_previous := Some (key, sequence), sa_minimum := min (sa_minimum sa) sequence,
             sa_maximum := max (sa_maximum sa) sequence\<rparr>"
      "ga_first ga' = (case ga_first ga1 of None \<Rightarrow> Some key | Some k \<Rightarrow> Some k)"
      "ga_last ga' = Some key" "ga_previous_group_key ga' = ga_previous_group_key ga1"
      "ga_filter ga' = ga_filter ga1"
    unfolding audit_row_def split_conv rbind_Inr fail_if_Inr by (elim exE conjE) (rule that, assumption+, auto)
  show ?thesis
  proof (rule that [of key sequence v])
    show row: "row_of l row = (key, \<lparr>vv_sequence = sequence, vv_value = v\<rparr>)"
      by (simp add: row_of_def key seq v)
    show "row_readable l row" by (simp add: row_readable_def row key seq v)
    show "case sa_previous sa of None \<Rightarrow> True | Some (k, n) \<Rightarrow> k < key \<or> (k = key \<and> n < sequence)"
      using guard by (auto split: option.splits)
    show "sd_minimum_sequence d \<le> sequence" "sequence \<le> sd_maximum_sequence d" using guard by auto
  qed (use out ga1 in \<open>auto split: if_splits\<close>)
qed

lemma audit_row_inv:
  assumes "audit_inv d pre l row (sa, ga)" and "audit_row d l (sa, ga) row = Inr (sa', ga')"
  shows "audit_inv d pre l (Suc row) (sa', ga')"
proof -
  obtain key sequence v where row: "row_of l row = (key, \<lparr>vv_sequence = sequence, vv_value = v\<rparr>)"
    and step: "row_readable l row" "sd_minimum_sequence d \<le> sequence" "sequence \<le> sd_maximum_sequence d"
      "case sa_previous sa of None \<Rightarrow> True | Some (k, n) \<Rightarrow> k < key \<or> (k = key \<and> n < sequence)"
    and out: "sa_previous sa' = Some (key, sequence)"
      "ga_first ga' = (case ga_first ga of None \<Rightarrow> Some key | Some k \<Rightarrow> Some k)"
      "ga_last ga' = Some key" "ga_previous_group_key ga' = Some key"
      "ga_filter ga' = (if ga_previous_group_key ga \<noteq> Some key then filter_insert (ga_filter ga) key
           else ga_filter ga)"
    using assms(2) by (rule audit_row_Inr)
  let ?xs = "pre @ map (row_of l) [0..<row]"
  have inv: "\<forall>j < row. row_readable l j" "sorted_wrt record_less ?xs" "sa_previous sa = last_record ?xs"
    "\<forall>j < row. sd_minimum_sequence d \<le> vv_sequence (snd (row_of l j))
          \<and> vv_sequence (snd (row_of l j)) \<le> sd_maximum_sequence d"
    "ga_first ga = (if row = 0 then None else Some (fst (row_of l 0)))"
    "ga_last ga = (if row = 0 then None else Some (fst (row_of l (row - 1))))"
    "ga_previous_group_key ga = ga_last ga" "ga_filter ga \<noteq> []"
    "\<forall>j < row. may_contain (ga_filter ga) (fst (row_of l j))"
    using assms(1) by (simp_all add: audit_inv_def)
  have "sorted_wrt record_less (?xs @ [row_of l row])"
    using inv(2,3) step(4) by (intro sorted_records_snoc) (auto simp: row split: option.splits)
  moreover have "ga_filter ga' \<noteq> []"
  proof -
    have "length (ga_filter ga') = length (ga_filter ga)" by (simp add: out(5))
    with inv(8) show ?thesis by (metis length_0_conv)
  qed
  moreover have contain: "may_contain (ga_filter ga') (fst (row_of l j))" if "j < Suc row" for j
  proof (cases "j = row")
    case True
    have "may_contain (ga_filter ga) key" if "ga_previous_group_key ga = Some key"
      using inv(6,7,9) that by (cases row) auto
    then show ?thesis using True may_contain_insert(1) [OF inv(8)] by (auto simp: out(5) row)
  next
    case False
    then show ?thesis using that inv(9) may_contain_insert(2) [OF inv(8)] by (auto simp: out(5) less_Suc_eq)
  qed
  moreover have "ga_first ga' = Some (fst (row_of l 0))"
    using inv(5) row by (cases "row = 0") (auto simp: out(2))
  ultimately show ?thesis
    using inv(1,4) step(1-3) contain [of row]
    by (auto simp: audit_inv_def out(1,3,4) row last_record_def less_Suc_eq)
qed

lemma audit_group_Inr:
  assumes "audit_group cx seg sa i = Inr sa'" and "i < length (sg_row_groups seg)"
    and "sorted_wrt record_less pre" and "sa_previous sa = last_record pre"
  shows "group_described cx seg i"
    and "sorted_wrt record_less (pre @ group_records cx seg i)"
    and "sa_previous sa' = last_record (pre @ group_records cx seg i)"
    and "\<forall>e \<in> set (group_records cx seg i). sd_minimum_sequence (sg_descriptor seg) \<le> vv_sequence (snd e)
      \<and> vv_sequence (snd e) \<le> sd_maximum_sequence (sg_descriptor seg)"
proof -
  let ?g = "sg_row_groups seg ! i" and ?d = "sg_descriptor seg"
  let ?start = "\<lambda>words. \<lparr>ga_filter = words, ga_unique_key_count = 0, ga_previous_group_key = None,
                    ga_first = None, ga_last = None, ga_null_count = 0, ga_key_min = u64_max,
                    ga_key_max = 0, ga_value_min = u64_max, ga_value_max = 0,
                    ga_sequence_min = u64_max, ga_sequence_max = 0\<rparr>"
  from assms(1) obtain l words rows sa1 ga where l: "load_row_group cx seg i = Inr l"
    and words: "filter_new (rg_unique_key_count ?g) = Inr words"
    and run: "try_fold (audit_row ?d l) (sa, ?start words) [0..<rg_row_count ?g] = Inr (sa1, ga)"
    and bounds: "ga_first ga = Some (rg_first_key ?g)" "ga_last ga = Some (rg_last_key ?g)"
    and words': "ga_filter ga = rg_filter ?g"
    and out: "sa' = sa1\<lparr>sa_rows := rows\<rparr>"
    by (auto simp: audit_group_def Let_def rbind_Inr fail_if_Inr ok_or_Inr)
  have "audit_inv ?d pre l 0 (sa, ?start words)"
    using assms(3,4) filter_new_nonempty [OF words] by (simp add: audit_inv_def)
  then have inv: "audit_inv ?d pre l (rg_row_count ?g) (sa1, ga)"
    using run by (elim try_fold_upt) (use audit_row_inv in \<open>force+\<close>)
  have rs: "group_records cx seg i = map (row_of l) [0..<rg_row_count ?g]"
    using l by (simp add: group_records_def)
  have pos: "rg_row_count ?g \<noteq> 0" using inv bounds(1) by (auto simp: audit_inv_def split: if_splits)
  show "group_described cx seg i"
    unfolding group_described_def group_ok_def
    using inv l bounds words' pos
    by (auto simp: audit_inv_def rs hd_map last_map)
  show "sorted_wrt record_less (pre @ group_records cx seg i)"
    "sa_previous sa' = last_record (pre @ group_records cx seg i)"
    "\<forall>e \<in> set (group_records cx seg i). sd_minimum_sequence ?d \<le> vv_sequence (snd e)
      \<and> vv_sequence (snd e) \<le> sd_maximum_sequence ?d"
    using inv by (auto simp: audit_inv_def rs out)
qed

definition records_upto :: "codec \<Rightarrow> segment \<Rightarrow> nat \<Rightarrow> (bytes \<times> versioned_value) list" where
  "records_upto cx seg n = concat (map (group_records cx seg) [0..<n])"

definition audited :: "codec \<Rightarrow> segment \<Rightarrow> nat \<Rightarrow> segment_audit \<Rightarrow> bool" where
  "audited cx seg n sa \<longleftrightarrow>
     (\<forall>i < n. group_described cx seg i) \<and> sorted_wrt record_less (records_upto cx seg n)
     \<and> sa_previous sa = last_record (records_upto cx seg n)
     \<and> (\<forall>e \<in> set (records_upto cx seg n). sd_minimum_sequence (sg_descriptor seg) \<le> vv_sequence (snd e)
          \<and> vv_sequence (snd e) \<le> sd_maximum_sequence (sg_descriptor seg))"

lemma validate_all_pages_audited:
  assumes "validate_all_pages cx seg = Inr u"
  shows "\<exists>sa. audited cx seg (length (sg_row_groups seg)) sa"
proof -
  let ?start = "\<lparr>sa_previous = None, sa_rows = 0, sa_minimum = u64_max, sa_maximum = 0\<rparr>"
  from assms obtain sa where run: "try_fold (audit_group cx seg) ?start [0..<length (sg_row_groups seg)] = Inr sa"
    by (auto simp: validate_all_pages_def rbind_Inr)
  have "audited cx seg 0 ?start" by (simp add: audited_def records_upto_def last_record_def)
  moreover have "audited cx seg (Suc i) t'"
    if "i < length (sg_row_groups seg)" "audited cx seg i t" "audit_group cx seg t i = Inr t'" for i t t'
  proof -
    have upto: "records_upto cx seg (Suc i) = records_upto cx seg i @ group_records cx seg i"
      by (simp add: records_upto_def)
    have pre: "sorted_wrt record_less (records_upto cx seg i)" "sa_previous t = last_record (records_upto cx seg i)"
      using that(2) by (auto simp: audited_def)
    note audit = audit_group_Inr [OF that(3) that(1) pre]
    show ?thesis using that(2) audit by (auto simp: audited_def upto less_Suc_eq)
  qed
  ultimately show ?thesis using try_fold_upt [OF run, of "audited cx seg"] by blast
qed

text \<open>A parsed and audited image is a segment that meets the invariant.\<close>

lemma build_segment_inv:
  assumes "parse_metadata img checksum = Inr m" and "validate_all_pages cx (build_segment m source) = Inr u"
  shows "seg_inv cx (build_segment m source)"
proof -
  note parsed = parse_metadata_inv [OF assms(1)]
  obtain sa where "audited cx (build_segment m source) (length (sg_row_groups (build_segment m source))) sa"
    using validate_all_pages_audited [OF assms(2)] by blast
  with parsed(1-5) show ?thesis
    by (auto simp: seg_inv_def build_segment_def audited_def groups_ok_def segment_rows_def
        segment_records_def records_upto_def)
qed

lemma segment_open_inv:
  assumes "segment_open cx backend img = Inr seg"
  shows "seg_inv cx seg" and "sd_bytes (sg_descriptor seg) = length img" and "sd_level (sg_descriptor seg) = 0"
    and "sd_id (sg_descriptor seg) = sha256_hex cx (take (length img - FOOTER_BYTES) img)"
    and "sd_checksum (sg_descriptor seg) = sd_id (sg_descriptor seg)"
    and "sg_source seg = backend img"
proof -
  from assms obtain checksum m where digest: "verify_file_digest cx img = Inr checksum"
    and parse: "parse_metadata img checksum = Inr m"
    and audit: "validate_all_pages cx (build_segment m (backend img)) = Inr ()"
    and seg: "seg = build_segment m (backend img)"
    by (auto simp: segment_open_def Let_def rbind_Inr)
  have "checksum = sha256_hex cx (take (length img - FOOTER_BYTES) img)"
    using digest by (auto simp: verify_file_digest_def Let_def rbind_Inr ok_or_Inr)
  with build_segment_inv [OF parse audit] parse_metadata_inv(6-9) [OF parse]
  show "seg_inv cx seg" "sd_bytes (sg_descriptor seg) = length img" "sd_level (sg_descriptor seg) = 0"
    "sd_id (sg_descriptor seg) = sha256_hex cx (take (length img - FOOTER_BYTES) img)"
    "sd_checksum (sg_descriptor seg) = sd_id (sg_descriptor seg)" "sg_source seg = backend img"
    by (simp_all add: seg build_segment_def)
qed

end
