(* ===== verification/Segment_Builder.thy ===== *)
theory Segment_Builder
  imports Segment_Open
begin

text \<open>
  What a row-group builder holds after a list of rows, in closed form, and that the readers get
  exactly these rows back from its six pages.
\<close>

section \<open>Columns of a list of rows\<close>

type_synonym record_row = "bytes \<times> versioned_value"

definition offsets_of :: "bytes list \<Rightarrow> nat list" where
  "offsets_of xs = map (\<lambda>i. length (concat (take i xs))) [0..<Suc (length xs)]"

definition row_keys :: "record_row list \<Rightarrow> bytes list" where "row_keys rs = map fst rs"
definition row_values :: "record_row list \<Rightarrow> bytes list" where
  "row_values rs = map (\<lambda>e. value_or_default (snd e)) rs"
definition row_sequences :: "record_row list \<Rightarrow> nat list" where
  "row_sequences rs = map (\<lambda>e. vv_sequence (snd e)) rs"
definition row_present :: "record_row list \<Rightarrow> bool list" where
  "row_present rs = map (\<lambda>e. vv_value (snd e) \<noteq> None) rs"

text \<open>The keys without adjacent repetitions: what the filter is built from.\<close>

definition key_runs :: "bytes list \<Rightarrow> bytes list" where
  "key_runs ks = foldl (\<lambda>runs k. if runs \<noteq> [] \<and> last runs = k then runs else runs @ [k]) [] ks"

definition null_rows :: "record_row list \<Rightarrow> nat" where
  "null_rows rs = foldl (\<lambda>n e. if vv_value (snd e) = None then min (n + 1) u32_max else n) 0 rs"

definition validity_ok :: "bytes \<Rightarrow> bool list \<Rightarrow> bool" where
  "validity_ok v ps \<longleftrightarrow> length v = (length ps + 7) div 8
     \<and> (\<forall>j < 8 * length v. bit (v ! (j div 8)) (j mod 8) = (j < length ps \<and> ps ! j))"

lemma offsets_of_snoc: "offsets_of (xs @ [x]) = offsets_of xs @ [length (concat (xs @ [x]))]"
  by (auto simp: offsets_of_def simp del: upt_Suc simp: upt_Suc_append)

lemma length_offsets_of [simp]: "length (offsets_of xs) = Suc (length xs)"
  by (simp add: offsets_of_def del: upt_Suc)

lemma nth_offsets_of: "i \<le> length xs \<Longrightarrow> offsets_of xs ! i = length (concat (take i xs))"
  by (simp add: offsets_of_def del: upt_Suc)

lemma key_runs_snoc: "key_runs (ks @ [k]) = (if ks \<noteq> [] \<and> last ks = k then key_runs ks else key_runs ks @ [k])"
  and last_key_runs: "ks \<noteq> [] \<Longrightarrow> key_runs ks \<noteq> [] \<and> last (key_runs ks) = last ks"
proof -
  have step: "key_runs (ks @ [k]) = (if key_runs ks \<noteq> [] \<and> last (key_runs ks) = k then key_runs ks else key_runs ks @ [k])"
    for ks k by (simp add: key_runs_def)
  show last: "ks \<noteq> [] \<Longrightarrow> key_runs ks \<noteq> [] \<and> last (key_runs ks) = last ks" for ks
  proof (induction ks rule: rev_induct)
    case (snoc k ks)
    then show ?case by (auto simp: step)
  qed simp
  have "key_runs [] = []" by (simp add: key_runs_def)
  then show "key_runs (ks @ [k]) = (if ks \<noteq> [] \<and> last ks = k then key_runs ks else key_runs ks @ [k])"
    using last [of ks] by (cases "ks = []") (simp_all add: step [of "[]", simplified] step)
qed

lemma set_key_runs: "set (key_runs ks) = set ks"
proof (induction ks rule: rev_induct)
  case (snoc k ks)
  have "last ks \<in> set ks" if "ks \<noteq> []" using that by simp
  then have "set ks = insert k (set ks)" if "ks \<noteq> []" "last ks = k" using that by blast
  with snoc show ?case by (simp add: key_runs_snoc)
qed (simp add: key_runs_def)

lemma length_key_runs: "length (key_runs ks) \<le> length ks"
proof (induction ks rule: rev_induct)
  case (snoc k ks)
  then show ?case by (simp add: key_runs_snoc)
qed (simp add: key_runs_def)

section \<open>Validity bitmaps\<close>

lemma div_mod_8: "(a :: nat) div 8 = b div 8 \<Longrightarrow> a mod 8 = b mod 8 \<Longrightarrow> a = b"
  by (metis mult_div_mod_eq)

lemma validity_ok_snoc:
  assumes "validity_ok v ps"
  shows "validity_ok (set_validity v (length ps) p) (ps @ [p])"
proof -
  let ?n = "length ps"
  define w where "w = (if length v \<le> ?n div 8 then v @ replicate (?n div 8 + 1 - length v) 0 else v)"
  have len: "length v = (?n + 7) div 8" using assms by (simp add: validity_ok_def)
  have lenw: "length w = ?n div 8 + 1"
  proof (cases "length v \<le> ?n div 8")
    case False
    have "(?n + 7) div 8 \<le> ?n div 8 + 1" by linarith
    with False len show ?thesis by (simp add: w_def)
  qed (simp add: w_def)
  have lenw': "length w = (?n + 1 + 7) div 8" using lenw by simp
  have bits: "bit (w ! (j div 8)) (j mod 8) = (j < ?n \<and> ps ! j)" if "j < 8 * length w" for j
  proof (cases "j < 8 * length v")
    case True
    then have "j div 8 < length v" by linarith
    then have "w ! (j div 8) = v ! (j div 8)" by (simp add: w_def nth_append)
    with True assms show ?thesis by (auto simp: validity_ok_def)
  next
    case False
    then have "\<not> j div 8 < length v" "j div 8 < length w" using that by linarith+
    then have "w ! (j div 8) = 0" by (auto simp: w_def nth_append split: if_splits)
    moreover have "\<not> j < ?n" using False len by linarith
    ultimately show ?thesis by simp
  qed
  have set: "set_validity v ?n p = (if p then w[?n div 8 := w ! (?n div 8) OR push_bit (?n mod 8) 1] else w)"
    by (simp add: set_validity_def Let_def w_def)
  have "bit (set_validity v ?n p ! (j div 8)) (j mod 8) = (j < ?n + 1 \<and> (ps @ [p]) ! j)"
    if j: "j < 8 * length w" for j
  proof (cases "j = ?n")
    case True
    then show ?thesis using bits [OF j] lenw by (auto simp: set bit_or_iff bit_push_bit_iff bit_exp_iff)
  next
    case False
    have "bit (set_validity v ?n p ! (j div 8)) (j mod 8) = bit (w ! (j div 8)) (j mod 8)"
    proof (cases "j div 8 = ?n div 8")
      case True
      with False have "j mod 8 \<noteq> ?n mod 8" using div_mod_8 by blast
      then show ?thesis using True lenw by (auto simp: set bit_or_iff bit_push_bit_iff bit_exp_iff)
    qed (simp add: set)
    with bits [OF j] False show ?thesis by (auto simp: nth_append)
  qed
  moreover have "length (set_validity v ?n p) = (?n + 1 + 7) div 8" by (simp only: set lenw' length_list_update split: if_splits) simp
  ultimately show ?thesis using lenw' by (auto simp: validity_ok_def)
qed

lemma valid_at_ok:
  assumes "validity_ok v ps" and "row < length ps"
  shows "valid_at v row = Inr (ps ! row)"
proof -
  have lt: "row div 8 < length v" using assms by (auto simp: validity_ok_def)
  have "row < 8 * length v" using lt by linarith
  then have "bit (v ! (row div 8)) (row mod 8) = ps ! row" using assms by (auto simp: validity_ok_def)
  then show ?thesis
    using lt by (simp add: valid_at_def push_bit_eq_mult and_exp_eq_0_iff_not_bit)
qed

lemma validate_validity_ok:
  assumes "validity_ok v ps"
  shows "validate_validity v (length ps) = Inr ()"
proof -
  have len: "length v = (length ps + 7) div 8" using assms by (simp add: validity_ok_def)
  have "drop_bit (length ps mod 8) (last v) = 0" if "length ps mod 8 \<noteq> 0" "v \<noteq> []"
  proof -
    have lv: "length v - 1 = length ps div 8"
      using len that(1) by (simp add: div_add1_eq [of "length ps" 7])
    have "\<not> bit (last v) (length ps mod 8 + m)" for m
    proof (cases "length ps mod 8 + m < 8")
      case True
      define j where "j = 8 * (length ps div 8) + (length ps mod 8 + m)"
      have split: "(8 * q + r) div 8 = q" "(8 * q + r) mod 8 = r" if "r < 8" for q r :: nat using that by simp_all
      have j: "j div 8 = length ps div 8" "j mod 8 = length ps mod 8 + m"
        unfolding j_def by (rule split [OF True])+
      have "8 * (length ps div 8) + length ps mod 8 = length ps" by simp
      then have ge: "j \<ge> length ps" unfolding j_def by linarith
      have "length v > 0" using that(2) by simp
      then have "j < 8 * length v" using j(1) lv by linarith
      then have "\<not> bit (v ! (j div 8)) (j mod 8)" using assms ge by (auto simp: validity_ok_def)
      then show ?thesis using j lv that(2) by (simp add: last_conv_nth)
    next
      case False
      then show ?thesis by (simp add: bit_word.rep_eq bit_take_bit_iff)
    qed
    then show ?thesis by (auto simp: bit_eq_iff bit_drop_bit_eq)
  qed
  then show ?thesis by (auto simp: validate_validity_def len fail_if_def)
qed

section \<open>The builder after a list of rows\<close>

definition row_fits :: "record_row \<Rightarrow> bool" where
  "row_fits e \<longleftrightarrow> fst e \<noteq> [] \<and> length (fst e) \<le> SEGMENT_MAX_KEY_BYTES
     \<and> length (value_or_default (snd e)) \<le> SEGMENT_MAX_VALUE_BYTES"

definition builder_holds :: "row_group_builder \<Rightarrow> record_row list \<Rightarrow> bool" where
  "builder_holds b rs \<longleftrightarrow>
     bd_keys b = concat (row_keys rs) \<and> bd_key_offsets b = offsets_of (row_keys rs)
     \<and> bd_sequences b = row_sequences rs \<and> validity_ok (bd_value_validity b) (row_present rs)
     \<and> bd_values b = concat (row_values rs) \<and> bd_value_offsets b = offsets_of (row_values rs)
     \<and> bd_first_key b = (if rs = [] then [] else fst (hd rs))
     \<and> bd_last_key b = (if rs = [] then [] else fst (last rs))
     \<and> bd_unique_key_count b = length (key_runs (row_keys rs)) \<and> bd_null_count b = null_rows rs
     \<and> bd_minimum_key_bytes b = foldl min u64_max (map length (row_keys rs))
     \<and> bd_maximum_key_bytes b = foldl max 0 (map length (row_keys rs))
     \<and> bd_minimum_value_bytes b = foldl min u64_max (map length (row_values rs))
     \<and> bd_maximum_value_bytes b = foldl max 0 (map length (row_values rs))
     \<and> list_all row_fits rs
     \<and> length (concat (row_keys rs)) \<le> i64_max \<and> length (concat (row_values rs)) \<le> i64_max
     \<and> length (key_runs (row_keys rs)) \<le> u32_max"

lemmas row_columns = row_keys_def row_values_def row_sequences_def row_present_def

lemma builder_new_holds: "builder_holds (builder_new s) []"
  by (simp add: builder_holds_def builder_new_def row_columns offsets_of_def validity_ok_def key_runs_def
      null_rows_def)

lemma builder_reset_new: "builder_reset b s = builder_new s"
  by (simp add: builder_reset_def builder_new_def)

lemma builder_append_holds:
  assumes "builder_append b key v = Inr b'" and "builder_holds b rs"
  shows "builder_holds b' (rs @ [(key, v)])" and "bd_row_start b' = bd_row_start b"
proof -
  let ?u = "if bd_last_key b \<noteq> key then bd_unique_key_count b + 1 else bd_unique_key_count b"
  have fits: "row_fits (key, v)"
    and u: "?u \<le> u32_max \<or> bd_last_key b = key"
    and lens: "length (bd_keys b @ key) \<le> i64_max" "length (bd_values b @ value_or_default v) \<le> i64_max"
    and b': "b' = b\<lparr>bd_keys := bd_keys b @ key, bd_key_offsets := bd_key_offsets b @ [length (bd_keys b @ key)],
           bd_sequences := bd_sequences b @ [vv_sequence v],
           bd_value_validity := set_validity (bd_value_validity b) (length (bd_sequences b)) (vv_value v \<noteq> None),
           bd_values := bd_values b @ value_or_default v,
           bd_value_offsets := bd_value_offsets b @ [length (bd_values b @ value_or_default v)],
           bd_first_key := (if bd_first_key b = [] then key else bd_first_key b),
           bd_last_key := key, bd_unique_key_count := ?u,
           bd_null_count := (if vv_value v = None then min (bd_null_count b + 1) u32_max
                             else bd_null_count b),
           bd_minimum_key_bytes := min (bd_minimum_key_bytes b) (length key),
           bd_maximum_key_bytes := max (bd_maximum_key_bytes b) (length key),
           bd_minimum_value_bytes := min (bd_minimum_value_bytes b) (length (value_or_default v)),
           bd_maximum_value_bytes := max (bd_maximum_value_bytes b) (length (value_or_default v))\<rparr>"
    using assms(1) unfolding builder_append_def Let_def rbind_Inr fail_if_Inr validate_key_value_def
    by (auto simp: row_fits_def split: if_splits)
  show "bd_row_start b' = bd_row_start b" by (simp add: b')
  have h: "bd_keys b = concat (row_keys rs)" "bd_key_offsets b = offsets_of (row_keys rs)"
     "bd_sequences b = row_sequences rs" "validity_ok (bd_value_validity b) (row_present rs)"
     "bd_values b = concat (row_values rs)" "bd_value_offsets b = offsets_of (row_values rs)"
     "bd_first_key b = (if rs = [] then [] else fst (hd rs))"
     "bd_last_key b = (if rs = [] then [] else fst (last rs))"
     "bd_unique_key_count b = length (key_runs (row_keys rs))" "bd_null_count b = null_rows rs"
     "bd_minimum_key_bytes b = foldl min u64_max (map length (row_keys rs))"
     "bd_maximum_key_bytes b = foldl max 0 (map length (row_keys rs))"
     "bd_minimum_value_bytes b = foldl min u64_max (map length (row_values rs))"
     "bd_maximum_value_bytes b = foldl max 0 (map length (row_values rs))"
     "list_all row_fits rs" "length (key_runs (row_keys rs)) \<le> u32_max"
    using assms(2) by (simp_all add: builder_holds_def)
  have snoc: "row_keys (rs @ [(key, v)]) = row_keys rs @ [key]"
    "row_values (rs @ [(key, v)]) = row_values rs @ [value_or_default v]"
    "row_sequences (rs @ [(key, v)]) = row_sequences rs @ [vv_sequence v]"
    "row_present (rs @ [(key, v)]) = row_present rs @ [vv_value v \<noteq> None]"
    by (simp_all add: row_columns)
  have valid: "validity_ok (set_validity (bd_value_validity b) (length (bd_sequences b)) (vv_value v \<noteq> None))
      (row_present rs @ [vv_value v \<noteq> None])"
    using validity_ok_snoc [OF h(4)] by (simp add: h(3) row_columns)
  have nonempty: "fst e \<noteq> []" if "e \<in> set rs" for e using h(15) that by (auto simp: list_all_iff row_fits_def)
  have first: "(if bd_first_key b = [] then key else bd_first_key b) = fst (hd (rs @ [(key, v)]))"
    using nonempty [of "hd rs"] by (cases rs) (auto simp: h(7))
  have lastkey: "last (row_keys rs) = fst (last rs)" if "rs \<noteq> []" using that by (simp add: row_keys_def last_map)
  have runs: "length (key_runs (row_keys rs @ [key])) = ?u"
    using lastkey fits by (auto simp: key_runs_snoc h(8,9) row_fits_def row_keys_def)
  have runs_le: "?u \<le> u32_max" using u h(9,16) by auto
  show "builder_holds b' (rs @ [(key, v)])"
    unfolding builder_holds_def snoc
    using valid first runs runs_le fits lens h(15)
    by (simp add: b' h offsets_of_snoc null_rows_def list_all_iff)
qed

lemma builder_appends_hold:
  assumes "try_fold (\<lambda>b v. builder_append b key v) b vs = Inr b'" and "builder_holds b rs"
  shows "builder_holds b' (rs @ map (Pair key) vs) \<and> bd_row_start b' = bd_row_start b"
  using assms
proof (induction vs arbitrary: b rs)
  case (Cons v vs)
  from Cons.prems(1) obtain b1 where b1: "builder_append b key v = Inr b1"
    and rest: "try_fold (\<lambda>b v. builder_append b key v) b1 vs = Inr b'" by (auto simp: rbind_Inr)
  from Cons.IH [OF rest builder_append_holds(1) [OF b1 Cons.prems(2)]] builder_append_holds(2) [OF b1 Cons.prems(2)]
  show ?case by simp
qed simp

section \<open>The filter\<close>

definition filter_of :: "row_group_filter \<Rightarrow> bytes list \<Rightarrow> row_group_filter" where
  "filter_of words ks = foldl filter_insert words (key_runs ks)"

lemma slice_concat:
  assumes "i < length xs"
  shows "slice_get (concat xs) (offsets_of xs ! i) (offsets_of xs ! Suc i) = Some (xs ! i)"
proof -
  have split: "xs = take i xs @ xs ! i # drop (Suc i) xs" using assms by (rule id_take_nth_drop)
  have "take (Suc i) xs = take i xs @ [xs ! i]" using assms by (rule take_Suc_conv_app_nth)
  then have stop: "offsets_of xs ! Suc i = offsets_of xs ! i + length (xs ! i)" using assms by (simp add: nth_offsets_of)
  have "concat xs = concat (take i xs) @ xs ! i @ concat (drop (Suc i) xs)" by (subst split) simp
  then show ?thesis using assms by (simp add: stop nth_offsets_of)
qed

lemma windows2_nth: "windows2 xs = map (\<lambda>i. (xs ! i, xs ! Suc i)) [0..<length xs - 1]"
proof (induction xs rule: windows2.induct)
  case (1 a b rest)
  have "[0..<length (a # b # rest) - 1] = 0 # map Suc [0..<length (b # rest) - 1]"
    by (simp add: map_Suc_upt upt_conv_Cons del: upt_Suc)
  with 1 show ?case by (simp add: comp_def del: upt_Suc)
qed auto

lemma builder_filter_holds:
  assumes "builder_filter b = Inr words" and "builder_holds b rs"
  obtains empty where "filter_new (length (key_runs (row_keys rs))) = Inr empty"
    and "words = filter_of empty (row_keys rs)"
proof -
  let ?ks = "row_keys rs"
  have fold: "try_fold (filter_step (concat ?ks)) (e, None) (map (\<lambda>i. (offsets_of ?ks ! i, offsets_of ?ks ! Suc i)) [0..<n])
    = Inr (filter_of e (take n ?ks), if n = 0 then None else Some (?ks ! (n - 1)))" if "n \<le> length ?ks" for n e
    using that
  proof (induction n)
    case (Suc n)
    then have n: "n < length ?ks" by simp
    have take: "take (Suc n) ?ks = take n ?ks @ [?ks ! n]" using n by (rule take_Suc_conv_app_nth)
    have last: "last (take n ?ks) = ?ks ! (n - 1)" if "n \<noteq> 0" using that n by (subst last_conv_nth) auto
    show ?case using Suc n
      by (auto simp: try_fold_append filter_step_def slice_concat ok_or_def take filter_of_def key_runs_snoc last)
  qed (simp add: filter_of_def key_runs_def)
  have "windows2 (bd_key_offsets b) = map (\<lambda>i. (offsets_of ?ks ! i, offsets_of ?ks ! Suc i)) [0..<length ?ks]"
    using assms(2) by (simp add: windows2_nth builder_holds_def del: upt_Suc)
  moreover from assms obtain e where "filter_new (length (key_runs ?ks)) = Inr e"
    "rbind (try_fold (filter_step (bd_keys b)) (e, None) (windows2 (bd_key_offsets b))) (\<lambda>(w, _). Inr w) = Inr words"
    by (auto simp: builder_filter_def builder_holds_def rbind_Inr)
  ultimately show ?thesis using that [of e] fold [of "length ?ks" e] assms(2) by (simp add: builder_holds_def)
qed

end
