(* ===== verification/Segment_Pages.thy ===== *)
theory Segment_Pages
  imports Segment_Builder
begin

text \<open>
  Reading the six pages of a row group back: the page decoders return the rows of the builder,
  and the audit that runs when a segment is opened accepts them with the builder's statistics.
\<close>

section \<open>Integer and binary columns\<close>

lemma length_encode_values [simp]: "length (encode_values xs) = 8 * length xs"
  by (induction xs) (simp_all add: encode_values_def)

lemma slice_encode_values:
  assumes "i < length xs"
  shows "slice_get (encode_values xs) (i * 8) (i * 8 + 8) = Some (le_bytes 8 (xs ! i))"
proof -
  have split: "xs = take i xs @ xs ! i # drop (Suc i) xs" using assms by (rule id_take_nth_drop)
  have "encode_values xs = encode_values (take i xs) @ le_bytes 8 (xs ! i) @ encode_values (drop (Suc i) xs)"
    by (subst split) (simp add: encode_values_def)
  moreover have "length (encode_values (take i xs)) = i * 8" using assms by simp
  moreover have "length (le_bytes 8 (xs ! i)) = 8" by simp
  ultimately show ?thesis by (metis slice_get_append)
qed

lemma offset_at_encode:
  assumes "i < length xs" and "xs ! i \<le> i64_max" and "length xs \<le> u32_max + 1"
  shows "offset_at (encode_values xs) i = Inr (xs ! i)"
proof -
  have "i * 8 \<le> u64_max" using assms(1,3) by (simp add: rrf_consts)
  moreover have "xs ! i < 256 ^ 8" using assms(2) by (simp add: rrf_consts)
  ultimately show ?thesis using assms slice_encode_values [OF assms(1)]
    by (simp add: offset_at_def ok_or_def checked_mul_def fail_if_def)
qed

lemma sequence_at_encode:
  assumes "i < length xs" and "xs ! i \<le> u64_max" and "length xs \<le> u32_max"
    and "ks_sequences spine = encode_values xs"
  shows "sequence_at spine i = Inr (xs ! i)"
proof -
  have "i * 8 \<le> u64_max" using assms(1,3) by (simp add: rrf_consts)
  moreover have "xs ! i < 256 ^ 8" using assms(2) by (simp add: rrf_consts)
  ultimately show ?thesis using slice_encode_values [OF assms(1)]
    by (simp add: sequence_at_def assms(4) ok_or_def checked_mul_def)
qed

lemma offsets_of_mono: "i \<le> j \<Longrightarrow> j \<le> length xs \<Longrightarrow> offsets_of xs ! i \<le> offsets_of xs ! j"
proof -
  assume ij: "i \<le> j" "j \<le> length xs"
  then have "take j xs = take i xs @ take (j - i) (drop i xs)" by (metis le_add_diff_inverse take_add)
  then show ?thesis using ij by (simp add: nth_offsets_of)
qed

lemma offsets_of_bound: "i \<le> length xs \<Longrightarrow> offsets_of xs ! i \<le> length (concat xs)"
  using offsets_of_mono [of i "length xs" xs] by (simp add: nth_offsets_of)

lemma offsets_of_Suc: "i < length xs \<Longrightarrow> offsets_of xs ! Suc i = offsets_of xs ! i + length (xs ! i)"
  by (simp add: nth_offsets_of take_Suc_conv_app_nth)

lemma offset_at_offsets_of:
  assumes "i \<le> length xs" and "length (concat xs) \<le> i64_max" and "length xs \<le> u32_max"
  shows "offset_at (encode_values (offsets_of xs)) i = Inr (offsets_of xs ! i)"
  using assms offsets_of_bound [OF assms(1)] by (intro offset_at_encode) auto

lemma binary_at_offsets_of:
  assumes "i < length xs" and "length (concat xs) \<le> i64_max" and "length xs \<le> u32_max"
  shows "binary_at (encode_values (offsets_of xs)) (concat xs) i = Inr (xs ! i)"
proof -
  let ?s = "offsets_of xs ! i" and ?t = "offsets_of xs ! Suc i"
  have "take (?t - ?s) (drop ?s (concat xs)) = xs ! i"
    using slice_concat [OF assms(1)] by (simp add: slice_get_Some)
  moreover have "?s \<le> ?t" "?t \<le> length (concat xs)"
    using assms(1) by (simp_all add: offsets_of_mono offsets_of_bound)
  ultimately show ?thesis
    using assms by (simp add: binary_at_def offset_at_offsets_of fail_if_def)
qed

lemma validate_offsets_of:
  assumes "length (concat xs) \<le> i64_max" and "length xs \<le> u32_max"
    and "\<forall>x \<in> set xs. length x \<le> limit \<and> (allow \<or> x \<noteq> [])"
  shows "validate_offsets (encode_values (offsets_of xs)) (concat xs) (length xs) limit allow = Inr ()"
proof -
  have step: "offsets_step (encode_values (offsets_of xs)) (concat xs) limit allow u i = Inr ()"
    if "i < length xs" for u i
  proof -
    have "xs ! i \<in> set xs" using that by simp
    then have "length (xs ! i) \<le> limit" "allow \<or> xs ! i \<noteq> []" using assms(3) by blast+
    then show ?thesis
      using that assms(1,2) offsets_of_bound [of "Suc i" xs]
      by (simp add: offsets_step_def offset_at_offsets_of offsets_of_Suc fail_if_def)
  qed
  have "try_fold (offsets_step (encode_values (offsets_of xs)) (concat xs) limit allow) () [0..<length xs]
    = Inr (foldl (\<lambda>u i. ()) () [0..<length xs])"
    by (rule try_fold_foldl) (simp add: step)
  moreover have "8 * Suc (length xs) = saturating_mul (length xs + 1) 8"
    using assms(2) by (simp add: saturating_mul_def rrf_consts)
  moreover have "offset_at (encode_values (offsets_of xs)) 0 = Inr 0"
    using offset_at_offsets_of [of 0 xs] assms by (simp add: nth_offsets_of)
  moreover have "offset_at (encode_values (offsets_of xs)) (length xs) = Inr (length (concat xs))"
    using offset_at_offsets_of [of "length xs" xs] assms by (simp add: nth_offsets_of)
  ultimately show ?thesis by (simp add: validate_offsets_def fail_if_def)
qed

section \<open>Rows\<close>

definition loaded_of :: "row_group_builder \<Rightarrow> loaded_row_group" where
  "loaded_of b = \<lparr>lg_spine = \<lparr>ks_offsets = encode_values (bd_key_offsets b), ks_data = bd_keys b,
       ks_sequences = encode_values (bd_sequences b)\<rparr>,
     lg_columns = \<lparr>lv_validity = bd_value_validity b, lv_offsets = encode_values (bd_value_offsets b),
       lv_values = bd_values b\<rparr>\<rparr>"

lemma loaded_of_rows:
  assumes "builder_holds b rs" and "i < length rs" and "length rs \<le> u32_max"
    and "vv_sequence (snd (rs ! i)) \<le> u64_max"
  shows "key_at (lg_spine (loaded_of b)) i = Inr (fst (rs ! i))"
    and "sequence_at (lg_spine (loaded_of b)) i = Inr (vv_sequence (snd (rs ! i)))"
    and "value_from_columns (lg_columns (loaded_of b)) i = Inr (vv_value (snd (rs ! i)))"
proof -
  have b: "bd_key_offsets b = offsets_of (row_keys rs)" "bd_keys b = concat (row_keys rs)"
    "bd_sequences b = row_sequences rs" "bd_value_offsets b = offsets_of (row_values rs)"
    "bd_values b = concat (row_values rs)" "validity_ok (bd_value_validity b) (row_present rs)"
    "length (concat (row_keys rs)) \<le> i64_max" "length (concat (row_values rs)) \<le> i64_max"
    using assms(1) by (simp_all add: builder_holds_def)
  have lens: "length (row_keys rs) = length rs" "length (row_values rs) = length rs"
    "length (row_sequences rs) = length rs" "length (row_present rs) = length rs" by (simp_all add: row_columns)
  have nths: "row_keys rs ! i = fst (rs ! i)" "row_values rs ! i = value_or_default (snd (rs ! i))"
    "row_sequences rs ! i = vv_sequence (snd (rs ! i))" "row_present rs ! i = (vv_value (snd (rs ! i)) \<noteq> None)"
    using assms(2) by (simp_all add: row_columns)
  show "key_at (lg_spine (loaded_of b)) i = Inr (fst (rs ! i))"
    using assms(2,3) b(7) lens nths by (simp add: key_at_def loaded_of_def b(1,2) binary_at_offsets_of)
  show "sequence_at (lg_spine (loaded_of b)) i = Inr (vv_sequence (snd (rs ! i)))"
    using sequence_at_encode [of i "row_sequences rs" "lg_spine (loaded_of b)"] assms lens nths
    by (simp add: loaded_of_def b(3))
  have "valid_at (bd_value_validity b) i = Inr (vv_value (snd (rs ! i)) \<noteq> None)"
    using valid_at_ok [OF b(6), of i] assms(2) lens nths by simp
  moreover have "binary_at (encode_values (offsets_of (row_values rs))) (concat (row_values rs)) i
      = Inr (value_or_default (snd (rs ! i)))"
    using assms(2,3) b(8) lens nths by (simp add: binary_at_offsets_of)
  ultimately show "value_from_columns (lg_columns (loaded_of b)) i = Inr (vv_value (snd (rs ! i)))"
    by (auto simp: value_from_columns_def loaded_of_def b(4,5) value_or_default_def)
qed

lemma loaded_of_row_of:
  assumes "builder_holds b rs" and "i < length rs" and "length rs \<le> u32_max"
    and "vv_sequence (snd (rs ! i)) \<le> u64_max"
  shows "row_readable (loaded_of b) i" and "row_of (loaded_of b) i = rs ! i"
  using loaded_of_rows [OF assms] by (simp_all add: row_readable_def row_of_def prod_eq_iff)

section \<open>The audit of a row group\<close>

definition audit_ga :: "row_group_filter \<Rightarrow> record_row list \<Rightarrow> group_audit" where
  "audit_ga words rs = \<lparr>ga_filter = filter_of words (row_keys rs),
     ga_unique_key_count = length (key_runs (row_keys rs)),
     ga_previous_group_key = (if rs = [] then None else Some (fst (last rs))),
     ga_first = (if rs = [] then None else Some (fst (hd rs))),
     ga_last = (if rs = [] then None else Some (fst (last rs))),
     ga_null_count = null_rows rs,
     ga_key_min = foldl min u64_max (map length (row_keys rs)),
     ga_key_max = foldl max 0 (map length (row_keys rs)),
     ga_value_min = foldl min u64_max (map length (row_values rs)),
     ga_value_max = foldl max 0 (map length (row_values rs)),
     ga_sequence_min = foldl min u64_max (row_sequences rs),
     ga_sequence_max = foldl max 0 (row_sequences rs)\<rparr>"

definition audit_sa :: "segment_audit \<Rightarrow> record_row list \<Rightarrow> segment_audit" where
  "audit_sa sa rs = sa\<lparr>sa_previous := (if rs = [] then sa_previous sa else last_record rs),
     sa_minimum := foldl min (sa_minimum sa) (row_sequences rs),
     sa_maximum := foldl max (sa_maximum sa) (row_sequences rs)\<rparr>"

definition sequence_ok :: "segment_descriptor \<Rightarrow> record_row \<Rightarrow> bool" where
  "sequence_ok d e \<longleftrightarrow> 0 < vv_sequence (snd e) \<and> vv_sequence (snd e) \<le> u64_max
     \<and> sd_minimum_sequence d \<le> vv_sequence (snd e) \<and> vv_sequence (snd e) \<le> sd_maximum_sequence d"

lemma row_columns_snoc:
  "row_keys (rs @ [e]) = row_keys rs @ [fst e]"
  "row_values (rs @ [e]) = row_values rs @ [value_or_default (snd e)]"
  "row_sequences (rs @ [e]) = row_sequences rs @ [vv_sequence (snd e)]"
  "row_present (rs @ [e]) = row_present rs @ [vv_value (snd e) \<noteq> None]"
  by (simp_all add: row_columns)

lemma audit_row_snoc:
  assumes reads: "key_at (lg_spine l) n = Inr (fst e)" "sequence_at (lg_spine l) n = Inr (vv_sequence (snd e))"
      "value_from_columns (lg_columns l) n = Inr (vv_value (snd e))"
    and ok: "sequence_ok d e" and runs: "length (key_runs (row_keys (ps @ [e]))) \<le> u32_max"
    and order: "case sa_previous (audit_sa sa ps) of None \<Rightarrow> True
       | Some (k, s) \<Rightarrow> k < fst e \<or> (k = fst e \<and> s < vv_sequence (snd e))"
  shows "audit_row d l (audit_sa sa ps, audit_ga words ps) n = Inr (audit_sa sa (ps @ [e]), audit_ga words (ps @ [e]))"
proof -
  let ?ga = "audit_ga words ps"
  let ?same = "ps \<noteq> [] \<and> fst (last ps) = fst e"
  have last: "last (row_keys ps) = fst (last ps)" if "ps \<noteq> []" using that by (simp add: row_keys_def last_map)
  have kr: "key_runs (row_keys ps @ [fst e]) = (if ?same then key_runs (row_keys ps) else key_runs (row_keys ps) @ [fst e])"
    using last by (auto simp: key_runs_snoc row_keys_def)
  have guard: "\<not> (vv_sequence (snd e) = 0 \<or> vv_sequence (snd e) < sd_minimum_sequence d
      \<or> vv_sequence (snd e) > sd_maximum_sequence d
      \<or> (case sa_previous (audit_sa sa ps) of None \<Rightarrow> False
         | Some (k, s) \<Rightarrow> fst e < k \<or> (fst e = k \<and> vv_sequence (snd e) \<le> s)))"
    using ok order by (auto simp: sequence_ok_def split: option.splits)
  have count: "(if ga_previous_group_key ?ga \<noteq> Some (fst e) then
              (if ga_unique_key_count ?ga + 1 \<le> u32_max then
                 Inr (?ga\<lparr>ga_filter := filter_insert (ga_filter ?ga) (fst e),
                         ga_unique_key_count := ga_unique_key_count ?ga + 1,
                         ga_previous_group_key := Some (fst e)\<rparr>)
               else Inl (InvalidSegment ''v6 unique-key validation count overflow''))
            else Inr ?ga)
     = Inr (?ga\<lparr>ga_filter := filter_of words (row_keys ps @ [fst e]),
         ga_unique_key_count := length (key_runs (row_keys ps @ [fst e])), ga_previous_group_key := Some (fst e)\<rparr>)"
    using runs by (cases ?same) (auto simp: audit_ga_def filter_of_def row_columns_snoc kr)
  have "audit_row d l (audit_sa sa ps, ?ga) n = Inr ((audit_sa sa ps)\<lparr>sa_previous := Some (fst e, vv_sequence (snd e)),
      sa_minimum := min (sa_minimum (audit_sa sa ps)) (vv_sequence (snd e)),
      sa_maximum := max (sa_maximum (audit_sa sa ps)) (vv_sequence (snd e))\<rparr>, audit_ga words (ps @ [e]))"
    unfolding audit_row_def prod.case reads rbind_simps fail_if_def if_not_P [OF guard] count
    by (cases "vv_value (snd e)") (simp_all add: audit_ga_def row_columns_snoc null_rows_def value_or_default_def)
  then show ?thesis by (simp add: audit_sa_def row_columns_snoc last_record_def)
qed

lemma length_key_runs_take: "length (key_runs (take n ks)) \<le> length (key_runs ks)"
proof (induction ks arbitrary: n rule: rev_induct)
  case (snoc k ks)
  show ?case
  proof (cases "n \<le> length ks")
    case True
    then show ?thesis using snoc [of n] by (auto simp: key_runs_snoc)
  qed simp
qed simp

lemma audit_rows_hold:
  assumes holds: "builder_holds b rs" and rows: "length rs \<le> u32_max" and ok: "list_all (sequence_ok d) rs"
    and sorted: "sorted_wrt record_less (pre @ rs)" and previous: "sa_previous sa = last_record pre"
  shows "try_fold (audit_row d (loaded_of b)) (sa, audit_ga words []) [0..<length rs]
    = Inr (audit_sa sa rs, audit_ga words rs)"
proof -
  have "try_fold (audit_row d (loaded_of b)) (sa, audit_ga words []) [0..<n]
      = Inr (audit_sa sa (take n rs), audit_ga words (take n rs))" if "n \<le> length rs" for n
    using that
  proof (induction n)
    case 0
    show ?case by (simp add: audit_sa_def row_columns)
  next
    case (Suc n)
    then have n: "n < length rs" by simp
    let ?e = "rs ! n" and ?ps = "take n rs"
    have e: "sequence_ok d ?e" using ok n by (simp add: list_all_length)
    have take: "take (Suc n) rs = ?ps @ [?e]" using n by (rule take_Suc_conv_app_nth)
    have reads: "key_at (lg_spine (loaded_of b)) n = Inr (fst ?e)"
      "sequence_at (lg_spine (loaded_of b)) n = Inr (vv_sequence (snd ?e))"
      "value_from_columns (lg_columns (loaded_of b)) n = Inr (vv_value (snd ?e))"
      using loaded_of_rows [OF holds n rows] e by (simp_all add: sequence_ok_def)
    have runs: "length (key_runs (row_keys (?ps @ [?e]))) \<le> u32_max"
      using length_key_runs_take [of "Suc n" "row_keys rs"] holds
      by (simp add: take [symmetric] builder_holds_def row_keys_def take_map)
    have "pre @ rs = (pre @ ?ps) @ ?e # drop (Suc n) rs" using id_take_nth_drop [OF n] by simp
    with sorted have "sorted_wrt record_less ((pre @ ?ps) @ ?e # drop (Suc n) rs)" by (simp only:)
    then have before: "\<forall>x \<in> set (pre @ ?ps). record_less x ?e"
      unfolding sorted_wrt_append [of _ "pre @ ?ps"] by simp
    have "sa_previous (audit_sa sa ?ps) = last_record (pre @ ?ps)"
      using previous by (simp add: audit_sa_def last_record_def)
    then have order: "case sa_previous (audit_sa sa ?ps) of None \<Rightarrow> True
       | Some (k, s) \<Rightarrow> k < fst ?e \<or> (k = fst ?e \<and> s < vv_sequence (snd ?e))"
      using before last_in_set [of "pre @ ?ps"] by (auto simp: last_record_def record_less_def simp del: set_append)
    from Suc.IH n audit_row_snoc [OF reads e runs order] show ?case by (simp add: try_fold_append take)
  qed
  from this [of "length rs"] show ?thesis by simp
qed

section \<open>Statistics\<close>

lemma foldl_min_Min: "xs \<noteq> [] \<Longrightarrow> foldl min a xs = min a (Min (set xs))" for a :: nat
proof (induction xs arbitrary: a)
  case (Cons x xs)
  then show ?case by (cases "xs = []") (auto simp: min.assoc)
qed simp

lemma foldl_max_Max: "xs \<noteq> [] \<Longrightarrow> foldl max a xs = max a (Max (set xs))" for a :: nat
proof (induction xs arbitrary: a)
  case (Cons x xs)
  then show ?case by (cases "xs = []") (auto simp: max.assoc)
qed simp

definition group_matches :: "row_group_descriptor \<Rightarrow> row_group_builder \<Rightarrow> bool" where
  "group_matches g b \<longleftrightarrow> rg_row_start g = bd_row_start b \<and> rg_row_count g = builder_rows b
     \<and> rg_unique_key_count g = bd_unique_key_count b
     \<and> rg_first_key g = bd_first_key b \<and> rg_last_key g = bd_last_key b
     \<and> builder_filter b = Inr (rg_filter g)
     \<and> map (\<lambda>p. (pg_kind p, (pg_null_count p, pg_statistic_min p, pg_statistic_max p), pg_logical_bytes p,
            pg_row_start p, pg_row_count p)) (rg_pages g)
       = map (\<lambda>(kind, stats, bs). (kind, stats, length bs, bd_row_start b, builder_rows b)) (builder_pages b)"

lemma group_matches_statistics:
  assumes "group_matches g b"
  shows "pg_statistic_min (rg_page g KeyOffsets) = bd_minimum_key_bytes b"
    "pg_statistic_max (rg_page g KeyOffsets) = bd_maximum_key_bytes b"
    "pg_statistic_min (rg_page g SequenceValues) = Min (set (bd_sequences b))"
    "pg_statistic_max (rg_page g SequenceValues) = Max (set (bd_sequences b))"
    "pg_null_count (rg_page g ValueValidity) = bd_null_count b"
    "pg_statistic_min (rg_page g ValueOffsets) = bd_minimum_value_bytes b"
    "pg_statistic_max (rg_page g ValueOffsets) = bd_maximum_value_bytes b"
proof -
  have pages: "map (\<lambda>p. (pg_kind p, (pg_null_count p, pg_statistic_min p, pg_statistic_max p), pg_logical_bytes p,
            pg_row_start p, pg_row_count p)) (rg_pages g)
       = map (\<lambda>(kind, stats, bs). (kind, stats, length bs, bd_row_start b, builder_rows b)) (builder_pages b)"
    using assms by (simp add: group_matches_def)
  from pages show "pg_statistic_min (rg_page g KeyOffsets) = bd_minimum_key_bytes b"
    "pg_statistic_max (rg_page g KeyOffsets) = bd_maximum_key_bytes b"
    "pg_statistic_min (rg_page g SequenceValues) = Min (set (bd_sequences b))"
    "pg_statistic_max (rg_page g SequenceValues) = Max (set (bd_sequences b))"
    "pg_null_count (rg_page g ValueValidity) = bd_null_count b"
    "pg_statistic_min (rg_page g ValueOffsets) = bd_minimum_value_bytes b"
    "pg_statistic_max (rg_page g ValueOffsets) = bd_maximum_value_bytes b"
    by (auto simp: builder_pages_def map_eq_Cons_conv rg_page_def)
qed

lemma audit_group_holds:
  assumes load: "load_row_group cx seg i = Inr (loaded_of b)" and g: "g = sg_row_groups seg ! i"
    and matches: "group_matches g b"
    and holds: "builder_holds b rs" and rows: "length rs \<le> u32_max" "rs \<noteq> []"
    and ok: "list_all (sequence_ok (sg_descriptor seg)) rs"
    and sorted: "sorted_wrt record_less (pre @ rs)" and previous: "sa_previous sa = last_record pre"
    and total: "sa_rows sa + length rs \<le> u64_max"
  shows "audit_group cx seg sa i = Inr ((audit_sa sa rs)\<lparr>sa_rows := sa_rows sa + length rs\<rparr>)"
proof -
  have count: "rg_row_count g = length rs"
    using matches holds by (simp add: group_matches_def builder_rows_def builder_holds_def row_columns)
  have b: "bd_key_offsets b = offsets_of (row_keys rs)" "bd_keys b = concat (row_keys rs)"
    "bd_sequences b = row_sequences rs" "bd_value_offsets b = offsets_of (row_values rs)"
    "bd_values b = concat (row_values rs)" "validity_ok (bd_value_validity b) (row_present rs)"
    "length (concat (row_keys rs)) \<le> i64_max" "length (concat (row_values rs)) \<le> i64_max"
    "list_all row_fits rs"
    using holds by (simp_all add: builder_holds_def)
  have lens: "length (row_keys rs) = length rs" "length (row_values rs) = length rs"
    "length (row_present rs) = length rs" by (simp_all add: row_columns)
  have keys: "validate_offsets (encode_values (bd_key_offsets b)) (bd_keys b) (rg_row_count g) SEGMENT_MAX_KEY_BYTES False = Inr ()"
    using validate_offsets_of [of "row_keys rs" SEGMENT_MAX_KEY_BYTES False] b rows lens
    by (auto simp: count row_columns list_all_iff row_fits_def)
  have vals: "validate_offsets (encode_values (bd_value_offsets b)) (bd_values b) (rg_row_count g) SEGMENT_MAX_VALUE_BYTES True = Inr ()"
    using validate_offsets_of [of "row_values rs" SEGMENT_MAX_VALUE_BYTES True] b rows lens
    by (auto simp: count row_columns list_all_iff row_fits_def)
  have validity: "validate_validity (bd_value_validity b) (rg_row_count g) = Inr ()"
    using validate_validity_ok [OF b(6)] lens count by simp
  obtain e where e: "filter_new (rg_unique_key_count g) = Inr e" and words: "rg_filter g = filter_of e (row_keys rs)"
    using builder_filter_holds [of b "rg_filter g" rs] matches holds by (auto simp: group_matches_def builder_holds_def)
  have fold: "try_fold (audit_row (sg_descriptor seg) (loaded_of b)) (sa, audit_ga e []) [0..<length rs]
    = Inr (audit_sa sa rs, audit_ga e rs)"
    by (rule audit_rows_hold [OF holds rows(1) ok sorted previous])
  have start: "audit_ga e [] = \<lparr>ga_filter = e, ga_unique_key_count = 0, ga_previous_group_key = None,
                    ga_first = None, ga_last = None, ga_null_count = 0, ga_key_min = u64_max,
                    ga_key_max = 0, ga_value_min = u64_max, ga_value_max = 0,
                    ga_sequence_min = u64_max, ga_sequence_max = 0\<rparr>"
    by (simp add: audit_ga_def filter_of_def key_runs_def null_rows_def row_columns)
  have seqs: "foldl min u64_max (row_sequences rs) = Min (set (row_sequences rs))"
    "foldl max 0 (row_sequences rs) = Max (set (row_sequences rs))"
  proof -
    have ne: "row_sequences rs \<noteq> []" using rows(2) by (simp add: row_columns)
    then have "Min (set (row_sequences rs)) \<in> set (row_sequences rs)" by simp
    moreover have "\<forall>s \<in> set (row_sequences rs). s \<le> u64_max"
      using ok by (auto simp: row_columns list_all_iff sequence_ok_def)
    ultimately have "Min (set (row_sequences rs)) \<le> u64_max" by blast
    with ne show "foldl min u64_max (row_sequences rs) = Min (set (row_sequences rs))"
      "foldl max 0 (row_sequences rs) = Max (set (row_sequences rs))" by (simp_all add: foldl_min_Min foldl_max_Max)
  qed
  note stats = group_matches_statistics [OF matches, unfolded b]
  have bd: "bd_first_key b = fst (hd rs)" "bd_last_key b = fst (last rs)"
     "bd_unique_key_count b = length (key_runs (row_keys rs))" "bd_null_count b = null_rows rs"
     "bd_minimum_key_bytes b = foldl min u64_max (map length (row_keys rs))"
     "bd_maximum_key_bytes b = foldl max 0 (map length (row_keys rs))"
     "bd_minimum_value_bytes b = foldl min u64_max (map length (row_values rs))"
     "bd_maximum_value_bytes b = foldl max 0 (map length (row_values rs))"
    using holds rows(2) by (simp_all add: builder_holds_def)
  have unique: "rg_unique_key_count g = length (key_runs (row_keys rs))"
    and ends: "rg_first_key g = fst (hd rs)" "rg_last_key g = fst (last rs)"
    using matches by (simp_all add: group_matches_def bd)
  have sel: "lg_spine (loaded_of b) = \<lparr>ks_offsets = encode_values (bd_key_offsets b), ks_data = bd_keys b,
       ks_sequences = encode_values (bd_sequences b)\<rparr>"
     "lg_columns (loaded_of b) = \<lparr>lv_validity = bd_value_validity b, lv_offsets = encode_values (bd_value_offsets b),
       lv_values = bd_values b\<rparr>" by (simp_all add: loaded_of_def)
  have folded: "try_fold (audit_row (sg_descriptor seg) (loaded_of b)) (sa, audit_ga e []) [0..<rg_row_count g]
    = Inr (audit_sa sa rs, audit_ga e rs)" using fold by (simp only: count)
  have same: "\<not> (ga_first (audit_ga e rs) \<noteq> Some (rg_first_key g) \<or> ga_last (audit_ga e rs) \<noteq> Some (rg_last_key g)
                     \<or> pg_statistic_min (rg_page g KeyOffsets) \<noteq> ga_key_min (audit_ga e rs)
                     \<or> pg_statistic_max (rg_page g KeyOffsets) \<noteq> ga_key_max (audit_ga e rs)
                     \<or> pg_statistic_min (rg_page g SequenceValues) \<noteq> ga_sequence_min (audit_ga e rs)
                     \<or> pg_statistic_max (rg_page g SequenceValues) \<noteq> ga_sequence_max (audit_ga e rs)
                     \<or> pg_null_count (rg_page g ValueValidity) \<noteq> ga_null_count (audit_ga e rs)
                     \<or> pg_statistic_min (rg_page g ValueOffsets) \<noteq> ga_value_min (audit_ga e rs)
                     \<or> pg_statistic_max (rg_page g ValueOffsets) \<noteq> ga_value_max (audit_ga e rs))"
    using rows(2) by (simp add: audit_ga_def stats bd ends seqs)
  have counts: "\<not> (ga_unique_key_count (audit_ga e rs) \<noteq> rg_unique_key_count g \<or> ga_filter (audit_ga e rs) \<noteq> rg_filter g)"
    by (simp add: audit_ga_def unique words)
  have loaded: "ks_offsets (lg_spine (loaded_of b)) = encode_values (bd_key_offsets b)"
    "ks_data (lg_spine (loaded_of b)) = bd_keys b" "lv_validity (lg_columns (loaded_of b)) = bd_value_validity b"
    "lv_offsets (lg_columns (loaded_of b)) = encode_values (bd_value_offsets b)"
    "lv_values (lg_columns (loaded_of b)) = bd_values b" by (simp_all add: sel)
  show ?thesis
    unfolding audit_group_def Let_def g [symmetric] load rbind_simps loaded keys vals validity e start [symmetric]
      folded prod.case fail_if_def if_not_P [OF same] if_not_P [OF counts]
    using total by (simp add: checked_add_def ok_or_def count audit_sa_def)
qed

end
