(* ===== verification/Segment_Layout.thy ===== *)
theory Segment_Layout
  imports Segment_Pages
begin

text \<open>
  Where the encoder puts the pages of its row groups: aligned, with zero padding between them
  and readable again from the output, also after more bytes are appended.
\<close>

text \<open>What the encoder relies on of the two codecs: a 32-byte digest, and a lossless block format.\<close>

definition codec_ok :: "codec \<Rightarrow> bool" where
  "codec_ok cx \<longleftrightarrow> (\<forall>bs. length (sha256 cx bs) = 32)
     \<and> (\<forall>bs c. lz4_compress cx bs = Inr c \<longrightarrow> c \<noteq> [] \<and> lz4_decompress cx c (length bs) = Inr bs)"

definition page_stored :: "codec \<Rightarrow> bytes \<Rightarrow> page_descriptor \<Rightarrow> bytes \<Rightarrow> bool" where
  "page_stored cx out p bs \<longleftrightarrow> SEGMENT_HEADER_BYTES \<le> pg_offset p
     \<and> (\<exists>stored. slice_get out (pg_offset p) (pg_offset p + pg_physical_bytes p) = Some stored
          \<and> pg_digest p = sha256 cx stored \<and> finish_page cx stored p = Inr bs)"

fun layout :: "bytes \<Rightarrow> nat \<Rightarrow> page_descriptor list \<Rightarrow> nat \<Rightarrow> bool" where
  "layout out e [] e' \<longleftrightarrow> e' = e"
| "layout out e (p # ps) e' \<longleftrightarrow> pg_offset p mod PAGE_ALIGNMENT = 0 \<and> e \<le> pg_offset p
     \<and> pg_offset p - e < PAGE_ALIGNMENT
     \<and> slice_get out e (pg_offset p) = Some (replicate (pg_offset p - e) 0)
     \<and> pg_offset p + pg_physical_bytes p \<le> length out
     \<and> layout out (pg_offset p + pg_physical_bytes p) ps e'"

lemma slice_get_extend: "slice_get xs a b = Some s \<Longrightarrow> slice_get (xs @ ys) a b = Some s"
  by (auto simp: slice_get_def split: if_splits)

lemma page_stored_extend: "page_stored cx out p bs \<Longrightarrow> page_stored cx (out @ ys) p bs"
  using slice_get_extend unfolding page_stored_def by blast

lemma layout_extend: "layout out e ps e' \<Longrightarrow> layout (out @ ys) e ps e'"
  by (induction ps arbitrary: e) (auto simp: slice_get_extend)

lemma layout_append: "layout out e (ps @ qs) e'' \<longleftrightarrow> (\<exists>e'. layout out e ps e' \<and> layout out e' qs e'')"
  by (induction ps arbitrary: e) auto

lemma layout_mono: "layout out e ps e' \<Longrightarrow> e \<le> e'"
  by (induction ps arbitrary: e) fastforce+

lemma align_eq: "\<exists>n < PAGE_ALIGNMENT. align out = out @ replicate n 0 \<and> length (align out) mod PAGE_ALIGNMENT = 0"
proof -
  let ?n = "(64 - length out mod 64) mod 64 :: nat"
  have "(length out + ?n) mod 64 = 0"
  proof (cases "length out mod 64 = 0")
    case False
    then have n: "?n = 64 - length out mod 64" by simp
    have fill: "a + (64 - r) = 64 * (q + 1)" if "a = 64 * q + r" "r < 64" for a q r :: nat using that by simp
    have "length out + (64 - length out mod 64) = 64 * (length out div 64 + 1)" by (rule fill) simp_all
    then show ?thesis unfolding n by (simp only: mod_mult_self1_is_0)
  qed simp
  moreover have "?n < 64" by simp
  ultimately show ?thesis by (intro exI [of _ ?n]) (simp add: align_def rrf_consts)
qed

lemma compress_page_ok:
  assumes "codec_ok cx" and "compress_page cx policy bs = Inr (compression, stored)"
    and "pg_compression p = compression" and "pg_logical_bytes p = length bs"
  shows "finish_page cx stored p = Inr bs"
    and "validate_page_compression policy compression (length stored) (length bs) = Inr ()"
proof -
  have "compression = PageNone \<and> stored = bs \<or>
    (\<exists>savings limit. policy = AdaptiveLz4 savings limit \<and> compression = Lz4Block \<and> length bs \<le> limit
       \<and> lz4_compress cx bs = Inr stored \<and> compression_saves (length bs) (length stored) savings = Inr True)"
    using assms(2) by (auto simp: compress_page_def rbind_Inr split: segment_compression_policy.splits if_splits)
  then show "finish_page cx stored p = Inr bs"
    "validate_page_compression policy compression (length stored) (length bs) = Inr ()"
    using assms(1,3,4)
    by (auto simp: finish_page_def codec_ok_def validate_page_compression_def fail_if_def)
qed

lemma append_page_layout:
  assumes "codec_ok cx" and "append_page cx policy out kind rs n (nulls, lo, hi) bs = Inr (out', p)"
    and "SEGMENT_HEADER_BYTES \<le> length out"
  shows "\<exists>ys. out' = out @ ys" and "layout out' (length out) [p] (length out')" and "page_stored cx out' p bs"
    and "pg_kind p = kind" "pg_null_count p = nulls" "pg_statistic_min p = lo" "pg_statistic_max p = hi"
      "pg_logical_bytes p = length bs" "pg_row_start p = rs" "pg_row_count p = n" "length (pg_digest p) = 32"
    and "validate_page_compression policy (pg_compression p) (pg_physical_bytes p) (pg_logical_bytes p) = Inr ()"
proof -
  from assms(2) obtain compression stored where c: "compress_page cx policy bs = Inr (compression, stored)"
    and out': "out' = align out @ stored"
    and p: "p = \<lparr>pg_kind = kind, pg_compression = compression, pg_row_start = rs,
        pg_row_count = n, pg_null_count = nulls, pg_offset = length (align out),
        pg_physical_bytes = length stored, pg_logical_bytes = length bs,
        pg_statistic_min = lo, pg_statistic_max = hi, pg_digest = sha256 cx stored\<rparr>"
    by (cases "compress_page cx policy bs") (auto simp: append_page_def Let_def)
  obtain k where k: "k < PAGE_ALIGNMENT" "align out = out @ replicate k 0" "length (align out) mod PAGE_ALIGNMENT = 0"
    using align_eq [of out] by (elim exE conjE) (rule that)
  show "\<exists>ys. out' = out @ ys" by (simp add: out' k(2))
  have "slice_get out' (length (align out)) (length (align out) + length stored) = Some stored"
    using slice_get_append [of "align out" stored "[]"] by (simp add: out')
  then show "page_stored cx out' p bs"
    using assms(3) compress_page_ok(1) [OF assms(1) c, of p] by (simp add: page_stored_def p k(2))
  have "slice_get out' (length out) (length out + k) = Some (replicate k 0)"
    using slice_get_append [of out "replicate k 0" stored] by (simp add: out' k(2))
  then show "layout out' (length out) [p] (length out')"
    using k by (simp add: p out')
  show "validate_page_compression policy (pg_compression p) (pg_physical_bytes p) (pg_logical_bytes p) = Inr ()"
    using compress_page_ok(2) [OF assms(1) c, of p] by (simp add: p)
  show "pg_kind p = kind" "pg_null_count p = nulls" "pg_statistic_min p = lo" "pg_statistic_max p = hi"
      "pg_logical_bytes p = length bs" "pg_row_start p = rs" "pg_row_count p = n" "length (pg_digest p) = 32"
    using assms(1) by (simp_all add: p codec_ok_def)
qed

definition page_valid :: "segment_compression_policy \<Rightarrow> page_descriptor \<Rightarrow> bool" where
  "page_valid policy p \<longleftrightarrow> length (pg_digest p) = 32
     \<and> validate_page_compression policy (pg_compression p) (pg_physical_bytes p) (pg_logical_bytes p) = Inr ()"

text \<open>The pages of a builder in the output, in the order of \<open>builder_pages\<close>.\<close>

definition page_written ::
  "codec \<Rightarrow> segment_compression_policy \<Rightarrow> bytes \<Rightarrow> nat \<Rightarrow> nat \<Rightarrow> page_descriptor
     \<Rightarrow> page_kind \<times> (nat \<times> nat \<times> nat) \<times> bytes \<Rightarrow> bool" where
  "page_written cx policy out rs n p = (\<lambda>(kind, stats, bs).
     page_stored cx out p bs \<and> page_valid policy p
     \<and> (pg_kind p, (pg_null_count p, pg_statistic_min p, pg_statistic_max p), pg_logical_bytes p,
            pg_row_start p, pg_row_count p) = (kind, stats, length bs, rs, n))"

lemma page_written_extend:
  "page_written cx policy out rs n p e \<Longrightarrow> page_written cx policy (out @ ys) rs n p e"
  by (auto simp: page_written_def page_stored_extend)

lemma append_pages_layout:
  assumes "codec_ok cx" and "try_fold (append_pages cx policy rs n) (out, ps) es = Inr (out', ps')"
    and "SEGMENT_HEADER_BYTES \<le> length out"
  shows "\<exists>ys qs. out' = out @ ys \<and> ps' = ps @ qs \<and> layout out' (length out) qs (length out')
    \<and> list_all2 (page_written cx policy out' rs n) qs es"
  using assms(2,3)
proof (induction es arbitrary: out ps)
  case (Cons e es)
  obtain kind nulls lo hi bs where e: "e = (kind, (nulls, lo, hi), bs)" by (cases e) auto
  from Cons.prems(1) obtain out1 p where p: "append_page cx policy out kind rs n (nulls, lo, hi) bs = Inr (out1, p)"
    and rest: "try_fold (append_pages cx policy rs n) (out1, ps @ [p]) es = Inr (out', ps')"
    by (auto simp: e append_pages_def rbind_Inr)
  note a = append_page_layout [OF assms(1) p Cons.prems(2)]
  obtain ys where ys: "out1 = out @ ys" using a(1) by blast
  have "SEGMENT_HEADER_BYTES \<le> length out1" using Cons.prems(2) by (simp add: ys)
  from Cons.IH [OF rest this] obtain zs qs where zs: "out' = out1 @ zs" "ps' = (ps @ [p]) @ qs"
    "layout out' (length out1) qs (length out')" "list_all2 (page_written cx policy out' rs n) qs es" by blast
  have "layout out' (length out) ([p] @ qs) (length out')"
    using zs(3) layout_extend [OF a(2)] unfolding zs(1) layout_append by blast
  moreover have "page_written cx policy out' rs n p e"
    unfolding zs(1) using a by (intro page_written_extend) (simp add: e page_written_def page_valid_def)
  ultimately show ?case using zs ys by (intro exI [of _ "ys @ zs"] exI [of _ "p # qs"]) simp
qed simp

definition group_written ::
  "codec \<Rightarrow> segment_compression_policy \<Rightarrow> bytes \<Rightarrow> row_group_descriptor \<Rightarrow> row_group_builder \<Rightarrow> bool" where
  "group_written cx policy out g b \<longleftrightarrow> group_matches g b \<and> builder_rows b \<le> u32_max
     \<and> list_all2 (page_written cx policy out (bd_row_start b) (builder_rows b)) (rg_pages g) (builder_pages b)"

lemma group_written_extend: "group_written cx policy out g b \<Longrightarrow> group_written cx policy (out @ ys) g b"
  by (auto simp: group_written_def elim!: list_all2_mono intro: page_written_extend)

lemma append_row_group_layout:
  assumes "codec_ok cx" and "append_row_group cx policy b out = Inr (out', g)"
    and "SEGMENT_HEADER_BYTES \<le> length out"
  shows "\<exists>ys. out' = out @ ys" and "layout out' (length out) (rg_pages g) (length out')"
    and "group_written cx policy out' g b"
proof -
  from assms(2) obtain words ps where rows: "builder_rows b \<le> u32_max" and w: "builder_filter b = Inr words"
    and fold: "try_fold (append_pages cx policy (bd_row_start b) (builder_rows b)) (out, []) (builder_pages b) = Inr (out', ps)"
    and g: "g = \<lparr>rg_row_start = bd_row_start b, rg_row_count = builder_rows b,
       rg_unique_key_count = bd_unique_key_count b, rg_first_key = bd_first_key b,
       rg_last_key = bd_last_key b, rg_pages = ps, rg_filter = words\<rparr>"
    by (auto simp: append_row_group_def rbind_Inr fail_if_Inr)
  from append_pages_layout [OF assms(1) fold assms(3)] obtain ys where ys: "out' = out @ ys"
    "layout out' (length out) ps (length out')"
    "list_all2 (page_written cx policy out' (bd_row_start b) (builder_rows b)) ps (builder_pages b)" by auto
  show "\<exists>ys. out' = out @ ys" "layout out' (length out) (rg_pages g) (length out')" using ys by (simp_all add: g)
  have "map (\<lambda>p. (pg_kind p, (pg_null_count p, pg_statistic_min p, pg_statistic_max p), pg_logical_bytes p,
            pg_row_start p, pg_row_count p)) ps
       = map (\<lambda>(kind, stats, bs). (kind, stats, length bs, bd_row_start b, builder_rows b)) (builder_pages b)"
    using ys(3) by (induction rule: list_all2_induct) (auto simp: page_written_def)
  then show "group_written cx policy out' g b"
    using ys(3) w rows by (simp add: group_written_def group_matches_def g)
qed

section \<open>Reading the pages of a written group\<close>

lemma read_page_stored:
  assumes "page_stored cx out p bs" and "length out \<le> u64_max"
    and "\<forall>a b. SEGMENT_HEADER_BYTES \<le> a \<longrightarrow> b \<le> length out \<longrightarrow> slice_get img a b = slice_get out a b"
    and "source \<in> {SourceFile img, SourceMapped img, SourceBytes img}"
  shows "read_page cx source p = Inr bs"
proof -
  from assms(1) obtain stored where s: "slice_get out (pg_offset p) (pg_offset p + pg_physical_bytes p) = Some stored"
    "pg_digest p = sha256 cx stored" "finish_page cx stored p = Inr bs" "SEGMENT_HEADER_BYTES \<le> pg_offset p"
    by (auto simp: page_stored_def)
  have le: "pg_offset p + pg_physical_bytes p \<le> length out" using s(1) by (simp add: slice_get_Some)
  then have "slice_get img (pg_offset p) (pg_offset p + pg_physical_bytes p) = Some stored"
    using assms(3) s by simp
  then have "source_bytes source (pg_offset p) (pg_physical_bytes p) = Inr stored"
    using assms(4) by (auto simp: read_exact_at_def ok_or_def)
  then show ?thesis using s le assms(2)
    by (simp add: read_page_def checked_add_def ok_or_def verify_stored_page_def fail_if_def)
qed

lemma load_row_group_written:
  assumes "group_written cx policy out (sg_row_groups seg ! i) b" and "i < length (sg_row_groups seg)"
    and "length out \<le> u64_max"
    and "\<forall>a b. SEGMENT_HEADER_BYTES \<le> a \<longrightarrow> b \<le> length out \<longrightarrow> slice_get img a b = slice_get out a b"
    and "sg_source seg \<in> {SourceFile img, SourceMapped img, SourceBytes img}"
  shows "load_row_group cx seg i = Inr (loaded_of b)"
proof -
  have "list_all2 (\<lambda>p (kind, stats, bs). read_page cx (sg_source seg) p = Inr bs) (rg_pages (sg_row_groups seg ! i)) (builder_pages b)"
    using assms(1) read_page_stored [OF _ assms(3-5)]
    unfolding group_written_def by (auto elim!: list_all2_mono simp: page_written_def)
  then show ?thesis using assms(2)
    by (auto simp: builder_pages_def list_all2_Cons2 load_row_group_def load_key_spine_def load_value_columns_def
        load_page_def rg_page_def loaded_of_def)
qed

end
