(* ===== verification/Segment_Index.thy ===== *)
theory Segment_Index
  imports Segment_Layout
begin

text \<open>
  The index of a segment: page descriptors and row-group entries are read back as they were
  written, with the cursor and the page positions moving as the parser expects.
\<close>

section \<open>Page descriptors\<close>

definition page_in_range :: "page_descriptor \<Rightarrow> bool" where
  "page_in_range p \<longleftrightarrow> pg_row_start p \<le> u64_max \<and> pg_row_count p \<le> u32_max \<and> pg_null_count p \<le> u32_max
     \<and> pg_offset p \<le> u64_max \<and> pg_physical_bytes p \<le> u64_max \<and> pg_logical_bytes p \<le> u64_max
     \<and> pg_statistic_min p \<le> u64_max \<and> pg_statistic_max p \<le> u64_max"

lemma field_bounds: "x \<le> u64_max \<Longrightarrow> x < 256 ^ 8" "x \<le> u32_max \<Longrightarrow> x < 256 ^ 4"
  by (simp_all add: rrf_consts)

lemma read_uint_field:
  assumes "length pre = offset" and "x < 256 ^ n" and "length pre + n \<le> u64_max"
  shows "read_uint n (pre @ le_bytes n x @ post) offset = Inr x"
  using assms slice_get_append [of pre "le_bytes n x" post]
  by (simp add: read_uint_def seg_slice_def checked_add_def ok_or_def)

lemma seg_slice_middle:
  assumes "length pre = offset" and "length mid = len" and "length pre + len \<le> u64_max"
  shows "seg_slice (pre @ mid @ post) offset len = Inr mid"
  using assms slice_get_append [of pre mid post]
  by (simp add: seg_slice_def checked_add_def ok_or_def)

lemma length_encode_page_descriptor:
  "length (pg_digest p) = 32 \<Longrightarrow> length (encode_page_descriptor p) = PAGE_DESCRIPTOR_BYTES"
  by (simp add: encode_page_descriptor_def PAGE_DESCRIPTOR_BYTES_def)

lemma decode_encode_page_descriptor:
  assumes "page_in_range p" and "page_valid policy p"
  shows "decode_page_descriptor (encode_page_descriptor p) policy = Inr p"
proof -
  let ?bs = "encode_page_descriptor p"
  have bytes: "unat (?bs ! 0) = page_kind_byte (pg_kind p)" "unat (?bs ! 1) = page_kind_column (pg_kind p)"
    "unat (?bs ! 2) = page_kind_buffer_kind (pg_kind p)" "unat (?bs ! 3) = page_kind_logical_type (pg_kind p)"
    "unat (?bs ! 4) = page_kind_physical_type (pg_kind p)" "?bs ! 5 = 0"
    "unat (?bs ! 6) = page_compression_byte (pg_compression p)" "?bs ! 7 = 0"
    by (cases "pg_kind p"; cases "pg_compression p";
        simp add: encode_page_descriptor_def page_kind_column_def page_kind_buffer_kind_def
          page_kind_logical_type_def page_kind_physical_type_def)+
  have kind: "page_kind_from_byte (page_kind_byte k) = Inr k" for k
    by (cases k) (simp_all add: page_kind_from_byte_def)
  have compression: "page_compression_from_byte (page_compression_byte c) = Inr c" for c
    by (cases c) (simp_all add: page_compression_from_byte_def)
  have r: "pg_row_start p < 256 ^ 8" "pg_row_count p < 256 ^ 4" "pg_null_count p < 256 ^ 4" "pg_offset p < 256 ^ 8"
    "pg_physical_bytes p < 256 ^ 8" "pg_logical_bytes p < 256 ^ 8" "pg_statistic_min p < 256 ^ 8" "pg_statistic_max p < 256 ^ 8"
    using assms(1) unfolding page_in_range_def by (simp_all only: field_bounds)
  note field = read_uint_def seg_slice_def checked_add_def ok_or_def slice_get_def encode_page_descriptor_def u64_max_def
  have fields: "read_uint 8 ?bs 32 = Inr (pg_physical_bytes p)" "read_uint 8 ?bs 40 = Inr (pg_logical_bytes p)"
    "read_uint 8 ?bs 8 = Inr (pg_row_start p)" "read_uint 4 ?bs 16 = Inr (pg_row_count p)"
    "read_uint 4 ?bs 20 = Inr (pg_null_count p)" "read_uint 8 ?bs 24 = Inr (pg_offset p)"
    "read_uint 8 ?bs 48 = Inr (pg_statistic_min p)" "read_uint 8 ?bs 56 = Inr (pg_statistic_max p)"
    using r by (simp_all add: field)
  have digest: "take 32 (drop 64 ?bs) = pg_digest p"
    using assms(2) by (simp add: encode_page_descriptor_def page_valid_def)
  show ?thesis
    using assms(2) unfolding decode_page_descriptor_def bytes kind compression fields digest page_valid_def
    by (simp add: fail_if_def)
qed

lemma parse_pages_encoded:
  assumes "index = pre @ concat (map encode_page_descriptor ps) @ post" and "length index \<le> u64_max"
    and "layout out e ps e'" and "e' \<le> index_offset" and "index_offset \<le> u64_max"
    and "\<forall>p \<in> set ps. page_in_range p \<and> page_valid policy p \<and> pg_row_start p = rs \<and> pg_row_count p = n"
  shows "try_fold (parse_page index policy rs n index_offset) (acc, length pre, e) (map pg_kind ps)
    = Inr (acc @ ps, length pre + PAGE_DESCRIPTOR_BYTES * length ps, e')"
  using assms
proof (induction ps arbitrary: pre acc e)
  case (Cons p ps)
  let ?e = "encode_page_descriptor p"
  have p: "page_in_range p" "page_valid policy p" "pg_row_start p = rs" "pg_row_count p = n" using Cons.prems(6) by auto
  have len: "length ?e = PAGE_DESCRIPTOR_BYTES" using p(2) by (simp add: length_encode_page_descriptor page_valid_def)
  have idx: "index = pre @ ?e @ (concat (map encode_page_descriptor ps) @ post)"
    using Cons.prems(1) by simp
  have slice: "seg_slice index (length pre) PAGE_DESCRIPTOR_BYTES = Inr ?e"
    unfolding idx using Cons.prems(2) len by (intro seg_slice_middle) (simp_all add: idx)
  have lay: "pg_offset p mod PAGE_ALIGNMENT = 0" "e \<le> pg_offset p" "pg_offset p - e < PAGE_ALIGNMENT"
    "layout out (pg_offset p + pg_physical_bytes p) ps e'" using Cons.prems(3) by auto
  have stop: "pg_offset p + pg_physical_bytes p \<le> index_offset" using layout_mono [OF lay(4)] Cons.prems(4) by simp
  have step: "parse_page index policy rs n index_offset (acc, length pre, e) (pg_kind p)
      = Inr (acc @ [p], length (pre @ ?e), pg_offset p + pg_physical_bytes p)"
    using lay stop Cons.prems(5) p len
    by (simp add: parse_page_def slice decode_encode_page_descriptor fail_if_def saturating_sub_def checked_add_def)
  have "try_fold (parse_page index policy rs n index_offset) (acc @ [p], length (pre @ ?e), pg_offset p + pg_physical_bytes p)
      (map pg_kind ps) = Inr ((acc @ [p]) @ ps, length (pre @ ?e) + PAGE_DESCRIPTOR_BYTES * length ps, e')"
    by (rule Cons.IH) (use Cons.prems idx lay in simp_all)
  then show ?case by (simp add: step len algebra_simps)
qed simp

section \<open>Row groups\<close>

lemma chunks8_append: "length c = 8 \<Longrightarrow> chunks8 (c @ r) = c # chunks8 r"
  by (auto simp: numeral_eq_Suc length_Suc_conv)

lemma chunks8_words: "chunks8 (concat (map (\<lambda>w. le_bytes 8 (unat w)) ws)) = map (\<lambda>w. le_bytes 8 (unat w)) ws"
  for ws :: "64 word list"
proof (induction ws)
  case (Cons w ws)
  then show ?case by (simp add: chunks8_append)
qed simp

lemma decode_filter_words:
  "map (\<lambda>c. word_of_nat (le_nat c)) (chunks8 (concat (map (\<lambda>w. le_bytes 8 (unat w)) ws))) = ws"
  for ws :: "64 word list"
proof -
  have "unat w < 256 ^ 8" for w :: "64 word" using unsigned_less [of w] by simp
  then show ?thesis unfolding chunks8_words by (simp add: comp_def)
qed

definition group_indexable :: "segment_compression_policy \<Rightarrow> row_group_descriptor \<Rightarrow> bool" where
  "group_indexable policy g \<longleftrightarrow> 0 < rg_row_count g \<and> rg_row_count g \<le> u32_max
     \<and> rg_row_start g + rg_row_count g \<le> u64_max
     \<and> 0 < rg_unique_key_count g \<and> rg_unique_key_count g \<le> rg_row_count g
     \<and> filter_word_count (rg_unique_key_count g) = Inr (length (rg_filter g))
     \<and> rg_first_key g \<noteq> [] \<and> length (rg_first_key g) \<le> SEGMENT_MAX_KEY_BYTES
     \<and> rg_last_key g \<noteq> [] \<and> length (rg_last_key g) \<le> SEGMENT_MAX_KEY_BYTES
     \<and> rg_first_key g \<le> rg_last_key g
     \<and> map pg_kind (rg_pages g) = page_kinds_ordered
     \<and> validate_page_shapes (rg_pages g) (rg_row_count g) = Inr ()
     \<and> (\<forall>p \<in> set (rg_pages g). page_in_range p \<and> page_valid policy p
          \<and> pg_row_start p = rg_row_start g \<and> pg_row_count p = rg_row_count g)"

definition group_fixed :: "row_group_descriptor \<Rightarrow> bytes" where
  "group_fixed g = le_bytes 8 (rg_row_start g) @ le_bytes 4 (rg_row_count g)
       @ le_bytes 4 (length (rg_first_key g)) @ le_bytes 4 (length (rg_last_key g))
       @ le_bytes 2 PAGES_PER_ROW_GROUP @ [0, 0] @ le_bytes 4 (rg_unique_key_count g)
       @ le_bytes 4 (length (rg_filter g))"

lemma group_fixed_fields:
  assumes "group_indexable policy g" and "length (rg_filter g) \<le> u32_max"
  shows "read_uint 8 (group_fixed g) 0 = Inr (rg_row_start g)" "read_uint 4 (group_fixed g) 8 = Inr (rg_row_count g)"
    "read_uint 4 (group_fixed g) 12 = Inr (length (rg_first_key g))"
    "read_uint 4 (group_fixed g) 16 = Inr (length (rg_last_key g))"
    "read_uint 4 (group_fixed g) 24 = Inr (rg_unique_key_count g)"
    "read_uint 4 (group_fixed g) 28 = Inr (length (rg_filter g))"
    "read_uint 2 (group_fixed g) 20 = Inr PAGES_PER_ROW_GROUP"
    "take 2 (drop 22 (group_fixed g)) = [0, 0]" "length (group_fixed g) = ROW_GROUP_HEADER_BYTES"
proof -
  have r: "rg_row_start g < 256 ^ 8" "rg_row_count g < 256 ^ 4" "length (rg_first_key g) < 256 ^ 4"
    "length (rg_last_key g) < 256 ^ 4" "rg_unique_key_count g < 256 ^ 4" "length (rg_filter g) < 256 ^ 4"
    "PAGES_PER_ROW_GROUP < 256 ^ 2"
    using assms by (auto simp: group_indexable_def rrf_consts)
  note field = read_uint_def seg_slice_def checked_add_def ok_or_def slice_get_def group_fixed_def u64_max_def
  show "read_uint 8 (group_fixed g) 0 = Inr (rg_row_start g)" "read_uint 4 (group_fixed g) 8 = Inr (rg_row_count g)"
    "read_uint 4 (group_fixed g) 12 = Inr (length (rg_first_key g))"
    "read_uint 4 (group_fixed g) 16 = Inr (length (rg_last_key g))"
    "read_uint 4 (group_fixed g) 24 = Inr (rg_unique_key_count g)"
    "read_uint 4 (group_fixed g) 28 = Inr (length (rg_filter g))"
    "read_uint 2 (group_fixed g) 20 = Inr PAGES_PER_ROW_GROUP"
    using r by (simp_all add: field)
  show "take 2 (drop 22 (group_fixed g)) = [0, 0]" "length (group_fixed g) = ROW_GROUP_HEADER_BYTES"
    by (simp_all add: group_fixed_def ROW_GROUP_HEADER_BYTES_def)
qed

lemma encode_row_group_Inr:
  "encode_row_group g = Inr e \<longleftrightarrow> length (rg_filter g) \<le> u32_max
     \<and> e = group_fixed g @ rg_first_key g @ rg_last_key g @ concat (map encode_page_descriptor (rg_pages g))
           @ concat (map (\<lambda>w. le_bytes 8 (unat w)) (rg_filter g))"
  by (auto simp: encode_row_group_def group_fixed_def rbind_Inr fail_if_Inr)

lemma length_words: "length (concat (map (\<lambda>w. le_bytes 8 (unat w)) ws)) = 8 * length ws" for ws :: "64 word list"
  by (induction ws) simp_all

lemma length_descriptors:
  "\<forall>p \<in> set ps. page_valid policy p \<Longrightarrow>
     length (concat (map encode_page_descriptor ps)) = PAGE_DESCRIPTOR_BYTES * length ps"
  by (induction ps) (simp_all add: length_encode_page_descriptor page_valid_def)

lemma parse_row_group_encoded:
  assumes enc: "encode_row_group g = Inr e" and index: "index = pre @ e @ post" "length index \<le> u64_max"
    and ok: "group_indexable policy g" and cursor: "ix_cursor st = length pre"
    and start: "ix_expected_row_start st = rg_row_start g"
    and prior: "case ix_prior_last_key st of None \<Rightarrow> True | Some k \<Rightarrow> k < rg_first_key g"
    and lay: "layout out (ix_prior_page_end st) (rg_pages g) e'" "e' \<le> index_offset" "index_offset \<le> u64_max"
  shows "parse_row_group index policy index_offset st = Inr \<lparr>ix_cursor = length (pre @ e),
       ix_row_groups = ix_row_groups st @ [g], ix_expected_row_start = rg_row_start g + rg_row_count g,
       ix_prior_last_key = Some (rg_last_key g), ix_prior_page_end = e'\<rparr>"
proof -
  let ?fx = "group_fixed g" and ?fk = "rg_first_key g" and ?lk = "rg_last_key g"
    and ?ds = "concat (map encode_page_descriptor (rg_pages g))"
    and ?ws = "concat (map (\<lambda>w. le_bytes 8 (unat w)) (rg_filter g))"
  have u32: "length (rg_filter g) \<le> u32_max" and e: "e = ?fx @ ?fk @ ?lk @ ?ds @ ?ws"
    using enc by (simp_all add: encode_row_group_Inr)
  note fx = group_fixed_fields [OF ok u32]
  have g: "0 < rg_row_count g" "rg_row_start g + rg_row_count g \<le> u64_max" "0 < rg_unique_key_count g"
     "rg_unique_key_count g \<le> rg_row_count g" "filter_word_count (rg_unique_key_count g) = Inr (length (rg_filter g))"
     "?fk \<noteq> []" "length ?fk \<le> SEGMENT_MAX_KEY_BYTES" "?lk \<noteq> []" "length ?lk \<le> SEGMENT_MAX_KEY_BYTES" "?fk \<le> ?lk"
     "map pg_kind (rg_pages g) = page_kinds_ordered" "validate_page_shapes (rg_pages g) (rg_row_count g) = Inr ()"
     "\<forall>p \<in> set (rg_pages g). page_in_range p \<and> page_valid policy p
          \<and> pg_row_start p = rg_row_start g \<and> pg_row_count p = rg_row_count g"
    using ok by (auto simp: group_indexable_def)
  have lenw: "length ?ws = length (rg_filter g) * 8" by (simp add: length_words)
  have lend: "length ?ds = PAGE_DESCRIPTOR_BYTES * length (rg_pages g)" using g(13) by (intro length_descriptors) blast
  have s1: "seg_slice index (length pre) ROW_GROUP_HEADER_BYTES = Inr ?fx"
    using index fx(9) seg_slice_middle [of pre "length pre" ?fx ROW_GROUP_HEADER_BYTES "?fk @ ?lk @ ?ds @ ?ws @ post"]
    by (simp add: e)
  have s2: "seg_slice index (length pre + ROW_GROUP_HEADER_BYTES) (length ?fk) = Inr ?fk"
    using index fx(9) seg_slice_middle [of "pre @ ?fx" _ ?fk _ "?lk @ ?ds @ ?ws @ post"] by (simp add: e)
  have s3: "seg_slice index (length pre + ROW_GROUP_HEADER_BYTES + length ?fk) (length ?lk) = Inr ?lk"
    using index fx(9) seg_slice_middle [of "pre @ ?fx @ ?fk" _ ?lk _ "?ds @ ?ws @ post"] by (simp add: e add.assoc)
  have s4: "try_fold (parse_page index policy (rg_row_start g) (rg_row_count g) index_offset)
      ([], length pre + ROW_GROUP_HEADER_BYTES + length ?fk + length ?lk, ix_prior_page_end st) page_kinds_ordered
      = Inr (rg_pages g, length (pre @ ?fx @ ?fk @ ?lk @ ?ds), e')"
    using parse_pages_encoded [of index "pre @ ?fx @ ?fk @ ?lk" "rg_pages g" "?ws @ post" out "ix_prior_page_end st" e'
        index_offset policy "rg_row_start g" "rg_row_count g" "[]"] index lay g(11,13) lend fx(9)
    by (simp add: e add.assoc)
  have s5: "seg_slice index (length (pre @ ?fx @ ?fk @ ?lk @ ?ds)) (length (rg_filter g) * 8) = Inr ?ws"
    using index lenw seg_slice_middle [of "pre @ ?fx @ ?fk @ ?lk @ ?ds" _ ?ws _ post] by (simp add: e)
  have mul: "checked_mul (length (rg_filter g)) 8 = Some (length (rg_filter g) * 8)"
    using u32 by (simp add: rrf_consts)
  have add: "checked_add (length (pre @ ?fx @ ?fk @ ?lk @ ?ds)) (length (rg_filter g) * 8) = Some (length (pre @ e))"
    using index lenw by (simp add: e checked_add_def)
  have words: "filter_from_words (rg_unique_key_count g) (map (\<lambda>w. word_of_nat (le_nat w)) (chunks8 ?ws)) = Inr (rg_filter g)"
    by (simp add: decode_filter_words filter_from_words_def g(5) fail_if_def)
  have f1: "\<not> (rg_row_start g \<noteq> ix_expected_row_start st \<or> rg_row_count g = 0 \<or> PAGES_PER_ROW_GROUP \<noteq> PAGES_PER_ROW_GROUP
                     \<or> (\<exists>b \<in> set (take 2 (drop 22 ?fx)). b \<noteq> 0)
                     \<or> rg_unique_key_count g = 0 \<or> rg_unique_key_count g > rg_row_count g)"
    using g start fx(8) by simp
  have f2: "\<not> (length (rg_filter g) \<noteq> length (rg_filter g)
                     \<or> length ?fk = 0 \<or> length ?fk > SEGMENT_MAX_KEY_BYTES
                     \<or> length ?lk = 0 \<or> length ?lk > SEGMENT_MAX_KEY_BYTES)"
    using g by simp
  have f3: "\<not> (?fk > ?lk \<or> (case ix_prior_last_key st of None \<Rightarrow> False | Some prior \<Rightarrow> prior \<ge> ?fk))"
    using g(10) prior by (auto split: option.splits)
  have rows: "checked_add (ix_expected_row_start st) (rg_row_count g) = Some (rg_row_start g + rg_row_count g)"
    using g(2) start by (simp add: checked_add_def)
  show ?thesis
    unfolding parse_row_group_def cursor s1 rbind_simps fx(1-7) fail_if_def if_not_P [OF f1] g(5) if_not_P [OF f2] Let_def
      s2 s3 if_not_P [OF f3] s4 prod.case mul ok_or_def option.case s5 words add g(12) rows
    by simp
qed

fun groups_parse ::
  "segment_compression_policy \<Rightarrow> bytes \<Rightarrow> nat \<Rightarrow> bytes option \<Rightarrow> nat \<Rightarrow> row_group_descriptor list \<Rightarrow> nat \<Rightarrow> bool" where
  "groups_parse policy out row prior e [] e' \<longleftrightarrow> e' = e"
| "groups_parse policy out row prior e (g # gs) e' \<longleftrightarrow> group_indexable policy g \<and> rg_row_start g = row
     \<and> (case prior of None \<Rightarrow> True | Some k \<Rightarrow> k < rg_first_key g)
     \<and> (\<exists>e1. layout out e (rg_pages g) e1
          \<and> groups_parse policy out (row + rg_row_count g) (Some (rg_last_key g)) e1 gs e')"

lemma groups_parse_mono: "groups_parse policy out row prior e gs e' \<Longrightarrow> e \<le> e'"
proof (induction gs arbitrary: row prior e)
  case (Cons g gs)
  then show ?case using layout_mono by fastforce
qed simp

lemma parse_row_groups_encoded:
  assumes "list_all2 (\<lambda>g e. encode_row_group g = Inr e) gs es" and "index = pre @ concat es @ post" "length index \<le> u64_max"
    and "groups_parse policy out (ix_expected_row_start st) (ix_prior_last_key st) (ix_prior_page_end st) gs e'"
    and "ix_cursor st = length pre" and "e' \<le> index_offset" "index_offset \<le> u64_max"
  obtains st' where "parse_row_groups index policy index_offset (length gs) st = Inr st'"
    and "ix_cursor st' = length (pre @ concat es)" and "ix_row_groups st' = ix_row_groups st @ gs"
    and "ix_expected_row_start st' = ix_expected_row_start st + sum_list (map rg_row_count gs)"
  using assms
proof (induction gs es arbitrary: pre st thesis rule: list_all2_induct)
  case Nil
  then show ?case by simp
next
  case (Cons g gs e es)
  from Cons.prems(4) obtain e1 where g: "group_indexable policy g" "rg_row_start g = ix_expected_row_start st"
    "case ix_prior_last_key st of None \<Rightarrow> True | Some k \<Rightarrow> k < rg_first_key g"
    "layout out (ix_prior_page_end st) (rg_pages g) e1"
    "groups_parse policy out (ix_expected_row_start st + rg_row_count g) (Some (rg_last_key g)) e1 gs e'"
    by (elim groups_parse.elims) auto
  let ?st = "\<lparr>ix_cursor = length (pre @ e),
       ix_row_groups = ix_row_groups st @ [g], ix_expected_row_start = rg_row_start g + rg_row_count g,
       ix_prior_last_key = Some (rg_last_key g), ix_prior_page_end = e1\<rparr>"
  have step: "parse_row_group index policy index_offset st = Inr ?st"
    using Cons.prems groups_parse_mono [OF g(5)]
    by (intro parse_row_group_encoded [OF Cons.hyps(1) _ _ g(1) _ g(2) [symmetric] g(3,4), of index pre "concat es @ post"]) auto
  obtain st' where "parse_row_groups index policy index_offset (length gs) ?st = Inr st'"
    "ix_cursor st' = length ((pre @ e) @ concat es)" "ix_row_groups st' = ix_row_groups ?st @ gs"
    "ix_expected_row_start st' = ix_expected_row_start ?st + sum_list (map rg_row_count gs)"
    by (rule Cons.IH [of ?st "pre @ e"]) (use Cons.prems g in auto)
  then show ?case using step g(2) by (intro Cons.prems(1)) auto
qed

end
