(* ===== verification/Segment_Header.thy ===== *)
theory Segment_Header
  imports Segment_Index
begin

text \<open>
  The 256-byte header and the 64-byte footer of a segment: every field is read back at its
  offset, and the footer is the textual digest of everything before it.
\<close>

section \<open>Digests\<close>

lemma length_fixed_digests [simp]:
  "length (decode_fixed_digest SEGMENT_SCHEMA_DIGEST) = 32"
  "length (decode_fixed_digest SEGMENT_KEY_CODEC_DIGEST) = 32"
  "length (decode_fixed_digest SEGMENT_PAGE_FORMAT_DIGEST) = 32"
  by (simp_all add: decode_fixed_digest_def SEGMENT_SCHEMA_DIGEST_def SEGMENT_KEY_CODEC_DIGEST_def
      SEGMENT_PAGE_FORMAT_DIGEST_def)

lemma encode_fixed_digests:
  "encode_digest (decode_fixed_digest SEGMENT_SCHEMA_DIGEST) = SEGMENT_SCHEMA_DIGEST"
  "encode_digest (decode_fixed_digest SEGMENT_KEY_CODEC_DIGEST) = SEGMENT_KEY_CODEC_DIGEST"
  "encode_digest (decode_fixed_digest SEGMENT_PAGE_FORMAT_DIGEST) = SEGMENT_PAGE_FORMAT_DIGEST"
  by code_simp+

lemma length_encode_digest: "length (encode_digest ds) = 2 * length ds"
  by (induction ds) (simp_all add: encode_digest_def)

lemma HEX_ascii: "i < 16 \<Longrightarrow> of_char (HEX ! i) < (128 :: nat)"
proof -
  assume "i < 16"
  moreover have "length HEX = 16" by (simp add: HEX_def)
  ultimately have "HEX ! i \<in> set HEX" by simp
  moreover have "\<forall>c \<in> set HEX. of_char c < (128 :: nat)" by (simp add: HEX_def)
  ultimately show ?thesis by blast
qed

lemma encode_digest_ascii: "c \<in> set (encode_digest ds) \<Longrightarrow> of_char c < (128 :: nat)"
proof -
  assume "c \<in> set (encode_digest ds)"
  then obtain b :: byte where "c = HEX ! (unat b div 16) \<or> c = HEX ! (unat b mod 16)"
    by (auto simp: encode_digest_def)
  moreover have "unat (b :: byte) div 16 < 16" "unat b mod 16 < 16" for b
    using unsigned_less [of b, where 'a = nat] by (simp_all add: less_mult_imp_div_less)
  ultimately show ?thesis using HEX_ascii by blast
qed

section \<open>Header fields\<close>

lemma length_encode_compression_policy [simp]: "length (encode_compression_policy policy) = 12"
  by (cases policy) (simp_all add: encode_compression_policy_def)

lemma length_SEGMENT_MAGIC [simp]: "length SEGMENT_MAGIC = 8" "length INDEX_MAGIC = 8"
  by (simp_all add: SEGMENT_MAGIC_def INDEX_MAGIC_def str_bytes_def)

lemma length_segment_header [simp]: "length (segment_header n lo hi gs off ix budget policy) = SEGMENT_HEADER_BYTES"
  by (simp add: segment_header_def SEGMENT_HEADER_BYTES_def)

lemmas field_defs = read_uint_def seg_slice_def checked_add_def ok_or_def slice_get_def u64_max_def

lemma segment_header_fields:
  fixes n lo hi gs off ix :: nat and budget policy
  assumes "n \<le> u64_max" "lo \<le> u64_max" "hi \<le> u64_max" "gs \<le> u32_max" "off \<le> u64_max" "ix \<le> u64_max"
  defines "h \<equiv> segment_header n lo hi gs off ix budget policy"
  shows "read_uint 8 h 16 = Inr n" "read_uint 8 h 24 = Inr lo" "read_uint 8 h 32 = Inr hi" "read_uint 4 h 40 = Inr gs"
    "read_uint 8 h 48 = Inr off" "read_uint 8 h 56 = Inr ix"
proof -
  have r: "n < 256 ^ 8" "lo < 256 ^ 8" "hi < 256 ^ 8" "gs < 256 ^ 4" "off < 256 ^ 8" "ix < 256 ^ 8"
    using assms(1-6) by (simp_all only: field_bounds)
  show "read_uint 8 h 16 = Inr n" "read_uint 8 h 24 = Inr lo" "read_uint 8 h 32 = Inr hi" "read_uint 4 h 40 = Inr gs"
    "read_uint 8 h 48 = Inr off" "read_uint 8 h 56 = Inr ix"
    using r by (simp_all add: h_def segment_header_def field_defs)
qed

lemma SEGMENT_MAGIC_other: "SEGMENT_MAGIC \<notin> {str_bytes ''RRDSEG01'', str_bytes ''RRDSEG02'', str_bytes ''RRDSEG03'',
    str_bytes ''RRDSEG04'', str_bytes ''RRDSEG05''}"
  by (simp add: SEGMENT_MAGIC_def str_bytes_def)

lemma require_current_format_ok:
  assumes "slice_get bs 0 8 = Some SEGMENT_MAGIC" and "slice_get bs 8 10 = Some (le_bytes 2 SEGMENT_FORMAT_VERSION)"
  shows "require_current_format bs = Inr ()"
proof -
  have "SEGMENT_FORMAT_VERSION < 256 ^ 2" by (simp add: SEGMENT_FORMAT_VERSION_def)
  then show ?thesis using assms SEGMENT_MAGIC_other
    by (simp add: require_current_format_def ok_or_def fail_if_def)
qed

lemma segment_header_prefix:
  assumes "bs = segment_header n lo hi gs off ix budget policy @ rest"
  shows "slice_get bs 0 8 = Some SEGMENT_MAGIC" "slice_get bs 8 10 = Some (le_bytes 2 SEGMENT_FORMAT_VERSION)"
    "slice_get (take 10 bs) 0 8 = Some SEGMENT_MAGIC" "slice_get (take 10 bs) 8 10 = Some (le_bytes 2 SEGMENT_FORMAT_VERSION)"
  by (simp_all add: assms segment_header_def slice_get_def)

lemma check_header_ok: "check_header (segment_header n lo hi gs off ix budget policy) = Inr ()"
proof -
  let ?h = "segment_header n lo hi gs off ix budget policy"
  have "require_current_format ?h = Inr ()"
    using segment_header_prefix [of ?h n lo hi gs off ix budget policy "[]"] by (intro require_current_format_ok) simp_all
  moreover have "SEGMENT_HEADER_BYTES < 256 ^ 2" "PAGES_PER_ROW_GROUP < 256 ^ 2" "PAGE_ALIGNMENT < 256 ^ 2" "(0 :: nat) < 256 ^ 4"
    by (simp_all add: rrf_consts)
  then have "read_uint 2 ?h 10 = Inr SEGMENT_HEADER_BYTES" "read_uint 4 ?h 12 = Inr 0"
    "read_uint 2 ?h 44 = Inr PAGES_PER_ROW_GROUP" "read_uint 2 ?h 46 = Inr PAGE_ALIGNMENT"
    by (simp_all add: segment_header_def field_defs)
  moreover have "drop 188 ?h = replicate 68 0" by (simp add: segment_header_def)
  ultimately show ?thesis by (simp add: check_header_def fail_if_def)
qed

lemma check_digests_ok: "check_digests (segment_header n lo hi gs off ix budget policy) = Inr ()"
  by (simp add: check_digests_def segment_header_def encode_fixed_digests fail_if_def)

lemma decode_row_group_budget_ok:
  assumes "row_group_budget_validate budget = Inr budget'"
  shows "decode_row_group_budget (segment_header n lo hi gs off ix budget policy) = Inr budget"
proof -
  have b: "gb_target_bytes budget \<noteq> 0" "gb_target_bytes budget \<le> MAX_SEGMENT_BYTES" "gb_max_rows budget \<noteq> 0"
    "gb_max_rows budget \<le> u32_max"
    using assms by (auto simp: row_group_budget_validate_def rbind_Inr fail_if_Inr split: if_splits)
  have "gb_target_bytes budget < 256 ^ 8" "gb_max_rows budget < 256 ^ 8" using b(2,4) by (simp_all add: rrf_consts)
  then have "read_uint 8 (segment_header n lo hi gs off ix budget policy) 160 = Inr (gb_target_bytes budget)"
    "read_uint 8 (segment_header n lo hi gs off ix budget policy) 168 = Inr (gb_max_rows budget)"
    by (simp_all add: segment_header_def field_defs)
  with b show ?thesis by (simp add: decode_row_group_budget_def fail_if_def)
qed

lemma decode_compression_policy_ok:
  assumes "compression_policy_validate policy = Inr policy'"
  shows "decode_compression_policy (segment_header n lo hi gs off ix budget policy) = Inr policy"
proof (cases policy)
  case PolicyNone
  have z: "(0 :: nat) < 256 ^ 2" "(0 :: nat) < 256 ^ 8" by simp_all
  then have "read_uint 2 (segment_header n lo hi gs off ix budget policy) 178 = Inr 0"
    "read_uint 8 (segment_header n lo hi gs off ix budget policy) 180 = Inr 0"
    "segment_header n lo hi gs off ix budget policy ! 176 = 0" "segment_header n lo hi gs off ix budget policy ! 177 = 0"
    by (simp_all add: segment_header_def field_defs encode_compression_policy_def PolicyNone nth_append)
  then show ?thesis by (simp add: decode_compression_policy_def PolicyNone)
next
  case (AdaptiveLz4 savings limit)
  have v: "compression_policy_validate policy = Inr policy" and r: "savings < 256 ^ 2" "limit < 256 ^ 8"
    using assms by (auto simp: compression_policy_validate_def AdaptiveLz4 rrf_consts rbind_Inr fail_if_Inr split: if_splits)
  have "read_uint 2 (segment_header n lo hi gs off ix budget policy) 178 = Inr savings"
    "read_uint 8 (segment_header n lo hi gs off ix budget policy) 180 = Inr limit"
    "segment_header n lo hi gs off ix budget policy ! 176 = 1" "segment_header n lo hi gs off ix budget policy ! 177 = 1"
    using r by (simp_all add: segment_header_def field_defs encode_compression_policy_def AdaptiveLz4 nth_append)
  then show ?thesis using v by (simp add: decode_compression_policy_def AdaptiveLz4)
qed

lemma check_index_header_ok:
  assumes "gs \<le> u32_max"
  shows "check_index_header (index_header gs @ rest) gs = Inr ()" and "length (index_header gs) = INDEX_HEADER_BYTES"
proof -
  have r: "gs < 256 ^ 4" "PAGES_PER_ROW_GROUP < 256 ^ 2" "ROW_GROUP_HEADER_BYTES < 256 ^ 2" "PAGE_DESCRIPTOR_BYTES < 256 ^ 2"
    using assms by (simp_all add: rrf_consts)
  have "read_uint 4 (index_header gs @ rest) 8 = Inr gs" "read_uint 2 (index_header gs @ rest) 12 = Inr PAGES_PER_ROW_GROUP"
    "read_uint 2 (index_header gs @ rest) 14 = Inr ROW_GROUP_HEADER_BYTES"
    "read_uint 2 (index_header gs @ rest) 16 = Inr PAGE_DESCRIPTOR_BYTES"
    using r by (simp_all add: index_header_def field_defs)
  moreover have "slice_get (index_header gs @ rest) 0 8 = Some INDEX_MAGIC"
    "take 11 (drop 21 (index_header gs @ rest)) = replicate 11 0"
    by (simp_all add: index_header_def slice_get_def)
  moreover have "unat ((index_header gs @ rest) ! 18) = FILTER_FORMAT_VERSION"
    "unat ((index_header gs @ rest) ! 19) = FILTER_BITS_PER_KEY" "unat ((index_header gs @ rest) ! 20) = FILTER_HASH_FUNCTIONS"
    by (simp_all add: index_header_def nth_append rrf_consts)
  ultimately show "check_index_header (index_header gs @ rest) gs = Inr ()"
    by (simp add: check_index_header_def fail_if_def)
  show "length (index_header gs) = INDEX_HEADER_BYTES" by (simp add: index_header_def INDEX_HEADER_BYTES_def)
qed

section \<open>The file around the content\<close>

lemma verify_file_digest_ok:
  assumes "codec_ok cx" and "img = content @ str_bytes (sha256_hex cx content)"
  shows "verify_file_digest cx img = Inr (sha256_hex cx content)"
proof -
  have len: "length (str_bytes (sha256_hex cx content)) = FOOTER_BYTES"
    using assms(1) by (simp add: str_bytes_def sha256_hex_def length_encode_digest codec_ok_def FOOTER_BYTES_def)
  have ascii: "utf8_valid (str_bytes (sha256_hex cx content))"
  proof (rule utf8_valid_ascii, rule ballI)
    fix b assume "b \<in> set (str_bytes (sha256_hex cx content))"
    then obtain c where "b = word_of_nat (of_char c)" "c \<in> set (encode_digest (sha256 cx content))"
      by (auto simp: str_bytes_def sha256_hex_def)
    then show "unat b \<le> 0x7f" using encode_digest_ascii [of c "sha256 cx content"] by simp
  qed
  show ?thesis using len ascii
    by (simp add: verify_file_digest_def assms(2) checked_sub_def ok_or_def fail_if_def)
qed

lemma validate_physical_file_ok:
  assumes "img = segment_header n lo hi gs off ix budget policy @ rest" and "length img \<le> MAX_SEGMENT_BYTES"
    and "SEGMENT_HEADER_BYTES + INDEX_HEADER_BYTES + FOOTER_BYTES \<le> length img"
  shows "validate_physical_file img = Inr ()"
proof -
  have "10 \<le> length img" using assms(3) by (simp add: rrf_consts)
  then have "slice_get img 0 10 = Some (take 10 img)" by (simp add: slice_get_def)
  moreover have "require_current_format (take 10 img) = Inr ()"
    using segment_header_prefix [OF assms(1)] by (intro require_current_format_ok)
  ultimately show ?thesis using assms(2,3)
    by (simp add: validate_physical_file_def ok_or_def fail_if_def)
qed

end
