(* ===== verification/Segment_Roundtrip.thy ===== *)
theory Segment_Roundtrip
  imports Segment_Header
begin

text \<open>
  The round trip of a segment: whatever \<open>encode_versions\<close> returns is accepted by
  \<open>segment_open\<close>, and the opened segment holds exactly the encoded versions.
\<close>

section \<open>Written groups are indexable\<close>

lemma foldl_min_le: "foldl min a xs \<le> a" for a :: nat
proof (induction xs arbitrary: a)
  case (Cons x xs)
  have "foldl min (min a x) xs \<le> min a x" by (rule Cons.IH)
  then show ?case by simp
qed simp

lemma foldl_max_le: "a \<le> m \<Longrightarrow> \<forall>x \<in> set xs. x \<le> m \<Longrightarrow> foldl max a xs \<le> m" for a :: nat
  by (induction xs arbitrary: a) auto

lemma null_rows_le: "null_rows rs \<le> length rs" "null_rows rs \<le> u32_max"
proof (induction rs rule: rev_induct)
  case (snoc e rs)
  { case 1 show ?case using snoc by (auto simp: null_rows_def) }
  { case 2 show ?case using snoc by (auto simp: null_rows_def) }
qed (simp_all add: null_rows_def)

lemma length_filter_of [simp]: "length (filter_of words ks) = length words"
proof -
  have "length (foldl filter_insert words xs) = length words" for xs
    by (induction xs arbitrary: words) simp_all
  then show ?thesis by (simp add: filter_of_def)
qed

lemma builder_pages_in_range:
  assumes "builder_holds b rs" and "rs \<noteq> []" and "length rs \<le> u32_max"
    and "\<forall>e \<in> set rs. vv_sequence (snd e) \<le> u64_max"
    and "(kind, (nulls, lo, hi), bs) \<in> set (builder_pages b)"
  shows "nulls \<le> u32_max \<and> nulls \<le> length rs \<and> lo \<le> u64_max \<and> hi \<le> u64_max \<and> length bs \<le> u64_max"
proof -
  have b: "length (bd_key_offsets b) = Suc (length rs)" "length (bd_keys b) \<le> i64_max" "bd_sequences b = row_sequences rs"
    "length (bd_value_validity b) = (length rs + 7) div 8" "length (bd_value_offsets b) = Suc (length rs)"
    "length (bd_values b) \<le> i64_max" "bd_null_count b = null_rows rs"
     "bd_minimum_key_bytes b = foldl min u64_max (map length (row_keys rs))"
     "bd_maximum_key_bytes b = foldl max 0 (map length (row_keys rs))"
     "bd_minimum_value_bytes b = foldl min u64_max (map length (row_values rs))"
     "bd_maximum_value_bytes b = foldl max 0 (map length (row_values rs))"
    using assms(1) by (auto simp: builder_holds_def row_columns validity_ok_def)
  have fits: "\<forall>k \<in> set (map length (row_keys rs)). k \<le> u64_max" "\<forall>k \<in> set (map length (row_values rs)). k \<le> u64_max"
    using assms(1) by (auto simp: builder_holds_def list_all_iff row_fits_def row_columns rrf_consts)
  have "bd_maximum_key_bytes b \<le> u64_max" "bd_maximum_value_bytes b \<le> u64_max"
    "bd_minimum_key_bytes b \<le> u64_max" "bd_minimum_value_bytes b \<le> u64_max"
    unfolding b using fits by (auto intro!: foldl_max_le foldl_min_le)
  moreover have "Min (set (bd_sequences b)) \<le> u64_max" "Max (set (bd_sequences b)) \<le> u64_max"
  proof -
    have "set (bd_sequences b) \<noteq> {}" using assms(2) by (simp add: b(3) row_columns)
    then have "Min (set (bd_sequences b)) \<in> set (bd_sequences b)" "Max (set (bd_sequences b)) \<in> set (bd_sequences b)" by simp_all
    moreover have "\<forall>s \<in> set (bd_sequences b). s \<le> u64_max" using assms(4) by (auto simp: b(3) row_columns)
    ultimately show "Min (set (bd_sequences b)) \<le> u64_max" "Max (set (bd_sequences b)) \<le> u64_max" by blast+
  qed
  moreover have "length (bd_sequences b) = length rs" by (simp add: b(3) row_columns)
  ultimately show ?thesis
    using assms(3,5) null_rows_le [of rs] b(1,2,4-7)
    by (auto simp: builder_pages_def rrf_consts)
qed

lemma page_stored_bounds:
  "page_stored cx out p bs \<Longrightarrow> pg_offset p + pg_physical_bytes p \<le> length out"
  by (auto simp: page_stored_def slice_get_Some)

lemma pages_in_range:
  assumes "group_written cx policy out g b" and "builder_holds b rs" and "rs \<noteq> []" and "length rs \<le> u32_max"
    and "\<forall>e \<in> set rs. vv_sequence (snd e) \<le> u64_max" and "length out \<le> u64_max"
    and "bd_row_start b \<le> u64_max"
  shows "\<forall>p \<in> set (rg_pages g). page_in_range p \<and> page_valid policy p
          \<and> pg_row_start p = bd_row_start b \<and> pg_row_count p = length rs \<and> pg_null_count p \<le> pg_row_count p"
proof
  fix p assume "p \<in> set (rg_pages g)"
  moreover have written: "list_all2 (page_written cx policy out (bd_row_start b) (builder_rows b)) (rg_pages g) (builder_pages b)"
    using assms(1) by (simp add: group_written_def)
  ultimately obtain e where e: "e \<in> set (builder_pages b)" "page_written cx policy out (bd_row_start b) (builder_rows b) p e"
    by (metis in_set_conv_nth list_all2_conv_all_nth)
  obtain kind nulls lo hi bs where tup: "e = (kind, (nulls, lo, hi), bs)" by (cases e) auto
  have rows: "builder_rows b = length rs" using assms(2) by (simp add: builder_holds_def builder_rows_def row_columns)
  have range: "nulls \<le> u32_max \<and> nulls \<le> length rs \<and> lo \<le> u64_max \<and> hi \<le> u64_max \<and> length bs \<le> u64_max"
    using builder_pages_in_range [OF assms(2-5)] e(1) tup by blast
  have p: "page_stored cx out p bs" "page_valid policy p" "pg_null_count p = nulls" "pg_statistic_min p = lo"
    "pg_statistic_max p = hi" "pg_logical_bytes p = length bs" "pg_row_start p = bd_row_start b" "pg_row_count p = length rs"
    using e(2) by (simp_all add: page_written_def tup rows)
  show "page_in_range p \<and> page_valid policy p \<and> pg_row_start p = bd_row_start b \<and> pg_row_count p = length rs
      \<and> pg_null_count p \<le> pg_row_count p"
    using page_stored_bounds [OF p(1)] assms(4,6,7) range p(2-8) by (auto simp: page_in_range_def)
qed

lemma page_shapes_written:
  assumes "group_matches g b" and "builder_holds b rs" and "length rs \<le> u32_max"
    and "\<forall>p \<in> set (rg_pages g). pg_null_count p \<le> pg_row_count p"
  shows "validate_page_shapes (rg_pages g) (length rs) = Inr ()" and "map pg_kind (rg_pages g) = page_kinds_ordered"
proof -
  have lens: "length (bd_key_offsets b) = Suc (length rs)" "length (bd_sequences b) = length rs"
    "length (bd_value_validity b) = (length rs + 7) div 8" "length (bd_value_offsets b) = Suc (length rs)"
    using assms(2) by (auto simp: builder_holds_def row_columns validity_ok_def)
  have pages: "map (\<lambda>p. (pg_kind p, (pg_null_count p, pg_statistic_min p, pg_statistic_max p), pg_logical_bytes p,
            pg_row_start p, pg_row_count p)) (rg_pages g)
       = map (\<lambda>(kind, stats, bs). (kind, stats, length bs, bd_row_start b, builder_rows b)) (builder_pages b)"
    using assms(1) by (simp add: group_matches_def)
  then show "map pg_kind (rg_pages g) = page_kinds_ordered"
    by (auto simp: builder_pages_def map_eq_Cons_conv page_kinds_ordered_def)
  have mul: "Option.bind (checked_add (length rs) 1) (\<lambda>n. checked_mul n 8) = Some ((length rs + 1) * 8)"
    "saturating_mul (length rs) 8 = length rs * 8"
    using assms(3) by (simp_all add: checked_add_def checked_mul_def rrf_consts saturating_mul_def)
  from pages obtain p0 p1 p2 p3 p4 p5 where ps: "rg_pages g = [p0, p1, p2, p3, p4, p5]"
    by (auto simp: builder_pages_def map_eq_Cons_conv)
  have "pg_logical_bytes p0 = 8 * Suc (length rs)" "pg_logical_bytes p2 = 8 * length rs"
    "pg_logical_bytes p3 = (length rs + 7) div 8" "pg_logical_bytes p4 = 8 * Suc (length rs)"
    "pg_null_count p0 = 0" "pg_null_count p1 = 0" "pg_null_count p2 = 0"
    "pg_null_count p3 = bd_null_count b" "pg_null_count p4 = bd_null_count b" "pg_null_count p5 = bd_null_count b"
    using pages by (auto simp: builder_pages_def ps lens)
  then show "validate_page_shapes (rg_pages g) (length rs) = Inr ()"
    using assms(4) unfolding validate_page_shapes_def mul by (simp add: ok_or_def fail_if_def ps)
qed

lemma key_runs_pos: "ks \<noteq> [] \<Longrightarrow> 0 < length (key_runs ks)"
  using last_key_runs [of ks] by auto

lemma first_le_last:
  assumes "sorted_wrt record_less rs" and "rs \<noteq> []"
  shows "fst (hd rs) \<le> fst (last rs)"
proof (cases "length rs = 1")
  case True
  then show ?thesis by (cases rs) auto
next
  case False
  then obtain x y ys where "rs = x # y # ys" using assms(2) by (cases rs; cases "tl rs") auto
  then have "record_less (hd rs) (last rs)" using assms(1) by (auto split: if_splits)
  then show ?thesis by (auto simp: record_less_def)
qed

lemma group_written_indexable:
  assumes w: "group_written cx policy out g b" and holds: "builder_holds b rs" and rows: "rs \<noteq> []" "length rs \<le> u32_max"
    and seqs: "\<forall>e \<in> set rs. vv_sequence (snd e) \<le> u64_max" and out: "length out \<le> u64_max"
    and total: "bd_row_start b + length rs \<le> u64_max" and sorted: "sorted_wrt record_less rs"
  shows "group_indexable policy g" and "rg_row_start g = bd_row_start b" "rg_row_count g = length rs"
    and "rg_first_key g = fst (hd rs)" "rg_last_key g = fst (last rs)"
proof -
  have matches: "group_matches g b" using w by (simp add: group_written_def)
  have brows: "builder_rows b = length rs" using holds by (simp add: builder_holds_def builder_rows_def row_columns)
  show g: "rg_row_start g = bd_row_start b" "rg_row_count g = length rs"
    "rg_first_key g = fst (hd rs)" "rg_last_key g = fst (last rs)"
    using matches holds rows(1) by (auto simp: group_matches_def brows builder_holds_def)
  have unique: "rg_unique_key_count g = length (key_runs (row_keys rs))"
    using matches holds by (simp add: group_matches_def builder_holds_def)
  obtain empty where "filter_new (length (key_runs (row_keys rs))) = Inr empty" "rg_filter g = filter_of empty (row_keys rs)"
    using matches holds by (auto simp: group_matches_def elim: builder_filter_holds)
  then have words: "filter_word_count (rg_unique_key_count g) = Inr (length (rg_filter g))"
    by (auto simp: filter_new_def rbind_Inr unique)
  have pages: "\<forall>p \<in> set (rg_pages g). page_in_range p \<and> page_valid policy p
          \<and> pg_row_start p = bd_row_start b \<and> pg_row_count p = length rs \<and> pg_null_count p \<le> pg_row_count p"
    using total by (intro pages_in_range [OF w holds rows seqs out]) simp
  have shapes: "validate_page_shapes (rg_pages g) (length rs) = Inr ()" "map pg_kind (rg_pages g) = page_kinds_ordered"
    using page_shapes_written [OF matches holds rows(2)] pages by blast+
  have ends: "row_fits (hd rs)" "row_fits (last rs)" using holds rows(1) by (auto simp: builder_holds_def list_all_iff)
  have runs: "0 < length (key_runs (row_keys rs))" "length (key_runs (row_keys rs)) \<le> length rs"
    using key_runs_pos [of "row_keys rs"] length_key_runs [of "row_keys rs"] rows(1) by (simp_all add: row_keys_def)
  show "group_indexable policy g"
    unfolding group_indexable_def g
    using rows total words pages shapes ends runs first_le_last [OF sorted rows(1)]
    by (simp add: unique row_fits_def)
qed

section \<open>Padding\<close>

lemma validate_zero_range_ok:
  assumes "slice_get img e off = Some (replicate (off - e) 0)" and "e \<le> off" and "off - e < PAGE_ALIGNMENT"
  shows "validate_zero_range img e off = Inr ()"
  using assms
  by (simp add: validate_zero_range_def checked_sub_def ok_or_def fail_if_def read_exact_at_def)

lemma padding_steps_ok:
  assumes "layout out e ps e'" and "length out \<le> u64_max" and "SEGMENT_HEADER_BYTES \<le> e"
    and "\<forall>a b. SEGMENT_HEADER_BYTES \<le> a \<longrightarrow> b \<le> length out \<longrightarrow> slice_get img a b = slice_get out a b"
  shows "try_fold (padding_step img) e ps = Inr e'"
  using assms
proof (induction ps arbitrary: e)
  case (Cons p ps)
  from Cons.prems(1) have lay: "e \<le> pg_offset p" "pg_offset p - e < PAGE_ALIGNMENT"
     "slice_get out e (pg_offset p) = Some (replicate (pg_offset p - e) 0)"
     "pg_offset p + pg_physical_bytes p \<le> length out"
     "layout out (pg_offset p + pg_physical_bytes p) ps e'" by auto
  have "slice_get img e (pg_offset p) = Some (replicate (pg_offset p - e) 0)"
    using Cons.prems(3,4) lay by simp
  then have "padding_step img e p = Inr (pg_offset p + pg_physical_bytes p)"
    using lay Cons.prems(2) by (simp add: padding_step_def validate_zero_range_ok checked_add_def ok_or_def)
  moreover have "try_fold (padding_step img) (pg_offset p + pg_physical_bytes p) ps = Inr e'"
    using Cons.prems lay by (intro Cons.IH) auto
  ultimately show ?case by simp
qed simp

section \<open>The encoder loop\<close>

type_synonym encoded_item = "row_group_descriptor \<times> row_group_builder \<times> record_row list"

definition item_rows :: "encoded_item list \<Rightarrow> record_row list list" where
  "item_rows items = map (\<lambda>(g, b, rs). rs) items"

fun row_starts :: "nat \<Rightarrow> encoded_item list \<Rightarrow> bool" where
  "row_starts row [] \<longleftrightarrow> True"
| "row_starts row ((g, b, rs) # items) \<longleftrightarrow> bd_row_start b = row \<and> row_starts (row + length rs) items"

definition keys_before :: "record_row list \<Rightarrow> record_row list \<Rightarrow> bool" where
  "keys_before xs ys \<longleftrightarrow> (\<forall>x \<in> set xs. \<forall>y \<in> set ys. fst x < fst y)"

definition item_ok :: "codec \<Rightarrow> segment_compression_policy \<Rightarrow> bytes \<Rightarrow> encoded_item \<Rightarrow> bool" where
  "item_ok cx policy out = (\<lambda>(g, b, rs). group_written cx policy out g b \<and> builder_holds b rs \<and> rs \<noteq> [])"

definition enc_items ::
  "codec \<Rightarrow> segment_compression_policy \<Rightarrow> bytes \<Rightarrow> row_group_descriptor list \<Rightarrow> encoded_item list \<Rightarrow> bool" where
  "enc_items cx policy out gs items \<longleftrightarrow> gs = map fst items \<and> list_all (item_ok cx policy out) items
     \<and> row_starts 0 items \<and> SEGMENT_HEADER_BYTES \<le> length out
     \<and> layout out SEGMENT_HEADER_BYTES (concat (map rg_pages gs)) (length out)
     \<and> sorted_wrt keys_before (item_rows items)"

lemma row_starts_append:
  "row_starts row (xs @ ys) \<longleftrightarrow> row_starts row xs \<and> row_starts (row + length (concat (item_rows xs))) ys"
  by (induction row xs rule: row_starts.induct) (auto simp: item_rows_def add.assoc)

lemma item_ok_extend: "item_ok cx policy out i \<Longrightarrow> item_ok cx policy (out @ ys) i"
  by (auto simp: item_ok_def group_written_extend)

lemma append_group_items:
  assumes cx: "codec_ok cx" and items: "enc_items cx policy out gs items"
    and app: "append_row_group cx policy b out = Inr (out', g)"
    and b: "builder_holds b rs" "rs \<noteq> []" "bd_row_start b = length (concat (item_rows items))"
    and before: "\<forall>r \<in> set (item_rows items). keys_before r rs"
  shows "enc_items cx policy out' (gs @ [g]) (items @ [(g, b, rs)])"
proof -
  have i: "gs = map fst items" "list_all (item_ok cx policy out) items" "row_starts 0 items"
    "SEGMENT_HEADER_BYTES \<le> length out" "layout out SEGMENT_HEADER_BYTES (concat (map rg_pages gs)) (length out)"
    "sorted_wrt keys_before (item_rows items)" using items unfolding enc_items_def by blast+
  obtain ys where ys: "out' = out @ ys" using append_row_group_layout(1) [OF cx app i(4)] by blast
  note lay = append_row_group_layout(2,3) [OF cx app i(4)]
  have "list_all (item_ok cx policy out') items"
    using i(2) item_ok_extend [of cx policy out] by (auto simp: list_all_iff ys)
  moreover have "layout out' SEGMENT_HEADER_BYTES (concat (map rg_pages gs) @ rg_pages g) (length out')"
    using layout_extend [OF i(5)] lay(1) unfolding layout_append ys by blast
  moreover have "item_ok cx policy out' (g, b, rs)" using lay(2) b by (simp add: item_ok_def)
  moreover have "row_starts 0 (items @ [(g, b, rs)])" using i(3) b(3) by (simp add: row_starts_append)
  moreover have "sorted_wrt keys_before (item_rows (items @ [(g, b, rs)]))"
    using i(6) before by (simp add: item_rows_def sorted_wrt_append)
  moreover have "gs @ [g] = map fst (items @ [(g, b, rs)])" by (simp add: i(1))
  ultimately show ?thesis using i(2,4) unfolding enc_items_def by (simp add: ys)
qed

definition enc_inv :: "codec \<Rightarrow> segment_compression_policy \<Rightarrow> encoder_state \<Rightarrow> record_row list \<Rightarrow> bool" where
  "enc_inv cx policy = (\<lambda>(out, gs, cur) recs. \<exists>items rs. enc_items cx policy out gs items
     \<and> builder_holds cur rs \<and> bd_row_start cur = length (concat (item_rows items))
     \<and> (\<forall>r \<in> set (item_rows items). keys_before r rs) \<and> recs = concat (item_rows items) @ rs)"

lemma builder_rows_holds: "builder_holds b rs \<Longrightarrow> builder_rows b = length rs"
  by (simp add: builder_holds_def builder_rows_def row_columns)

lemma builder_new_row_start [simp]: "bd_row_start (builder_new s) = s"
  by (simp add: builder_new_def)

lemma flush_row_group_inv:
  assumes "codec_ok cx" and "enc_inv cx policy st recs" and "flush_row_group cx policy st = Inr st'"
    and "builder_rows (snd (snd st)) > 0"
  shows "enc_inv cx policy st' recs"
proof -
  obtain out gs cur where st: "st = (out, gs, cur)" by (cases st) auto
  from assms(2) obtain items rs where inv: "enc_items cx policy out gs items" "builder_holds cur rs"
    "bd_row_start cur = length (concat (item_rows items))" "\<forall>r \<in> set (item_rows items). keys_before r rs"
    "recs = concat (item_rows items) @ rs" by (auto simp: enc_inv_def st)
  from assms(3) obtain out' g where app: "append_row_group cx policy cur out = Inr (out', g)"
    and st': "st' = (out', gs @ [g], builder_reset cur (bd_row_start cur + builder_rows cur))"
    by (auto simp: flush_row_group_def st rbind_Inr ok_or_Inr)
  have rows: "builder_rows cur = length rs" by (rule builder_rows_holds [OF inv(2)])
  then have ne: "rs \<noteq> []" using assms(4) by (auto simp: st)
  let ?items = "items @ [(g, cur, rs)]"
  have "enc_items cx policy out' (gs @ [g]) ?items"
    by (rule append_group_items [OF assms(1) inv(1) app inv(2) ne inv(3,4)])
  moreover have "bd_row_start (builder_new (bd_row_start cur + length rs)) = length (concat (item_rows ?items))"
    by (simp add: inv(3) item_rows_def)
  ultimately show ?thesis
    using inv(5) unfolding enc_inv_def st' prod.case builder_reset_new rows
    by (intro exI [of _ ?items] exI [of _ "[]"]) (simp add: builder_new_holds keys_before_def item_rows_def)
qed

lemma encode_key_inv:
  assumes "codec_ok cx" and "enc_inv cx policy st recs" and "encode_key cx budget policy st (key, vs) = Inr st'"
    and "\<forall>e \<in> set recs. fst e < key"
  shows "enc_inv cx policy st' (recs @ map (Pair key) vs)"
proof -
  obtain out gs cur where st: "st = (out, gs, cur)" by (cases st) auto
  from assms(3) obtain st1 where flush: "enc_inv cx policy st1 recs"
    and app: "rbind (try_fold (\<lambda>b v. builder_append b key v) (snd (snd st1)) vs)
        (\<lambda>cur'. Inr (fst st1, fst (snd st1), cur')) = Inr st'"
    using flush_row_group_inv [OF assms(1,2)] assms(2)
    by (auto simp: encode_key_def st rbind_Inr split: if_splits)
  obtain out1 gs1 cur1 where st1: "st1 = (out1, gs1, cur1)" by (cases st1) auto
  from app obtain cur' where fold: "try_fold (\<lambda>b v. builder_append b key v) cur1 vs = Inr cur'"
    and st': "st' = (out1, gs1, cur')" by (auto simp: st1 rbind_Inr)
  from flush obtain items rs where inv: "enc_items cx policy out1 gs1 items" "builder_holds cur1 rs"
    "bd_row_start cur1 = length (concat (item_rows items))" "\<forall>r \<in> set (item_rows items). keys_before r rs"
    "recs = concat (item_rows items) @ rs" by (auto simp: enc_inv_def st1)
  note cur' = builder_appends_hold [OF fold inv(2)]
  have "\<forall>r \<in> set (item_rows items). keys_before r (rs @ map (Pair key) vs)"
  proof
    fix r assume r: "r \<in> set (item_rows items)"
    then have "set r \<subseteq> set recs" by (auto simp: inv(5))
    then have "\<forall>x \<in> set r. fst x < key" using assms(4) by blast
    then show "keys_before r (rs @ map (Pair key) vs)" using r inv(4) by (auto simp: keys_before_def)
  qed
  then show ?thesis using inv cur' unfolding st' enc_inv_def prod.case
    by (intro exI [of _ items] exI [of _ "rs @ map (Pair key) vs"]) simp
qed

definition flat_versions :: "(bytes \<times> versioned_value list) list \<Rightarrow> record_row list" where
  "flat_versions versions = concat (map (\<lambda>(k, vs). map (Pair k) vs) versions)"

lemma encode_keys_inv:
  assumes "codec_ok cx" and "try_fold (encode_key cx budget policy) st versions = Inr st'"
    and "enc_inv cx policy st recs" and "\<forall>e \<in> set recs. \<forall>k \<in> set (map fst versions). fst e < k"
    and "sorted_wrt (<) (map fst versions)"
  shows "enc_inv cx policy st' (recs @ flat_versions versions)"
  using assms(2-5)
proof (induction versions arbitrary: st recs)
  case (Cons e versions)
  obtain k vs where e: "e = (k, vs)" by (cases e)
  from Cons.prems(1) obtain st1 where st1: "encode_key cx budget policy st (k, vs) = Inr st1"
    and rest: "try_fold (encode_key cx budget policy) st1 versions = Inr st'" by (auto simp: e rbind_Inr)
  have "enc_inv cx policy st1 (recs @ map (Pair k) vs)"
    using Cons.prems(3) by (intro encode_key_inv [OF assms(1) Cons.prems(2) st1]) (simp add: e)
  moreover have "\<forall>x \<in> set (recs @ map (Pair k) vs). \<forall>k \<in> set (map fst versions). fst x < k"
    using Cons.prems(3,4) by (auto simp: e)
  ultimately have "enc_inv cx policy st' ((recs @ map (Pair k) vs) @ flat_versions versions)"
    using Cons.prems(4) by (intro Cons.IH [OF rest]) simp_all
  then show ?case by (simp add: e flat_versions_def)
qed (simp add: flat_versions_def)

lemma enc_inv_start: "enc_inv cx policy (replicate SEGMENT_HEADER_BYTES 0, [], builder_new 0) []"
  unfolding enc_inv_def prod.case
  by (intro exI [of _ "[]"]) (simp add: enc_items_def builder_new_holds item_rows_def keys_before_def)

end
