(* ===== verification/Segment_Reopen.thy ===== *)
theory Segment_Reopen
  imports Segment_Roundtrip
begin

text \<open>
  Opening what was encoded. The pieces of an encoded segment are named, the parser is run over
  them, and the audit of the pages is shown to accept them.
\<close>

section \<open>What an encoded segment consists of\<close>

lemma count_version_Inr:
  "count_version (n, lo, hi) v = Inr t \<longleftrightarrow>
     n + 1 \<le> u64_max \<and> t = (n + 1, min lo (vv_sequence v), max hi (vv_sequence v))"
  by (auto simp: count_version_def checked_add_def ok_or_def)

lemma count_versions_Inr:
  assumes "try_fold count_version (n, lo, hi) vs = Inr (n', lo', hi')"
  shows "n' = n + length vs \<and> lo' = foldl min lo (map vv_sequence vs) \<and> hi' = foldl max hi (map vv_sequence vs)
    \<and> (n \<le> u64_max \<longrightarrow> n' \<le> u64_max)"
  using assms
proof (induction vs arbitrary: n lo hi)
  case (Cons v vs)
  from Cons.prems have le: "n + 1 \<le> u64_max"
    and rest: "try_fold count_version (n + 1, min lo (vv_sequence v), max hi (vv_sequence v)) vs = Inr (n', lo', hi')"
    unfolding try_fold.simps rbind_Inr count_version_Inr by blast+
  from Cons.IH [OF rest] le show ?case by simp
qed simp

lemma encode_index_Inr:
  assumes "try_fold (\<lambda>index g. rbind (encode_row_group g) (\<lambda>e. Inr (index @ e))) index gs = Inr index'"
  obtains es where "list_all2 (\<lambda>g e. encode_row_group g = Inr e) gs es" and "index' = index @ concat es"
proof -
  have "\<exists>es. list_all2 (\<lambda>g e. encode_row_group g = Inr e) gs es \<and> index' = index @ concat es"
    using assms
  proof (induction gs arbitrary: index)
    case (Cons g gs)
    from Cons.prems obtain e where e: "encode_row_group g = Inr e"
      and rest: "try_fold (\<lambda>index g. rbind (encode_row_group g) (\<lambda>e. Inr (index @ e))) (index @ e) gs = Inr index'"
      by (auto simp: rbind_Inr)
    from Cons.IH [OF rest] obtain es where "list_all2 (\<lambda>g e. encode_row_group g = Inr e) gs es" "index' = (index @ e) @ concat es"
      by blast
    with e show ?case by (intro exI [of _ "e # es"]) simp
  qed simp
  then show ?thesis using that by blast
qed

definition encoded_content ::
  "segment_row_group_budget \<Rightarrow> segment_compression_policy \<Rightarrow> bytes \<Rightarrow> nat \<Rightarrow> bytes \<Rightarrow> record_row list \<Rightarrow> bytes" where
  "encoded_content budget policy out groups index recs =
     segment_header (length recs) (foldl min u64_max (row_sequences recs)) (foldl max 0 (row_sequences recs))
       groups (length (align out)) (length index) budget policy @ drop SEGMENT_HEADER_BYTES (align out) @ index"

definition encoded_as ::
  "codec \<Rightarrow> segment_row_group_budget \<Rightarrow> segment_compression_policy \<Rightarrow> record_row list \<Rightarrow> encoded_segment
     \<Rightarrow> bytes \<Rightarrow> encoded_item list \<Rightarrow> bytes list \<Rightarrow> bool" where
  "encoded_as cx budget policy recs enc out items es \<longleftrightarrow>
     (let gs = map fst items; index = index_header (length gs) @ concat es;
          content = encoded_content budget policy out (length gs) index recs in
      row_group_budget_validate budget = Inr budget \<and> compression_policy_validate policy = Inr policy
      \<and> enc_items cx policy out gs items \<and> concat (item_rows items) = recs \<and> recs \<noteq> [] \<and> length recs \<le> u64_max
      \<and> list_all2 (\<lambda>g e. encode_row_group g = Inr e) gs es
      \<and> length index \<le> MAX_INDEX_BYTES \<and> length (align out) + length index \<le> MAX_SEGMENT_BYTES - FOOTER_BYTES
      \<and> validate_logical_envelope gs (length index) = Inr ()
      \<and> enc = \<lparr>enc_bytes = content @ str_bytes (sha256_hex cx content), enc_checksum = sha256_hex cx content\<rparr>)"

lemma encode_versions_as:
  assumes cx: "codec_ok cx" and enc: "encode_versions cx versions budget policy = Inr enc"
    and keys: "sorted_wrt (<) (map fst versions)"
  obtains out items es where "encoded_as cx budget policy (flat_versions versions) enc out items es"
proof -
  let ?recs = "flat_versions versions"
  have flat: "concat (map snd versions) = map snd ?recs"
    by (induction versions) (auto simp: flat_versions_def comp_def)
  have budget: "row_group_budget_validate budget = Inr b' \<Longrightarrow> b' = budget"
    and policy: "compression_policy_validate policy = Inr p' \<Longrightarrow> p' = policy" for b' p'
    by (auto simp: row_group_budget_validate_def compression_policy_validate_def rbind_Inr
        split: if_splits segment_compression_policy.splits)
  have valid: "row_group_budget_validate budget = Inr budget" "compression_policy_validate policy = Inr policy"
    using enc budget policy unfolding encode_versions_def rbind_Inr by blast+
  from enc obtain n lo hi out0 gs0 cur out gs index u where
    count: "try_fold count_version (0, u64_max, 0) (concat (map snd versions)) = Inr (n, lo, hi)" "n \<noteq> 0"
    and fold: "try_fold (encode_key cx budget policy) (replicate SEGMENT_HEADER_BYTES 0, [], builder_new 0) versions
       = Inr (out0, gs0, cur)"
    and flush: "(if builder_rows cur > 0
            then rbind (append_row_group cx policy cur out0) (\<lambda>(output, group). Inr (output, gs0 @ [group]))
            else Inr (out0, gs0)) = Inr (out, gs)"
    and index: "try_fold (\<lambda>index g. rbind (encode_row_group g) (\<lambda>e. Inr (index @ e))) (index_header (length gs)) gs = Inr index"
    and limits: "\<not> MAX_INDEX_BYTES < length index" "\<not> MAX_SEGMENT_BYTES - FOOTER_BYTES < length (align out) + length index"
      "validate_logical_envelope gs (length index) = Inr u"
    and out: "Inr \<lparr>enc_bytes = (segment_header n lo hi (length gs) (length (align out)) (length index) budget policy
         @ drop SEGMENT_HEADER_BYTES (align out) @ index) @ str_bytes (sha256_hex cx (segment_header n lo hi (length gs)
            (length (align out)) (length index) budget policy @ drop SEGMENT_HEADER_BYTES (align out) @ index)),
         enc_checksum = sha256_hex cx (segment_header n lo hi (length gs) (length (align out)) (length index) budget policy
         @ drop SEGMENT_HEADER_BYTES (align out) @ index)\<rparr> = (Inr enc :: encoded_segment res)"
    unfolding encode_versions_def valid rbind_simps Let_def rbind_Inr fail_if_Inr split_paired_Ex prod.case
    by (elim exE conjE) (rule that, assumption+)
  have n: "n = length ?recs" "lo = foldl min u64_max (row_sequences ?recs)" "hi = foldl max 0 (row_sequences ?recs)" "n \<le> u64_max"
    using count_versions_Inr [OF count(1)] by (simp_all add: flat row_columns comp_def)
  have "enc_inv cx policy (out0, gs0, cur) ([] @ ?recs)"
    by (rule encode_keys_inv [OF cx fold enc_inv_start _ keys]) simp
  then obtain items0 rs where inv: "enc_items cx policy out0 gs0 items0" "builder_holds cur rs"
    "bd_row_start cur = length (concat (item_rows items0))" "\<forall>r \<in> set (item_rows items0). keys_before r rs"
    "?recs = concat (item_rows items0) @ rs" by (auto simp: enc_inv_def)
  obtain items where items: "enc_items cx policy out gs items" "concat (item_rows items) = ?recs"
  proof (cases "rs = []")
    case True
    then have "out = out0" "gs = gs0" using flush builder_rows_holds [OF inv(2)] by simp_all
    then show ?thesis using that [of items0] inv True by simp
  next
    case False
    then obtain g where g: "append_row_group cx policy cur out0 = Inr (out, g)" "gs = gs0 @ [g]"
      using flush builder_rows_holds [OF inv(2)] by (auto simp: rbind_Inr)
    show ?thesis using that [OF append_group_items [OF cx inv(1) g(1) inv(2) False inv(3,4), folded g(2)]] inv(5)
      by (simp add: item_rows_def)
  qed
  obtain es where es: "list_all2 (\<lambda>g e. encode_row_group g = Inr e) gs es" "index = index_header (length gs) @ concat es"
    by (rule encode_index_Inr [OF index])
  have gs: "gs = map fst items" using items(1) by (simp add: enc_items_def)
  have "encoded_as cx budget policy ?recs enc out items es"
    using valid items es limits n count(2) out
    by (simp add: encoded_as_def Let_def encoded_content_def gs)
  then show ?thesis by (rule that)
qed

section \<open>Parsing the index\<close>

lemma items_parse:
  assumes "list_all (item_ok cx policy out) items" and "row_starts row items"
    and "layout out e (concat (map rg_pages (map fst items))) e'"
    and "sorted_wrt keys_before (item_rows items)"
    and "\<forall>rs \<in> set (item_rows items). \<forall>x \<in> set rs. case prior of None \<Rightarrow> True | Some k \<Rightarrow> k < fst x"
    and "sorted_wrt record_less (concat (item_rows items))"
    and "\<forall>x \<in> set (concat (item_rows items)). vv_sequence (snd x) \<le> u64_max"
    and "row + length (concat (item_rows items)) \<le> u64_max" and "length out \<le> u64_max"
  shows "groups_parse policy out row prior e (map fst items) e'
    \<and> sum_list (map rg_row_count (map fst items)) = length (concat (item_rows items))"
  using assms
proof (induction items arbitrary: row prior e)
  case (Cons i items)
  obtain g b rs where i: "i = (g, b, rs)" by (cases i)
  have rows: "item_rows ((g, b, rs) # items) = rs # item_rows items" by (simp add: item_rows_def)
  have ok: "group_written cx policy out g b" "builder_holds b rs" "rs \<noteq> []" "bd_row_start b = row"
    using Cons.prems(1,2) by (simp_all add: i item_ok_def)
  have len: "length rs \<le> u32_max" using ok(1) builder_rows_holds [OF ok(2)] by (simp add: group_written_def)
  obtain e1 where lay: "layout out e (rg_pages g) e1" "layout out e1 (concat (map rg_pages (map fst items))) e'"
    using Cons.prems(3) by (auto simp: i layout_append)
  have g: "group_indexable policy g" "rg_row_start g = row" "rg_row_count g = length rs"
    "rg_first_key g = fst (hd rs)" "rg_last_key g = fst (last rs)"
    using group_written_indexable [OF ok(1-3) len] Cons.prems(6-9) ok(4) by (auto simp: i rows sorted_wrt_append)
  have prior: "case prior of None \<Rightarrow> True | Some k \<Rightarrow> k < rg_first_key g"
    using Cons.prems(5) ok(3) by (cases prior) (simp_all add: i rows g(4))
  have "groups_parse policy out (row + length rs) (Some (rg_last_key g)) e1 (map fst items) e'
    \<and> sum_list (map rg_row_count (map fst items)) = length (concat (item_rows items))"
  proof (rule Cons.IH)
    show "\<forall>xs \<in> set (item_rows items). \<forall>x \<in> set xs. case Some (rg_last_key g) of None \<Rightarrow> True | Some k \<Rightarrow> k < fst x"
      using Cons.prems(4) last_in_set [OF ok(3)] by (auto simp: i rows g(5) keys_before_def)
  qed (use Cons.prems lay in \<open>simp_all add: i rows sorted_wrt_append\<close>)
  then show ?case using g prior lay by (auto simp: i rows)
qed (simp add: item_rows_def)

section \<open>The image\<close>

lemma image_slices:
  assumes "length h = SEGMENT_HEADER_BYTES" and "SEGMENT_HEADER_BYTES \<le> length body"
    and "img = h @ drop SEGMENT_HEADER_BYTES body @ rest" and "SEGMENT_HEADER_BYTES \<le> a" and "b \<le> length body"
  shows "slice_get img a b = slice_get body a b"
proof -
  obtain c where a: "a = SEGMENT_HEADER_BYTES + c" using assms(4) by (metis le_add_diff_inverse)
  have drop: "drop a img = drop c (drop SEGMENT_HEADER_BYTES body) @ drop (c - (length body - SEGMENT_HEADER_BYTES)) rest"
    using assms(1) by (simp add: assms(3) a)
  show ?thesis
  proof (cases "a \<le> b")
    case True
    then have "take (b - a) (drop a img) = take (b - a) (drop a body)"
      unfolding drop using assms(2,5) by (simp add: a add.commute)
    then show ?thesis using True assms by (simp add: slice_get_def)
  qed (simp add: slice_get_def)
qed

definition encoded_descriptor :: "encoded_segment \<Rightarrow> record_row list \<Rightarrow> segment_descriptor" where
  "encoded_descriptor enc recs = \<lparr>sd_id = enc_checksum enc, sd_level = 0, sd_format_version = SEGMENT_FORMAT_VERSION,
     sd_schema_digest = SEGMENT_SCHEMA_DIGEST, sd_key_codec_digest = SEGMENT_KEY_CODEC_DIGEST,
     sd_page_format_digest = SEGMENT_PAGE_FORMAT_DIGEST,
     sd_first_key = fst (hd recs), sd_last_key = fst (last recs),
     sd_minimum_sequence = foldl min u64_max (row_sequences recs),
     sd_maximum_sequence = foldl max 0 (row_sequences recs),
     sd_entries = length recs, sd_bytes = length (enc_bytes enc), sd_checksum = enc_checksum enc\<rparr>"

definition storable :: "record_row list \<Rightarrow> bool" where
  "storable recs \<longleftrightarrow> sorted_wrt record_less recs
     \<and> (\<forall>e \<in> set recs. 0 < vv_sequence (snd e) \<and> vv_sequence (snd e) \<le> u64_max)"

lemma sequence_extremes:
  assumes "storable recs" and "recs \<noteq> []"
  shows "list_all (\<lambda>e. foldl min u64_max (row_sequences recs) \<le> vv_sequence (snd e)
      \<and> vv_sequence (snd e) \<le> foldl max 0 (row_sequences recs)) recs"
    and "0 < foldl min u64_max (row_sequences recs)"
    and "foldl min u64_max (row_sequences recs) \<le> foldl max 0 (row_sequences recs)"
    and "foldl max 0 (row_sequences recs) \<le> u64_max"
proof -
  let ?s = "row_sequences recs"
  have ne: "?s \<noteq> []" using assms(2) by (simp add: row_columns)
  have all: "\<forall>s \<in> set ?s. 0 < s \<and> s \<le> u64_max" using assms(1) by (auto simp: storable_def row_columns)
  have mem: "Min (set ?s) \<in> set ?s" "Max (set ?s) \<in> set ?s" using ne by simp_all
  have lo: "foldl min u64_max ?s = Min (set ?s)" and hi: "foldl max 0 ?s = Max (set ?s)"
    using ne mem all by (simp_all add: foldl_min_Min foldl_max_Max)
  show "0 < foldl min u64_max ?s" "foldl max 0 ?s \<le> u64_max" using mem all unfolding lo hi by blast+
  show "foldl min u64_max ?s \<le> foldl max 0 ?s" using mem(1) unfolding lo hi by simp
  show "list_all (\<lambda>e. foldl min u64_max ?s \<le> vv_sequence (snd e) \<and> vv_sequence (snd e) \<le> foldl max 0 ?s) recs"
    unfolding lo hi by (auto simp: list_all_iff row_columns)
qed

lemma length_encoded_entries:
  assumes "list_all2 (\<lambda>g e. encode_row_group g = Inr e) gs es" and "\<forall>g \<in> set gs. group_indexable policy g"
  shows "length gs * (ROW_GROUP_HEADER_BYTES + PAGES_PER_ROW_GROUP * PAGE_DESCRIPTOR_BYTES + 8) \<le> length (concat es)"
  using assms
proof (induction rule: list_all2_induct)
  case (Cons g gs e es)
  have g: "group_indexable policy g" using Cons.prems by simp
  have e: "length (rg_filter g) \<le> u32_max" "e = group_fixed g @ rg_first_key g @ rg_last_key g
      @ concat (map encode_page_descriptor (rg_pages g)) @ concat (map (\<lambda>w. le_bytes 8 (unat w)) (rg_filter g))"
    using Cons.hyps(1) by (simp_all add: encode_row_group_Inr)
  have "length (map pg_kind (rg_pages g)) = PAGES_PER_ROW_GROUP"
    using g unfolding group_indexable_def by (simp add: page_kinds_ordered_def PAGES_PER_ROW_GROUP_def)
  then have "length (concat (map encode_page_descriptor (rg_pages g))) = PAGES_PER_ROW_GROUP * PAGE_DESCRIPTOR_BYTES"
    using length_descriptors [of "rg_pages g" policy] g by (simp add: group_indexable_def)
  moreover have "rg_filter g \<noteq> []"
    using g by (auto simp: group_indexable_def filter_word_count_def rbind_Inr)
  then have "1 \<le> length (rg_filter g)" by (simp add: Suc_leI)
  ultimately have "ROW_GROUP_HEADER_BYTES + PAGES_PER_ROW_GROUP * PAGE_DESCRIPTOR_BYTES + 8 \<le> length e"
    using group_fixed_fields(9) [OF g e(1)] by (simp add: e(2) length_words)
  then show ?case using Cons by simp
qed simp

section \<open>Opening\<close>

text \<open>The parts of an encoded segment, with the facts about its image that the parser and the readers use.\<close>

lemma encoded_as_image:
  assumes cx: "codec_ok cx" and as: "encoded_as cx budget policy recs enc out items es"
  defines "index \<equiv> index_header (length items) @ concat es"
  defines "content \<equiv> encoded_content budget policy out (length items) index recs"
  shows "enc_bytes enc = content @ str_bytes (enc_checksum enc)" and "enc_checksum enc = sha256_hex cx content"
    and "length (str_bytes (enc_checksum enc)) = FOOTER_BYTES"
    and "length content = length (align out) + length index"
    and "SEGMENT_HEADER_BYTES \<le> length out" "length out \<le> length (align out)"
      "length (align out) mod PAGE_ALIGNMENT = 0" "length (align out) - length out < PAGE_ALIGNMENT"
      "slice_get (align out) (length out) (length (align out)) = Some (replicate (length (align out) - length out) 0)"
    and "\<forall>a b. SEGMENT_HEADER_BYTES \<le> a \<longrightarrow> b \<le> length (align out) \<longrightarrow>
      slice_get (enc_bytes enc) a b = slice_get (align out) a b"
    and "\<forall>a b. SEGMENT_HEADER_BYTES \<le> a \<longrightarrow> b \<le> length out \<longrightarrow> slice_get (enc_bytes enc) a b = slice_get out a b"
    and "slice_get (enc_bytes enc) (length (align out)) (length (align out) + length index) = Some index"
    and "length index \<le> MAX_INDEX_BYTES" "length (align out) + length index \<le> MAX_SEGMENT_BYTES - FOOTER_BYTES"
    and "length (enc_bytes enc) = length (align out) + length index + FOOTER_BYTES"
proof -
  have enc: "enc = \<lparr>enc_bytes = content @ str_bytes (sha256_hex cx content), enc_checksum = sha256_hex cx content\<rparr>"
    and items: "enc_items cx policy out (map fst items) items"
    and limits: "length index \<le> MAX_INDEX_BYTES" "length (align out) + length index \<le> MAX_SEGMENT_BYTES - FOOTER_BYTES"
    using as by (simp_all add: encoded_as_def Let_def content_def index_def)
  show b: "enc_bytes enc = content @ str_bytes (enc_checksum enc)" and c: "enc_checksum enc = sha256_hex cx content"
    by (simp_all add: enc)
  show f: "length (str_bytes (enc_checksum enc)) = FOOTER_BYTES"
    using cx by (simp add: c str_bytes_def sha256_hex_def length_encode_digest codec_ok_def FOOTER_BYTES_def)
  show h: "SEGMENT_HEADER_BYTES \<le> length out" using items by (simp add: enc_items_def)
  obtain k where k: "k < PAGE_ALIGNMENT" "align out = out @ replicate k 0" "length (align out) mod PAGE_ALIGNMENT = 0"
    using align_eq [of out] by (elim exE conjE) (rule that)
  show al: "length out \<le> length (align out)" "length (align out) mod PAGE_ALIGNMENT = 0"
    "length (align out) - length out < PAGE_ALIGNMENT" using k by simp_all
  show "slice_get (align out) (length out) (length (align out)) = Some (replicate (length (align out) - length out) 0)"
    using slice_get_append [of out "replicate k 0" "[]"] by (simp add: k(2))
  show len: "length content = length (align out) + length index"
    using h al(1) by (simp add: content_def encoded_content_def)
  show "length index \<le> MAX_INDEX_BYTES" "length (align out) + length index \<le> MAX_SEGMENT_BYTES - FOOTER_BYTES"
    by (rule limits)+
  show "length (enc_bytes enc) = length (align out) + length index + FOOTER_BYTES" using f by (simp add: b len)
  show s: "\<forall>a b. SEGMENT_HEADER_BYTES \<le> a \<longrightarrow> b \<le> length (align out) \<longrightarrow>
      slice_get (enc_bytes enc) a b = slice_get (align out) a b"
    using image_slices [OF length_segment_header, of "align out" "enc_bytes enc"] h al(1)
    by (simp add: b content_def encoded_content_def)
  have "slice_get (align out) a b = slice_get out a b" if "b \<le> length out" for a b
    using that by (auto simp: slice_get_def k(2))
  then show "\<forall>a b. SEGMENT_HEADER_BYTES \<le> a \<longrightarrow> b \<le> length out \<longrightarrow> slice_get (enc_bytes enc) a b = slice_get out a b"
    using s al(1) by (metis order_trans)
  have "length (segment_header n lo hi gs off ix budget policy @ drop SEGMENT_HEADER_BYTES (align out)) = length (align out)"
    for n lo hi gs off ix using h al(1) by simp
  then show "slice_get (enc_bytes enc) (length (align out)) (length (align out) + length index) = Some index"
    unfolding b content_def encoded_content_def append_assoc [symmetric]
    by (metis append_assoc slice_get_append)
qed

lemma item_rows_ends:
  assumes "items \<noteq> []" and "\<forall>rs \<in> set (item_rows items). rs \<noteq> []"
  shows "hd (concat (item_rows items)) = hd (hd (item_rows items))" "last (concat (item_rows items)) = last (last (item_rows items))"
proof -
  have ne: "item_rows items \<noteq> []" using assms(1) by (simp add: item_rows_def)
  show "hd (concat (item_rows items)) = hd (hd (item_rows items))"
    using ne assms(2) by (cases "item_rows items") auto
  have "item_rows items = butlast (item_rows items) @ [last (item_rows items)]" using ne by simp
  then have "concat (item_rows items) = concat (butlast (item_rows items)) @ last (item_rows items)"
    by (metis concat.simps concat_append append_Nil2)
  moreover have "last (item_rows items) \<noteq> []" using assms(2) ne by simp
  ultimately show "last (concat (item_rows items)) = last (last (item_rows items))" by simp
qed

lemma encoded_groups:
  assumes as: "encoded_as cx budget policy recs enc out items es" and recs: "storable recs" and "length out \<le> u64_max"
  shows "groups_parse policy out 0 None SEGMENT_HEADER_BYTES (map fst items) (length out)"
    and "sum_list (map rg_row_count (map fst items)) = length recs" and "items \<noteq> []"
    and "\<forall>g \<in> set (map fst items). group_indexable policy g"
    and "rg_first_key (hd (map fst items)) = fst (hd recs)" and "rg_last_key (last (map fst items)) = fst (last recs)"
proof -
  have items: "list_all (item_ok cx policy out) items" "row_starts 0 items"
    "layout out SEGMENT_HEADER_BYTES (concat (map rg_pages (map fst items))) (length out)"
    "sorted_wrt keys_before (item_rows items)" and recs': "concat (item_rows items) = recs" "recs \<noteq> []" "length recs \<le> u64_max"
    using as unfolding encoded_as_def Let_def enc_items_def by blast+
  have "groups_parse policy out 0 None SEGMENT_HEADER_BYTES (map fst items) (length out)
    \<and> sum_list (map rg_row_count (map fst items)) = length (concat (item_rows items))"
    using recs recs' assms(3) by (intro items_parse [OF items]) (auto simp: storable_def)
  then show parse: "groups_parse policy out 0 None SEGMENT_HEADER_BYTES (map fst items) (length out)"
    and "sum_list (map rg_row_count (map fst items)) = length recs" by (simp_all add: recs'(1))
  show ne: "items \<noteq> []" using recs'(1,2) by (auto simp: item_rows_def)
  have "groups_parse policy out row prior e gs e' \<Longrightarrow> \<forall>g \<in> set gs. group_indexable policy g" for row prior e e' gs
    by (induction gs arbitrary: row prior e) auto
  with parse show "\<forall>g \<in> set (map fst items). group_indexable policy g" by blast
  have rows: "\<forall>rs \<in> set (item_rows items). rs \<noteq> []"
    using items(1) by (auto simp: item_rows_def list_all_iff item_ok_def)
  have keys: "rg_first_key g = fst (hd rs) \<and> rg_last_key g = fst (last rs)" if "(g, b, rs) \<in> set items" for g b rs
    using items(1) that
    by (auto simp: list_all_iff item_ok_def group_written_def group_matches_def builder_holds_def)
  obtain g b rs where h: "hd items = (g, b, rs)" by (cases "hd items")
  then have "(g, b, rs) \<in> set items" using ne by (metis hd_in_set)
  then show "rg_first_key (hd (map fst items)) = fst (hd recs)"
    using keys h ne item_rows_ends(1) [OF ne rows, unfolded recs'(1)] by (simp add: item_rows_def hd_map)
  obtain g b rs where l: "last items = (g, b, rs)" by (cases "last items")
  then have "(g, b, rs) \<in> set items" using ne by (metis last_in_set)
  then show "rg_last_key (last (map fst items)) = fst (last recs)"
    using keys l ne item_rows_ends(2) [OF ne rows, unfolded recs'(1)] by (simp add: item_rows_def last_map)
qed

lemma parse_metadata_encoded:
  assumes cx: "codec_ok cx" and as: "encoded_as cx budget policy recs enc out items es" and recs: "storable recs"
  shows "parse_metadata (enc_bytes enc) (enc_checksum enc) = Inr \<lparr>pm_descriptor = encoded_descriptor enc recs,
     pm_row_group_budget = budget, pm_compression_policy = policy, pm_row_groups = map fst items\<rparr>"
proof -
  let ?img = "enc_bytes enc" and ?gs = "map fst items" and ?off = "length (align out)"
  let ?index = "index_header (length items) @ concat es"
  let ?lo = "foldl min u64_max (row_sequences recs)" and ?hi = "foldl max 0 (row_sequences recs)"
  let ?h = "segment_header (length recs) ?lo ?hi (length items) ?off (length ?index) budget policy"
  note im = encoded_as_image [OF cx as]
  have parts: "row_group_budget_validate budget = Inr budget" "compression_policy_validate policy = Inr policy"
    "recs \<noteq> []" "length recs \<le> u64_max" "list_all2 (\<lambda>g e. encode_row_group g = Inr e) ?gs es"
    "validate_logical_envelope ?gs (length ?index) = Inr ()" "layout out SEGMENT_HEADER_BYTES (concat (map rg_pages ?gs)) (length out)"
    using as unfolding encoded_as_def Let_def enc_items_def length_map by blast+
  have sizes: "?off \<le> u64_max" "length ?index \<le> u64_max" "length out \<le> u64_max" "?off + length ?index \<le> u64_max"
    using im(6,13,14) by (simp_all add: rrf_consts)
  note gs = encoded_groups [OF as recs sizes(3)]
  note ext = sequence_extremes [OF recs parts(3)]
  have entries: "length items * 616 \<le> length (concat es)"
    using length_encoded_entries [OF parts(5) gs(4)] by (simp add: rrf_consts)
  have u32: "length items \<le> u32_max" using entries im(13) by (simp add: rrf_consts)
  have img: "?img = ?h @ drop SEGMENT_HEADER_BYTES (align out) @ ?index @ str_bytes (enc_checksum enc)"
    unfolding im(1) encoded_content_def by simp
  have header: "read_exact_at ?img 0 SEGMENT_HEADER_BYTES = Inr ?h"
    using length_segment_header unfolding read_exact_at_def img by (simp add: slice_get_def ok_or_def)
  note fields = segment_header_fields [OF parts(4) _ ext(4) u32 sizes(1,2), of ?lo budget policy]
  have lo: "?lo \<le> u64_max" by (rule foldl_min_le)
  have index: "read_exact_at ?img ?off (length ?index) = Inr ?index"
    using im(12) by (simp add: read_exact_at_def ok_or_def)
  have ihead: "check_index_header ?index (length items) = Inr ()" "length (index_header (length items)) = INDEX_HEADER_BYTES"
    by (rule check_index_header_ok [OF u32])+
  let ?st = "\<lparr>ix_cursor = INDEX_HEADER_BYTES, ix_row_groups = [], ix_expected_row_start = 0,
               ix_prior_last_key = None, ix_prior_page_end = SEGMENT_HEADER_BYTES\<rparr>"
  obtain st' where st': "parse_row_groups ?index policy ?off (length ?gs) ?st = Inr st'"
    "ix_cursor st' = length ?index" "ix_row_groups st' = ?gs" "ix_expected_row_start st' = length recs"
    by (rule parse_row_groups_encoded [OF parts(5), of ?index "index_header (length items)" "[]" policy out ?st "length out" ?off])
      (use sizes gs im(6) ihead(2) in simp_all)
  have pad: "validate_zero_padding ?img ?gs ?off = Inr ()"
    using padding_steps_ok [OF parts(7) sizes(3) order_refl im(11)] im(5-10)
    by (simp add: validate_zero_padding_def validate_zero_range_ok)
  have g1: "\<not> length ?img < SEGMENT_HEADER_BYTES + INDEX_HEADER_BYTES + FOOTER_BYTES"
    using im(5,6,15) ihead(2) by simp
  have g2: "\<not> (length recs = 0 \<or> ?lo = 0 \<or> ?lo > ?hi \<or> length items = 0 \<or> ?off < SEGMENT_HEADER_BYTES
        \<or> ?off mod PAGE_ALIGNMENT \<noteq> 0 \<or> \<not> (INDEX_HEADER_BYTES \<le> length ?index \<and> length ?index \<le> MAX_INDEX_BYTES)
        \<or> checked_add ?off (length ?index) \<noteq> Some (length ?img - FOOTER_BYTES))"
    using parts(3) ext(2,3) gs(3) im(5-8,13,15) ihead(2) sizes(4) by (simp add: checked_add_def)
  have g3: "\<not> length items > (length ?index - INDEX_HEADER_BYTES)
        div (ROW_GROUP_HEADER_BYTES + PAGES_PER_ROW_GROUP * PAGE_DESCRIPTOR_BYTES + 8)"
    using entries ihead(2) by (simp add: rrf_consts not_less less_eq_div_iff_mult_less_eq)
  have g4: "\<not> (ix_cursor st' \<noteq> length ?index \<or> ix_expected_row_start st' \<noteq> length recs)" using st' by simp
  show ?thesis
    unfolding parse_metadata_def fail_if_def if_not_P [OF g1] rbind_simps header check_header_ok fields [OF lo]
      decode_row_group_budget_ok [OF parts(1)] decode_compression_policy_ok [OF parts(2)] if_not_P [OF g2] check_digests_ok
      index ihead(1) if_not_P [OF g3] st'(1) [unfolded length_map] if_not_P [OF g4] Let_def st'(3) parts(6) pad
    by (simp add: encoded_descriptor_def gs(5,6))
qed

section \<open>The audit\<close>

text \<open>A segment over the image of an encoding.\<close>

definition reads_image :: "segment \<Rightarrow> bytes \<Rightarrow> bool" where
  "reads_image seg img \<longleftrightarrow> sg_source seg \<in> {SourceFile img, SourceMapped img, SourceBytes img}"

lemma encoded_item_loaded:
  assumes cx: "codec_ok cx" and as: "encoded_as cx budget policy recs enc out items es"
    and seg: "reads_image seg (enc_bytes enc)" "sg_row_groups seg = map fst items"
    and i: "i < length items" "items ! i = (g, b, rs)"
  shows "load_row_group cx seg i = Inr (loaded_of b)" and "group_matches g b" "builder_holds b rs" "rs \<noteq> []"
    "length rs \<le> u32_max" "sg_row_groups seg ! i = g" "rg_row_count g = length rs"
proof -
  note im = encoded_as_image [OF cx as]
  have "list_all (item_ok cx policy out) items" using as by (simp add: encoded_as_def Let_def enc_items_def)
  then have ok: "group_written cx policy out g b" "builder_holds b rs" "rs \<noteq> []"
    using i by (auto simp: list_all_length item_ok_def dest!: spec [of _ i])
  show sel: "sg_row_groups seg ! i = g" using i by (simp add: seg(2))
  have "length out \<le> u64_max" using im(6,14) by (simp add: rrf_consts)
  then show "load_row_group cx seg i = Inr (loaded_of b)"
    using ok(1) i(1) seg(1) im(11) by (intro load_row_group_written [of cx policy out]) (simp_all add: sel seg(2) reads_image_def i(2))
  show "group_matches g b" "builder_holds b rs" "rs \<noteq> []" using ok by (simp_all add: group_written_def)
  show "length rs \<le> u32_max" using ok(1) builder_rows_holds [OF ok(2)] by (simp add: group_written_def)
  show "rg_row_count g = length rs" using ok(1) builder_rows_holds [OF ok(2)] by (simp add: group_written_def group_matches_def)
qed

lemma encoded_group_records:
  assumes cx: "codec_ok cx" and as: "encoded_as cx budget policy recs enc out items es" and recs: "storable recs"
    and seg: "reads_image seg (enc_bytes enc)" "sg_row_groups seg = map fst items" and i: "i < length items"
  shows "group_records cx seg i = item_rows items ! i"
proof -
  obtain g b rs where it: "items ! i = (g, b, rs)" by (cases "items ! i")
  note l = encoded_item_loaded [OF cx as seg i it]
  have rs: "item_rows items ! i = rs" using i it by (simp add: item_rows_def)
  have "rs \<in> set (item_rows items)" using i rs by (metis item_rows_def length_map nth_mem)
  then have "set rs \<subseteq> set (concat (item_rows items))" by auto
  moreover have "concat (item_rows items) = recs" using as by (simp add: encoded_as_def Let_def)
  ultimately have "set rs \<subseteq> set recs" by (simp only:)
  then have "vv_sequence (snd (rs ! j)) \<le> u64_max" if "j < length rs" for j
    using recs nth_mem [OF that] unfolding storable_def by blast
  then have "map (row_of (loaded_of b)) [0..<length rs] = rs"
    using loaded_of_row_of(2) [OF l(3) _ l(5)] by (intro nth_equalityI) simp_all
  then show ?thesis by (simp add: group_records_def l(1,6,7) rs)
qed

lemma encoded_segment_records:
  assumes cx: "codec_ok cx" and as: "encoded_as cx budget policy recs enc out items es" and recs: "storable recs"
    and seg: "reads_image seg (enc_bytes enc)" "sg_row_groups seg = map fst items"
  shows "segment_records cx seg = recs"
proof -
  have "map (group_records cx seg) [0..<length items] = item_rows items"
    using encoded_group_records [OF cx as recs seg] by (intro nth_equalityI) (simp_all add: item_rows_def)
  then show ?thesis using as by (simp add: segment_records_def seg(2) encoded_as_def Let_def)
qed

lemma audit_encoded:
  assumes cx: "codec_ok cx" and as: "encoded_as cx budget policy recs enc out items es" and recs: "storable recs"
    and seg: "reads_image seg (enc_bytes enc)" "sg_row_groups seg = map fst items"
      "sg_descriptor seg = encoded_descriptor enc recs"
    and n: "n \<le> length items"
  defines "done \<equiv> \<lambda>n. concat (take n (item_rows items))"
  shows "try_fold (audit_group cx seg) \<lparr>sa_previous = None, sa_rows = 0, sa_minimum = u64_max, sa_maximum = 0\<rparr> [0..<n]
    = Inr \<lparr>sa_previous = last_record (done n), sa_rows = length (done n),
        sa_minimum = foldl min u64_max (row_sequences (done n)), sa_maximum = foldl max 0 (row_sequences (done n))\<rparr>"
  using n
proof (induction n)
  case 0
  show ?case by (simp add: done_def last_record_def row_columns)
next
  case (Suc n)
  then have i: "n < length items" by simp
  obtain g b rs where it: "items ! n = (g, b, rs)" by (cases "items ! n")
  note l = encoded_item_loaded [OF cx as seg(1,2) i it]
  have "item_rows items ! n = rs" using i it by (simp add: item_rows_def)
  then have step: "done (Suc n) = done n @ rs"
    using i by (simp add: done_def take_Suc_conv_app_nth item_rows_def)
  have all: "concat (item_rows items) = recs" "recs \<noteq> []" "length recs \<le> u64_max"
    using as by (simp_all add: encoded_as_def Let_def)
  then have pre: "recs = done (Suc n) @ concat (drop (Suc n) (item_rows items))"
    by (metis append_take_drop_id concat_append done_def)
  have sorted: "sorted_wrt record_less (done n @ rs)" using recs pre step by (simp add: storable_def sorted_wrt_append)
  have len: "length (done n) + length rs \<le> u64_max" using all(3) pre step by simp
  have ok: "list_all (sequence_ok (sg_descriptor seg)) rs"
    using sequence_extremes(1) [OF recs all(2)] recs pre step
    by (auto simp: list_all_iff sequence_ok_def seg(3) encoded_descriptor_def storable_def)
  let ?sa = "\<lparr>sa_previous = last_record (done n), sa_rows = length (done n),
        sa_minimum = foldl min u64_max (row_sequences (done n)), sa_maximum = foldl max 0 (row_sequences (done n))\<rparr>"
  have "audit_group cx seg ?sa n = Inr ((audit_sa ?sa rs)\<lparr>sa_rows := sa_rows ?sa + length rs\<rparr>)"
    by (rule audit_group_holds [OF l(1) l(6) [symmetric] l(2,3,5,4) ok sorted]) (use len in simp_all)
  then show ?case using Suc l(4)
    by (simp add: try_fold_append step audit_sa_def row_columns last_record_def)
qed

lemma validate_all_pages_encoded:
  assumes cx: "codec_ok cx" and as: "encoded_as cx budget policy recs enc out items es" and recs: "storable recs"
    and seg: "reads_image seg (enc_bytes enc)" "sg_row_groups seg = map fst items"
      "sg_descriptor seg = encoded_descriptor enc recs"
  shows "validate_all_pages cx seg = Inr ()"
proof -
  have "concat (take (length items) (item_rows items)) = recs"
    using as by (simp add: encoded_as_def Let_def item_rows_def)
  then show ?thesis
    using audit_encoded [OF assms order_refl]
    by (simp add: validate_all_pages_def seg(2,3) encoded_descriptor_def fail_if_def)
qed

section \<open>The round trip\<close>

definition backend_ok :: "(bytes \<Rightarrow> page_source) \<Rightarrow> bool" where
  "backend_ok backend \<longleftrightarrow> (\<forall>img. backend img \<in> {SourceFile img, SourceMapped img, SourceBytes img})"

definition encoded_seg ::
  "(bytes \<Rightarrow> page_source) \<Rightarrow> segment_row_group_budget \<Rightarrow> segment_compression_policy \<Rightarrow> record_row list
     \<Rightarrow> encoded_segment \<Rightarrow> encoded_item list \<Rightarrow> segment" where
  "encoded_seg backend budget policy recs enc items =
     \<lparr>sg_descriptor = encoded_descriptor enc recs, sg_row_group_budget = budget, sg_compression_policy = policy,
      sg_source = backend (enc_bytes enc), sg_row_groups = map fst items\<rparr>"

lemma segment_open_encoded:
  assumes cx: "codec_ok cx" and backend: "backend_ok backend"
    and as: "encoded_as cx budget policy recs enc out items es" and recs: "storable recs"
  shows "segment_open cx backend (enc_bytes enc) = Inr (encoded_seg backend budget policy recs enc items)"
    and "segment_records cx (encoded_seg backend budget policy recs enc items) = recs"
proof -
  let ?seg = "encoded_seg backend budget policy recs enc items"
  note im = encoded_as_image [OF cx as]
  have seg: "reads_image ?seg (enc_bytes enc)" "sg_row_groups ?seg = map fst items"
    "sg_descriptor ?seg = encoded_descriptor enc recs"
    using backend by (simp_all add: reads_image_def encoded_seg_def backend_ok_def)
  show "segment_records cx ?seg = recs" by (rule encoded_segment_records [OF cx as recs seg(1,2)])
  have physical: "validate_physical_file (enc_bytes enc) = Inr ()"
  proof (rule validate_physical_file_ok)
    show "enc_bytes enc = segment_header (length recs) (foldl min u64_max (row_sequences recs)) (foldl max 0 (row_sequences recs))
       (length items) (length (align out)) (length (index_header (length items) @ concat es)) budget policy
       @ drop SEGMENT_HEADER_BYTES (align out) @ (index_header (length items) @ concat es) @ str_bytes (enc_checksum enc)"
      unfolding im(1) encoded_content_def by simp
    show "length (enc_bytes enc) \<le> MAX_SEGMENT_BYTES" using im(14,15) by (simp add: rrf_consts)
    have "length (index_header (length items)) = INDEX_HEADER_BYTES" by (simp add: index_header_def INDEX_HEADER_BYTES_def)
    then show "SEGMENT_HEADER_BYTES + INDEX_HEADER_BYTES + FOOTER_BYTES \<le> length (enc_bytes enc)" using im(5,6,15) by simp
  qed
  have digest: "verify_file_digest cx (enc_bytes enc) = Inr (enc_checksum enc)"
    using verify_file_digest_ok [OF cx, of "enc_bytes enc"] im(1,2) by simp
  have build: "build_segment \<lparr>pm_descriptor = encoded_descriptor enc recs,
     pm_row_group_budget = budget, pm_compression_policy = policy, pm_row_groups = map fst items\<rparr> (backend (enc_bytes enc)) = ?seg"
    by (simp add: build_segment_def encoded_seg_def)
  show "segment_open cx backend (enc_bytes enc) = Inr ?seg"
    by (simp add: segment_open_def physical digest parse_metadata_encoded [OF cx as recs] build
        validate_all_pages_encoded [OF cx as recs seg])
qed

end
