(* ===== verification/Segment_Theorems.thy ===== *)
theory Segment_Theorems
  imports Segment_Reopen Memtable_Spec
begin

text \<open>
  What a segment file guarantees: an accepted file answers every read by its records, an
  encoded table is accepted again and answers as the table did, and the record cursor delivers
  all records in order.
\<close>

section \<open>Encoding tables\<close>

definition versions_ok :: "(bytes \<times> versioned_value list) list \<Rightarrow> bool" where
  "versions_ok versions \<longleftrightarrow> key_sorted versions \<and> (\<forall>(k, vs) \<in> set versions. sorted_wrt (<) (map vv_sequence vs)
     \<and> (\<forall>v \<in> set vs. 0 < vv_sequence v \<and> vv_sequence v \<le> u64_max))"

lemma set_flat_versions: "(k, v) \<in> set (flat_versions versions) \<longleftrightarrow> (\<exists>vs. (k, vs) \<in> set versions \<and> v \<in> set vs)"
  by (auto simp: flat_versions_def)

lemma versions_ok_storable:
  assumes "versions_ok versions"
  shows "storable (flat_versions versions)"
proof -
  have "sorted_wrt record_less (flat_versions versions)"
    using assms
  proof (induction versions)
    case (Cons e versions)
    obtain k vs where e: "e = (k, vs)" by (cases e)
    have "sorted_wrt record_less (map (Pair k) vs)"
      using Cons.prems by (simp add: versions_ok_def e sorted_wrt_map record_less_def)
    moreover have "record_less x y" if x: "x \<in> set (map (Pair k) vs)" and y': "y \<in> set (flat_versions versions)" for x y
    proof -
      obtain k' v' where y: "y = (k', v')" by (cases y)
      then obtain vs' where "(k', vs') \<in> set versions" using y' by (auto simp: set_flat_versions)
      then have "k < k'" using Cons.prems by (force simp: versions_ok_def e)
      then show ?thesis using x y by (auto simp: record_less_def)
    qed
    moreover have "sorted_wrt record_less (flat_versions versions)"
      using Cons by (auto simp: versions_ok_def)
    ultimately show ?case by (simp add: flat_versions_def e sorted_wrt_append)
  qed (simp add: flat_versions_def)
  moreover have "0 < vv_sequence v \<and> vv_sequence v \<le> u64_max" if "(k, v) \<in> set (flat_versions versions)" for k v
    using that assms by (fastforce simp: set_flat_versions versions_ok_def)
  ultimately show ?thesis by (auto simp: storable_def)
qed

lemma encode_open:
  assumes "codec_ok cx" and "backend_ok backend" and "versions_ok versions"
    and "encode_versions cx versions budget policy = Inr enc"
  shows "\<exists>seg. segment_open cx backend (enc_bytes enc) = Inr seg
    \<and> segment_records cx seg = flat_versions versions \<and> sd_id (sg_descriptor seg) = enc_checksum enc"
proof -
  have keys: "key_sorted versions" using assms(3) by (simp add: versions_ok_def)
  obtain out items es where as: "encoded_as cx budget policy (flat_versions versions) enc out items es"
    by (rule encode_versions_as [OF assms(1,4) keys])
  note opened = segment_open_encoded [OF assms(1,2) as versions_ok_storable [OF assms(3)]]
  show ?thesis using opened by (auto simp: encoded_seg_def encoded_descriptor_def)
qed

lemma memtable_versions_ok:
  assumes "mt_inv m" and "mt_maximum_sequence m \<le> u64_max"
  shows "versions_ok (map (\<lambda>(key, c). (key, chain_slice c)) (mt_versions m))"
    and "set (flat_versions (map (\<lambda>(key, c). (key, chain_slice c)) (mt_versions m))) = mt_rows m"
proof -
  let ?t = "mt_versions m"
  have ok: "table_ok (mt_maximum_sequence m) ?t" and sorted: "key_sorted ?t"
    using assms(1) by (simp_all add: mt_inv_def table_ok_def)
  have mem: "map_of ?t k = Some c \<longleftrightarrow> (k, c) \<in> set ?t" for k c
    using sorted by (intro map_of_eq_Some_iff) (simp add: strict_sorted_iff)
  have chain: "chain_ok (mt_maximum_sequence m) (chain_slice c)" if "(k, c) \<in> set ?t" for k c
    using table_okD(2) [OF ok] that mem by blast
  have keys: "map fst (map (\<lambda>(key, c). (key, chain_slice c)) ?t) = map fst ?t" by auto
  have "sorted_wrt (<) (map vv_sequence vs) \<and> (\<forall>v \<in> set vs. 0 < vv_sequence v \<and> vv_sequence v \<le> u64_max)"
    if entry: "(k, vs) \<in> set (map (\<lambda>(key, c). (key, chain_slice c)) ?t)" for k vs
  proof -
    from entry obtain c where "(k, c) \<in> set ?t" "vs = chain_slice c" by auto
    then show ?thesis using chain [of k c] assms(2) by (auto simp: chain_ok_def intro: order_trans)
  qed
  then show "versions_ok (map (\<lambda>(key, c). (key, chain_slice c)) ?t)"
    using sorted unfolding versions_ok_def keys by blast
  show "set (flat_versions (map (\<lambda>(key, c). (key, chain_slice c)) ?t)) = mt_rows m"
    by (auto simp: set_flat_versions mt_rows_def table_rows_def mem) force
qed

lemma reads_agree:
  assumes seg: "seg_inv cx seg" and mt: "mt_inv m" and rows: "segment_rows cx seg = mt_rows m"
  shows "segment_get_version cx seg k r = Inr (memtable_get_version m k r)"
    and "memtable_visible_from m start stop r = Inr es \<Longrightarrow> segment_visible_from cx seg start stop r = Inr es"
proof -
  have get: "segment_version cx seg k r = memtable_get_version m k r" for k
    by (rule option_extI) (simp add: sg.get_version_visible [OF seg] mt.get_version_visible [OF mt] rows)
  then show "segment_get_version cx seg k r = Inr (memtable_get_version m k r)"
    by (simp add: segment_get_version_Inr [OF seg])
  assume es: "memtable_visible_from m start stop r = Inr es"
  obtain es' where es': "segment_visible_from cx seg start stop r = Inr es'"
    using segment_visible_from_spec [OF seg] by blast
  have "map_of es' = map_of es"
    using sg.visible_from_get [OF seg es'] mt.visible_from_get [OF mt es] get by auto
  then have "es' = es"
    using sg.visible_from_sorted [OF seg es'] mt.visible_from_sorted [OF mt es] by (intro key_sorted_unique) simp_all
  then show "segment_visible_from cx seg start stop r = Inr es" using es' by simp
qed

section \<open>The round trip\<close>

text \<open>
  (C9) A segment file that the encoder produces from versions in key and sequence order is
  accepted by the complete validation of a reopen, is named by its content digest, and holds
  exactly the encoded versions in their order, for every row-group budget, compression policy
  and page source.
\<close>

theorem segment_roundtrip:
  assumes "codec_ok cx" and "backend_ok backend" and "versions_ok versions"
    and "encode_versions cx versions budget policy = Inr enc"
  shows "\<exists>seg. segment_open cx backend (enc_bytes enc) = Inr seg
    \<and> segment_records cx seg = flat_versions versions \<and> sd_id (sg_descriptor seg) = enc_checksum enc"
  by (rule encode_open [OF assms])

definition plain_codec :: codec where
  "plain_codec = \<lparr>sha256 = (\<lambda>bs. replicate 32 0), lz4_compress = (\<lambda>bs. Inr (0 # bs)),
     lz4_decompress = (\<lambda>bs n. Inr (tl bs))\<rparr>"

lemma plain_codec_ok: "codec_ok plain_codec"
  by (simp add: codec_ok_def plain_codec_def)

lemma mapped_backend_ok: "backend_ok SourceMapped"
  by (simp add: backend_ok_def)

definition sample_versions :: "(bytes \<times> versioned_value list) list" where
  "sample_versions = [([1], [\<lparr>vv_sequence = 1, vv_value = Some [7]\<rparr>, \<lparr>vv_sequence = 2, vv_value = None\<rparr>])]"

definition sample_budget :: segment_row_group_budget where
  "sample_budget = \<lparr>gb_max_rows = 10, gb_target_bytes = 1000\<rparr>"

lemmas encode_eval = encode_versions_def row_group_budget_validate_def compression_policy_validate_def
  count_version_def ok_or_def checked_add_def fail_if_def encode_key_def group_estimate_def builder_append_def
  builder_new_def validate_key_value_def value_or_default_def set_validity_def Let_def builder_rows_def
  append_row_group_def builder_filter_def filter_new_def filter_word_count_def checked_mul_def filter_step_def
  slice_get_def builder_pages_def append_pages_def append_page_def compress_page_def encode_values_def align_def
  encode_row_group_def index_header_def INDEX_MAGIC_def str_bytes_def validate_logical_envelope_def
  envelope_step_def align_u64_def encode_page_descriptor_def plain_codec_def length_words rrf_consts

lemma sample_encodes: "\<exists>enc. encode_versions plain_codec sample_versions sample_budget PolicyNone = Inr enc"
  by (simp add: sample_versions_def sample_budget_def encode_eval)

lemma flat_sample: "flat_versions sample_versions =
    [([1], \<lparr>vv_sequence = 1, vv_value = Some [7]\<rparr>), ([1], \<lparr>vv_sequence = 2, vv_value = None\<rparr>)]"
  by (simp add: flat_versions_def sample_versions_def)

lemma sample_versions_ok: "versions_ok sample_versions"
  by (simp add: versions_ok_def sample_versions_def rrf_consts)

theorem segment_roundtrip_witness:
  "\<exists>enc seg. encode_versions plain_codec sample_versions sample_budget PolicyNone = Inr enc
    \<and> segment_open plain_codec SourceMapped (enc_bytes enc) = Inr seg
    \<and> segment_records plain_codec seg =
        [([1], \<lparr>vv_sequence = 1, vv_value = Some [7]\<rparr>), ([1], \<lparr>vv_sequence = 2, vv_value = None\<rparr>)]"
proof -
  obtain enc where enc: "encode_versions plain_codec sample_versions sample_budget PolicyNone = Inr enc"
    using sample_encodes by blast
  then show ?thesis
    using segment_roundtrip [OF plain_codec_ok mapped_backend_ok sample_versions_ok enc] unfolding flat_sample by blast
qed

section \<open>A flushed table\<close>

text \<open>
  (C11) Flushing a memtable preserves its reads: the segment encoded from it opens, and for every
  key and read sequence a point read of the segment returns what the memtable returned, as does
  every scan that the memtable answers.
\<close>

theorem flushed_reads:
  assumes "codec_ok cx" and "backend_ok backend" and "mt_inv m" and "mt_maximum_sequence m \<le> u64_max"
    and "encode_table cx m budget policy = Inr enc"
  shows "\<exists>seg. segment_open cx backend (enc_bytes enc) = Inr seg
    \<and> (\<forall>key r. segment_get_version cx seg key r = Inr (memtable_get_version m key r))
    \<and> (\<forall>start stop r es. memtable_visible_from m start stop r = Inr es \<longrightarrow>
         segment_visible_from cx seg start stop r = Inr es)"
proof -
  note ok = memtable_versions_ok [OF assms(3,4)]
  obtain seg where seg: "segment_open cx backend (enc_bytes enc) = Inr seg"
    and recs: "segment_records cx seg = flat_versions (map (\<lambda>(key, c). (key, chain_slice c)) (mt_versions m))"
    using encode_open [OF assms(1,2) ok(1)] assms(5) unfolding encode_table_def by blast
  have "segment_rows cx seg = mt_rows m" using recs ok(2) by (simp add: segment_rows_def)
  with seg reads_agree [OF segment_open_inv(1) [OF seg] assms(3)] show ?thesis by blast
qed

definition one_put :: write_batch where
  "one_put = \<lparr>operations = [Put [1] [7]], encoded_len = 26\<rparr>"

lemma one_put_new: "write_batch_new [Put [1] [7]] = Inr one_put"
  by (simp add: write_batch_new_iff validate_operations_iff mutation_ok_def mutation_size_def
      op_size_def one_put_def rrf_consts)

lemma one_put_apply: "\<exists>m. apply_write_batch (at_sequence 0) one_put 1 1 = Inr m \<and> mt_inv m \<and> mt_maximum_sequence m = 1
    \<and> mt_versions m = [([1], One \<lparr>vv_sequence = 1, vv_value = Some [7]\<rparr>)]"
proof -
  obtain m where m: "apply_write_batch (at_sequence 0) one_put 1 1 = Inr m"
    using apply_write_batch_total [OF one_put_new, of "at_sequence 0"]
    by (auto simp: at_sequence_def mutation_bytes_def version_bytes_def rrf_consts)
  then have "mt_inv m \<and> mt_maximum_sequence m = 1"
    using apply_write_batch_Inr [OF mt_inv_at_sequence(1) _ one_put_new m]
    by (simp add: at_sequence_def rrf_consts)
  moreover have "mt_versions m = [([1], One \<lparr>vv_sequence = 1, vv_value = Some [7]\<rparr>)]"
    using m by (auto simp: apply_write_batch_def one_put_def at_sequence_def rbind_Inr grown_chain_def)
  ultimately show ?thesis using m by blast
qed

lemma one_put_encodes:
  "mt_versions m = [([1], One \<lparr>vv_sequence = 1, vv_value = Some [7]\<rparr>)] \<Longrightarrow>
     \<exists>enc. encode_table plain_codec m sample_budget PolicyNone = Inr enc"
  by (simp add: encode_table_def sample_budget_def encode_eval)

theorem flushed_reads_witness:
  "\<exists>m enc seg. apply_write_batch (at_sequence 0) one_put 1 1 = Inr m
    \<and> encode_table plain_codec m sample_budget PolicyNone = Inr enc
    \<and> segment_open plain_codec SourceMapped (enc_bytes enc) = Inr seg
    \<and> segment_get_version plain_codec seg [1] 1 = Inr (Some \<lparr>vv_sequence = 1, vv_value = Some [7]\<rparr>)
    \<and> segment_get_version plain_codec seg [1] 0 = Inr None"
proof -
  obtain m where m: "apply_write_batch (at_sequence 0) one_put 1 1 = Inr m" "mt_inv m" "mt_maximum_sequence m = 1"
    "mt_versions m = [([1], One \<lparr>vv_sequence = 1, vv_value = Some [7]\<rparr>)]" using one_put_apply by blast
  obtain enc where enc: "encode_table plain_codec m sample_budget PolicyNone = Inr enc" using one_put_encodes [OF m(4)] by blast
  have "mt_maximum_sequence m \<le> u64_max" by (simp add: m(3) rrf_consts)
  from flushed_reads [OF plain_codec_ok mapped_backend_ok m(2) this enc] obtain seg where
    seg: "segment_open plain_codec SourceMapped (enc_bytes enc) = Inr seg"
      "\<forall>key r. segment_get_version plain_codec seg key r = Inr (memtable_get_version m key r)" by blast
  have "memtable_get_version m [1] 1 = Some \<lparr>vv_sequence = 1, vv_value = Some [7]\<rparr>" "memtable_get_version m [1] 0 = None"
    by (simp_all add: memtable_get_version_def chain_visible_def m(4))
  with m(1) enc seg show ?thesis by auto
qed

section \<open>Accepted files\<close>


text \<open>
  (C24) A scan of several disjoint ascending ranges over an accepted file returns, in key order,
  exactly the newest visible record of every key that lies in one of the ranges.
\<close>

theorem accepted_range_reads:
  assumes "segment_open cx backend img = Inr seg" and "ranges_ok ranges"
  shows "\<exists>es. segment_visible_ranges cx seg ranges r = Inr es \<and> key_sorted es
    \<and> (\<forall>k v. map_of es k = Some v \<longleftrightarrow> in_ranges ranges k \<and> visible_at (set (segment_records cx seg)) k r v)"
  using segment_visible_ranges_spec [OF segment_open_inv(1) [OF assms(1)] assms(2)] unfolding segment_rows_def .

text \<open>Reading with a cursor until it is exhausted.\<close>

fun read_records :: "codec \<Rightarrow> segment \<Rightarrow> nat \<Rightarrow> record_cursor \<Rightarrow> (record_row list \<times> bool) res" where
  "read_records cx seg 0 cur = Inr ([], False)"
| "read_records cx seg (Suc n) cur =
     rbind (next_record cx seg cur) (\<lambda>(out, cur).
     case out of
       None \<Rightarrow> Inr ([], True)
     | Some e \<Rightarrow> rbind (read_records cx seg n cur) (\<lambda>(es, exhausted). Inr (e # es, exhausted)))"

lemma read_records_rest:
  assumes inv: "seg_inv cx seg" and "cursor_ok cx seg cur" and "length (cursor_rest cx seg cur) < n"
  shows "read_records cx seg n cur = Inr (cursor_rest cx seg cur, True)"
  using assms(2,3)
proof (induction n arbitrary: cur)
  case (Suc n)
  obtain out cur' where nx: "next_record cx seg cur = Inr (out, cur')"
    and yields: "cursor_yields cx seg (cursor_rest cx seg cur) (out, cur')"
    using next_record_spec [OF inv Suc.prems(1)] by auto
  show ?case
  proof (cases "cursor_rest cx seg cur")
    case Nil
    then show ?thesis using nx yields by (simp add: cursor_yields_def)
  next
    case (Cons e rest)
    have "cursor_ok cx seg cur'" "cursor_rest cx seg cur' = rest" "out = Some e"
      using yields by (simp_all add: cursor_yields_def Cons)
    moreover from this have "read_records cx seg n cur' = Inr (rest, True)"
      using Suc.IH [of cur'] Suc.prems(2) Cons by simp
    ultimately show ?thesis using nx Cons by simp
  qed
qed simp

text \<open>
  (C34) The record cursor of an accepted file makes progress: after one step per record it has
  delivered all records in key and sequence order, and the next step reports the end.
\<close>

theorem cursor_delivers_all:
  assumes "segment_open cx backend img = Inr seg"
  shows "read_records cx seg (length (segment_records cx seg) + 1) cursor_start = Inr (segment_records cx seg, True)"
proof -
  have "length (cursor_rest cx seg cursor_start) < length (segment_records cx seg) + 1" by (simp add: cursor_start_ok(2))
  from read_records_rest [OF segment_open_inv(1) [OF assms] cursor_start_ok(1) this]
  show ?thesis by (simp only: cursor_start_ok(2))
qed

lemma sample_opens:
  "\<exists>img seg. segment_open plain_codec SourceMapped img = Inr seg
    \<and> segment_records plain_codec seg =
        [([1], \<lparr>vv_sequence = 1, vv_value = Some [7]\<rparr>), ([1], \<lparr>vv_sequence = 2, vv_value = None\<rparr>)]"
proof -
  obtain enc where enc: "encode_versions plain_codec sample_versions sample_budget PolicyNone = Inr enc"
    using sample_encodes by blast
  show ?thesis using encode_open [OF plain_codec_ok mapped_backend_ok sample_versions_ok enc]
    unfolding flat_sample by blast
qed


theorem accepted_range_reads_witness:
  "\<exists>img seg es. segment_open plain_codec SourceMapped img = Inr seg \<and> ranges_ok [([0], [2]), ([3], [4])]
    \<and> segment_visible_ranges plain_codec seg [([0], [2]), ([3], [4])] 1 = Inr es
    \<and> map_of es [1] = Some \<lparr>vv_sequence = 1, vv_value = Some [7]\<rparr>"
proof -
  obtain img seg where seg: "segment_open plain_codec SourceMapped img = Inr seg"
    and recs: "segment_records plain_codec seg =
        [([1], \<lparr>vv_sequence = 1, vv_value = Some [7]\<rparr>), ([1], \<lparr>vv_sequence = 2, vv_value = None\<rparr>)]"
    using sample_opens by blast
  have ok: "ranges_ok [([0], [2]), ([3], [4])]" by (simp add: ranges_ok_def less_list_code)
  obtain es where es: "segment_visible_ranges plain_codec seg [([0], [2]), ([3], [4])] 1 = Inr es"
    and visible: "\<forall>k v. map_of es k = Some v \<longleftrightarrow> in_ranges [([0], [2]), ([3], [4])] k
      \<and> visible_at (set (segment_records plain_codec seg)) k 1 v"
    using accepted_range_reads [OF seg ok] by blast
  have "in_ranges [([0], [2]), ([3], [4])] [1]" by (simp add: in_ranges_def less_list_code less_eq_list_code)
  moreover have "visible_at (set (segment_records plain_codec seg)) [1] 1 \<lparr>vv_sequence = 1, vv_value = Some [7]\<rparr>"
    by (auto simp: recs visible_at_def)
  ultimately have "map_of es [1] = Some \<lparr>vv_sequence = 1, vv_value = Some [7]\<rparr>" using visible by blast
  with seg ok es show ?thesis by blast
qed

theorem cursor_delivers_all_witness:
  "\<exists>img seg. segment_open plain_codec SourceMapped img = Inr seg
    \<and> read_records plain_codec seg 3 cursor_start = Inr
        ([([1], \<lparr>vv_sequence = 1, vv_value = Some [7]\<rparr>), ([1], \<lparr>vv_sequence = 2, vv_value = None\<rparr>)], True)"
proof -
  obtain img seg where seg: "segment_open plain_codec SourceMapped img = Inr seg"
    and recs: "segment_records plain_codec seg =
        [([1], \<lparr>vv_sequence = 1, vv_value = Some [7]\<rparr>), ([1], \<lparr>vv_sequence = 2, vv_value = None\<rparr>)]"
    using sample_opens by blast
  have "length (segment_records plain_codec seg) + 1 = 3" by (simp add: recs)
  with cursor_delivers_all [OF seg] seg recs show ?thesis by metis
qed

section \<open>Reopening by descriptor\<close>

text \<open>A manifest names a segment by its descriptor; the reopened segment has the records of the audited one.\<close>

lemma load_row_group_cong:
  "sg_source s = sg_source s' \<Longrightarrow> sg_row_groups s = sg_row_groups s' \<Longrightarrow> load_row_group cx s i = load_row_group cx s' i"
  by (simp add: load_row_group_def load_key_spine_def load_value_columns_def load_page_def)

lemma seg_inv_level:
  fixes seg :: segment and level :: nat
  assumes "seg_inv cx seg"
  defines "seg' \<equiv> seg\<lparr>sg_descriptor := (sg_descriptor seg)\<lparr>sd_level := level\<rparr>\<rparr>"
  shows "segment_records cx seg' = segment_records cx seg" and "seg_inv cx seg'"
proof -
  have load: "load_row_group cx seg' i = load_row_group cx seg i" for i
    by (rule load_row_group_cong) (simp_all add: seg'_def)
  have groups: "sg_row_groups seg' = sg_row_groups seg" by (simp add: seg'_def)
  have recs: "group_records cx seg' i = group_records cx seg i" for i
    unfolding group_records_def load groups ..
  have ok: "group_described cx seg' i \<longleftrightarrow> group_described cx seg i" for i
    by (simp add: group_described_def group_ok_def recs load groups)
  show all: "segment_records cx seg' = segment_records cx seg" by (simp add: segment_records_def ext [OF recs] groups)
  show "seg_inv cx seg'" using assms(1) unfolding seg_inv_def segment_rows_def all ok groups by (simp add: seg'_def)
qed

lemma open_expected_audited:
  assumes "segment_open cx backend img = Inr seg" and "segment_open_expected cx backend img d = Inr seg'"
  shows "seg' = seg\<lparr>sg_descriptor := d\<rparr>" and "seg_inv cx seg'" and "segment_records cx seg' = segment_records cx seg"
    and "d = (sg_descriptor seg)\<lparr>sd_level := sd_level d\<rparr>"
proof -
  from assms(1) obtain checksum md where c: "verify_file_digest cx img = Inr checksum" "parse_metadata img checksum = Inr md"
    and seg: "seg = build_segment md (backend img)"
    by (auto simp: segment_open_def rbind_Inr Let_def)
  let ?seg = "seg\<lparr>sg_descriptor := (sg_descriptor seg)\<lparr>sd_level := sd_level d\<rparr>\<rparr>"
  have "seg' = ?seg \<and> sg_descriptor ?seg = d"
    using assms(2) c by (auto simp: segment_open_expected_def rbind_Inr Let_def seg fail_if_Inr)
  then have seg': "seg' = ?seg" and d: "d = (sg_descriptor seg)\<lparr>sd_level := sd_level d\<rparr>" by auto
  show "d = (sg_descriptor seg)\<lparr>sd_level := sd_level d\<rparr>" by (rule d)
  show "seg' = seg\<lparr>sg_descriptor := d\<rparr>" using seg' d by metis
  show "seg_inv cx seg'" unfolding seg' by (rule seg_inv_level(2) [OF segment_open_inv(1) [OF assms(1)]])
  show "segment_records cx seg' = segment_records cx seg"
    unfolding seg' by (rule seg_inv_level(1) [OF segment_open_inv(1) [OF assms(1)]])
qed

end
