(* ===== verification/Point_Index.thy ===== *)
theory Point_Index
  imports Segment_Format "HOL-Library.Product_Lexorder"
begin

text \<open>
  The point-read index over the current segments (\<open>rrd-lsm/src/database/point_index.rs\<close>): an
  implicit balanced interval tree. The nodes are sorted by first key, the middle of a slice is the
  root of its subtree, and every node knows the ordinal of the segment with the greatest last key
  below it. The search hands exactly the segments whose key range contains the key to its callback,
  and on disjoint segments it looks at logarithmically many nodes.
\<close>

section \<open>Nodes\<close>

record index_node =
  nd_segment :: nat
  nd_furthest_end :: nat

text \<open>
  \<open>furthest\<close>: the loop over the candidates of the two subtrees, starting from the root's own segment.
\<close>

definition furthest_of :: "(nat \<Rightarrow> segment_descriptor) \<Rightarrow> nat \<Rightarrow> nat option list \<Rightarrow> nat" where
  "furthest_of descriptor root candidates =
     foldl (\<lambda>furthest candidate.
         if sd_last_key (descriptor candidate) > sd_last_key (descriptor furthest) then candidate else furthest)
       root (List.map_filter id candidates)"

function augment :: "(nat \<Rightarrow> segment_descriptor) \<Rightarrow> index_node list \<Rightarrow> index_node list \<times> nat option" where
  "augment descriptor nodes =
     (let middle = length nodes div 2 in
      case drop middle nodes of
        [] \<Rightarrow> (nodes, None)
      | root # right \<Rightarrow>
          let (left', furthest_left) = augment descriptor (take middle nodes);
              (right', furthest_right) = augment descriptor right;
              furthest = furthest_of descriptor (nd_segment root) [furthest_left, furthest_right]
          in (left' @ root\<lparr>nd_furthest_end := furthest\<rparr> # right', Some furthest))"
  by pat_completeness auto

lemma split_middle_lengths:
  assumes "drop (length xs div 2) xs = x # ys"
  shows "length (take (length xs div 2) xs) < length xs" and "length ys < length xs"
    and "xs = take (length xs div 2) xs @ x # ys"
proof -
  have "length (drop (length xs div 2) xs) = Suc (length ys)" using assms by simp
  then show "length ys < length xs" "length (take (length xs div 2) xs) < length xs" by auto
  show "xs = take (length xs div 2) xs @ x # ys"
    using append_take_drop_id [of "length xs div 2" xs] assms by simp
qed

termination augment
  by (relation "measure (\<lambda>(descriptor, nodes). length nodes)") (auto dest: split_middle_lengths)

text \<open>The ordinals are distinct, so the unstable sort has one result: the nodes by first key and ordinal.\<close>

definition point_index_new :: "segment_descriptor list \<Rightarrow> index_node list" where
  "point_index_new descriptors =
     (let nodes = map (\<lambda>segment. \<lparr>nd_segment = segment, nd_furthest_end = segment\<rparr>) [0..<length descriptors];
          nodes = sort_key (\<lambda>a. (sd_first_key (descriptors ! nd_segment a), nd_segment a)) nodes
      in fst (augment (\<lambda>i. descriptors ! i) nodes))"

section \<open>Search\<close>

text \<open>The callback is a function on the state it captures; the visited nodes are counted.\<close>

function walk ::
  "index_node list \<Rightarrow> (nat \<Rightarrow> segment_descriptor) \<Rightarrow> bytes \<Rightarrow> ('s \<Rightarrow> nat \<Rightarrow> 's res) \<Rightarrow> 's \<Rightarrow> (nat \<times> 's) res" where
  "walk nodes descriptor key candidate st =
     (let middle = length nodes div 2 in
      case drop middle nodes of
        [] \<Rightarrow> Inr (0, st)
      | root # right \<Rightarrow>
          if sd_last_key (descriptor (nd_furthest_end root)) < key then Inr (1, st)
          else
            rbind (walk (take middle nodes) descriptor key candidate st) (\<lambda>(left_visited, st).
            let visited = 1 + left_visited; bounds = descriptor (nd_segment root) in
            if sd_first_key bounds \<le> key then
              rbind (if key \<le> sd_last_key bounds then candidate st (nd_segment root) else Inr st) (\<lambda>st.
              rbind (walk right descriptor key candidate st) (\<lambda>(right_visited, st).
              Inr (visited + right_visited, st)))
            else Inr (visited, st)))"
  by pat_completeness auto

termination walk
  by (relation "measure (\<lambda>(nodes, descriptor, key, candidate, st). length nodes)") (auto dest: split_middle_lengths)

definition point_index_visit ::
  "index_node list \<Rightarrow> (nat \<Rightarrow> segment_descriptor) \<Rightarrow> bytes \<Rightarrow> ('s \<Rightarrow> nat \<Rightarrow> 's res) \<Rightarrow> 's \<Rightarrow> (nat \<times> 's) res" where
  "point_index_visit nodes descriptor key candidate st = walk nodes descriptor key candidate st"

declare augment.simps [simp del] walk.simps [simp del]

text \<open>Recursion equations along the split at the middle, and the induction they give.\<close>

lemma middle_append: "length l = (length l + Suc (length r)) div 2 \<Longrightarrow>
    take (length (l @ x # r) div 2) (l @ x # r) = l \<and> drop (length (l @ x # r) div 2) (l @ x # r) = x # r"
  by simp

lemma middle_induct [case_names Nil Node]:
  assumes nil: "P []"
    and node: "\<And>l x r. length l = (length l + Suc (length r)) div 2 \<Longrightarrow> P l \<Longrightarrow> P r \<Longrightarrow> P (l @ x # r)"
  shows "P xs"
proof (induction xs rule: length_induct)
  case (1 xs)
  show ?case
  proof (cases "drop (length xs div 2) xs")
    case Nil
    then have "xs = []" by (cases xs) auto
    then show ?thesis using nil by simp
  next
    case (Cons x r)
    let ?l = "take (length xs div 2) xs"
    note lens = split_middle_lengths [OF Cons]
    have "length xs = length ?l + Suc (length r)" using arg_cong [OF lens(3), of length] by simp
    moreover have "length ?l = length xs div 2" by simp
    ultimately have "length ?l = (length ?l + Suc (length r)) div 2" by simp
    then have "P (?l @ x # r)" by (rule node) (use 1 lens in blast)+
    then show ?thesis using lens(3) by simp
  qed
qed

lemma augment_Nil: "augment descriptor [] = ([], None)"
  by (simp add: augment.simps)

lemma augment_node:
  assumes "length l = (length l + Suc (length r)) div 2"
    and "augment descriptor l = (l', fl)" and "augment descriptor r = (r', fr)"
  shows "augment descriptor (l @ x # r) =
    (l' @ x\<lparr>nd_furthest_end := furthest_of descriptor (nd_segment x) [fl, fr]\<rparr> # r',
     Some (furthest_of descriptor (nd_segment x) [fl, fr]))"
  using middle_append [OF assms(1), of x] assms(2,3) by (subst augment.simps) (simp add: Let_def)

lemma walk_Nil: "walk [] descriptor key candidate st = Inr (0, st)"
  by (simp add: walk.simps)

lemma walk_node:
  assumes "length l = (length l + Suc (length r)) div 2"
  shows "walk (l @ x # r) descriptor key candidate st =
    (if sd_last_key (descriptor (nd_furthest_end x)) < key then Inr (1, st)
     else rbind (walk l descriptor key candidate st) (\<lambda>(a, st).
       if sd_first_key (descriptor (nd_segment x)) \<le> key then
         rbind (if key \<le> sd_last_key (descriptor (nd_segment x)) then candidate st (nd_segment x) else Inr st) (\<lambda>st.
         rbind (walk r descriptor key candidate st) (\<lambda>(b, st). Inr (Suc a + b, st)))
       else Inr (Suc a, st)))"
  using middle_append [OF assms, of x] by (subst walk.simps) (simp add: Let_def)

section \<open>What the augmentation establishes\<close>

definition covers :: "segment_descriptor \<Rightarrow> bytes \<Rightarrow> bool" where
  "covers d key \<longleftrightarrow> sd_first_key d \<le> key \<and> key \<le> sd_last_key d"

lemma furthest_of_spec:
  "furthest_of d i cs \<in> insert i {j. Some j \<in> set cs}
   \<and> (\<forall>j \<in> insert i {j. Some j \<in> set cs}. sd_last_key (d j) \<le> sd_last_key (d (furthest_of d i cs)))"
proof (induction cs rule: rev_induct)
  case (snoc c cs)
  then show ?case
    by (cases c) (auto simp: furthest_of_def map_filter_def intro: order_trans)
qed (simp add: furthest_of_def map_filter_def)

lemma augment_spec:
  assumes "augment d ns = (ns', f)"
  shows "map nd_segment ns' = map nd_segment ns"
    and "ns = [] \<Longrightarrow> f = None"
    and "ns \<noteq> [] \<Longrightarrow> \<exists>g. f = Some g \<and> g \<in> nd_segment ` set ns
      \<and> (\<forall>n \<in> set ns. sd_last_key (d (nd_segment n)) \<le> sd_last_key (d g))"
  using assms
proof (induction ns arbitrary: ns' f rule: middle_induct)
  case (Node l x r)
  obtain l' fl r' fr where l: "augment d l = (l', fl)" and r: "augment d r = (r', fr)" by fastforce
  let ?g = "furthest_of d (nd_segment x) [fl, fr]"
  have split: "augment d (l @ x # r) = (l' @ x\<lparr>nd_furthest_end := ?g\<rparr> # r', Some ?g)"
    by (rule augment_node [OF Node.hyps(1) l r])
  {
    case 1
    then show ?case using split Node.IH(1) [OF l] Node.IH(4) [OF r] by auto
  next
    case 3
    have g: "f = Some ?g" using 3 split by simp
    have left: "l \<noteq> [] \<Longrightarrow> \<exists>g. fl = Some g \<and> g \<in> nd_segment ` set l
      \<and> (\<forall>n \<in> set l. sd_last_key (d (nd_segment n)) \<le> sd_last_key (d g))" by (rule Node.IH(3) [OF _ l])
    have right: "r \<noteq> [] \<Longrightarrow> \<exists>g. fr = Some g \<and> g \<in> nd_segment ` set r
      \<and> (\<forall>n \<in> set r. sd_last_key (d (nd_segment n)) \<le> sd_last_key (d g))" by (rule Node.IH(6) [OF _ r])
    have members: "{j. Some j \<in> set [fl, fr]} \<subseteq> nd_segment ` (set l \<union> set r)"
      using left right Node.IH(2) [OF _ l] Node.IH(5) [OF _ r] by (cases "l = []"; cases "r = []") auto
    note spec = furthest_of_spec [of d "nd_segment x" "[fl, fr]"]
    have "sd_last_key (d (nd_segment n)) \<le> sd_last_key (d ?g)" if n: "n \<in> set (l @ x # r)" for n
    proof -
      consider "n \<in> set l" | "n = x" | "n \<in> set r" using n by auto
      then show ?thesis
      proof cases
        case 1
        then have "l \<noteq> []" by auto
        with 1 obtain g where "fl = Some g" "sd_last_key (d (nd_segment n)) \<le> sd_last_key (d g)" using left by blast
        then show ?thesis using spec by (auto intro: order_trans)
      next
        case 3
        then have "r \<noteq> []" by auto
        with 3 obtain g where "fr = Some g" "sd_last_key (d (nd_segment n)) \<le> sd_last_key (d g)" using right by blast
        then show ?thesis using spec by (auto intro: order_trans)
      qed (use spec in auto)
    qed
    moreover have "?g \<in> nd_segment ` set (l @ x # r)" using spec members by auto
    ultimately show ?case using g by blast
  }
qed (simp_all add: augment_Nil)


lemma augment_node_cases:
  assumes "length l = (length l + Suc (length r)) div 2"
  obtains l' x' r' where "fst (augment d (l @ x # r)) = l' @ x' # r'" and "l' = fst (augment d l)" and "r' = fst (augment d r)"
    and "length l' = (length l' + Suc (length r')) div 2" and "nd_segment x' = nd_segment x"
    and "\<forall>key. sd_last_key (d (nd_furthest_end x')) < key \<longleftrightarrow> (\<forall>n \<in> set (l @ x # r). sd_last_key (d (nd_segment n)) < key)"
proof -
  obtain l' fl r' fr where l: "augment d l = (l', fl)" and r: "augment d r = (r', fr)" by fastforce
  let ?g = "furthest_of d (nd_segment x) [fl, fr]"
  have split: "augment d (l @ x # r) = (l' @ x\<lparr>nd_furthest_end := ?g\<rparr> # r', Some ?g)"
    by (rule augment_node [OF assms l r])
  have "length l' = length l" "length r' = length r"
    using augment_spec(1) [OF l] augment_spec(1) [OF r] by (metis length_map)+
  moreover have "sd_last_key (d ?g) < key \<longleftrightarrow> (\<forall>n \<in> set (l @ x # r). sd_last_key (d (nd_segment n)) < key)" for key
    using augment_spec(3) [OF split] by (auto intro: le_less_trans)
  moreover have "nd_segment (x\<lparr>nd_furthest_end := ?g\<rparr>) = nd_segment x" "nd_furthest_end (x\<lparr>nd_furthest_end := ?g\<rparr>) = ?g"
    by simp_all
  ultimately show ?thesis
    by (intro that [of l' "x\<lparr>nd_furthest_end := ?g\<rparr>" r']) (simp_all only: split l r fst_conv assms [symmetric] simp_thms)
qed

section \<open>The search is exact\<close>

abbreviation search_hits :: "(nat \<Rightarrow> segment_descriptor) \<Rightarrow> bytes \<Rightarrow> index_node list \<Rightarrow> nat list" where
  "search_hits d key ns \<equiv> filter (\<lambda>i. covers (d i) key) (map nd_segment ns)"

lemma walk_exact:
  assumes "sorted (map (\<lambda>n. sd_first_key (d (nd_segment n))) ns)"
  shows "rbind (walk (fst (augment d ns)) d key candidate st) (\<lambda>(visited, st). Inr st)
    = try_fold candidate st (search_hits d key ns)"
  using assms
proof (induction ns arbitrary: st rule: middle_induct)
  case (Node l x r)
  obtain l' x' r' where split: "fst (augment d (l @ x # r)) = l' @ x' # r'" "l' = fst (augment d l)" "r' = fst (augment d r)"
    "length l' = (length l' + Suc (length r')) div 2" "nd_segment x' = nd_segment x"
    and pruned: "\<forall>key. sd_last_key (d (nd_furthest_end x')) < key \<longleftrightarrow> (\<forall>n \<in> set (l @ x # r). sd_last_key (d (nd_segment n)) < key)"
    by (rule augment_node_cases [OF Node.hyps(1), of d x]) (rule that, assumption+)
  have left: "rbind (walk l' d key candidate st) (\<lambda>(visited, st). Inr st) = try_fold candidate st (search_hits d key l)" for st
    using Node.IH(1) Node.prems by (simp add: split sorted_append)
  have right: "rbind (walk r' d key candidate st) (\<lambda>(visited, st). Inr st) = try_fold candidate st (search_hits d key r)" for st
    using Node.IH(2) Node.prems by (simp add: split sorted_append)
  have none: "search_hits d key (l @ x # r) = []" if "sd_last_key (d (nd_furthest_end x')) < key"
  proof -
    have "\<not> covers (d (nd_segment n)) key" if "n \<in> set (l @ x # r)" for n
    proof -
      have "sd_last_key (d (nd_segment n)) < key" using pruned \<open>sd_last_key (d (nd_furthest_end x')) < key\<close> that by blast
      then show ?thesis by (auto simp: covers_def dest: leD)
    qed
    then show ?thesis by (auto simp: filter_empty_conv)
  qed
  have later: "search_hits d key r = []" if "\<not> sd_first_key (d (nd_segment x)) \<le> key"
    using that Node.prems by (auto simp: covers_def filter_empty_conv sorted_append dest: order_trans)
  show ?case
  proof (cases "sd_last_key (d (nd_furthest_end x')) < key")
    case True
    then show ?thesis using none by (simp add: split(1) walk_node [OF split(4)])
  next
    case False
    show ?thesis
    proof (cases "walk l' d key candidate st")
      case (Inl e)
      then show ?thesis using left [of st] False by (simp add: split(1) walk_node [OF split(4)] try_fold_append flip: left)
    next
      case (Inr p)
      obtain a st' where p: "p = (a, st')" by (cases p)
      have l: "try_fold candidate st (search_hits d key l) = Inr st'" using left [of st] Inr p by simp
      show ?thesis
      proof (cases "sd_first_key (d (nd_segment x)) \<le> key")
        case True
        have tail: "rbind (rbind (walk r' d key candidate st) (\<lambda>(b, st). Inr (Suc (a + b), st))) (\<lambda>(visited, st). Inr st)
            = try_fold candidate st (search_hits d key r)" for st
          by (cases "walk r' d key candidate st") (auto simp flip: right)
        have "covers (d (nd_segment x)) key \<longleftrightarrow> key \<le> sd_last_key (d (nd_segment x))" using True by (simp add: covers_def)
        then show ?thesis
          using False True Inr p l
          by (cases "candidate st' (nd_segment x)") (simp_all add: split(1,5) walk_node [OF split(4)] try_fold_append tail)
      next
        case not: False
        then show ?thesis
          using False Inr p l later by (simp add: split(1,5) walk_node [OF split(4)] try_fold_append covers_def)
      qed
    qed
  qed
qed (simp add: augment_Nil walk_Nil)

section \<open>The search is logarithmic on disjoint segments\<close>

lemma walk_pruned:
  assumes "\<And>n. n \<in> set ns \<Longrightarrow> sd_last_key (d (nd_segment n)) < key"
  shows "\<exists>v \<le> 1. walk (fst (augment d ns)) d key candidate st = Inr (v, st)"
  using assms
proof (induction ns rule: middle_induct)
  case (Node l x r)
  obtain l' x' r' where split: "fst (augment d (l @ x # r)) = l' @ x' # r'" "length l' = (length l' + Suc (length r')) div 2"
    and pruned: "\<forall>key. sd_last_key (d (nd_furthest_end x')) < key \<longleftrightarrow> (\<forall>n \<in> set (l @ x # r). sd_last_key (d (nd_segment n)) < key)"
    by (rule augment_node_cases [OF Node.hyps(1), of d x]) (rule that, assumption+)
  have "sd_last_key (d (nd_furthest_end x')) < key" using pruned Node.prems by blast
  then show ?case unfolding split(1) walk_node [OF split(2)] by simp
qed (simp add: augment_Nil walk_Nil)

lemma walk_visits:
  assumes "sorted_wrt (\<lambda>m n. sd_last_key (d (nd_segment m)) < sd_first_key (d (nd_segment n))) ns"
    and "length ns < 2 ^ h"
    and "walk (fst (augment d ns)) d key candidate st = Inr (visited, st')"
  shows "visited \<le> 2 * h"
  using assms
proof (induction ns arbitrary: st st' visited h rule: middle_induct)
  case (Node l x r)
  obtain l' x' r' where split: "fst (augment d (l @ x # r)) = l' @ x' # r'" "l' = fst (augment d l)" "r' = fst (augment d r)"
    "length l' = (length l' + Suc (length r')) div 2" "nd_segment x' = nd_segment x"
    by (rule augment_node_cases [OF Node.hyps(1), of d x]) (rule that, assumption+)
  obtain k where h: "h = Suc k" using Node.prems(2) by (cases h) auto
  have sizes: "length l < 2 ^ k" "length r < 2 ^ k"
    using Node.prems(2) Node.hyps(1) unfolding h by (auto simp: power_Suc)
  have ordered: "sorted_wrt (\<lambda>m n. sd_last_key (d (nd_segment m)) < sd_first_key (d (nd_segment n))) l"
      "sorted_wrt (\<lambda>m n. sd_last_key (d (nd_segment m)) < sd_first_key (d (nd_segment n))) r"
      "\<And>n. n \<in> set l \<Longrightarrow> sd_last_key (d (nd_segment n)) < sd_first_key (d (nd_segment x))"
    using Node.prems(1) by (auto simp: sorted_wrt_append)
  show ?case
  proof (cases "sd_last_key (d (nd_furthest_end x')) < key")
    case True
    then have "visited = 1" using Node.prems(3) unfolding split(1) walk_node [OF split(4)] by simp
    then show ?thesis by (simp add: h)
  next
    case False
    note run = Node.prems(3) [unfolded split(1) walk_node [OF split(4)] if_not_P [OF False]]
    from run obtain a st1 where a: "walk l' d key candidate st = Inr (a, st1)" by (auto simp: rbind_Inr)
    have bound_l: "a \<le> 2 * k" by (rule Node.IH(1) [OF ordered(1) sizes(1)]) (use a split in simp)
    show ?thesis
    proof (cases "sd_first_key (d (nd_segment x)) \<le> key")
      case True
      have "\<exists>v \<le> 1. walk l' d key candidate st = Inr (v, st)"
        unfolding split(2) by (rule walk_pruned) (use ordered(3) True in force)
      then have "a \<le> 1" using a by auto
      moreover from run a True obtain b st2 where "walk r' d key candidate st2 = Inr (b, st')" "visited = Suc a + b"
        by (auto simp: rbind_Inr split(5))
      moreover from this have "b \<le> 2 * k" by (intro Node.IH(2) [OF ordered(2) sizes(2)]) (use split in simp)
      ultimately show ?thesis by (simp add: h)
    next
      case not: False
      then have "visited = Suc a" using run a by (simp add: split(5))
      then show ?thesis using bound_l by (simp add: h)
    qed
  qed
qed (simp add: augment_Nil walk_Nil)

section \<open>The index of a segment set\<close>

lemma map_insort_key: "map h (insort_key (\<lambda>a. f (h a)) x xs) = insort_key f (h x) (map h xs)"
  by (induction xs) auto

lemma map_sort_key: "map h (sort_key (\<lambda>a. f (h a)) xs) = sort_key f (map h xs)"
  by (induction xs) (simp_all add: map_insort_key)

definition by_first_key :: "segment_descriptor list \<Rightarrow> nat list" where
  "by_first_key ds = sort_key (\<lambda>i. (sd_first_key (ds ! i), i)) [0..<length ds]"

lemma point_index_nodes:
  obtains ns where "point_index_new ds = fst (augment ((!) ds) ns)" and "map nd_segment ns = by_first_key ds"
proof -
  let ?nodes = "map (\<lambda>i. \<lparr>nd_segment = i, nd_furthest_end = i\<rparr>) [0..<length ds]"
  let ?ns = "sort_key (\<lambda>a. (sd_first_key (ds ! nd_segment a), nd_segment a)) ?nodes"
  have "map nd_segment ?ns = sort_key (\<lambda>i. (sd_first_key (ds ! i), i)) (map nd_segment ?nodes)"
    by (rule map_sort_key)
  then show ?thesis by (intro that [of ?ns]) (simp_all add: point_index_new_def by_first_key_def comp_def)
qed

lemma by_first_key_sorted: "sorted (map (\<lambda>i. sd_first_key (ds ! i)) (by_first_key ds))"
proof -
  have "sorted (map (\<lambda>i. (sd_first_key (ds ! i), i)) (by_first_key ds))"
    unfolding by_first_key_def by (rule sorted_sort_key)
  then have "sorted_wrt (\<lambda>i j. (sd_first_key (ds ! i), i) \<le> (sd_first_key (ds ! j), j)) (by_first_key ds)"
    by (simp add: sorted_map)
  then have "sorted_wrt (\<lambda>i j. sd_first_key (ds ! i) \<le> sd_first_key (ds ! j)) (by_first_key ds)"
    by (rule sorted_wrt_mono_rel [rotated]) auto
  then show ?thesis by (simp add: sorted_map)
qed

lemma set_by_first_key: "set (by_first_key ds) = {..<length ds}" and distinct_by_first_key: "distinct (by_first_key ds)"
  by (auto simp: by_first_key_def)

definition ranges_disjoint :: "segment_descriptor list \<Rightarrow> bool" where
  "ranges_disjoint ds \<longleftrightarrow> (\<forall>d \<in> set ds. sd_first_key d \<le> sd_last_key d)
     \<and> (\<forall>i < length ds. \<forall>j < length ds. i \<noteq> j \<longrightarrow>
          sd_last_key (ds ! i) < sd_first_key (ds ! j) \<or> sd_last_key (ds ! j) < sd_first_key (ds ! i))"

lemma disjoint_by_first_key:
  assumes "ranges_disjoint ds"
  shows "sorted_wrt (\<lambda>i j. sd_last_key (ds ! i) < sd_first_key (ds ! j)) (by_first_key ds)"
proof -
  have "sorted_wrt (\<lambda>i j. i \<noteq> j \<and> sd_first_key (ds ! i) \<le> sd_first_key (ds ! j)) (by_first_key ds)"
    using by_first_key_sorted [of ds] distinct_by_first_key [of ds]
    by (auto simp: sorted_map distinct_conv_nth sorted_wrt_iff_nth_less)
  then show ?thesis
  proof (rule sorted_wrt_mono_rel [rotated])
    fix i j
    assume members: "i \<in> set (by_first_key ds)" "j \<in> set (by_first_key ds)"
      and ij: "i \<noteq> j \<and> sd_first_key (ds ! i) \<le> sd_first_key (ds ! j)"
    then have bounds: "i < length ds" "j < length ds" by (simp_all add: set_by_first_key)
    then have "sd_first_key (ds ! j) \<le> sd_last_key (ds ! j)" using assms by (simp add: ranges_disjoint_def)
    with ij have "\<not> sd_last_key (ds ! j) < sd_first_key (ds ! i)" by (meson leD order_trans)
    then show "sd_last_key (ds ! i) < sd_first_key (ds ! j)"
      using assms bounds ij unfolding ranges_disjoint_def by blast
  qed
qed

lemma point_index_fold:
  "rbind (point_index_visit (point_index_new ds) (\<lambda>i. ds ! i) key candidate st) (\<lambda>(visited, st). Inr st)
    = try_fold candidate st (filter (\<lambda>i. covers (ds ! i) key) (by_first_key ds))"
proof -
  obtain ns where ns: "point_index_new ds = fst (augment ((!) ds) ns)" "map nd_segment ns = by_first_key ds"
    by (rule point_index_nodes)
  have "sorted (map (\<lambda>n. sd_first_key (ds ! nd_segment n)) ns)"
    using by_first_key_sorted [of ds] by (simp add: comp_def flip: ns(2))
  from walk_exact [OF this, of key candidate st] show ?thesis by (simp add: ns point_index_visit_def)
qed

text \<open>
  (C21) The index answers as an exhaustive search does: the callback sees exactly the segments whose
  inclusive key range contains the key, in the order of their first keys, each once, and its first
  error is the result of the search.
\<close>

theorem point_index_exact:
  "rbind (point_index_visit (point_index_new ds) (\<lambda>i. ds ! i) key candidate st) (\<lambda>(visited, st). Inr st)
    = try_fold candidate st (filter (\<lambda>i. covers (ds ! i) key) (by_first_key ds))"
  by (rule point_index_fold)

text \<open>
  (C22) A search over disjoint segments terminates after a logarithmic number of nodes: with fewer
  than \<open>2 ^ h\<close> segments and a callback that does not fail it returns, and it has looked at no more
  than \<open>2 h\<close> nodes.
\<close>

theorem point_index_logarithmic:
  assumes "ranges_disjoint ds" and "length ds < 2 ^ h"
  shows "\<exists>visited. point_index_visit (point_index_new ds) (\<lambda>i. ds ! i) key (\<lambda>st i. Inr (f st i)) st
      = Inr (visited, foldl f st (filter (\<lambda>i. covers (ds ! i) key) (by_first_key ds)))
    \<and> visited \<le> 2 * h"
proof -
  obtain ns where ns: "point_index_new ds = fst (augment ((!) ds) ns)" "map nd_segment ns = by_first_key ds"
    by (rule point_index_nodes)
  have sorted: "sorted (map (\<lambda>n. sd_first_key (ds ! nd_segment n)) ns)"
    using by_first_key_sorted [of ds] by (simp add: comp_def flip: ns(2))
  have "rbind (walk (fst (augment ((!) ds) ns)) ((!) ds) key (\<lambda>st i. Inr (f st i)) st) (\<lambda>(visited, st). Inr st)
    = Inr (foldl f st (filter (\<lambda>i. covers (ds ! i) key) (by_first_key ds)))"
    unfolding walk_exact [OF sorted] ns(2) by (rule try_fold_foldl) simp
  then obtain visited where run: "walk (fst (augment ((!) ds) ns)) ((!) ds) key (\<lambda>st i. Inr (f st i)) st
      = Inr (visited, foldl f st (filter (\<lambda>i. covers (ds ! i) key) (by_first_key ds)))"
    by (auto simp: rbind_Inr)
  have "sorted_wrt (\<lambda>m n. sd_last_key (ds ! nd_segment m) < sd_first_key (ds ! nd_segment n)) ns"
    using disjoint_by_first_key [OF assms(1)] by (simp add: sorted_wrt_map flip: ns(2))
  moreover have "length ns < 2 ^ h"
    using assms(2) arg_cong [OF ns(2), of length] by (simp add: by_first_key_def)
  ultimately have "visited \<le> 2 * h" using run by (rule walk_visits)
  with run show ?thesis by (auto simp: ns(1) point_index_visit_def)
qed

definition sample_range :: "bytes \<Rightarrow> bytes \<Rightarrow> segment_descriptor" where
  "sample_range a b = \<lparr>sd_id = '''', sd_level = 0, sd_format_version = 0, sd_schema_digest = '''',
     sd_key_codec_digest = '''', sd_page_format_digest = '''', sd_first_key = a, sd_last_key = b,
     sd_minimum_sequence = 1, sd_maximum_sequence = 1, sd_entries = 1, sd_bytes = 1, sd_checksum = ''''\<rparr>"

theorem point_index_logarithmic_witness:
  "\<exists>visited. point_index_visit (point_index_new [sample_range [5] [6], sample_range [1] [2], sample_range [3] [4]])
      (\<lambda>i. [sample_range [5] [6], sample_range [1] [2], sample_range [3] [4]] ! i) [4] (\<lambda>st i. Inr (st @ [i])) []
      = Inr (visited, [2]) \<and> visited \<le> 4"
proof -
  let ?ds = "[sample_range [5] [6], sample_range [1] [2], sample_range [3] [4]]"
  have "ranges_disjoint ?ds"
    by (simp add: ranges_disjoint_def sample_range_def less_Suc_eq less_list_code less_eq_list_code all_conj_distrib)
  moreover have "length ?ds < 2 ^ 2" by simp
  moreover have "filter (\<lambda>i. covers (?ds ! i) [4]) (by_first_key ?ds) = [2]"
    by (simp add: by_first_key_def covers_def sample_range_def upt_rec less_list_code less_eq_list_code)
  ultimately show ?thesis using point_index_logarithmic [of ?ds 2 "[4]" "\<lambda>st i. st @ [i]" "[]"] by simp
qed

end
