(* ===== verification/Maintenance_Limits.thy ===== *)
theory Maintenance_Limits
  imports Recovery_Budget
begin

text \<open>
  Admission of maintenance work: the hard bounds of flush and compaction
  (\<open>rrd-lsm/src/maintenance_limits.rs\<close>) and the budget of one reclamation cycle
  (\<open>rrd-lsm/src/reclamation.rs\<close>). A clock reading is an argument; the reclamation budget counts
  its readings, and \<open>clock i\<close> is what the \<open>i\<close>-th one observes, in milliseconds. The answer of
  the file system to opening a metadata file is a \<open>metadata_file\<close>.
\<close>

section \<open>Flush and compaction\<close>

record compaction_limits =
  cl_input_bytes :: nat
  cl_input_logical_bytes :: nat
  cl_input_versions :: nat
  cl_output_segments :: nat
  cl_elapsed_ms :: nat
  cl_l0_segments :: nat

definition compaction_limits_default :: compaction_limits where
  "compaction_limits_default = \<lparr>cl_input_bytes = 1073741824, cl_input_logical_bytes = 268435456,
     cl_input_versions = 4194304, cl_output_segments = 256, cl_elapsed_ms = 30000, cl_l0_segments = 64\<rparr>"

definition compaction_limits_validate :: "compaction_limits \<Rightarrow> unit res" where
  "compaction_limits_validate l = fail_if
     (cl_input_bytes l = 0 \<or> cl_input_logical_bytes l = 0 \<or> cl_input_versions l = 0
      \<or> cl_output_segments l = 0 \<or> cl_elapsed_ms l = 0 \<or> cl_l0_segments l < 2)
     (InvalidConfiguration ''compaction limits must be positive and L0 capacity at least two'')"

fun maintenance_limit :: "compaction_limits \<Rightarrow> maintenance_resource \<Rightarrow> nat" where
  "maintenance_limit l InputBytes = cl_input_bytes l"
| "maintenance_limit l InputLogicalBytes = cl_input_logical_bytes l"
| "maintenance_limit l InputVersions = cl_input_versions l"
| "maintenance_limit l OutputSegments = cl_output_segments l"
| "maintenance_limit l MaintenanceElapsedMs = cl_elapsed_ms l"
| "maintenance_limit l L0Segments = cl_l0_segments l"

definition maintenance_check :: "compaction_limits \<Rightarrow> maintenance_resource \<Rightarrow> nat \<Rightarrow> unit res" where
  "maintenance_check l resource observed =
     fail_if (observed > maintenance_limit l resource)
       (MaintenanceLimit resource (maintenance_limit l resource) observed)"

definition check_elapsed :: "compaction_limits \<Rightarrow> nat \<Rightarrow> unit res" where
  "check_elapsed l elapsed = maintenance_check l MaintenanceElapsedMs elapsed"

lemma maintenance_check_Inr [rrf_res]:
  "maintenance_check l resource observed = Inr u \<longleftrightarrow> observed \<le> maintenance_limit l resource"
  by (auto simp: maintenance_check_def fail_if_Inr)

lemma check_elapsed_Inr [rrf_res]: "check_elapsed l elapsed = Inr u \<longleftrightarrow> elapsed \<le> cl_elapsed_ms l"
  by (simp add: check_elapsed_def rrf_res)

section \<open>Reclamation\<close>

record reclamation_limits =
  gl_inventory_entries :: nat
  gl_metadata_bytes :: nat
  gl_delete_files :: nat
  gl_delete_bytes :: nat
  gl_elapsed_ms :: nat

definition reclamation_limits_default :: reclamation_limits where
  "reclamation_limits_default = \<lparr>gl_inventory_entries = 262144, gl_metadata_bytes = 67108864,
     gl_delete_files = 1024, gl_delete_bytes = 1073741824, gl_elapsed_ms = 30000\<rparr>"

definition reclamation_limits_validate :: "reclamation_limits \<Rightarrow> unit res" where
  "reclamation_limits_validate l = fail_if
     (gl_inventory_entries l = 0 \<or> gl_metadata_bytes l = 0 \<or> gl_delete_files l = 0
      \<or> gl_delete_bytes l = 0 \<or> gl_elapsed_ms l = 0)
     (InvalidConfiguration ''reclamation limits must be positive'')"

record reclamation_budget =
  gb_limits :: reclamation_limits
  gb_entries :: nat
  gb_metadata_bytes :: nat
  gb_deleted_files :: nat
  gb_deleted_bytes :: nat
  gb_readings :: nat

definition reclamation_new :: "reclamation_limits \<Rightarrow> reclamation_budget" where
  "reclamation_new l = \<lparr>gb_limits = l, gb_entries = 0, gb_metadata_bytes = 0, gb_deleted_files = 0,
     gb_deleted_bytes = 0, gb_readings = 0\<rparr>"

definition reclamation_check :: "reclamation_resource \<Rightarrow> nat \<Rightarrow> nat \<Rightarrow> unit res" where
  "reclamation_check resource limit observed =
     fail_if (observed > limit) (ReclamationLimit resource limit observed)"

definition reclamation_tick :: "(nat \<Rightarrow> nat) \<Rightarrow> reclamation_budget \<Rightarrow> unit res \<times> reclamation_budget" where
  "reclamation_tick clock b =
     (reclamation_check ReclaimElapsedMs (gl_elapsed_ms (gb_limits b)) (clock (gb_readings b)),
      b\<lparr>gb_readings := gb_readings b + 1\<rparr>)"

definition charge_entries :: "(nat \<Rightarrow> nat) \<Rightarrow> nat \<Rightarrow> reclamation_budget \<Rightarrow> reclamation_budget res" where
  "charge_entries clock n b =
     (let (ticked, b) = reclamation_tick clock b in
     rbind ticked (\<lambda>_.
     rbind (ok_or (InvalidManifest ''reclamation inventory overflow'') (checked_add (gb_entries b) n)) (\<lambda>total.
     rbind (reclamation_check ReclaimInventoryEntries (gl_inventory_entries (gb_limits b)) total) (\<lambda>_.
     Inr (b\<lparr>gb_entries := total\<rparr>)))))"

definition reclamation_entry :: "(nat \<Rightarrow> nat) \<Rightarrow> reclamation_budget \<Rightarrow> reclamation_budget res" where
  "reclamation_entry clock b = charge_entries clock 1 b"

text \<open>The subtraction of the remaining metadata bytes panics when it underflows.\<close>

definition read_metadata ::
  "(nat \<Rightarrow> nat) \<Rightarrow> io_error + metadata_file \<Rightarrow> reclamation_budget \<Rightarrow> (bytes \<times> reclamation_budget) res" where
  "read_metadata clock opened b =
     (let (ticked, b) = reclamation_tick clock b; limit = gl_metadata_bytes (gb_limits b) in
     rbind ticked (\<lambda>_.
     rbind (case opened of Inl e \<Rightarrow> Inl (Io e) | Inr file \<Rightarrow> Inr file) (\<lambda>file.
     rbind (fail_if (\<not> mf_regular file)
              (InvalidManifest ''reclamation metadata is not a regular file'')) (\<lambda>_.
     rbind (ok_or (Panic ''attempt to subtract with overflow'') (checked_sub limit (gb_metadata_bytes b))) (\<lambda>remaining.
     rbind (reclamation_check ReclaimMetadataBytes limit
              (saturating_add (gb_metadata_bytes b) (mf_len file))) (\<lambda>_.
     let bytes = take (saturating_add remaining 1) (mf_content file);
         observed = saturating_add (gb_metadata_bytes b) (length bytes) in
     rbind (reclamation_check ReclaimMetadataBytes limit observed) (\<lambda>_.
     rbind (fail_if (length bytes \<noteq> mf_len file)
              (InvalidManifest ''reclamation metadata changed while reading'')) (\<lambda>_.
     let (ticked, b) = reclamation_tick clock (b\<lparr>gb_metadata_bytes := observed\<rparr>) in
     rbind ticked (\<lambda>_. Inr (bytes, b))))))))))"

definition admit_delete :: "(nat \<Rightarrow> nat) \<Rightarrow> nat \<Rightarrow> reclamation_budget \<Rightarrow> (bool \<times> reclamation_budget) res" where
  "admit_delete clock bytes b =
     rbind (reclamation_check ReclaimDeleteBytes (gl_delete_bytes (gb_limits b)) bytes) (\<lambda>_.
     let (ticked, b) = reclamation_tick clock b in
     if ticked \<noteq> Inr () \<or> gb_deleted_files b = gl_delete_files (gb_limits b) then Inr (False, b)
     else
       rbind (ok_or (Panic ''attempt to subtract with overflow'')
                (checked_sub (gl_delete_bytes (gb_limits b)) (gb_deleted_bytes b))) (\<lambda>remaining.
       if bytes > remaining then Inr (False, b)
       else Inr (True, b\<lparr>gb_deleted_files := gb_deleted_files b + 1,
                         gb_deleted_bytes := gb_deleted_bytes b + bytes\<rparr>)))"

text \<open>The admitted totals stay within the limits, and the subtractions never underflow.\<close>

definition reclamation_within :: "reclamation_budget \<Rightarrow> bool" where
  "reclamation_within b \<longleftrightarrow> gb_entries b \<le> gl_inventory_entries (gb_limits b)
     \<and> gb_metadata_bytes b \<le> gl_metadata_bytes (gb_limits b)
     \<and> gb_deleted_files b \<le> gl_delete_files (gb_limits b)
     \<and> gb_deleted_bytes b \<le> gl_delete_bytes (gb_limits b)"

lemma reclamation_new_within: "reclamation_within (reclamation_new l)"
  by (simp add: reclamation_within_def reclamation_new_def)

lemma charge_entries_Inr:
  "charge_entries clock n b = Inr b' \<Longrightarrow> gb_entries b + n \<le> gl_inventory_entries (gb_limits b)
     \<and> b' = b\<lparr>gb_readings := gb_readings b + 1, gb_entries := gb_entries b + n\<rparr>"
  by (auto simp: charge_entries_def reclamation_tick_def reclamation_check_def rrf_res)

lemma charge_entries_within: "reclamation_within b \<Longrightarrow> charge_entries clock n b = Inr b' \<Longrightarrow> reclamation_within b'"
  by (auto dest!: charge_entries_Inr simp: reclamation_within_def)

lemma read_metadata_Inr:
  assumes "read_metadata clock opened b = Inr (bytes, b')"
  obtains f where "opened = Inr f" and "mf_regular f" and "bytes = mf_content f \<or> length bytes < length (mf_content f)"
    and "gb_limits b' = gb_limits b" and "gb_entries b' = gb_entries b" and "gb_deleted_files b' = gb_deleted_files b"
    and "gb_deleted_bytes b' = gb_deleted_bytes b" and "gb_metadata_bytes b' \<le> gl_metadata_bytes (gb_limits b)"
proof -
  obtain f where f: "opened = Inr f" using assms
    by (auto simp: read_metadata_def reclamation_tick_def rbind_Inr split: sum.splits)
  show ?thesis
    using assms
    by (intro that [of f])
      (auto simp: f read_metadata_def reclamation_tick_def reclamation_check_def Let_def rrf_res split: sum.splits)
qed

lemma read_metadata_within: "reclamation_within b \<Longrightarrow> read_metadata clock opened b = Inr (bytes, b') \<Longrightarrow> reclamation_within b'"
  by (auto elim!: read_metadata_Inr simp: reclamation_within_def)

lemma admit_delete_Inr:
  "admit_delete clock bytes b = Inr (admitted, b') \<Longrightarrow>
     b' = (if admitted then b\<lparr>gb_readings := gb_readings b + 1, gb_deleted_files := gb_deleted_files b + 1,
            gb_deleted_bytes := gb_deleted_bytes b + bytes\<rparr> else b\<lparr>gb_readings := gb_readings b + 1\<rparr>)
     \<and> (admitted \<longrightarrow> gb_deleted_files b \<noteq> gl_delete_files (gb_limits b)
          \<and> gb_deleted_bytes b + bytes \<le> gl_delete_bytes (gb_limits b))"
  by (auto simp: admit_delete_def reclamation_tick_def Let_def rrf_res split: if_splits)

lemma admit_delete_within: "reclamation_within b \<Longrightarrow> admit_delete clock bytes b = Inr (admitted, b') \<Longrightarrow> reclamation_within b'"
  by (auto dest!: admit_delete_Inr simp: reclamation_within_def)

lemma reclamation_no_panic:
  assumes "reclamation_within b"
  shows "admit_delete clock bytes b \<noteq> Inl (Panic text)" and "read_metadata clock opened b \<noteq> Inl (Panic text)"
  using assms
  by (auto simp: admit_delete_def read_metadata_def reclamation_tick_def reclamation_check_def reclamation_within_def
      Let_def rrf_res split: if_splits sum.splits)

end
