(* ===== verification/Manifest.thy ===== *)
theory Manifest
  imports Point_Index Maintenance_Limits Segment "HOL-Library.Char_ord"
begin

text \<open>
  The manifest chain (\<open>rrd-lsm/src/manifest.rs\<close>): segment descriptors and manifests with their
  validation, the \<open>CURRENT\<close> pointer, named checkpoints, and the store that publishes manifests by
  compare-and-swap.

  \<open>serde_json\<close> is the argument \<open>json\<close>, a pair of a serializer and a parser per document. A
  directory is a map from names to entries, listed in name order; an entry that is not a regular
  file (a symbolic link, a directory) is \<open>OtherEntry\<close>. Publication by rename answers with a
  \<open>rename_outcome\<close>: a refusal may leave the temporary name behind, and a failure after the rename
  leaves the target in place. A file that is there can be read; the mutex of the checkpoint
  operations is not poisoned.
\<close>

section \<open>Digests\<close>

definition ascii_hexdigit :: "char \<Rightarrow> bool" where
  "ascii_hexdigit c \<longleftrightarrow> c \<in> set ''0123456789abcdefABCDEF''"

definition is_sha256 :: "string \<Rightarrow> bool" where
  "is_sha256 s \<longleftrightarrow> length s = 64 \<and> list_all ascii_hexdigit s"

section \<open>Manifests\<close>

definition MANIFEST_FORMAT_VERSION :: nat where "MANIFEST_FORMAT_VERSION = 3"
definition MANIFEST_CONTROL_FORMAT_VERSION :: nat where "MANIFEST_CONTROL_FORMAT_VERSION = 1"
definition DEFAULT_CHECKPOINT_ENTRIES :: nat where "DEFAULT_CHECKPOINT_ENTRIES = 1024"

definition descriptor_validate :: "segment_descriptor \<Rightarrow> unit res" where
  "descriptor_validate d =
     rbind (fail_if (\<not> is_sha256 (sd_id d) \<or> \<not> is_sha256 (sd_checksum d))
              (InvalidManifest ''segment identity and checksum must be content-addressed SHA-256 values'')) (\<lambda>_.
     rbind (fail_if (sd_format_version d \<noteq> SEGMENT_FORMAT_VERSION)
              (InvalidManifest ''segment uses unsupported physical format'')) (\<lambda>_.
     rbind (try_fold (\<lambda>_ (actual, expected).
              fail_if (\<not> is_sha256 actual \<or> actual \<noteq> expected) (InvalidManifest ''segment has an unknown digest'')) ()
              [(sd_schema_digest d, SEGMENT_SCHEMA_DIGEST), (sd_key_codec_digest d, SEGMENT_KEY_CODEC_DIGEST),
               (sd_page_format_digest d, SEGMENT_PAGE_FORMAT_DIGEST)]) (\<lambda>_.
     rbind (fail_if (sd_first_key d > sd_last_key d) (InvalidManifest ''segment has an inverted key range'')) (\<lambda>_.
     rbind (fail_if (sd_minimum_sequence d = 0 \<or> sd_minimum_sequence d > sd_maximum_sequence d)
              (InvalidManifest ''segment has an invalid sequence range'')) (\<lambda>_.
     fail_if (sd_entries d = 0 \<or> sd_bytes d = 0) (InvalidManifest ''segment must contain entries and bytes''))))))"

record manifest =
  man_format_version :: nat
  man_application_format :: "nat option"
  man_generation :: nat
  man_parent :: "string option"
  man_created_at :: nat
  man_durable_sequence :: nat
  man_wal_start_sequence :: nat
  man_segments :: "segment_descriptor list"
  man_digest :: string

text \<open>The loop over the segments: the identities seen and the last key of every level above zero.\<close>

definition validate_segment ::
  "nat \<Rightarrow> string list \<times> (nat, bytes) btree \<Rightarrow> segment_descriptor \<Rightarrow> (string list \<times> (nat, bytes) btree) res" where
  "validate_segment durable_sequence = (\<lambda>(identities, level_last_keys) d.
     rbind (descriptor_validate d) (\<lambda>_.
     rbind (fail_if (sd_id d \<in> set identities) (InvalidManifest ''segment appears more than once'')) (\<lambda>_.
     rbind (fail_if (sd_maximum_sequence d > durable_sequence)
              (InvalidManifest ''segment extends beyond the durable sequence'')) (\<lambda>_.
     if sd_level d \<noteq> 0 then
       rbind (fail_if (case map_of level_last_keys (sd_level d) of None \<Rightarrow> False | Some last_key \<Rightarrow> last_key \<ge> sd_first_key d)
                (InvalidManifest ''level contains overlapping or unordered segment ranges'')) (\<lambda>_.
       Inr (sd_id d # identities, bt_insert (sd_level d) (sd_last_key d) level_last_keys))
     else Inr (sd_id d # identities, level_last_keys)))))"

definition validate_components :: "manifest \<Rightarrow> unit res" where
  "validate_components m =
     rbind (fail_if (man_generation m = 0) (InvalidManifest ''manifest generation must be greater than zero'')) (\<lambda>_.
     rbind (fail_if (man_wal_start_sequence m > saturating_add (man_durable_sequence m) 1)
              (InvalidManifest ''WAL start cannot skip beyond the durable sequence'')) (\<lambda>_.
     rbind (fail_if (man_generation m = 1 \<and> man_parent m \<noteq> None)
              (InvalidManifest ''the first manifest cannot name a parent'')) (\<lambda>_.
     rbind (fail_if (man_generation m > 1 \<and> (case man_parent m of None \<Rightarrow> True | Some p \<Rightarrow> p = []))
              (InvalidManifest ''later manifests require a parent digest'')) (\<lambda>_.
     rbind (fail_if (case man_parent m of None \<Rightarrow> False | Some p \<Rightarrow> \<not> is_sha256 p)
              (InvalidManifest ''manifest parent must be a SHA-256 digest'')) (\<lambda>_.
     rbind (try_fold (validate_segment (man_durable_sequence m)) ([], []) (man_segments m)) (\<lambda>_.
     Inr ()))))))"

text \<open>The fields a digest covers: all of a manifest but the digest.\<close>

record manifest_content =
  con_format_version :: nat
  con_application_format :: "nat option"
  con_generation :: nat
  con_parent :: "string option"
  con_created_at :: nat
  con_durable_sequence :: nat
  con_wal_start_sequence :: nat
  con_segments :: "segment_descriptor list"

definition content_of :: "manifest \<Rightarrow> manifest_content" where
  "content_of m = \<lparr>con_format_version = man_format_version m, con_application_format = man_application_format m,
     con_generation = man_generation m, con_parent = man_parent m, con_created_at = man_created_at m,
     con_durable_sequence = man_durable_sequence m, con_wal_start_sequence = man_wal_start_sequence m,
     con_segments = man_segments m\<rparr>"

record current_pointer =
  cp_format_version :: nat
  cp_generation :: nat
  cp_manifest :: string
  cp_checksum :: string

record checkpoint =
  ck_format_version :: nat
  ck_name :: string
  ck_manifest :: string
  ck_generation :: nat
  ck_created_at :: nat
  ck_checksum :: string

record json =
  json_content :: "manifest_content \<Rightarrow> bytes res"
  json_manifest :: "manifest \<Rightarrow> bytes res"
  json_read_manifest :: "bytes \<Rightarrow> manifest res"
  json_pointer :: "current_pointer \<Rightarrow> bytes res"
  json_read_pointer :: "bytes \<Rightarrow> current_pointer res"
  json_checkpoint :: "checkpoint \<Rightarrow> bytes res"
  json_read_checkpoint :: "bytes \<Rightarrow> checkpoint res"

definition bytes_without_digest :: "json \<Rightarrow> manifest \<Rightarrow> bytes res" where
  "bytes_without_digest j m = json_content j (content_of m)"

definition manifest_new_inner ::
  "codec \<Rightarrow> json \<Rightarrow> nat \<Rightarrow> string option \<Rightarrow> nat \<Rightarrow> nat \<Rightarrow> nat \<Rightarrow> segment_descriptor list \<Rightarrow> nat option \<Rightarrow> manifest res" where
  "manifest_new_inner cx j generation parent created_at durable_sequence wal_start_sequence segments application_format =
     (let segments = sort_key (\<lambda>d. (sd_level d, sd_first_key d, sd_id d)) segments;
          m = \<lparr>man_format_version = MANIFEST_FORMAT_VERSION, man_application_format = application_format,
               man_generation = generation, man_parent = parent, man_created_at = created_at,
               man_durable_sequence = durable_sequence, man_wal_start_sequence = wal_start_sequence,
               man_segments = segments, man_digest = []\<rparr> in
     rbind (validate_components m) (\<lambda>_.
     rbind (bytes_without_digest j m) (\<lambda>bytes.
     Inr (m\<lparr>man_digest := sha256_hex cx bytes\<rparr>))))"

definition manifest_new where
  "manifest_new cx j generation parent created_at durable_sequence wal_start_sequence segments =
     manifest_new_inner cx j generation parent created_at durable_sequence wal_start_sequence segments None"

definition manifest_new_with_application_format where
  "manifest_new_with_application_format cx j generation parent created_at durable_sequence wal_start_sequence segments application_format =
     rbind (fail_if (application_format = 0) (InvalidManifest ''application format identity must be non-zero'')) (\<lambda>_.
     manifest_new_inner cx j generation parent created_at durable_sequence wal_start_sequence segments (Some application_format))"

definition manifest_validate :: "codec \<Rightarrow> json \<Rightarrow> manifest \<Rightarrow> unit res" where
  "manifest_validate cx j m =
     rbind (fail_if (man_format_version m \<noteq> MANIFEST_FORMAT_VERSION)
              (UnsupportedVersion ''manifest'' (man_format_version m))) (\<lambda>_.
     rbind (fail_if (man_application_format m = Some 0)
              (InvalidManifest ''application format identity must be non-zero'')) (\<lambda>_.
     rbind (validate_components m) (\<lambda>_.
     rbind (bytes_without_digest j m) (\<lambda>bytes.
     fail_if (man_digest m \<noteq> sha256_hex cx bytes) (InvalidManifest ''manifest digest does not match its fields'')))))"

section \<open>Pointer and checkpoints\<close>

definition pointer_checksum :: "codec \<Rightarrow> current_pointer \<Rightarrow> string" where
  "pointer_checksum cx p = sha256_hex cx (str_bytes ''rrflow-current-v1'' @ [0]
     @ be_bytes 2 (cp_format_version p) @ be_bytes 8 (cp_generation p) @ str_bytes (cp_manifest p))"

definition pointer_new :: "codec \<Rightarrow> manifest \<Rightarrow> current_pointer" where
  "pointer_new cx m =
     (let p = \<lparr>cp_format_version = MANIFEST_CONTROL_FORMAT_VERSION, cp_generation = man_generation m,
               cp_manifest = man_digest m, cp_checksum = []\<rparr>
      in p\<lparr>cp_checksum := pointer_checksum cx p\<rparr>)"

definition pointer_validate :: "codec \<Rightarrow> current_pointer \<Rightarrow> unit res" where
  "pointer_validate cx p =
     rbind (fail_if (cp_format_version p \<noteq> MANIFEST_CONTROL_FORMAT_VERSION)
              (UnsupportedVersion ''CURRENT pointer'' (cp_format_version p))) (\<lambda>_.
     rbind (fail_if (cp_generation p = 0 \<or> \<not> is_sha256 (cp_manifest p) \<or> \<not> is_sha256 (cp_checksum p))
              (InvalidManifest ''invalid CURRENT pointer fields'')) (\<lambda>_.
     fail_if (cp_checksum p \<noteq> pointer_checksum cx p) (InvalidManifest ''CURRENT pointer checksum mismatch'')))"

definition name_char :: "char \<Rightarrow> bool" where
  "name_char c \<longleftrightarrow> c \<in> set ''abcdefghijklmnopqrstuvwxyzABCDEFGHIJKLMNOPQRSTUVWXYZ0123456789-_.''"

definition validate_checkpoint_name :: "string \<Rightarrow> unit res" where
  "validate_checkpoint_name name =
     fail_if (name = [] \<or> length name > 128 \<or> \<not> list_all name_char name) (InvalidManifest ''invalid checkpoint name'')"

definition checkpoint_checksum :: "codec \<Rightarrow> checkpoint \<Rightarrow> string" where
  "checkpoint_checksum cx c = sha256_hex cx (str_bytes ''rrflow-checkpoint-v1'' @ [0]
     @ be_bytes 2 (ck_format_version c) @ str_bytes (ck_name c) @ [0] @ str_bytes (ck_manifest c)
     @ be_bytes 8 (ck_generation c) @ be_bytes 8 (ck_created_at c))"

definition checkpoint_new :: "codec \<Rightarrow> string \<Rightarrow> manifest \<Rightarrow> nat \<Rightarrow> checkpoint res" where
  "checkpoint_new cx name m created_at =
     rbind (validate_checkpoint_name name) (\<lambda>_.
     let c = \<lparr>ck_format_version = MANIFEST_CONTROL_FORMAT_VERSION, ck_name = name, ck_manifest = man_digest m,
              ck_generation = man_generation m, ck_created_at = created_at, ck_checksum = []\<rparr>
     in Inr (c\<lparr>ck_checksum := checkpoint_checksum cx c\<rparr>))"

definition checkpoint_validate :: "codec \<Rightarrow> checkpoint \<Rightarrow> unit res" where
  "checkpoint_validate cx c =
     rbind (fail_if (ck_format_version c \<noteq> MANIFEST_CONTROL_FORMAT_VERSION)
              (UnsupportedVersion ''checkpoint'' (ck_format_version c))) (\<lambda>_.
     rbind (validate_checkpoint_name (ck_name c)) (\<lambda>_.
     fail_if (\<not> is_sha256 (ck_manifest c) \<or> \<not> is_sha256 (ck_checksum c) \<or> ck_generation c = 0
              \<or> ck_checksum c \<noteq> checkpoint_checksum cx c)
       (InvalidManifest ''invalid checkpoint identity or checksum'')))"

end
