(* ===== verification/Manifest_Store.thy ===== *)
theory Manifest_Store
  imports Manifest
begin

text \<open>
  The store of manifests (\<open>ManifestStore\<close> in \<open>rrd-lsm/src/manifest.rs\<close>): the files below the
  database root that it owns, the writer lock, reading \<open>CURRENT\<close> and manifests, publication by
  compare-and-swap, and checkpoints. Once a publication has failed for another reason than disk
  admission the store refuses every further publication until it is reopened.
\<close>

section \<open>Files\<close>

datatype dir_entry = RegularFile bytes | OtherEntry

type_synonym directory = "(string, dir_entry) btree"

definition entry_file :: "dir_entry \<Rightarrow> metadata_file" where
  "entry_file e = (case e of
      RegularFile bs \<Rightarrow> \<lparr>mf_regular = True, mf_len = length bs, mf_content = bs\<rparr>
    | OtherEntry \<Rightarrow> \<lparr>mf_regular = False, mf_len = 0, mf_content = []\<rparr>)"

definition not_found :: io_error where "not_found = OsError 2"

record root_files =
  rf_current :: "dir_entry option"
  rf_manifests :: directory
  rf_checkpoints :: directory

datatype rename_outcome =
  Renamed | AdmissionDenied nat nat nat | RenameRefused "string option" io_error | RenamedUnsynced io_error

fun rename_result :: "rename_outcome \<Rightarrow> unit res" where
  "rename_result Renamed = Inr ()"
| "rename_result (AdmissionDenied requested reserve available) = Inl (DiskAdmission requested reserve available)"
| "rename_result (RenameRefused temporary e) = Inl (Io e)"
| "rename_result (RenamedUnsynced e) = Inl (Io e)"

definition json_name :: "string \<Rightarrow> string" where "json_name s = s @ ''.json''"

text \<open>The unique suffix of a temporary name is the nonce of the writer and a counter.\<close>

definition temporary_name :: "string \<Rightarrow> string \<Rightarrow> string" where
  "temporary_name stem unique = ''.'' @ stem @ ''.'' @ unique @ ''.tmp''"

text \<open>\<open>persist_rename\<close> into a directory, with the temporary name that a refused rename may leave.\<close>

fun persist_rename :: "rename_outcome \<Rightarrow> string \<Rightarrow> bytes \<Rightarrow> directory \<Rightarrow> directory" where
  "persist_rename Renamed stem bs d = bt_insert (json_name stem) (RegularFile bs) d"
| "persist_rename (AdmissionDenied requested reserve available) stem bs d = d"
| "persist_rename (RenameRefused None e) stem bs d = d"
| "persist_rename (RenameRefused (Some unique) e) stem bs d = bt_insert (temporary_name stem unique) (RegularFile bs) d"
| "persist_rename (RenamedUnsynced e) stem bs d = bt_insert (json_name stem) (RegularFile bs) d"

text \<open>\<open>Path::extension\<close>: what follows the last dot, unless the only dot is the first character.\<close>

definition path_extension :: "string \<Rightarrow> string option" where
  "path_extension name =
     (let rest = dropWhile (\<lambda>c. c \<noteq> CHR ''.'') (rev name) in
      if length rest \<le> 1 then None else Some (rev (takeWhile (\<lambda>c. c \<noteq> CHR ''.'') (rev name))))"

definition path_stem :: "string \<Rightarrow> string" where
  "path_stem name =
     (let rest = dropWhile (\<lambda>c. c \<noteq> CHR ''.'') (rev name) in if length rest \<le> 1 then name else rev (tl rest))"

record manifest_store =
  st_root :: root_files
  st_publication_uncertain :: bool
  st_checkpoint_entries :: nat
  st_checkpoint_budget :: reclamation_limits

section \<open>Opening\<close>

datatype lock_outcome = LockAcquired | LockHeld | LockFailed io_error

text \<open>
  \<open>acquire_writer\<close>: what the lock path is, whether entropy is available, how opening and locking
  the file end, and how the two directory barriers of a reopen end.
\<close>

record writer_io =
  wio_lock_entry :: "io_error + bool"
  wio_entropy :: bool
  wio_open :: "io_error option"
  wio_lock :: lock_outcome
  wio_sync_root :: "io_error option"
  wio_sync_checkpoints :: "io_error option"

definition io_result :: "io_error option \<Rightarrow> unit res" where
  "io_result r = (case r of None \<Rightarrow> Inr () | Some e \<Rightarrow> Inl (Io e))"

definition acquire_writer :: "writer_io \<Rightarrow> bool \<Rightarrow> bool \<Rightarrow> root_files \<Rightarrow> manifest_store res" where
  "acquire_writer io create_new create_if_missing root =
     rbind (if \<not> create_new \<and> \<not> create_if_missing then
              case wio_lock_entry io of
                Inl e \<Rightarrow> Inl (IoContext ''validating existing manifest lock'' ''MANIFEST.LOCK'' e)
              | Inr regular \<Rightarrow> fail_if (\<not> regular) (InvalidManifest ''manifest lock is not a regular non-symlink file'')
            else Inr ()) (\<lambda>_.
     rbind (fail_if (\<not> wio_entropy io) (Io (OsError 0))) (\<lambda>_.
     rbind (case wio_open io of None \<Rightarrow> Inr () | Some e \<Rightarrow> Inl (IoContext ''opening manifest lock'' ''MANIFEST.LOCK'' e)) (\<lambda>_.
     rbind (case wio_lock io of
              LockAcquired \<Rightarrow> Inr ()
            | LockHeld \<Rightarrow> Inl (DatabaseWriterLock ''MANIFEST.LOCK'')
            | LockFailed e \<Rightarrow> Inl (IoContext ''acquiring manifest lock'' ''MANIFEST.LOCK'' e)) (\<lambda>_.
     rbind (if \<not> create_new then
              rbind (io_result (wio_sync_root io)) (\<lambda>_. io_result (wio_sync_checkpoints io))
            else Inr ()) (\<lambda>_.
     Inr \<lparr>st_root = root, st_publication_uncertain = False, st_checkpoint_entries = DEFAULT_CHECKPOINT_ENTRIES,
          st_checkpoint_budget = reclamation_limits_default\<rparr>)))))"

definition with_checkpoint_limits :: "nat \<Rightarrow> reclamation_limits \<Rightarrow> manifest_store \<Rightarrow> manifest_store res" where
  "with_checkpoint_limits entries metadata store =
     rbind (fail_if (entries = 0 \<or> entries > 65536)
              (InvalidConfiguration ''checkpoint entries must be in 1..=65536'')) (\<lambda>_.
     rbind (reclamation_limits_validate metadata) (\<lambda>_.
     Inr (store\<lparr>st_checkpoint_entries := entries, st_checkpoint_budget := metadata\<rparr>)))"

section \<open>Reading\<close>

text \<open>The reader of a file is an argument that threads a budget: plain, bounded by recovery or by reclamation.\<close>

definition read_plain :: "dir_entry \<Rightarrow> unit \<Rightarrow> (bytes \<times> unit) res" where
  "read_plain e u = Inr (mf_content (entry_file e), u)"

definition read_recovery :: "(nat \<Rightarrow> nat) \<Rightarrow> dir_entry \<Rightarrow> recovery_budget \<Rightarrow> (bytes \<times> recovery_budget) res" where
  "read_recovery clock e b = budget_metadata clock (Inr (entry_file e)) b"

definition read_reclamation :: "(nat \<Rightarrow> nat) \<Rightarrow> dir_entry \<Rightarrow> reclamation_budget \<Rightarrow> (bytes \<times> reclamation_budget) res" where
  "read_reclamation clock e b = read_metadata clock (Inr (entry_file e)) b"

definition load_using ::
  "codec \<Rightarrow> json \<Rightarrow> (dir_entry \<Rightarrow> 'b \<Rightarrow> (bytes \<times> 'b) res) \<Rightarrow> root_files \<Rightarrow> string \<Rightarrow> 'b \<Rightarrow> (manifest \<times> 'b) res" where
  "load_using cx j read root digest b =
     rbind (fail_if (\<not> is_sha256 digest) (InvalidManifest ''manifest lookup requires a SHA-256 identity'')) (\<lambda>_.
     case map_of (rf_manifests root) (json_name digest) of
       None \<Rightarrow> Inl (IoContext ''validating manifest file'' (json_name digest) not_found)
     | Some OtherEntry \<Rightarrow> Inl (InvalidManifest ''manifest is not a regular non-symlink file'')
     | Some (RegularFile bs) \<Rightarrow>
         rbind (read (RegularFile bs) b) (\<lambda>(bytes, b).
         rbind (json_read_manifest j bytes) (\<lambda>m.
         rbind (manifest_validate cx j m) (\<lambda>_.
         rbind (fail_if (man_digest m \<noteq> digest)
                  (InvalidManifest ''manifest filename differs from its content identity'')) (\<lambda>_.
         Inr (m, b))))))"

definition current_using ::
  "codec \<Rightarrow> json \<Rightarrow> (dir_entry \<Rightarrow> 'b \<Rightarrow> (bytes \<times> 'b) res) \<Rightarrow> root_files \<Rightarrow> 'b
     \<Rightarrow> ((current_pointer \<times> manifest) option \<times> 'b) res" where
  "current_using cx j read root b =
     (case rf_current root of
        None \<Rightarrow> Inr (None, b)
      | Some OtherEntry \<Rightarrow> Inl (InvalidManifest ''CURRENT is not a regular non-symlink file'')
      | Some (RegularFile bs) \<Rightarrow>
          rbind (read (RegularFile bs) b) (\<lambda>(bytes, b).
          rbind (json_read_pointer j bytes) (\<lambda>p.
          rbind (pointer_validate cx p) (\<lambda>_.
          rbind (load_using cx j read root (cp_manifest p) b) (\<lambda>(m, b).
          rbind (fail_if (man_generation m \<noteq> cp_generation p)
                   (InvalidManifest ''CURRENT generation differs from its manifest'')) (\<lambda>_.
          Inr (Some (p, m), b)))))))"

definition store_current :: "codec \<Rightarrow> json \<Rightarrow> root_files \<Rightarrow> (current_pointer \<times> manifest) option res" where
  "store_current cx j root = rbind (current_using cx j read_plain root ()) (\<lambda>(out, _). Inr out)"

definition store_load :: "codec \<Rightarrow> json \<Rightarrow> root_files \<Rightarrow> string \<Rightarrow> manifest res" where
  "store_load cx j root digest = rbind (load_using cx j read_plain root digest ()) (\<lambda>(m, _). Inr m)"

section \<open>Publication\<close>

definition ensure_publication_ready :: "manifest_store \<Rightarrow> unit res" where
  "ensure_publication_ready store =
     fail_if (st_publication_uncertain store) (RecoveryRequired ''uncertain manifest publication'')"

definition is_disk_admission :: "lsm_error \<Rightarrow> bool" where
  "is_disk_admission e = (case e of DiskAdmission _ _ _ \<Rightarrow> True | _ \<Rightarrow> False)"

definition publication_result :: "'a res \<Rightarrow> manifest_store \<Rightarrow> manifest_store" where
  "publication_result r store =
     (case r of
        Inl e \<Rightarrow> if is_disk_admission e then store else store\<lparr>st_publication_uncertain := True\<rparr>
      | Inr _ \<Rightarrow> store)"

text \<open>An existing manifest file with the same bytes is kept after a directory barrier, which may fail.\<close>

definition persist_manifest :: "json \<Rightarrow> rename_outcome \<Rightarrow> manifest \<Rightarrow> root_files \<Rightarrow> unit res \<times> root_files" where
  "persist_manifest j os m root =
     (case json_manifest j m of
        Inl e \<Rightarrow> (Inl e, root)
      | Inr bytes \<Rightarrow>
          (case map_of (rf_manifests root) (json_name (man_digest m)) of
             Some OtherEntry \<Rightarrow> (Inl (InvalidManifest ''existing manifest is not a regular non-symlink file''), root)
           | Some (RegularFile existing) \<Rightarrow>
               if existing \<noteq> bytes
               then (Inl (InvalidManifest ''existing manifest identity has different bytes''), root)
               else (rename_result os, root)
           | None \<Rightarrow> (rename_result os, root\<lparr>rf_manifests := persist_rename os (man_digest m) bytes (rf_manifests root)\<rparr>)))"

text \<open>A temporary name left behind in the root directory is not observed by any operation.\<close>

definition publish_pointer :: "json \<Rightarrow> rename_outcome \<Rightarrow> current_pointer \<Rightarrow> root_files \<Rightarrow> unit res \<times> root_files" where
  "publish_pointer j os p root =
     (case json_pointer j p of
        Inl e \<Rightarrow> (Inl e, root)
      | Inr bytes \<Rightarrow>
          (rename_result os,
           case os of
             AdmissionDenied _ _ _ \<Rightarrow> root
           | RenameRefused _ _ \<Rightarrow> root
           | _ \<Rightarrow> root\<lparr>rf_current := Some (RegularFile bytes)\<rparr>))"

definition extends_current :: "manifest \<Rightarrow> (current_pointer \<times> manifest) option \<Rightarrow> bool res" where
  "extends_current m current =
     (case current of
        None \<Rightarrow> Inr (man_generation m = 1 \<and> man_parent m = None)
      | Some (p, _) \<Rightarrow>
          rbind (ok_or (Panic ''attempt to add with overflow'') (checked_add (cp_generation p) 1)) (\<lambda>successor.
          Inr (man_generation m = successor \<and> man_parent m = Some (cp_manifest p))))"

definition publish_admitted :: "codec \<Rightarrow> json \<Rightarrow> manifest \<Rightarrow> string option \<Rightarrow> manifest_store \<Rightarrow> unit res" where
  "publish_admitted cx j m expected store =
     rbind (ensure_publication_ready store) (\<lambda>_.
     rbind (manifest_validate cx j m) (\<lambda>_.
     rbind (store_current cx j (st_root store)) (\<lambda>current.
     let actual = map_option (\<lambda>(p, _). cp_manifest p) current in
     rbind (fail_if (actual \<noteq> expected) (ManifestConflict expected actual)) (\<lambda>_.
     rbind (extends_current m current) (\<lambda>extends.
     fail_if (\<not> extends) (InvalidManifest ''manifest generation/parent does not extend CURRENT''))))))"

definition store_publish ::
  "codec \<Rightarrow> json \<Rightarrow> rename_outcome \<times> rename_outcome \<Rightarrow> manifest \<Rightarrow> string option \<Rightarrow> manifest_store
     \<Rightarrow> current_pointer res \<times> manifest_store" where
  "store_publish cx j os m expected store =
     (case publish_admitted cx j m expected store of
        Inl e \<Rightarrow> (Inl e, store)
      | Inr _ \<Rightarrow>
          let (persisted, root) = persist_manifest j (fst os) m (st_root store);
              store = publication_result persisted (store\<lparr>st_root := root\<rparr>) in
          case persisted of
            Inl e \<Rightarrow> (Inl e, store)
          | Inr _ \<Rightarrow>
              let p = pointer_new cx m;
                  (published, root) = publish_pointer j (snd os) p (st_root store);
                  store = publication_result published (store\<lparr>st_root := root\<rparr>) in
              case published of Inl e \<Rightarrow> (Inl e, store) | Inr _ \<Rightarrow> (Inr p, store))"

section \<open>Checkpoints\<close>

fun checkpoint_entry_count :: "(nat \<Rightarrow> nat) \<Rightarrow> nat \<Rightarrow> nat \<Rightarrow> directory \<Rightarrow> reclamation_budget \<Rightarrow> (nat \<times> reclamation_budget) res" where
  "checkpoint_entry_count clock limit count [] b = Inr (count, b)"
| "checkpoint_entry_count clock limit count (e # es) b =
     rbind (reclamation_entry clock b) (\<lambda>b.
     rbind (fail_if (count + 1 > limit) (CheckpointLimit limit (count + 1))) (\<lambda>_.
     checkpoint_entry_count clock limit (count + 1) es b))"

definition checkpoint_ownership :: "(nat \<Rightarrow> nat) \<Rightarrow> manifest_store \<Rightarrow> (nat \<times> nat) res" where
  "checkpoint_ownership clock store =
     rbind (checkpoint_entry_count clock (st_checkpoint_entries store) 0 (rf_checkpoints (st_root store))
              (reclamation_new (st_checkpoint_budget store))) (\<lambda>(count, _).
     Inr (count, st_checkpoint_entries store))"

text \<open>Creating a checkpoint: the checks before the publication decide between an existing and a new one.\<close>

definition checkpoint_prepare ::
  "codec \<Rightarrow> json \<Rightarrow> (nat \<Rightarrow> nat) \<Rightarrow> string \<Rightarrow> string \<Rightarrow> nat \<Rightarrow> manifest_store \<Rightarrow> (checkpoint \<times> bytes \<times> bool) res" where
  "checkpoint_prepare cx j clock name manifest_digest created_at store =
     rbind (ensure_publication_ready store) (\<lambda>_.
     rbind (load_using cx j (read_reclamation clock) (st_root store) manifest_digest
              (reclamation_new (st_checkpoint_budget store))) (\<lambda>(m, b).
     rbind (checkpoint_new cx name m created_at) (\<lambda>c.
     rbind (json_checkpoint j c) (\<lambda>bytes.
     case map_of (rf_checkpoints (st_root store)) (json_name name) of
       Some e \<Rightarrow>
         rbind (read_reclamation clock e b) (\<lambda>(old, b).
         rbind (json_read_checkpoint j old) (\<lambda>existing.
         rbind (checkpoint_validate cx existing) (\<lambda>_.
         rbind (fail_if (existing \<noteq> c)
                  (InvalidManifest ''checkpoint already pins another manifest or instant'')) (\<lambda>_.
         Inr (c, bytes, True)))))
     | None \<Rightarrow>
         rbind (checkpoint_entry_count clock (st_checkpoint_entries store) 0 (rf_checkpoints (st_root store)) b) (\<lambda>(count, b).
         rbind (fail_if (count \<ge> st_checkpoint_entries store)
                  (CheckpointLimit (st_checkpoint_entries store) (count + 1))) (\<lambda>_.
         Inr (c, bytes, False)))))))"

definition store_checkpoint ::
  "codec \<Rightarrow> json \<Rightarrow> (nat \<Rightarrow> nat) \<Rightarrow> rename_outcome \<Rightarrow> string \<Rightarrow> string \<Rightarrow> nat \<Rightarrow> manifest_store
     \<Rightarrow> checkpoint res \<times> manifest_store" where
  "store_checkpoint cx j clock os name manifest_digest created_at store =
     (case checkpoint_prepare cx j clock name manifest_digest created_at store of
        Inl e \<Rightarrow> (Inl e, store)
      | Inr (c, bytes, True) \<Rightarrow>
          (rbind (rename_result os) (\<lambda>_. Inr c), publication_result (rename_result os) store)
      | Inr (c, bytes, False) \<Rightarrow>
          let d = persist_rename os name bytes (rf_checkpoints (st_root store)) in
          (rbind (rename_result os) (\<lambda>_. Inr c),
           publication_result (rename_result os) (store\<lparr>st_root := (st_root store)\<lparr>rf_checkpoints := d\<rparr>\<rparr>)))"

fun checkpoint_entries :: "(nat \<Rightarrow> nat) \<Rightarrow> nat \<Rightarrow> directory \<Rightarrow> directory \<Rightarrow> reclamation_budget \<Rightarrow> (directory \<times> reclamation_budget) res" where
  "checkpoint_entries clock limit found [] b = Inr (found, b)"
| "checkpoint_entries clock limit found (e # es) b =
     rbind (reclamation_entry clock b) (\<lambda>b.
     rbind (fail_if (length found \<ge> limit) (CheckpointLimit limit (length found + 1))) (\<lambda>_.
     checkpoint_entries clock limit (found @ [e]) es b))"

definition read_checkpoint ::
  "codec \<Rightarrow> json \<Rightarrow> (nat \<Rightarrow> nat) \<Rightarrow> root_files \<Rightarrow> checkpoint list \<times> reclamation_budget \<Rightarrow> string \<times> dir_entry
     \<Rightarrow> (checkpoint list \<times> reclamation_budget) res" where
  "read_checkpoint cx j clock root = (\<lambda>(found, b) (name, e).
     if path_extension name \<noteq> Some ''json'' then Inr (found, b)
     else
       rbind (read_reclamation clock e b) (\<lambda>(bytes, b).
       rbind (json_read_checkpoint j bytes) (\<lambda>c.
       rbind (checkpoint_validate cx c) (\<lambda>_.
       rbind (load_using cx j (read_reclamation clock) root (ck_manifest c) b) (\<lambda>(m, b).
       rbind (fail_if (man_generation m \<noteq> ck_generation c)
                (InvalidManifest ''checkpoint generation differs from its manifest'')) (\<lambda>_.
       Inr (found @ [c], b)))))))"

definition checkpoints_inner ::
  "codec \<Rightarrow> json \<Rightarrow> (nat \<Rightarrow> nat) \<Rightarrow> manifest_store \<Rightarrow> reclamation_budget \<Rightarrow> (checkpoint list \<times> reclamation_budget) res" where
  "checkpoints_inner cx j clock store b =
     rbind (checkpoint_entries clock (st_checkpoint_entries store) [] (rf_checkpoints (st_root store)) b) (\<lambda>(entries, b).
     rbind (try_fold (read_checkpoint cx j clock (st_root store)) ([], b) (sort_key fst entries)) (\<lambda>(found, b).
     Inr (sort_key ck_name found, b)))"

definition store_checkpoints :: "codec \<Rightarrow> json \<Rightarrow> (nat \<Rightarrow> nat) \<Rightarrow> manifest_store \<Rightarrow> checkpoint list res" where
  "store_checkpoints cx j clock store =
     rbind (checkpoints_inner cx j clock store (reclamation_new (st_checkpoint_budget store))) (\<lambda>(found, _). Inr found)"

text \<open>The removal of a name: the error of the removal or of the directory barrier after it.\<close>

datatype remove_outcome = Removed | RemoveRefused io_error | RemovedUnsynced io_error

definition release_checkpoint :: "remove_outcome \<Rightarrow> string \<Rightarrow> manifest_store \<Rightarrow> bool res \<times> manifest_store" where
  "release_checkpoint os name store =
     (case rbind (ensure_publication_ready store) (\<lambda>_. validate_checkpoint_name name) of
        Inl e \<Rightarrow> (Inl e, store)
      | Inr _ \<Rightarrow>
          (case map_of (rf_checkpoints (st_root store)) (json_name name) of
             None \<Rightarrow> (Inr False, store)
           | Some _ \<Rightarrow>
               let gone = store\<lparr>st_root := (st_root store)\<lparr>rf_checkpoints :=
                     bt_remove (json_name name) (rf_checkpoints (st_root store))\<rparr>\<rparr> in
               (case os of
                  Removed \<Rightarrow> (Inr True, gone)
                | RemovedUnsynced e \<Rightarrow> (Inl (Io e), publication_result (Inl (Io e) :: unit res) gone)
                | RemoveRefused e \<Rightarrow> (Inl (Io e), publication_result (Inl (Io e) :: unit res) store))))"

end
