(* ===== verification/Mutable_Memory.thy ===== *)
theory Mutable_Memory
  imports Memtable
begin

text \<open>
  Admission of active and retained memtable generations (\<open>rrd-lsm/src/mutable_memory.rs\<close>). A
  generation is a memtable with the reservation it holds in the pool of its open database; a write
  reserves before the log is touched, in place when the database is the only owner of the current
  generation and by copying it when readers share it. Whether the generation is shared is an
  argument: it is what \<open>Arc::strong_count\<close> observes. The destructor of a reservation is
  \<open>drop_reservation\<close>; its subtractions panic when they underflow.
\<close>

section \<open>The pool\<close>

record mutable_retention_limits =
  mr_accounted_bytes :: nat
  mr_versions :: nat
  mr_generations :: nat

definition mutable_retention_limits_default :: mutable_retention_limits where
  "mutable_retention_limits_default = \<lparr>mr_accounted_bytes = 536870912, mr_versions = 4194304, mr_generations = 64\<rparr>"

record mutable_memory_stats =
  mm_accounted_bytes :: nat
  mm_versions :: nat
  mm_generations :: nat
  mm_peak_accounted_bytes :: nat
  mm_peak_generations :: nat
  mm_denied_writes :: nat

definition mutable_memory_stats_default :: mutable_memory_stats where
  "mutable_memory_stats_default = \<lparr>mm_accounted_bytes = 0, mm_versions = 0, mm_generations = 0,
     mm_peak_accounted_bytes = 0, mm_peak_generations = 0, mm_denied_writes = 0\<rparr>"

record mutable_pool =
  mp_limits :: mutable_retention_limits
  mp_stats :: mutable_memory_stats

definition mutable_memory_new :: "mutable_retention_limits \<Rightarrow> mutable_pool" where
  "mutable_memory_new l = \<lparr>mp_limits = l, mp_stats = mutable_memory_stats_default\<rparr>"

record reservation =
  rv_charge :: mutable_charge
  rv_generations :: nat

definition reserve_check :: "mutable_resource \<times> nat \<times> nat \<times> nat \<Rightarrow> unit res" where
  "reserve_check = (\<lambda>(resource, used, added, limit).
     fail_if (added > saturating_sub limit used) (MutableLimit resource limit (saturating_add used added)))"

definition reserve :: "mutable_charge \<Rightarrow> nat \<Rightarrow> mutable_pool \<Rightarrow> reservation res \<times> mutable_pool" where
  "reserve charge generations pool =
     (let st = mp_stats pool; l = mp_limits pool in
      case try_fold (\<lambda>_. reserve_check) ()
             [(RetainedAccountedBytes, mm_accounted_bytes st, mc_bytes charge, mr_accounted_bytes l),
              (RetainedVersions, mm_versions st, mc_versions charge, mr_versions l),
              (Generations, mm_generations st, generations, mr_generations l)] of
        Inl e \<Rightarrow> (Inl e, pool\<lparr>mp_stats := st\<lparr>mm_denied_writes := saturating_add (mm_denied_writes st) 1\<rparr>\<rparr>)
      | Inr _ \<Rightarrow>
          let bytes = mm_accounted_bytes st + mc_bytes charge;
              gens = mm_generations st + generations in
          (Inr \<lparr>rv_charge = charge, rv_generations = generations\<rparr>,
           pool\<lparr>mp_stats := st\<lparr>mm_accounted_bytes := bytes,
              mm_versions := mm_versions st + mc_versions charge, mm_generations := gens,
              mm_peak_accounted_bytes := max (mm_peak_accounted_bytes st) bytes,
              mm_peak_generations := max (mm_peak_generations st) gens\<rparr>\<rparr>))"

definition drop_reservation :: "reservation \<Rightarrow> mutable_pool \<Rightarrow> mutable_pool res" where
  "drop_reservation rv pool =
     (let st = mp_stats pool; underflow = Panic ''attempt to subtract with overflow'' in
     rbind (ok_or underflow (checked_sub (mm_accounted_bytes st) (mc_bytes (rv_charge rv)))) (\<lambda>bytes.
     rbind (ok_or underflow (checked_sub (mm_versions st) (mc_versions (rv_charge rv)))) (\<lambda>versions.
     rbind (ok_or underflow (checked_sub (mm_generations st) (rv_generations rv))) (\<lambda>generations.
     Inr (pool\<lparr>mp_stats := st\<lparr>mm_accounted_bytes := bytes, mm_versions := versions, mm_generations := generations\<rparr>\<rparr>)))))"

section \<open>Generations\<close>

record mutable_generation =
  mg_table :: memtable
  mg_reservation :: reservation

definition mutable_wrap :: "memtable \<Rightarrow> mutable_pool \<Rightarrow> mutable_generation res \<times> mutable_pool" where
  "mutable_wrap table pool =
     (case reserve (memtable_charge table) (if mt_version_count table \<noteq> 0 then 1 else 0) pool of
        (Inl e, pool) \<Rightarrow> (Inl e, pool)
      | (Inr rv, pool) \<Rightarrow> (Inr \<lparr>mg_table = table, mg_reservation = rv\<rparr>, pool))"

definition mutable_empty :: "nat \<Rightarrow> mutable_generation" where
  "mutable_empty sequence = \<lparr>mg_table = at_sequence sequence,
     mg_reservation = \<lparr>rv_charge = mutable_charge_default, rv_generations = 0\<rparr>\<rparr>"

datatype prepared_mutable = Unique reservation | Replacement mutable_generation

definition mutable_prepare ::
  "bool \<Rightarrow> mutable_generation \<Rightarrow> mutable_charge \<Rightarrow> mutable_pool \<Rightarrow> prepared_mutable res \<times> mutable_pool" where
  "mutable_prepare shared current incoming pool =
     (if shared then
        case charge_add (memtable_charge (mg_table current)) incoming of
          Inl e \<Rightarrow> (Inl e, pool)
        | Inr charge \<Rightarrow>
            (case reserve charge 1 pool of
               (Inl e, pool) \<Rightarrow> (Inl e, pool)
             | (Inr rv, pool) \<Rightarrow> (Inr (Replacement \<lparr>mg_table = mg_table current, mg_reservation = rv\<rparr>), pool))
      else
        case reserve incoming (if mt_version_count (mg_table current) = 0 then 1 else 0) pool of
          (Inl e, pool) \<Rightarrow> (Inl e, pool)
        | (Inr rv, pool) \<Rightarrow> (Inr (Unique rv), pool))"

definition absorb :: "reservation \<Rightarrow> reservation \<Rightarrow> reservation" where
  "absorb rv delta = \<lparr>rv_charge = \<lparr>mc_bytes = mc_bytes (rv_charge rv) + mc_bytes (rv_charge delta),
       mc_versions = mc_versions (rv_charge rv) + mc_versions (rv_charge delta)\<rparr>,
     rv_generations = rv_generations rv + rv_generations delta\<rparr>"

text \<open>
  The result, the current generation afterwards, and the reservation whose destructor runs when the
  application fails. Between preparation and application the database is held exclusively, so the
  generation is shared at the application only when it was shared at the preparation.
\<close>

definition apply_with ::
  "bool \<Rightarrow> prepared_mutable \<Rightarrow> mutable_generation \<Rightarrow> (memtable \<Rightarrow> memtable res)
     \<Rightarrow> unit res \<times> mutable_generation \<times> reservation option" where
  "apply_with shared prepared current f =
     (case prepared of
        Replacement g \<Rightarrow>
          (case f (mg_table g) of
             Inl e \<Rightarrow> (Inl e, current, Some (mg_reservation g))
           | Inr table \<Rightarrow> (Inr (), g\<lparr>mg_table := table\<rparr>, None))
      | Unique delta \<Rightarrow>
          if shared then (Inl (InvalidBatch ''mutable ownership changed after admission''), current, Some delta)
          else
            (case f (mg_table current) of
               Inl e \<Rightarrow> (Inl e, current, Some delta)
             | Inr table \<Rightarrow> (Inr (), current\<lparr>mg_table := table,
                 mg_reservation := absorb (mg_reservation current) delta\<rparr>, None)))"

definition prepared_reservation :: "prepared_mutable \<Rightarrow> reservation" where
  "prepared_reservation p = (case p of Unique rv \<Rightarrow> rv | Replacement g \<Rightarrow> mg_reservation g)"

section \<open>Owners of one pool\<close>

text \<open>
  The database owns the current generation, readers own the retained ones. A reader that still
  shares the current generation when it is replaced or flushed becomes an owner of a retained one;
  the last owner runs the destructor.
\<close>

record memory_state =
  mst_pool :: mutable_pool
  mst_current :: mutable_generation
  mst_retained :: "mutable_generation list"

inductive memory_step :: "memory_state \<Rightarrow> memory_state \<Rightarrow> bool" where
  written: "charge_batch batch = Inr charge \<Longrightarrow> operations batch \<noteq> []
    \<Longrightarrow> mutable_prepare shared current charge pool = (Inr p, pool')
    \<Longrightarrow> apply_with shared p current (\<lambda>table. apply_write_batch table batch first final) = (Inr (), current', None)
    \<Longrightarrow> memory_step \<lparr>mst_pool = pool, mst_current = current, mst_retained = retained\<rparr>
          \<lparr>mst_pool = pool', mst_current = current', mst_retained = (if shared then current # retained else retained)\<rparr>"
| refused: "mutable_prepare shared current charge pool = (Inl e, pool')
    \<Longrightarrow> memory_step \<lparr>mst_pool = pool, mst_current = current, mst_retained = retained\<rparr>
          \<lparr>mst_pool = pool', mst_current = current, mst_retained = retained\<rparr>"
| abandoned: "mutable_prepare shared current charge pool = (Inr p, pool')
    \<Longrightarrow> drop_reservation (prepared_reservation p) pool' = Inr pool''
    \<Longrightarrow> memory_step \<lparr>mst_pool = pool, mst_current = current, mst_retained = retained\<rparr>
          \<lparr>mst_pool = pool'', mst_current = current, mst_retained = retained\<rparr>"
| flushed: "memory_step \<lparr>mst_pool = pool, mst_current = current, mst_retained = retained\<rparr>
          \<lparr>mst_pool = pool, mst_current = mutable_empty sequence, mst_retained = current # retained\<rparr>"
| released: "drop_reservation (mg_reservation g) pool = Inr pool'
    \<Longrightarrow> memory_step \<lparr>mst_pool = pool, mst_current = current, mst_retained = pre @ g # post\<rparr>
          \<lparr>mst_pool = pool', mst_current = current, mst_retained = pre @ post\<rparr>"

definition generation_ok :: "mutable_generation \<Rightarrow> bool" where
  "generation_ok g \<longleftrightarrow> rv_charge (mg_reservation g) = memtable_charge (mg_table g)
     \<and> rv_generations (mg_reservation g) = (if mt_version_count (mg_table g) = 0 then 0 else 1)"

definition pool_accounts :: "mutable_pool \<Rightarrow> mutable_generation list \<Rightarrow> bool" where
  "pool_accounts pool gs \<longleftrightarrow>
     mm_accounted_bytes (mp_stats pool) = sum_list (map (\<lambda>g. mc_bytes (rv_charge (mg_reservation g))) gs)
     \<and> mm_versions (mp_stats pool) = sum_list (map (\<lambda>g. mc_versions (rv_charge (mg_reservation g))) gs)
     \<and> mm_generations (mp_stats pool) = sum_list (map (\<lambda>g. rv_generations (mg_reservation g)) gs)
     \<and> mm_accounted_bytes (mp_stats pool) \<le> mr_accounted_bytes (mp_limits pool)
     \<and> mm_versions (mp_stats pool) \<le> mr_versions (mp_limits pool)
     \<and> mm_generations (mp_stats pool) \<le> mr_generations (mp_limits pool)"

definition memory_inv :: "memory_state \<Rightarrow> bool" where
  "memory_inv s \<longleftrightarrow> pool_accounts (mst_pool s) (mst_current s # mst_retained s)
     \<and> (\<forall>g \<in> set (mst_current s # mst_retained s). generation_ok g)"

lemma reserve_cases [case_names denied admitted]:
  assumes "reserve charge n pool = (r, pool')"
  obtains (denied) e where "r = Inl e" and "mp_limits pool' = mp_limits pool"
      and "mm_accounted_bytes (mp_stats pool') = mm_accounted_bytes (mp_stats pool)"
      and "mm_versions (mp_stats pool') = mm_versions (mp_stats pool)"
      and "mm_generations (mp_stats pool') = mm_generations (mp_stats pool)"
  | (admitted) "r = Inr \<lparr>rv_charge = charge, rv_generations = n\<rparr>" and "mp_limits pool' = mp_limits pool"
      and "mm_accounted_bytes (mp_stats pool') = mm_accounted_bytes (mp_stats pool) + mc_bytes charge"
      and "mm_versions (mp_stats pool') = mm_versions (mp_stats pool) + mc_versions charge"
      and "mm_generations (mp_stats pool') = mm_generations (mp_stats pool) + n"
      and "mc_bytes charge \<le> mr_accounted_bytes (mp_limits pool) - mm_accounted_bytes (mp_stats pool)"
      and "mc_versions charge \<le> mr_versions (mp_limits pool) - mm_versions (mp_stats pool)"
      and "n \<le> mr_generations (mp_limits pool) - mm_generations (mp_stats pool)"
  using assms
  by (auto simp: reserve_def reserve_check_def Let_def saturating_sub_def fail_if_def split: sum.splits if_splits)

lemma drop_reservation_ok:
  assumes "mc_bytes (rv_charge rv) \<le> mm_accounted_bytes (mp_stats pool)"
    and "mc_versions (rv_charge rv) \<le> mm_versions (mp_stats pool)" and "rv_generations rv \<le> mm_generations (mp_stats pool)"
  obtains pool' where "drop_reservation rv pool = Inr pool'" and "mp_limits pool' = mp_limits pool"
    and "mm_accounted_bytes (mp_stats pool') = mm_accounted_bytes (mp_stats pool) - mc_bytes (rv_charge rv)"
    and "mm_versions (mp_stats pool') = mm_versions (mp_stats pool) - mc_versions (rv_charge rv)"
    and "mm_generations (mp_stats pool') = mm_generations (mp_stats pool) - rv_generations rv"
  using assms by (auto simp: drop_reservation_def Let_def rrf_res checked_sub_def)

lemma apply_write_batch_charge:
  assumes "apply_write_batch m batch f l = Inr m'" and "charge_batch batch = Inr charge"
  shows "charge_add (memtable_charge m) charge = Inr (memtable_charge m')"
  using assms by (auto simp: apply_write_batch_def rbind_Inr fail_if_Inr ok_or_Inr memtable_charge_def)

lemma charge_batch_versions: "charge_batch batch = Inr charge \<Longrightarrow> mc_versions charge = length (operations batch)"
  by (auto simp: charge_batch_def rbind_Inr)

lemma charge_add_sum:
  "charge_add a b = Inr c \<Longrightarrow> mc_bytes c = mc_bytes a + mc_bytes b \<and> mc_versions c = mc_versions a + mc_versions b"
  by (auto simp: charge_add_def rrf_res)

lemma pool_accounts_member:
  assumes "pool_accounts pool gs" and "g \<in> set gs"
  shows "mc_bytes (rv_charge (mg_reservation g)) \<le> mm_accounted_bytes (mp_stats pool)"
    and "mc_versions (rv_charge (mg_reservation g)) \<le> mm_versions (mp_stats pool)"
    and "rv_generations (mg_reservation g) \<le> mm_generations (mp_stats pool)"
  using assms by (auto simp: pool_accounts_def intro!: member_le_sum_list)

lemma memory_written:
  assumes inv: "memory_inv \<lparr>mst_pool = pool, mst_current = current, mst_retained = retained\<rparr>"
    and charge: "charge_batch batch = Inr charge" "operations batch \<noteq> []"
    and prepared: "mutable_prepare shared current charge pool = (Inr p, pool')"
    and applied: "apply_with shared p current (\<lambda>table. apply_write_batch table batch first final) = (Inr (), current', None)"
  shows "memory_inv \<lparr>mst_pool = pool', mst_current = current', mst_retained = (if shared then current # retained else retained)\<rparr>"
proof -
  have pos: "0 < mc_versions charge" using charge charge_batch_versions [OF charge(1)] by simp
  have acc: "pool_accounts pool (current # retained)" and cur: "generation_ok current"
    using inv by (auto simp: memory_inv_def)
  show ?thesis
  proof (cases shared)
    case True
    then obtain total rv where total: "charge_add (memtable_charge (mg_table current)) charge = Inr total"
      and res: "reserve total 1 pool = (Inr rv, pool')" and p: "p = Replacement \<lparr>mg_table = mg_table current, mg_reservation = rv\<rparr>"
      using prepared by (auto simp: mutable_prepare_def split: sum.splits prod.splits)
    obtain table where table: "apply_write_batch (mg_table current) batch first final = Inr table"
      and current': "current' = \<lparr>mg_table = table, mg_reservation = rv\<rparr>"
      using applied p by (auto simp: apply_with_def split: sum.splits)
    have charged: "memtable_charge table = total" using apply_write_batch_charge [OF table charge(1)] total by simp
    then have "mt_version_count table \<noteq> 0" using charge_add_sum [OF total] pos by (auto simp: memtable_charge_def)
    with res show ?thesis
    proof (cases rule: reserve_cases)
      case admitted
      then show ?thesis using True inv acc charged \<open>mt_version_count table \<noteq> 0\<close>
        by (auto simp: memory_inv_def pool_accounts_def current' generation_ok_def)
    qed auto
  next
    case False
    then obtain rv where res: "reserve charge (if mt_version_count (mg_table current) = 0 then 1 else 0) pool = (Inr rv, pool')"
      and p: "p = Unique rv"
      using prepared by (auto simp: mutable_prepare_def split: sum.splits prod.splits)
    obtain table where table: "apply_write_batch (mg_table current) batch first final = Inr table"
      and current': "current' = current\<lparr>mg_table := table, mg_reservation := absorb (mg_reservation current) rv\<rparr>"
      using applied p False by (auto simp: apply_with_def split: sum.splits)
    have charged: "mc_bytes (memtable_charge table) = mc_bytes (memtable_charge (mg_table current)) + mc_bytes charge"
        "mc_versions (memtable_charge table) = mc_versions (memtable_charge (mg_table current)) + mc_versions charge"
      using charge_add_sum [OF apply_write_batch_charge [OF table charge(1)]] by auto
    from res show ?thesis
    proof (cases rule: reserve_cases)
      case admitted
      then show ?thesis using False inv acc cur charged pos
        by (auto simp: memory_inv_def pool_accounts_def current' generation_ok_def absorb_def memtable_charge_def)
    qed auto
  qed
qed

lemma memory_step_inv:
  assumes "memory_step s s'" and "memory_inv s"
  shows "memory_inv s' \<and> mp_limits (mst_pool s') = mp_limits (mst_pool s)"
  using assms
proof (cases rule: memory_step.cases)
  case (written batch charge shared current pool p pool' first final current' retained)
  have "mp_limits pool' = mp_limits pool"
    using written(5) by (auto simp: mutable_prepare_def split: if_splits sum.splits prod.splits elim: reserve_cases)
  then show ?thesis using memory_written [OF _ written(3-6)] assms(2) written(1,2) by simp
next
  case (refused shared current charge pool e pool' retained)
  then show ?thesis using assms(2)
    by (auto simp: mutable_prepare_def memory_inv_def pool_accounts_def split: if_splits sum.splits prod.splits elim!: reserve_cases)
next
  case (abandoned shared current charge pool p pool' pool'' retained)
  obtain c n where res: "reserve c n pool = (Inr (prepared_reservation p), pool')"
    using abandoned(3) by (auto simp: mutable_prepare_def prepared_reservation_def split: if_splits sum.splits prod.splits)
  then show ?thesis
  proof (cases rule: reserve_cases)
    case admitted
    have "mc_bytes (rv_charge (prepared_reservation p)) \<le> mm_accounted_bytes (mp_stats pool')"
      "mc_versions (rv_charge (prepared_reservation p)) \<le> mm_versions (mp_stats pool')"
      "rv_generations (prepared_reservation p) \<le> mm_generations (mp_stats pool')"
      using admitted by simp_all
    then obtain q where "drop_reservation (prepared_reservation p) pool' = Inr q" "mp_limits q = mp_limits pool'"
      "mm_accounted_bytes (mp_stats q) = mm_accounted_bytes (mp_stats pool') - mc_bytes (rv_charge (prepared_reservation p))"
      "mm_versions (mp_stats q) = mm_versions (mp_stats pool') - mc_versions (rv_charge (prepared_reservation p))"
      "mm_generations (mp_stats q) = mm_generations (mp_stats pool') - rv_generations (prepared_reservation p)"
      by (rule drop_reservation_ok)
    then show ?thesis using admitted abandoned assms(2) by (auto simp: memory_inv_def pool_accounts_def)
  qed auto
next
  case (flushed pool current retained sequence)
  then show ?thesis using assms(2)
    by (auto simp: memory_inv_def pool_accounts_def mutable_empty_def mutable_charge_default_def generation_ok_def
        memtable_charge_def at_sequence_def)
next
  case (released g pool pool' current pre post)
  then have acc: "pool_accounts pool (current # pre @ g # post)" using assms(2) by (simp add: memory_inv_def)
  have "g \<in> set (current # pre @ g # post)" by simp
  note bounds = pool_accounts_member [OF acc this]
  obtain q where "drop_reservation (mg_reservation g) pool = Inr q" "mp_limits q = mp_limits pool"
    "mm_accounted_bytes (mp_stats q) = mm_accounted_bytes (mp_stats pool) - mc_bytes (rv_charge (mg_reservation g))"
    "mm_versions (mp_stats q) = mm_versions (mp_stats pool) - mc_versions (rv_charge (mg_reservation g))"
    "mm_generations (mp_stats q) = mm_generations (mp_stats pool) - rv_generations (mg_reservation g)"
    by (rule drop_reservation_ok [OF bounds])
  then show ?thesis using released assms(2) by (auto simp: memory_inv_def pool_accounts_def)
qed

text \<open>
  (C26) Over every sequence of writes, refused writes, flushes and releases the pool accounts exactly
  for the generations that are alive, the database's own and those its readers retain; the configured
  retention limits are never passed, and no destructor underflows.
\<close>

theorem memory_accounts_generations:
  assumes "memory_step\<^sup>*\<^sup>* \<lparr>mst_pool = mutable_memory_new limits, mst_current = mutable_empty n, mst_retained = []\<rparr> s"
  shows "mm_accounted_bytes (mp_stats (mst_pool s)) = sum_list (map (mt_approximate_bytes \<circ> mg_table) (mst_current s # mst_retained s))
    \<and> mm_versions (mp_stats (mst_pool s)) = sum_list (map (mt_version_count \<circ> mg_table) (mst_current s # mst_retained s))
    \<and> mm_generations (mp_stats (mst_pool s)) = length (filter (\<lambda>g. mt_version_count (mg_table g) \<noteq> 0) (mst_current s # mst_retained s))
    \<and> mm_accounted_bytes (mp_stats (mst_pool s)) \<le> mr_accounted_bytes limits
    \<and> mm_versions (mp_stats (mst_pool s)) \<le> mr_versions limits
    \<and> mm_generations (mp_stats (mst_pool s)) \<le> mr_generations limits
    \<and> (\<forall>g \<in> set (mst_retained s). \<exists>pool. drop_reservation (mg_reservation g) (mst_pool s) = Inr pool)"
proof -
  have "memory_inv s \<and> mp_limits (mst_pool s) = limits"
    using assms
  proof (induction rule: rtranclp_induct)
    case base
    show ?case
      by (simp add: memory_inv_def pool_accounts_def mutable_memory_new_def mutable_memory_stats_default_def mutable_empty_def
          mutable_charge_default_def generation_ok_def memtable_charge_def at_sequence_def)
  next
    case (step s s')
    then show ?case using memory_step_inv by auto
  qed
  then have acc: "pool_accounts (mst_pool s) (mst_current s # mst_retained s)" and lim: "mp_limits (mst_pool s) = limits"
    and ok: "\<forall>g \<in> set (mst_current s # mst_retained s). generation_ok g" by (auto simp: memory_inv_def)
  have sums: "\<forall>g \<in> set gs. generation_ok g \<Longrightarrow>
      sum_list (map (\<lambda>g. mc_bytes (rv_charge (mg_reservation g))) gs) = sum_list (map (mt_approximate_bytes \<circ> mg_table) gs)
      \<and> sum_list (map (\<lambda>g. mc_versions (rv_charge (mg_reservation g))) gs) = sum_list (map (mt_version_count \<circ> mg_table) gs)
      \<and> sum_list (map (\<lambda>g. rv_generations (mg_reservation g)) gs) = length (filter (\<lambda>g. mt_version_count (mg_table g) \<noteq> 0) gs)" for gs
    by (induction gs) (auto simp: generation_ok_def memtable_charge_def)
  have "\<exists>pool. drop_reservation (mg_reservation g) (mst_pool s) = Inr pool" if "g \<in> set (mst_retained s)" for g
    using pool_accounts_member [OF acc, of g] that by (auto elim: drop_reservation_ok)
  with acc lim sums [OF ok] show ?thesis by (auto simp: pool_accounts_def)
qed

theorem memory_accounts_generations_witness:
  "\<exists>s. memory_step\<^sup>*\<^sup>* \<lparr>mst_pool = mutable_memory_new mutable_retention_limits_default, mst_current = mutable_empty 0, mst_retained = []\<rparr> s
    \<and> length (mst_retained s) = 1 \<and> mm_accounted_bytes (mp_stats (mst_pool s)) = 26
    \<and> mm_generations (mp_stats (mst_pool s)) \<le> 64"
proof -
  let ?l = mutable_retention_limits_default
  let ?batch = "\<lparr>operations = [Put [1] [7]], encoded_len = 26\<rparr>"
  let ?charge = "\<lparr>mc_bytes = 26, mc_versions = 1\<rparr>"
  let ?s0 = "\<lparr>mst_pool = mutable_memory_new ?l, mst_current = mutable_empty 0, mst_retained = []\<rparr>"
  have charge: "charge_batch ?batch = Inr ?charge"
    by (simp add: charge_batch_def version_charge_def checked_add_def rrf_consts)
  obtain rv pool where res: "reserve ?charge 1 (mutable_memory_new ?l) = (Inr rv, pool)"
    by (simp add: reserve_def reserve_check_def mutable_memory_new_def mutable_memory_stats_default_def saturating_sub_def
        mutable_retention_limits_default_def Let_def)
  then have prep: "mutable_prepare False (mutable_empty 0) ?charge (mutable_memory_new ?l) = (Inr (Unique rv), pool)"
    by (simp add: mutable_prepare_def mutable_empty_def at_sequence_def)
  obtain table where table: "apply_write_batch (at_sequence 0) ?batch 1 1 = Inr table" "mt_approximate_bytes table = 26"
    by (simp add: apply_write_batch_def charge charge_add_def memtable_charge_def at_sequence_def saturating_add_def checked_add_def rrf_consts)
  let ?cur = "(mutable_empty 0)\<lparr>mg_table := table, mg_reservation := absorb (mg_reservation (mutable_empty 0)) rv\<rparr>"
  have "apply_with False (Unique rv) (mutable_empty 0) (\<lambda>t. apply_write_batch t ?batch 1 1) = (Inr (), ?cur, None)"
    using table(1) by (simp add: apply_with_def mutable_empty_def)
  from memory_step.written [OF charge _ prep this, of "[]"]
  have one: "memory_step ?s0 \<lparr>mst_pool = pool, mst_current = ?cur, mst_retained = []\<rparr>" by simp
  have "memory_step \<lparr>mst_pool = pool, mst_current = ?cur, mst_retained = []\<rparr>
      \<lparr>mst_pool = pool, mst_current = mutable_empty 1, mst_retained = [?cur]\<rparr>" by (rule memory_step.flushed)
  with one have run: "memory_step\<^sup>*\<^sup>* ?s0 \<lparr>mst_pool = pool, mst_current = mutable_empty 1, mst_retained = [?cur]\<rparr>"
    by (meson r_into_rtranclp rtranclp.rtrancl_into_rtrancl)
  from memory_accounts_generations [OF run]
  have "mm_accounted_bytes (mp_stats pool) = 26" "mm_generations (mp_stats pool) \<le> 64"
    by (simp_all add: table(2) mutable_empty_def at_sequence_def mutable_retention_limits_default_def)
  then show ?thesis
    by (intro exI [of _ "\<lparr>mst_pool = pool, mst_current = mutable_empty 1, mst_retained = [?cur]\<rparr>"] conjI run) simp_all
qed

end
