(* ===== verification/Database.thy ===== *)
theory Database
  imports Manifest_Store Mutable_Memory Transaction Wal
begin

text \<open>
  The state of an open database and its reads (\<open>rrd-lsm/src/database.rs\<close>). The database is a record
  of its parts; next to the manifest store it holds what is on disk below the root: the segment files
  by identity and the log files by starting sequence, where the log being written is the file of
  the writer \<open>db_wal\<close>. Reference counts, the page cache, native I/O modes, timing and diagnostics
  are not part of the state.
\<close>

section \<open>Policies and options\<close>

record maintenance_policy =
  mp_wal_payload_max_bytes :: nat
  mp_memtable_max_versions :: nat

definition maintenance_policy_default :: maintenance_policy where
  "maintenance_policy_default = \<lparr>mp_wal_payload_max_bytes = 67108864, mp_memtable_max_versions = 524288\<rparr>"

definition maintenance_policy_validate :: "maintenance_policy \<Rightarrow> unit res" where
  "maintenance_policy_validate p = fail_if (mp_wal_payload_max_bytes p = 0 \<or> mp_memtable_max_versions p = 0)
     (InvalidConfiguration ''WAL payload and memtable version limits must be greater than zero'')"

record compaction_policy =
  cp_l0_compaction_trigger :: nat
  cp_max_input_segments :: nat
  cp_target_segment_bytes :: nat
  cp_max_level :: nat

definition compaction_policy_default :: compaction_policy where
  "compaction_policy_default = \<lparr>cp_l0_compaction_trigger = 8, cp_max_input_segments = 16,
     cp_target_segment_bytes = 8388608, cp_max_level = 6\<rparr>"

definition compaction_policy_validate :: "compaction_policy \<Rightarrow> unit res" where
  "compaction_policy_validate p = fail_if
     (cp_l0_compaction_trigger p < 2 \<or> cp_max_input_segments p < 2 \<or> cp_target_segment_bytes p = 0 \<or> cp_max_level p = 0)
     (InvalidConfiguration ''compaction requires an L0 trigger and input bound of at least two, a non-zero output target, and at least one level'')"

datatype page_cache_policy = ExactLru | ScanResistantLru nat

definition page_cache_policy_validate :: "page_cache_policy \<Rightarrow> unit res" where
  "page_cache_policy_validate p =
     (case p of
        ExactLru \<Rightarrow> Inr ()
      | ScanResistantLru points \<Rightarrow> fail_if (\<not> (1 \<le> points \<and> points < 10000))
          (InvalidConfiguration ''scan-resistant page cache protected capacity must be between 1 and 9,999 basis points''))"

definition protected_capacity_bytes :: "page_cache_policy \<Rightarrow> nat \<Rightarrow> nat res" where
  "protected_capacity_bytes p capacity_bytes =
     rbind (page_cache_policy_validate p) (\<lambda>_.
     ok_or (InvalidConfiguration ''page-cache protected-capacity calculation overflow'')
       (map_option (\<lambda>bytes. bytes div 10000)
          (checked_mul capacity_bytes (case p of ExactLru \<Rightarrow> 0 | ScanResistantLru points \<Rightarrow> points))))"

datatype segment_io_mode = Auto | Mmap | IoUring | Bounded

record segment_io_policy =
  sip_mode :: segment_io_mode
  sip_allow_fallback :: bool
  sip_max_request_bytes :: nat
  sip_max_open_files :: nat

definition segment_io_policy_default :: segment_io_policy where
  "segment_io_policy_default = \<lparr>sip_mode = Auto, sip_allow_fallback = True, sip_max_request_bytes = 16777216,
     sip_max_open_files = 128\<rparr>"

definition segment_io_policy_validate :: "segment_io_policy \<Rightarrow> unit res" where
  "segment_io_policy_validate p =
     rbind (fail_if (\<not> (1 \<le> sip_max_open_files p \<and> sip_max_open_files p \<le> 4096))
              (InvalidConfiguration ''segment open-file bound must be in 1..=4096'')) (\<lambda>_.
     fail_if (\<not> (4096 \<le> sip_max_request_bytes p \<and> sip_max_request_bytes p \<le> 67108864))
       (InvalidConfiguration ''segment I/O request bound must be in 4096..=67108864 bytes''))"

record database_options =
  opt_checkpoint_entries :: nat
  opt_transaction_limits :: transaction_limits
  opt_active_read_views :: nat
  opt_pinned_read_bytes :: nat
  opt_recovery_reserve_bytes :: nat
  opt_projected_output_bytes :: nat
  opt_source_page_bytes :: nat
  opt_page_cache_bytes :: nat
  opt_page_cache_policy :: page_cache_policy
  opt_segment_io :: segment_io_policy
  opt_segment_row_group_budget :: segment_row_group_budget
  opt_segment_compression :: segment_compression_policy
  opt_maintenance :: maintenance_policy
  opt_mutable_limits :: mutable_limits
  opt_mutable_retention :: mutable_retention_limits
  opt_compaction :: compaction_policy
  opt_compaction_limits :: compaction_limits
  opt_reclamation :: reclamation_limits
  opt_recovery :: recovery_limits

definition database_options_default :: database_options where
  "database_options_default = \<lparr>
     opt_checkpoint_entries = DEFAULT_CHECKPOINT_ENTRIES,
     opt_transaction_limits = transaction_limits_default,
     opt_active_read_views = 1024,
     opt_pinned_read_bytes = 4294967296,
     opt_recovery_reserve_bytes = 16777216,
     opt_projected_output_bytes = 134217728,
     opt_source_page_bytes = 268435456,
     opt_page_cache_bytes = 4194304,
     opt_page_cache_policy = ScanResistantLru 8000,
     opt_segment_io = segment_io_policy_default,
     opt_segment_row_group_budget = \<lparr>gb_max_rows = 2048, gb_target_bytes = 65536\<rparr>,
     opt_segment_compression = AdaptiveLz4 1250 16777216,
     opt_maintenance = maintenance_policy_default,
     opt_mutable_limits = mutable_limits_default,
     opt_mutable_retention = mutable_retention_limits_default,
     opt_compaction = compaction_policy_default,
     opt_compaction_limits = compaction_limits_default,
     opt_reclamation = reclamation_limits_default,
     opt_recovery = recovery_limits_default\<rparr>"

definition options_validate :: "database_options \<Rightarrow> unit res" where
  "options_validate opts =
     rbind (fail_if (opt_checkpoint_entries opts = 0 \<or> opt_checkpoint_entries opts > 65536)
              (InvalidConfiguration ''checkpoint entries must be in 1..=65536'')) (\<lambda>_.
     rbind (fail_if (opt_source_page_bytes opts = 0 \<or> opt_projected_output_bytes opts = 0 \<or> opt_recovery_reserve_bytes opts = 0
                     \<or> opt_active_read_views opts = 0 \<or> opt_pinned_read_bytes opts = 0)
              (InvalidConfiguration ''source pages, projected output, read retention and recovery reserve must be positive'')) (\<lambda>_.
     rbind (protected_capacity_bytes (opt_page_cache_policy opts) (opt_page_cache_bytes opts)) (\<lambda>_.
     rbind (segment_io_policy_validate (opt_segment_io opts)) (\<lambda>_.
     rbind (row_group_budget_validate (opt_segment_row_group_budget opts)) (\<lambda>_.
     rbind (compression_policy_validate (opt_segment_compression opts)) (\<lambda>_.
     rbind (transaction_limits_validate (opt_transaction_limits opts)) (\<lambda>_.
     rbind (maintenance_policy_validate (opt_maintenance opts)) (\<lambda>_.
     rbind (limits_validate (opt_mutable_limits opts)) (\<lambda>_.
     rbind (fail_if (mr_accounted_bytes (opt_mutable_retention opts) < ml_accounted_bytes (opt_mutable_limits opts)
                     \<or> mr_versions (opt_mutable_retention opts) < ml_versions (opt_mutable_limits opts)
                     \<or> mr_generations (opt_mutable_retention opts) = 0)
              (InvalidConfiguration ''mutable retention must cover active limits and at least one generation'')) (\<lambda>_.
     rbind (compaction_policy_validate (opt_compaction opts)) (\<lambda>_.
     rbind (compaction_limits_validate (opt_compaction_limits opts)) (\<lambda>_.
     rbind (reclamation_limits_validate (opt_reclamation opts)) (\<lambda>_.
     rbind (recovery_limits_validate (opt_recovery opts)) (\<lambda>_.
     fail_if (cl_l0_segments (opt_compaction_limits opts) < cp_l0_compaction_trigger (opt_compaction opts))
       (InvalidConfiguration ''L0 hard capacity is below its compaction trigger'')))))))))))))))"

record maintenance_stats =
  mst_automatic_flushes :: nat
  mst_write_stalls :: nat
  mst_failed_flushes :: nat
  mst_oversized_batches :: nat
  mst_peak_wal_payload_bytes :: nat
  mst_peak_memtable_versions :: nat
  mst_peak_accounted_memtable_bytes :: nat
  mst_automatic_compactions :: nat
  mst_failed_compactions :: nat
  mst_compaction_input_bytes :: nat
  mst_compaction_output_bytes :: nat
  mst_peak_compaction_buffer_bytes :: nat

definition maintenance_stats_default :: maintenance_stats where
  "maintenance_stats_default = \<lparr>mst_automatic_flushes = 0, mst_write_stalls = 0, mst_failed_flushes = 0,
     mst_oversized_batches = 0, mst_peak_wal_payload_bytes = 0, mst_peak_memtable_versions = 0,
     mst_peak_accounted_memtable_bytes = 0, mst_automatic_compactions = 0, mst_failed_compactions = 0,
     mst_compaction_input_bytes = 0, mst_compaction_output_bytes = 0, mst_peak_compaction_buffer_bytes = 0\<rparr>"

section \<open>The database\<close>

record database =
  db_manifests :: manifest_store
  db_manifest :: manifest
  db_wal :: wal_writer
  db_wals :: "nat \<rightharpoonup> bytes"
  db_memtable :: mutable_generation
  db_mutable_memory :: mutable_pool
  db_segments :: "segment list"
  db_segment_files :: segment_files
  db_point_index :: "index_node list"
  db_options :: database_options
  db_reclamation_pending :: bool
  db_maintenance_stats :: maintenance_stats
  db_wal_payload_bytes :: nat
  db_writer_requires_reopen :: "string option"
  db_transaction_snapshots :: transaction_snapshots
  db_identity :: nat

abbreviation db_table :: "database \<Rightarrow> memtable" where
  "db_table db \<equiv> mg_table (db_memtable db)"

definition db_snapshot :: "database \<Rightarrow> nat" where
  "db_snapshot db = mt_maximum_sequence (db_table db)"

definition ensure_writer_ready :: "database \<Rightarrow> unit res" where
  "ensure_writer_ready db =
     rbind (ensure_publication_ready (db_manifests db)) (\<lambda>_.
     case db_writer_requires_reopen db of
       Some boundary \<Rightarrow> Inl (RecoveryRequired boundary)
     | None \<Rightarrow> Inr ())"

definition l0_segment_count :: "database \<Rightarrow> nat" where
  "l0_segment_count db = length (filter (\<lambda>seg. sd_level (sg_descriptor seg) = 0) (db_segments db))"

definition compaction_debt_segments :: "database \<Rightarrow> nat" where
  "compaction_debt_segments db = saturating_sub (l0_segment_count db)
     (saturating_sub (cp_l0_compaction_trigger (opt_compaction (db_options db))) 1)"

section \<open>Point reads\<close>

text \<open>
  The captured state of the search: the best sequence, its segment ordinal, and the selected row.
  \<open>usize::MAX\<close> is the initial ordinal.
\<close>

definition get_candidate ::
  "codec \<Rightarrow> segment list \<Rightarrow> bytes \<Rightarrow> nat \<Rightarrow> nat \<times> nat \<times> (nat \<times> selected_version) option \<Rightarrow> nat
     \<Rightarrow> (nat \<times> nat \<times> (nat \<times> selected_version) option) res" where
  "get_candidate cx segs key snapshot = (\<lambda>(best_sequence, best_ordinal, selected) ordinal.
     rbind (select_version cx (segs ! ordinal) key snapshot) (\<lambda>version.
     case version of
       None \<Rightarrow> Inr (best_sequence, best_ordinal, selected)
     | Some v \<Rightarrow>
         if sv_sequence v > best_sequence \<or> (sv_sequence v = best_sequence \<and> ordinal < best_ordinal)
         then Inr (sv_sequence v, ordinal, Some (ordinal, v))
         else Inr (best_sequence, best_ordinal, selected)))"

definition database_get :: "codec \<Rightarrow> database \<Rightarrow> bytes \<Rightarrow> nat \<Rightarrow> bytes option res" where
  "database_get cx db key snapshot =
     (case memtable_get_version (db_table db) key snapshot of
        Some version \<Rightarrow> Inr (vv_value version)
      | None \<Rightarrow>
          rbind (point_index_visit (db_point_index db) (\<lambda>i. map sg_descriptor (db_segments db) ! i) key
                   (get_candidate cx (db_segments db) key snapshot) (0, u64_max, None))
            (\<lambda>(visited, best_sequence, best_ordinal, selected).
          case selected of
            Some (ordinal, version) \<Rightarrow> selected_value cx (db_segments db ! ordinal) version
          | None \<Rightarrow> Inr None))"

fun try_map :: "('a \<Rightarrow> 'e + 'b) \<Rightarrow> 'a list \<Rightarrow> 'e + 'b list" where
  "try_map f [] = Inr []"
| "try_map f (x # xs) = rbind (f x) (\<lambda>y. rbind (try_map f xs) (\<lambda>ys. Inr (y # ys)))"

text \<open>\<open>get_many\<close>: select over all segments first, then read the selected values segment by segment.\<close>

definition select_better ::
  "codec \<Rightarrow> segment list \<Rightarrow> bytes list \<Rightarrow> nat \<Rightarrow> nat list \<Rightarrow> nat
     \<Rightarrow> (nat \<times> selected_version) option list \<Rightarrow> nat \<Rightarrow> (nat \<times> selected_version) option list res" where
  "select_better cx segs keys snapshot unresolved ordinal selected position =
     rbind (select_version cx (segs ! ordinal) (keys ! (unresolved ! position)) snapshot) (\<lambda>version.
     case version of
       None \<Rightarrow> Inr selected
     | Some v \<Rightarrow>
         if (case selected ! position of None \<Rightarrow> True | Some (_, current) \<Rightarrow> sv_sequence v > sv_sequence current)
         then Inr (selected[position := Some (ordinal, v)]) else Inr selected)"

definition take_selected ::
  "codec \<Rightarrow> segment list \<Rightarrow> nat list \<Rightarrow> nat \<Rightarrow> bytes option list \<times> (nat \<times> selected_version) option list \<Rightarrow> nat
     \<Rightarrow> (bytes option list \<times> (nat \<times> selected_version) option list) res" where
  "take_selected cx segs unresolved ordinal = (\<lambda>(vals, selected) position.
     case selected ! position of
       Some (owner, v) \<Rightarrow>
         if owner = ordinal then
           rbind (selected_value cx (segs ! ordinal) v) (\<lambda>x.
           Inr (vals[unresolved ! position := x], selected[position := None]))
         else Inr (vals, selected)
     | None \<Rightarrow> Inr (vals, selected))"

definition database_get_many :: "codec \<Rightarrow> database \<Rightarrow> bytes list \<Rightarrow> nat \<Rightarrow> bytes option list res" where
  "database_get_many cx db keys snapshot =
     (let segs = db_segments db in
      if length segs \<le> 1 then try_map (\<lambda>key. database_get cx db key snapshot) keys
      else
        let found = map (\<lambda>key. memtable_get_version (db_table db) key snapshot) keys;
            vals = map (\<lambda>v. Option.bind v vv_value) found;
            unresolved = filter (\<lambda>index. found ! index = None) [0..<length keys] in
        if unresolved = [] then Inr vals
        else
          rbind (try_fold (\<lambda>selected ordinal.
                   try_fold (select_better cx segs keys snapshot unresolved ordinal) selected [0..<length unresolved])
                   (replicate (length unresolved) None) [0..<length segs]) (\<lambda>selected.
          rbind (try_fold (\<lambda>st ordinal.
                   try_fold (take_selected cx segs unresolved ordinal) st [0..<length unresolved])
                   (vals, selected) [0..<length segs]) (\<lambda>(vals, selected).
          Inr vals)))"

definition latest_sequence_for_key :: "codec \<Rightarrow> database \<Rightarrow> bytes \<Rightarrow> nat option res" where
  "latest_sequence_for_key cx db key =
     (let read_sequence = db_snapshot db in
      case memtable_get_version (db_table db) key read_sequence of
        Some version \<Rightarrow> Inr (Some (vv_sequence version))
      | None \<Rightarrow>
          try_fold (\<lambda>latest seg.
            rbind (get_sequence cx seg key read_sequence) (\<lambda>sequence.
            case sequence of
              None \<Rightarrow> Inr latest
            | Some n \<Rightarrow> Inr (if (case latest of None \<Rightarrow> True | Some l \<Rightarrow> n > l) then Some n else latest)))
            None (db_segments db))"

section \<open>Scans\<close>

definition visible_values :: "(bytes, versioned_value) btree \<Rightarrow> (bytes \<times> bytes) list" where
  "visible_values visible = List.map_filter (\<lambda>(key, version). map_option (Pair key) (vv_value version)) visible"

definition database_scan ::
  "codec \<Rightarrow> database \<Rightarrow> bytes \<Rightarrow> bytes option \<Rightarrow> nat \<Rightarrow> (bytes \<times> bytes) list res" where
  "database_scan cx db start stop snapshot =
     (case db_segments db of
        [] \<Rightarrow> memtable_scan (db_table db) start stop snapshot
      | seg # rest \<Rightarrow>
          if rest = [] \<and> mt_version_count (db_table db) = 0 then segment_scan cx seg start stop snapshot
          else
            rbind (try_fold (\<lambda>visible seg.
                     rbind (segment_visible_from cx seg start stop snapshot) (\<lambda>es. Inr (foldl newest_put visible es)))
                     [] (db_segments db)) (\<lambda>visible.
            rbind (memtable_visible_from (db_table db) start stop snapshot) (\<lambda>es.
            Inr (visible_values (foldl newest_put visible es)))))"

definition scan_ranges_rejected :: "(bytes \<times> bytes) list \<Rightarrow> bool" where
  "scan_ranges_rejected ranges \<longleftrightarrow> list_ex (\<lambda>(start, stop). start \<ge> stop) ranges
     \<or> list_ex (\<lambda>(a, b). snd a > fst b) (windows2 ranges)"

definition database_scan_ranges ::
  "codec \<Rightarrow> database \<Rightarrow> (bytes \<times> bytes) list \<Rightarrow> nat \<Rightarrow> (bytes \<times> bytes) list res" where
  "database_scan_ranges cx db ranges snapshot =
     rbind (fail_if (scan_ranges_rejected ranges)
              (InvalidConfiguration ''multi-range scan requires sorted, disjoint, non-empty half-open ranges'')) (\<lambda>_.
     if ranges = [] then Inr []
     else
       rbind (try_fold (\<lambda>visible seg.
                rbind (segment_visible_ranges cx seg ranges snapshot) (\<lambda>es. Inr (foldl newest_put visible es)))
                [] (db_segments db)) (\<lambda>visible.
       rbind (try_fold (\<lambda>visible (start, stop).
                rbind (memtable_visible_from (db_table db) start (Some stop) snapshot) (\<lambda>es. Inr (foldl newest_put visible es)))
                visible ranges) (\<lambda>visible.
       Inr (visible_values visible))))"

text \<open>The visitor is a function on its own state with its own errors; \<open>from_error\<close> embeds an engine error.\<close>

definition database_scan_each ::
  "(lsm_error \<Rightarrow> 'e) \<Rightarrow> codec \<Rightarrow> database \<Rightarrow> bytes \<Rightarrow> bytes option \<Rightarrow> nat
     \<Rightarrow> ('s \<Rightarrow> bytes \<Rightarrow> bytes \<Rightarrow> 'e + 's) \<Rightarrow> 's \<Rightarrow> 'e + 's" where
  "database_scan_each from_error cx db start stop snapshot visit st =
     (if db_segments db = [] then memtable_scan_each from_error (db_table db) start stop snapshot visit st
      else case database_scan cx db start stop snapshot of
        Inl e \<Rightarrow> Inl (from_error e)
      | Inr rows \<Rightarrow> try_fold (\<lambda>st (key, v). visit st key v) st rows)"

end
