(* ===== verification/Stateful.thy ===== *)
theory Stateful
  imports Lsm_Error
begin

text \<open>
  Operations that change a state and may fail or stop. An operation maps a state to an outcome and the
  state it leaves, also when it fails: \<open>Some (Inr x)\<close> is a returned value, \<open>Some (Inl e)\<close> a returned
  error, and \<open>None\<close> the end of the process in the middle of it. The sequencing \<open>sbind\<close> is the source's
  \<open>?\<close> on a mutable receiver.
\<close>

type_synonym ('s, 'a) op = "'s \<Rightarrow> 'a res option \<times> 's"

definition sret :: "'a \<Rightarrow> ('s, 'a) op" where
  "sret x s = (Some (Inr x), s)"

definition sbind :: "('s, 'a) op \<Rightarrow> ('a \<Rightarrow> ('s, 'b) op) \<Rightarrow> ('s, 'b) op" where
  "sbind m f s =
     (case m s of
        (None, s') \<Rightarrow> (None, s')
      | (Some (Inl e), s') \<Rightarrow> (Some (Inl e), s')
      | (Some (Inr x), s') \<Rightarrow> f x s')"

definition slift :: "'a res \<Rightarrow> ('s, 'a) op" where
  "slift r s = (Some r, s)"

definition sread :: "('s \<Rightarrow> ('s, 'a) op) \<Rightarrow> ('s, 'a) op" where
  "sread f s = f s s"

definition smodify :: "('s \<Rightarrow> 's) \<Rightarrow> ('s, unit) op" where
  "smodify f s = (Some (Inr ()), f s)"

text \<open>The same sequencing with the caller looking at the outcome (\<open>match\<close> on a result).\<close>

definition scatch :: "('s, 'a) op \<Rightarrow> ('a res \<Rightarrow> ('s, 'b) op) \<Rightarrow> ('s, 'b) op" where
  "scatch m f s =
     (case m s of
        (None, s') \<Rightarrow> (None, s')
      | (Some r, s') \<Rightarrow> f r s')"

fun sfold :: "('a \<Rightarrow> 'b \<Rightarrow> ('s, 'a) op) \<Rightarrow> 'a \<Rightarrow> 'b list \<Rightarrow> ('s, 'a) op" where
  "sfold f x [] = sret x"
| "sfold f x (y # ys) = sbind (f x y) (\<lambda>x'. sfold f x' ys)"

section \<open>Reasoning about every outcome\<close>

text \<open>\<open>runs m s P Q\<close>: from \<open>s\<close> a value is returned only in a state satisfying \<open>P\<close>, and every other outcome leaves one satisfying \<open>Q\<close>.\<close>

definition runs :: "('s, 'a) op \<Rightarrow> 's \<Rightarrow> ('a \<Rightarrow> 's \<Rightarrow> bool) \<Rightarrow> ('s \<Rightarrow> bool) \<Rightarrow> bool" where
  "runs m s P Q \<longleftrightarrow> (case m s of (Some (Inr x), s') \<Rightarrow> P x s' | (_, s') \<Rightarrow> Q s')"

lemma op_cases [case_names returned error stopped]:
  assumes "\<And>x s'. out = (Some (Inr x), s') \<Longrightarrow> thesis" and "\<And>e s'. out = (Some (Inl e), s') \<Longrightarrow> thesis"
    and "\<And>s'. out = (None, s') \<Longrightarrow> thesis"
  shows thesis
  using assms by (metis option.exhaust prod.exhaust sum.exhaust)

lemma runs_bind:
  assumes "runs m s P Q" and "\<And>x s'. P x s' \<Longrightarrow> runs (f x) s' R Q"
  shows "runs (sbind m f) s R Q"
proof (cases "m s" rule: op_cases)
  case (returned x s')
  then show ?thesis using assms(1) assms(2) [of x s'] by (simp add: runs_def sbind_def)
qed (use assms(1) in \<open>simp_all add: runs_def sbind_def\<close>)

lemma runs_ret: "P x s \<Longrightarrow> runs (sret x) s P Q"
  by (simp add: runs_def sret_def)

lemma runs_lift: "(\<And>x. r = Inr x \<Longrightarrow> P x s) \<Longrightarrow> Q s \<Longrightarrow> runs (slift r) s P Q"
  by (cases r) (auto simp: runs_def slift_def)

lemma runs_lift_bind: "Q s \<Longrightarrow> (\<And>x. r = Inr x \<Longrightarrow> runs (f x) s P Q) \<Longrightarrow> runs (sbind (slift r) f) s P Q"
  by (cases r) (simp_all add: runs_def sbind_def slift_def)

lemma runs_modify_bind: "runs (g ()) (f s) P Q \<Longrightarrow> runs (sbind (smodify f) g) s P Q"
  by (simp add: runs_def sbind_def smodify_def)

lemma runs_read: "runs (f s) s P Q \<Longrightarrow> runs (sread f) s P Q"
  by (simp add: runs_def sread_def)

lemma runs_modify: "P () (f s) \<Longrightarrow> runs (smodify f) s P Q"
  by (simp add: runs_def smodify_def)

lemma runs_weaken: "runs m s P Q \<Longrightarrow> (\<And>x s'. P x s' \<Longrightarrow> P' x s') \<Longrightarrow> (\<And>s'. Q s' \<Longrightarrow> Q' s') \<Longrightarrow> runs m s P' Q'"
  by (auto simp: runs_def split: prod.splits option.splits sum.splits)

lemma runs_catch:
  assumes "runs m s P Q" and "\<And>x s'. P x s' \<Longrightarrow> runs (f (Inr x)) s' R S"
    and "\<And>e s'. Q s' \<Longrightarrow> runs (f (Inl e)) s' R S" and "\<And>s'. Q s' \<Longrightarrow> S s'"
  shows "runs (scatch m f) s R S"
proof (cases "m s" rule: op_cases)
  case (returned x s')
  then show ?thesis using assms(1) assms(2) [of x s'] by (simp add: runs_def scatch_def)
next
  case (error e s')
  then show ?thesis using assms(1) assms(3) [of s' e] by (simp add: runs_def scatch_def)
qed (use assms(1,4) in \<open>simp_all add: runs_def scatch_def\<close>)

lemma runs_fold:
  assumes "P [] x s" and "\<And>ys y zs x s. xs = ys @ y # zs \<Longrightarrow> P ys x s \<Longrightarrow> runs (f x y) s (P (ys @ [y])) Q"
  shows "runs (sfold f x xs) s (P xs) Q"
proof -
  have "runs (sfold f x zs) s (P xs) Q" if "xs = ys @ zs" "P ys x s" for ys zs x s
    using that
  proof (induction zs arbitrary: ys x s)
    case Nil
    then show ?case by (simp add: runs_ret)
  next
    case (Cons y zs)
    have "runs (f x y) s (P (ys @ [y])) Q" using assms(2) Cons.prems by blast
    then show ?case using Cons.IH [of "ys @ [y]"] Cons.prems(1) by (auto intro: runs_bind)
  qed
  from this [of "[]" xs x s] assms(1) show ?thesis by simp
qed

lemma runsD: "runs m s P Q \<Longrightarrow> m s = (r, s') \<Longrightarrow> (\<exists>x. r = Some (Inr x) \<and> P x s') \<or> ((\<nexists>x. r = Some (Inr x)) \<and> Q s')"
  by (auto simp: runs_def split: option.splits sum.splits)

lemma runs_value: "runs m s P Q \<Longrightarrow> m s = (Some (Inr x), s') \<Longrightarrow> P x s'"
  by (simp add: runs_def)

lemma runs_other: "runs m s P Q \<Longrightarrow> m s = (r, s') \<Longrightarrow> (\<And>x. r \<noteq> Some (Inr x)) \<Longrightarrow> Q s'"
  by (auto simp: runs_def split: option.splits sum.splits)

section \<open>Outcomes that depend on the error\<close>

text \<open>As \<open>runs\<close>, where the condition on the other outcomes may look at the error; \<open>None\<close> is the end of the process.\<close>

definition ends :: "('s, 'a) op \<Rightarrow> 's \<Rightarrow> ('a \<Rightarrow> 's \<Rightarrow> bool) \<Rightarrow> (lsm_error option \<Rightarrow> 's \<Rightarrow> bool) \<Rightarrow> bool" where
  "ends m s P E \<longleftrightarrow> (case m s of (Some (Inr x), s') \<Rightarrow> P x s' | (Some (Inl e), s') \<Rightarrow> E (Some e) s' | (None, s') \<Rightarrow> E None s')"

lemma ends_runs: "ends m s P (\<lambda>_. Q) \<longleftrightarrow> runs m s P Q"
  by (auto simp: ends_def runs_def split: prod.splits option.splits sum.splits)

lemma ends_weaken: "ends m s P E \<Longrightarrow> (\<And>x s'. P x s' \<Longrightarrow> P' x s') \<Longrightarrow> (\<And>e s'. E e s' \<Longrightarrow> E' e s') \<Longrightarrow> ends m s P' E'"
  by (auto simp: ends_def split: prod.splits option.splits sum.splits)

lemma runs_ends: "runs m s P Q \<Longrightarrow> (\<And>e s'. Q s' \<Longrightarrow> E e s') \<Longrightarrow> ends m s P E"
  by (rule ends_weaken [where P = P and E = "\<lambda>_. Q"]) (auto simp: ends_runs)

lemma ends_bind:
  assumes "ends m s P E" and "\<And>x s'. P x s' \<Longrightarrow> ends (f x) s' R E"
  shows "ends (sbind m f) s R E"
proof (cases "m s" rule: op_cases)
  case (returned x s')
  then show ?thesis using assms(1) assms(2) [of x s'] by (simp add: ends_def sbind_def)
qed (use assms(1) in \<open>simp_all add: ends_def sbind_def\<close>)

lemma ends_ret: "P x s \<Longrightarrow> ends (sret x) s P E"
  by (simp add: ends_def sret_def)

lemma ends_lift: "(\<And>x. r = Inr x \<Longrightarrow> P x s) \<Longrightarrow> (\<And>e. r = Inl e \<Longrightarrow> E (Some e) s) \<Longrightarrow> ends (slift r) s P E"
  by (cases r) (auto simp: ends_def slift_def)

lemma ends_lift_bind:
  "(\<And>e. r = Inl e \<Longrightarrow> E (Some e) s) \<Longrightarrow> (\<And>x. r = Inr x \<Longrightarrow> ends (f x) s P E) \<Longrightarrow> ends (sbind (slift r) f) s P E"
  by (cases r) (simp_all add: ends_def sbind_def slift_def)

lemma ends_modify_bind: "ends (g ()) (f s) P E \<Longrightarrow> ends (sbind (smodify f) g) s P E"
  by (simp add: ends_def sbind_def smodify_def)

lemma ends_read: "ends (f s) s P E \<Longrightarrow> ends (sread f) s P E"
  by (simp add: ends_def sread_def)

lemma ends_catch:
  assumes "ends m s P E" and "\<And>x s'. P x s' \<Longrightarrow> ends (f (Inr x)) s' R F"
    and "\<And>e s'. E (Some e) s' \<Longrightarrow> ends (f (Inl e)) s' R F" and "\<And>s'. E None s' \<Longrightarrow> F None s'"
  shows "ends (scatch m f) s R F"
proof (cases "m s" rule: op_cases)
  case (returned x s')
  then show ?thesis using assms(1) assms(2) [of x s'] by (simp add: ends_def scatch_def)
next
  case (error e s')
  then show ?thesis using assms(1) assms(3) [of e s'] by (simp add: ends_def scatch_def)
qed (use assms(1,4) in \<open>simp_all add: ends_def scatch_def\<close>)

end
