(* ===== verification/Database_Flush.thy ===== *)
theory Database_Flush
  imports Database Stateful
begin

text \<open>
  Flushing the memtable (\<open>database.rs\<close>, \<open>flush_memtable_inner\<close>): the memtable is cut into key
  ranges, each is written as a segment, an empty successor log is prepared, and one manifest
  publishes both. What the operating system and the clock answer is a record per operation.
\<close>

section \<open>Injected failures\<close>

datatype failure_mode = Crash | StorageFull

fun failure_mode_str :: "failure_mode \<Rightarrow> string" where
  "failure_mode_str Crash = ''crash''"
| "failure_mode_str StorageFull = ''storage-full''"

datatype flush_boundary = FlushWalSynced | FlushSegmentSynced | FlushSuccessorWalSynced | FlushManifestPublished

fun flush_boundary_str :: "flush_boundary \<Rightarrow> string" where
  "flush_boundary_str FlushWalSynced = ''flush.wal_synced''"
| "flush_boundary_str FlushSegmentSynced = ''flush.segment_synced''"
| "flush_boundary_str FlushSuccessorWalSynced = ''flush.successor_wal_synced''"
| "flush_boundary_str FlushManifestPublished = ''flush.manifest_published''"

definition inject_failure :: "(flush_boundary \<times> failure_mode) option \<Rightarrow> flush_boundary \<Rightarrow> unit res" where
  "inject_failure configured reached =
     (case configured of
        Some (boundary, mode) \<Rightarrow> fail_if (boundary = reached) (InjectedFailure (failure_mode_str mode) (flush_boundary_str boundary))
      | None \<Rightarrow> Inr ())"

section \<open>Steps of the database\<close>

text \<open>The log files on disk: the one being written and the others.\<close>

definition disk_wals :: "database \<Rightarrow> nat \<rightharpoonup> bytes" where
  "disk_wals db = (db_wals db)(man_wal_start_sequence (db_manifest db) \<mapsto> wal_file (db_wal db))"

definition all_versions :: "memtable \<Rightarrow> (bytes \<times> versioned_value list) list" where
  "all_versions m = map (\<lambda>(key, c). (key, chain_slice c)) (mt_versions m)"

definition new_manifest ::
  "codec \<Rightarrow> json \<Rightarrow> nat \<Rightarrow> string option \<Rightarrow> nat \<Rightarrow> nat \<Rightarrow> nat \<Rightarrow> segment_descriptor list \<Rightarrow> nat option \<Rightarrow> manifest res" where
  "new_manifest cx j generation parent created_at durable_sequence wal_start_sequence segments application_format =
     (case application_format of
        Some app \<Rightarrow> manifest_new_with_application_format cx j generation parent created_at durable_sequence wal_start_sequence segments app
      | None \<Rightarrow> manifest_new cx j generation parent created_at durable_sequence wal_start_sequence segments)"

definition db_wal_sync :: "os_sync \<Rightarrow> (database, nat) op" where
  "db_wal_sync outcome db = (let (r, w) = wal_sync outcome (db_wal db) in (r, db\<lparr>db_wal := w\<rparr>))"

definition db_write_segment ::
  "codec \<Rightarrow> (bytes \<Rightarrow> page_source) \<Rightarrow> publish_outcome \<Rightarrow> (bytes \<times> versioned_value list) list \<Rightarrow> (database, segment) op" where
  "db_write_segment cx backend os versions db =
     (let (r, files) = write_from_versions cx backend os versions (opt_segment_row_group_budget (db_options db))
                         (opt_segment_compression (db_options db)) (db_segment_files db)
      in (Some r, db\<lparr>db_segment_files := files\<rparr>))"

definition db_publish :: "codec \<Rightarrow> json \<Rightarrow> rename_outcome \<times> rename_outcome \<Rightarrow> manifest \<Rightarrow> (database, current_pointer) op" where
  "db_publish cx j os next db =
     (let (r, store) = store_publish cx j os next (Some (man_digest (db_manifest db))) (db_manifests db)
      in (Some r, db\<lparr>db_manifests := store\<rparr>))"

text \<open>A generation that no reader retains returns its reservation to the pool when it is dropped.\<close>

definition db_drop_generation :: "bool \<Rightarrow> mutable_generation \<Rightarrow> (database, unit) op" where
  "db_drop_generation shared g db =
     (if shared then (Some (Inr ()), db)
      else case drop_reservation (mg_reservation g) (db_mutable_memory db) of
        Inl e \<Rightarrow> (Some (Inl e), db)
      | Inr pool \<Rightarrow> (Some (Inr ()), db\<lparr>db_mutable_memory := pool\<rparr>))"

section \<open>Flush\<close>

record flush_io =
  fio_key_elapsed :: "nat \<Rightarrow> nat"
  fio_sync :: os_sync
  fio_partition_elapsed :: "nat \<Rightarrow> nat"
  fio_segment :: "nat \<Rightarrow> publish_outcome"
  fio_exists :: "io_error option"
  fio_later :: nat
  fio_open_sync :: os_sync
  fio_open_sync_dir :: os_sync
  fio_create :: create_io
  fio_publish_elapsed :: nat
  fio_publish :: "rename_outcome \<times> rename_outcome"
  fio_retained :: bool

definition flush_group_bytes :: "bytes \<Rightarrow> versioned_value list \<Rightarrow> nat res" where
  "flush_group_bytes key versions =
     try_fold (\<lambda>bytes version.
       ok_or (InvalidSegment ''flush key-group estimate overflow'')
         (Option.bind (checked_add bytes (length key)) (\<lambda>bytes.
          Option.bind (checked_add bytes (case vv_value version of None \<Rightarrow> 0 | Some x \<Rightarrow> length x)) (\<lambda>bytes.
          checked_add bytes 24)))) 0 versions"

text \<open>One key of the loop that places the partition boundaries; \<open>index\<close> counts the keys.\<close>

definition flush_boundary_step ::
  "flush_io \<Rightarrow> compaction_limits \<Rightarrow> nat \<Rightarrow> nat \<Rightarrow> bytes list \<times> nat \<Rightarrow> nat \<times> bytes \<times> versioned_value list
     \<Rightarrow> (bytes list \<times> nat) res" where
  "flush_boundary_step io limits target l0_segments = (\<lambda>(boundaries, partition_bytes) (index, key, versions).
     rbind (check_elapsed limits (fio_key_elapsed io index)) (\<lambda>_.
     rbind (flush_group_bytes key versions) (\<lambda>group_bytes.
     if boundaries = [] \<or> saturating_add partition_bytes group_bytes > target then
       let outputs = saturating_add (length boundaries) 1 in
       rbind (maintenance_check limits OutputSegments outputs) (\<lambda>_.
       rbind (maintenance_check limits L0Segments (saturating_add l0_segments outputs)) (\<lambda>_.
       Inr (boundaries @ [key], saturating_add 0 group_bytes)))
     else Inr (boundaries, saturating_add partition_bytes group_bytes))))"

definition flush_boundaries :: "flush_io \<Rightarrow> database \<Rightarrow> bytes list res" where
  "flush_boundaries io db =
     rbind (try_fold (flush_boundary_step io (opt_compaction_limits (db_options db))
              (cp_target_segment_bytes (opt_compaction (db_options db))) (l0_segment_count db))
              ([], 0) (enumerate 0 (all_versions (db_table db)))) (\<lambda>(boundaries, _).
     Inr boundaries)"

definition nth_option :: "'a list \<Rightarrow> nat \<Rightarrow> 'a option" where
  "nth_option xs i = (if i < length xs then Some (xs ! i) else None)"

definition flush_partition ::
  "codec \<Rightarrow> (bytes \<Rightarrow> page_source) \<Rightarrow> flush_io \<Rightarrow> bytes list \<Rightarrow> segment list \<Rightarrow> nat \<times> bytes \<Rightarrow> (database, segment list) op" where
  "flush_partition cx backend io boundaries flushed = (\<lambda>(index, first).
     sread (\<lambda>db.
     sbind (slift (check_elapsed (opt_compaction_limits (db_options db)) (fio_partition_elapsed io index))) (\<lambda>_.
     sbind (slift (range_versions (db_table db) (Some first) (nth_option boundaries (index + 1)))) (\<lambda>versions.
     sbind (db_write_segment cx backend (fio_segment io index) versions) (\<lambda>segment.
     sret (flushed @ [segment]))))))"

definition successor_wal :: "crc_fn \<Rightarrow> flush_io \<Rightarrow> nat \<Rightarrow> (database, wal_writer) op" where
  "successor_wal crc io next_sequence db =
     (case fio_exists io of
        Some e \<Rightarrow> (Some (Inl (Io e)), db)
      | None \<Rightarrow>
          (case disk_wals db next_sequence of
             Some file \<Rightarrow> (open_empty_at crc file (fio_later io) next_sequence (fio_open_sync io) (fio_open_sync_dir io), db)
           | None \<Rightarrow>
               let (r, file) = wal_create_at crc (fio_create io) next_sequence in
               (r, case file of
                     None \<Rightarrow> db
                   | Some content \<Rightarrow> db\<lparr>db_wals := (db_wals db)(next_sequence \<mapsto> content)\<rparr>)))"

text \<open>
  The assignments after the publication: the old log stays among the files, the old generation is
  dropped when the memtable is replaced, and the segments follow.
\<close>

definition install_successor :: "nat \<Rightarrow> wal_writer \<Rightarrow> bool \<Rightarrow> (database, unit) op" where
  "install_successor sequence successor retained =
     sread (\<lambda>db.
     sbind (smodify (\<lambda>db. db\<lparr>db_wals := disk_wals db, db_wal := successor, db_memtable := mutable_empty sequence\<rparr>)) (\<lambda>_.
     db_drop_generation retained (db_memtable db)))"

definition install_flushed :: "segment list \<Rightarrow> manifest \<Rightarrow> database \<Rightarrow> database" where
  "install_flushed flushed next db = db\<lparr>
     db_wal_payload_bytes := 0,
     db_segments := db_segments db @ flushed,
     db_point_index := point_index_new (map sg_descriptor (db_segments db) @ map sg_descriptor flushed),
     db_manifest := next,
     db_reclamation_pending := True\<rparr>"

definition flush_commit ::
  "codec \<Rightarrow> json \<Rightarrow> flush_io \<Rightarrow> (flush_boundary \<times> failure_mode) option \<Rightarrow> nat \<Rightarrow> wal_writer \<Rightarrow> segment list \<Rightarrow> manifest
     \<Rightarrow> (database, manifest option) op" where
  "flush_commit cx j io failure sequence successor flushed next =
     sbind (db_publish cx j (fio_publish io) next) (\<lambda>_.
     sbind (install_successor sequence successor (fio_retained io)) (\<lambda>_.
     sbind (smodify (install_flushed flushed next)) (\<lambda>_.
     sbind (slift (inject_failure failure FlushManifestPublished)) (\<lambda>_.
     sret (Some next)))))"

definition flush_output ::
  "codec \<Rightarrow> json \<Rightarrow> crc_fn \<Rightarrow> (bytes \<Rightarrow> page_source) \<Rightarrow> flush_io \<Rightarrow> nat \<Rightarrow> (flush_boundary \<times> failure_mode) option
     \<Rightarrow> bytes list \<Rightarrow> nat \<Rightarrow> (database, manifest option) op" where
  "flush_output cx j crc backend io at failure boundaries sequence =
     sbind (sfold (flush_partition cx backend io boundaries) [] (enumerate 0 boundaries)) (\<lambda>flushed.
     sbind (slift (inject_failure failure FlushSegmentSynced)) (\<lambda>_.
     sbind (slift (ok_or (InvalidBatch ''sequence overflow at flush'') (checked_add sequence 1))) (\<lambda>next_sequence.
     sbind (successor_wal crc io next_sequence) (\<lambda>successor.
     sbind (slift (inject_failure failure FlushSuccessorWalSynced)) (\<lambda>_.
     sread (\<lambda>db.
     sbind (slift (ok_or (InvalidManifest ''manifest generation overflow'')
                     (checked_add (man_generation (db_manifest db)) 1))) (\<lambda>generation.
     sbind (slift (new_manifest cx j generation (Some (man_digest (db_manifest db))) at sequence next_sequence
                     (map sg_descriptor (db_segments db) @ map sg_descriptor flushed)
                     (man_application_format (db_manifest db)))) (\<lambda>next.
     sbind (slift (check_elapsed (opt_compaction_limits (db_options db)) (fio_publish_elapsed io))) (\<lambda>_.
     flush_commit cx j io failure sequence successor flushed next)))))))))"

definition flush_memtable_inner ::
  "codec \<Rightarrow> json \<Rightarrow> crc_fn \<Rightarrow> (bytes \<Rightarrow> page_source) \<Rightarrow> flush_io \<Rightarrow> nat \<Rightarrow> (flush_boundary \<times> failure_mode) option
     \<Rightarrow> (database, manifest option) op" where
  "flush_memtable_inner cx j crc backend io at failure =
     sread (\<lambda>db.
     sbind (slift (ensure_writer_ready db)) (\<lambda>_.
     if mt_version_count (db_table db) = 0 then sbind (db_wal_sync (fio_sync io)) (\<lambda>_. sret None)
     else
       sbind (slift (flush_boundaries io db)) (\<lambda>boundaries.
       sbind (db_wal_sync (fio_sync io)) (\<lambda>sequence.
       sbind (slift (inject_failure failure FlushWalSynced)) (\<lambda>_.
       sbind (smodify (\<lambda>db. db\<lparr>db_reclamation_pending := True\<rparr>)) (\<lambda>_.
       flush_output cx j crc backend io at failure boundaries sequence))))))"

end
