(* ===== verification/Database_Compaction.thy ===== *)
theory Database_Compaction
  imports Database_Flush
begin

text \<open>
  Leveled compaction (\<open>database.rs\<close>, \<open>compact_segments_inner\<close> and what it calls): selection of source
  segments with their complete overlap on the next level, admission of the input, a merge of the
  selected segments by record cursors that prunes versions no protected snapshot needs, partitioned
  output, and one manifest that replaces the inputs by the outputs. The clock is the argument
  \<open>clock\<close>; a counter numbers its readings.
\<close>

section \<open>Boundaries and records\<close>

datatype compaction_boundary = CompactionSegmentSynced | CompactionManifestPublished

fun compaction_boundary_str :: "compaction_boundary \<Rightarrow> string" where
  "compaction_boundary_str CompactionSegmentSynced = ''compaction.segment_synced''"
| "compaction_boundary_str CompactionManifestPublished = ''compaction.manifest_published''"

definition inject_compaction_failure :: "(compaction_boundary \<times> failure_mode) option \<Rightarrow> compaction_boundary \<Rightarrow> unit res" where
  "inject_compaction_failure configured reached =
     (case configured of
        Some (boundary, mode) \<Rightarrow> fail_if (boundary = reached) (InjectedFailure (failure_mode_str mode) (compaction_boundary_str boundary))
      | None \<Rightarrow> Inr ())"

record compaction_outcome =
  co_previous_manifest :: string
  co_manifest :: string
  co_input_segments :: nat
  co_output_segments :: nat
  co_input_versions :: nat
  co_output_versions :: nat
  co_protected_sequences :: "nat list"
  co_source_level :: nat
  co_target_level :: nat
  co_input_bytes :: nat
  co_output_bytes :: nat
  co_peak_buffer_bytes :: nat
  co_history_pruned :: bool

record compaction_candidate =
  cc_indices :: "nat list"
  cc_source_level :: nat
  cc_target_level :: nat

record compaction_merge =
  cm_segments :: "segment list"
  cm_output_segments :: nat
  cm_input_versions :: nat
  cm_output_versions :: nat
  cm_output_bytes :: nat
  cm_peak_buffer_bytes :: nat

abbreviation db_limits :: "database \<Rightarrow> compaction_limits" where
  "db_limits db \<equiv> opt_compaction_limits (db_options db)"

abbreviation db_policy :: "database \<Rightarrow> compaction_policy" where
  "db_policy db \<equiv> opt_compaction (db_options db)"

abbreviation descriptor_at :: "database \<Rightarrow> nat \<Rightarrow> segment_descriptor" where
  "descriptor_at db i \<equiv> sg_descriptor (db_segments db ! i)"

definition elapsed_tick :: "compaction_limits \<Rightarrow> (nat \<Rightarrow> nat) \<Rightarrow> nat \<Rightarrow> nat res" where
  "elapsed_tick limits clock k = rbind (check_elapsed limits (clock k)) (\<lambda>_. Inr (k + 1))"

definition ranges_overlap :: "bytes \<Rightarrow> bytes \<Rightarrow> bytes \<Rightarrow> bytes \<Rightarrow> bool" where
  "ranges_overlap left_first left_last right_first right_last \<longleftrightarrow> left_first \<le> right_last \<and> right_first \<le> left_last"

definition version_group_bytes :: "bytes \<Rightarrow> versioned_value list \<Rightarrow> nat" where
  "version_group_bytes key versions =
     foldl (\<lambda>bytes version. saturating_add (saturating_add (saturating_add bytes (length key))
       (case vv_value version of None \<Rightarrow> 0 | Some x \<Rightarrow> length x)) VERSION_RECORD_BYTES) 0 versions"

section \<open>Selection\<close>

text \<open>The loop over the segments that closes a source selection under overlap with the target level.\<close>

fun overlap_indices ::
  "compaction_limits \<Rightarrow> (nat \<Rightarrow> nat) \<Rightarrow> nat \<Rightarrow> nat \<Rightarrow> bytes \<Rightarrow> bytes \<Rightarrow> nat list \<Rightarrow> (nat \<times> segment_descriptor) list \<Rightarrow> nat
     \<Rightarrow> (nat list option \<times> nat) res" where
  "overlap_indices limits clock most target first_key last_key indices [] k = Inr (Some indices, k)"
| "overlap_indices limits clock most target first_key last_key indices ((i, d) # ds) k =
     rbind (elapsed_tick limits clock k) (\<lambda>k.
     if sd_level d = target \<and> ranges_overlap first_key last_key (sd_first_key d) (sd_last_key d) then
       if length indices + 1 > most then Inr (None, k)
       else overlap_indices limits clock most target first_key last_key (indices @ [i]) ds k
     else overlap_indices limits clock most target first_key last_key indices ds k)"

definition compaction_overlap_candidate ::
  "database \<Rightarrow> (nat \<Rightarrow> nat) \<Rightarrow> nat list \<Rightarrow> nat \<Rightarrow> nat \<Rightarrow> (compaction_candidate option \<times> nat) res" where
  "compaction_overlap_candidate db clock sources source_level k =
     (if sources = [] then Inl (Panic ''nonempty source selection'')
      else
        let first_key = Min (set (map (\<lambda>i. sd_first_key (descriptor_at db i)) sources));
            last_key = Max (set (map (\<lambda>i. sd_last_key (descriptor_at db i)) sources));
            target_level = source_level + 1 in
        rbind (overlap_indices (db_limits db) clock (cp_max_input_segments (db_policy db)) target_level first_key last_key
                 sources (enumerate 0 (map sg_descriptor (db_segments db))) k) (\<lambda>(indices, k).
        Inr (map_option (\<lambda>indices. \<lparr>cc_indices = sort indices, cc_source_level = source_level,
               cc_target_level = target_level\<rparr>) indices, k)))"

definition admit_input ::
  "compaction_limits \<Rightarrow> segment \<Rightarrow> nat \<times> nat \<times> nat \<Rightarrow> (nat \<times> nat \<times> nat) res" where
  "admit_input limits seg = (\<lambda>(physical_bytes, logical_bytes, versions).
     rbind (ok_or (InvalidSegment ''compaction physical byte overflow'')
              (checked_add physical_bytes (sd_bytes (sg_descriptor seg)))) (\<lambda>physical_bytes.
     rbind (compaction_logical_bytes seg) (\<lambda>logical.
     rbind (ok_or (InvalidSegment ''compaction logical byte overflow'') (checked_add logical_bytes logical)) (\<lambda>logical_bytes.
     rbind (ok_or (InvalidSegment ''compaction version count overflow'')
              (checked_add versions (sd_entries (sg_descriptor seg)))) (\<lambda>versions.
     rbind (maintenance_check limits InputBytes physical_bytes) (\<lambda>_.
     rbind (maintenance_check limits InputLogicalBytes logical_bytes) (\<lambda>_.
     rbind (maintenance_check limits InputVersions versions) (\<lambda>_.
     Inr (physical_bytes, logical_bytes, versions)))))))))"

fun admit_inputs ::
  "compaction_limits \<Rightarrow> (nat \<Rightarrow> nat) \<Rightarrow> segment list \<Rightarrow> nat \<times> nat \<times> nat \<Rightarrow> nat \<Rightarrow> nat res \<times> nat" where
  "admit_inputs limits clock [] st k = (Inr (fst st), k)"
| "admit_inputs limits clock (seg # segs) st k =
     (case admit_input limits seg st of
        Inl e \<Rightarrow> (Inl e, k)
      | Inr st \<Rightarrow>
          (case check_elapsed limits (clock k) of
             Inl e \<Rightarrow> (Inl e, k + 1)
           | Inr _ \<Rightarrow> admit_inputs limits clock segs st (k + 1)))"

definition admit_compaction_input ::
  "database \<Rightarrow> (nat \<Rightarrow> nat) \<Rightarrow> compaction_candidate \<Rightarrow> nat \<Rightarrow> nat res \<times> nat" where
  "admit_compaction_input db clock candidate k =
     admit_inputs (db_limits db) clock (map ((!) (db_segments db)) (cc_indices candidate)) (0, 0, 0) k"

definition input_limit_error :: "lsm_error \<Rightarrow> bool" where
  "input_limit_error e = (case e of
      MaintenanceLimit resource _ _ \<Rightarrow> resource \<in> {InputBytes, InputLogicalBytes, InputVersions}
    | _ \<Rightarrow> False)"

text \<open>The pairs of a start and a number of sources, in the order the two loops try them.\<close>

definition source_windows :: "nat \<Rightarrow> nat \<Rightarrow> (nat \<times> nat) list" where
  "source_windows n most = concat (map (\<lambda>start. map (Pair start) (rev [1..<min (n - start) most + 1])) [0..<n])"

fun try_windows ::
  "database \<Rightarrow> (nat \<Rightarrow> nat) \<Rightarrow> bool \<Rightarrow> nat list \<Rightarrow> nat \<Rightarrow> bool \<Rightarrow> (nat \<times> nat) list \<Rightarrow> lsm_error option \<Rightarrow> bool \<Rightarrow> nat
     \<Rightarrow> (compaction_candidate option \<times> lsm_error option \<times> bool \<times> nat) res" where
  "try_windows db clock force sources level blocked [] denied overlap_blocked k = Inr (None, denied, overlap_blocked, k)"
| "try_windows db clock force sources level blocked ((start, count) # windows) denied overlap_blocked k =
     rbind (elapsed_tick (db_limits db) clock k) (\<lambda>k.
     rbind (compaction_overlap_candidate db clock (take count (drop start sources)) level k) (\<lambda>(candidate, k).
     case candidate of
       None \<Rightarrow> try_windows db clock force sources level blocked windows denied True k
     | Some c \<Rightarrow>
         if length (cc_indices c) < 2 \<and> \<not> (length sources = 1 \<and> (force \<or> blocked))
         then try_windows db clock force sources level blocked windows denied overlap_blocked k
         else
           (case admit_compaction_input db clock c k of
              (Inr _, k) \<Rightarrow> Inr (Some c, denied, overlap_blocked, k)
            | (Inl e, k) \<Rightarrow>
                if input_limit_error e
                then try_windows db clock force sources level blocked windows
                       (case denied of None \<Rightarrow> Some e | Some d \<Rightarrow> Some d) overlap_blocked k
                else Inl e)))"

definition level_sources :: "database \<Rightarrow> nat \<Rightarrow> nat list" where
  "level_sources db level = filter (\<lambda>i. sd_level (descriptor_at db i) = level) [0..<length (db_segments db)]"

definition sort_sources :: "database \<Rightarrow> nat \<Rightarrow> nat list \<Rightarrow> nat list" where
  "sort_sources db level sources =
     (if level = 0
      then sort_key (\<lambda>i. (sd_maximum_sequence (descriptor_at db i), sd_first_key (descriptor_at db i), sd_id (descriptor_at db i))) sources
      else sort_key (\<lambda>i. (sd_first_key (descriptor_at db i), sd_id (descriptor_at db i))) sources)"

fun select_levels ::
  "database \<Rightarrow> (nat \<Rightarrow> nat) \<Rightarrow> bool \<Rightarrow> nat list \<Rightarrow> lsm_error option \<Rightarrow> bool \<Rightarrow> nat \<Rightarrow> (compaction_candidate option \<times> nat) res" where
  "select_levels db clock force [] denied overlap_blocked k =
     (case denied of Some e \<Rightarrow> Inl e | None \<Rightarrow> Inr (None, k))"
| "select_levels db clock force (level # levels) denied overlap_blocked k =
     rbind (elapsed_tick (db_limits db) clock k) (\<lambda>k.
     let sources = level_sources db level;
         blocked = (denied \<noteq> None \<or> overlap_blocked);
         threshold = (if level = 0 then cp_l0_compaction_trigger (db_policy db) else 2) in
     if sources = [] \<or> (\<not> force \<and> \<not> blocked \<and> length sources < threshold)
     then select_levels db clock force levels denied overlap_blocked k
     else
       let sources = sort_sources db level sources in
       rbind (try_windows db clock force sources level blocked
                (source_windows (length sources) (cp_max_input_segments (db_policy db))) denied overlap_blocked k)
         (\<lambda>(found, denied, overlap_blocked, k).
       case found of
         Some c \<Rightarrow> Inr (Some c, k)
       | None \<Rightarrow> select_levels db clock force levels denied overlap_blocked k))"

definition select_compaction_candidate ::
  "database \<Rightarrow> (nat \<Rightarrow> nat) \<Rightarrow> bool \<Rightarrow> nat \<Rightarrow> (compaction_candidate option \<times> nat) res" where
  "select_compaction_candidate db clock force k =
     select_levels db clock force [0..<cp_max_level (db_policy db)] None False k"

section \<open>Merge\<close>

text \<open>A lane is a selected segment, its cursor and the record the cursor stands before.\<close>

type_synonym lane = "segment \<times> record_cursor \<times> (bytes \<times> versioned_value) option"

text \<open>The records a cursor can still yield, by the row counts of the row groups.\<close>

definition rows_from :: "segment \<Rightarrow> nat \<Rightarrow> nat" where
  "rows_from seg i = sum_list (map rg_row_count (drop i (sg_row_groups seg)))"

definition cursor_remaining :: "segment \<Rightarrow> record_cursor \<Rightarrow> nat" where
  "cursor_remaining seg cur =
     (case rc_loaded cur of
        None \<Rightarrow> rows_from seg (rc_row_group_index cur)
      | Some _ \<Rightarrow>
          if rc_row_group_index cur < length (sg_row_groups seg)
          then rg_row_count (sg_row_groups seg ! rc_row_group_index cur) - rc_row_index cur + rows_from seg (rc_row_group_index cur + 1)
          else 0)"

lemma rows_from_Suc: "i < length (sg_row_groups seg) \<Longrightarrow> rows_from seg i = rg_row_count (sg_row_groups seg ! i) + rows_from seg (i + 1)"
  by (simp add: rows_from_def flip: Cons_nth_drop_Suc)

lemma next_record_remaining:
  "next_record cx seg cur = Inr (out, cur') \<Longrightarrow>
     cursor_remaining seg cur' + (if out = None then 0 else 1) \<le> cursor_remaining seg cur"
proof (induction cx seg cur arbitrary: out cur' rule: next_record.induct)
  case (1 cx seg cur)
  let ?i = "rc_row_group_index cur"
  show ?case
  proof (cases "?i < length (sg_row_groups seg)")
    case False
    then show ?thesis using "1.prems" by (simp add: next_record.simps [of cx seg cur])
  next
    case True
    then obtain loaded row where load: "cursor_load cx seg cur = Inr (loaded, row)"
      using "1.prems" by (auto simp: next_record.simps [of cx seg cur] rbind_Inr)
    have before: "cursor_remaining seg cur = rg_row_count (sg_row_groups seg ! ?i) - row + rows_from seg (?i + 1)"
      using load True rows_from_Suc [OF True]
      by (auto simp: cursor_load_def cursor_remaining_def rbind_Inr split: option.splits)
    show ?thesis
    proof (cases "row < rg_row_count (sg_row_groups seg ! ?i)")
      case row: True
      then have "cur' = cur\<lparr>rc_row_index := row + 1, rc_loaded := Some loaded\<rparr>" "out \<noteq> None"
        using "1.prems" True load by (auto simp: next_record.simps [of cx seg cur] rbind_Inr)
      moreover from this(1) True have "cursor_remaining seg cur' = rg_row_count (sg_row_groups seg ! ?i) - (row + 1) + rows_from seg (?i + 1)"
        by (simp add: cursor_remaining_def)
      ultimately show ?thesis using row by (cases out) (simp_all add: before)
    next
      case row: False
      let ?next = "\<lparr>rc_row_group_index = ?i + 1, rc_row_index = row, rc_loaded = None\<rparr>"
      have "next_record cx seg ?next = Inr (out, cur')"
        using "1.prems" True load row by (simp add: next_record.simps [of cx seg cur])
      from "1.IH" [OF _ load refl row this] True show ?thesis unfolding before by (simp add: cursor_remaining_def)
    qed
  qed
qed

definition observe_version ::
  "versioned_value \<Rightarrow> (nat, bytes option) btree \<times> nat \<Rightarrow> ((nat, bytes option) btree \<times> nat) res" where
  "observe_version v = (\<lambda>(versions, input_versions).
     case map_of versions (vv_sequence v) of
       Some existing \<Rightarrow> rbind (fail_if (existing \<noteq> vv_value v) (InvalidSegment ''segments disagree for sequence'')) (\<lambda>_.
         Inr (versions, input_versions))
     | None \<Rightarrow> Inr (bt_insert (vv_sequence v) (vv_value v) versions, saturating_add input_versions 1))"

text \<open>The inner loop on one lane: take the records of the key.\<close>

function drain_lane ::
  "codec \<Rightarrow> compaction_limits \<Rightarrow> (nat \<Rightarrow> nat) \<Rightarrow> bytes \<Rightarrow> segment \<Rightarrow> record_cursor \<Rightarrow> (bytes \<times> versioned_value) option
     \<Rightarrow> (nat, bytes option) btree \<times> nat \<Rightarrow> nat \<Rightarrow> (lane \<times> ((nat, bytes option) btree \<times> nat) \<times> nat) res" where
  "drain_lane cx limits clock key seg cur record st k =
     (case record of
        None \<Rightarrow> Inr ((seg, cur, record), st, k)
      | Some (record_key, v) \<Rightarrow>
          if record_key \<noteq> key then Inr ((seg, cur, record), st, k)
          else
            rbind (elapsed_tick limits clock k) (\<lambda>k.
            rbind (observe_version v st) (\<lambda>st.
            rbind (next_record cx seg cur) (\<lambda>(record, cur).
            drain_lane cx limits clock key seg cur record st k))))"
  by pat_completeness auto
termination
  by (relation "measure (\<lambda>(cx, limits, clock, key, seg, cur, record, st, k).
        cursor_remaining seg cur + (if record = None then 0 else 1))")
    (auto dest: next_record_remaining split: if_splits)

declare drain_lane.simps [simp del]

definition drain_lanes ::
  "codec \<Rightarrow> compaction_limits \<Rightarrow> (nat \<Rightarrow> nat) \<Rightarrow> bytes \<Rightarrow> lane list \<times> ((nat, bytes option) btree \<times> nat) \<times> nat \<Rightarrow> lane
     \<Rightarrow> (lane list \<times> ((nat, bytes option) btree \<times> nat) \<times> nat) res" where
  "drain_lanes cx limits clock key = (\<lambda>(done_lanes, st, k) (seg, cur, record).
     rbind (drain_lane cx limits clock key seg cur record st k) (\<lambda>(lane, st, k).
     Inr (done_lanes @ [lane], st, k)))"

definition lane_key :: "lane \<Rightarrow> bytes option" where
  "lane_key = (\<lambda>(seg, cur, record). map_option fst record)"

definition least_key :: "lane list \<Rightarrow> bytes option" where
  "least_key lanes =
     (case List.map_filter lane_key lanes of
        [] \<Rightarrow> None
      | k # ks \<Rightarrow> Some (Min (set (k # ks))))"

text \<open>The versions of one key that are kept.\<close>

definition newest_upto :: "(nat, bytes option) btree \<Rightarrow> nat \<Rightarrow> nat option" where
  "newest_upto versions sequence =
     (case rev (bt_range Unbounded (Included sequence) versions) of [] \<Rightarrow> None | (n, _) # _ \<Rightarrow> Some n)"

definition retained_versions :: "nat list \<Rightarrow> bool \<Rightarrow> (nat, bytes option) btree \<Rightarrow> versioned_value list" where
  "retained_versions protected_sequences retain_all_versions versions =
     (let version = (\<lambda>(sequence, value). \<lparr>vv_sequence = sequence, vv_value = value\<rparr>) in
      if retain_all_versions then map version versions
      else
        let retained_sequences = set (List.map_filter (newest_upto versions) protected_sequences) in
        map version (filter (\<lambda>(sequence, _). sequence \<in> retained_sequences) versions))"

definition retain_compacted_key :: "versioned_value list \<Rightarrow> bool \<Rightarrow> bool \<Rightarrow> bool" where
  "retain_compacted_key retained retain_all_versions shadows_unselected \<longleftrightarrow>
     retained \<noteq> [] \<and> (retain_all_versions \<or> list_ex (\<lambda>v. vv_value v \<noteq> None) retained \<or> shadows_unselected)"

definition shadows_unselected :: "database \<Rightarrow> nat list \<Rightarrow> bytes \<Rightarrow> bool" where
  "shadows_unselected db selected key \<longleftrightarrow>
     list_ex (\<lambda>i. i \<notin> set selected \<and> sd_first_key (descriptor_at db i) \<le> key \<and> key \<le> sd_last_key (descriptor_at db i))
       [0..<length (db_segments db)]"

record merge_state =
  ms_buffered :: "(bytes, versioned_value list) btree"
  ms_buffered_bytes :: nat
  ms_peak_buffer_bytes :: nat
  ms_segments :: "segment list"
  ms_input_versions :: nat
  ms_output_versions :: nat
  ms_output_bytes :: nat
  ms_readings :: nat

record compaction_io =
  cmp_clock :: "nat \<Rightarrow> nat"
  cmp_segment :: "nat \<Rightarrow> publish_outcome"
  cmp_publish :: "rename_outcome \<times> rename_outcome"

definition db_write_table ::
  "codec \<Rightarrow> (bytes \<Rightarrow> page_source) \<Rightarrow> publish_outcome \<Rightarrow> memtable \<Rightarrow> (database, segment) op" where
  "db_write_table cx backend os table db =
     (let (r, files) = write_from_memtable cx backend os table (opt_segment_row_group_budget (db_options db))
                         (opt_segment_compression (db_options db)) (db_segment_files db)
      in (Some r, db\<lparr>db_segment_files := files\<rparr>))"

definition write_compaction_partition ::
  "codec \<Rightarrow> (bytes \<Rightarrow> page_source) \<Rightarrow> publish_outcome \<Rightarrow> (bytes, versioned_value list) btree \<Rightarrow> nat \<Rightarrow> nat \<Rightarrow> (database, segment) op" where
  "write_compaction_partition cx backend os versions durable target_level =
     sbind (slift (from_versions versions durable)) (\<lambda>table.
     sbind (db_write_table cx backend os table) (\<lambda>seg.
     sret (seg\<lparr>sg_descriptor := (sg_descriptor seg)\<lparr>sd_level := target_level\<rparr>\<rparr>)))"

definition emit_partition ::
  "codec \<Rightarrow> (bytes \<Rightarrow> page_source) \<Rightarrow> compaction_io \<Rightarrow> nat \<Rightarrow> nat \<Rightarrow> merge_state \<Rightarrow> (database, merge_state) op" where
  "emit_partition cx backend io durable target_level st =
     sread (\<lambda>db.
     sbind (slift (elapsed_tick (db_limits db) (cmp_clock io) (ms_readings st))) (\<lambda>k.
     sbind (slift (maintenance_check (db_limits db) OutputSegments (length (ms_segments st) + 1))) (\<lambda>_.
     sbind (write_compaction_partition cx backend (cmp_segment io (length (ms_segments st))) (ms_buffered st) durable target_level) (\<lambda>seg.
     sret (st\<lparr>ms_buffered := [], ms_buffered_bytes := 0, ms_segments := ms_segments st @ [seg],
       ms_output_bytes := saturating_add (ms_output_bytes st) (sd_bytes (sg_descriptor seg)), ms_readings := k\<rparr>)))))"

definition buffer_group :: "bytes \<Rightarrow> versioned_value list \<Rightarrow> merge_state \<Rightarrow> merge_state" where
  "buffer_group key retained st =
     (let bytes = saturating_add (ms_buffered_bytes st) (version_group_bytes key retained) in
      st\<lparr>ms_output_versions := saturating_add (ms_output_versions st) (length retained),
         ms_buffered_bytes := bytes, ms_peak_buffer_bytes := max (ms_peak_buffer_bytes st) bytes,
         ms_buffered := bt_insert key retained (ms_buffered st)\<rparr>)"

definition emit_group ::
  "codec \<Rightarrow> (bytes \<Rightarrow> page_source) \<Rightarrow> compaction_io \<Rightarrow> compaction_candidate \<Rightarrow> nat \<Rightarrow> bytes \<Rightarrow> versioned_value list
     \<Rightarrow> merge_state \<Rightarrow> (database, merge_state) op" where
  "emit_group cx backend io candidate durable key retained st =
     sread (\<lambda>db.
     sbind (if ms_buffered st \<noteq> [] \<and> saturating_add (ms_buffered_bytes st) (version_group_bytes key retained)
                > cp_target_segment_bytes (db_policy db)
            then emit_partition cx backend io durable (cc_target_level candidate) st
            else sret st) (\<lambda>st.
     sret (buffer_group key retained st)))"

text \<open>What the loop body reads: the versions of the least key, and the lanes after them.\<close>

definition merge_read ::
  "codec \<Rightarrow> compaction_limits \<Rightarrow> (nat \<Rightarrow> nat) \<Rightarrow> bytes \<Rightarrow> lane list \<Rightarrow> nat \<Rightarrow> nat
     \<Rightarrow> (lane list \<times> ((nat, bytes option) btree \<times> nat) \<times> nat) res" where
  "merge_read cx limits clock key lanes input_versions k =
     rbind (elapsed_tick limits clock k) (\<lambda>k.
     try_fold (drain_lanes cx limits clock key) ([], ([], input_versions), k) lanes)"

definition merge_step ::
  "codec \<Rightarrow> (bytes \<Rightarrow> page_source) \<Rightarrow> compaction_io \<Rightarrow> compaction_candidate \<Rightarrow> nat \<Rightarrow> nat list \<Rightarrow> bool \<Rightarrow> bytes
     \<Rightarrow> (nat, bytes option) btree \<Rightarrow> merge_state \<Rightarrow> (database, merge_state) op" where
  "merge_step cx backend io candidate durable protected_sequences retain_all_versions key versions st =
     sread (\<lambda>db.
     let retained = retained_versions protected_sequences retain_all_versions versions in
     if \<not> retain_compacted_key retained retain_all_versions (shadows_unselected db (cc_indices candidate) key) then sret st
     else emit_group cx backend io candidate durable key retained st)"

definition lane_remaining :: "lane \<Rightarrow> nat" where
  "lane_remaining = (\<lambda>(seg, cur, record). cursor_remaining seg cur + (if record = None then 0 else 1))"

lemma drain_lane_remaining:
  assumes "drain_lane cx limits clock key seg cur rec st k = Inr (lane, st', k')"
  shows "lane_remaining lane \<le> lane_remaining (seg, cur, rec)"
    and "lane_key (seg, cur, rec) = Some key \<Longrightarrow> lane_remaining lane < lane_remaining (seg, cur, rec)"
proof -
  have "lane_remaining lane \<le> lane_remaining (seg, cur, rec)
      \<and> (lane_key (seg, cur, rec) = Some key \<longrightarrow> lane_remaining lane < lane_remaining (seg, cur, rec))"
    using assms
  proof (induction cx limits clock key seg cur rec st k rule: drain_lane.induct)
    case (1 cx limits clock key seg cur rec st k)
    show ?case
    proof (cases "\<exists>v. rec = Some (key, v)")
      case False
      then show ?thesis
        using "1.prems" by (auto simp: drain_lane.simps [of cx limits clock key seg cur rec] lane_key_def split: option.splits)
    next
      case True
      then obtain v k1 st1 rec1 cur1 where r: "rec = Some (key, v)" and steps: "elapsed_tick limits clock k = Inr k1"
        "observe_version v st = Inr st1" "next_record cx seg cur = Inr (rec1, cur1)"
        and rest: "drain_lane cx limits clock key seg cur1 rec1 st1 k1 = Inr (lane, st', k')"
        using "1.prems" by (auto simp: drain_lane.simps [of cx limits clock key seg cur rec] rbind_Inr split: prod.splits)
      have "lane_remaining lane \<le> lane_remaining (seg, cur1, rec1)"
        using "1.IH" [OF r refl _ steps refl rest] by simp
      with next_record_remaining [OF steps(3)] show ?thesis by (simp add: lane_remaining_def r split: if_splits)
    qed
  qed
  then show "lane_remaining lane \<le> lane_remaining (seg, cur, rec)"
    and "lane_key (seg, cur, rec) = Some key \<Longrightarrow> lane_remaining lane < lane_remaining (seg, cur, rec)" by auto
qed

lemma drain_lanes_remaining:
  assumes "try_fold (drain_lanes cx limits clock key) (pre, st, k) lanes = Inr (lanes', st', k')"
  shows "sum_list (map lane_remaining lanes') \<le> sum_list (map lane_remaining (pre @ lanes))
    \<and> (Some key \<in> lane_key ` set lanes \<longrightarrow> sum_list (map lane_remaining lanes') < sum_list (map lane_remaining (pre @ lanes)))"
  using assms
proof (induction lanes arbitrary: pre st k)
  case (Cons l lanes)
  obtain seg cur rec where l: "l = (seg, cur, rec)" by (cases l)
  obtain l' st1 k1 where step: "drain_lane cx limits clock key seg cur rec st k = Inr (l', st1, k1)"
    and rest: "try_fold (drain_lanes cx limits clock key) (pre @ [l'], st1, k1) lanes = Inr (lanes', st', k')"
    using Cons.prems by (auto simp: l drain_lanes_def [of cx limits clock key] rbind_Inr)
  note one = drain_lane_remaining [OF step]
  from Cons.IH [OF rest] one show ?case by (auto simp: l)
qed simp

lemma least_key_Some: "least_key lanes = Some key \<Longrightarrow> Some key \<in> lane_key ` set lanes"
proof -
  assume some: "least_key lanes = Some key"
  then obtain k ks where ks: "List.map_filter lane_key lanes = k # ks" and key: "key = Min (set (k # ks))"
    by (auto simp: least_key_def split: list.splits)
  have "key \<in> set (k # ks)" unfolding key by (rule Min_in) simp_all
  then show ?thesis unfolding ks [symmetric] by (auto simp: map_filter_def image_iff) (metis option.exhaust_sel)
qed

lemma merge_read_remaining:
  assumes "merge_read cx limits clock key lanes n k = Inr (lanes', st, k')" and "least_key lanes = Some key"
  shows "sum_list (map lane_remaining lanes') < sum_list (map lane_remaining lanes)"
proof -
  obtain k1 where "try_fold (drain_lanes cx limits clock key) ([], ([], n), k1) lanes = Inr (lanes', st, k')"
    using assms(1) by (auto simp: merge_read_def rbind_Inr)
  from drain_lanes_remaining [OF this] least_key_Some [OF assms(2)] show ?thesis by simp
qed

text \<open>The merge loop; the database is an explicit argument because every round may write a segment file.\<close>

function merge_loop ::
  "codec \<Rightarrow> (bytes \<Rightarrow> page_source) \<Rightarrow> compaction_io \<Rightarrow> compaction_candidate \<Rightarrow> nat \<Rightarrow> nat list \<Rightarrow> bool \<Rightarrow> lane list
     \<Rightarrow> merge_state \<Rightarrow> (database, merge_state) op" where
  "merge_loop cx backend io candidate durable protected_sequences retain_all_versions lanes st db =
     (case least_key lanes of
        None \<Rightarrow> (Some (Inr st), db)
      | Some key \<Rightarrow>
          (case merge_read cx (db_limits db) (cmp_clock io) key lanes (ms_input_versions st) (ms_readings st) of
             Inl e \<Rightarrow> (Some (Inl e), db)
           | Inr (lanes', (versions, input_versions), k) \<Rightarrow>
               (case merge_step cx backend io candidate durable protected_sequences retain_all_versions key versions
                       (st\<lparr>ms_input_versions := input_versions, ms_readings := k\<rparr>) db of
                  (None, db) \<Rightarrow> (None, db)
                | (Some (Inl e), db) \<Rightarrow> (Some (Inl e), db)
                | (Some (Inr st), db) \<Rightarrow>
                    merge_loop cx backend io candidate durable protected_sequences retain_all_versions lanes' st db)))"
  by pat_completeness auto
termination
  by (relation "measure (\<lambda>(cx, backend, io, candidate, durable, protected, retain, lanes, st, db).
        sum_list (map lane_remaining lanes))") (auto intro: merge_read_remaining)

declare merge_loop.simps [simp del]

definition start_lane :: "codec \<Rightarrow> segment \<Rightarrow> lane res" where
  "start_lane cx seg = rbind (next_record cx seg cursor_start) (\<lambda>(record, cur). Inr (seg, cur, record))"

definition merge_start :: "nat \<Rightarrow> merge_state" where
  "merge_start k = \<lparr>ms_buffered = [], ms_buffered_bytes = 0, ms_peak_buffer_bytes = 0, ms_segments = [],
     ms_input_versions = 0, ms_output_versions = 0, ms_output_bytes = 0, ms_readings = k\<rparr>"

definition merge_result :: "merge_state \<Rightarrow> compaction_merge" where
  "merge_result st = \<lparr>cm_segments = ms_segments st, cm_output_segments = length (ms_segments st),
     cm_input_versions = ms_input_versions st, cm_output_versions = ms_output_versions st,
     cm_output_bytes = ms_output_bytes st, cm_peak_buffer_bytes = ms_peak_buffer_bytes st\<rparr>"

definition merge_compaction_candidate ::
  "codec \<Rightarrow> (bytes \<Rightarrow> page_source) \<Rightarrow> compaction_io \<Rightarrow> compaction_candidate \<Rightarrow> nat \<Rightarrow> nat list \<Rightarrow> bool \<Rightarrow> nat
     \<Rightarrow> (database, compaction_merge \<times> nat) op" where
  "merge_compaction_candidate cx backend io candidate durable protected_sequences retain_all_versions k =
     sread (\<lambda>db.
     sbind (slift (try_map (\<lambda>i. start_lane cx (db_segments db ! i)) (cc_indices candidate))) (\<lambda>lanes.
     sbind (merge_loop cx backend io candidate durable protected_sequences retain_all_versions lanes (merge_start k)) (\<lambda>st.
     sbind (if ms_buffered st \<noteq> [] then emit_partition cx backend io durable (cc_target_level candidate) st else sret st) (\<lambda>st.
     sret (merge_result st, ms_readings st)))))"

section \<open>Compaction\<close>

definition protected_set :: "nat list \<Rightarrow> nat list \<Rightarrow> nat \<Rightarrow> nat list" where
  "protected_set protected pinned durable = sort (remdups (filter (\<lambda>s. s \<le> durable) protected @ pinned @ [durable]))"

definition unselected :: "nat list \<Rightarrow> 'a list \<Rightarrow> 'a list" where
  "unselected selected xs = map snd (filter (\<lambda>(i, _). i \<notin> set selected) (enumerate 0 xs))"

definition install_compacted :: "nat list \<Rightarrow> segment list \<Rightarrow> manifest \<Rightarrow> database \<Rightarrow> database" where
  "install_compacted selected compacted next db = db\<lparr>
     db_segments := unselected selected (db_segments db) @ compacted,
     db_point_index := point_index_new (unselected selected (map sg_descriptor (db_segments db)) @ map sg_descriptor compacted),
     db_manifest := next\<rparr>"

definition compaction_commit ::
  "codec \<Rightarrow> json \<Rightarrow> compaction_io \<Rightarrow> nat \<Rightarrow> (compaction_boundary \<times> failure_mode) option \<Rightarrow> compaction_candidate
     \<Rightarrow> compaction_merge \<Rightarrow> nat \<Rightarrow> (database, manifest) op" where
  "compaction_commit cx j io at failure candidate merge k =
     sread (\<lambda>db.
     sbind (slift (elapsed_tick (db_limits db) (cmp_clock io) k)) (\<lambda>k.
     sbind (slift (inject_compaction_failure failure CompactionSegmentSynced)) (\<lambda>_.
     sbind (slift (ok_or (InvalidManifest ''manifest generation overflow'')
                     (checked_add (man_generation (db_manifest db)) 1))) (\<lambda>generation.
     sbind (slift (new_manifest cx j generation (Some (man_digest (db_manifest db))) at
                     (man_durable_sequence (db_manifest db)) (man_wal_start_sequence (db_manifest db))
                     (unselected (cc_indices candidate) (map sg_descriptor (db_segments db)) @ map sg_descriptor (cm_segments merge))
                     (man_application_format (db_manifest db)))) (\<lambda>next.
     sbind (slift (elapsed_tick (db_limits db) (cmp_clock io) k)) (\<lambda>_.
     sbind (db_publish cx j (cmp_publish io) next) (\<lambda>_.
     sbind (smodify (install_compacted (cc_indices candidate) (cm_segments merge) next)) (\<lambda>_.
     sbind (slift (inject_compaction_failure failure CompactionManifestPublished)) (\<lambda>_.
     sret next)))))))))"

definition compact_candidate ::
  "codec \<Rightarrow> json \<Rightarrow> (bytes \<Rightarrow> page_source) \<Rightarrow> compaction_io \<Rightarrow> nat list \<Rightarrow> nat \<Rightarrow> (compaction_boundary \<times> failure_mode) option
     \<Rightarrow> bool \<Rightarrow> compaction_candidate \<Rightarrow> nat \<Rightarrow> (database, compaction_outcome option) op" where
  "compact_candidate cx j backend io protected at failure retain_all_versions candidate k =
     sread (\<lambda>db.
     let (admitted, k) = admit_compaction_input db (cmp_clock io) candidate k;
         durable = man_durable_sequence (db_manifest db);
         previous_manifest = man_digest (db_manifest db) in
     sbind (slift admitted) (\<lambda>input_bytes.
     sbind (slift (registry_sequences (db_transaction_snapshots db))) (\<lambda>pinned.
     let protected_sequences = protected_set protected pinned durable in
     sbind (smodify (\<lambda>db. db\<lparr>db_reclamation_pending := True\<rparr>)) (\<lambda>_.
     sbind (merge_compaction_candidate cx backend io candidate durable protected_sequences retain_all_versions k) (\<lambda>(merge, k).
     sbind (compaction_commit cx j io at failure candidate merge k) (\<lambda>next.
     sret (Some \<lparr>co_previous_manifest = previous_manifest, co_manifest = man_digest next,
       co_input_segments = length (cc_indices candidate), co_output_segments = cm_output_segments merge,
       co_input_versions = cm_input_versions merge, co_output_versions = cm_output_versions merge,
       co_protected_sequences = protected_sequences, co_source_level = cc_source_level candidate,
       co_target_level = cc_target_level candidate, co_input_bytes = input_bytes, co_output_bytes = cm_output_bytes merge,
       co_peak_buffer_bytes = cm_peak_buffer_bytes merge, co_history_pruned = (\<not> retain_all_versions)\<rparr>)))))))"

definition compact_segments_inner ::
  "codec \<Rightarrow> json \<Rightarrow> (bytes \<Rightarrow> page_source) \<Rightarrow> compaction_io \<Rightarrow> nat list \<Rightarrow> nat \<Rightarrow> (compaction_boundary \<times> failure_mode) option
     \<Rightarrow> bool \<Rightarrow> bool \<Rightarrow> (database, compaction_outcome option) op" where
  "compact_segments_inner cx j backend io protected at failure force retain_all_versions =
     sread (\<lambda>db.
     sbind (slift (ensure_writer_ready db)) (\<lambda>_.
     sbind (slift (select_compaction_candidate db (cmp_clock io) force 0)) (\<lambda>(candidate, k).
     case candidate of
       None \<Rightarrow> sret None
     | Some c \<Rightarrow> compact_candidate cx j backend io protected at failure retain_all_versions c k)))"

definition compact_inner ::
  "codec \<Rightarrow> json \<Rightarrow> crc_fn \<Rightarrow> (bytes \<Rightarrow> page_source) \<Rightarrow> flush_io \<Rightarrow> compaction_io \<Rightarrow> nat list \<Rightarrow> nat
     \<Rightarrow> (compaction_boundary \<times> failure_mode) option \<Rightarrow> bool \<Rightarrow> bool \<Rightarrow> (database, compaction_outcome option) op" where
  "compact_inner cx j crc backend fio io protected at failure force retain_all_versions =
     sbind (flush_memtable_inner cx j crc backend fio at None) (\<lambda>_.
     compact_segments_inner cx j backend io protected at failure force retain_all_versions)"

definition record_compaction_stats :: "compaction_outcome \<Rightarrow> maintenance_stats \<Rightarrow> maintenance_stats" where
  "record_compaction_stats outcome st = st\<lparr>
     mst_automatic_compactions := saturating_add (mst_automatic_compactions st) 1,
     mst_compaction_input_bytes := saturating_add (mst_compaction_input_bytes st) (co_input_bytes outcome),
     mst_compaction_output_bytes := saturating_add (mst_compaction_output_bytes st) (co_output_bytes outcome),
     mst_peak_compaction_buffer_bytes := max (mst_peak_compaction_buffer_bytes st) (co_peak_buffer_bytes outcome)\<rparr>"

abbreviation db_update_stats :: "(maintenance_stats \<Rightarrow> maintenance_stats) \<Rightarrow> database \<Rightarrow> database" where
  "db_update_stats f db \<equiv> db\<lparr>db_maintenance_stats := f (db_maintenance_stats db)\<rparr>"

definition record_automatic_compaction :: "compaction_outcome option res \<Rightarrow> (database, bool) op" where
  "record_automatic_compaction result =
     (case result of
        Inr (Some outcome) \<Rightarrow> sbind (smodify (db_update_stats (record_compaction_stats outcome))) (\<lambda>_. sret True)
      | Inr None \<Rightarrow> sret False
      | Inl e \<Rightarrow>
          sbind (smodify (db_update_stats (\<lambda>st. st\<lparr>mst_failed_compactions := saturating_add (mst_failed_compactions st) 1\<rparr>))) (\<lambda>_.
          slift (Inl e)))"

end
