(* ===== verification/Database_Reclaim.thy ===== *)
theory Database_Reclaim
  imports Database_Compaction
begin

text \<open>
  Reclamation of unreachable files (\<open>Database::garbage_collect\<close> in \<open>rrd-lsm/src/database.rs\<close>) and the
  maintenance step that offers it. What must stay is collected from the current manifest, the
  active read views and the checkpoints; the directory listings, the file metadata, the removals and
  the directory barriers are answers of the file system and arguments of the model.
\<close>

section \<open>Names\<close>

fun decimal :: "nat \<Rightarrow> string" where
  "decimal n = (if n < 10 then [char_of (48 + n)] else decimal (n div 10) @ [char_of (48 + n mod 10)])"

declare decimal.simps [simp del]

definition wal_name :: "nat \<Rightarrow> string" where
  "wal_name sequence = replicate (20 - length (decimal sequence)) (CHR ''0'') @ decimal sequence @ ''.wal''"

definition segment_name :: "string \<Rightarrow> string" where
  "segment_name identity = identity @ ''.seg''"

section \<open>Answers of the file system\<close>

text \<open>A listed entry is its name, whether it is a regular file, and its length.\<close>

type_synonym listing = "io_error + (io_error + string \<times> bool \<times> nat) list"

record reclaim_io =
  gio_clock :: "nat \<Rightarrow> nat"
  gio_segment_stat :: "string \<Rightarrow> io_error + bool \<times> nat"
  gio_wal_stat :: "string \<Rightarrow> io_error + bool"
  gio_manifests :: listing
  gio_segments :: listing
  gio_wals :: listing
  gio_remove :: "string \<Rightarrow> io_error option"
  gio_sync_manifests :: "io_error option"
  gio_sync_segments :: "io_error option"
  gio_sync_wals :: "io_error option"

definition io_answer :: "io_error + 'a \<Rightarrow> 'a res" where
  "io_answer r = (case r of Inl e \<Rightarrow> Inl (Io e) | Inr x \<Rightarrow> Inr x)"

definition reclamation_ticked :: "(nat \<Rightarrow> nat) \<Rightarrow> reclamation_budget \<Rightarrow> reclamation_budget res" where
  "reclamation_ticked clock b = (let (ticked, b) = reclamation_tick clock b in rbind ticked (\<lambda>_. Inr b))"

section \<open>What is retained\<close>

record retained_set =
  rs_manifests :: "(string, unit) btree"
  rs_segments :: "(string, nat) btree"
  rs_wals :: "(string, unit) btree"

definition retain_segment_id :: "string \<Rightarrow> segment_descriptor \<Rightarrow> retained_set \<Rightarrow> retained_set res" where
  "retain_segment_id disagreement d rs =
     rbind (case map_of (rs_segments rs) (sd_id d) of
              None \<Rightarrow> Inr ()
            | Some previous \<Rightarrow> fail_if (previous \<noteq> sd_bytes d) (InvalidManifest disagreement)) (\<lambda>_.
     Inr (rs\<lparr>rs_segments := bt_insert (sd_id d) (sd_bytes d) (rs_segments rs)\<rparr>))"

definition retain_manifest_segment ::
  "(nat \<Rightarrow> nat) \<Rightarrow> retained_set \<times> reclamation_budget \<Rightarrow> segment_descriptor \<Rightarrow> (retained_set \<times> reclamation_budget) res" where
  "retain_manifest_segment clock = (\<lambda>(rs, b) d.
     rbind (reclamation_ticked clock b) (\<lambda>b.
     rbind (retain_segment_id ''protected manifests disagree about segment length'' d rs) (\<lambda>rs.
     Inr (rs, b))))"

definition retain_manifest ::
  "codec \<Rightarrow> json \<Rightarrow> (nat \<Rightarrow> nat) \<Rightarrow> manifest \<Rightarrow> retained_set \<times> reclamation_budget \<Rightarrow> (retained_set \<times> reclamation_budget) res" where
  "retain_manifest cx j clock m = (\<lambda>(rs, b).
     rbind (reclamation_entry clock b) (\<lambda>b.
     if map_of (rs_manifests rs) (man_digest m) \<noteq> None then Inr (rs, b)
     else
       rbind (charge_entries clock (length (man_segments m)) b) (\<lambda>b.
       rbind (manifest_validate cx j m) (\<lambda>_.
       try_fold (retain_manifest_segment clock)
         (rs\<lparr>rs_manifests := bt_insert (man_digest m) () (rs_manifests rs),
             rs_wals := bt_insert (wal_name (man_wal_start_sequence m)) () (rs_wals rs)\<rparr>, b)
         (man_segments m)))))"

definition retain_view ::
  "(nat \<Rightarrow> nat) \<Rightarrow> retained_set \<times> reclamation_budget \<Rightarrow> segment_descriptor \<Rightarrow> (retained_set \<times> reclamation_budget) res" where
  "retain_view clock = (\<lambda>(rs, b) d.
     rbind (reclamation_entry clock b) (\<lambda>b.
     rbind (retain_segment_id ''protected segment pins disagree about length'' d rs) (\<lambda>rs.
     Inr (rs, b))))"

text \<open>The segments of the active read views; \<open>None\<close> when the registry is poisoned.\<close>

definition visit_segments ::
  "segment_descriptor list option \<Rightarrow> ('b \<Rightarrow> segment_descriptor \<Rightarrow> 'b res) \<Rightarrow> 'b \<Rightarrow> 'b res" where
  "visit_segments views visit st =
     (case views of None \<Rightarrow> Inl PoisonedReadViewRegistry | Some ds \<Rightarrow> try_fold visit st ds)"

definition retain_checkpoint ::
  "codec \<Rightarrow> json \<Rightarrow> (nat \<Rightarrow> nat) \<Rightarrow> root_files \<Rightarrow> retained_set \<times> reclamation_budget \<Rightarrow> checkpoint
     \<Rightarrow> (retained_set \<times> reclamation_budget) res" where
  "retain_checkpoint cx j clock root = (\<lambda>(rs, b) c.
     if map_of (rs_manifests rs) (ck_manifest c) \<noteq> None then Inr (rs, b)
     else
       rbind (load_using cx j (read_reclamation clock) root (ck_manifest c) b) (\<lambda>(m, b).
       retain_manifest cx j clock m (rs, b)))"

definition reclaim_roots ::
  "codec \<Rightarrow> json \<Rightarrow> (nat \<Rightarrow> nat) \<Rightarrow> segment_descriptor list option \<Rightarrow> database \<Rightarrow> (retained_set \<times> reclamation_budget) res" where
  "reclaim_roots cx j clock views db =
     rbind (retain_manifest cx j clock (db_manifest db)
              (\<lparr>rs_manifests = [], rs_segments = [], rs_wals = []\<rparr>, reclamation_new (opt_reclamation (db_options db)))) (\<lambda>(rs, b).
     rbind (visit_segments views (retain_view clock) (rs, b)) (\<lambda>(rs, b).
     rbind (checkpoints_inner cx j clock (db_manifests db) b) (\<lambda>(checkpoints, b).
     try_fold (retain_checkpoint cx j clock (st_root (db_manifests db))) (rs, b) checkpoints)))"

section \<open>What must exist\<close>

definition check_manifest ::
  "codec \<Rightarrow> json \<Rightarrow> (nat \<Rightarrow> nat) \<Rightarrow> root_files \<Rightarrow> reclamation_budget \<Rightarrow> string \<times> unit \<Rightarrow> reclamation_budget res" where
  "check_manifest cx j clock root b = (\<lambda>(identity, _).
     rbind (load_using cx j (read_reclamation clock) root identity b) (\<lambda>(_, b). Inr b))"

definition check_segment ::
  "(nat \<Rightarrow> nat) \<Rightarrow> (string \<Rightarrow> io_error + bool \<times> nat) \<Rightarrow> reclamation_budget \<Rightarrow> string \<times> nat \<Rightarrow> reclamation_budget res" where
  "check_segment clock stat b = (\<lambda>(identity, bytes).
     rbind (reclamation_entry clock b) (\<lambda>b.
     rbind (io_answer (stat (segment_name identity))) (\<lambda>(is_file, len).
     rbind (fail_if (\<not> is_file \<or> len \<noteq> bytes)
              (InvalidManifest ''protected reclamation segment is missing, non-regular or has a different length'')) (\<lambda>_.
     Inr b))))"

definition check_wal ::
  "(nat \<Rightarrow> nat) \<Rightarrow> (string \<Rightarrow> io_error + bool) \<Rightarrow> reclamation_budget \<Rightarrow> string \<times> unit \<Rightarrow> reclamation_budget res" where
  "check_wal clock stat b = (\<lambda>(name, _).
     rbind (reclamation_entry clock b) (\<lambda>b.
     rbind (io_answer (stat name)) (\<lambda>is_file.
     rbind (fail_if (\<not> is_file) (InvalidManifest ''protected reclamation WAL is not a regular file'')) (\<lambda>_.
     Inr b))))"

definition check_retained ::
  "codec \<Rightarrow> json \<Rightarrow> reclaim_io \<Rightarrow> root_files \<Rightarrow> retained_set \<Rightarrow> reclamation_budget \<Rightarrow> reclamation_budget res" where
  "check_retained cx j io root rs b =
     rbind (try_fold (check_manifest cx j (gio_clock io) root) b (rs_manifests rs)) (\<lambda>b.
     rbind (try_fold (check_segment (gio_clock io) (gio_segment_stat io)) b (rs_segments rs)) (\<lambda>b.
     try_fold (check_wal (gio_clock io) (gio_wal_stat io)) b (rs_wals rs)))"

section \<open>What is unreachable\<close>

definition unreachable_entry ::
  "(nat \<Rightarrow> nat) \<Rightarrow> string \<Rightarrow> (string, 'v) btree \<Rightarrow> (string \<times> nat) list \<times> reclamation_budget \<Rightarrow> io_error + string \<times> bool \<times> nat
     \<Rightarrow> ((string \<times> nat) list \<times> reclamation_budget) res" where
  "unreachable_entry clock extension retained = (\<lambda>(candidates, b) entry.
     rbind (reclamation_entry clock b) (\<lambda>b.
     rbind (io_answer entry) (\<lambda>(name, is_file, len).
     if \<not> is_file \<or> path_extension name \<noteq> Some extension then Inr (candidates, b)
     else if map_of retained (if extension = ''wal'' then name else path_stem name) \<noteq> None then Inr (candidates, b)
     else Inr (candidates @ [(name, len)], b))))"

definition unreachable_files ::
  "(nat \<Rightarrow> nat) \<Rightarrow> listing \<Rightarrow> string \<Rightarrow> (string, 'v) btree \<Rightarrow> reclamation_budget \<Rightarrow> ((string \<times> nat) list \<times> reclamation_budget) res" where
  "unreachable_files clock entries extension retained b =
     rbind (io_answer entries) (\<lambda>entries.
     rbind (try_fold (unreachable_entry clock extension retained) ([], b) entries) (\<lambda>(candidates, b).
     Inr (sort_key fst candidates, b)))"

section \<open>Removal\<close>

fun remove_loop ::
  "(nat \<Rightarrow> nat) \<Rightarrow> (string \<Rightarrow> io_error option) \<Rightarrow> (string \<Rightarrow> database \<Rightarrow> database) \<Rightarrow> (string \<times> nat) list \<Rightarrow> string list
     \<Rightarrow> reclamation_budget \<Rightarrow> database \<Rightarrow> (bool \<times> reclamation_budget) res \<times> string list \<times> database" where
  "remove_loop clock remove delete [] removed b db = (Inr (False, b), removed, db)"
| "remove_loop clock remove delete ((name, bytes) # candidates) removed b db =
     (case admit_delete clock bytes b of
        Inl e \<Rightarrow> (Inl e, removed, db)
      | Inr (False, b) \<Rightarrow> (Inr (True, b), removed, db)
      | Inr (True, b) \<Rightarrow>
          (case remove name of
             Some e \<Rightarrow> (Inl (Io e), removed, db)
           | None \<Rightarrow> remove_loop clock remove delete candidates (removed @ [name]) b (delete name db)))"

definition remove_candidates ::
  "(nat \<Rightarrow> nat) \<Rightarrow> (string \<Rightarrow> io_error option) \<Rightarrow> io_error option \<Rightarrow> (string \<Rightarrow> database \<Rightarrow> database) \<Rightarrow> (string \<times> nat) list
     \<Rightarrow> reclamation_budget \<Rightarrow> (database, bool \<times> string list \<times> reclamation_budget) op" where
  "remove_candidates clock remove sync delete candidates b db =
     (let (r, removed, db) = remove_loop clock remove delete candidates [] b db in
      (Some (rbind r (\<lambda>(more, b).
         rbind (if removed = [] then Inr () else io_result sync) (\<lambda>_.
         Inr (more, removed, b)))), db))"

definition delete_manifest :: "string \<Rightarrow> database \<Rightarrow> database" where
  "delete_manifest name db = db\<lparr>db_manifests := (db_manifests db)\<lparr>st_root := (st_root (db_manifests db))\<lparr>rf_manifests :=
     bt_remove name (rf_manifests (st_root (db_manifests db)))\<rparr>\<rparr>\<rparr>"

definition delete_segment :: "string \<Rightarrow> database \<Rightarrow> database" where
  "delete_segment name db = db\<lparr>db_segment_files :=
     (\<lambda>identity. if segment_name identity = name then None else db_segment_files db identity)\<rparr>"

definition delete_wal :: "string \<Rightarrow> database \<Rightarrow> database" where
  "delete_wal name db = db\<lparr>db_wals := (\<lambda>sequence. if wal_name sequence = name then None else db_wals db sequence)\<rparr>"

record garbage_collection_report =
  gcr_retained_manifests :: "string list"
  gcr_retained_segments :: "string list"
  gcr_retained_wals :: "string list"
  gcr_removed_manifests :: "string list"
  gcr_removed_segments :: "string list"
  gcr_removed_wals :: "string list"
  gcr_examined_entries :: nat
  gcr_metadata_bytes :: nat
  gcr_removed_bytes :: nat
  gcr_has_more :: bool

text \<open>Everything before the first removal.\<close>

definition reclaim_plan ::
  "codec \<Rightarrow> json \<Rightarrow> reclaim_io \<Rightarrow> segment_descriptor list option \<Rightarrow> database
     \<Rightarrow> (retained_set \<times> (string \<times> nat) list \<times> (string \<times> nat) list \<times> (string \<times> nat) list \<times> reclamation_budget) res" where
  "reclaim_plan cx j io views db =
     rbind (ensure_writer_ready db) (\<lambda>_.
     rbind (reclaim_roots cx j (gio_clock io) views db) (\<lambda>(rs, b).
     rbind (check_retained cx j io (st_root (db_manifests db)) rs b) (\<lambda>b.
     rbind (unreachable_files (gio_clock io) (gio_manifests io) ''json'' (rs_manifests rs) b) (\<lambda>(manifests, b).
     rbind (unreachable_files (gio_clock io) (gio_segments io) ''seg'' (rs_segments rs) b) (\<lambda>(segments, b).
     rbind (unreachable_files (gio_clock io) (gio_wals io) ''wal'' (rs_wals rs) b) (\<lambda>(wals, b).
     rbind (reclamation_ticked (gio_clock io) b) (\<lambda>b.
     Inr (rs, manifests, segments, wals, b))))))))"

definition reclaim_remove ::
  "reclaim_io \<Rightarrow> retained_set \<times> (string \<times> nat) list \<times> (string \<times> nat) list \<times> (string \<times> nat) list \<times> reclamation_budget
     \<Rightarrow> (database, garbage_collection_report) op" where
  "reclaim_remove io = (\<lambda>(rs, manifests, segments, wals, b).
     sbind (remove_candidates (gio_clock io) (gio_remove io) (gio_sync_manifests io) delete_manifest manifests b) (\<lambda>(more1, removed1, b).
     sbind (remove_candidates (gio_clock io) (gio_remove io) (gio_sync_segments io) delete_segment segments b) (\<lambda>(more2, removed2, b).
     sbind (remove_candidates (gio_clock io) (gio_remove io) (gio_sync_wals io) delete_wal wals b) (\<lambda>(more3, removed3, b).
     sret \<lparr>gcr_retained_manifests = map fst (rs_manifests rs), gcr_retained_segments = map fst (rs_segments rs),
       gcr_retained_wals = map fst (rs_wals rs), gcr_removed_manifests = removed1, gcr_removed_segments = removed2,
       gcr_removed_wals = removed3, gcr_examined_entries = gb_entries b, gcr_metadata_bytes = gb_metadata_bytes b,
       gcr_removed_bytes = gb_deleted_bytes b, gcr_has_more = (more1 \<or> more2 \<or> more3)\<rparr>))))"

definition garbage_collect ::
  "codec \<Rightarrow> json \<Rightarrow> reclaim_io \<Rightarrow> segment_descriptor list option \<Rightarrow> (database, garbage_collection_report) op" where
  "garbage_collect cx j io views = sread (\<lambda>db. sbind (slift (reclaim_plan cx j io views db)) (reclaim_remove io))"

definition reclaim_if_pending ::
  "codec \<Rightarrow> json \<Rightarrow> reclaim_io \<Rightarrow> segment_descriptor list option \<Rightarrow> (database, unit) op" where
  "reclaim_if_pending cx j io views =
     sread (\<lambda>db.
     if db_reclamation_pending db then
       sbind (garbage_collect cx j io views) (\<lambda>report.
       sbind (smodify (\<lambda>db. db\<lparr>db_reclamation_pending := gcr_has_more report\<rparr>)) (\<lambda>_.
       if gcr_has_more report then slift (Inl ReclamationPending) else sret ()))
     else sret ())"

definition maintenance_step_inner ::
  "codec \<Rightarrow> json \<Rightarrow> (bytes \<Rightarrow> page_source) \<Rightarrow> reclaim_io \<Rightarrow> segment_descriptor list option \<Rightarrow> compaction_io \<Rightarrow> nat list \<Rightarrow> bool
     \<Rightarrow> (database, bool) op" where
  "maintenance_step_inner cx j backend gio views cio protected retain_all_versions =
     sread (\<lambda>db.
     sbind (slift (ensure_writer_ready db)) (\<lambda>_.
     if db_reclamation_pending db then
       sbind (garbage_collect cx j gio views) (\<lambda>report.
       sbind (smodify (\<lambda>db. db\<lparr>db_reclamation_pending := gcr_has_more report\<rparr>)) (\<lambda>_.
       sret True))
     else if compaction_debt_segments db = 0 then sret False
     else
       scatch (compact_segments_inner cx j backend cio protected (man_created_at (db_manifest db)) None False retain_all_versions)
         record_automatic_compaction))"

end
