(* ===== verification/Database_Write.thy ===== *)
theory Database_Write
  imports Database_Reclaim Transaction
begin

text \<open>
  Writes (\<open>Database::write_inner\<close>, \<open>write_owned_inner\<close> and \<open>commit_transaction_inner\<close> in
  \<open>rrd-lsm/src/database.rs\<close>): admission with its reclamation, compaction and flush, the reservation of
  memory, the append to the log, and only then the application to the memtable. The diagnostics
  that the owned path can collect observe the write and are left out.
\<close>

section \<open>Boundaries of injected failures\<close>

datatype write_boundary = WritePrepared | WriteWalAppended | WriteWalSynced | WriteVisible

fun write_boundary_str :: "write_boundary \<Rightarrow> string" where
  "write_boundary_str WritePrepared = ''write.prepared''"
| "write_boundary_str WriteWalAppended = ''write.wal_appended''"
| "write_boundary_str WriteWalSynced = ''write.wal_synced''"
| "write_boundary_str WriteVisible = ''write.visible''"

type_synonym write_failure = "(write_boundary \<times> failure_mode) option"

definition inject_write_failure :: "write_failure \<Rightarrow> write_boundary \<Rightarrow> unit res" where
  "inject_write_failure configured reached =
     (case configured of
        Some (boundary, mode) \<Rightarrow>
          fail_if (boundary = reached) (InjectedFailure (failure_mode_str mode) (write_boundary_str boundary))
      | None \<Rightarrow> Inr ())"

definition append_durability :: "durability \<Rightarrow> write_failure \<Rightarrow> durability" where
  "append_durability requested failure =
     (case failure of Some (WriteWalAppended, _) \<Rightarrow> Buffered | _ \<Rightarrow> requested)"

definition require_reopen :: "string \<Rightarrow> lsm_error \<Rightarrow> (database, 'a) op" where
  "require_reopen boundary e =
     sbind (smodify (\<lambda>db. db\<lparr>db_writer_requires_reopen := Some boundary\<rparr>)) (\<lambda>_. slift (Inl e))"

definition inject_post_append_failure :: "write_failure \<Rightarrow> (database, unit) op" where
  "inject_post_append_failure failure =
     (case failure of
        Some (WriteWalAppended, mode) \<Rightarrow>
          require_reopen (write_boundary_str WriteWalAppended)
            (InjectedFailure (failure_mode_str mode) (write_boundary_str WriteWalAppended))
      | _ \<Rightarrow> sret ())"

definition inject_post_wal_failure :: "os_sync \<Rightarrow> write_failure \<Rightarrow> append_receipt \<Rightarrow> (database, unit) op" where
  "inject_post_wal_failure sync failure receipt =
     (case failure of
        Some (WriteWalSynced, mode) \<Rightarrow>
          sbind (if \<not> ar_durable receipt then sbind (db_wal_sync sync) (\<lambda>_. sret ()) else sret ()) (\<lambda>_.
          require_reopen (write_boundary_str WriteWalSynced)
            (InjectedFailure (failure_mode_str mode) (write_boundary_str WriteWalSynced)))
      | _ \<Rightarrow> sret ())"

definition inject_post_visibility_failure :: "write_failure \<Rightarrow> (database, unit) op" where
  "inject_post_visibility_failure failure =
     (case failure of
        Some (WriteVisible, mode) \<Rightarrow>
          require_reopen (write_boundary_str WriteVisible)
            (InjectedFailure (failure_mode_str mode) (write_boundary_str WriteVisible))
      | _ \<Rightarrow> sret ())"

section \<open>Admission\<close>

text \<open>What the operating system and the clock do while one write is admitted and made.\<close>

record write_io =
  wr_views :: "segment_descriptor list option"
  wr_reclaim_before :: reclaim_io
  wr_compaction_before :: compaction_io
  wr_flush :: flush_io
  wr_compaction_after :: compaction_io
  wr_reclaim_after :: reclaim_io
  wr_shared :: bool
  wr_append :: wal_io
  wr_sync :: os_sync

definition compact_for_write ::
  "codec \<Rightarrow> json \<Rightarrow> (bytes \<Rightarrow> page_source) \<Rightarrow> compaction_io \<Rightarrow> nat list option \<Rightarrow> (database, compaction_outcome option) op" where
  "compact_for_write cx j backend io protected =
     sread (\<lambda>db. compact_segments_inner cx j backend io (case protected of None \<Rightarrow> [] | Some s \<Rightarrow> s)
       (man_created_at (db_manifest db)) None False (protected = None))"

definition optional_merge_denied :: "lsm_error \<Rightarrow> bool" where
  "optional_merge_denied e = (case e of
      MaintenanceLimit resource _ _ \<Rightarrow>
        resource \<in> {InputBytes, InputLogicalBytes, InputVersions, OutputSegments, MaintenanceElapsedMs}
    | _ \<Rightarrow> False)"

definition offer_write_compaction ::
  "codec \<Rightarrow> json \<Rightarrow> (bytes \<Rightarrow> page_source) \<Rightarrow> compaction_io \<Rightarrow> nat list option \<Rightarrow> (database, unit) op" where
  "offer_write_compaction cx j backend io protected =
     scatch (scatch (compact_for_write cx j backend io protected) record_automatic_compaction) (\<lambda>r.
       case r of
         Inr _ \<Rightarrow> sret ()
       | Inl e \<Rightarrow> if optional_merge_denied e then sret () else slift (Inl e))"

definition flush_for_write ::
  "codec \<Rightarrow> json \<Rightarrow> crc_fn \<Rightarrow> (bytes \<Rightarrow> page_source) \<Rightarrow> write_io \<Rightarrow> nat list option \<Rightarrow> bool \<Rightarrow> (database, unit) op" where
  "flush_for_write cx j crc backend io protected maintenance_offered =
     sbind (smodify (db_update_stats (\<lambda>st. st\<lparr>mst_write_stalls := saturating_add (mst_write_stalls st) 1\<rparr>))) (\<lambda>_.
     sread (\<lambda>db.
     scatch (flush_memtable_inner cx j crc backend (wr_flush io) (man_created_at (db_manifest db)) None) (\<lambda>r.
       case r of
         Inr (Some _) \<Rightarrow>
           sbind (smodify (db_update_stats (\<lambda>st. st\<lparr>mst_automatic_flushes := saturating_add (mst_automatic_flushes st) 1\<rparr>))) (\<lambda>_.
           if \<not> maintenance_offered then offer_write_compaction cx j backend (wr_compaction_after io) protected else sret ())
       | Inr None \<Rightarrow> sret ()
       | Inl e \<Rightarrow>
           sbind (smodify (db_update_stats (\<lambda>st. st\<lparr>mst_failed_flushes := saturating_add (mst_failed_flushes st) 1\<rparr>))) (\<lambda>_.
           slift (Inl e)))))"

definition write_needs_flush :: "database \<Rightarrow> write_batch \<Rightarrow> nat \<Rightarrow> mutable_charge \<Rightarrow> bool" where
  "write_needs_flush db batch payload_bytes charge \<longleftrightarrow>
     mt_version_count (db_table db) \<noteq> 0
     \<and> (saturating_add (db_wal_payload_bytes db) payload_bytes > mp_wal_payload_max_bytes (opt_maintenance (db_options db))
        \<or> saturating_add (mt_version_count (db_table db)) (length (operations batch))
            > mp_memtable_max_versions (opt_maintenance (db_options db))
        \<or> needs_flush (opt_mutable_limits (db_options db)) (memtable_charge (db_table db)) charge)"

definition foreground_due :: "database \<Rightarrow> bool" where
  "foreground_due db \<longleftrightarrow> compaction_debt_segments db > 0
     \<and> l0_segment_count db \<ge> min (cp_max_input_segments (db_policy db)) (cl_l0_segments (db_limits db))"

definition check_l0 :: "database \<Rightarrow> unit res" where
  "check_l0 db =
     (if l0_segment_count db \<ge> cl_l0_segments (db_limits db)
      then maintenance_check (db_limits db) L0Segments (saturating_add (l0_segment_count db) 1)
      else Inr ())"

definition prepare_write ::
  "codec \<Rightarrow> json \<Rightarrow> crc_fn \<Rightarrow> (bytes \<Rightarrow> page_source) \<Rightarrow> write_io \<Rightarrow> write_batch \<Rightarrow> nat \<Rightarrow> mutable_charge \<Rightarrow> nat list option
     \<Rightarrow> (database, unit) op" where
  "prepare_write cx j crc backend io batch payload_bytes charge protected =
     sbind (reclaim_if_pending cx j (wr_reclaim_before io) (wr_views io)) (\<lambda>_.
     sread (\<lambda>db.
     let maintenance_offered = foreground_due db in
     sbind (if maintenance_offered then offer_write_compaction cx j backend (wr_compaction_before io) protected else sret ()) (\<lambda>_.
     sread (\<lambda>db.
     sbind (if write_needs_flush db batch payload_bytes charge
            then flush_for_write cx j crc backend io protected maintenance_offered else sret ()) (\<lambda>_.
     sread (\<lambda>db.
     sbind (slift (check_l0 db)) (\<lambda>_.
     sbind (reclaim_if_pending cx j (wr_reclaim_after io) (wr_views io)) (\<lambda>_.
     sread (\<lambda>db.
     sbind (slift (rbind (charge_add (memtable_charge (db_table db)) charge)
                     (limits_check (opt_mutable_limits (db_options db))))) (\<lambda>_.
     if payload_bytes > mp_wal_payload_max_bytes (opt_maintenance (db_options db))
        \<or> length (operations batch) > mp_memtable_max_versions (opt_maintenance (db_options db))
     then smodify (db_update_stats (\<lambda>st. st\<lparr>mst_oversized_batches := saturating_add (mst_oversized_batches st) 1\<rparr>))
     else sret ()))))))))))"

section \<open>The write\<close>

definition db_mutable_prepare :: "bool \<Rightarrow> mutable_charge \<Rightarrow> (database, prepared_mutable) op" where
  "db_mutable_prepare shared charge db =
     (let (r, pool) = mutable_prepare shared (db_memtable db) charge (db_mutable_memory db)
      in (Some r, db\<lparr>db_mutable_memory := pool\<rparr>))"

definition db_drop_reservation :: "reservation \<Rightarrow> (database, unit) op" where
  "db_drop_reservation rv db =
     (case drop_reservation rv (db_mutable_memory db) of
        Inl e \<Rightarrow> (Some (Inl e), db)
      | Inr pool \<Rightarrow> (Some (Inr ()), db\<lparr>db_mutable_memory := pool\<rparr>))"

definition db_wal_append ::
  "crc_fn \<Rightarrow> wal_io \<Rightarrow> write_batch \<Rightarrow> bytes \<Rightarrow> durability \<Rightarrow> (database, append_receipt) op" where
  "db_wal_append crc io batch payload durability db =
     (let (r, w) = append_encoded_write_batch crc io (db_wal db) batch payload durability in (r, db\<lparr>db_wal := w\<rparr>))"

text \<open>The append and the boundaries before the application.\<close>

definition write_logged ::
  "crc_fn \<Rightarrow> write_io \<Rightarrow> write_batch \<Rightarrow> bytes \<Rightarrow> durability \<Rightarrow> write_failure \<Rightarrow> (database, append_receipt) op" where
  "write_logged crc io batch payload durability failure =
     sbind (slift (inject_write_failure failure WritePrepared)) (\<lambda>_.
     sbind (db_wal_append crc (wr_append io) batch payload (append_durability durability failure)) (\<lambda>receipt.
     sbind (inject_post_append_failure failure) (\<lambda>_.
     sbind (inject_post_wal_failure (wr_sync io) failure receipt) (\<lambda>_.
     sret receipt))))"

definition record_memtable_peak :: "database \<Rightarrow> database" where
  "record_memtable_peak db = db_update_stats (\<lambda>st. st\<lparr>
     mst_peak_accounted_memtable_bytes := max (mst_peak_accounted_memtable_bytes st) (mt_approximate_bytes (db_table db)),
     mst_peak_wal_payload_bytes := max (mst_peak_wal_payload_bytes st) (db_wal_payload_bytes db),
     mst_peak_memtable_versions := max (mst_peak_memtable_versions st) (mt_version_count (db_table db))\<rparr>) db"

text \<open>The application of a logged batch; the prepared memory is returned when it fails.\<close>

definition write_visible ::
  "write_io \<Rightarrow> prepared_mutable \<Rightarrow> write_batch \<Rightarrow> bytes \<Rightarrow> write_failure \<Rightarrow> append_receipt \<Rightarrow> (database, append_receipt) op" where
  "write_visible io prepared batch payload failure receipt =
     sread (\<lambda>db.
     case apply_with (wr_shared io) prepared (db_memtable db)
            (\<lambda>table. apply_write_batch table batch (ar_first_sequence receipt) (ar_last_sequence receipt)) of
       (Inr _, generation, _) \<Rightarrow>
         sbind (smodify (\<lambda>db. db\<lparr>db_memtable := generation,
           db_wal_payload_bytes := saturating_add (db_wal_payload_bytes db) (length payload)\<rparr>)) (\<lambda>_.
         sbind (smodify record_memtable_peak) (\<lambda>_.
         sbind (inject_post_visibility_failure failure) (\<lambda>_.
         sret receipt)))
     | (Inl _, _, dropped) \<Rightarrow>
         sbind (case dropped of None \<Rightarrow> sret () | Some rv \<Rightarrow> db_drop_reservation rv) (\<lambda>_.
         require_reopen ''mutable-publication'' (RecoveryRequired ''mutable-publication'')))"

text \<open>An error before the application drops the prepared memory.\<close>

definition write_prepared ::
  "crc_fn \<Rightarrow> write_io \<Rightarrow> write_batch \<Rightarrow> bytes \<Rightarrow> durability \<Rightarrow> write_failure \<Rightarrow> prepared_mutable \<Rightarrow> (database, append_receipt) op" where
  "write_prepared crc io batch payload durability failure prepared =
     scatch (write_logged crc io batch payload durability failure) (\<lambda>r.
       case r of
         Inl e \<Rightarrow> sbind (db_drop_reservation (prepared_reservation prepared)) (\<lambda>_. slift (Inl e))
       | Inr receipt \<Rightarrow> write_visible io prepared batch payload failure receipt)"

definition write_owned_inner ::
  "codec \<Rightarrow> json \<Rightarrow> crc_fn \<Rightarrow> (bytes \<Rightarrow> page_source) \<Rightarrow> write_io \<Rightarrow> write_batch \<Rightarrow> durability \<Rightarrow> write_failure \<Rightarrow> nat list option
     \<Rightarrow> (database, append_receipt) op" where
  "write_owned_inner cx j crc backend io batch durability failure protected =
     sread (\<lambda>db.
     sbind (slift (ensure_writer_ready db)) (\<lambda>_.
     sbind (slift (charge_batch batch)) (\<lambda>charge.
     sbind (slift (limits_check (opt_mutable_limits (db_options db)) charge)) (\<lambda>_.
     sbind (slift (batch_encode batch)) (\<lambda>payload.
     sbind (prepare_write cx j crc backend io batch (length payload) charge protected) (\<lambda>_.
     sbind (db_mutable_prepare (wr_shared io) charge) (\<lambda>prepared.
     write_prepared crc io batch payload durability failure prepared)))))))"

text \<open>The borrowed path takes the same steps without protected snapshots.\<close>

definition write_inner ::
  "codec \<Rightarrow> json \<Rightarrow> crc_fn \<Rightarrow> (bytes \<Rightarrow> page_source) \<Rightarrow> write_io \<Rightarrow> write_batch \<Rightarrow> durability \<Rightarrow> write_failure
     \<Rightarrow> (database, append_receipt) op" where
  "write_inner cx j crc backend io batch durability failure =
     write_owned_inner cx j crc backend io batch durability failure None"

section \<open>Transactions\<close>

definition begin_transaction :: "(database, transaction) op" where
  "begin_transaction =
     sread (\<lambda>db.
     sbind (slift (transaction_begin (db_snapshot db) (db_identity db) (db_transaction_snapshots db))) (\<lambda>(tx, registry).
     sbind (smodify (\<lambda>db. db\<lparr>db_transaction_snapshots := registry\<rparr>)) (\<lambda>_.
     sret tx)))"

definition validate_transaction_owner :: "database \<Rightarrow> transaction \<Rightarrow> unit res" where
  "validate_transaction_owner db tx = fail_if (tx_owner tx \<noteq> db_identity db) TransactionDatabaseMismatch"

definition check_conflict :: "codec \<Rightarrow> database \<Rightarrow> nat \<Rightarrow> unit \<Rightarrow> bytes \<Rightarrow> unit res" where
  "check_conflict cx db snapshot u key =
     rbind (latest_sequence_for_key cx db key) (\<lambda>latest.
     case latest of
       None \<Rightarrow> Inr ()
     | Some conflicting \<Rightarrow> fail_if (conflicting > snapshot) (TransactionConflict snapshot conflicting))"

record transaction_commit =
  tc_snapshot_sequence :: nat
  tc_mutation_count :: nat
  tc_receipt :: "append_receipt option"

definition commit_checked ::
  "codec \<Rightarrow> json \<Rightarrow> crc_fn \<Rightarrow> (bytes \<Rightarrow> page_source) \<Rightarrow> write_io \<Rightarrow> transaction \<Rightarrow> durability \<Rightarrow> write_failure \<Rightarrow> nat list option
     \<Rightarrow> (database, transaction_commit) op" where
  "commit_checked cx j crc backend io tx durability failure protected =
     sread (\<lambda>db.
     sbind (slift (ensure_writer_ready db)) (\<lambda>_.
     sbind (slift (validate_transaction_owner db tx)) (\<lambda>_.
     sbind (slift (try_fold (check_conflict cx db (tx_snapshot tx)) () (map fst (tx_writes tx)))) (\<lambda>_.
     if tx_writes tx = [] then sret \<lparr>tc_snapshot_sequence = tx_snapshot tx, tc_mutation_count = 0, tc_receipt = None\<rparr>
     else
       sbind (slift (write_batch_new (fst (take_mutations tx)))) (\<lambda>batch.
       sbind (write_owned_inner cx j crc backend io batch durability failure protected) (\<lambda>receipt.
       sret \<lparr>tc_snapshot_sequence = tx_snapshot tx, tc_mutation_count = length (tx_writes tx), tc_receipt = Some receipt\<rparr>))))))"

text \<open>
  The transaction is consumed: its pin and its buffered bytes are released on every return, in the registry it was begun
  with. A transaction of another database leaves this one's registry alone.
\<close>

definition drop_consumed :: "transaction \<Rightarrow> database \<Rightarrow> database" where
  "drop_consumed tx db =
     (if tx_owner tx = db_identity db then db\<lparr>db_transaction_snapshots := transaction_drop tx (db_transaction_snapshots db)\<rparr> else db)"

definition commit_transaction_inner ::
  "codec \<Rightarrow> json \<Rightarrow> crc_fn \<Rightarrow> (bytes \<Rightarrow> page_source) \<Rightarrow> write_io \<Rightarrow> transaction \<Rightarrow> durability \<Rightarrow> write_failure \<Rightarrow> nat list option
     \<Rightarrow> (database, transaction_commit) op" where
  "commit_transaction_inner cx j crc backend io tx durability failure protected =
     scatch (commit_checked cx j crc backend io tx durability failure protected) (\<lambda>r.
     sbind (smodify (drop_consumed tx)) (\<lambda>_.
     slift r))"

definition database_sync :: "os_sync \<Rightarrow> (database, nat) op" where
  "database_sync outcome = sread (\<lambda>db. sbind (slift (ensure_writer_ready db)) (\<lambda>_. db_wal_sync outcome))"

end
