(* ===== verification/Database_Reads.thy ===== *)
theory Database_Reads
  imports Database Memtable_Spec Segment_Spec
begin

text \<open>
  What the reads of a database return. The rows of a database are those of its memtable and of its
  segments; \<open>reads_as\<close> is what a read at a sequence must answer, the value of the newest version not
  after it. \<open>reads_ok\<close> is what the reads rely on: well-formed parts, the index of the current segments,
  and a memtable whose versions are newer than every published one.
\<close>

section \<open>Rows and answers\<close>

definition segments_rows :: "codec \<Rightarrow> segment list \<Rightarrow> rows" where
  "segments_rows cx segs = (\<Union>seg \<in> set segs. segment_rows cx seg)"

definition db_rows :: "codec \<Rightarrow> database \<Rightarrow> rows" where
  "db_rows cx db = mt_rows (db_table db) \<union> segments_rows cx (db_segments db)"

definition reads_as :: "rows \<Rightarrow> bytes \<Rightarrow> nat \<Rightarrow> bytes option \<Rightarrow> bool" where
  "reads_as R k r out \<longleftrightarrow>
     (if \<exists>v. visible_at R k r v then \<exists>v. visible_at R k r v \<and> out = vv_value v else out = None)"

definition reads_ok :: "codec \<Rightarrow> database \<Rightarrow> bool" where
  "reads_ok cx db \<longleftrightarrow>
     mt_inv (db_table db)
     \<and> (\<forall>seg \<in> set (db_segments db). seg_inv cx seg)
     \<and> db_point_index db = point_index_new (map sg_descriptor (db_segments db))
     \<and> rows_unique (db_rows cx db)
     \<and> (\<forall>e \<in> segments_rows cx (db_segments db). \<forall>f \<in> mt_rows (db_table db). vv_sequence (snd e) < vv_sequence (snd f))"

lemma rows_unique_subset: "rows_unique R \<Longrightarrow> S \<subseteq> R \<Longrightarrow> rows_unique S"
  unfolding rows_unique_def by blast

lemma reads_as_unique: "rows_unique R \<Longrightarrow> reads_as R k r a \<Longrightarrow> reads_as R k r b \<Longrightarrow> a = b"
  unfolding reads_as_def using visible_unique by (metis (no_types, lifting))

lemma reads_as_visible: "rows_unique R \<Longrightarrow> visible_at R k r v \<Longrightarrow> reads_as R k r out \<longleftrightarrow> out = vv_value v"
  unfolding reads_as_def using visible_unique by (metis (no_types, lifting))

lemma reads_as_Some: "reads_as R k r (Some b) \<longleftrightarrow> (\<exists>v. visible_at R k r v \<and> vv_value v = Some b)"
  unfolding reads_as_def by (metis option.distinct(1))

lemma reads_as_none: "(\<And>v. (k, v) \<in> R \<Longrightarrow> r < vv_sequence v) \<Longrightarrow> reads_as R k r out \<longleftrightarrow> out = None"
  unfolding reads_as_def visible_at_def by (meson not_le)

text \<open>The newest of the newest: visibility in a union of tables, and a newer table that hides the older ones.\<close>

lemma visible_at_Union:
  assumes "R = (\<Union>i \<in> I. f i)" and "i \<in> I" and "visible_at (f i) k r v"
    and "\<And>j w. j \<in> I \<Longrightarrow> visible_at (f j) k r w \<Longrightarrow> vv_sequence w \<le> vv_sequence v"
  shows "visible_at R k r v"
proof -
  have "vv_sequence w \<le> vv_sequence v" if w: "(k, w) \<in> f j" "vv_sequence w \<le> r" "j \<in> I" for w j
  proof -
    obtain u where u: "visible_at (f j) k r u" using visible_exists w by blast
    then have "vv_sequence w \<le> vv_sequence u" using w by (auto simp: visible_at_def)
    also have "\<dots> \<le> vv_sequence v" using assms(4) u w(3) by blast
    finally show ?thesis .
  qed
  then show ?thesis using assms by (auto simp: visible_at_def)
qed

lemma visible_at_newer:
  assumes "visible_at N k r v" and "\<And>e f. e \<in> Older \<Longrightarrow> f \<in> N \<Longrightarrow> vv_sequence (snd e) < vv_sequence (snd f)"
  shows "visible_at (N \<union> Older) k r v"
  using assms unfolding visible_at_def by (metis Un_iff less_imp_le_nat snd_conv)

lemma visible_at_older:
  assumes "\<And>v. (k, v) \<in> N \<Longrightarrow> r < vv_sequence v"
  shows "visible_at (N \<union> Older) k r v \<longleftrightarrow> visible_at Older k r v"
  using assms by (intro visible_same_rows) (auto dest: leD)

lemma reads_as_older:
  assumes "\<And>v. (k, v) \<in> N \<Longrightarrow> r < vv_sequence v"
  shows "reads_as (N \<union> Older) k r out \<longleftrightarrow> reads_as Older k r out"
proof -
  have "visible_at (N \<union> Older) k r = visible_at Older k r" using visible_at_older [OF assms] by (simp add: fun_eq_iff)
  then show ?thesis by (simp add: reads_as_def)
qed

lemma reads_okD:
  assumes "reads_ok cx db"
  shows "mt_inv (db_table db)" and "\<And>seg. seg \<in> set (db_segments db) \<Longrightarrow> seg_inv cx seg"
    and "rows_unique (db_rows cx db)" and "rows_unique (segments_rows cx (db_segments db))"
    and "db_point_index db = point_index_new (map sg_descriptor (db_segments db))"
  using assms by (auto simp: reads_ok_def db_rows_def intro: rows_unique_subset)

text \<open>A version of the memtable is the answer; without one the segments decide.\<close>

lemma memtable_decides:
  assumes "reads_ok cx db" and "memtable_get_version (db_table db) k r = Some v"
  shows "visible_at (db_rows cx db) k r v"
proof -
  have "visible_at (mt_rows (db_table db)) k r v"
    using assms(2) mt.get_version_visible [OF reads_okD(1) [OF assms(1)]] by blast
  then show ?thesis unfolding db_rows_def using assms(1) by (intro visible_at_newer) (auto simp: reads_ok_def)
qed

lemma segments_decide:
  assumes "reads_ok cx db" and "memtable_get_version (db_table db) k r = None"
  shows "visible_at (db_rows cx db) k r v \<longleftrightarrow> visible_at (segments_rows cx (db_segments db)) k r v"
    and "reads_as (db_rows cx db) k r out \<longleftrightarrow> reads_as (segments_rows cx (db_segments db)) k r out"
proof -
  have "r < vv_sequence v" if "(k, v) \<in> mt_rows (db_table db)" for v
    using that assms(2) mt.get_version_None [OF reads_okD(1) [OF assms(1)]] by blast
  then show "visible_at (db_rows cx db) k r v \<longleftrightarrow> visible_at (segments_rows cx (db_segments db)) k r v"
    and "reads_as (db_rows cx db) k r out \<longleftrightarrow> reads_as (segments_rows cx (db_segments db)) k r out"
    unfolding db_rows_def by (auto simp: visible_at_older reads_as_older)
qed

section \<open>Point reads\<close>

text \<open>
  A choice among the ordinals looked at so far: nothing, when none of them has a visible version,
  or one whose version is the newest of theirs.
\<close>

definition best_of :: "codec \<Rightarrow> segment list \<Rightarrow> bytes \<Rightarrow> nat \<Rightarrow> nat set \<Rightarrow> (nat \<times> selected_version) option \<Rightarrow> bool" where
  "best_of cx segs key r I best \<longleftrightarrow>
     (case best of
        None \<Rightarrow> \<forall>i \<in> I. \<forall>v. \<not> visible_at (segment_rows cx (segs ! i)) key r v
      | Some (i, sv) \<Rightarrow> i \<in> I \<and> selects cx (segs ! i) key r (Some sv)
          \<and> (\<forall>j \<in> I. \<forall>v. visible_at (segment_rows cx (segs ! j)) key r v \<longrightarrow> vv_sequence v \<le> sv_sequence sv))"

lemma best_of_reads:
  assumes "\<forall>seg \<in> set segs. seg_inv cx seg" and "rows_unique (segments_rows cx segs)"
    and "I \<subseteq> {..<length segs}" and "best_of cx segs key r I best"
    and "\<And>i v. i < length segs \<Longrightarrow> i \<notin> I \<Longrightarrow> \<not> visible_at (segment_rows cx (segs ! i)) key r v"
  shows "\<exists>out. (case best of Some (i, sv) \<Rightarrow> selected_value cx (segs ! i) sv | None \<Rightarrow> Inr None) = Inr out
    \<and> reads_as (segments_rows cx segs) key r out"
proof -
  have rows: "segments_rows cx segs = (\<Union>i \<in> {..<length segs}. segment_rows cx (segs ! i))"
    by (force simp: segments_rows_def set_conv_nth)
  show ?thesis
  proof (cases best)
    case None
    then have hidden: "\<not> visible_at (segment_rows cx (segs ! i)) key r v" if "i < length segs" for i v
      using assms(4,5) that by (cases "i \<in> I") (auto simp: best_of_def)
    have "r < vv_sequence v" if v: "(key, v) \<in> segments_rows cx segs" for v
    proof (rule ccontr)
      assume "\<not> r < vv_sequence v"
      moreover obtain i where "i < length segs" "(key, v) \<in> segment_rows cx (segs ! i)" using v by (auto simp: rows)
      ultimately show False using hidden visible_exists [of key v] by (metis not_less)
    qed
    then show ?thesis using None by (simp add: reads_as_none)
  next
    case (Some b)
    obtain i sv where b: "b = (i, sv)" by (cases b)
    with Some assms(4) obtain v where v: "visible_at (segment_rows cx (segs ! i)) key r v"
        "sv_sequence sv = vv_sequence v" "selected_value cx (segs ! i) sv = Inr (vv_value v)"
      and i: "i \<in> I" and best: "\<And>j w. j \<in> I \<Longrightarrow> visible_at (segment_rows cx (segs ! j)) key r w \<Longrightarrow> vv_sequence w \<le> vv_sequence v"
      by (auto simp: best_of_def selects_def)
    have "visible_at (segments_rows cx segs) key r v"
    proof (rule visible_at_Union [OF rows _ v(1)])
      show "i \<in> {..<length segs}" using i assms(3) by blast
      show "vv_sequence w \<le> vv_sequence v" if "j \<in> {..<length segs}" "visible_at (segment_rows cx (segs ! j)) key r w" for j w
        using best assms(5) that by (cases "j \<in> I") auto
    qed
    then show ?thesis using Some b v(3) by (simp add: reads_as_visible [OF assms(2)])
  qed
qed

lemma best_of_skip: "best_of cx segs key r I best \<Longrightarrow> selects cx (segs ! i) key r None \<Longrightarrow> best_of cx segs key r (insert i I) best"
  by (auto simp: best_of_def selects_def split: option.splits)

lemma selects_sequence:
  assumes "selects cx seg key r (Some sv)" and "visible_at (segment_rows cx seg) key r w"
  shows "vv_sequence w \<le> sv_sequence sv"
  using assms by (auto simp: selects_def visible_at_def)

lemma best_of_take:
  assumes "best_of cx segs key r I best" and "selects cx (segs ! i) key r (Some sv)"
    and "\<And>j b. best = Some (j, b) \<Longrightarrow> sv_sequence b \<le> sv_sequence sv"
  shows "best_of cx segs key r (insert i I) (Some (i, sv))"
proof -
  have "vv_sequence v \<le> sv_sequence sv" if "j \<in> I" "visible_at (segment_rows cx (segs ! j)) key r v" for j v
    using assms(1,3) that by (cases best) (fastforce simp: best_of_def)+
  then show ?thesis using assms(2) selects_sequence [OF assms(2)] by (auto simp: best_of_def)
qed

lemma best_of_keep:
  assumes "best_of cx segs key r I (Some (j, b))" and "selects cx (segs ! i) key r (Some sv)" and "sv_sequence sv \<le> sv_sequence b"
  shows "best_of cx segs key r (insert i I) (Some (j, b))"
  using assms selects_sequence [OF assms(2)] by (fastforce simp: best_of_def)

lemma selects_positive:
  assumes "seg_inv cx seg" and "selects cx seg key r (Some sv)"
  shows "0 < sv_sequence sv"
  using assms by (force simp: seg_inv_def selects_def visible_at_def)

lemma get_candidate_fold:
  assumes "\<forall>i \<in> set is. i < length segs" and "\<forall>seg \<in> set segs. seg_inv cx seg"
  shows "\<exists>best_sequence best_ordinal selected.
    try_fold (get_candidate cx segs key r) (0, u64_max, None) is = Inr (best_sequence, best_ordinal, selected)
    \<and> best_of cx segs key r (set is) selected
    \<and> best_sequence = (case selected of None \<Rightarrow> 0 | Some (_, sv) \<Rightarrow> sv_sequence sv)"
  using assms(1)
proof (induction "is" rule: rev_induct)
  case Nil
  show ?case by (simp add: best_of_def)
next
  case (snoc i "is")
  then obtain bs bo sel where IH: "try_fold (get_candidate cx segs key r) (0, u64_max, None) is = Inr (bs, bo, sel)"
    "best_of cx segs key r (set is) sel" "bs = (case sel of None \<Rightarrow> 0 | Some (_, sv) \<Rightarrow> sv_sequence sv)" by auto
  have inv: "seg_inv cx (segs ! i)" using snoc.prems assms(2) by simp
  then obtain s where s: "select_version cx (segs ! i) key r = Inr s" "selects cx (segs ! i) key r s"
    using select_version_spec by blast
  show ?case
  proof (cases s)
    case None
    then show ?thesis using IH s best_of_skip by (fastforce simp: try_fold_append get_candidate_def)
  next
    case (Some sv)
    note sel = s(2) [unfolded Some]
    show ?thesis
    proof (cases "sv_sequence sv > bs \<or> (sv_sequence sv = bs \<and> i < bo)")
      case True
      then have "best_of cx segs key r (insert i (set is)) (Some (i, sv))"
        using IH(3) by (intro best_of_take [OF IH(2) sel]) auto
      then show ?thesis using True IH s Some by (simp add: try_fold_append get_candidate_def)
    next
      case False
      then obtain j b where jb: "sel = Some (j, b)" using IH(3) selects_positive [OF inv sel] by (cases sel) auto
      then have "best_of cx segs key r (insert i (set is)) sel"
        using False IH(2,3) unfolding jb by (intro best_of_keep [OF _ sel]) auto
      then show ?thesis using False IH s Some jb by (auto simp: try_fold_append get_candidate_def)
    qed
  qed
qed

lemma database_get_reads:
  assumes "reads_ok cx db"
  shows "\<exists>out. database_get cx db key r = Inr out \<and> reads_as (db_rows cx db) key r out"
proof (cases "memtable_get_version (db_table db) key r")
  case (Some v)
  then show ?thesis using memtable_decides [OF assms Some]
    by (simp add: database_get_def reads_as_visible [OF reads_okD(3) [OF assms]])
next
  case None
  let ?segs = "db_segments db" and ?ds = "map sg_descriptor (db_segments db)"
  let ?is = "filter (\<lambda>i. covers (?ds ! i) key) (by_first_key ?ds)"
  have invs: "\<forall>seg \<in> set ?segs. seg_inv cx seg" using reads_okD(2) [OF assms] by blast
  have bound: "\<forall>i \<in> set ?is. i < length ?segs" using set_by_first_key [of ?ds] by auto
  obtain bs bo sel where fold: "try_fold (get_candidate cx ?segs key r) (0, u64_max, None) ?is = Inr (bs, bo, sel)"
    and best: "best_of cx ?segs key r (set ?is) sel"
    using get_candidate_fold [OF bound invs, of key r] by blast
  have "rbind (point_index_visit (db_point_index db) (\<lambda>i. ?ds ! i) key
      (get_candidate cx ?segs key r) (0, u64_max, None)) (\<lambda>(visited, st). Inr st) = Inr (bs, bo, sel)"
    unfolding reads_okD(5) [OF assms] point_index_fold by (rule fold)
  then obtain visited where visit: "point_index_visit (db_point_index db) (\<lambda>i. ?ds ! i) key
      (get_candidate cx ?segs key r) (0, u64_max, None) = Inr (visited, bs, bo, sel)" by (auto simp: rbind_Inr)
  have "\<exists>out. (case sel of Some (i, sv) \<Rightarrow> selected_value cx (?segs ! i) sv | None \<Rightarrow> Inr None) = Inr out
    \<and> reads_as (segments_rows cx ?segs) key r out"
  proof (rule best_of_reads [OF invs reads_okD(4) [OF assms] _ best])
    show "set ?is \<subseteq> {..<length ?segs}" using bound by blast
    fix i v
    assume i: "i < length ?segs" "i \<notin> set ?is"
    then have "\<not> covers (sg_descriptor (?segs ! i)) key" using set_by_first_key [of ?ds] by auto
    then show "\<not> visible_at (segment_rows cx (?segs ! i)) key r v"
      using segment_bounds [OF reads_okD(2) [OF assms nth_mem [OF i(1)]], of "(key, v)"]
      by (auto simp: visible_at_def covers_def)
  qed
  then show ?thesis using None segments_decide(2) [OF assms None]
    by (auto simp: database_get_def visit split: option.splits)
qed

section \<open>Batched point reads\<close>

lemma try_map_Inr: "(\<And>x. x \<in> set xs \<Longrightarrow> f x = Inr (g x)) \<Longrightarrow> try_map f xs = Inr (map g xs)"
  by (induction xs) simp_all

text \<open>A loop over the positions of a list that replaces each of them.\<close>

lemma try_fold_positions:
  assumes "\<And>s p. length s = n \<Longrightarrow> p < n \<Longrightarrow> step s p = Inr (s[p := f p (s ! p)])" and "length s = n"
  shows "try_fold step s [0..<n] = Inr (map (\<lambda>p. f p (s ! p)) [0..<n])"
proof -
  have "try_fold step s [0..<m] = Inr (map (\<lambda>p. f p (s ! p)) [0..<m] @ drop m s)" if "m \<le> n" for m
    using that
  proof (induction m)
    case (Suc m)
    then have m: "m < length s" using assms(2) by simp
    then have "drop m s = s ! m # drop (Suc m) s" by (simp add: Cons_nth_drop_Suc)
    then show ?case using Suc m assms by (simp add: try_fold_append nth_append list_update_append)
  qed simp
  then show ?thesis using assms(2) by simp
qed

definition best_ordinal_step ::
  "codec \<Rightarrow> segment list \<Rightarrow> bytes \<Rightarrow> nat \<Rightarrow> nat \<Rightarrow> (nat \<times> selected_version) option \<Rightarrow> (nat \<times> selected_version) option" where
  "best_ordinal_step cx segs key r i cur =
     (case projr (select_version cx (segs ! i) key r) of
        None \<Rightarrow> cur
      | Some v \<Rightarrow> if (case cur of None \<Rightarrow> True | Some (_, c) \<Rightarrow> sv_sequence v > sv_sequence c) then Some (i, v) else cur)"

lemma best_ordinal_fold:
  assumes "\<forall>seg \<in> set segs. seg_inv cx seg" and "m \<le> length segs"
  shows "best_of cx segs key r {..<m} (foldl (\<lambda>cur i. best_ordinal_step cx segs key r i cur) None [0..<m])"
  using assms(2)
proof (induction m)
  case 0
  show ?case by (simp add: best_of_def)
next
  case (Suc m)
  let ?best = "foldl (\<lambda>cur i. best_ordinal_step cx segs key r i cur) None [0..<m]"
  have IH: "best_of cx segs key r {..<m} ?best" using Suc by simp
  have "seg_inv cx (segs ! m)" using Suc.prems assms(1) by simp
  then obtain s where s: "select_version cx (segs ! m) key r = Inr s" "selects cx (segs ! m) key r s"
    using select_version_spec by blast
  have "best_of cx segs key r (insert m {..<m}) (best_ordinal_step cx segs key r m ?best)"
  proof (cases s)
    case None
    then show ?thesis using s best_of_skip [OF IH] by (simp add: best_ordinal_step_def)
  next
    case (Some sv)
    note sel = s(2) [unfolded Some]
    show ?thesis
    proof (cases "case ?best of None \<Rightarrow> True | Some (_, c) \<Rightarrow> sv_sequence sv > sv_sequence c")
      case True
      then have "best_of cx segs key r (insert m {..<m}) (Some (m, sv))"
        by (intro best_of_take [OF IH sel]) auto
      then show ?thesis using True s Some by (simp add: best_ordinal_step_def)
    next
      case False
      then obtain j c where jc: "?best = Some (j, c)" "sv_sequence sv \<le> sv_sequence c"
        by (auto split: option.splits)
      then have "best_of cx segs key r (insert m {..<m}) ?best"
        using IH unfolding jc(1) by (intro best_of_keep [OF _ sel]) auto
      then show ?thesis using False s Some by (simp add: best_ordinal_step_def)
    qed
  qed
  then show ?case by (simp add: lessThan_Suc)
qed

lemma select_better_positions:
  assumes "\<forall>seg \<in> set segs. seg_inv cx seg" and "i < length segs" and "length s = length us"
  shows "try_fold (select_better cx segs keys r us i) s [0..<length us]
    = Inr (map (\<lambda>p. best_ordinal_step cx segs (keys ! (us ! p)) r i (s ! p)) [0..<length us])"
proof (rule try_fold_positions [OF _ assms(3)])
  fix s :: "(nat \<times> selected_version) option list" and p
  assume p: "length s = length us" "p < length us"
  have "seg_inv cx (segs ! i)" using assms(1,2) by simp
  then obtain v where v: "select_version cx (segs ! i) (keys ! (us ! p)) r = Inr v" using select_version_spec by blast
  have "s[p := s ! p] = s" by simp
  then show "select_better cx segs keys r us i s p
      = Inr (s[p := best_ordinal_step cx segs (keys ! (us ! p)) r i (s ! p)])"
    by (auto simp: select_better_def best_ordinal_step_def v split: option.splits)
qed

lemma select_all:
  assumes "\<forall>seg \<in> set segs. seg_inv cx seg" and "m \<le> length segs"
  shows "try_fold (\<lambda>s i. try_fold (select_better cx segs keys r us i) s [0..<length us]) (replicate (length us) None) [0..<m]
    = Inr (map (\<lambda>p. foldl (\<lambda>cur i. best_ordinal_step cx segs (keys ! (us ! p)) r i cur) None [0..<m]) [0..<length us])"
  using assms(2)
proof (induction m)
  case 0
  show ?case by (simp add: map_replicate_trivial)
next
  case (Suc m)
  then show ?case
    using select_better_positions [OF assms(1), of m "map (\<lambda>p. foldl (\<lambda>cur i. best_ordinal_step cx segs (keys ! (us ! p)) r i cur) None [0..<m]) [0..<length us]" us keys r]
    by (simp add: try_fold_append)
qed

text \<open>The second pass takes every selected value once, at the segment it belongs to.\<close>

definition taken ::
  "nat list \<Rightarrow> (nat \<Rightarrow> (nat \<times> selected_version) option) \<Rightarrow> (nat \<Rightarrow> bytes option) \<Rightarrow> bytes option list
     \<Rightarrow> (nat \<Rightarrow> bool) \<Rightarrow> bytes option list \<times> (nat \<times> selected_version) option list \<Rightarrow> bool" where
  "taken us sel val vals0 fin = (\<lambda>(vals, selected).
     length vals = length vals0 \<and> length selected = length us
     \<and> (\<forall>p < length us. selected ! p = (if fin p then None else sel p))
     \<and> (\<forall>i < length vals0. i \<notin> set us \<longrightarrow> vals ! i = vals0 ! i)
     \<and> (\<forall>p < length us. vals ! (us ! p) = (if fin p then val p else vals0 ! (us ! p))))"

lemma take_selected_step:
  assumes "taken us sel val vals0 fin st" and "p < length us" and "distinct us" and "\<forall>u \<in> set us. u < length vals0"
    and "\<And>j sv. sel p = Some (j, sv) \<Longrightarrow> selected_value cx (segs ! j) sv = Inr (val p)"
  shows "\<exists>st'. take_selected cx segs us i st p = Inr st'
    \<and> taken us sel val vals0 (fin(p := fin p \<or> (\<exists>sv. sel p = Some (i, sv)))) st'"
proof -
  obtain vals selected where st: "st = (vals, selected)" by (cases st)
  note t = assms(1) [unfolded taken_def st prod.case]
  show ?thesis
  proof (cases "\<not> fin p \<and> (\<exists>sv. sel p = Some (i, sv))")
    case True
    then obtain sv where sv: "sel p = Some (i, sv)" by blast
    have "taken us sel val vals0 (fin(p := True)) (vals[us ! p := val p], selected[p := None])"
      using t assms(2-4) by (auto simp: taken_def nth_list_update nth_eq_iff_index_eq)
    moreover have "take_selected cx segs us i st p = Inr (vals[us ! p := val p], selected[p := None])"
      using t True sv assms(2,5) by (simp add: take_selected_def st)
    ultimately show ?thesis using True by auto
  next
    case False
    then have "take_selected cx segs us i st p = Inr st"
      using t assms(2) by (auto simp: take_selected_def st split: option.splits)
    moreover have "(fin p \<or> (\<exists>sv. sel p = Some (i, sv))) = fin p" using False by blast
    ultimately show ?thesis using assms(1) by auto
  qed
qed

lemma taken_cong: "taken us sel val vals0 fin st \<Longrightarrow> (\<And>p. p < length us \<Longrightarrow> fin p = fin' p) \<Longrightarrow> taken us sel val vals0 fin' st"
  by (auto simp: taken_def)

lemma take_positions:
  assumes "taken us sel val vals0 fin st" and "distinct us" and "\<forall>u \<in> set us. u < length vals0"
    and reads: "\<And>p j sv. p < length us \<Longrightarrow> sel p = Some (j, sv) \<Longrightarrow> selected_value cx (segs ! j) sv = Inr (val p)"
    and "m \<le> length us"
  shows "\<exists>st'. try_fold (take_selected cx segs us i) st [0..<m] = Inr st'
    \<and> taken us sel val vals0 (\<lambda>p. fin p \<or> (p < m \<and> (\<exists>sv. sel p = Some (i, sv)))) st'"
  using assms(5)
proof (induction m)
  case 0
  show ?case using assms(1) by simp
next
  case (Suc m)
  let ?fin = "\<lambda>m p. fin p \<or> (p < m \<and> (\<exists>sv. sel p = Some (i, sv)))"
  obtain s where s: "try_fold (take_selected cx segs us i) st [0..<m] = Inr s" "taken us sel val vals0 (?fin m) s"
    using Suc by auto
  obtain s' where s': "take_selected cx segs us i s m = Inr s'"
    "taken us sel val vals0 ((?fin m)(m := ?fin m m \<or> (\<exists>sv. sel m = Some (i, sv)))) s'"
    using take_selected_step [OF s(2) _ assms(2,3), of m cx segs i] reads Suc.prems by auto
  have "taken us sel val vals0 (?fin (Suc m)) s'" by (rule taken_cong [OF s'(2)]) auto
  then show ?case using s(1) s'(1) by (simp add: try_fold_append)
qed

lemma take_all:
  assumes "distinct us" and "\<forall>u \<in> set us. u < length vals0" and "m \<le> length segs"
    and reads: "\<And>p j sv. p < length us \<Longrightarrow> sel p = Some (j, sv) \<Longrightarrow> selected_value cx (segs ! j) sv = Inr (val p)"
  shows "\<exists>st'. try_fold (\<lambda>st i. try_fold (take_selected cx segs us i) st [0..<length us])
        (vals0, map sel [0..<length us]) [0..<m] = Inr st'
    \<and> taken us sel val vals0 (\<lambda>p. \<exists>i < m. \<exists>sv. sel p = Some (i, sv)) st'"
  using assms(3)
proof (induction m)
  case 0
  show ?case by (simp add: taken_def)
next
  case (Suc m)
  let ?fold = "\<lambda>m. try_fold (\<lambda>st i. try_fold (take_selected cx segs us i) st [0..<length us]) (vals0, map sel [0..<length us]) [0..<m]"
  obtain s where s: "?fold m = Inr s" "taken us sel val vals0 (\<lambda>p. \<exists>i < m. \<exists>sv. sel p = Some (i, sv)) s"
    using Suc by auto
  obtain s' where s': "try_fold (take_selected cx segs us m) s [0..<length us] = Inr s'"
    "taken us sel val vals0 (\<lambda>p. (\<exists>i < m. \<exists>sv. sel p = Some (i, sv)) \<or> (p < length us \<and> (\<exists>sv. sel p = Some (m, sv)))) s'"
    using take_positions [OF s(2) assms(1,2) reads order_refl] by blast
  have "taken us sel val vals0 (\<lambda>p. \<exists>i < Suc m. \<exists>sv. sel p = Some (i, sv)) s'"
    by (rule taken_cong [OF s'(2)]) (auto simp: less_Suc_eq)
  then show ?case using s(1) s'(1) by (simp add: try_fold_append)
qed

lemma get_unresolved:
  assumes "reads_ok cx db" and "memtable_get_version (db_table db) key r = None"
    and "best_of cx (db_segments db) key r {..<length (db_segments db)} best"
  shows "(case best of Some (i, sv) \<Rightarrow> selected_value cx (db_segments db ! i) sv | None \<Rightarrow> Inr None) = database_get cx db key r"
proof -
  obtain out where out: "(case best of Some (i, sv) \<Rightarrow> selected_value cx (db_segments db ! i) sv | None \<Rightarrow> Inr None) = Inr out"
    "reads_as (segments_rows cx (db_segments db)) key r out"
    using best_of_reads [OF _ reads_okD(4) [OF assms(1)] _ assms(3)] reads_okD(2) [OF assms(1)] by auto
  obtain out' where "database_get cx db key r = Inr out'" "reads_as (db_rows cx db) key r out'"
    using database_get_reads [OF assms(1)] by blast
  moreover have "out = out'"
    using reads_as_unique [OF reads_okD(3) [OF assms(1)]] out(2) calculation(2) segments_decide(2) [OF assms(1,2)] by blast
  ultimately show ?thesis using out(1) by simp
qed

lemma get_many_unresolved:
  assumes ok: "reads_ok cx db"
    and us: "us = filter (\<lambda>i. memtable_get_version (db_table db) (keys ! i) r = None) [0..<length keys]"
    and vals: "vals = map (\<lambda>key. Option.bind (memtable_get_version (db_table db) key r) vv_value) keys"
  shows "rbind (try_fold (\<lambda>s i. try_fold (select_better cx (db_segments db) keys r us i) s [0..<length us])
           (replicate (length us) None) [0..<length (db_segments db)]) (\<lambda>selected.
         rbind (try_fold (\<lambda>st i. try_fold (take_selected cx (db_segments db) us i) st [0..<length us])
           (vals, selected) [0..<length (db_segments db)]) (\<lambda>(vals, selected). Inr vals))
       = Inr (map (\<lambda>key. projr (database_get cx db key r)) keys)"
proof -
  let ?segs = "db_segments db" and ?n = "length (db_segments db)"
  define sel where "sel p = foldl (\<lambda>cur i. best_ordinal_step cx ?segs (keys ! (us ! p)) r i cur) None [0..<?n]" for p
  let ?val = "\<lambda>p. projr (database_get cx db (keys ! (us ! p)) r)"
  have invs: "\<forall>seg \<in> set ?segs. seg_inv cx seg" using reads_okD(2) [OF ok] by blast
  have get: "database_get cx db key r = Inr (projr (database_get cx db key r))" for key
    using database_get_reads [OF ok, of key r] by auto
  have none: "memtable_get_version (db_table db) (keys ! (us ! p)) r = None" if "p < length us" for p
    using nth_mem [OF that] by (simp add: us)
  have best: "best_of cx ?segs (keys ! (us ! p)) r {..<?n} (sel p)" for p
    unfolding sel_def by (rule best_ordinal_fold [OF invs order_refl])
  have chosen: "selected_value cx (?segs ! j) sv = Inr (?val p)" if "p < length us" "sel p = Some (j, sv)" for p j sv
    using get_unresolved [OF ok none [OF that(1)] best [of p]] get that(2) by simp
  have unchosen: "?val p = None" if "p < length us" "sel p = None" for p
    using get_unresolved [OF ok none [OF that(1)] best [of p], symmetric] that(2) by simp
  have d: "distinct us" "\<forall>u \<in> set us. u < length vals" by (simp_all add: us vals)
  obtain vals' selected' where run: "try_fold (\<lambda>st i. try_fold (take_selected cx ?segs us i) st [0..<length us])
        (vals, map sel [0..<length us]) [0..<?n] = Inr (vals', selected')"
    and t: "taken us sel ?val vals (\<lambda>p. \<exists>i < ?n. \<exists>sv. sel p = Some (i, sv)) (vals', selected')"
    using take_all [OF d order_refl [of ?n], where sel = sel and val = ?val, OF chosen] by auto
  have "vals' ! i = projr (database_get cx db (keys ! i) r)" if i: "i < length keys" for i
  proof (cases "memtable_get_version (db_table db) (keys ! i) r")
    case None
    then have "i \<in> set us" using i by (simp add: us)
    then obtain p where p: "p < length us" "us ! p = i" by (auto simp: in_set_conv_nth)
    have fin: "(\<exists>j < ?n. \<exists>sv. sel p = Some (j, sv)) = (sel p \<noteq> None)"
      using best [of p] by (auto simp: best_of_def split: option.splits)
    have "vals' ! (us ! p) = (if \<exists>j < ?n. \<exists>sv. sel p = Some (j, sv) then ?val p else vals ! (us ! p))"
      using t p(1) unfolding taken_def by blast
    then have "vals' ! i = (if sel p \<noteq> None then ?val p else vals ! i)" unfolding fin p(2) .
    then show ?thesis using p unchosen [of p] None i by (cases "sel p") (simp_all add: vals)
  next
    case (Some v)
    then have "i \<notin> set us" by (simp add: us)
    then show ?thesis using t i Some by (simp add: taken_def vals database_get_def)
  qed
  moreover have "length vals' = length keys" using t by (simp add: taken_def vals)
  ultimately have "vals' = map (\<lambda>key. projr (database_get cx db key r)) keys" by (simp add: list_eq_iff_nth_eq)
  then show ?thesis using select_all [OF invs order_refl, of keys r us] run by (simp flip: sel_def)
qed

lemma get_many_eq:
  assumes "reads_ok cx db"
  shows "database_get_many cx db keys r = try_map (\<lambda>key. database_get cx db key r) keys"
proof -
  have get: "database_get cx db key r = Inr (projr (database_get cx db key r))" for key
    using database_get_reads [OF assms, of key r] by auto
  have all: "try_map (\<lambda>key. database_get cx db key r) keys = Inr (map (\<lambda>key. projr (database_get cx db key r)) keys)"
    by (rule try_map_Inr) (rule get)
  let ?us = "filter (\<lambda>i. memtable_get_version (db_table db) (keys ! i) r = None) [0..<length keys]"
  have us: "filter (\<lambda>index. map (\<lambda>key. memtable_get_version (db_table db) key r) keys ! index = None) [0..<length keys] = ?us"
    by (rule filter_cong) simp_all
  have vals: "map (\<lambda>v. Option.bind v vv_value) (map (\<lambda>key. memtable_get_version (db_table db) key r) keys)
      = map (\<lambda>key. Option.bind (memtable_get_version (db_table db) key r) vv_value) keys" by simp
  show ?thesis
  proof (cases "?us = []")
    case True
    have "Option.bind (memtable_get_version (db_table db) key r) vv_value = projr (database_get cx db key r)"
      if "key \<in> set keys" for key
    proof -
      obtain i where "i < length keys" "key = keys ! i" using \<open>key \<in> set keys\<close> by (auto simp: in_set_conv_nth)
      then obtain v where "memtable_get_version (db_table db) key r = Some v"
        using True by (fastforce simp: filter_empty_conv)
      then show ?thesis by (simp add: database_get_def)
    qed
    then show ?thesis using True unfolding database_get_many_def Let_def us vals all by simp
  next
    case False
    then show ?thesis
      unfolding database_get_many_def Let_def us vals all get_many_unresolved [OF assms refl refl] by simp
  qed
qed

section \<open>The latest version of a key\<close>

definition latest_of :: "rows \<Rightarrow> bytes \<Rightarrow> nat \<Rightarrow> nat option \<Rightarrow> bool" where
  "latest_of R key r out \<longleftrightarrow>
     (case out of
        None \<Rightarrow> \<forall>v. (key, v) \<in> R \<longrightarrow> r < vv_sequence v
      | Some n \<Rightarrow> n \<le> r \<and> (\<exists>v. (key, v) \<in> R \<and> vv_sequence v = n)
          \<and> (\<forall>v. (key, v) \<in> R \<longrightarrow> vv_sequence v \<le> r \<longrightarrow> vv_sequence v \<le> n))"

lemma latest_of_visible: "latest_of R key r out \<Longrightarrow> out = Some n \<longleftrightarrow> (\<exists>v. visible_at R key r v \<and> vv_sequence v = n)"
proof (cases out)
  case None
  then show "latest_of R key r out \<Longrightarrow> ?thesis" by (force simp: latest_of_def visible_at_def dest: leD)
next
  case (Some m)
  assume "latest_of R key r out"
  then have m: "m \<le> r" "\<And>v. (key, v) \<in> R \<Longrightarrow> vv_sequence v \<le> r \<Longrightarrow> vv_sequence v \<le> m"
    and "\<exists>v. (key, v) \<in> R \<and> vv_sequence v = m" using Some by (auto simp: latest_of_def)
  then obtain v where v: "(key, v) \<in> R" "vv_sequence v = m" by blast
  have "visible_at R key r v" using v m by (auto simp: visible_at_def)
  moreover have "vv_sequence w = m" if "visible_at R key r w" for w
    using that m v unfolding visible_at_def by (metis order_antisym)
  ultimately show ?thesis using Some v(2) by auto
qed

lemma selects_latest:
  assumes "selects cx seg key r s"
  shows "latest_of (segment_rows cx seg) key r (map_option sv_sequence s)"
proof (cases s)
  case None
  then have "\<not> visible_at (segment_rows cx seg) key r v" for v using assms by (simp add: selects_def)
  then have "r < vv_sequence v" if "(key, v) \<in> segment_rows cx seg" for v
    using visible_exists [OF that, of r] by (cases "vv_sequence v \<le> r") auto
  then show ?thesis using None by (simp add: latest_of_def)
next
  case (Some sv)
  then show ?thesis using assms by (auto simp: latest_of_def selects_def visible_at_def)
qed

lemma latest_of_union:
  assumes "latest_of R key r a" and "latest_of S key r b"
  shows "latest_of (R \<union> S) key r
    (case b of None \<Rightarrow> a | Some n \<Rightarrow> if (case a of None \<Rightarrow> True | Some l \<Rightarrow> n > l) then Some n else a)"
  using assms by (cases a; cases b) (fastforce simp: latest_of_def dest: leD)+

lemma latest_fold:
  assumes "\<forall>seg \<in> set segs. seg_inv cx seg"
  shows "\<exists>out. try_fold (\<lambda>latest seg.
      rbind (get_sequence cx seg key r) (\<lambda>sequence.
      case sequence of
        None \<Rightarrow> Inr latest
      | Some n \<Rightarrow> Inr (if (case latest of None \<Rightarrow> True | Some l \<Rightarrow> n > l) then Some n else latest))) None segs = Inr out
    \<and> latest_of (segments_rows cx segs) key r out"
  using assms
proof (induction segs rule: rev_induct)
  case Nil
  show ?case by (simp add: segments_rows_def latest_of_def)
next
  case (snoc seg segs)
  obtain s where s: "select_version cx seg key r = Inr s" "selects cx seg key r s"
    using snoc.prems select_version_spec [of cx seg key r] by auto
  have rows: "segments_rows cx (segs @ [seg]) = segments_rows cx segs \<union> segment_rows cx seg"
    by (auto simp: segments_rows_def)
  let ?step = "\<lambda>latest seg. rbind (get_sequence cx seg key r) (\<lambda>sequence. case sequence of None \<Rightarrow> Inr latest
      | Some n \<Rightarrow> Inr (if (case latest of None \<Rightarrow> True | Some l \<Rightarrow> n > l) then Some n else latest))"
  have "\<forall>seg \<in> set segs. seg_inv cx seg" using snoc.prems by simp
  from snoc.IH [OF this]
  obtain out where out: "try_fold ?step None segs = Inr out" "latest_of (segments_rows cx segs) key r out" by blast
  let ?out = "case map_option sv_sequence s of None \<Rightarrow> out
    | Some n \<Rightarrow> if (case out of None \<Rightarrow> True | Some l \<Rightarrow> n > l) then Some n else out"
  have "?step out seg = Inr ?out" by (cases s) (simp_all add: get_sequence_def s(1))
  then have "try_fold ?step None (segs @ [seg]) = Inr ?out" unfolding try_fold_append out(1) by simp
  moreover have "latest_of (segments_rows cx (segs @ [seg])) key r ?out"
    unfolding rows by (rule latest_of_union [OF out(2) selects_latest [OF s(2)]])
  ultimately show ?case by blast
qed

lemma latest_sequence_spec:
  assumes ok: "reads_ok cx db"
  shows "\<exists>out. latest_sequence_for_key cx db key = Inr out
    \<and> (\<forall>n. out = Some n \<longleftrightarrow> (\<exists>v. visible_at (db_rows cx db) key (db_snapshot db) v \<and> vv_sequence v = n))"
proof (cases "memtable_get_version (db_table db) key (db_snapshot db)")
  case (Some v)
  then show ?thesis
    using memtable_decides [OF ok Some] visible_unique [OF reads_okD(3) [OF ok]]
    by (auto simp: latest_sequence_for_key_def)
next
  case None
  have "\<forall>seg \<in> set (db_segments db). seg_inv cx seg" using reads_okD(2) [OF ok] by blast
  from latest_fold [OF this, of key "db_snapshot db"]
  obtain out where out: "latest_sequence_for_key cx db key = Inr out"
    "latest_of (segments_rows cx (db_segments db)) key (db_snapshot db) out"
    by (auto simp: latest_sequence_for_key_def None)
  then show ?thesis using latest_of_visible segments_decide(1) [OF ok None] by simp
qed

section \<open>Scans\<close>

text \<open>
  Every scan folds lists of rows into one map. Rows \<open>E\<close> represent a table \<open>R\<close> on the wanted keys when
  they are rows of it and hold a newest one of every key; such sets can be united, over
  tables and over keys, without changing what is visible.
\<close>

definition represents :: "rows \<Rightarrow> rows \<Rightarrow> (bytes \<Rightarrow> bool) \<Rightarrow> nat \<Rightarrow> bool" where
  "represents E R wanted r \<longleftrightarrow>
     (\<forall>k v. (k, v) \<in> E \<longrightarrow> wanted k \<and> (k, v) \<in> R \<and> vv_sequence v \<le> r)
     \<and> (\<forall>k v. (k, v) \<in> R \<longrightarrow> wanted k \<longrightarrow> vv_sequence v \<le> r \<longrightarrow> (\<exists>w. (k, w) \<in> E \<and> vv_sequence v \<le> vv_sequence w))"

lemma represents_tables: "represents E R wanted r \<Longrightarrow> represents F S wanted r \<Longrightarrow> represents (E \<union> F) (R \<union> S) wanted r"
  unfolding represents_def by blast

lemma represents_keys:
  "represents E R wanted r \<Longrightarrow> represents F R wanted' r \<Longrightarrow> represents (E \<union> F) R (\<lambda>k. wanted k \<or> wanted' k) r"
  unfolding represents_def by blast

lemma represents_visible:
  assumes "represents E R wanted r" and "rows_unique R"
  shows "visible_at E k r v \<longleftrightarrow> wanted k \<and> visible_at R k r v"
proof
  assume v: "visible_at E k r v"
  then have "wanted k" "(k, v) \<in> R" "vv_sequence v \<le> r" using assms by (auto simp: visible_at_def represents_def)
  moreover have "vv_sequence w \<le> vv_sequence v" if w: "(k, w) \<in> R" "vv_sequence w \<le> r" for w
  proof -
    obtain u where u: "(k, u) \<in> E" "vv_sequence w \<le> vv_sequence u"
      using assms(1) w \<open>wanted k\<close> unfolding represents_def by blast
    then have "vv_sequence u \<le> vv_sequence v" using assms v by (auto simp: visible_at_def represents_def)
    with u(2) show ?thesis by (rule order_trans)
  qed
  ultimately show "wanted k \<and> visible_at R k r v" by (simp add: visible_at_def)
next
  assume v: "wanted k \<and> visible_at R k r v"
  then obtain w where w: "(k, w) \<in> E" "vv_sequence v \<le> vv_sequence w"
    using assms(1) unfolding represents_def visible_at_def by blast
  have rep: "(k, u) \<in> E \<Longrightarrow> (k, u) \<in> R \<and> vv_sequence u \<le> r" for u using assms(1) by (auto simp: represents_def)
  have "vv_sequence w \<le> vv_sequence v" using v rep [OF w(1)] by (auto simp: visible_at_def)
  then have "w = v" using w v rep [OF w(1)] assms(2) unfolding rows_unique_def visible_at_def by (meson order_antisym)
  then show "visible_at E k r v" using w(1) v rep by (auto simp: visible_at_def)
qed

lemma represents_map:
  assumes "key_sorted es" and "\<And>k v. map_of es k = Some v \<longleftrightarrow> wanted k \<and> visible_at R k r v"
  shows "represents (set es) R wanted r"
proof -
  have es: "(k, v) \<in> set es \<longleftrightarrow> wanted k \<and> visible_at R k r v" for k v
    using assms(2) [of k v] key_sorted_distinct [OF assms(1)] by (simp add: map_of_eq_Some_iff)
  have "\<exists>w. (k, w) \<in> set es \<and> vv_sequence v \<le> vv_sequence w" if v: "(k, v) \<in> R" "wanted k" "vv_sequence v \<le> r" for k v
  proof -
    obtain w where "visible_at R k r w" using visible_exists v(1,3) by blast
    then show ?thesis using es v by (auto simp: visible_at_def)
  qed
  then show ?thesis by (auto simp: represents_def es visible_at_def)
qed

lemma segments_merge:
  assumes "\<And>seg. seg \<in> set segs \<Longrightarrow> \<exists>es. vf seg = Inr es \<and> represents (set es) (segment_rows cx seg) wanted r"
  shows "\<exists>es. try_fold (\<lambda>visible seg. rbind (vf seg) (\<lambda>es. Inr (foldl newest_put visible es))) m segs = Inr (foldl newest_put m es)
    \<and> represents (set es) (segments_rows cx segs) wanted r"
  using assms
proof (induction segs arbitrary: m)
  case Nil
  show ?case by (rule exI [of _ "[]"]) (simp add: segments_rows_def represents_def)
next
  case (Cons seg segs)
  obtain es where es: "vf seg = Inr es" "represents (set es) (segment_rows cx seg) wanted r" using Cons.prems by auto
  obtain fs where fs: "try_fold (\<lambda>visible seg. rbind (vf seg) (\<lambda>es. Inr (foldl newest_put visible es))) (foldl newest_put m es) segs
      = Inr (foldl newest_put (foldl newest_put m es) fs)" "represents (set fs) (segments_rows cx segs) wanted r"
    using Cons.IH [of "foldl newest_put m es"] Cons.prems by auto
  have "represents (set (es @ fs)) (segments_rows cx (seg # segs)) wanted r"
    using represents_tables [OF es(2) fs(2)] by (simp add: segments_rows_def)
  then show ?case using es(1) fs(1) by (intro exI [of _ "es @ fs"]) simp
qed

text \<open>What a list of rows must be to answer a scan of the wanted keys.\<close>

definition scans_as :: "rows \<Rightarrow> (bytes \<Rightarrow> bool) \<Rightarrow> nat \<Rightarrow> (bytes \<times> bytes) list \<Rightarrow> bool" where
  "scans_as R wanted r rows \<longleftrightarrow> key_sorted rows \<and> (\<forall>k b. (k, b) \<in> set rows \<longleftrightarrow> wanted k \<and> reads_as R k r (Some b))"

lemma scans_as_map:
  assumes "key_sorted m" and "\<And>k v. map_of m k = Some v \<longleftrightarrow> wanted k \<and> visible_at R k r v"
  shows "scans_as R wanted r (visible_values m)"
proof -
  have sorted: "key_sorted (visible_values m)"
    unfolding visible_values_def by (rule key_sorted_map_filter [OF assms(1)])
  have "map_of (visible_values m) k = Some b \<longleftrightarrow> wanted k \<and> reads_as R k r (Some b)" for k b
    unfolding visible_values_def map_of_map_filter [OF assms(1)] reads_as_Some by (auto simp: bind_eq_Some_conv assms(2))
  moreover have "(k, b) \<in> set (visible_values m) \<longleftrightarrow> map_of (visible_values m) k = Some b" for k b
    using key_sorted_distinct [OF sorted] by (simp add: map_of_eq_Some_iff)
  ultimately show ?thesis using sorted by (simp add: scans_as_def)
qed

lemma scans_as_fold:
  assumes "represents (set es) R wanted r" and "rows_unique R"
  shows "scans_as R wanted r (visible_values (foldl newest_put [] es))"
proof (rule scans_as_map)
  show "key_sorted (foldl newest_put [] es)" by (rule key_sorted_newest_fold) simp
  have sub: "set es \<subseteq> R" and seqs: "\<forall>e \<in> set es. vv_sequence (snd e) \<le> r"
    using assms(1) by (auto simp: represents_def)
  show "map_of (foldl newest_put [] es) k = Some v \<longleftrightarrow> wanted k \<and> visible_at R k r v" for k v
    using newest_fold_visible [OF rows_unique_subset [OF assms(2) sub] seqs] represents_visible [OF assms] by simp
qed

lemma segment_represents:
  assumes "seg_inv cx seg"
  shows "\<exists>es. segment_visible_from cx seg start stop r = Inr es \<and> represents (set es) (segment_rows cx seg) (in_range start stop) r"
  using segment_visible_from_spec [OF assms, of start stop r] represents_map by blast

lemma segment_ranges_represents:
  assumes "seg_inv cx seg" and "ranges_ok ranges"
  shows "\<exists>es. segment_visible_ranges cx seg ranges r = Inr es \<and> represents (set es) (segment_rows cx seg) (in_ranges ranges) r"
  using segment_visible_ranges_spec [OF assms, of r] represents_map by blast

lemma memtable_visible_map:
  assumes "mt_inv m" and "range_ok start stop"
  shows "\<exists>es. memtable_visible_from m start stop r = Inr es \<and> key_sorted es
    \<and> (\<forall>k v. map_of es k = Some v \<longleftrightarrow> in_range start stop k \<and> visible_at (mt_rows m) k r v)"
proof -
  obtain es where es: "memtable_visible_from m start stop r = Inr es" using mt.visible_from_ok [OF assms] by blast
  have "map_of es k = Some v \<longleftrightarrow> in_range start stop k \<and> visible_at (mt_rows m) k r v" for k v
    using mt.visible_from_get [OF assms(1) es] mt.get_version_visible [OF assms(1)] by auto
  with es show ?thesis using mt.visible_from_sorted [OF assms(1) es] by blast
qed

lemma memtable_represents:
  assumes "mt_inv m" and "range_ok start stop"
  shows "\<exists>es. memtable_visible_from m start stop r = Inr es \<and> represents (set es) (mt_rows m) (in_range start stop) r"
  using memtable_visible_map [OF assms, of r] represents_map by blast

lemma memtable_scan_values:
  "memtable_scan m start stop r = rbind (memtable_visible_from m start stop r) (\<lambda>es. Inr (visible_values es))"
proof -
  have "List.map_filter (\<lambda>(key, c). map_option (Pair key) (Option.bind (chain_visible r c) vv_value)) es
      = visible_values (List.map_filter (\<lambda>(key, c). map_option (Pair key) (chain_visible r c)) es)" for es :: "(bytes, version_chain) btree"
    unfolding visible_values_def
    by (induction es) (auto simp: List.map_filter_simps split: option.splits)
  then show ?thesis
    by (cases "btree_range (Included start) (end_bound stop) (mt_versions m)")
      (simp_all add: memtable_scan_def memtable_visible_from_def)
qed

lemma mt_rows_empty: "mt_inv m \<Longrightarrow> mt_version_count m = 0 \<Longrightarrow> mt_rows m = {}"
proof -
  assume inv: "mt_inv m" and "mt_version_count m = 0"
  then have "sum_list (map (\<lambda>(k, c). length (chain_slice c)) (mt_versions m)) = 0"
    by (simp add: mt_inv_def bt_sum_def chain_total_def sum_list_triv)
  then have "chain_slice c = []" if "(k, c) \<in> set (mt_versions m)" for k c
    using that by (force simp: sum_list_eq_0_iff)
  then have "\<And>k c. map_of (mt_versions m) k = Some c \<Longrightarrow> chain_slice c = []" by (blast dest: map_of_SomeD)
  then show ?thesis by (auto simp: mt_rows_def table_rows_def)
qed

lemma database_scan_reads:
  assumes ok: "reads_ok cx db" and range: "range_ok start stop"
  shows "\<exists>rows. database_scan cx db start stop r = Inr rows \<and> scans_as (db_rows cx db) (in_range start stop) r rows"
proof -
  let ?segs = "db_segments db" and ?m = "db_table db"
  obtain ms where ms: "memtable_visible_from ?m start stop r = Inr ms" "key_sorted ms"
    "\<And>k v. map_of ms k = Some v \<longleftrightarrow> in_range start stop k \<and> visible_at (mt_rows ?m) k r v"
    using memtable_visible_map [OF reads_okD(1) [OF ok] range, of r] by blast
  show ?thesis
  proof (cases "?segs = []")
    case True
    then have "db_rows cx db = mt_rows ?m" by (simp add: db_rows_def segments_rows_def)
    then have "scans_as (db_rows cx db) (in_range start stop) r (visible_values ms)"
      using scans_as_map [OF ms(2)] ms(3) by simp
    then show ?thesis using True ms(1) by (simp add: database_scan_def memtable_scan_values)
  next
    case False
    show ?thesis
    proof (cases "\<exists>seg. ?segs = [seg] \<and> mt_version_count ?m = 0")
      case True
      then obtain seg where seg: "?segs = [seg]" "mt_version_count ?m = 0" by blast
      have empty: "mt_rows ?m = {}" using reads_okD(1) [OF ok] seg(2) by (rule mt_rows_empty)
      obtain es where es: "segment_visible_from cx seg start stop r = Inr es" "key_sorted es"
        "\<And>k v. map_of es k = Some v \<longleftrightarrow> in_range start stop k \<and> visible_at (segment_rows cx seg) k r v"
        using segment_visible_from_spec [of cx seg start stop r] reads_okD(2) [OF ok] seg(1) by auto
      have "db_rows cx db = segment_rows cx seg" by (simp add: db_rows_def segments_rows_def seg empty)
      then have "scans_as (db_rows cx db) (in_range start stop) r (visible_values es)"
        using scans_as_map [OF es(2)] es(3) by simp
      then show ?thesis using seg es(1) by (simp add: database_scan_def segment_scan_def visible_values_def)
    next
      case False': False
      obtain es where es: "try_fold (\<lambda>visible seg. rbind (segment_visible_from cx seg start stop r)
            (\<lambda>es. Inr (foldl newest_put visible es))) [] ?segs = Inr (foldl newest_put [] es)"
        "represents (set es) (segments_rows cx ?segs) (in_range start stop) r"
        using segments_merge [of ?segs "\<lambda>seg. segment_visible_from cx seg start stop r" cx "in_range start stop" r "[]"]
          segment_represents reads_okD(2) [OF ok] by blast
      have "represents (set (es @ ms)) (db_rows cx db) (in_range start stop) r"
        using represents_tables [OF es(2) represents_map [OF ms(2,3)]] by (simp add: db_rows_def Un_commute)
      from scans_as_fold [OF this reads_okD(3) [OF ok]] show ?thesis
        using False False' es(1) ms(1) by (auto simp: database_scan_def neq_Nil_conv)
    qed
  qed
qed

lemma scan_ranges_accepted: "scan_ranges_rejected ranges \<longleftrightarrow> \<not> ranges_ok ranges"
proof -
  have "\<not> list_ex (\<lambda>(a, b). snd a > fst b) (windows2 ranges) \<longleftrightarrow> sorted_wrt (\<lambda>a b. snd a \<le> fst b) ranges"
    if "\<forall>rg \<in> set ranges. fst rg < snd rg"
    using that
  proof (induction ranges rule: windows2.induct)
    case (1 a b rest)
    have "snd a \<le> fst c" if "snd a \<le> fst b" "snd b \<le> fst c" for c
      using that "1.prems" order_trans [of "snd a" "fst b" "fst c"] less_le_trans [of "fst b" "snd b" "fst c"] by auto
    then show ?case using 1 by auto
  qed simp_all
  moreover have "list_ex (\<lambda>(start, stop). start \<ge> stop) ranges \<longleftrightarrow> \<not> (\<forall>rg \<in> set ranges. fst rg < snd rg)"
    by (simp add: list_ex_iff case_prod_beta not_less)
  ultimately show ?thesis unfolding scan_ranges_rejected_def ranges_ok_def by blast
qed

lemma memtable_ranges_merge:
  assumes "mt_inv m" and "\<forall>rg \<in> set ranges. fst rg < snd rg"
  shows "\<exists>es. try_fold (\<lambda>visible (start, stop). rbind (memtable_visible_from m start (Some stop) r)
        (\<lambda>es. Inr (foldl newest_put visible es))) vis ranges = Inr (foldl newest_put vis es)
    \<and> represents (set es) (mt_rows m) (in_ranges ranges) r"
  using assms(2)
proof (induction ranges arbitrary: vis)
  case Nil
  show ?case by (rule exI [of _ "[]"]) (simp add: represents_def in_ranges_def)
next
  case (Cons rg ranges)
  obtain start stop where rg: "rg = (start, stop)" by (cases rg)
  have "range_ok start (Some stop)" using Cons.prems by (simp add: rg range_ok_def less_imp_le)
  then obtain es where es: "memtable_visible_from m start (Some stop) r = Inr es"
    "represents (set es) (mt_rows m) (in_range start (Some stop)) r"
    using memtable_represents [OF assms(1)] by blast
  obtain fs where fs: "try_fold (\<lambda>visible (start, stop). rbind (memtable_visible_from m start (Some stop) r)
        (\<lambda>es. Inr (foldl newest_put visible es))) (foldl newest_put vis es) ranges = Inr (foldl newest_put (foldl newest_put vis es) fs)"
    "represents (set fs) (mt_rows m) (in_ranges ranges) r"
    using Cons.IH [of "foldl newest_put vis es"] Cons.prems by auto
  have "(\<lambda>k. in_range start (Some stop) k \<or> in_ranges ranges k) = in_ranges (rg # ranges)"
    by (auto simp: fun_eq_iff in_ranges_def in_range_def rg)
  then have "represents (set (es @ fs)) (mt_rows m) (in_ranges (rg # ranges)) r"
    using represents_keys [OF es(2) fs(2)] by simp
  then show ?case using es(1) fs(1) by (intro exI [of _ "es @ fs"]) (simp add: rg)
qed

lemma database_scan_ranges_reads:
  assumes ok: "reads_ok cx db" and ranges: "ranges_ok ranges"
  shows "\<exists>rows. database_scan_ranges cx db ranges r = Inr rows \<and> scans_as (db_rows cx db) (in_ranges ranges) r rows"
proof (cases "ranges = []")
  case True
  then show ?thesis using ranges
    by (simp add: database_scan_ranges_def fail_if_def scan_ranges_accepted scans_as_def in_ranges_def)
next
  case False
  let ?segs = "db_segments db"
  obtain es where es: "try_fold (\<lambda>visible seg. rbind (segment_visible_ranges cx seg ranges r)
        (\<lambda>es. Inr (foldl newest_put visible es))) [] ?segs = Inr (foldl newest_put [] es)"
    "represents (set es) (segments_rows cx ?segs) (in_ranges ranges) r"
    using segments_merge [of ?segs "\<lambda>seg. segment_visible_ranges cx seg ranges r" cx "in_ranges ranges" r "[]"]
      segment_ranges_represents [OF _ ranges] reads_okD(2) [OF ok] by blast
  have nonempty: "\<forall>rg \<in> set ranges. fst rg < snd rg" using ranges by (simp add: ranges_ok_def)
  obtain ms where ms: "try_fold (\<lambda>visible (start, stop). rbind (memtable_visible_from (db_table db) start (Some stop) r)
        (\<lambda>es. Inr (foldl newest_put visible es))) (foldl newest_put [] es) ranges = Inr (foldl newest_put (foldl newest_put [] es) ms)"
    "represents (set ms) (mt_rows (db_table db)) (in_ranges ranges) r"
    using memtable_ranges_merge [OF reads_okD(1) [OF ok] nonempty] by blast
  have "represents (set (es @ ms)) (db_rows cx db) (in_ranges ranges) r"
    using represents_tables [OF es(2) ms(2)] by (simp add: db_rows_def Un_commute)
  from scans_as_fold [OF this reads_okD(3) [OF ok]] show ?thesis
    using False ranges es(1) ms(1) by (simp add: database_scan_ranges_def fail_if_def scan_ranges_accepted)
qed

end
