(* ===== verification/Manifest_Spec.thy ===== *)
theory Manifest_Spec
  imports Manifest_Store Segment_Theorems "HOL-Library.Countable"
begin

text \<open>
  What the manifest store guarantees. A manifest that the constructor builds is valid; a valid
  manifest lists distinct segments, disjoint within every level above zero; publication is atomic:
  whatever fails, \<open>CURRENT\<close> names either the old or the new manifest, every manifest that could be
  loaded can still be loaded, and a store whose pointer may have moved publishes nothing more.
\<close>

section \<open>Serialization\<close>

text \<open>Serializing a document succeeds, and parsing returns what was serialized.\<close>

definition json_ok :: "json \<Rightarrow> bool" where
  "json_ok j \<longleftrightarrow> (\<forall>c. \<exists>bs. json_content j c = Inr bs)
     \<and> (\<forall>m. \<exists>bs. json_manifest j m = Inr bs \<and> json_read_manifest j bs = Inr m)
     \<and> (\<forall>p. \<exists>bs. json_pointer j p = Inr bs \<and> json_read_pointer j bs = Inr p)
     \<and> (\<forall>c. \<exists>bs. json_checkpoint j c = Inr bs \<and> json_read_checkpoint j bs = Inr c)"

lemma json_read_written:
  assumes "json_ok j"
  shows "json_manifest j m = Inr bs \<Longrightarrow> json_read_manifest j bs = Inr m"
    and "json_pointer j p = Inr bs \<Longrightarrow> json_read_pointer j bs = Inr p"
    and "json_checkpoint j c = Inr bs \<Longrightarrow> json_read_checkpoint j bs = Inr c"
  using assms unfolding json_ok_def by (metis sum.inject(2))+

lemma hex_is_sha256:
  assumes "length ds = 32"
  shows "is_sha256 (encode_digest ds)"
proof -
  have "ascii_hexdigit (HEX ! n)" if "n < 16" for n
    using nth_mem [of n HEX] that by (auto simp: HEX_def ascii_hexdigit_def)
  moreover have "unat b div 16 < 16" "unat b mod 16 < 16" for b :: byte
    using less_mult_imp_div_less [of "unat b" 16 16] unat_byte_less [of b] by simp_all
  ultimately have "list_all ascii_hexdigit (encode_digest ds)"
    by (auto simp: encode_digest_def list_all_iff)
  with assms show ?thesis by (simp add: is_sha256_def length_encode_digest)
qed

lemma sha256_hex_is_sha256: "codec_ok cx \<Longrightarrow> is_sha256 (sha256_hex cx bs)"
  by (simp add: sha256_hex_def codec_ok_def hex_is_sha256)

section \<open>Valid manifests\<close>

lemma content_of_digest [simp]: "content_of (m\<lparr>man_digest := d\<rparr>) = content_of m"
  by (simp add: content_of_def)

lemma validate_components_digest [simp]: "validate_components (m\<lparr>man_digest := d\<rparr>) = validate_components m"
  by (simp add: validate_components_def)

lemma manifest_new_inner_Inr:
  assumes "manifest_new_inner cx j generation parent created_at durable wal_start segments app = Inr m"
  shows "validate_components m = Inr ()" and "\<exists>bs. bytes_without_digest j m = Inr bs \<and> man_digest m = sha256_hex cx bs"
    and "man_format_version m = MANIFEST_FORMAT_VERSION" and "man_application_format m = app"
    and "man_generation m = generation" and "man_parent m = parent" and "man_created_at m = created_at"
    and "man_durable_sequence m = durable" and "man_wal_start_sequence m = wal_start"
    and "man_segments m = sort_key (\<lambda>d. (sd_level d, sd_first_key d, sd_id d)) segments"
  using assms
  by (auto simp: manifest_new_inner_def Let_def rbind_Inr bytes_without_digest_def content_of_def validate_components_def)

lemma manifest_new_inner_validate:
  assumes "manifest_new_inner cx j generation parent created_at durable wal_start segments app = Inr m" and "app \<noteq> Some 0"
  shows "manifest_validate cx j m = Inr ()"
  using manifest_new_inner_Inr [OF assms(1)] assms(2) by (auto simp: manifest_validate_def)

lemma manifest_validate_Inr:
  assumes "manifest_validate cx j m = Inr u"
  shows "validate_components m = Inr ()" and "\<exists>bs. man_digest m = sha256_hex cx bs" and "man_generation m \<noteq> 0"
  using assms by (auto simp: manifest_validate_def rbind_Inr fail_if_Inr validate_components_def)

definition level_disjoint :: "segment_descriptor list \<Rightarrow> bool" where
  "level_disjoint ds \<longleftrightarrow> (\<forall>level. level \<noteq> 0 \<longrightarrow>
     sorted_wrt (\<lambda>a b. sd_last_key a < sd_first_key b) (filter (\<lambda>d. sd_level d = level) ds))"

definition descriptor_ok :: "nat \<Rightarrow> segment_descriptor \<Rightarrow> bool" where
  "descriptor_ok durable d \<longleftrightarrow> is_sha256 (sd_id d) \<and> sd_first_key d \<le> sd_last_key d \<and> 0 < sd_minimum_sequence d
     \<and> sd_minimum_sequence d \<le> sd_maximum_sequence d \<and> sd_maximum_sequence d \<le> durable \<and> 0 < sd_entries d"

lemma descriptor_validate_ok:
  "descriptor_validate d = Inr u \<Longrightarrow> sd_maximum_sequence d \<le> durable \<Longrightarrow> descriptor_ok durable d"
  by (auto simp: descriptor_validate_def descriptor_ok_def rbind_Inr fail_if_Inr)

lemma validate_segments:
  assumes "try_fold (validate_segment durable) ([], []) ds = Inr st"
  shows "distinct (map sd_id ds)" and "\<forall>d \<in> set ds. descriptor_ok durable d" and "level_disjoint ds"
proof -
  let ?P = "\<lambda>ds (ids, lasts). set ids = sd_id ` set ds \<and> distinct (map sd_id ds) \<and> (\<forall>d \<in> set ds. descriptor_ok durable d)
    \<and> level_disjoint ds \<and> (\<forall>d \<in> set ds. sd_level d \<noteq> 0 \<longrightarrow> (\<exists>k. map_of lasts (sd_level d) = Some k \<and> sd_last_key d \<le> k))"
  have "?P ds st"
    using assms
  proof (rule try_fold_prefix [where P = ?P])
    fix ys d t t'
    assume P: "?P ys t" and step: "validate_segment durable t d = Inr t'"
    obtain ids lasts where t: "t = (ids, lasts)" by (cases t)
    have ok: "descriptor_ok durable d" and new: "sd_id d \<notin> set ids"
      using step by (auto simp: t validate_segment_def rbind_Inr fail_if_Inr descriptor_validate_ok split: if_splits)
    have order: "sd_first_key d \<le> sd_last_key d" using ok by (simp add: descriptor_ok_def)
    have ids': "fst t' = sd_id d # ids" using step by (auto simp: t validate_segment_def rbind_Inr split: if_splits)
    show "?P (ys @ [d]) t'"
    proof (cases "sd_level d = 0")
      case True
      then have "snd t' = lasts" using step by (auto simp: t validate_segment_def rbind_Inr)
      with True P ok new ids' show ?thesis by (cases t') (auto simp: t level_disjoint_def)
    next
      case False
      have lasts': "snd t' = bt_insert (sd_level d) (sd_last_key d) lasts"
        and below: "\<And>k. map_of lasts (sd_level d) = Some k \<Longrightarrow> k < sd_first_key d"
        using step False by (auto simp: t validate_segment_def rbind_Inr fail_if_Inr)
      have before: "sd_last_key e < sd_first_key d" if "e \<in> set ys" "sd_level e = sd_level d" for e
        using P that False below by (fastforce simp: t)
      have upto: "sd_last_key e \<le> sd_last_key d" if "e \<in> set ys" "sd_level e = sd_level d" for e
        using less_le_trans [OF before [OF that] order] by simp
      have "level_disjoint (ys @ [d])"
        using P before by (auto simp: t level_disjoint_def sorted_wrt_append)
      moreover have "\<exists>k. map_of (snd t') (sd_level e) = Some k \<and> sd_last_key e \<le> k"
        if "e \<in> set (ys @ [d])" "sd_level e \<noteq> 0" for e
        using that P upto unfolding lasts' by (auto simp: t map_of_bt_insert)
      ultimately show ?thesis using P ok new ids' by (cases t') (auto simp: t)
    qed
  qed (simp add: level_disjoint_def)
  then show "distinct (map sd_id ds)" and "\<forall>d \<in> set ds. descriptor_ok durable d" and "level_disjoint ds"
    by (cases st; simp)+
qed

lemma validate_components_segments:
  assumes "validate_components m = Inr u"
  shows "distinct (map sd_id (man_segments m))" and "\<forall>d \<in> set (man_segments m). descriptor_ok (man_durable_sequence m) d"
    and "level_disjoint (man_segments m)" and "man_wal_start_sequence m \<le> saturating_add (man_durable_sequence m) 1"
proof -
  obtain st where "try_fold (validate_segment (man_durable_sequence m)) ([], []) (man_segments m) = Inr st"
    using assms by (auto simp: validate_components_def rbind_Inr)
  from validate_segments [OF this] show "distinct (map sd_id (man_segments m))"
    "\<forall>d \<in> set (man_segments m). descriptor_ok (man_durable_sequence m) d" "level_disjoint (man_segments m)" by blast+
  show "man_wal_start_sequence m \<le> saturating_add (man_durable_sequence m) 1"
    using assms by (auto simp: validate_components_def rbind_Inr fail_if_Inr)
qed

section \<open>Publication\<close>

lemma json_name_temporary: "json_name s \<noteq> temporary_name t u"
proof
  assume "json_name s = temporary_name t u"
  then have "last (json_name s) = last (temporary_name t u)" by simp
  then show False by (simp add: json_name_def temporary_name_def)
qed

lemma json_name_inject [simp]: "json_name s = json_name t \<longleftrightarrow> s = t"
  by (simp add: json_name_def)

lemma store_load_Inr:
  "store_load cx j root digest = Inr m \<longleftrightarrow> is_sha256 digest \<and> (\<exists>bs. map_of (rf_manifests root) (json_name digest) = Some (RegularFile bs)
     \<and> json_read_manifest j bs = Inr m \<and> manifest_validate cx j m = Inr () \<and> man_digest m = digest)"
  by (auto simp: store_load_def load_using_def read_plain_def entry_file_def rbind_Inr fail_if_Inr
      split: option.splits dir_entry.splits)

lemma store_current_Inr:
  "store_current cx j root = Inr (Some (p, m)) \<longleftrightarrow> (\<exists>bs. rf_current root = Some (RegularFile bs) \<and> json_read_pointer j bs = Inr p
     \<and> pointer_validate cx p = Inr () \<and> store_load cx j root (cp_manifest p) = Inr m \<and> man_generation m = cp_generation p)"
  by (auto simp: store_current_def store_load_def current_using_def read_plain_def entry_file_def rbind_Inr fail_if_Inr
      split: option.splits dir_entry.splits)

lemma store_current_None: "store_current cx j root = Inr None \<longleftrightarrow> rf_current root = None"
  by (auto simp: store_current_def current_using_def rbind_Inr fail_if_Inr split: option.splits dir_entry.splits)

lemma map_of_persist_rename:
  assumes "map_of d (json_name s) = Some e" and "map_of d (json_name stem) = None"
  shows "map_of (persist_rename os stem bs d) (json_name s) = Some e"
proof -
  have "json_name s \<noteq> json_name stem" using assms by auto
  moreover have "json_name s \<noteq> temporary_name t u" for t u by (rule json_name_temporary)
  ultimately show ?thesis
    using assms by (cases "(os, stem, bs, d)" rule: persist_rename.cases) (auto simp: map_of_bt_insert)
qed

lemma persist_manifest_keeps:
  assumes "persist_manifest j os m root = (r, root')"
  shows "rf_current root' = rf_current root" and "rf_checkpoints root' = rf_checkpoints root"
    and "store_load cx j root d = Inr m' \<Longrightarrow> store_load cx j root' d = Inr m'"
proof -
  have shape: "root' = root \<or> (map_of (rf_manifests root) (json_name (man_digest m)) = None
      \<and> (\<exists>bs. root' = root\<lparr>rf_manifests := persist_rename os (man_digest m) bs (rf_manifests root)\<rparr>))"
    using assms by (auto simp: persist_manifest_def split: sum.splits option.splits dir_entry.splits if_splits)
  then show "rf_current root' = rf_current root" "rf_checkpoints root' = rf_checkpoints root" by auto
  show "store_load cx j root' d = Inr m'" if "store_load cx j root d = Inr m'"
    using shape that by (auto simp: store_load_Inr map_of_persist_rename)
qed

lemma persist_manifest_loads:
  assumes "json_ok j" and "codec_ok cx" and valid: "manifest_validate cx j m = Inr ()"
    and run: "persist_manifest j os m root = (Inr (), root')"
  shows "store_load cx j root' (man_digest m) = Inr m"
proof -
  have sha: "is_sha256 (man_digest m)"
    using manifest_validate_Inr(2) [OF valid] sha256_hex_is_sha256 [OF assms(2)] by auto
  obtain bs where bs: "json_manifest j m = Inr bs" using assms(1) unfolding json_ok_def by blast
  have "map_of (rf_manifests root') (json_name (man_digest m)) = Some (RegularFile bs)"
    using run bs
    by (cases os) (auto simp: persist_manifest_def map_of_bt_insert split: option.splits dir_entry.splits if_splits)
  then show ?thesis using sha valid json_read_written(1) [OF assms(1) bs] by (auto simp: store_load_Inr)
qed

lemma pointer_new_validate:
  assumes "codec_ok cx" and "manifest_validate cx j m = Inr ()"
  shows "pointer_validate cx (pointer_new cx m) = Inr ()" and "cp_manifest (pointer_new cx m) = man_digest m"
    and "cp_generation (pointer_new cx m) = man_generation m"
proof -
  have "is_sha256 (man_digest m)" "man_generation m \<noteq> 0"
    using manifest_validate_Inr [OF assms(2)] sha256_hex_is_sha256 [OF assms(1)] by auto
  then show "pointer_validate cx (pointer_new cx m) = Inr ()"
    using sha256_hex_is_sha256 [OF assms(1)]
    by (simp add: pointer_validate_def pointer_new_def pointer_checksum_def Let_def)
  show "cp_manifest (pointer_new cx m) = man_digest m" "cp_generation (pointer_new cx m) = man_generation m"
    by (simp_all add: pointer_new_def Let_def)
qed

lemma store_current_keeps:
  assumes "rf_current root' = rf_current root"
    and "\<And>d m'. store_load cx j root d = Inr m' \<Longrightarrow> store_load cx j root' d = Inr m'"
    and "store_current cx j root = Inr cur"
  shows "store_current cx j root' = Inr cur"
proof (cases cur)
  case None
  then show ?thesis using assms by (simp add: store_current_None)
next
  case (Some pm)
  obtain p m where "pm = (p, m)" by (cases pm)
  with Some assms show ?thesis by (auto simp: store_current_Inr)
qed

lemma publish_pointer_keeps:
  assumes "publish_pointer j os p root = (r, root')"
  shows "rf_manifests root' = rf_manifests root" and "store_load cx j root' d = store_load cx j root d"
    and "rf_current root' = rf_current root \<or> (\<exists>bs. json_pointer j p = Inr bs \<and> rf_current root' = Some (RegularFile bs)
      \<and> (r = Inr () \<or> (\<exists>e. r = Inl (Io e))))"
    and "r = Inr () \<Longrightarrow> \<exists>bs. json_pointer j p = Inr bs \<and> rf_current root' = Some (RegularFile bs)"
proof -
  show man: "rf_manifests root' = rf_manifests root"
    using assms by (auto simp: publish_pointer_def split: sum.splits rename_outcome.splits)
  then show "store_load cx j root' d = store_load cx j root d"
    by (simp add: store_load_def load_using_def)
  show "rf_current root' = rf_current root \<or> (\<exists>bs. json_pointer j p = Inr bs \<and> rf_current root' = Some (RegularFile bs)
      \<and> (r = Inr () \<or> (\<exists>e. r = Inl (Io e))))"
    using assms by (cases os) (auto simp: publish_pointer_def split: sum.splits)
  show "r = Inr () \<Longrightarrow> \<exists>bs. json_pointer j p = Inr bs \<and> rf_current root' = Some (RegularFile bs)"
    using assms by (cases os) (auto simp: publish_pointer_def split: sum.splits)
qed

lemma publication_result_root [simp]: "st_root (publication_result r store) = st_root store"
  by (simp add: publication_result_def split: sum.splits)

lemma publish_admitted_Inr:
  assumes "publish_admitted cx j m expected store = Inr u" and "store_current cx j (st_root store) = Inr cur"
  shows "\<not> st_publication_uncertain store" and "manifest_validate cx j m = Inr ()"
    and "expected = map_option (\<lambda>(p, _). cp_manifest p) cur"
    and "man_generation m = (case cur of None \<Rightarrow> 0 | Some (p, _) \<Rightarrow> cp_generation p) + 1"
    and "man_parent m = map_option (\<lambda>(p, _). cp_manifest p) cur"
  using assms
  by (auto simp: publish_admitted_def ensure_publication_ready_def extends_current_def rbind_Inr fail_if_Inr ok_or_Inr Let_def
      split: option.splits)

definition publication_ended ::
  "codec \<Rightarrow> json \<Rightarrow> manifest \<Rightarrow> (current_pointer \<times> manifest) option \<Rightarrow> current_pointer res \<Rightarrow> manifest_store \<Rightarrow> bool" where
  "publication_ended cx j m cur r store \<longleftrightarrow>
     (case r of
        Inr p \<Rightarrow> p = pointer_new cx m \<and> store_current cx j (st_root store) = Inr (Some (p, m)) \<and> \<not> st_publication_uncertain store
      | Inl e \<Rightarrow> store_current cx j (st_root store) = Inr cur
          \<or> store_current cx j (st_root store) = Inr (Some (pointer_new cx m, m)) \<and> st_publication_uncertain store)"

lemma store_publish_spec:
  assumes ok: "codec_ok cx" "json_ok j" and cur: "store_current cx j (st_root store) = Inr cur"
    and run: "store_publish cx j os m expected store = (r, store')"
  shows "publication_ended cx j m cur r store'"
    and "store_load cx j (st_root store) d = Inr m' \<Longrightarrow> store_load cx j (st_root store') d = Inr m'"
    and "r = Inr p \<Longrightarrow> publish_admitted cx j m expected store = Inr ()"
    and "store_current cx j (st_root store') \<noteq> Inr cur \<Longrightarrow> publish_admitted cx j m expected store = Inr ()"
proof -
  have "publication_ended cx j m cur r store' \<and> (\<forall>d m'. store_load cx j (st_root store) d = Inr m' \<longrightarrow> store_load cx j (st_root store') d = Inr m')
    \<and> (publish_admitted cx j m expected store = Inr () \<or> (\<exists>e. r = Inl e) \<and> store_current cx j (st_root store') = Inr cur)"
  proof (cases "publish_admitted cx j m expected store")
    case (Inl e)
    then show ?thesis using run cur by (auto simp: store_publish_def publication_ended_def)
  next
    case (Inr u)
    note adm = publish_admitted_Inr [OF Inr cur]
    obtain persisted root1 where one: "persist_manifest j (fst os) m (st_root store) = (persisted, root1)" by fastforce
    note keeps1 = persist_manifest_keeps [OF one]
    have cur1: "store_current cx j root1 = Inr cur" by (rule store_current_keeps [OF keeps1(1) keeps1(3) cur])
    show ?thesis
    proof (cases persisted)
      case (Inl e)
      then show ?thesis using run Inr one cur1 keeps1(3) by (auto simp: store_publish_def publication_ended_def)
    next
      case ok1: (Inr u1)
      let ?p = "pointer_new cx m"
      obtain published root2 where two: "publish_pointer j (snd os) ?p root1 = (published, root2)" by fastforce
      note keeps2 = publish_pointer_keeps [OF two]
      have store': "st_root store' = root2" and r: "r = rbind published (\<lambda>_. Inr ?p)"
        and unc: "st_publication_uncertain store' \<longleftrightarrow> (\<exists>e. published = Inl e \<and> \<not> is_disk_admission e)"
        using run Inr one ok1 two adm(1)
        by (auto simp: store_publish_def publication_result_def Let_def split: sum.splits if_splits)
      have load: "store_load cx j root2 (man_digest m) = Inr m"
        using persist_manifest_loads [OF ok(2,1) adm(2)] one ok1 keeps2(2) by simp
      have pointed: "store_current cx j root2 = Inr (Some (?p, m))"
        if "json_pointer j ?p = Inr bs" "rf_current root2 = Some (RegularFile bs)" for bs
        using that load pointer_new_validate [OF ok(1) adm(2)] json_read_written(2) [OF ok(2)] by (auto simp: store_current_Inr)
      have same: "store_current cx j root2 = Inr cur" if "rf_current root2 = rf_current root1"
        using store_current_keeps [OF that _ cur1] keeps2(2) by simp
      have "publication_ended cx j m cur r store'"
      proof (cases published)
        case (Inl e)
        then show ?thesis
          using keeps2(3) same pointed unc by (auto simp: publication_ended_def store' r is_disk_admission_def)
      next
        case (Inr u2)
        then show ?thesis using keeps2(4) pointed unc by (auto simp: publication_ended_def store' r)
      qed
      with Inr keeps1(3) keeps2(2) store' show ?thesis by simp
    qed
  qed
  then show "publication_ended cx j m cur r store'"
    and "store_load cx j (st_root store) d = Inr m' \<Longrightarrow> store_load cx j (st_root store') d = Inr m'"
    and "r = Inr p \<Longrightarrow> publish_admitted cx j m expected store = Inr ()"
    and "store_current cx j (st_root store') \<noteq> Inr cur \<Longrightarrow> publish_admitted cx j m expected store = Inr ()" by auto
qed

text \<open>
  (C10) Publication of a manifest is an atomic compare-and-swap. Whatever the file system does while
  the manifest and the pointer are written, \<open>CURRENT\<close> afterwards names the old or the new manifest;
  it names the new one after a success, only when the caller expected the old one and the new one
  extends it by one generation, and after a failure that may have moved it the store is marked
  uncertain. No manifest that could be loaded before is lost.
\<close>

theorem publish_atomic:
  assumes "codec_ok cx" and "json_ok j" and "store_current cx j (st_root store) = Inr cur"
    and "store_publish cx j os m expected store = (r, store')"
  shows "publication_ended cx j m cur r store'
    \<and> (store_current cx j (st_root store') \<noteq> Inr cur \<longrightarrow> expected = map_option (\<lambda>(p, _). cp_manifest p) cur
        \<and> man_parent m = expected \<and> man_generation m = (case cur of None \<Rightarrow> 0 | Some (p, _) \<Rightarrow> cp_generation p) + 1)
    \<and> (\<forall>d m'. store_load cx j (st_root store) d = Inr m' \<longrightarrow> store_load cx j (st_root store') d = Inr m')"
proof -
  note spec = store_publish_spec [OF assms]
  have "expected = map_option (\<lambda>(p, _). cp_manifest p) cur \<and> man_parent m = expected
      \<and> man_generation m = (case cur of None \<Rightarrow> 0 | Some (p, _) \<Rightarrow> cp_generation p) + 1"
    if "store_current cx j (st_root store') \<noteq> Inr cur"
    using publish_admitted_Inr(3-5) [OF spec(4) [OF that] assms(3)] by simp
  with spec(1,2) show ?thesis by blast
qed

text \<open>
  (C27) A manifest that the constructor accepts is well formed: it passes its own validation, its
  segments are a rearrangement of the given ones with distinct identities, none of them reaches
  beyond the durable sequence, and within every level above zero their key ranges are disjoint and
  ascending.
\<close>

theorem manifest_new_well_formed:
  assumes "manifest_new_inner cx j generation parent created_at durable wal_start segments app = Inr m" and "app \<noteq> Some 0"
  shows "manifest_validate cx j m = Inr () \<and> set (man_segments m) = set segments \<and> length (man_segments m) = length segments
    \<and> distinct (map sd_id (man_segments m))
    \<and> (\<forall>d \<in> set segments. sd_first_key d \<le> sd_last_key d \<and> sd_maximum_sequence d \<le> durable)
    \<and> (\<forall>level > 0. sorted_wrt (\<lambda>a b. sd_last_key a < sd_first_key b) (filter (\<lambda>d. sd_level d = level) (man_segments m)))"
proof -
  note new = manifest_new_inner_Inr [OF assms(1)]
  have same: "set (man_segments m) = set segments" "length (man_segments m) = length segments" by (simp_all add: new(10))
  note segs = validate_components_segments [OF new(1)]
  have "\<forall>d \<in> set segments. sd_first_key d \<le> sd_last_key d \<and> sd_maximum_sequence d \<le> durable"
    using segs(2) by (simp add: same new(8) descriptor_ok_def)
  with manifest_new_inner_validate [OF assms] same segs(1,3) show ?thesis by (simp add: level_disjoint_def)
qed

section \<open>A concrete store\<close>

text \<open>
  A digest that keeps a prefix of its input and a serialization through an enumeration of the
  documents, to run the store on an example.
\<close>

definition prefix_codec :: codec where
  "prefix_codec = plain_codec\<lparr>sha256 := (\<lambda>bs. take 32 (bs @ replicate 32 0))\<rparr>"

lemma prefix_codec_ok: "codec_ok prefix_codec"
  by (auto simp: codec_ok_def prefix_codec_def plain_codec_def)

definition unary :: "'a::countable \<Rightarrow> bytes" where "unary x = replicate (to_nat x) 0"
definition of_unary :: "bytes \<Rightarrow> 'a::countable" where "of_unary bs = from_nat (length bs)"

lemma of_unary [simp]: "of_unary (unary x) = x"
  by (simp add: of_unary_def unary_def)

definition descriptor_fields where
  "descriptor_fields d = (sd_id d, sd_level d, sd_format_version d, sd_schema_digest d, sd_key_codec_digest d,
     sd_page_format_digest d, sd_first_key d, sd_last_key d, sd_minimum_sequence d, sd_maximum_sequence d, sd_entries d,
     sd_bytes d, sd_checksum d)"

definition descriptor_of_fields :: "_ \<Rightarrow> segment_descriptor" where
  "descriptor_of_fields = (\<lambda>(i, l, v, s, k, p, f, e, lo, hi, n, b, c). \<lparr>sd_id = i, sd_level = l, sd_format_version = v,
     sd_schema_digest = s, sd_key_codec_digest = k, sd_page_format_digest = p, sd_first_key = f, sd_last_key = e,
     sd_minimum_sequence = lo, sd_maximum_sequence = hi, sd_entries = n, sd_bytes = b, sd_checksum = c\<rparr>)"

definition manifest_fields where
  "manifest_fields m = (man_format_version m, man_application_format m, man_generation m, man_parent m, man_created_at m,
     man_durable_sequence m, man_wal_start_sequence m, map descriptor_fields (man_segments m), man_digest m)"

definition manifest_of_fields :: "_ \<Rightarrow> manifest" where
  "manifest_of_fields = (\<lambda>(v, a, g, p, t, d, w, segs, h). \<lparr>man_format_version = v, man_application_format = a, man_generation = g,
     man_parent = p, man_created_at = t, man_durable_sequence = d, man_wal_start_sequence = w,
     man_segments = map descriptor_of_fields segs, man_digest = h\<rparr>)"

definition pointer_fields where
  "pointer_fields p = (cp_format_version p, cp_generation p, cp_manifest p, cp_checksum p)"

definition pointer_of_fields :: "_ \<Rightarrow> current_pointer" where
  "pointer_of_fields = (\<lambda>(v, g, m, c). \<lparr>cp_format_version = v, cp_generation = g, cp_manifest = m, cp_checksum = c\<rparr>)"

definition checkpoint_fields where
  "checkpoint_fields c = (ck_format_version c, ck_name c, ck_manifest c, ck_generation c, ck_created_at c, ck_checksum c)"

definition checkpoint_of_fields :: "_ \<Rightarrow> checkpoint" where
  "checkpoint_of_fields = (\<lambda>(v, n, m, g, t, c). \<lparr>ck_format_version = v, ck_name = n, ck_manifest = m, ck_generation = g,
     ck_created_at = t, ck_checksum = c\<rparr>)"

text \<open>The manifest of a new database is the empty file of the sample encoding; every other one starts with a mark.\<close>

definition opening_manifest :: manifest where
  "opening_manifest = \<lparr>man_format_version = MANIFEST_FORMAT_VERSION, man_application_format = None, man_generation = 1, man_parent = None,
     man_created_at = 0, man_durable_sequence = 0, man_wal_start_sequence = 1, man_segments = [],
     man_digest = sha256_hex prefix_codec (be_bytes 8 1)\<rparr>"

definition sample_json :: json where
  "sample_json = \<lparr>json_content = (\<lambda>c. Inr (be_bytes 8 (con_generation c))),
     json_manifest = (\<lambda>m. Inr (if m = opening_manifest then [] else 1 # unary (manifest_fields m))),
     json_read_manifest = (\<lambda>bs. Inr (case bs of [] \<Rightarrow> opening_manifest | _ # bs \<Rightarrow> manifest_of_fields (of_unary bs))),
     json_pointer = (\<lambda>p. Inr (unary (pointer_fields p))),
     json_read_pointer = (\<lambda>bs. Inr (pointer_of_fields (of_unary bs))),
     json_checkpoint = (\<lambda>c. Inr (unary (checkpoint_fields c))),
     json_read_checkpoint = (\<lambda>bs. Inr (checkpoint_of_fields (of_unary bs)))\<rparr>"

lemma sample_json_ok: "json_ok sample_json"
proof -
  have "descriptor_of_fields (descriptor_fields d) = d" for d by (simp add: descriptor_of_fields_def descriptor_fields_def)
  then show ?thesis
    by (simp add: json_ok_def sample_json_def manifest_of_fields_def manifest_fields_def pointer_of_fields_def pointer_fields_def
        checkpoint_of_fields_def checkpoint_fields_def comp_def)
qed

definition empty_store :: manifest_store where
  "empty_store = \<lparr>st_root = \<lparr>rf_current = None, rf_manifests = [], rf_checkpoints = []\<rparr>, st_publication_uncertain = False,
     st_checkpoint_entries = 1024, st_checkpoint_budget = reclamation_limits_default\<rparr>"

lemma opening_manifest_new: "manifest_new_inner prefix_codec sample_json 1 None 0 0 1 [] None = Inr opening_manifest"
  by (simp add: manifest_new_inner_def validate_components_def Let_def bytes_without_digest_def sample_json_def content_of_def opening_manifest_def
      saturating_add_def rrf_consts)

lemma first_manifest: "\<exists>m. manifest_new_inner prefix_codec sample_json 1 None 0 0 1 [] None = Inr m"
  using opening_manifest_new by blast

lemma first_publish:
  assumes "manifest_new_inner prefix_codec sample_json 1 None 0 0 1 [] None = Inr m"
  shows "\<exists>store. store_publish prefix_codec sample_json (Renamed, Renamed) m None empty_store = (Inr (pointer_new prefix_codec m), store)"
proof -
  note new = manifest_new_inner_Inr [OF assms]
  have "publish_admitted prefix_codec sample_json m None empty_store = Inr ()"
    using manifest_new_inner_validate [OF assms] new(5,6)
    by (simp add: publish_admitted_def ensure_publication_ready_def empty_store_def store_current_def current_using_def extends_current_def)
  then show ?thesis
    by (simp add: store_publish_def persist_manifest_def publish_pointer_def sample_json_def empty_store_def publication_result_def Let_def)
qed

theorem publish_atomic_witness:
  "\<exists>m store. manifest_new_inner prefix_codec sample_json 1 None 0 0 1 [] None = Inr m
    \<and> store_publish prefix_codec sample_json (Renamed, Renamed) m None empty_store = (Inr (pointer_new prefix_codec m), store)
    \<and> store_current prefix_codec sample_json (st_root store) = Inr (Some (pointer_new prefix_codec m, m))"
proof -
  obtain m where m: "manifest_new_inner prefix_codec sample_json 1 None 0 0 1 [] None = Inr m" using first_manifest by blast
  obtain store where run: "store_publish prefix_codec sample_json (Renamed, Renamed) m None empty_store
      = (Inr (pointer_new prefix_codec m), store)" using first_publish [OF m] by blast
  have "store_current prefix_codec sample_json (st_root empty_store) = Inr None"
    by (simp add: store_current_None empty_store_def)
  from publish_atomic [OF prefix_codec_ok sample_json_ok this run] m run show ?thesis
    by (auto simp: publication_ended_def)
qed

theorem manifest_new_well_formed_witness:
  "\<exists>m. manifest_new_inner prefix_codec sample_json 1 None 0 0 1 [] None = Inr m
    \<and> manifest_validate prefix_codec sample_json m = Inr () \<and> man_segments m = []"
proof -
  obtain m where m: "manifest_new_inner prefix_codec sample_json 1 None 0 0 1 [] None = Inr m" using first_manifest by blast
  with manifest_new_well_formed [OF m] show ?thesis by auto
qed

end
