(* ===== verification/Database_Inv.thy ===== *)
theory Database_Inv
  imports Database_Reads Database_Flush Manifest_Spec Wal_Writer "HOL-Library.Multiset"
begin

text \<open>
  What holds of a database between operations, and what its files recover to. The memtable is the
  result of replaying the log, the segments are the ones the current manifest names and
  are on disk, and the store reads that manifest. A disk recovers to a set of rows when its current
  manifest, the segments it names and the log it names hold them.
\<close>

section \<open>The log and the memtable\<close>

definition replay_step :: "memtable \<Rightarrow> wal_batch \<Rightarrow> memtable res" where
  "replay_step table b =
     rbind (batch_decode (wb_payload b)) (\<lambda>batch.
     apply_write_batch table batch (wb_first_sequence b) (wb_last_sequence b))"

definition replayed :: "nat \<Rightarrow> wal_batch list \<Rightarrow> memtable \<Rightarrow> bool" where
  "replayed durable bs m \<longleftrightarrow> try_fold replay_step (at_sequence durable) bs = Inr m"

lemma replayed_Nil: "replayed durable [] m \<longleftrightarrow> m = at_sequence durable"
  by (auto simp: replayed_def)

lemma replayed_snoc: "replayed durable (bs @ [b]) m \<longleftrightarrow> (\<exists>t. replayed durable bs t \<and> replay_step t b = Inr m)"
  by (simp add: replayed_def try_fold_append rbind_Inr)

lemma batch_decode_new: "batch_decode bs = Inr b \<Longrightarrow> write_batch_new (operations b) = Inr b"
  unfolding batch_decode_def Let_def rbind_Inr split_paired_Ex prod.case
  by (elim exE conjE) (simp add: write_batch_new_iff)

lemma next_after_ge: "chain n bs \<Longrightarrow> n \<le> next_after n bs"
proof (induction bs arbitrary: n)
  case (Cons b bs)
  then have "wb_last_sequence b + 1 \<le> next_after (wb_last_sequence b + 1) bs" "n \<le> wb_last_sequence b"
    by (auto simp: batch_valid_def)
  then show ?case by simp
qed simp

lemma replayed_inv:
  assumes "replayed durable bs m" and "chain (durable + 1) bs" and "durable < u64_max"
  shows "mt_inv m \<and> mt_maximum_sequence m + 1 = next_after (durable + 1) bs \<and> mt_maximum_sequence m < u64_max
    \<and> (\<forall>e \<in> mt_rows m. durable < vv_sequence (snd e) \<and> vv_sequence (snd e) \<le> mt_maximum_sequence m)
    \<and> (mt_version_count m = 0 \<longleftrightarrow> bs = [])"
  using assms(1,2)
proof (induction bs arbitrary: m rule: rev_induct)
  case Nil
  then show ?case using assms(3) mt_inv_at_sequence [of durable] by (simp add: replayed_Nil) (simp add: at_sequence_def)
next
  case (snoc b bs)
  then obtain t batch where t: "replayed durable bs t" and dec: "batch_decode (wb_payload b) = Inr batch"
    and app: "apply_write_batch t batch (wb_first_sequence b) (wb_last_sequence b) = Inr m"
    by (auto simp: replayed_snoc replay_step_def rbind_Inr)
  have chain: "chain (durable + 1) bs" "batch_valid b" using snoc.prems(2) by (auto simp: chain_append)
  note IH = snoc.IH [OF t chain(1)]
  note new = batch_decode_new [OF dec]
  have bound: "mt_maximum_sequence t < u64_max" using IH by simp
  note app' = apply_write_batch_Inr [OF _ bound new app]
  have ops: "operations batch \<noteq> []" using new by (auto simp: write_batch_new_iff validate_operations_iff)
  have count: "mt_version_count m \<noteq> 0"
    using app ops by (auto simp: apply_write_batch_def rbind_Inr charge_batch_Inr charge_add_Inr)
  have inv: "mt_inv t" using IH by simp
  have max: "durable \<le> mt_maximum_sequence t" using IH next_after_ge [OF chain(1)] by simp
  have rows: "durable < vv_sequence (snd e) \<and> vv_sequence (snd e) \<le> mt_maximum_sequence m" if e: "e \<in> mt_rows m" for e
  proof (cases "e \<in> mt_rows t")
    case True
    then have "durable < vv_sequence (snd e) \<and> vv_sequence (snd e) \<le> mt_maximum_sequence t" using IH by simp
    then show ?thesis using app' [OF inv] by simp
  next
    case False
    then have "e \<in> set (batch_rows (wb_first_sequence b) (operations batch))" using e app' [OF inv] by simp
    from batch_rows_sequences [OF this] show ?thesis using app' [OF inv] max by simp
  qed
  have "mt_maximum_sequence m + 1 = next_after (durable + 1) (bs @ [b])" using app' [OF inv] by (simp add: next_after_append)
  moreover have "mt_maximum_sequence m < u64_max" using app' [OF inv] chain(2) by (simp add: batch_valid_def)
  ultimately show ?case using app' [OF inv] count rows by simp
qed

section \<open>Files\<close>

record disk =
  dk_root :: root_files
  dk_segments :: segment_files
  dk_wals :: "nat \<rightharpoonup> bytes"

definition disk_of :: "database \<Rightarrow> disk" where
  "disk_of db = \<lparr>dk_root = st_root (db_manifests db), dk_segments = db_segment_files db, dk_wals = disk_wals db\<rparr>"

definition seg_stored :: "codec \<Rightarrow> (bytes \<Rightarrow> page_source) \<Rightarrow> segment_files \<Rightarrow> segment \<Rightarrow> bool" where
  "seg_stored cx backend files seg \<longleftrightarrow>
     (\<exists>img. files (sd_id (sg_descriptor seg)) = Some img \<and> segment_open_expected cx backend img (sg_descriptor seg) = Inr seg)"

text \<open>The manifest, segments and log batches that recovery finds.\<close>

definition recovers ::
  "codec \<Rightarrow> json \<Rightarrow> crc_fn \<Rightarrow> (bytes \<Rightarrow> page_source) \<Rightarrow> disk \<Rightarrow> manifest \<Rightarrow> segment list \<Rightarrow> wal_batch list \<Rightarrow> memtable \<Rightarrow> bool" where
  "recovers cx j crc backend dk man segs bs m \<longleftrightarrow>
     (\<exists>p. store_current cx j (dk_root dk) = Inr (Some (p, man)))
     \<and> map sg_descriptor segs = man_segments man
     \<and> (\<forall>seg \<in> set segs. seg_inv cx seg \<and> seg_stored cx backend (dk_segments dk) seg)
     \<and> man_wal_start_sequence man = man_durable_sequence man + 1 \<and> man_durable_sequence man < u64_max
     \<and> dk_wals dk (man_wal_start_sequence man) = Some (file_header crc @ frames_image crc bs)
     \<and> chain (man_wal_start_sequence man) bs
     \<and> replayed (man_durable_sequence man) bs m"

definition recovers_rows :: "codec \<Rightarrow> json \<Rightarrow> crc_fn \<Rightarrow> (bytes \<Rightarrow> page_source) \<Rightarrow> disk \<Rightarrow> rows \<Rightarrow> bool" where
  "recovers_rows cx j crc backend dk R \<longleftrightarrow>
     (\<exists>man segs bs m. recovers cx j crc backend dk man segs bs m \<and> R = mt_rows m \<union> segments_rows cx segs)"

section \<open>The invariant\<close>

definition segments_ok :: "codec \<Rightarrow> (bytes \<Rightarrow> page_source) \<Rightarrow> database \<Rightarrow> bool" where
  "segments_ok cx backend db \<longleftrightarrow>
     mset (map sg_descriptor (db_segments db)) = mset (man_segments (db_manifest db))
     \<and> (\<forall>seg \<in> set (db_segments db). seg_stored cx backend (db_segment_files db) seg)
     \<and> (\<forall>e \<in> segments_rows cx (db_segments db). vv_sequence (snd e) \<le> man_durable_sequence (db_manifest db))"

definition log_ok :: "crc_fn \<Rightarrow> wal_batch list \<Rightarrow> database \<Rightarrow> bool" where
  "log_ok crc bs db \<longleftrightarrow>
     man_wal_start_sequence (db_manifest db) = man_durable_sequence (db_manifest db) + 1
     \<and> man_durable_sequence (db_manifest db) < u64_max
     \<and> wal_file (db_wal db) = file_header crc @ frames_image crc bs
     \<and> chain (man_wal_start_sequence (db_manifest db)) bs
     \<and> replayed (man_durable_sequence (db_manifest db)) bs (db_table db)"

definition store_ok :: "codec \<Rightarrow> json \<Rightarrow> database \<Rightarrow> bool" where
  "store_ok cx j db \<longleftrightarrow> (\<exists>p. store_current cx j (st_root (db_manifests db)) = Inr (Some (p, db_manifest db)))"

definition memory_ok :: "database \<Rightarrow> bool" where
  "memory_ok db \<longleftrightarrow> (\<exists>retained. memory_inv \<lparr>mst_pool = db_mutable_memory db, mst_current = db_memtable db, mst_retained = retained\<rparr>)"

text \<open>A consistent database; it is live when its log writer can continue and its store is certain.\<close>

definition db_inv :: "codec \<Rightarrow> json \<Rightarrow> crc_fn \<Rightarrow> (bytes \<Rightarrow> page_source) \<Rightarrow> database \<Rightarrow> bool" where
  "db_inv cx j crc backend db \<longleftrightarrow>
     reads_ok cx db \<and> segments_ok cx backend db \<and> store_ok cx j db \<and> memory_ok db
     \<and> (\<exists>bs. log_ok crc bs db
          \<and> (\<not> wal_poisoned (db_wal db) \<longrightarrow> wal_inv crc (man_wal_start_sequence (db_manifest db)) bs (db_wal db)))"

lemma mset_map_reorder:
  assumes "mset (map f xs) = mset ys"
  shows "\<exists>zs. mset zs = mset xs \<and> map f zs = ys"
  using assms
proof (induction ys arbitrary: xs)
  case (Cons y ys)
  then have "y \<in> f ` set xs" by (metis image_set list.set_intros(1) set_mset_mset)
  then obtain x where x: "x \<in> set xs" "y = f x" by blast
  then have "mset (map f (remove1 x xs)) = mset ys"
    using Cons.prems by (simp add: image_mset_Diff)
  then obtain zs where "mset zs = mset (remove1 x xs)" "map f zs = ys" using Cons.IH by blast
  then have "mset (x # zs) = mset xs \<and> map f (x # zs) = y # ys" using x by simp
  then show ?case by (rule exI)
qed simp

lemma segments_rows_mset: "mset xs = mset ys \<Longrightarrow> segments_rows cx xs = segments_rows cx ys"
  unfolding segments_rows_def by (drule mset_eq_setD) simp

lemma db_inv_recovers_table:
  assumes "db_inv cx j crc backend db"
  shows "\<exists>segs bs. recovers cx j crc backend (disk_of db) (db_manifest db) segs bs (db_table db)
    \<and> db_rows cx db = mt_rows (db_table db) \<union> segments_rows cx segs \<and> wal_file (db_wal db) = file_header crc @ frames_image crc bs"
proof -
  have "mset (map sg_descriptor (db_segments db)) = mset (man_segments (db_manifest db))"
    using assms by (simp add: db_inv_def segments_ok_def)
  from mset_map_reorder [OF this]
  obtain segs where segs: "mset segs = mset (db_segments db)" "map sg_descriptor segs = man_segments (db_manifest db)" by blast
  have "\<forall>seg \<in> set segs. seg_inv cx seg \<and> seg_stored cx backend (db_segment_files db) seg"
    using assms mset_eq_setD [OF segs(1)] by (simp add: db_inv_def segments_ok_def reads_ok_def)
  moreover obtain bs where bs: "log_ok crc bs db" using assms unfolding db_inv_def by blast
  moreover have "store_ok cx j db" using assms by (simp add: db_inv_def)
  ultimately have "recovers cx j crc backend (disk_of db) (db_manifest db) segs bs (db_table db)"
    using segs(2) unfolding recovers_def disk_of_def disk_wals_def log_ok_def store_ok_def by auto
  moreover have "wal_file (db_wal db) = file_header crc @ frames_image crc bs" using bs by (simp add: log_ok_def)
  ultimately show ?thesis unfolding db_rows_def segments_rows_mset [OF segs(1), symmetric] by blast
qed

lemma db_inv_recovers:
  assumes "db_inv cx j crc backend db"
  shows "recovers_rows cx j crc backend (disk_of db) (db_rows cx db)"
  using db_inv_recovers_table [OF assms] unfolding recovers_rows_def by metis

end
