(* ===== verification/Database_Flush_Spec.thy ===== *)
theory Database_Flush_Spec
  imports Database_Inv
begin

text \<open>
  What a flush leaves, at every outcome: the reads of the open database are those before, and the
  files recover to the same rows, whether the new manifest became current or not.
\<close>

section \<open>Written segments\<close>

text \<open>
  Segment files are named by their digest. That two of the images at hand with one digest are equal
  is what the code relies on of SHA-256.
\<close>

definition distinct_digests :: "codec \<Rightarrow> bytes set \<Rightarrow> bool" where
  "distinct_digests cx A \<longleftrightarrow>
     (\<forall>a \<in> A. \<forall>b \<in> A. \<forall>n. verify_file_digest cx a = Inr n \<longrightarrow> verify_file_digest cx b = Inr n \<longrightarrow> a = b)"

lemma segment_open_self:
  assumes "segment_open cx backend img = Inr seg"
  shows "segment_open_expected cx backend img (sg_descriptor seg) = Inr seg"
    and "verify_file_digest cx img = Inr (sd_id (sg_descriptor seg))"
proof -
  obtain checksum md where c: "validate_physical_file img = Inr ()" "verify_file_digest cx img = Inr checksum"
    "parse_metadata img checksum = Inr md" and seg: "seg = build_segment md (backend img)"
    using assms unfolding segment_open_def Let_def rbind_Inr by auto
  note inv = segment_open_inv [OF assms]
  have checksum: "checksum = sd_id (sg_descriptor seg)"
    using c(2) by (auto simp: inv(4) verify_file_digest_def Let_def rbind_Inr ok_or_Inr)
  then show "verify_file_digest cx img = Inr (sd_id (sg_descriptor seg))" using c(2) by simp
  have "seg\<lparr>sg_descriptor := (sg_descriptor seg)\<lparr>sd_level := sd_level (sg_descriptor seg)\<rparr>\<rparr> = seg" by simp
  then show "segment_open_expected cx backend img (sg_descriptor seg) = Inr seg"
    using c inv(2,5) by (simp add: segment_open_expected_def fail_if_def checksum flip: seg)
qed

text \<open>Every outcome of writing a segment keeps the files, and a returned segment holds the versions.\<close>

lemma segment_written:
  assumes ok: "codec_ok cx" "backend_ok backend" "versions_ok versions" and A: "distinct_digests cx A" "ran files \<subseteq> A"
    and enc_A: "\<And>enc. encode_versions cx versions budget policy = Inr enc \<Longrightarrow> enc_bytes enc \<in> A"
    and run: "write_from_versions cx backend os versions budget policy files = (r, files')"
  shows "ran files' \<subseteq> A" and "files \<subseteq>\<^sub>m files'"
    and "r = Inr seg \<Longrightarrow> seg_inv cx seg \<and> segment_rows cx seg = set (flat_versions versions)
      \<and> seg_stored cx backend files' seg \<and> sd_level (sg_descriptor seg) = 0"
proof -
  have "ran files' \<subseteq> A \<and> files \<subseteq>\<^sub>m files' \<and> (\<forall>seg. r = Inr seg \<longrightarrow> seg_inv cx seg
      \<and> segment_rows cx seg = set (flat_versions versions) \<and> seg_stored cx backend files' seg \<and> sd_level (sg_descriptor seg) = 0)"
  proof (cases "encode_versions cx versions budget policy")
    case (Inl e)
    then show ?thesis using run A by (auto simp: write_from_versions_def)
  next
    case (Inr enc)
    obtain s where s: "segment_open cx backend (enc_bytes enc) = Inr s" "segment_records cx s = flat_versions versions"
      "sd_id (sg_descriptor s) = enc_checksum enc"
      using encode_open [OF ok Inr] by blast
    note self = segment_open_self [OF s(1)]
    have good: "seg_inv cx s \<and> segment_rows cx s = set (flat_versions versions) \<and> sd_level (sg_descriptor s) = 0"
      using s(2) segment_open_inv(1,3) [OF s(1)] by (simp add: segment_rows_def)
    have stored: "seg_stored cx backend f s" if "f (enc_checksum enc) = Some (enc_bytes enc)" for f
      using that s(3) self(1) by (auto simp: seg_stored_def)
    note run' = run [unfolded write_from_versions_def Inr sum.case write_encoded_def]
    show ?thesis
    proof (cases "files (enc_checksum enc)")
      case (Some img)
      have files': "files' = files" using run' Some by simp
      have "img = enc_bytes enc \<and> seg = s" if r: "r = Inr seg" for seg
      proof -
        have op: "segment_open cx backend img = Inr seg" "sd_id (sg_descriptor seg) = enc_checksum enc"
          using run' Some r by (auto simp: rbind_Inr fail_if_Inr)
        have "verify_file_digest cx img = Inr (enc_checksum enc)" using segment_open_self(2) [OF op(1)] op(2) by simp
        moreover have "verify_file_digest cx (enc_bytes enc) = Inr (enc_checksum enc)" using self(2) s(3) by simp
        moreover have "img \<in> A" using A(2) Some by (auto simp: ran_def)
        ultimately have "img = enc_bytes enc" using A(1) enc_A [OF Inr] unfolding distinct_digests_def by blast
        then show ?thesis using op(1) s(1) by simp
      qed
      then show ?thesis using good stored Some A(2) files' by auto
    next
      case None
      then have "ran (files(enc_checksum enc \<mapsto> enc_bytes enc)) \<subseteq> A" "files \<subseteq>\<^sub>m files(enc_checksum enc \<mapsto> enc_bytes enc)"
        using enc_A [OF Inr] A(2) by (auto simp: map_le_def)
      then show ?thesis using None run' good stored s(1) A(2)
        by (cases os) (auto split: if_splits)
    qed
  qed
  then show "ran files' \<subseteq> A" and "files \<subseteq>\<^sub>m files'"
    and "r = Inr seg \<Longrightarrow> seg_inv cx seg \<and> segment_rows cx seg = set (flat_versions versions)
      \<and> seg_stored cx backend files' seg \<and> sd_level (sg_descriptor seg) = 0" by auto
qed

lemma seg_stored_mono: "files \<subseteq>\<^sub>m files' \<Longrightarrow> seg_stored cx backend files seg \<Longrightarrow> seg_stored cx backend files' seg"
  by (force simp: seg_stored_def map_le_def)

section \<open>Partitions\<close>

text \<open>The boundaries are keys of the memtable in ascending order, the first of them its first key.\<close>

lemma flush_boundary_fold:
  assumes "sorted_wrt (<) (map (\<lambda>x. fst (snd x)) xs)"
    and "try_fold (flush_boundary_step io limits target l0) ([], 0) xs = Inr (bs, n)"
  shows "sorted_wrt (<) bs \<and> set bs \<subseteq> (\<lambda>x. fst (snd x)) ` set xs \<and> (xs \<noteq> [] \<longrightarrow> bs \<noteq> [] \<and> hd bs = fst (snd (hd xs)))"
  using assms
proof (induction xs arbitrary: bs n rule: rev_induct)
  case (snoc x xs)
  then obtain bs0 n0 where fold: "try_fold (flush_boundary_step io limits target l0) ([], 0) xs = Inr (bs0, n0)"
    and step: "flush_boundary_step io limits target l0 (bs0, n0) x = Inr (bs, n)"
    by (auto simp: try_fold_append rbind_Inr)
  have sorted: "sorted_wrt (<) (map (\<lambda>x. fst (snd x)) xs)" "\<forall>y \<in> set xs. fst (snd y) < fst (snd x)"
    using snoc.prems(1) by (auto simp: sorted_wrt_append)
  note IH = snoc.IH [OF sorted(1) fold]
  have "bs = bs0 \<and> bs0 \<noteq> [] \<or> bs = bs0 @ [fst (snd x)]"
    using step by (auto simp: flush_boundary_step_def rbind_Inr Let_def split: prod.splits if_splits)
  then show ?case
  proof
    assume "bs = bs0 \<and> bs0 \<noteq> []"
    moreover have "xs \<noteq> []" using calculation IH by auto
    ultimately show ?thesis using IH by auto
  next
    assume bs: "bs = bs0 @ [fst (snd x)]"
    have "\<forall>b \<in> set bs0. b < fst (snd x)" using IH sorted(2) by auto
    moreover have "xs = [] \<Longrightarrow> bs0 = []" using IH by auto
    ultimately show ?thesis using IH by (cases xs) (auto simp: bs sorted_wrt_append)
  qed
qed simp

lemma flush_boundaries_spec:
  assumes "mt_inv (db_table db)" and "flush_boundaries io db = Inr boundaries"
  shows "sorted_wrt (<) boundaries"
    and "mt_versions (db_table db) \<noteq> [] \<Longrightarrow> boundaries \<noteq> [] \<and> hd boundaries = fst (hd (mt_versions (db_table db)))"
proof -
  let ?vs = "all_versions (db_table db)"
  have "map (\<lambda>x. fst (snd x)) (enumerate 0 ?vs) = map fst (map snd (enumerate 0 ?vs))"
    by (simp only: map_map comp_def)
  also have "\<dots> = map fst (mt_versions (db_table db))" by (simp add: all_versions_def case_prod_beta comp_def)
  finally have "sorted_wrt (<) (map (\<lambda>x. fst (snd x)) (enumerate 0 ?vs))" using assms(1) by (simp add: mt_inv_def table_ok_def)
  moreover obtain n where "try_fold (flush_boundary_step io (opt_compaction_limits (db_options db))
      (cp_target_segment_bytes (opt_compaction (db_options db))) (l0_segment_count db)) ([], 0) (enumerate 0 ?vs) = Inr (boundaries, n)"
    using assms(2) by (auto simp: flush_boundaries_def rbind_Inr)
  ultimately have fold: "sorted_wrt (<) boundaries"
    "enumerate 0 ?vs \<noteq> [] \<longrightarrow> boundaries \<noteq> [] \<and> hd boundaries = fst (snd (hd (enumerate 0 ?vs)))"
    using flush_boundary_fold by blast+
  show "sorted_wrt (<) boundaries" by (rule fold(1))
  show "boundaries \<noteq> [] \<and> hd boundaries = fst (hd (mt_versions (db_table db)))" if "mt_versions (db_table db) \<noteq> []"
    using that fold(2) by (cases "mt_versions (db_table db)") (auto simp: all_versions_def)
qed

lemma partition_versions:
  assumes "mt_inv m" and "mt_maximum_sequence m \<le> u64_max" and "range_versions m (Some first) stop = Inr versions"
  shows "versions_ok versions" and "set (flat_versions versions) = {e \<in> mt_rows m. in_range first stop (fst e)}"
proof -
  let ?all = "map (\<lambda>(key, c). (key, chain_slice c)) (mt_versions m)"
  have "versions = map (\<lambda>(key, c). (key, chain_slice c)) (bt_range (Included first) (end_bound stop) (mt_versions m))"
    using assms(3) by (auto simp: range_versions_def rbind_Inr btree_range_Inr)
  also have "\<dots> = filter (\<lambda>e. in_range first stop (fst e)) ?all"
    unfolding bt_range_def range_bounds by (simp add: filter_map comp_def case_prod_beta)
  finally have versions: "versions = filter (\<lambda>e. in_range first stop (fst e)) ?all" .
  note all = memtable_versions_ok [OF assms(1,2)]
  show "versions_ok versions"
    using all(1) key_sorted_filter [of ?all] unfolding versions versions_ok_def by (auto simp del: set_map)
  show "set (flat_versions versions) = {e \<in> mt_rows m. in_range first stop (fst e)}"
    unfolding all(2) [symmetric] by (auto simp: set_flat_versions versions simp del: set_map)
qed

lemma partitions_cover:
  fixes k :: "'k::linorder"
  assumes "sorted_wrt (<) bs" and "bs \<noteq> []" and "hd bs \<le> k"
  shows "\<exists>i < length bs. bs ! i \<le> k \<and> (case nth_option bs (i + 1) of None \<Rightarrow> True | Some e \<Rightarrow> k < e)"
proof -
  let ?n = "length (takeWhile (\<lambda>b. b \<le> k) bs)"
  have pos: "0 < ?n" using assms(2,3) by (cases bs) auto
  have "bs ! (?n - 1) \<le> k" using nth_length_takeWhile pos set_takeWhileD [of "bs ! (?n - 1)" "\<lambda>b. b \<le> k" bs]
    by (metis One_nat_def diff_less nth_mem takeWhile_nth zero_less_one)
  moreover have "?n - 1 < length bs" using length_takeWhile_le [of "\<lambda>b. b \<le> k" bs] pos by linarith
  moreover have "case nth_option bs (?n - 1 + 1) of None \<Rightarrow> True | Some e \<Rightarrow> k < e"
    using nth_length_takeWhile [of "\<lambda>b. b \<le> k" bs] pos by (auto simp: nth_option_def not_le)
  ultimately show ?thesis by blast
qed

section \<open>Writing the partitions\<close>

text \<open>The images that may be written: the files, and what parts of the database's rows encode to.\<close>

definition db_images :: "codec \<Rightarrow> database \<Rightarrow> bytes set" where
  "db_images cx db = ran (db_segment_files db) \<union>
     {enc_bytes enc | enc versions. versions_ok versions \<and> set (flat_versions versions) \<subseteq> db_rows cx db
        \<and> encode_versions cx versions (opt_segment_row_group_budget (db_options db)) (opt_segment_compression (db_options db)) = Inr enc}"

definition digests_ok :: "codec \<Rightarrow> database \<Rightarrow> bool" where
  "digests_ok cx db \<longleftrightarrow> distinct_digests cx (db_images cx db)"

text \<open>A database that differs from another in more segment files only.\<close>

definition more_files :: "bytes set \<Rightarrow> database \<Rightarrow> database \<Rightarrow> bool" where
  "more_files A db db' \<longleftrightarrow> (\<exists>files. db' = db\<lparr>db_segment_files := files\<rparr>) \<and> db_segment_files db \<subseteq>\<^sub>m db_segment_files db'
     \<and> ran (db_segment_files db') \<subseteq> A"

lemma more_files_trans: "more_files A db db' \<Longrightarrow> more_files A db' db'' \<Longrightarrow> more_files A db db''"
  by (auto simp: more_files_def intro: map_le_trans)

lemma more_files_refl: "ran (db_segment_files db) \<subseteq> A \<Longrightarrow> more_files A db db"
  by (auto simp: more_files_def intro: exI [of _ "db_segment_files db"])

lemma more_files_le: "more_files A db db' \<Longrightarrow> db_segment_files db \<subseteq>\<^sub>m db_segment_files db'"
  by (simp add: more_files_def)

definition holds_rows :: "codec \<Rightarrow> (bytes \<Rightarrow> page_source) \<Rightarrow> segment_files \<Rightarrow> rows \<Rightarrow> segment \<Rightarrow> bool" where
  "holds_rows cx backend files R seg \<longleftrightarrow>
     seg_inv cx seg \<and> segment_rows cx seg = R \<and> seg_stored cx backend files seg \<and> sd_level (sg_descriptor seg) = 0"

lemma holds_rows_mono: "files \<subseteq>\<^sub>m files' \<Longrightarrow> holds_rows cx backend files R seg \<Longrightarrow> holds_rows cx backend files' R seg"
  by (auto simp: holds_rows_def intro: seg_stored_mono)

lemma db_write_segment_runs:
  assumes "codec_ok cx" and "backend_ok backend" and "versions_ok versions" and "distinct_digests cx A"
    and "ran (db_segment_files db) \<subseteq> A"
    and "\<And>enc. encode_versions cx versions (opt_segment_row_group_budget (db_options db))
           (opt_segment_compression (db_options db)) = Inr enc \<Longrightarrow> enc_bytes enc \<in> A"
  shows "runs (db_write_segment cx backend os versions) db
    (\<lambda>seg db'. more_files A db db' \<and> holds_rows cx backend (db_segment_files db') (set (flat_versions versions)) seg)
    (more_files A db)"
proof -
  obtain r files where run: "write_from_versions cx backend os versions (opt_segment_row_group_budget (db_options db))
      (opt_segment_compression (db_options db)) (db_segment_files db) = (r, files)" by fastforce
  note spec = segment_written [OF assms(1-5) assms(6) run]
  have "more_files A db (db\<lparr>db_segment_files := files\<rparr>)" using spec(1,2) by (auto simp: more_files_def)
  then show ?thesis using spec(3)
    by (cases r) (auto simp: runs_def db_write_segment_def run holds_rows_def)
qed

lemma flush_partition_runs:
  assumes ok: "codec_ok cx" "backend_ok backend" and mt: "mt_inv (db_table db)" "mt_maximum_sequence (db_table db) \<le> u64_max"
    and A: "distinct_digests cx A" "db_images cx db \<subseteq> A"
    and files: "more_files A db db'"
  shows "runs (flush_partition cx backend io boundaries flushed (i, first)) db'
    (\<lambda>flushed' db''. \<exists>seg. flushed' = flushed @ [seg] \<and> more_files A db db'' \<and> db_segment_files db' \<subseteq>\<^sub>m db_segment_files db''
       \<and> holds_rows cx backend (db_segment_files db'')
           {e \<in> mt_rows (db_table db). in_range first (nth_option boundaries (i + 1)) (fst e)} seg)
    (more_files A db)"
proof -
  let ?stop = "nth_option boundaries (i + 1)"
  have same: "db_table db' = db_table db" "db_options db' = db_options db" "ran (db_segment_files db') \<subseteq> A"
    using files by (auto simp: more_files_def)
  have written: "runs (db_write_segment cx backend (fio_segment io i) versions) db'
      (\<lambda>seg db''. more_files A db' db'' \<and> holds_rows cx backend (db_segment_files db'') {e \<in> mt_rows (db_table db). in_range first ?stop (fst e)} seg)
      (more_files A db')" if v: "range_versions (db_table db) (Some first) ?stop = Inr versions" for versions
  proof -
    note part = partition_versions [OF mt v]
    have enc_A: "enc_bytes enc \<in> A" if "encode_versions cx versions (opt_segment_row_group_budget (db_options db'))
        (opt_segment_compression (db_options db')) = Inr enc" for enc
      using that part A(2) unfolding db_images_def db_rows_def same by blast
    show ?thesis using db_write_segment_runs [OF ok part(1) A(1) same(3) enc_A] unfolding part(2) .
  qed
  show ?thesis
    unfolding flush_partition_def prod.case
  proof (intro runs_read runs_lift_bind files)
    fix versions
    assume "range_versions (db_table db') (Some first) ?stop = Inr versions"
    then have v: "range_versions (db_table db) (Some first) ?stop = Inr versions" by (simp add: same)
    show "runs (sbind (db_write_segment cx backend (fio_segment io i) versions) (\<lambda>segment. sret (flushed @ [segment]))) db'
      (\<lambda>flushed' db''. \<exists>seg. flushed' = flushed @ [seg] \<and> more_files A db db'' \<and> db_segment_files db' \<subseteq>\<^sub>m db_segment_files db''
         \<and> holds_rows cx backend (db_segment_files db'') {e \<in> mt_rows (db_table db). in_range first ?stop (fst e)} seg)
      (more_files A db)"
    proof (rule runs_bind [OF runs_weaken [OF written [OF v]]])
      fix seg db''
      assume "more_files A db' db'' \<and> holds_rows cx backend (db_segment_files db'') {e \<in> mt_rows (db_table db). in_range first ?stop (fst e)} seg"
      then show "more_files A db db'' \<and> db_segment_files db' \<subseteq>\<^sub>m db_segment_files db''
          \<and> holds_rows cx backend (db_segment_files db'') {e \<in> mt_rows (db_table db). in_range first ?stop (fst e)} seg"
        using more_files_trans [OF files] more_files_le by blast
    qed (auto intro: more_files_trans [OF files] runs_ret)
  qed
qed

lemma flush_partitions_runs:
  assumes ok: "codec_ok cx" "backend_ok backend" and mt: "mt_inv (db_table db)" "mt_maximum_sequence (db_table db) \<le> u64_max"
    and A: "distinct_digests cx A" "db_images cx db \<subseteq> A"
    and boundaries: "flush_boundaries io db = Inr boundaries"
  shows "runs (sfold (flush_partition cx backend io boundaries) [] (enumerate 0 boundaries)) db
    (\<lambda>flushed db'. more_files A db db' \<and> segments_rows cx flushed = mt_rows (db_table db)
       \<and> (\<forall>seg \<in> set flushed. seg_inv cx seg \<and> seg_stored cx backend (db_segment_files db') seg))
    (more_files A db)"
proof -
  let ?part = "\<lambda>(i, first). {e \<in> mt_rows (db_table db). in_range first (nth_option boundaries (i + 1)) (fst e)}"
  let ?P = "\<lambda>ys flushed db'. more_files A db db'
    \<and> list_all2 (\<lambda>y seg. holds_rows cx backend (db_segment_files db') (?part y) seg) ys flushed"
  have "runs (sfold (flush_partition cx backend io boundaries) [] (enumerate 0 boundaries)) db (?P (enumerate 0 boundaries)) (more_files A db)"
  proof (rule runs_fold)
    show "?P [] [] db" using A(2) by (auto simp: db_images_def intro: more_files_refl)
    fix ys zs :: "(nat \<times> bytes) list" and y :: "nat \<times> bytes" and flushed db'
    assume P: "?P ys flushed db'"
    obtain i first where y: "y = (i, first)" by (cases y)
    show "runs (flush_partition cx backend io boundaries flushed y) db' (?P (ys @ [y])) (more_files A db)"
      unfolding y
    proof (rule runs_weaken [OF flush_partition_runs [OF ok mt A]])
      show "more_files A db db'" using P by blast
      fix flushed' db''
      assume "\<exists>seg. flushed' = flushed @ [seg] \<and> more_files A db db'' \<and> db_segment_files db' \<subseteq>\<^sub>m db_segment_files db''
         \<and> holds_rows cx backend (db_segment_files db'')
           {e \<in> mt_rows (db_table db). in_range first (nth_option boundaries (i + 1)) (fst e)} seg"
      then obtain seg where seg: "flushed' = flushed @ [seg]" "more_files A db db''" "db_segment_files db' \<subseteq>\<^sub>m db_segment_files db''"
        "holds_rows cx backend (db_segment_files db'') (?part (i, first)) seg" by auto
      have "list_all2 (\<lambda>y seg. holds_rows cx backend (db_segment_files db'') (?part y) seg) ys flushed"
        using P holds_rows_mono [OF seg(3)] by (auto elim: list_all2_mono)
      then show "?P (ys @ [(i, first)]) flushed' db''" using seg by (simp add: list_all2_appendI)
    qed
  qed
  then show ?thesis
  proof (rule runs_weaken)
    fix flushed db'
    assume P: "?P (enumerate 0 boundaries) flushed db'"
    then have len: "length flushed = length boundaries" by (auto dest: list_all2_lengthD)
    have seg: "holds_rows cx backend (db_segment_files db') (?part (i, boundaries ! i)) (flushed ! i)" if "i < length boundaries" for i
      using P that by (auto simp: list_all2_conv_all_nth nth_enumerate_eq)
    have "\<exists>s \<in> set flushed. e \<in> segment_rows cx s" if e: "e \<in> mt_rows (db_table db)" for e
    proof -
      let ?t = "mt_versions (db_table db)"
      obtain c where c: "map_of ?t (fst e) = Some c" using e by (cases e) (auto simp: mt_rows_def table_rows_def)
      then have mem: "fst e \<in> set (map fst ?t)" by (force dest: map_of_SomeD)
      then have ne: "?t \<noteq> []" by auto
      have first: "fst (hd ?t) \<le> fst e"
        using mem mt(1) by (cases ?t) (auto simp: mt_inv_def table_ok_def)
      note spec = flush_boundaries_spec [OF mt(1) boundaries]
      have hd: "boundaries \<noteq> []" "hd boundaries \<le> fst e" using spec(2) [OF ne] first by auto
      obtain i where i: "i < length boundaries" "boundaries ! i \<le> fst e"
        "case nth_option boundaries (i + 1) of None \<Rightarrow> True | Some e' \<Rightarrow> fst e < e'"
        using partitions_cover [OF spec(1) hd] by blast
      then have "e \<in> ?part (i, boundaries ! i)" using e by (simp add: in_range_def)
      then have "e \<in> segment_rows cx (flushed ! i)" using seg [OF i(1)] by (simp add: holds_rows_def)
      then show ?thesis using i(1) len by (metis nth_mem)
    qed
    moreover have "segment_rows cx s \<subseteq> mt_rows (db_table db) \<and> seg_inv cx s \<and> seg_stored cx backend (db_segment_files db') s"
      if s: "s \<in> set flushed" for s
    proof -
      obtain i where i: "i < length flushed" "s = flushed ! i" using s unfolding in_set_conv_nth by blast
      then show ?thesis using seg [of i] len by (auto simp: holds_rows_def)
    qed
    ultimately have "segments_rows cx flushed = mt_rows (db_table db)"
      "\<forall>seg \<in> set flushed. seg_inv cx seg \<and> seg_stored cx backend (db_segment_files db') seg"
      unfolding segments_rows_def by blast+
    then show "more_files A db db' \<and> segments_rows cx flushed = mt_rows (db_table db)
       \<and> (\<forall>seg \<in> set flushed. seg_inv cx seg \<and> seg_stored cx backend (db_segment_files db') seg)"
      using P by blast
  qed
qed

section \<open>The other steps\<close>

lemma db_inv_similar:
  assumes "db_inv cx j crc backend db"
    and "db_memtable db' = db_memtable db" and "db_segments db' = db_segments db" and "db_point_index db' = db_point_index db"
    and "db_manifest db' = db_manifest db" and "db_mutable_memory db' = db_mutable_memory db"
    and "db_segment_files db \<subseteq>\<^sub>m db_segment_files db'" and "store_ok cx j db'"
    and "wal_file (db_wal db') = wal_file (db_wal db)" and "\<not> wal_poisoned (db_wal db') \<Longrightarrow> db_wal db' = db_wal db"
  shows "db_inv cx j crc backend db'" and "db_rows cx db' = db_rows cx db"
proof -
  show rows: "db_rows cx db' = db_rows cx db" by (simp add: db_rows_def assms(2,3))
  have "reads_ok cx db'" using assms(1) unfolding db_inv_def reads_ok_def rows by (simp add: assms(2,3,4))
  moreover have "segments_ok cx backend db'"
    using assms(1) seg_stored_mono [OF assms(7)] unfolding db_inv_def segments_ok_def by (simp add: assms(3,5))
  moreover have "memory_ok db'" using assms(1) by (simp add: db_inv_def memory_ok_def assms(2,6))
  moreover obtain bs where bs: "log_ok crc bs db"
    "\<not> wal_poisoned (db_wal db) \<longrightarrow> wal_inv crc (man_wal_start_sequence (db_manifest db)) bs (db_wal db)"
    using assms(1) unfolding db_inv_def by blast
  moreover have "log_ok crc bs db'" using bs(1) unfolding log_ok_def assms(2,5,9) .
  moreover have "\<not> wal_poisoned (db_wal db') \<longrightarrow> wal_inv crc (man_wal_start_sequence (db_manifest db')) bs (db_wal db')"
    using bs(2) assms(10) by (auto simp: assms(5))
  ultimately show "db_inv cx j crc backend db'" unfolding db_inv_def using assms(8) by blast
qed

lemma new_manifest_Inr:
  assumes "new_manifest cx j generation parent at durable wal_start ds app = Inr m"
  shows "man_durable_sequence m = durable" and "man_wal_start_sequence m = wal_start" and "mset (man_segments m) = mset ds"
    and "man_generation m = generation" and "man_parent m = parent" and "man_application_format m = app"
    and "validate_components m = Inr ()"
proof -
  have new: "manifest_new_inner cx j generation parent at durable wal_start ds app = Inr m"
    using assms by (cases app) (auto simp: new_manifest_def manifest_new_def manifest_new_with_application_format_def rbind_Inr)
  note facts = manifest_new_inner_Inr [OF new]
  show "man_durable_sequence m = durable" "man_wal_start_sequence m = wal_start" "mset (man_segments m) = mset ds"
    "man_generation m = generation" "man_parent m = parent" "man_application_format m = app" "validate_components m = Inr ()"
    using facts by simp_all
qed

lemma db_wal_sync_runs:
  assumes "db_inv cx j crc backend db"
  shows "runs (db_wal_sync os) db
    (\<lambda>sequence db'. db' = db \<and> sequence = mt_maximum_sequence (db_table db))
    (\<lambda>db'. db_inv cx j crc backend db' \<and> db_rows cx db' = db_rows cx db)"
proof -
  obtain r w where run: "wal_sync os (db_wal db) = (r, w)" by fastforce
  have w: "wal_file w = wal_file (db_wal db)" "\<not> wal_poisoned w \<Longrightarrow> w = db_wal db"
    using run by (auto simp: wal_sync_def split: if_splits os_sync.splits)
  have "store_ok cx j (db\<lparr>db_wal := w\<rparr>)" using assms by (simp add: db_inv_def store_ok_def)
  then have inv: "db_inv cx j crc backend (db\<lparr>db_wal := w\<rparr>)" "db_rows cx (db\<lparr>db_wal := w\<rparr>) = db_rows cx db"
    using db_inv_similar [OF assms, of "db\<lparr>db_wal := w\<rparr>"] w by simp_all
  have "db\<lparr>db_wal := w\<rparr> = db \<and> sequence = mt_maximum_sequence (db_table db)" if r: "r = Some (Inr sequence)" for sequence
  proof -
    have live: "w = db_wal db" "\<not> wal_poisoned (db_wal db)" and s: "sequence = saturating_sub (wal_next_sequence (db_wal db)) 1"
      using run r by (auto simp: wal_sync_def split: if_splits os_sync.splits)
    obtain bs where bs: "log_ok crc bs db" "wal_inv crc (man_wal_start_sequence (db_manifest db)) bs (db_wal db)"
      using assms live(2) unfolding db_inv_def by blast
    have chain: "chain (man_durable_sequence (db_manifest db) + 1) bs" and r: "replayed (man_durable_sequence (db_manifest db)) bs (db_table db)"
      and d: "man_durable_sequence (db_manifest db) < u64_max" using bs(1) by (auto simp: log_ok_def)
    have "wal_next_sequence (db_wal db) = mt_maximum_sequence (db_table db) + 1"
      using replayed_inv [OF r chain d] bs by (simp add: wal_inv_def log_ok_def)
    then show ?thesis using live(1) s by (simp add: saturating_sub_def)
  qed
  then show ?thesis using inv
    by (auto simp: runs_def db_wal_sync_def run split: option.splits sum.splits)
qed

lemma open_empty_inv:
  assumes "open_empty_at crc file later start sync sync_dir = Some (Inr w)" and "file_fits file" and "start \<le> u64_max"
  shows "wal_inv crc start [] w" and "wal_file w = file"
proof -
  let ?refuse = "\<lambda>_ _. Inl (Corruption 0 ''unpublished successor WAL contains data'')"
  obtain summary where replay: "replay_file crc file later start ?refuse () = Inr (summary, ())"
    and w: "from_recovered_file file summary = Inr w"
    using assms(1) by (auto simp: open_empty_at_def split: sum.splits os_sync.splits prod.splits)
  then obtain budget where inner: "replay_file_inner crc (\<lambda>_. 0) file later start None ?refuse () = Inr (summary, budget, ())"
    by (auto simp: replay_file_def rbind_Inr)
  obtain bs where bs: "wal_scan crc start file bs (drop (rs_valid_bytes summary) file)"
    "consume ?refuse () (recovered_list crc FILE_HEADER_BYTES bs) = Inr ()"
    "summary = \<lparr>rs_recovered_through = next_after start bs - 1, rs_valid_bytes = FILE_HEADER_BYTES + frames_size bs,
       rs_torn_tail = torn_at (drop (rs_valid_bytes summary) file) (FILE_HEADER_BYTES + frames_size bs),
       rs_payload_bytes = payload_total bs\<rparr>"
    using replay_inner_inv [OF inner assms(2)] by blast
  have "bs = []" using bs(2) by (cases bs) auto
  moreover have "rs_torn_tail summary = None" using w by (auto simp: from_recovered_file_def split: option.splits)
  then have "drop (rs_valid_bytes summary) file = []"
    using arg_cong [OF bs(3), of rs_torn_tail] unfolding recovery_summary.select_convs by (auto split: if_splits)
  moreover have "rs_recovered_through summary = next_after start bs - 1" "rs_valid_bytes summary = FILE_HEADER_BYTES + frames_size bs"
    using arg_cong [OF bs(3), of rs_recovered_through] arg_cong [OF bs(3), of rs_valid_bytes]
    unfolding recovery_summary.select_convs by blast+
  ultimately have scan: "wal_scan crc start file [] []" and sum: "rs_recovered_through summary = start - 1" "rs_valid_bytes summary = FILE_HEADER_BYTES"
    using bs(1) by simp_all
  have start: "start \<noteq> 0" "file = file_header crc" using scan by (auto simp: wal_scan_def)
  then have succ: "checked_add (start - 1) 1 = Some start" using assms(3) by (simp add: checked_add_def)
  have "w = \<lparr>wal_file = file, wal_offset = FILE_HEADER_BYTES, wal_next_sequence = start, wal_poisoned = False\<rparr>"
    using w unfolding from_recovered_file_def \<open>rs_torn_tail summary = None\<close> sum option.case succ by simp
  then show "wal_inv crc start [] w" and "wal_file w = file" using start by (simp_all add: wal_inv_def)
qed

definition more_wals :: "nat \<Rightarrow> database \<Rightarrow> database \<Rightarrow> bool" where
  "more_wals n db db' \<longleftrightarrow> (\<exists>wals. db' = db\<lparr>db_wals := wals\<rparr>) \<and> (\<forall>i. i \<noteq> n \<longrightarrow> db_wals db' i = db_wals db i)"

lemma more_wals_refl: "more_wals n db db"
  by (auto simp: more_wals_def intro: exI [of _ "db_wals db"])

text \<open>Files have a size that an operating system can hold.\<close>

definition wals_fit :: "database \<Rightarrow> bool" where
  "wals_fit db \<longleftrightarrow> (\<forall>file \<in> ran (disk_wals db). file_fits file)"

lemma successor_wal_runs:
  assumes "wals_fit db" and "n \<noteq> man_wal_start_sequence (db_manifest db)" and "n \<le> u64_max"
  shows "runs (successor_wal crc io n) db
    (\<lambda>w db'. more_wals n db db' \<and> wal_inv crc n [] w \<and> db_wals db' n = Some (wal_file w)) (more_wals n db)"
proof (cases "fio_exists io")
  case (Some e)
  then show ?thesis by (simp add: successor_wal_def runs_def more_wals_refl)
next
  case None
  show ?thesis
  proof (cases "disk_wals db n")
    case (Some img)
    have fits: "file_fits img" using assms(1) Some by (auto simp: wals_fit_def ran_def)
    have "db_wals db n = Some img" using Some assms(2) by (simp add: disk_wals_def)
    then show ?thesis using None Some open_empty_inv [OF _ fits assms(3)] more_wals_refl
      by (auto simp: successor_wal_def runs_def split: option.splits sum.splits)
  next
    case missing: None
    obtain r f where create: "wal_create_at crc (fio_create io) n = (r, f)" by fastforce
    have "more_wals n db (case f of None \<Rightarrow> db | Some content \<Rightarrow> db\<lparr>db_wals := (db_wals db)(n \<mapsto> content)\<rparr>)"
      by (cases f) (auto simp: more_wals_refl more_wals_def)
    moreover have "wal_inv crc n [] w \<and> f = Some (wal_file w)" if "r = Some (Inr w)" for w
      using wal_create_at_inv [of crc "fio_create io" n w f] create that by simp
    ultimately show ?thesis using None missing create
      by (auto simp: successor_wal_def runs_def split: option.splits sum.splits)
  qed
qed

definition new_store :: "database \<Rightarrow> database \<Rightarrow> bool" where
  "new_store db db' \<longleftrightarrow> (\<exists>store. db' = db\<lparr>db_manifests := store\<rparr>)"

lemma db_publish_runs:
  assumes "codec_ok cx" and "json_ok j" and "store_ok cx j db"
  shows "runs (db_publish cx j os next) db
    (\<lambda>_ db'. new_store db db' \<and> \<not> st_publication_uncertain (db_manifests db')
       \<and> (\<exists>p. store_current cx j (st_root (db_manifests db')) = Inr (Some (p, next))))
    (\<lambda>db'. new_store db db' \<and> (store_ok cx j db'
       \<or> (\<exists>p. store_current cx j (st_root (db_manifests db')) = Inr (Some (p, next)))))"
proof -
  obtain p where cur: "store_current cx j (st_root (db_manifests db)) = Inr (Some (p, db_manifest db))"
    using assms(3) by (auto simp: store_ok_def)
  obtain r store where run: "store_publish cx j os next (Some (man_digest (db_manifest db))) (db_manifests db) = (r, store)" by fastforce
  have "publication_ended cx j next (Some (p, db_manifest db)) r store" by (rule store_publish_spec(1) [OF assms(1,2) cur run])
  then show ?thesis
    by (cases r) (auto simp: runs_def db_publish_def run publication_ended_def new_store_def store_ok_def)
qed

section \<open>Flush\<close>

text \<open>A manifest whose segments and log are on disk, wherever \<open>CURRENT\<close> points to it.\<close>

lemma published_recovers:
  assumes "store_current cx j (dk_root dk) = Inr (Some (p, man))"
    and "mset (map sg_descriptor segs) = mset (man_segments man)"
    and "\<forall>seg \<in> set segs. seg_inv cx seg \<and> seg_stored cx backend (dk_segments dk) seg"
    and "man_wal_start_sequence man = man_durable_sequence man + 1" and "man_durable_sequence man < u64_max"
    and "dk_wals dk (man_wal_start_sequence man) = Some (file_header crc @ frames_image crc bs)"
    and "chain (man_wal_start_sequence man) bs" and "replayed (man_durable_sequence man) bs m"
  shows "recovers_rows cx j crc backend dk (mt_rows m \<union> segments_rows cx segs)"
proof -
  obtain ss where ss: "mset ss = mset segs" "map sg_descriptor ss = man_segments man"
    using mset_map_reorder [OF assms(2)] by blast
  have "recovers cx j crc backend dk man ss bs m"
    using assms(1,3-8) ss(2) mset_eq_setD [OF ss(1)] unfolding recovers_def by auto
  then show ?thesis unfolding recovers_rows_def segments_rows_mset [OF ss(1), symmetric] by blast
qed

text \<open>What every outcome of an operation keeps: the reads of the open database, and the rows on disk.\<close>

definition keeps_rows :: "codec \<Rightarrow> json \<Rightarrow> crc_fn \<Rightarrow> (bytes \<Rightarrow> page_source) \<Rightarrow> rows \<Rightarrow> database \<Rightarrow> bool" where
  "keeps_rows cx j crc backend R db \<longleftrightarrow>
     reads_ok cx db \<and> db_rows cx db = R \<and> recovers_rows cx j crc backend (disk_of db) R"

lemma db_inv_keeps: "db_inv cx j crc backend db \<Longrightarrow> db_rows cx db = R \<Longrightarrow> keeps_rows cx j crc backend R db"
  using db_inv_recovers [of cx j crc backend db] by (auto simp: keeps_rows_def db_inv_def)

text \<open>The state before the publication of a flush: new segment files and a new log, and nothing else.\<close>

definition flush_staged ::
  "bytes set \<Rightarrow> nat \<Rightarrow> database \<Rightarrow> database \<Rightarrow> bool" where
  "flush_staged A n db db' \<longleftrightarrow>
     (\<exists>files wals. db' = db\<lparr>db_reclamation_pending := True, db_segment_files := files, db_wals := wals\<rparr>)
     \<and> db_segment_files db \<subseteq>\<^sub>m db_segment_files db' \<and> ran (db_segment_files db') \<subseteq> A
     \<and> (\<forall>i. i \<noteq> n \<longrightarrow> db_wals db' i = db_wals db i)"

lemma flush_staged_inv:
  assumes "db_inv cx j crc backend db" and "flush_staged A n db db'"
  shows "db_inv cx j crc backend db'" and "db_rows cx db' = db_rows cx db"
proof -
  obtain files wals where db': "db' = db\<lparr>db_reclamation_pending := True, db_segment_files := files, db_wals := wals\<rparr>"
    "db_segment_files db \<subseteq>\<^sub>m db_segment_files db'" using assms(2) by (auto simp: flush_staged_def)
  have "store_ok cx j db'" using assms(1) by (simp add: db_inv_def store_ok_def db'(1))
  then show "db_inv cx j crc backend db'" and "db_rows cx db' = db_rows cx db"
    using db_inv_similar [OF assms(1) _ _ _ _ _ db'(2)] by (simp_all add: db'(1))
qed

lemma descriptor_rows:
  assumes "validate_components man = Inr ()" and "seg_inv cx seg" and "sg_descriptor seg \<in> set (man_segments man)"
    and "e \<in> segment_rows cx seg"
  shows "vv_sequence (snd e) \<le> man_durable_sequence man"
proof -
  have "sd_maximum_sequence (sg_descriptor seg) \<le> man_durable_sequence man"
    using validate_components_segments(2) [OF assms(1)] assms(3) by (simp add: descriptor_ok_def)
  moreover have "vv_sequence (snd e) \<le> sd_maximum_sequence (sg_descriptor seg)"
    using assms(2,4) by (simp add: seg_inv_def)
  ultimately show ?thesis by simp
qed

lemma mset_descriptors:
  assumes "mset (map sg_descriptor segs) = mset (man_segments man)" and "seg \<in> set segs"
  shows "sg_descriptor seg \<in> set (man_segments man)"
  using assms(2) mset_eq_setD [OF assms(1)] by auto

text \<open>A database with an empty log is consistent as soon as its segments are those of the manifest.\<close>

lemma db_inv_install:
  assumes segs: "\<forall>seg \<in> set (db_segments d). seg_inv cx seg \<and> seg_stored cx backend (db_segment_files d) seg"
    and index: "db_point_index d = point_index_new (map sg_descriptor (db_segments d))"
    and table: "db_table d = at_sequence (man_durable_sequence (db_manifest d))"
    and uniq: "rows_unique (segments_rows cx (db_segments d))"
    and named: "mset (map sg_descriptor (db_segments d)) = mset (man_segments (db_manifest d))"
    and valid: "validate_components (db_manifest d) = Inr ()"
    and "store_ok cx j d" and "memory_ok d"
    and start: "man_wal_start_sequence (db_manifest d) = man_durable_sequence (db_manifest d) + 1"
      "man_durable_sequence (db_manifest d) < u64_max"
    and wal: "wal_inv crc (man_wal_start_sequence (db_manifest d)) [] (db_wal d)"
  shows "db_inv cx j crc backend d" and "db_rows cx d = segments_rows cx (db_segments d)"
proof -
  show rows: "db_rows cx d = segments_rows cx (db_segments d)"
    by (simp add: db_rows_def table mt_inv_at_sequence)
  have "reads_ok cx d" unfolding reads_ok_def rows table using segs index uniq by (simp add: mt_inv_at_sequence)
  moreover have "segments_ok cx backend d"
    using segs named descriptor_rows [OF valid _ mset_descriptors [OF named]] by (auto simp: segments_ok_def segments_rows_def)
  moreover have "log_ok crc [] d" using start wal table by (simp add: log_ok_def wal_inv_def replayed_Nil)
  ultimately show "db_inv cx j crc backend d" unfolding db_inv_def using assms(7,8) wal by blast
qed

lemma install_successor_eq:
  assumes "memory_ok db"
  obtains pool where "install_successor sequence w retained db = (Some (Inr ()),
      db\<lparr>db_wals := disk_wals db, db_wal := w, db_memtable := mutable_empty sequence, db_mutable_memory := pool\<rparr>)"
    and "\<exists>rest. memory_inv \<lparr>mst_pool = pool, mst_current = mutable_empty sequence, mst_retained = rest\<rparr>"
proof -
  let ?g = "db_memtable db" and ?pool = "db_mutable_memory db"
  obtain rest where inv: "memory_inv \<lparr>mst_pool = ?pool, mst_current = ?g, mst_retained = rest\<rparr>"
    using assms by (auto simp: memory_ok_def)
  have flushed: "memory_inv \<lparr>mst_pool = ?pool, mst_current = mutable_empty sequence, mst_retained = ?g # rest\<rparr>"
    using memory_step_inv [OF memory_step.flushed inv] by simp
  show ?thesis
  proof (cases retained)
    case True
    have "db\<lparr>db_wals := disk_wals db, db_wal := w, db_memtable := mutable_empty sequence\<rparr>
      = db\<lparr>db_wals := disk_wals db, db_wal := w, db_memtable := mutable_empty sequence, db_mutable_memory := ?pool\<rparr>" by simp
    then show ?thesis using that [of ?pool] True flushed
      by (auto simp: install_successor_def sread_def sbind_def smodify_def db_drop_generation_def)
  next
    case False
    have "pool_accounts ?pool (?g # rest)" using inv by (simp add: memory_inv_def)
    from pool_accounts_member [OF this, of ?g] obtain pool where drop: "drop_reservation (mg_reservation ?g) ?pool = Inr pool"
      by (auto elim: drop_reservation_ok)
    have "memory_step \<lparr>mst_pool = ?pool, mst_current = mutable_empty sequence, mst_retained = [] @ ?g # rest\<rparr>
        \<lparr>mst_pool = pool, mst_current = mutable_empty sequence, mst_retained = [] @ rest\<rparr>"
      by (rule memory_step.released [OF drop])
    then have "memory_inv \<lparr>mst_pool = pool, mst_current = mutable_empty sequence, mst_retained = rest\<rparr>"
      using memory_step_inv flushed by fastforce
    then show ?thesis using that [of pool] False drop
      by (auto simp: install_successor_def sread_def sbind_def smodify_def db_drop_generation_def)
  qed
qed

text \<open>What a flush leaves of the rest: the options, the pins and the snapshot; its files stay admissible.\<close>

definition flush_frame :: "codec \<Rightarrow> database \<Rightarrow> database \<Rightarrow> bool" where
  "flush_frame cx db d \<longleftrightarrow> db_options d = db_options db \<and> db_transaction_snapshots d = db_transaction_snapshots db
     \<and> db_snapshot d = db_snapshot db \<and> ran (db_segment_files d) \<subseteq> db_images cx db \<and> wals_fit d"

text \<open>What a flush has prepared when it publishes.\<close>

definition flush_ready ::
  "codec \<Rightarrow> crc_fn \<Rightarrow> (bytes \<Rightarrow> page_source) \<Rightarrow> database \<Rightarrow> database \<Rightarrow> segment list \<Rightarrow> wal_writer \<Rightarrow> manifest \<Rightarrow> bool" where
  "flush_ready cx crc backend db d flushed w next \<longleftrightarrow>
     flush_staged (db_images cx db) (man_wal_start_sequence next) db d
     \<and> segments_rows cx flushed = mt_rows (db_table db)
     \<and> (\<forall>seg \<in> set flushed. seg_inv cx seg \<and> seg_stored cx backend (db_segment_files d) seg)
     \<and> wal_inv crc (man_wal_start_sequence next) [] w \<and> db_wals d (man_wal_start_sequence next) = Some (wal_file w)
     \<and> man_wal_start_sequence next \<noteq> man_wal_start_sequence (db_manifest db)
     \<and> man_durable_sequence next = mt_maximum_sequence (db_table db)
     \<and> man_wal_start_sequence next = man_durable_sequence next + 1 \<and> man_durable_sequence next < u64_max
     \<and> mset (man_segments next) = mset (map sg_descriptor (db_segments db @ flushed))
     \<and> validate_components next = Inr ()"

lemma flush_ready_segments:
  assumes "db_inv cx j crc backend db" and "flush_ready cx crc backend db d flushed w next"
  shows "\<forall>seg \<in> set (db_segments db @ flushed). seg_inv cx seg \<and> seg_stored cx backend (db_segment_files d) seg"
    and "segments_rows cx (db_segments db @ flushed) = db_rows cx db"
proof -
  have le: "db_segment_files db \<subseteq>\<^sub>m db_segment_files d" using assms(2) by (auto simp: flush_ready_def flush_staged_def)
  have "seg_inv cx seg \<and> seg_stored cx backend (db_segment_files d) seg" if "seg \<in> set (db_segments db)" for seg
    using that assms(1) seg_stored_mono [OF le] by (auto simp: db_inv_def reads_ok_def segments_ok_def)
  then show "\<forall>seg \<in> set (db_segments db @ flushed). seg_inv cx seg \<and> seg_stored cx backend (db_segment_files d) seg"
    using assms(2) by (auto simp: flush_ready_def)
  have "segments_rows cx (db_segments db @ flushed) = segments_rows cx (db_segments db) \<union> segments_rows cx flushed"
    by (simp add: segments_rows_def)
  then show "segments_rows cx (db_segments db @ flushed) = db_rows cx db"
    using assms(2) by (simp add: flush_ready_def db_rows_def Un_commute)
qed

lemma flush_ready_frame:
  assumes ready: "flush_ready cx crc backend db d flushed w next" and fit: "wals_fit db"
    and e: "db_options e = db_options d" "db_transaction_snapshots e = db_transaction_snapshots d" "db_snapshot e = db_snapshot db"
      "db_segment_files e = db_segment_files d" "db_wals e = disk_wals d" "db_wal e = w" "db_manifest e = next"
  shows "flush_frame cx db e"
proof -
  have staged: "flush_staged (db_images cx db) (man_wal_start_sequence next) db d" and w: "wal_inv crc (man_wal_start_sequence next) [] w"
    and wals: "db_wals d (man_wal_start_sequence next) = Some (wal_file w)" using ready by (auto simp: flush_ready_def)
  have w_fits: "file_fits (wal_file w)" using w by (simp add: wal_inv_def file_fits_def rrf_consts)
  have "file_fits f" if f: "f \<in> ran (disk_wals e)" for f
  proof -
    obtain n where n: "disk_wals e n = Some f" using f by (auto simp: ran_def)
    show ?thesis
    proof (cases "n = man_wal_start_sequence next")
      case True
      then show ?thesis using n w_fits by (simp add: disk_wals_def e)
    next
      case False
      then have "disk_wals db n = Some f" using n staged by (auto simp: disk_wals_def e flush_staged_def split: if_splits)
      then show ?thesis using fit by (auto simp: wals_fit_def ran_def)
    qed
  qed
  then show ?thesis using staged e by (auto simp: flush_frame_def wals_fit_def flush_staged_def)
qed

lemma flush_unpublished:
  assumes inv: "db_inv cx j crc backend db" and ready: "flush_ready cx crc backend db d flushed w next"
    and store: "new_store d d'" "store_ok cx j d' \<or> (\<exists>p. store_current cx j (st_root (db_manifests d')) = Inr (Some (p, next)))"
  shows "keeps_rows cx j crc backend (db_rows cx db) d'"
proof -
  have staged: "flush_staged (db_images cx db) (man_wal_start_sequence next) db d" using ready by (auto simp: flush_ready_def)
  note d = flush_staged_inv [OF inv staged]
  obtain st where d': "d' = d\<lparr>db_manifests := st\<rparr>" using store(1) by (auto simp: new_store_def)
  have reads: "reads_ok cx d'" "db_rows cx d' = db_rows cx db"
    using d by (simp_all add: d' db_inv_def reads_ok_def db_rows_def)
  show ?thesis
  proof (cases "store_ok cx j d'")
    case True
    have "db_inv cx j crc backend d'"
      by (rule db_inv_similar(1) [OF d(1) _ _ _ _ _ _ True]) (simp_all add: d')
    then show ?thesis using reads(2) by (rule db_inv_keeps)
  next
    case False
    then obtain p where cur: "store_current cx j (st_root st) = Inr (Some (p, next))" using store(2) by (auto simp: d')
    have r: "man_wal_start_sequence next \<noteq> man_wal_start_sequence (db_manifest db)"
      "man_wal_start_sequence next = man_durable_sequence next + 1" "man_durable_sequence next < u64_max"
      "wal_inv crc (man_wal_start_sequence next) [] w" "db_wals d (man_wal_start_sequence next) = Some (wal_file w)"
      "mset (man_segments next) = mset (map sg_descriptor (db_segments db @ flushed))"
      using ready by (auto simp: flush_ready_def)
    have man: "db_manifest d = db_manifest db" using staged by (auto simp: flush_staged_def)
    note segs = flush_ready_segments [OF inv ready]
    have "recovers_rows cx j crc backend (disk_of d')
        (mt_rows (at_sequence (man_durable_sequence next)) \<union> segments_rows cx (db_segments db @ flushed))"
    proof (rule published_recovers)
      show "store_current cx j (dk_root (disk_of d')) = Inr (Some (p, next))" by (simp add: disk_of_def d' cur)
      show "dk_wals (disk_of d') (man_wal_start_sequence next) = Some (file_header crc @ frames_image crc [])"
        using r(1,4,5) by (simp add: disk_of_def disk_wals_def d' man wal_inv_def)
      show "\<forall>seg \<in> set (db_segments db @ flushed). seg_inv cx seg \<and> seg_stored cx backend (dk_segments (disk_of d')) seg"
        using segs(1) by (simp add: disk_of_def d')
    qed (use r in \<open>simp_all add: replayed_Nil\<close>)
    then show ?thesis using reads segs(2) by (simp add: keeps_rows_def mt_inv_at_sequence)
  qed
qed

lemma flush_installed:
  assumes inv: "db_inv cx j crc backend db" and ready: "flush_ready cx crc backend db d flushed w next"
    and store: "new_store d d'" "store_current cx j (st_root (db_manifests d')) = Inr (Some (p, next))" and fit: "wals_fit db"
  obtains pool where "install_successor (mt_maximum_sequence (db_table db)) w retained d' = (Some (Inr ()), pool)"
    and "db_inv cx j crc backend (install_flushed flushed next pool)"
    and "db_rows cx (install_flushed flushed next pool) = db_rows cx db" and "flush_frame cx db (install_flushed flushed next pool)"
proof -
  have staged: "flush_staged (db_images cx db) (man_wal_start_sequence next) db d" using ready by (auto simp: flush_ready_def)
  note d = flush_staged_inv [OF inv staged]
  obtain st where d': "d' = d\<lparr>db_manifests := st\<rparr>" using store(1) by (auto simp: new_store_def)
  have "memory_ok d'" using d(1) by (simp add: db_inv_def memory_ok_def d')
  then obtain pool where run: "install_successor (mt_maximum_sequence (db_table db)) w retained d' = (Some (Inr ()),
      d'\<lparr>db_wals := disk_wals d', db_wal := w, db_memtable := mutable_empty (mt_maximum_sequence (db_table db)), db_mutable_memory := pool\<rparr>)"
    and mem: "\<exists>rest. memory_inv \<lparr>mst_pool = pool, mst_current = mutable_empty (mt_maximum_sequence (db_table db)), mst_retained = rest\<rparr>"
    by (rule install_successor_eq)
  let ?e = "install_flushed flushed next (d'\<lparr>db_wals := disk_wals d', db_wal := w,
    db_memtable := mutable_empty (mt_maximum_sequence (db_table db)), db_mutable_memory := pool\<rparr>)"
  note segs = flush_ready_segments [OF inv ready]
  have r: "man_wal_start_sequence next = man_durable_sequence next + 1" "man_durable_sequence next < u64_max"
    "wal_inv crc (man_wal_start_sequence next) [] w" "man_durable_sequence next = mt_maximum_sequence (db_table db)"
    "mset (man_segments next) = mset (map sg_descriptor (db_segments db @ flushed))" "validate_components next = Inr ()"
    using ready by (auto simp: flush_ready_def)
  have dsegs: "db_segments d = db_segments db" using staged by (auto simp: flush_staged_def)
  have "db_segments ?e = db_segments db @ flushed" by (simp add: install_flushed_def d' dsegs)
  have uniq: "rows_unique (segments_rows cx (db_segments db @ flushed))"
    using inv unfolding segs(2) by (simp add: db_inv_def reads_ok_def)
  have e: "db_segments ?e = db_segments db @ flushed" "db_segment_files ?e = db_segment_files d" "db_manifest ?e = next"
    "db_table ?e = at_sequence (man_durable_sequence next)" "db_wal ?e = w"
    "db_point_index ?e = point_index_new (map sg_descriptor (db_segments db @ flushed))"
    by (simp_all add: install_flushed_def d' dsegs mutable_empty_def r(4))
  have "store_ok cx j ?e" using store(2) by (auto simp: store_ok_def install_flushed_def)
  moreover have "memory_ok ?e" using mem by (simp add: memory_ok_def install_flushed_def)
  ultimately have "db_inv cx j crc backend ?e" "db_rows cx ?e = segments_rows cx (db_segments ?e)"
    using db_inv_install [of ?e cx backend j crc] segs(1) uniq r(1-3,6) r(5) [symmetric] unfolding e by auto
  moreover have "flush_frame cx db ?e"
  proof (rule flush_ready_frame [OF ready fit])
    show "db_snapshot ?e = db_snapshot db" unfolding db_snapshot_def e(4) r(4) by (simp add: at_sequence_def)
    show "db_wals ?e = disk_wals d" by (simp add: install_flushed_def d' disk_wals_def)
  qed (simp_all add: install_flushed_def d')
  ultimately show ?thesis using that [OF run] segs(2) by (simp add: e(1))
qed

lemma flush_commit_runs:
  assumes ok: "codec_ok cx" "json_ok j" and inv: "db_inv cx j crc backend db" and ready: "flush_ready cx crc backend db d flushed w next" and fit: "wals_fit db"
  shows "runs (flush_commit cx j io failure (mt_maximum_sequence (db_table db)) w flushed next) d
    (\<lambda>_ d'. db_inv cx j crc backend d' \<and> db_rows cx d' = db_rows cx db \<and> flush_frame cx db d') (keeps_rows cx j crc backend (db_rows cx db))"
  unfolding flush_commit_def
proof (rule runs_bind)
  have staged: "flush_staged (db_images cx db) (man_wal_start_sequence next) db d" using ready by (auto simp: flush_ready_def)
  have "store_ok cx j d" using flush_staged_inv(1) [OF inv staged] by (simp add: db_inv_def)
  then show "runs (db_publish cx j (fio_publish io) next) d
      (\<lambda>_ d'. new_store d d' \<and> (\<exists>p. store_current cx j (st_root (db_manifests d')) = Inr (Some (p, next))))
      (keeps_rows cx j crc backend (db_rows cx db))"
    using flush_unpublished [OF inv ready] by (auto intro: runs_weaken [OF db_publish_runs [OF ok]])
next
  fix x d'
  assume "new_store d d' \<and> (\<exists>p. store_current cx j (st_root (db_manifests d')) = Inr (Some (p, next)))"
  then obtain p where "new_store d d'" "store_current cx j (st_root (db_manifests d')) = Inr (Some (p, next))" by blast
  from flush_installed [OF inv ready this fit, of "fio_retained io"] obtain d2 where
    run: "install_successor (mt_maximum_sequence (db_table db)) w (fio_retained io) d' = (Some (Inr ()), d2)"
    and d2: "db_inv cx j crc backend (install_flushed flushed next d2)" "db_rows cx (install_flushed flushed next d2) = db_rows cx db"
      "flush_frame cx db (install_flushed flushed next d2)"
    by blast
  have step: "runs (install_successor (mt_maximum_sequence (db_table db)) w (fio_retained io)) d' (\<lambda>_ s. s = d2) (keeps_rows cx j crc backend (db_rows cx db))"
    by (simp add: runs_def run)
  show "runs (sbind (install_successor (mt_maximum_sequence (db_table db)) w (fio_retained io)) (\<lambda>_.
      sbind (smodify (install_flushed flushed next)) (\<lambda>_.
      sbind (slift (inject_failure failure FlushManifestPublished)) (\<lambda>_. sret (Some next))))) d'
    (\<lambda>_ d'. db_inv cx j crc backend d' \<and> db_rows cx d' = db_rows cx db \<and> flush_frame cx db d') (keeps_rows cx j crc backend (db_rows cx db))"
    by (rule runs_bind [OF step]) (auto intro!: runs_modify_bind runs_lift_bind runs_ret d2 db_inv_keeps [OF d2(1,2)])
qed

lemma log_sequence:
  assumes "db_inv cx j crc backend db"
  shows "mt_inv (db_table db)" and "mt_maximum_sequence (db_table db) < u64_max"
    and "mt_version_count (db_table db) \<noteq> 0 \<Longrightarrow> man_wal_start_sequence (db_manifest db) < mt_maximum_sequence (db_table db) + 1"
proof -
  let ?d = "man_durable_sequence (db_manifest db)"
  obtain bs where log: "log_ok crc bs db" using assms unfolding db_inv_def by blast
  then have start: "man_wal_start_sequence (db_manifest db) = ?d + 1" and d: "?d < u64_max"
    and chain: "chain (?d + 1) bs" and r: "replayed ?d bs (db_table db)" by (auto simp: log_ok_def)
  note facts = replayed_inv [OF r chain d]
  show "mt_inv (db_table db)" "mt_maximum_sequence (db_table db) < u64_max" using facts by simp_all
  assume "mt_version_count (db_table db) \<noteq> 0"
  then obtain b bs' where bs: "bs = b # bs'" using facts by (cases bs) auto
  have "wb_last_sequence b + 1 \<le> next_after (wb_last_sequence b + 1) bs'" using chain bs next_after_ge by auto
  moreover have "?d + 1 \<le> wb_last_sequence b" using chain bs by (auto simp: batch_valid_def)
  ultimately show "man_wal_start_sequence (db_manifest db) < mt_maximum_sequence (db_table db) + 1"
    using facts start bs by simp
qed

lemma flush_output_runs:
  assumes ok: "codec_ok cx" "json_ok j" "backend_ok backend" and inv: "db_inv cx j crc backend db"
    and digests: "digests_ok cx db" and fit: "wals_fit db" and some: "mt_version_count (db_table db) \<noteq> 0"
    and boundaries: "flush_boundaries io db = Inr boundaries"
  shows "runs (flush_output cx j crc backend io at failure boundaries (mt_maximum_sequence (db_table db)))
    (db\<lparr>db_reclamation_pending := True\<rparr>)
    (\<lambda>_ d'. db_inv cx j crc backend d' \<and> db_rows cx d' = db_rows cx db \<and> flush_frame cx db d') (keeps_rows cx j crc backend (db_rows cx db))"
proof -
  let ?A = "db_images cx db" and ?db = "db\<lparr>db_reclamation_pending := True\<rparr>" and ?seq = "mt_maximum_sequence (db_table db)"
  note mt = log_sequence [OF inv]
  have A: "distinct_digests cx ?A" "db_images cx ?db \<subseteq> ?A" using digests by (auto simp: digests_ok_def db_images_def db_rows_def)
  have b: "flush_boundaries io ?db = Inr boundaries" using boundaries by (simp add: flush_boundaries_def l0_segment_count_def)
  have staged: "flush_staged ?A n db d" if "more_files ?A ?db d" for n d
    using that by (auto simp: more_files_def flush_staged_def intro!: exI [of _ "db_wals db"])
  have kept: "keeps_rows cx j crc backend (db_rows cx db) d" if "flush_staged ?A n db d" for n d
    using flush_staged_inv [OF inv that] by (intro db_inv_keeps)
  have parts: "runs (sfold (flush_partition cx backend io boundaries) [] (enumerate 0 boundaries)) ?db
      (\<lambda>flushed d. more_files ?A ?db d \<and> segments_rows cx flushed = mt_rows (db_table db)
         \<and> (\<forall>seg \<in> set flushed. seg_inv cx seg \<and> seg_stored cx backend (db_segment_files d) seg))
      (keeps_rows cx j crc backend (db_rows cx db))"
    by (rule runs_weaken [OF flush_partitions_runs [OF ok(1,3) _ _ A b]]) (use mt kept staged in auto)
  show ?thesis
    unfolding flush_output_def
    apply (rule runs_bind [OF parts])
    subgoal premises flushed for flushed d
    proof -
      have more: "more_files ?A ?db d" using flushed by blast
      have keep: "keeps_rows cx j crc backend (db_rows cx db) d" by (rule kept [OF staged [OF more]])
      have d: "db_manifest d = db_manifest db" "disk_wals d = disk_wals db" using more by (auto simp: more_files_def disk_wals_def)
      show ?thesis
        apply (rule runs_lift_bind, rule keep)
        apply (rule runs_lift_bind, rule keep)
        subgoal premises n for _ n
        proof -
          have n': "n = ?seq + 1" "n \<le> u64_max" using n by (auto simp: ok_or_Inr)
          have st: "flush_staged ?A n db d'" if "more_wals n d d'" for d'
            using that more by (auto simp: more_wals_def more_files_def flush_staged_def)
          have succ: "runs (successor_wal crc io n) d
              (\<lambda>w d'. more_wals n d d' \<and> wal_inv crc n [] w \<and> db_wals d' n = Some (wal_file w)) (keeps_rows cx j crc backend (db_rows cx db))"
            by (rule runs_weaken [OF successor_wal_runs]) (use fit n' mt(3) [OF some] d kept st in \<open>auto simp: wals_fit_def\<close>)
          show ?thesis
            apply (rule runs_bind [OF succ])
            subgoal premises w for w d'
            proof -
              have keep': "keeps_rows cx j crc backend (db_rows cx db) d'" using kept st w by blast
              have d': "db_segments d' = db_segments db" "db_segment_files d' = db_segment_files d"
                using w more by (auto simp: more_wals_def more_files_def)
              show ?thesis
                apply (rule runs_lift_bind, rule keep')
                apply (rule runs_read)
                apply (rule runs_lift_bind, rule keep')
                apply (rule runs_lift_bind, rule keep')
                subgoal premises man for _ generation man
                proof -
                  note new = new_manifest_Inr [OF man(3)]
                  have "flush_ready cx crc backend db d' flushed w man"
                    unfolding flush_ready_def using flushed w st n' mt(2) mt(3) [OF some] d'
                    by (auto simp: new)
                  then show ?thesis
                    by (intro runs_lift_bind keep' flush_commit_runs [OF ok(1,2) inv _ fit])
                qed
                done
            qed
            done
        qed
        done
    qed
    done
qed

lemma flush_runs:
  assumes ok: "codec_ok cx" "json_ok j" "backend_ok backend" and inv: "db_inv cx j crc backend db"
    and digests: "digests_ok cx db" and fit: "wals_fit db"
  shows "runs (flush_memtable_inner cx j crc backend io at failure) db
    (\<lambda>_ d'. db_inv cx j crc backend d' \<and> db_rows cx d' = db_rows cx db \<and> flush_frame cx db d') (keeps_rows cx j crc backend (db_rows cx db))"
proof -
  note keep = db_inv_keeps [OF inv refl]
  have sync: "runs (db_wal_sync (fio_sync io)) db (\<lambda>sequence d. d = db \<and> sequence = mt_maximum_sequence (db_table db))
      (keeps_rows cx j crc backend (db_rows cx db))"
    by (rule runs_weaken [OF db_wal_sync_runs [OF inv]]) (auto intro: db_inv_keeps)
  have frame: "flush_frame cx db db" using fit by (auto simp: flush_frame_def db_images_def)
  show ?thesis
    unfolding flush_memtable_inner_def
    apply (rule runs_read)
    apply (rule runs_lift_bind, rule keep)
    apply (cases "mt_version_count (db_table db) = 0"; simp only: simp_thms if_True if_False)
    subgoal by (rule runs_bind [OF sync]) (auto intro!: runs_ret inv frame)
    apply (rule runs_lift_bind, rule keep)
    subgoal premises b for _ boundaries
      apply (rule runs_bind [OF sync])
      apply (elim conjE, hypsubst)
      apply (rule runs_lift_bind, rule keep)
      apply (rule runs_modify_bind)
      by (rule flush_output_runs [OF ok inv digests fit b(2) b(3)])
    done
qed

end
