(* ===== verification/Compaction_Merge.thy ===== *)
theory Compaction_Merge
  imports Database_Compaction Database_Flush_Spec
begin

text \<open>
  What the merge of a compaction computes. A lane stands for the records its cursor still yields;
  one round takes exactly the records of the least key from all lanes; the versions kept of a key
  are those a protected sequence sees. \<open>compacts\<close> says this for a set of rows at once.
\<close>

section \<open>What is kept\<close>

definition keeps_version :: "nat set \<Rightarrow> bool \<Rightarrow> rows \<Rightarrow> bytes \<Rightarrow> versioned_value \<Rightarrow> bool" where
  "keeps_version protected all P k v \<longleftrightarrow> (k, v) \<in> P \<and> (all \<or> (\<exists>s \<in> protected. visible_at P k s v))"

definition keeps_key :: "nat set \<Rightarrow> bool \<Rightarrow> (bytes \<Rightarrow> bool) \<Rightarrow> rows \<Rightarrow> bytes \<Rightarrow> bool" where
  "keeps_key protected all shadows P k \<longleftrightarrow>
     all \<or> shadows k \<or> (\<exists>v. keeps_version protected all P k v \<and> vv_value v \<noteq> None)"

definition compacts :: "nat set \<Rightarrow> bool \<Rightarrow> (bytes \<Rightarrow> bool) \<Rightarrow> rows \<Rightarrow> rows" where
  "compacts protected all shadows P = {(k, v). keeps_version protected all P k v \<and> keeps_key protected all shadows P k}"

definition key_rows :: "bytes \<Rightarrow> rows \<Rightarrow> rows" where
  "key_rows k P = {e \<in> P. fst e = k}"

definition other_rows :: "bytes \<Rightarrow> rows \<Rightarrow> rows" where
  "other_rows k P = {e \<in> P. fst e \<noteq> k}"

lemma visible_at_key: "visible_at (key_rows k P) k s v \<longleftrightarrow> visible_at P k s v"
  by (simp add: visible_at_def key_rows_def)

lemma visible_at_other: "k' \<noteq> k \<Longrightarrow> visible_at (other_rows k P) k' s v \<longleftrightarrow> visible_at P k' s v"
  by (simp add: visible_at_def other_rows_def)

lemma compacts_split: "compacts protected all shadows P
    = compacts protected all shadows (key_rows k P) \<union> compacts protected all shadows (other_rows k P)"
proof -
  have version: "keeps_version protected all (key_rows k P) k' v \<longleftrightarrow> k' = k \<and> keeps_version protected all P k' v"
    "keeps_version protected all (other_rows k P) k' v \<longleftrightarrow> k' \<noteq> k \<and> keeps_version protected all P k' v" for k' v
    unfolding keeps_version_def using visible_at_key [of k P] visible_at_other [of k' k P]
    by (auto simp: key_rows_def other_rows_def visible_at_def)
  have key: "k' = k \<Longrightarrow> keeps_key protected all shadows (key_rows k P) k' \<longleftrightarrow> keeps_key protected all shadows P k'"
    "k' \<noteq> k \<Longrightarrow> keeps_key protected all shadows (other_rows k P) k' \<longleftrightarrow> keeps_key protected all shadows P k'" for k'
    by (simp_all add: keeps_key_def version)
  show ?thesis
  proof (intro set_eqI)
    fix e :: "bytes \<times> versioned_value"
    obtain k' v where e: "e = (k', v)" by (cases e)
    show "e \<in> compacts protected all shadows P
        \<longleftrightarrow> e \<in> compacts protected all shadows (key_rows k P) \<union> compacts protected all shadows (other_rows k P)"
      using key [of k'] by (cases "k' = k") (simp_all add: e compacts_def version)
  qed
qed

lemma compacts_empty: "compacts protected all shadows {} = {}"
  by (simp add: compacts_def keeps_version_def)

lemma compacts_subset: "compacts protected all shadows P \<subseteq> P"
  by (auto simp: compacts_def keeps_version_def)

lemma compacts_all: "compacts protected True shadows P = P"
  by (auto simp: compacts_def keeps_version_def keeps_key_def)

section \<open>Versions of one key\<close>

definition version_rows :: "bytes \<Rightarrow> (nat, bytes option) btree \<Rightarrow> rows" where
  "version_rows k versions = {(k, \<lparr>vv_sequence = s, vv_value = x\<rparr>) | s x. map_of versions s = Some x}"

lemma version_rows_iff: "(k', v) \<in> version_rows k versions \<longleftrightarrow> k' = k \<and> map_of versions (vv_sequence v) = Some (vv_value v)"
  by (cases v) (auto simp: version_rows_def)

lemma version_rows_unique: "rows_unique (version_rows k versions)"
  by (auto simp: rows_unique_def version_rows_iff)

lemma observe_version_rows:
  assumes "observe_version v (versions, n) = Inr (versions', n')" and "key_sorted versions"
  shows "key_sorted versions'" and "version_rows k versions' = insert (k, v) (version_rows k versions)"
proof -
  show "key_sorted versions'"
    using assms by (auto simp: observe_version_def rbind_Inr key_sorted_bt_insert split: option.splits)
  have "map_of versions' = (map_of versions)(vv_sequence v \<mapsto> vv_value v)"
    using assms(1) by (auto simp: observe_version_def rbind_Inr fail_if_Inr map_of_bt_insert split: option.splits)
  moreover have "map_of versions (vv_sequence v) = None \<or> map_of versions (vv_sequence v) = Some (vv_value v)"
    using assms(1) by (auto simp: observe_version_def rbind_Inr fail_if_Inr split: option.splits)
  ultimately show "version_rows k versions' = insert (k, v) (version_rows k versions)"
    by (auto simp: version_rows_iff intro: versioned_value.equality split: if_splits)
qed

lemma newest_upto_visible:
  assumes "key_sorted versions"
  shows "newest_upto versions s = Some n \<longleftrightarrow> (\<exists>v. visible_at (version_rows k versions) k s v \<and> vv_sequence v = n)"
proof -
  let ?upto = "filter (\<lambda>e. fst e \<le> s) versions"
  have range: "bt_range Unbounded (Included s) versions = ?upto" by (simp add: bt_range_def)
  have sorted: "key_sorted ?upto" by (rule key_sorted_filter [OF assms])
  have get: "map_of versions i = Some x \<longleftrightarrow> (i, x) \<in> set versions" for i x
    using key_sorted_distinct [OF assms] by (simp add: map_of_eq_Some_iff)
  show ?thesis
  proof (cases "?upto" rule: rev_cases)
    case Nil
    then have "\<not> visible_at (version_rows k versions) k s v" for v
      using get by (auto simp: visible_at_def version_rows_iff filter_empty_conv)
    then show ?thesis by (simp add: newest_upto_def range Nil)
  next
    case (snoc es e)
    obtain i x where e: "e = (i, x)" by (cases e)
    have "e \<in> set ?upto" by (simp add: snoc)
    then have i: "i \<le> s" "map_of versions i = Some x" using get by (auto simp: e)
    have top: "i' \<le> i" if "map_of versions i' = Some x'" "i' \<le> s" for i' x'
    proof -
      have "(i', x') \<in> set ?upto" using that get by simp
      then show ?thesis using sorted unfolding snoc e by (auto simp: sorted_wrt_append)
    qed
    have "visible_at (version_rows k versions) k s v \<longleftrightarrow> v = \<lparr>vv_sequence = i, vv_value = x\<rparr>" for v
    proof
      assume v: "visible_at (version_rows k versions) k s v"
      have "(k, \<lparr>vv_sequence = i, vv_value = x\<rparr>) \<in> version_rows k versions" using i(2) by (simp add: version_rows_iff)
      then have "i \<le> vv_sequence v" using v i(1) by (force simp: visible_at_def)
      moreover have "vv_sequence v \<le> i" using v top by (auto simp: visible_at_def version_rows_iff)
      ultimately show "v = \<lparr>vv_sequence = i, vv_value = x\<rparr>" using v i(2) by (cases v) (auto simp: visible_at_def version_rows_iff)
    next
      assume "v = \<lparr>vv_sequence = i, vv_value = x\<rparr>"
      then show "visible_at (version_rows k versions) k s v" using i top by (auto simp: visible_at_def version_rows_iff)
    qed
    then show ?thesis by (auto simp: newest_upto_def range snoc e)
  qed
qed

lemma retained_rows:
  assumes "key_sorted versions"
  shows "Pair k ` set (retained_versions protected all versions)
    = {(k, v) | v. keeps_version (set protected) all (version_rows k versions) k v}"
    and "sorted_wrt (<) (map vv_sequence (retained_versions protected all versions))"
proof -
  let ?version = "\<lambda>(sequence, value). \<lparr>vv_sequence = sequence, vv_value = value\<rparr>"
  have get: "map_of versions i = Some x \<longleftrightarrow> (i, x) \<in> set versions" for i x
    using key_sorted_distinct [OF assms] by (simp add: map_of_eq_Some_iff)
  have seen: "(\<exists>s \<in> set protected. newest_upto versions s = Some i)
      \<longleftrightarrow> (\<exists>s \<in> set protected. visible_at (version_rows k versions) k s \<lparr>vv_sequence = i, vv_value = x\<rparr>)"
    if "map_of versions i = Some x" for i x
  proof -
    have "visible_at (version_rows k versions) k s v \<and> vv_sequence v = i
        \<longleftrightarrow> v = \<lparr>vv_sequence = i, vv_value = x\<rparr> \<and> visible_at (version_rows k versions) k s v" for s v
      using that by (cases v) (auto simp: visible_at_def version_rows_iff)
    then show ?thesis unfolding newest_upto_visible [OF assms, of _ _ k] by auto
  qed
  have seen1: "\<exists>s \<in> set protected. visible_at (version_rows k versions) k s \<lparr>vv_sequence = i, vv_value = x\<rparr>"
    if "(i, x) \<in> set versions" "s \<in> set protected" "newest_upto versions s = Some i" for i x s
    using seen [of i x] that get by blast
  have members: "i \<in> set (List.map_filter (newest_upto versions) protected) \<longleftrightarrow> (\<exists>s \<in> set protected. newest_upto versions s = Some i)" for i
    by (auto simp: map_filter_def image_iff)
  show "Pair k ` set (retained_versions protected all versions)
    = {(k, v) | v. keeps_version (set protected) all (version_rows k versions) k v}"
  proof (intro set_eqI iffI)
    fix e
    assume "e \<in> Pair k ` set (retained_versions protected all versions)"
    then show "e \<in> {(k, v) | v. keeps_version (set protected) all (version_rows k versions) k v}"
      using seen1 by (auto simp: retained_versions_def Let_def keeps_version_def version_rows_iff members get split: if_splits)
  next
    fix e
    assume "e \<in> {(k, v) | v. keeps_version (set protected) all (version_rows k versions) k v}"
    then obtain v where e: "e = (k, v)" and v: "keeps_version (set protected) all (version_rows k versions) k v" by blast
    then have in_versions: "(vv_sequence v, vv_value v) \<in> set versions" by (simp add: keeps_version_def version_rows_iff get)
    have "vv_sequence v \<in> set (List.map_filter (newest_upto versions) protected)" if "\<not> all"
      using that v newest_upto_visible [OF assms, of _ "vv_sequence v" k] by (auto simp: keeps_version_def members)
    with in_versions have "v \<in> set (retained_versions protected all versions)"
      by (cases v) (force simp: retained_versions_def Let_def)
    then show "e \<in> Pair k ` set (retained_versions protected all versions)" by (simp add: e)
  qed
  have map_seq: "map vv_sequence (map ?version es) = map fst es" for es by (simp add: case_prod_beta comp_def)
  show "sorted_wrt (<) (map vv_sequence (retained_versions protected all versions))"
    unfolding retained_versions_def Let_def using assms key_sorted_filter [OF assms] by (auto simp: map_seq simp del: map_map)
qed

section \<open>Lanes\<close>

definition lane_rows :: "codec \<Rightarrow> lane \<Rightarrow> (bytes \<times> versioned_value) list" where
  "lane_rows cx = (\<lambda>(seg, cur, head). case head of None \<Rightarrow> [] | Some e \<Rightarrow> e # cursor_rest cx seg cur)"

definition lane_ok :: "codec \<Rightarrow> lane \<Rightarrow> bool" where
  "lane_ok cx = (\<lambda>(seg, cur, head). seg_inv cx seg \<and> cursor_ok cx seg cur
     \<and> sorted_wrt record_less (lane_rows cx (seg, cur, head)))"

abbreviation lanes_rows :: "codec \<Rightarrow> lane list \<Rightarrow> rows" where
  "lanes_rows cx lanes \<equiv> \<Union> (set ` lane_rows cx ` set lanes)"

lemma next_record_lane:
  assumes "seg_inv cx seg" and "cursor_ok cx seg cur" and "sorted_wrt record_less (cursor_rest cx seg cur)"
  shows "\<exists>head cur'. next_record cx seg cur = Inr (head, cur') \<and> lane_ok cx (seg, cur', head)
    \<and> lane_rows cx (seg, cur', head) = cursor_rest cx seg cur"
proof -
  obtain head cur' where nx: "next_record cx seg cur = Inr (head, cur')"
    and yields: "cursor_yields cx seg (cursor_rest cx seg cur) (head, cur')"
    using next_record_spec [OF assms(1,2)] by auto
  have "lane_rows cx (seg, cur', head) = cursor_rest cx seg cur"
    using yields by (auto simp: lane_rows_def cursor_yields_def split: list.splits)
  then show ?thesis using nx yields assms by (auto simp: lane_ok_def cursor_yields_def)
qed

lemma start_lane_ok:
  assumes "seg_inv cx seg"
  shows "\<exists>lane. start_lane cx seg = Inr lane \<and> lane_ok cx lane \<and> lane_rows cx lane = segment_records cx seg"
proof -
  have "sorted_wrt record_less (cursor_rest cx seg cursor_start)" using assms by (simp add: cursor_start_ok(2) seg_inv_def)
  from next_record_lane [OF assms cursor_start_ok(1) this] show ?thesis
    by (auto simp: start_lane_def cursor_start_ok(2))
qed

lemma lane_cut:
  assumes "sorted_wrt record_less es" and "\<forall>e \<in> set es. key \<le> fst e"
  shows "set (takeWhile (\<lambda>e. fst e = key) es) = key_rows key (set es)"
    and "set (dropWhile (\<lambda>e. fst e = key) es) = other_rows key (set es)"
proof -
  have "set (takeWhile (\<lambda>e. fst e = key) es) = key_rows key (set es) \<and> set (dropWhile (\<lambda>e. fst e = key) es) = other_rows key (set es)"
    using assms
  proof (induction es)
    case (Cons e es)
    show ?case
    proof (cases "fst e = key")
      case True
      then show ?thesis using Cons by (auto simp: key_rows_def other_rows_def)
    next
      case False
      then have "\<forall>f \<in> set (e # es). key < fst f" using Cons.prems by (auto simp: record_less_def)
      then show ?thesis using False by (auto simp: key_rows_def other_rows_def)
    qed
  qed (simp add: key_rows_def other_rows_def)
  then show "set (takeWhile (\<lambda>e. fst e = key) es) = key_rows key (set es)"
    and "set (dropWhile (\<lambda>e. fst e = key) es) = other_rows key (set es)" by auto
qed

lemma drain_lane_spec:
  assumes "drain_lane cx limits clock key seg cur head (versions, n) k = Inr (lane, (versions', n'), k')"
    and "lane_ok cx (seg, cur, head)" and "key_sorted versions"
  shows "lane_ok cx lane \<and> lane_rows cx lane = dropWhile (\<lambda>e. fst e = key) (lane_rows cx (seg, cur, head))
    \<and> key_sorted versions'
    \<and> version_rows key versions' = version_rows key versions \<union> set (takeWhile (\<lambda>e. fst e = key) (lane_rows cx (seg, cur, head)))"
  using assms
proof (induction cx limits clock key seg cur head "(versions, n)" k arbitrary: versions n rule: drain_lane.induct)
  case (1 cx limits clock key seg cur head k)
  show ?case
  proof (cases "\<exists>v. head = Some (key, v)")
    case False
    then have "lane = (seg, cur, head) \<and> versions' = versions"
      using "1.prems"(1) by (auto simp: drain_lane.simps [of cx limits clock key seg cur head] split: option.splits prod.splits if_splits)
    moreover have "takeWhile (\<lambda>e. fst e = key) (lane_rows cx (seg, cur, head)) = []"
      "dropWhile (\<lambda>e. fst e = key) (lane_rows cx (seg, cur, head)) = lane_rows cx (seg, cur, head)"
      using False by (auto simp: lane_rows_def split: option.splits)
    ultimately show ?thesis using "1.prems"(2,3) by simp
  next
    case True
    then obtain v k1 versions1 n1 head1 cur1 where h: "head = Some (key, v)" and steps: "elapsed_tick limits clock k = Inr k1"
      "observe_version v (versions, n) = Inr (versions1, n1)" "next_record cx seg cur = Inr (head1, cur1)"
      and rest: "drain_lane cx limits clock key seg cur1 head1 (versions1, n1) k1 = Inr (lane, (versions', n'), k')"
      using "1.prems"(1) by (auto simp: drain_lane.simps [of cx limits clock key seg cur head] rbind_Inr split: prod.splits)
    have rows: "lane_rows cx (seg, cur, head) = (key, v) # cursor_rest cx seg cur" by (simp add: lane_rows_def h)
    have lane1: "lane_ok cx (seg, cur1, head1)" "lane_rows cx (seg, cur1, head1) = cursor_rest cx seg cur"
      using next_record_lane [of cx seg cur] "1.prems"(2) steps(3) rows by (auto simp: lane_ok_def)
    note obs = observe_version_rows [OF steps(2) "1.prems"(3)]
    have IH: "lane_ok cx lane \<and> lane_rows cx lane = dropWhile (\<lambda>e. fst e = key) (lane_rows cx (seg, cur1, head1))
        \<and> key_sorted versions' \<and> version_rows key versions'
          = version_rows key versions1 \<union> set (takeWhile (\<lambda>e. fst e = key) (lane_rows cx (seg, cur1, head1)))"
      by (rule "1.hyps" [OF h refl _ steps(1,2,3) refl rest lane1(1) obs(1)]) simp
    then show ?thesis unfolding rows lane1(2) obs(2) by auto
  qed
qed

lemma lane_head_least:
  assumes "lane_ok cx lane" and "e \<in> set (lane_rows cx lane)"
  shows "\<exists>k. lane_key lane = Some k \<and> k \<le> fst e"
  using assms by (cases lane) (auto simp: lane_ok_def lane_rows_def lane_key_def record_less_def split: option.splits)

lemma least_key_le:
  assumes "least_key lanes = Some key" and "\<forall>lane \<in> set lanes. lane_ok cx lane" and "e \<in> lanes_rows cx lanes"
  shows "key \<le> fst e"
proof -
  obtain lane where lane: "lane \<in> set lanes" "e \<in> set (lane_rows cx lane)" using assms(3) by blast
  then obtain k where k: "lane_key lane = Some k" "k \<le> fst e" using lane_head_least assms(2) by blast
  have "k \<in> set (List.map_filter lane_key lanes)" using k(1) lane(1) by (force simp: map_filter_def)
  then have "key \<le> k" using assms(1) by (auto simp: least_key_def split: list.splits intro: Min_le)
  with k(2) show ?thesis by simp
qed

lemma least_key_None:
  assumes "least_key lanes = None" and "\<forall>lane \<in> set lanes. lane_ok cx lane"
  shows "lanes_rows cx lanes = {}"
proof (rule ccontr)
  assume "lanes_rows cx lanes \<noteq> {}"
  then obtain lane e where lane: "lane \<in> set lanes" "e \<in> set (lane_rows cx lane)" by blast
  then obtain k where "lane_key lane = Some k" using lane_head_least assms(2) by blast
  then have "k \<in> set (List.map_filter lane_key lanes)" using lane(1) by (force simp: map_filter_def)
  then show False using assms(1) by (auto simp: least_key_def split: list.splits)
qed

lemma rows_Un: "key_rows k (A \<union> B) = key_rows k A \<union> key_rows k B" "other_rows k (A \<union> B) = other_rows k A \<union> other_rows k B"
  "key_rows k {} = {}" "other_rows k {} = {}"
  by (auto simp: key_rows_def other_rows_def)

lemma drain_lanes_spec:
  assumes "try_fold (drain_lanes cx limits clock key) (pre, (versions, n), k) lanes = Inr (lanes', (versions', n'), k')"
    and "\<forall>lane \<in> set lanes. lane_ok cx lane \<and> (\<forall>e \<in> set (lane_rows cx lane). key \<le> fst e)" and "key_sorted versions"
  shows "\<exists>new. lanes' = pre @ new \<and> (\<forall>lane \<in> set new. lane_ok cx lane) \<and> lanes_rows cx new = other_rows key (lanes_rows cx lanes)
    \<and> key_sorted versions' \<and> version_rows key versions' = version_rows key versions \<union> key_rows key (lanes_rows cx lanes)"
  using assms
proof (induction lanes arbitrary: pre versions n k)
  case Nil
  then show ?case by (simp add: rows_Un)
next
  case (Cons lane lanes)
  obtain seg cur head where lane: "lane = (seg, cur, head)" by (cases lane)
  obtain l versions1 n1 k1 where step: "drain_lane cx limits clock key seg cur head (versions, n) k = Inr (l, (versions1, n1), k1)"
    and rest: "try_fold (drain_lanes cx limits clock key) (pre @ [l], (versions1, n1), k1) lanes = Inr (lanes', (versions', n'), k')"
    using Cons.prems(1) by (auto simp: lane drain_lanes_def [of cx limits clock key] rbind_Inr)
  have ok: "lane_ok cx (seg, cur, head)" "\<forall>e \<in> set (lane_rows cx (seg, cur, head)). key \<le> fst e"
    using Cons.prems(2) by (auto simp: lane)
  note one = drain_lane_spec [OF step ok(1) Cons.prems(3)]
  have sorted: "sorted_wrt record_less (lane_rows cx (seg, cur, head))" using ok(1) by (simp add: lane_ok_def)
  have rest_ok: "\<forall>lane \<in> set lanes. lane_ok cx lane \<and> (\<forall>e \<in> set (lane_rows cx lane). key \<le> fst e)"
    using Cons.prems(2) by simp
  obtain new where new: "lanes' = (pre @ [l]) @ new" "\<forall>lane \<in> set new. lane_ok cx lane"
    "lanes_rows cx new = other_rows key (lanes_rows cx lanes)" "key_sorted versions'"
    "version_rows key versions' = version_rows key versions1 \<union> key_rows key (lanes_rows cx lanes)"
    using Cons.IH [OF rest rest_ok] one by blast
  have "lanes_rows cx (l # new) = other_rows key (lanes_rows cx (lane # lanes))"
    using new(3) one lane_cut(2) [OF sorted ok(2)] by (simp add: lane rows_Un)
  moreover have "version_rows key versions' = version_rows key versions \<union> key_rows key (lanes_rows cx (lane # lanes))"
    using new(5) one lane_cut(1) [OF sorted ok(2)] by (simp add: lane rows_Un Un_assoc)
  ultimately show ?case using new(1,2,4) one by (intro exI [of _ "l # new"]) simp
qed

lemma merge_read_spec:
  assumes "merge_read cx limits clock key lanes n k = Inr (lanes', (versions, n'), k')"
    and "least_key lanes = Some key" and "\<forall>lane \<in> set lanes. lane_ok cx lane"
  shows "\<forall>lane \<in> set lanes'. lane_ok cx lane" and "lanes_rows cx lanes' = other_rows key (lanes_rows cx lanes)"
    and "key_sorted versions" and "version_rows key versions = key_rows key (lanes_rows cx lanes)"
proof -
  obtain k1 where fold: "try_fold (drain_lanes cx limits clock key) ([], ([], n), k1) lanes = Inr (lanes', (versions, n'), k')"
    using assms(1) by (auto simp: merge_read_def rbind_Inr)
  have "\<forall>lane \<in> set lanes. lane_ok cx lane \<and> (\<forall>e \<in> set (lane_rows cx lane). key \<le> fst e)"
    using assms(3) least_key_le [OF assms(2,3)] by blast
  from drain_lanes_spec [OF fold this] show "\<forall>lane \<in> set lanes'. lane_ok cx lane"
    "lanes_rows cx lanes' = other_rows key (lanes_rows cx lanes)" "key_sorted versions"
    "version_rows key versions = key_rows key (lanes_rows cx lanes)"
    by (auto simp: version_rows_def)
qed

section \<open>Output partitions\<close>

text \<open>The segments written so far and the buffer hold the rows \<open>R\<close>.\<close>

definition merge_holds :: "codec \<Rightarrow> (bytes \<Rightarrow> page_source) \<Rightarrow> segment_files \<Rightarrow> rows \<Rightarrow> merge_state \<Rightarrow> bool" where
  "merge_holds cx backend files R st \<longleftrightarrow>
     key_sorted (ms_buffered st) \<and> segments_rows cx (ms_segments st) \<union> set (flat_versions (ms_buffered st)) = R
     \<and> (\<forall>seg \<in> set (ms_segments st). seg_inv cx seg \<and> seg_stored cx backend files seg)"

lemma seg_stored_level:
  assumes "seg_stored cx backend files seg"
  shows "seg_stored cx backend files (seg\<lparr>sg_descriptor := (sg_descriptor seg)\<lparr>sd_level := level\<rparr>\<rparr>)"
proof -
  obtain img where img: "files (sd_id (sg_descriptor seg)) = Some img"
    and opened: "segment_open_expected cx backend img (sg_descriptor seg) = Inr seg"
    using assms by (auto simp: seg_stored_def)
  obtain md where md: "validate_physical_file img = Inr ()" "length img = sd_bytes (sg_descriptor seg)"
    "verify_file_digest cx img = Inr (sd_id (sg_descriptor seg))" "sd_checksum (sg_descriptor seg) = sd_id (sg_descriptor seg)"
    "parse_metadata img (sd_id (sg_descriptor seg)) = Inr md"
    and d: "(sg_descriptor (build_segment md (backend img)))\<lparr>sd_level := sd_level (sg_descriptor seg)\<rparr> = sg_descriptor seg"
    and seg: "(build_segment md (backend img))\<lparr>sg_descriptor := sg_descriptor seg\<rparr> = seg"
    using opened by (auto simp: segment_open_expected_def rbind_Inr fail_if_Inr Let_def)
  let ?seg = "build_segment md (backend img)"
  have d': "(sg_descriptor ?seg)\<lparr>sd_level := level\<rparr> = (sg_descriptor seg)\<lparr>sd_level := level\<rparr>"
    using arg_cong [OF d, of "\<lambda>d. d\<lparr>sd_level := level\<rparr>"] by simp
  have "?seg\<lparr>sg_descriptor := (sg_descriptor seg)\<lparr>sd_level := level\<rparr>\<rparr> = seg\<lparr>sg_descriptor := (sg_descriptor seg)\<lparr>sd_level := level\<rparr>\<rparr>"
    using arg_cong [OF seg, of "\<lambda>s. s\<lparr>sg_descriptor := (sg_descriptor seg)\<lparr>sd_level := level\<rparr>\<rparr>"] by simp
  then show ?thesis using img md by (simp add: seg_stored_def segment_open_expected_def d')
qed

lemma db_write_table_runs:
  assumes ok: "codec_ok cx" "backend_ok backend" and mt: "mt_inv table" "mt_maximum_sequence table \<le> u64_max"
    and A: "distinct_digests cx A" "db_images cx db0 \<subseteq> A" and rows: "mt_rows table \<subseteq> db_rows cx db0"
    and files: "more_files A db0 db"
  shows "runs (db_write_table cx backend os table) db
    (\<lambda>seg db'. more_files A db0 db' \<and> db_segment_files db \<subseteq>\<^sub>m db_segment_files db'
       \<and> holds_rows cx backend (db_segment_files db') (mt_rows table) seg) (more_files A db0)"
proof -
  let ?versions = "map (\<lambda>(key, c). (key, chain_slice c)) (mt_versions table)"
  note v = memtable_versions_ok [OF mt]
  have same: "db_options db = db_options db0" "ran (db_segment_files db) \<subseteq> A" using files by (auto simp: more_files_def)
  have write_eq: "db_write_table cx backend os table = db_write_segment cx backend os ?versions"
    by (rule ext) (simp add: db_write_table_def db_write_segment_def write_from_memtable_def write_from_versions_def encode_table_def)
  have enc: "enc_bytes enc \<in> A" if "encode_versions cx ?versions (opt_segment_row_group_budget (db_options db))
      (opt_segment_compression (db_options db)) = Inr enc" for enc
    using that v rows A(2) unfolding db_images_def same by blast
  show ?thesis
    unfolding write_eq
    by (rule runs_weaken [OF db_write_segment_runs [OF ok v(1) A(1) same(2) enc]])
      (auto simp: v(2) intro: more_files_trans [OF files] dest: more_files_le)
qed

lemma flat_versions_map: "key_sorted versions \<Longrightarrow> {(k, v). \<exists>vs. map_of versions k = Some vs \<and> v \<in> set vs} = set (flat_versions versions)"
  using key_sorted_distinct [of versions] by (auto simp: set_flat_versions map_of_eq_Some_iff)

lemma flat_versions_insert:
  assumes "key_sorted versions" and "k \<notin> fst ` set (flat_versions versions)"
  shows "set (flat_versions (bt_insert k vs versions)) = set (flat_versions versions) \<union> Pair k ` set vs"
proof -
  have old: "set (flat_versions versions) = {(k, v). \<exists>vs. map_of versions k = Some vs \<and> v \<in> set vs}"
    by (rule flat_versions_map [OF assms(1), symmetric])
  then have "v \<notin> set vs'" if "map_of versions k = Some vs'" for v vs' using assms(2) that by force
  with old show ?thesis
    unfolding flat_versions_map [OF key_sorted_bt_insert [OF assms(1)], symmetric] map_of_bt_insert
    by (auto split: if_splits)
qed

lemma write_compaction_partition_runs:
  assumes ok: "codec_ok cx" "backend_ok backend" and A: "distinct_digests cx A" "db_images cx db0 \<subseteq> A"
    and sorted: "key_sorted versions" and rows: "set (flat_versions versions) \<subseteq> db_rows cx db0" and durable: "durable \<le> u64_max"
    and files: "more_files A db0 db"
  shows "runs (write_compaction_partition cx backend os versions durable level) db
    (\<lambda>seg db'. more_files A db0 db' \<and> db_segment_files db \<subseteq>\<^sub>m db_segment_files db'
       \<and> seg_inv cx seg \<and> segment_rows cx seg = set (flat_versions versions) \<and> seg_stored cx backend (db_segment_files db') seg)
    (more_files A db0)"
  unfolding write_compaction_partition_def
proof (rule runs_lift_bind, rule files)
  fix table
  assume table: "from_versions versions durable = Inr table"
  note t = from_versions_inv [OF sorted table]
  have t_rows: "mt_rows table = set (flat_versions versions)" using t flat_versions_map [OF sorted] by simp
  have mt: "mt_inv table" "mt_maximum_sequence table \<le> u64_max" "mt_rows table \<subseteq> db_rows cx db0" using t t_rows rows durable by auto
  show "runs (sbind (db_write_table cx backend os table) (\<lambda>seg. sret (seg\<lparr>sg_descriptor := (sg_descriptor seg)\<lparr>sd_level := level\<rparr>\<rparr>))) db
    (\<lambda>seg db'. more_files A db0 db' \<and> db_segment_files db \<subseteq>\<^sub>m db_segment_files db'
       \<and> seg_inv cx seg \<and> segment_rows cx seg = set (flat_versions versions) \<and> seg_stored cx backend (db_segment_files db') seg)
    (more_files A db0)"
  proof (rule runs_bind [OF db_write_table_runs [OF ok mt(1,2) A mt(3) files]], rule runs_ret)
    fix seg db'
    assume seg: "more_files A db0 db' \<and> db_segment_files db \<subseteq>\<^sub>m db_segment_files db'
      \<and> holds_rows cx backend (db_segment_files db') (mt_rows table) seg"
    then have inv: "seg_inv cx seg" by (simp add: holds_rows_def)
    let ?seg = "seg\<lparr>sg_descriptor := (sg_descriptor seg)\<lparr>sd_level := level\<rparr>\<rparr>"
    have "segment_rows cx ?seg = set (flat_versions versions)"
      using seg seg_inv_level(1) [OF inv, of level] by (simp add: segment_rows_def holds_rows_def t_rows)
    then show "more_files A db0 db' \<and> db_segment_files db \<subseteq>\<^sub>m db_segment_files db'
       \<and> seg_inv cx ?seg \<and> segment_rows cx ?seg = set (flat_versions versions) \<and> seg_stored cx backend (db_segment_files db') ?seg"
      using seg seg_inv_level(2) [OF inv, of level] seg_stored_level by (simp add: holds_rows_def)
  qed
qed

lemma merge_holds_mono: "files \<subseteq>\<^sub>m files' \<Longrightarrow> merge_holds cx backend files R st \<Longrightarrow> merge_holds cx backend files' R st"
  by (auto simp: merge_holds_def intro: seg_stored_mono)

lemma emit_partition_runs:
  assumes ok: "codec_ok cx" "backend_ok backend" and A: "distinct_digests cx A" "db_images cx db0 \<subseteq> A"
    and durable: "durable \<le> u64_max" and files: "more_files A db0 db"
    and holds: "merge_holds cx backend (db_segment_files db) R st" and R: "R \<subseteq> db_rows cx db0"
  shows "runs (emit_partition cx backend io durable level st) db
    (\<lambda>st' db'. more_files A db0 db' \<and> merge_holds cx backend (db_segment_files db') R st' \<and> ms_buffered st' = [])
    (more_files A db0)"
proof -
  have sorted: "key_sorted (ms_buffered st)" and rows: "set (flat_versions (ms_buffered st)) \<subseteq> db_rows cx db0"
    using holds R by (auto simp: merge_holds_def)
  show ?thesis
    unfolding emit_partition_def
    apply (rule runs_read)
    apply (rule runs_lift_bind, rule files)
    apply (rule runs_lift_bind, rule files)
    apply (rule runs_bind [OF write_compaction_partition_runs [OF ok A sorted rows durable files]])
    subgoal premises seg for k _ seg db'
      apply (rule runs_ret)
      using seg(3) holds merge_holds_mono [of "db_segment_files db" "db_segment_files db'" cx backend R st]
      by (auto simp: merge_holds_def segments_rows_def flat_versions_def)
    done
qed

lemma emit_group_runs:
  assumes ok: "codec_ok cx" "backend_ok backend" and A: "distinct_digests cx A" "db_images cx db0 \<subseteq> A"
    and durable: "durable \<le> u64_max" and files: "more_files A db0 db"
    and holds: "merge_holds cx backend (db_segment_files db) R st" and R: "R \<subseteq> db_rows cx db0"
    and new: "key \<notin> fst ` R"
  shows "runs (emit_group cx backend io candidate durable key retained st) db
    (\<lambda>st' db'. more_files A db0 db' \<and> merge_holds cx backend (db_segment_files db') (R \<union> Pair key ` set retained) st')
    (more_files A db0)"
proof -
  have buffered: "runs (sret (buffer_group key retained st')) db'
      (\<lambda>st' db'. more_files A db0 db' \<and> merge_holds cx backend (db_segment_files db') (R \<union> Pair key ` set retained) st') (more_files A db0)"
    if "more_files A db0 db'" and h: "merge_holds cx backend (db_segment_files db') R st'" for st' db'
  proof (rule runs_ret)
    have "key \<notin> fst ` set (flat_versions (ms_buffered st'))" using h new by (auto simp: merge_holds_def)
    then show "more_files A db0 db' \<and> merge_holds cx backend (db_segment_files db') (R \<union> Pair key ` set retained) (buffer_group key retained st')"
      using that by (auto simp: merge_holds_def buffer_group_def Let_def flat_versions_insert key_sorted_bt_insert)
  qed
  show ?thesis
    unfolding emit_group_def
    apply (rule runs_read, rule runs_bind [where P = "\<lambda>st' db'. more_files A db0 db' \<and> merge_holds cx backend (db_segment_files db') R st'"])
     apply (cases "ms_buffered st \<noteq> [] \<and> saturating_add (ms_buffered_bytes st) (version_group_bytes key retained)
                > cp_target_segment_bytes (db_policy db)")
      apply (simp, rule runs_weaken [OF emit_partition_runs [OF ok A durable files holds R]]; blast)
     apply (simp only: if_False, rule runs_ret, use files holds in blast)
    using buffered by blast
qed

lemma retained_compacts:
  assumes "key_sorted versions" and V: "version_rows key versions = key_rows key P"
    and retained: "retained = retained_versions protected all versions"
  shows "(if retain_compacted_key retained all (shadows key) then Pair key ` set retained else {})
    = compacts (set protected) all shadows (key_rows key P)"
proof -
  have kept: "Pair key ` set retained = {(key, v) | v. keeps_version (set protected) all (key_rows key P) key v}"
    using retained_rows(1) [OF assms(1), of key protected all] by (simp add: V retained)
  then have member: "v \<in> set retained \<longleftrightarrow> keeps_version (set protected) all (key_rows key P) key v" for v
    by (auto simp: set_eq_iff image_iff)
  have only: "keeps_version (set protected) all (key_rows key P) k v \<Longrightarrow> k = key" for k v
    by (simp add: keeps_version_def key_rows_def)
  have key: "retain_compacted_key retained all (shadows key)
      \<longleftrightarrow> retained \<noteq> [] \<and> keeps_key (set protected) all shadows (key_rows key P) key"
    by (auto simp: retain_compacted_key_def keeps_key_def list_ex_iff member)
  show ?thesis
  proof (cases "retain_compacted_key retained all (shadows key)")
    case True
    then have "keeps_key (set protected) all shadows (key_rows key P) key" by (simp add: key)
    then have "compacts (set protected) all shadows (key_rows key P)
        = {(key, v) | v. keeps_version (set protected) all (key_rows key P) key v}"
      using only unfolding compacts_def by blast
    with True kept show ?thesis by simp
  next
    case False
    then have "set retained = {} \<or> \<not> keeps_key (set protected) all shadows (key_rows key P) key" by (simp add: key)
    then have none: "\<not> (keeps_version (set protected) all (key_rows key P) key v \<and> keeps_key (set protected) all shadows (key_rows key P) key)" for v
      using member by auto
    have "(k, v) \<notin> compacts (set protected) all shadows (key_rows key P)" for k v
      using none [of v] only [of k v] unfolding compacts_def by auto
    then have "compacts (set protected) all shadows (key_rows key P) = {}" by auto
    with False show ?thesis by simp
  qed
qed

section \<open>The merge loop\<close>

lemma least_key_row:
  assumes "least_key lanes = Some key"
  shows "\<exists>e \<in> lanes_rows cx lanes. fst e = key"
proof -
  from least_key_Some [OF assms] obtain seg cur rec where lane: "(seg, cur, rec) \<in> set lanes" and "lane_key (seg, cur, rec) = Some key"
    by auto
  then obtain v where "rec = Some (key, v)" by (auto simp: lane_key_def)
  then have "(key, v) \<in> set (lane_rows cx (seg, cur, rec))" by (simp add: lane_rows_def)
  with lane show ?thesis by force
qed

lemma merge_step_runs:
  assumes ok: "codec_ok cx" "backend_ok backend" and A: "distinct_digests cx A" "db_images cx db0 \<subseteq> A"
    and durable: "durable \<le> u64_max" and files: "more_files A db0 db"
    and holds: "merge_holds cx backend (db_segment_files db) R st" and R: "R \<subseteq> db_rows cx db0"
    and new: "key \<notin> fst ` R"
    and versions: "key_sorted versions" "version_rows key versions = key_rows key P"
  shows "runs (merge_step cx backend io candidate durable protected all key versions st) db
    (\<lambda>st' db'. more_files A db0 db'
       \<and> merge_holds cx backend (db_segment_files db') (R \<union> compacts (set protected) all (shadows_unselected db (cc_indices candidate)) (key_rows key P)) st')
    (more_files A db0)"
proof -
  define retained where "retained = retained_versions protected all versions"
  note kept = retained_compacts [OF versions retained_def, of "shadows_unselected db (cc_indices candidate)"]
  show ?thesis
  proof (cases "retain_compacted_key retained all (shadows_unselected db (cc_indices candidate) key)")
    case True
    with kept have "compacts (set protected) all (shadows_unselected db (cc_indices candidate)) (key_rows key P) = Pair key ` set retained"
      by simp
    then show ?thesis
      unfolding merge_step_def Let_def retained_def [symmetric]
      by (rule_tac runs_read) (simp add: True emit_group_runs [OF ok A durable files holds R new])
  next
    case False
    with kept have "compacts (set protected) all (shadows_unselected db (cc_indices candidate)) (key_rows key P) = {}" by simp
    then show ?thesis
      unfolding merge_step_def Let_def retained_def [symmetric]
      by (rule_tac runs_read) (simp add: False runs_ret files holds)
  qed
qed

lemma shadows_files:
  assumes "more_files A db0 db"
  shows "shadows_unselected db = shadows_unselected db0"
  using assms by (auto simp: more_files_def shadows_unselected_def fun_eq_iff)

lemma new_key: "\<forall>e \<in> R. \<forall>e' \<in> P. fst e \<noteq> fst e' \<Longrightarrow> \<exists>e \<in> P. fst e = k \<Longrightarrow> k \<notin> fst ` R"
  by force

lemma other_keys:
  assumes "\<forall>e \<in> R. \<forall>e' \<in> P. fst e \<noteq> fst e'"
  shows "\<forall>e \<in> R \<union> compacts protected all shadows (key_rows k P). \<forall>e' \<in> other_rows k P. fst e \<noteq> fst e'"
  using assms compacts_subset [of protected all shadows "key_rows k P"] by (fastforce simp: key_rows_def other_rows_def)

lemma compacts_key_rows: "P \<subseteq> D \<Longrightarrow> compacts protected all shadows (key_rows k P) \<subseteq> D"
  using compacts_subset [of protected all shadows "key_rows k P"] by (auto simp: key_rows_def)

lemma merge_loop_runs:
  assumes ok: "codec_ok cx" "backend_ok backend" and A: "distinct_digests cx A" "db_images cx db0 \<subseteq> A"
    and durable: "durable \<le> u64_max"
  shows "more_files A db0 db \<Longrightarrow> merge_holds cx backend (db_segment_files db) R st \<Longrightarrow> R \<subseteq> db_rows cx db0
    \<Longrightarrow> \<forall>lane \<in> set lanes. lane_ok cx lane \<Longrightarrow> lanes_rows cx lanes \<subseteq> db_rows cx db0
    \<Longrightarrow> \<forall>e \<in> R. \<forall>e' \<in> lanes_rows cx lanes. fst e \<noteq> fst e'
    \<Longrightarrow> runs (merge_loop cx backend io candidate durable protected all lanes st) db
      (\<lambda>st' db'. more_files A db0 db' \<and> merge_holds cx backend (db_segment_files db')
         (R \<union> compacts (set protected) all (shadows_unselected db0 (cc_indices candidate)) (lanes_rows cx lanes)) st')
      (more_files A db0)"
proof (induction "sum_list (map lane_remaining lanes)" arbitrary: lanes st db R rule: less_induct)
  case less
  let ?shadows = "shadows_unselected db0 (cc_indices candidate)"
  show ?case
  proof (cases "least_key lanes")
    case None
    then have "lanes_rows cx lanes = {}" using least_key_None less.prems(4) by blast
    then show ?thesis using less.prems(1,2) by (simp add: runs_def merge_loop.simps [of _ _ _ _ _ _ _ lanes] None compacts_empty)
  next
    case (Some key)
    show ?thesis
    proof (cases "merge_read cx (db_limits db) (cmp_clock io) key lanes (ms_input_versions st) (ms_readings st)")
      case (Inl e)
      then show ?thesis using less.prems(1) by (simp add: runs_def merge_loop.simps [of _ _ _ _ _ _ _ lanes] Some)
    next
      case (Inr r)
      obtain lanes' read k where r1: "r = (lanes', read, k)" by (cases r)
      obtain versions n where "read = (versions, n)" by (cases read)
      with r1 have r: "r = (lanes', (versions, n), k)" by simp
      note got = merge_read_spec [OF Inr [unfolded r] Some less.prems(4)]
      let ?st = "st\<lparr>ms_input_versions := n, ms_readings := k\<rparr>"
      let ?P = "lanes_rows cx lanes"
      let ?R = "R \<union> compacts (set protected) all ?shadows (key_rows key ?P)"
      have key: "\<exists>e \<in> ?P. fst e = key"
        by (rule least_key_row [OF Some])
      have holds: "merge_holds cx backend (db_segment_files db) R ?st" using less.prems(2) by (simp add: merge_holds_def)
      have new: "key \<notin> fst ` R" by (rule new_key [OF less.prems(6) key])
      note step = merge_step_runs [OF ok A durable less.prems(1) holds less.prems(3) new got(3,4),
        of io candidate protected all, unfolded shadows_files [OF less.prems(1)]]
      have rest: "runs (merge_loop cx backend io candidate durable protected all lanes' st') db'
          (\<lambda>st' db'. more_files A db0 db' \<and> merge_holds cx backend (db_segment_files db')
             (R \<union> compacts (set protected) all ?shadows ?P) st') (more_files A db0)"
        if "more_files A db0 db'" "merge_holds cx backend (db_segment_files db') ?R st'" for st' db'
      proof -
        have "R \<union> compacts (set protected) all ?shadows ?P = ?R \<union> compacts (set protected) all ?shadows (lanes_rows cx lanes')"
          unfolding got(2) using compacts_split [of "set protected" all ?shadows ?P key] by (simp only: Un_assoc)
        moreover have "?R \<subseteq> db_rows cx db0" using less.prems(3) compacts_key_rows [OF less.prems(5)] by (simp only: Un_subset_iff)
        moreover have "lanes_rows cx lanes' \<subseteq> db_rows cx db0"
          unfolding got(2) other_rows_def using less.prems(5) by (rule order_trans [OF Collect_subset])
        moreover have "\<forall>e \<in> ?R. \<forall>e' \<in> lanes_rows cx lanes'. fst e \<noteq> fst e'"
          unfolding got(2) by (rule other_keys [OF less.prems(6)])
        ultimately show ?thesis
          using less.hyps [OF merge_read_remaining [OF Inr [unfolded r] Some] that(1,2) _ got(1)] by (simp only:)
      qed
      show ?thesis
        using step rest
        by (cases rule: op_cases [of "merge_step cx backend io candidate durable protected all key versions ?st db"])
          (simp_all add: runs_def merge_loop.simps [of _ _ _ _ _ _ _ lanes] Some Inr r)
    qed
  qed
qed

end
