(* ===== verification/Database_Compaction_Spec.thy ===== *)
theory Database_Compaction_Spec
  imports Compaction_Merge
begin

text \<open>
  Compaction keeps the reads of the database. The rows that the merge drops are rows no protected
  sequence and no sequence at or above the durable one reads; the publication of the compacted
  segments is atomic, so an error or a crash leaves the rows before or the rows after.
\<close>

section \<open>Reads\<close>

definition same_reads :: "(nat \<Rightarrow> bool) \<Rightarrow> rows \<Rightarrow> rows \<Rightarrow> bool" where
  "same_reads keep R R' \<longleftrightarrow> (\<forall>k r out. keep r \<longrightarrow> (reads_as R k r out \<longleftrightarrow> reads_as R' k r out))"

lemma same_reads_refl: "same_reads keep R R"
  by (simp add: same_reads_def)

lemma same_reads_trans: "same_reads keep R R' \<Longrightarrow> same_reads keep R' R'' \<Longrightarrow> same_reads keep R R''"
  by (simp add: same_reads_def)

text \<open>A subset of the rows that keeps every visible row is read the same.\<close>

lemma visible_subset:
  assumes sub: "R' \<subseteq> R" and uniq: "rows_unique R"
    and kept: "\<And>v. visible_at R k r v \<Longrightarrow> (k, v) \<in> R'"
  shows "visible_at R' k r v \<longleftrightarrow> visible_at R k r v"
proof
  assume "visible_at R k r v"
  with sub kept show "visible_at R' k r v" by (auto simp: visible_at_def)
next
  assume v: "visible_at R' k r v"
  then have "(k, v) \<in> R" "vv_sequence v \<le> r" using sub by (auto simp: visible_at_def)
  from visible_exists [OF this] obtain w where w: "visible_at R k r w" by blast
  from kept [OF this] have "vv_sequence w \<le> vv_sequence v" using v w by (auto simp: visible_at_def)
  moreover have "vv_sequence v \<le> vv_sequence w" using w \<open>(k, v) \<in> R\<close> \<open>vv_sequence v \<le> r\<close> by (simp add: visible_at_def)
  ultimately have "v = w" using uniq w \<open>(k, v) \<in> R\<close> unfolding rows_unique_def by (metis le_antisym visible_at_def)
  with w show "visible_at R k r v" by simp
qed

definition protects :: "nat set \<Rightarrow> bool \<Rightarrow> nat \<Rightarrow> nat \<Rightarrow> bool" where
  "protects protected all durable r \<longleftrightarrow> all \<or> r \<in> protected \<or> durable \<le> r"

text \<open>
  \<open>M\<close> are the rows of the memtable, \<open>U\<close> those of the segments left alone and \<open>S\<close> those of the
  selected segments.
\<close>

lemma compacts_reads:
  assumes uniq: "rows_unique (M \<union> (U \<union> S))" and M: "\<forall>e \<in> M. durable < vv_sequence (snd e)"
    and S: "\<forall>e \<in> S. vv_sequence (snd e) \<le> durable" and durable: "durable \<in> protected"
    and U: "\<forall>e \<in> U. shadows (fst e)"
  shows "same_reads (protects protected all durable) (M \<union> (U \<union> S)) (M \<union> (U \<union> compacts protected all shadows S))"
  unfolding same_reads_def
proof (intro allI impI)
  fix k r out
  assume r: "protects protected all durable r"
  let ?R = "M \<union> (U \<union> S)" and ?C = "compacts protected all shadows S"
  let ?R' = "M \<union> (U \<union> ?C)"
  have sub: "?R' \<subseteq> ?R" using compacts_subset [of protected all shadows S] by auto
  have kept: "keeps_version protected all S k v" if v: "visible_at ?R k r v" and "(k, v) \<in> S" for v
  proof -
    have "visible_at S k r v" using that by (auto simp: visible_at_def)
    moreover from this have "visible_at S k durable v" if "durable \<le> r" using S that by (fastforce simp: visible_at_def)
    ultimately show ?thesis using r durable that(2) by (auto simp: keeps_version_def protects_def)
  qed
  show "reads_as ?R k r out \<longleftrightarrow> reads_as ?R' k r out"
  proof (cases "keeps_key protected all shadows S k")
    case True
    then have "(k, v) \<in> ?R'" if "visible_at ?R k r v" for v
      using kept [OF that] that by (auto simp: compacts_def visible_at_def)
    from visible_subset [OF sub uniq this] show ?thesis by (simp add: reads_as_def)
  next
    case False
    then have noU: "(k, v) \<notin> U" and noC: "(k, v) \<notin> ?C" and none: "keeps_version protected all S k v \<Longrightarrow> vv_value v = None" for v
      using U by (auto simp: keeps_key_def compacts_def)
    show ?thesis
    proof (cases "\<exists>v. (k, v) \<in> M \<and> vv_sequence v \<le> r")
      case True
      then obtain w where w: "(k, w) \<in> M" "vv_sequence w \<le> r" by blast
      have "(k, v) \<in> ?R'" if v: "visible_at ?R k r v" for v
      proof -
        have "vv_sequence w \<le> vv_sequence v" using v w by (auto simp: visible_at_def)
        then have "(k, v) \<notin> S" using S M w(1) by fastforce
        with v noU show ?thesis by (auto simp: visible_at_def)
      qed
      from visible_subset [OF sub uniq this] show ?thesis by (simp add: reads_as_def)
    next
      case False
      then have no': "\<not> visible_at ?R' k r v" for v using noU noC by (auto simp: visible_at_def)
      have tombstone: "vv_value v = None" if v: "visible_at ?R k r v" for v
      proof -
        have "(k, v) \<in> S" using v False noU by (auto simp: visible_at_def)
        from none [OF kept [OF v this]] show ?thesis .
      qed
      with no' show ?thesis by (auto simp: reads_as_def)
    qed
  qed
qed

section \<open>Selection\<close>

lemma unselected_map: "unselected sel (map f xs) = map f (unselected sel xs)"
  by (simp add: unselected_def enumerate_map_upt filter_map comp_def case_prod_unfold enumerate_eq_zip zip_map2)

lemma set_unselected: "x \<in> set (unselected sel xs) \<longleftrightarrow> (\<exists>i < length xs. i \<notin> set sel \<and> x = xs ! i)"
  by (auto simp: unselected_def in_set_enumerate_eq image_iff)

definition selected_segments :: "database \<Rightarrow> nat list \<Rightarrow> segment list" where
  "selected_segments db sel = map ((!) (db_segments db)) sel"

abbreviation in_bounds :: "database \<Rightarrow> nat list \<Rightarrow> bool" where
  "in_bounds db sel \<equiv> \<forall>i \<in> set sel. i < length (db_segments db)"

lemma segments_rows_split:
  assumes "in_bounds db sel"
  shows "segments_rows cx (db_segments db)
    = segments_rows cx (unselected sel (db_segments db)) \<union> segments_rows cx (selected_segments db sel)"
proof -
  have "set (db_segments db) = set (unselected sel (db_segments db)) \<union> set (selected_segments db sel)"
    using assms unfolding selected_segments_def set_map set_conv_nth [of "db_segments db"] by (auto simp: set_unselected) blast
  then show ?thesis by (auto simp: segments_rows_def)
qed

lemma unselected_shadows:
  assumes "\<forall>seg \<in> set (db_segments db). seg_inv cx seg" and "e \<in> segments_rows cx (unselected sel (db_segments db))"
  shows "shadows_unselected db sel (fst e)"
proof -
  obtain i where i: "i < length (db_segments db)" "i \<notin> set sel" "e \<in> segment_rows cx (db_segments db ! i)"
    using assms(2) by (auto simp: segments_rows_def set_unselected)
  have "seg_inv cx (db_segments db ! i)" using assms(1) i(1) by simp
  from segment_bounds [OF this i(3)] i(1,2) show ?thesis by (auto simp: shadows_unselected_def list_ex_iff)
qed

lemma overlap_indices_bounds:
  "overlap_indices limits clock most target first_key last_key indices ds k = Inr (Some out, k') \<Longrightarrow>
     set out \<subseteq> set indices \<union> fst ` set ds"
  by (induction limits clock most target first_key last_key indices ds k rule: overlap_indices.induct)
    (fastforce simp: rbind_Inr split: if_splits)+

lemma compaction_overlap_candidate_bounds:
  assumes "compaction_overlap_candidate db clock sources level k = Inr (Some c, k')" and "in_bounds db sources"
  shows "in_bounds db (cc_indices c)"
proof -
  let ?first = "Min (set (map (\<lambda>i. sd_first_key (descriptor_at db i)) sources))"
  let ?last = "Max (set (map (\<lambda>i. sd_last_key (descriptor_at db i)) sources))"
  have "sources \<noteq> []" using assms(1) by (auto simp: compaction_overlap_candidate_def)
  then obtain indices where c: "c = \<lparr>cc_indices = sort indices, cc_source_level = level, cc_target_level = level + 1\<rparr>"
    and "overlap_indices (db_limits db) clock (cp_max_input_segments (db_policy db)) (level + 1) ?first ?last
      sources (enumerate 0 (map sg_descriptor (db_segments db))) k = Inr (Some indices, k')"
    using assms(1) by (auto simp: compaction_overlap_candidate_def Let_def rbind_Inr)
  then have "set indices \<subseteq> set sources \<union> fst ` set (enumerate 0 (map sg_descriptor (db_segments db)))"
    by (auto dest: overlap_indices_bounds)
  with c assms(2) show ?thesis by (auto simp: in_set_enumerate_eq)
qed

lemma try_windows_bounds:
  "try_windows db clock force sources level blocked windows denied overlap k = Inr (Some c, out) \<Longrightarrow> in_bounds db sources
     \<Longrightarrow> in_bounds db (cc_indices c)"
proof (induction db clock force sources level blocked windows denied overlap k rule: try_windows.induct)
  case (2 db clock force sources level blocked start count windows denied overlap k)
  obtain k1 candidate k2 where steps: "elapsed_tick (db_limits db) clock k = Inr k1"
    "compaction_overlap_candidate db clock (take count (drop start sources)) level k1 = Inr (candidate, k2)"
    using "2.prems"(1) by (auto simp: rbind_Inr)
  have sources: "in_bounds db (take count (drop start sources))"
    using "2.prems"(2) by (meson in_set_dropD in_set_takeD)
  show ?case
  proof (cases candidate)
    case None
    with "2.prems" steps "2.IH"(1) [OF steps(1) steps(2) refl None] show ?thesis by simp
  next
    case (Some c')
    have here: "in_bounds db (cc_indices c')"
      by (rule compaction_overlap_candidate_bounds [OF steps(2) [unfolded Some] sources])
    note IH = "2.IH"(2) [OF steps(1) steps(2) refl Some] "2.IH"(3) [OF steps(1) steps(2) refl Some]
    obtain r k3 where admitted: "admit_compaction_input db clock c' k2 = (r, k3)" by fastforce
    show ?thesis
      using "2.prems" steps here IH(1) IH(2) [OF _ admitted [symmetric]]
      by (cases r) (auto simp: Some admitted split: if_splits)
  qed
qed simp

lemma select_levels_bounds:
  "select_levels db clock force levels denied overlap k = Inr (Some c, k') \<Longrightarrow> in_bounds db (cc_indices c)"
proof (induction levels arbitrary: denied overlap k)
  case (Cons level levels)
  have sources: "in_bounds db (sort_sources db level (level_sources db level))" for level
    by (auto simp: sort_sources_def level_sources_def)
  obtain k1 where tick: "elapsed_tick (db_limits db) clock k = Inr k1" using Cons.prems by (auto simp: rbind_Inr)
  from Cons.prems Cons.IH show ?case
    by (auto simp: tick Let_def rbind_Inr split: if_splits option.splits dest!: try_windows_bounds [OF _ sources])
qed (auto split: option.splits)

section \<open>The merge of a candidate\<close>

lemma merge_compaction_candidate_runs:
  assumes ok: "codec_ok cx" "backend_ok backend" and A: "distinct_digests cx A" "db_images cx db \<subseteq> A"
    and durable: "durable \<le> u64_max" and segs: "\<forall>seg \<in> set (db_segments db). seg_inv cx seg" and sel: "in_bounds db (cc_indices c)"
  shows "runs (merge_compaction_candidate cx backend io c durable protected all k) db
    (\<lambda>(merge, _) db'. more_files A db db'
       \<and> segments_rows cx (cm_segments merge)
           = compacts (set protected) all (shadows_unselected db (cc_indices c)) (segments_rows cx (selected_segments db (cc_indices c)))
       \<and> (\<forall>seg \<in> set (cm_segments merge). seg_inv cx seg \<and> seg_stored cx backend (db_segment_files db') seg))
    (more_files A db)"
proof -
  let ?S = "segments_rows cx (selected_segments db (cc_indices c))"
  let ?C = "compacts (set protected) all (shadows_unselected db (cc_indices c)) ?S"
  have files: "more_files A db db" by (rule more_files_refl) (use A(2) in \<open>auto simp: db_images_def\<close>)
  define lane where "lane = (\<lambda>i. SOME l. start_lane cx (db_segments db ! i) = Inr l)"
  have lane: "start_lane cx (db_segments db ! i) = Inr (lane i) \<and> lane_ok cx (lane i)
      \<and> set (lane_rows cx (lane i)) = segment_rows cx (db_segments db ! i)" if "i \<in> set (cc_indices c)" for i
  proof -
    have "seg_inv cx (db_segments db ! i)" using segs sel that by simp
    from start_lane_ok [OF this] show ?thesis unfolding lane_def segment_rows_def by auto
  qed
  have lanes: "try_map (\<lambda>i. start_lane cx (db_segments db ! i)) (cc_indices c) = Inr (map lane (cc_indices c))"
    by (rule try_map_Inr) (use lane in blast)
  have P: "lanes_rows cx (map lane (cc_indices c)) = ?S"
    using lane by (auto simp: segments_rows_def selected_segments_def)
  have sub: "?S \<subseteq> db_rows cx db" using segments_rows_split [OF sel, of cx] by (auto simp: db_rows_def)
  have loop: "runs (merge_loop cx backend io c durable protected all (map lane (cc_indices c)) (merge_start k)) db
      (\<lambda>st' db'. more_files A db db' \<and> merge_holds cx backend (db_segment_files db') ?C st') (more_files A db)"
    using merge_loop_runs [OF ok A durable files, of "{}" "merge_start k" "map lane (cc_indices c)" io c protected all] lane sub
    unfolding P by (simp add: merge_holds_def merge_start_def segments_rows_def flat_versions_def)
  have C: "?C \<subseteq> db_rows cx db" using sub compacts_subset by blast
  show ?thesis
    unfolding merge_compaction_candidate_def
    apply (rule runs_read)
    unfolding lanes
    apply (rule runs_lift_bind, rule files)
    apply (simp only: sum.inject, hypsubst)
    apply (rule runs_bind [OF loop])
    apply (elim conjE)
    subgoal premises st for _ st db1
      apply (rule runs_bind [where P = "\<lambda>st' db'. more_files A db db' \<and> merge_holds cx backend (db_segment_files db') ?C st' \<and> ms_buffered st' = []"])
       apply (cases "ms_buffered st \<noteq> []")
        apply (simp add: emit_partition_runs [OF ok A durable st(1,2) C])
       apply (simp add: runs_ret st(1,2))
      apply (rule runs_ret)
      apply (auto simp: merge_result_def merge_holds_def flat_versions_def)
      done
    done
qed

section \<open>Publication\<close>

lemma store_publish_moved:
  assumes run: "store_publish cx j os m expected store = (Inl e, store')" and cur: "store_current cx j (st_root store) = Inr cur"
    and moved: "store_current cx j (st_root store') \<noteq> Inr cur"
  shows "\<exists>i. e = Io i"
proof -
  have "publish_admitted cx j m expected store = Inr ()"
    using run cur moved by (cases "publish_admitted cx j m expected store") (auto simp: store_publish_def)
  moreover obtain persisted root1 where one: "persist_manifest j (fst os) m (st_root store) = (persisted, root1)" by fastforce
  note keeps1 = persist_manifest_keeps [OF one]
  have cur1: "store_current cx j root1 = Inr cur" by (rule store_current_keeps [OF keeps1(1) keeps1(3) cur])
  moreover obtain published root2 where two: "publish_pointer j (snd os) (pointer_new cx m) root1 = (published, root2)" by fastforce
  have root: "st_root (publication_result r store) = st_root store" for r :: "unit res" and store
    by (simp add: publication_result_def split: sum.splits)
  have same: "store_current cx j root2 = Inr cur" if "rf_current root2 = rf_current root1"
    using store_current_keeps [OF that _ cur1] publish_pointer_keeps(2) [OF two] by simp
  ultimately show ?thesis
    using run moved publish_pointer_keeps(3) [OF two] one two
    by (cases persisted; cases published) (auto simp: store_publish_def root Let_def split: prod.splits)
qed

lemma db_publish_ends:
  assumes "codec_ok cx" and "json_ok j" and "store_ok cx j db"
  shows "ends (db_publish cx j os next) db
    (\<lambda>_ db'. new_store db db' \<and> (\<exists>p. store_current cx j (st_root (db_manifests db')) = Inr (Some (p, next))))
    (\<lambda>e db'. new_store db db' \<and> (store_ok cx j db'
       \<or> (\<exists>i. e = Some (Io i)) \<and> (\<exists>p. store_current cx j (st_root (db_manifests db')) = Inr (Some (p, next)))))"
proof -
  obtain p where cur: "store_current cx j (st_root (db_manifests db)) = Inr (Some (p, db_manifest db))"
    using assms(3) by (auto simp: store_ok_def)
  obtain r store where run: "store_publish cx j os next (Some (man_digest (db_manifest db))) (db_manifests db) = (r, store)" by fastforce
  have ended: "publication_ended cx j next (Some (p, db_manifest db)) r store" by (rule store_publish_spec(1) [OF assms(1,2) cur run])
  show ?thesis
  proof (cases r)
    case (Inr q)
    with ended show ?thesis by (auto simp: ends_def db_publish_def run publication_ended_def new_store_def)
  next
    case (Inl e)
    have "store_current cx j (st_root store) = Inr (Some (p, db_manifest db)) \<or> (\<exists>i. e = Io i)"
      using store_publish_moved [OF run [unfolded Inl] cur] by blast
    with Inl ended show ?thesis by (auto simp: ends_def db_publish_def run publication_ended_def new_store_def store_ok_def)
  qed
qed

section \<open>Installation\<close>

text \<open>What a compaction has prepared when it publishes.\<close>

definition compaction_ready ::
  "codec \<Rightarrow> (bytes \<Rightarrow> page_source) \<Rightarrow> database \<Rightarrow> nat list \<Rightarrow> segment list \<Rightarrow> bool" where
  "compaction_ready cx backend db sel segs \<longleftrightarrow> in_bounds db sel
     \<and> segments_rows cx segs \<subseteq> segments_rows cx (selected_segments db sel)
     \<and> (\<forall>seg \<in> set segs. seg_inv cx seg \<and> seg_stored cx backend (db_segment_files db) seg)"

definition rows_after :: "codec \<Rightarrow> database \<Rightarrow> nat list \<Rightarrow> segment list \<Rightarrow> rows" where
  "rows_after cx db sel segs = mt_rows (db_table db) \<union> segments_rows cx (unselected sel (db_segments db) @ segs)"

lemma segments_rows_append: "segments_rows cx (xs @ ys) = segments_rows cx xs \<union> segments_rows cx ys"
  by (auto simp: segments_rows_def)

lemma rows_after_subset:
  assumes "compaction_ready cx backend db sel segs"
  shows "segments_rows cx (unselected sel (db_segments db) @ segs) \<subseteq> segments_rows cx (db_segments db)"
    and "rows_after cx db sel segs \<subseteq> db_rows cx db"
  using assms segments_rows_split [of sel db cx]
  by (auto simp: compaction_ready_def rows_after_def segments_rows_append db_rows_def)

lemma compacted_segments:
  assumes inv: "db_inv cx j crc backend db" and ready: "compaction_ready cx backend db sel segs"
  shows "\<forall>seg \<in> set (unselected sel (db_segments db) @ segs). seg_inv cx seg \<and> seg_stored cx backend (db_segment_files db) seg"
  using inv ready by (auto simp: db_inv_def reads_ok_def segments_ok_def compaction_ready_def set_unselected)

lemma install_compacted_inv:
  assumes inv: "db_inv cx j crc backend db" and ready: "compaction_ready cx backend db sel segs"
    and man: "man_durable_sequence next = man_durable_sequence (db_manifest db)"
      "man_wal_start_sequence next = man_wal_start_sequence (db_manifest db)"
      "mset (man_segments next) = mset (map sg_descriptor (unselected sel (db_segments db) @ segs))"
    and store: "new_store db db'" "store_current cx j (st_root (db_manifests db')) = Inr (Some (p, next))"
  shows "db_inv cx j crc backend (install_compacted sel segs next db')"
    and "db_rows cx (install_compacted sel segs next db') = rows_after cx db sel segs"
    and "recovers_rows cx j crc backend (disk_of db') (rows_after cx db sel segs)"
proof -
  obtain st where db': "db' = db\<lparr>db_manifests := st\<rparr>" using store(1) by (auto simp: new_store_def)
  let ?d = "install_compacted sel segs next db'" and ?segs = "unselected sel (db_segments db) @ segs"
  note sub = rows_after_subset [OF ready] and seg = compacted_segments [OF inv ready]
  obtain bs where log: "log_ok crc bs db"
    "\<not> wal_poisoned (db_wal db) \<longrightarrow> wal_inv crc (man_wal_start_sequence (db_manifest db)) bs (db_wal db)"
    using inv by (auto simp: db_inv_def)
  have d: "db_segments ?d = ?segs" "db_memtable ?d = db_memtable db" "db_manifest ?d = next" "db_wal ?d = db_wal db"
    "db_segment_files ?d = db_segment_files db" "db_mutable_memory ?d = db_mutable_memory db" "db_manifests ?d = db_manifests db'"
    "db_point_index ?d = point_index_new (map sg_descriptor ?segs)"
    by (simp_all add: install_compacted_def db' unselected_map)
  show rows: "db_rows cx ?d = rows_after cx db sel segs" by (simp add: db_rows_def rows_after_def d)
  have "reads_ok cx ?d"
    unfolding reads_ok_def rows d using inv sub seg rows_unique_subset [OF _ sub(2)] by (auto simp: db_inv_def reads_ok_def)
  moreover have "segments_ok cx backend ?d"
    unfolding segments_ok_def d using inv sub(1) seg man by (auto simp: db_inv_def segments_ok_def)
  moreover have "store_ok cx j ?d" using store(2) by (auto simp: store_ok_def d)
  moreover have "memory_ok ?d" using inv by (simp add: db_inv_def memory_ok_def d)
  moreover have "log_ok crc bs ?d" using log(1) unfolding log_ok_def d man .
  ultimately show "db_inv cx j crc backend ?d" unfolding db_inv_def using log(2) by (auto simp: d man)
  show "recovers_rows cx j crc backend (disk_of db') (rows_after cx db sel segs)"
    unfolding rows_after_def
  proof (rule published_recovers)
    show "store_current cx j (dk_root (disk_of db')) = Inr (Some (p, next))" by (simp add: disk_of_def store(2))
    show "dk_wals (disk_of db') (man_wal_start_sequence next) = Some (file_header crc @ frames_image crc bs)"
      using log(1) by (simp add: disk_of_def disk_wals_def db' man log_ok_def)
    show "\<forall>seg \<in> set ?segs. seg_inv cx seg \<and> seg_stored cx backend (dk_segments (disk_of db')) seg"
      using seg by (simp add: disk_of_def db')
  qed (use log(1) man(3) in \<open>auto simp: log_ok_def man(1,2)\<close>)
qed

section \<open>Compaction\<close>

text \<open>What a compaction leaves of the database: the rows on every outcome, the rest unchanged.\<close>

definition same_log :: "database \<Rightarrow> database \<Rightarrow> bool" where
  "same_log db db' \<longleftrightarrow> db_memtable db' = db_memtable db \<and> db_wal db' = db_wal db \<and> db_wals db' = db_wals db
     \<and> db_options db' = db_options db \<and> db_transaction_snapshots db' = db_transaction_snapshots db
     \<and> man_durable_sequence (db_manifest db') = man_durable_sequence (db_manifest db)
     \<and> man_wal_start_sequence (db_manifest db') = man_wal_start_sequence (db_manifest db)
     \<and> db_writer_requires_reopen db' = db_writer_requires_reopen db \<and> db_wal_payload_bytes db' = db_wal_payload_bytes db"

lemma same_log_trans: "same_log db db' \<Longrightarrow> same_log db' db'' \<Longrightarrow> same_log db db''"
  by (simp add: same_log_def)

text \<open>An error after the pointer moved is an I/O error; the database then keeps reading its old segments.\<close>

definition unsettled :: "codec \<Rightarrow> json \<Rightarrow> crc_fn \<Rightarrow> (bytes \<Rightarrow> page_source) \<Rightarrow> rows \<Rightarrow> rows \<Rightarrow> lsm_error option \<Rightarrow> database \<Rightarrow> bool" where
  "unsettled cx j crc backend R R' e db \<longleftrightarrow> (\<exists>i. e = Some (Io i)) \<and> reads_ok cx db \<and> db_rows cx db = R
     \<and> rows_unique R' \<and> recovers_rows cx j crc backend (disk_of db) R'"

definition commit_ended ::
  "codec \<Rightarrow> json \<Rightarrow> crc_fn \<Rightarrow> (bytes \<Rightarrow> page_source) \<Rightarrow> database \<Rightarrow> rows \<Rightarrow> lsm_error option \<Rightarrow> database \<Rightarrow> bool" where
  "commit_ended cx j crc backend db R' e db' \<longleftrightarrow>
     db_inv cx j crc backend db' \<and> (db_rows cx db' = db_rows cx db \<or> db_rows cx db' = R') \<and> same_log db db'
       \<and> db_segment_files db' = db_segment_files db
     \<or> unsettled cx j crc backend (db_rows cx db) R' e db'"

lemma compaction_unpublished:
  assumes inv: "db_inv cx j crc backend db" and ready: "compaction_ready cx backend db sel segs"
    and man: "man_durable_sequence next = man_durable_sequence (db_manifest db)"
      "man_wal_start_sequence next = man_wal_start_sequence (db_manifest db)"
      "mset (man_segments next) = mset (map sg_descriptor (unselected sel (db_segments db) @ segs))"
    and store: "new_store db db'"
    and e: "store_ok cx j db' \<or> (\<exists>i. e = Some (Io i)) \<and> (\<exists>p. store_current cx j (st_root (db_manifests db')) = Inr (Some (p, next)))"
  shows "commit_ended cx j crc backend db (rows_after cx db sel segs) e db'"
proof -
  obtain st where db': "db' = db\<lparr>db_manifests := st\<rparr>" using store by (auto simp: new_store_def)
  have log: "same_log db db'" "db_segment_files db' = db_segment_files db" by (simp_all add: same_log_def db')
  show ?thesis
  proof (cases "store_ok cx j db'")
    case True
    have "db_inv cx j crc backend db'" "db_rows cx db' = db_rows cx db"
      using db_inv_similar [OF inv, of db'] True by (simp_all add: db')
    with log show ?thesis by (simp add: commit_ended_def)
  next
    case False
    then obtain p i where cur: "store_current cx j (st_root (db_manifests db')) = Inr (Some (p, next))" "e = Some (Io i)"
      using e by auto
    have "reads_ok cx db'" "db_rows cx db' = db_rows cx db" using inv by (simp_all add: db_inv_def reads_ok_def db_rows_def db')
    moreover have "rows_unique (rows_after cx db sel segs)" using inv
      by (intro rows_unique_subset [OF _ rows_after_subset(2) [OF ready]]) (simp add: db_inv_def reads_ok_def)
    ultimately show ?thesis
      using install_compacted_inv(3) [OF inv ready man store cur(1)] cur(2) by (simp add: commit_ended_def unsettled_def)
  qed
qed

lemma compaction_commit_ends:
  assumes ok: "codec_ok cx" "json_ok j" and inv: "db_inv cx j crc backend db"
    and ready: "compaction_ready cx backend db (cc_indices c) (cm_segments merge)"
    and R': "rows_after cx db (cc_indices c) (cm_segments merge) = R'"
  shows "ends (compaction_commit cx j io at failure c merge k) db
    (\<lambda>_ db'. db_inv cx j crc backend db' \<and> db_rows cx db' = R' \<and> same_log db db' \<and> db_segment_files db' = db_segment_files db)
    (commit_ended cx j crc backend db R')"
    (is "ends _ _ (\<lambda>_. ?P) ?E")
proof -
  have same: "?E e db" for e using inv by (simp add: same_log_def commit_ended_def)
  have kept: "?E e db'" if "?P db'" for e db' using that by (simp add: commit_ended_def)
  have store: "store_ok cx j db" using inv by (simp add: db_inv_def)
  show ?thesis
    unfolding compaction_commit_def
    apply (rule ends_read)
    apply (rule ends_lift_bind, rule same)
    apply (rule ends_lift_bind, rule same)
    apply (rule ends_lift_bind, rule same)
    apply (rule ends_lift_bind, rule same)
    apply (rule ends_lift_bind, rule same)
    subgoal premises steps for k1 _ generation "next" k2
    proof -
      note new = new_manifest_Inr [OF steps(4)]
      have segs: "mset (man_segments next) = mset (map sg_descriptor (unselected (cc_indices c) (db_segments db) @ cm_segments merge))"
        using new(3) by (simp add: unselected_map)
      have publish: "ends (db_publish cx j (cmp_publish io) next) db
          (\<lambda>_ db'. new_store db db' \<and> (\<exists>p. store_current cx j (st_root (db_manifests db')) = Inr (Some (p, next)))) ?E"
        by (rule ends_weaken [OF db_publish_ends [OF ok store]])
          (use compaction_unpublished [OF inv ready new(1,2) segs] R' in auto)
      have installed: "?P (install_compacted (cc_indices c) (cm_segments merge) next db')"
        if moved: "new_store db db' \<and> (\<exists>p. store_current cx j (st_root (db_manifests db')) = Inr (Some (p, next)))" for db'
      proof -
        obtain p st where cur: "store_current cx j (st_root (db_manifests db')) = Inr (Some (p, next))" and db': "db' = db\<lparr>db_manifests := st\<rparr>"
          using moved unfolding new_store_def by blast
        have "same_log db (install_compacted (cc_indices c) (cm_segments merge) next db')"
          "db_segment_files (install_compacted (cc_indices c) (cm_segments merge) next db') = db_segment_files db"
          using new(1,2) by (simp_all add: same_log_def install_compacted_def db')
        with install_compacted_inv(1,2) [OF inv ready new(1,2) segs conjunct1 [OF moved] cur] show ?thesis by (simp add: R')
      qed
      show ?thesis
        by (rule ends_bind [OF publish]) (intro ends_modify_bind ends_lift_bind ends_ret; use installed kept in blast)
    qed
    done
qed

definition compaction_keeps :: "database \<Rightarrow> nat list \<Rightarrow> bool \<Rightarrow> nat \<Rightarrow> bool" where
  "compaction_keeps db protected all r \<longleftrightarrow>
     all \<or> r \<in> set protected \<or> r \<in> fst ` set (reg_pins (db_transaction_snapshots db)) \<or> man_durable_sequence (db_manifest db) \<le> r"

definition compaction_settled ::
  "codec \<Rightarrow> json \<Rightarrow> crc_fn \<Rightarrow> (bytes \<Rightarrow> page_source) \<Rightarrow> (nat \<Rightarrow> bool) \<Rightarrow> database \<Rightarrow> database \<Rightarrow> bool" where
  "compaction_settled cx j crc backend keep db db' \<longleftrightarrow>
     db_inv cx j crc backend db' \<and> same_reads keep (db_rows cx db) (db_rows cx db') \<and> db_rows cx db' \<subseteq> db_rows cx db
       \<and> ran (db_segment_files db') \<subseteq> db_images cx db \<and> same_log db db'"

definition compaction_ended ::
  "codec \<Rightarrow> json \<Rightarrow> crc_fn \<Rightarrow> (bytes \<Rightarrow> page_source) \<Rightarrow> (nat \<Rightarrow> bool) \<Rightarrow> database \<Rightarrow> lsm_error option \<Rightarrow> database \<Rightarrow> bool" where
  "compaction_ended cx j crc backend keep db e db' \<longleftrightarrow>
     compaction_settled cx j crc backend keep db db'
     \<or> (\<exists>R'. same_reads keep (db_rows cx db) R' \<and> unsettled cx j crc backend (db_rows cx db) R' e db')"

lemma protected_set_keeps:
  assumes "registry_sequences (db_transaction_snapshots db) = Inr pinned"
  shows "protects (set (protected_set protected pinned (man_durable_sequence (db_manifest db)))) all (man_durable_sequence (db_manifest db))
    = compaction_keeps db protected all"
  using assms by (auto simp: fun_eq_iff protects_def compaction_keeps_def protected_set_def registry_sequences_def rbind_Inr) force

lemma db_inv_rows:
  assumes "db_inv cx j crc backend db"
  shows "e \<in> mt_rows (db_table db) \<Longrightarrow> man_durable_sequence (db_manifest db) < vv_sequence (snd e)"
    and "e \<in> segments_rows cx (db_segments db) \<Longrightarrow> vv_sequence (snd e) \<le> man_durable_sequence (db_manifest db)"
proof -
  obtain bs where "log_ok crc bs db" using assms unfolding db_inv_def by blast
  then have d: "man_durable_sequence (db_manifest db) < u64_max" and chain: "chain (man_durable_sequence (db_manifest db) + 1) bs"
    and r: "replayed (man_durable_sequence (db_manifest db)) bs (db_table db)" by (auto simp: log_ok_def)
  from replayed_inv [OF r chain d] show "e \<in> mt_rows (db_table db) \<Longrightarrow> man_durable_sequence (db_manifest db) < vv_sequence (snd e)"
    by blast
  show "e \<in> segments_rows cx (db_segments db) \<Longrightarrow> vv_sequence (snd e) \<le> man_durable_sequence (db_manifest db)"
    using assms by (auto simp: db_inv_def segments_ok_def)
qed

lemma rows_after_reads:
  assumes inv: "db_inv cx j crc backend db" and sel: "in_bounds db sel" and durable: "man_durable_sequence (db_manifest db) \<in> protected"
    and C: "segments_rows cx segs = compacts protected all (shadows_unselected db sel) (segments_rows cx (selected_segments db sel))"
  shows "same_reads (protects protected all (man_durable_sequence (db_manifest db))) (db_rows cx db) (rows_after cx db sel segs)"
proof -
  let ?M = "mt_rows (db_table db)" and ?U = "segments_rows cx (unselected sel (db_segments db))"
  let ?S = "segments_rows cx (selected_segments db sel)"
  have rows: "db_rows cx db = ?M \<union> (?U \<union> ?S)" by (simp add: db_rows_def segments_rows_split [OF sel])
  have "rows_unique (?M \<union> (?U \<union> ?S))" using inv by (simp add: db_inv_def reads_ok_def rows)
  moreover have "\<forall>e \<in> ?S. vv_sequence (snd e) \<le> man_durable_sequence (db_manifest db)"
    using db_inv_rows(2) [OF inv] segments_rows_split [OF sel, of cx] by blast
  moreover have "\<forall>e \<in> ?U. shadows_unselected db sel (fst e)" using unselected_shadows inv by (auto simp: db_inv_def reads_ok_def)
  ultimately show ?thesis
    using compacts_reads [OF _ _ _ durable, of ?M ?U ?S] db_inv_rows(1) [OF inv]
    by (simp add: rows rows_after_def segments_rows_append C)
qed

lemma staged_settled:
  assumes inv: "db_inv cx j crc backend db" and files: "more_files (db_images cx db) (db\<lparr>db_reclamation_pending := True\<rparr>) db'"
  shows "db_inv cx j crc backend db'" and "db_rows cx db' = db_rows cx db" and "compaction_settled cx j crc backend keep db db'"
proof -
  obtain files where db': "db' = db\<lparr>db_reclamation_pending := True, db_segment_files := files\<rparr>"
    and le: "db_segment_files db \<subseteq>\<^sub>m files" "ran files \<subseteq> db_images cx db"
    using files by (auto simp: more_files_def)
  have "store_ok cx j db'" using inv by (simp add: db_inv_def store_ok_def db')
  then show inv': "db_inv cx j crc backend db'" and rows: "db_rows cx db' = db_rows cx db"
    using db_inv_similar [OF inv, of db'] le by (simp_all add: db')
  show "compaction_settled cx j crc backend keep db db'"
    using inv' le(2) unfolding compaction_settled_def rows by (simp add: same_reads_refl same_log_def db')
qed

lemma merged_commit_ends:
  assumes ok: "codec_ok cx" "json_ok j" and inv: "db_inv cx j crc backend db" and sel: "in_bounds db (cc_indices c)"
    and files: "more_files (db_images cx db) (db\<lparr>db_reclamation_pending := True\<rparr>) db2"
    and durable: "man_durable_sequence (db_manifest db) \<in> protected"
    and keep: "keep = protects protected all (man_durable_sequence (db_manifest db))"
    and C: "segments_rows cx (cm_segments merge)
      = compacts protected all (shadows_unselected db (cc_indices c)) (segments_rows cx (selected_segments db (cc_indices c)))"
    and segs: "\<forall>seg \<in> set (cm_segments merge). seg_inv cx seg \<and> seg_stored cx backend (db_segment_files db2) seg"
  shows "ends (sbind (compaction_commit cx j io at failure c merge k) (\<lambda>next. sret (f next))) db2
    (\<lambda>_. compaction_settled cx j crc backend keep db) (compaction_ended cx j crc backend keep db)"
proof -
  note staged = staged_settled [OF inv files]
  have db2: "db_segments db2 = db_segments db" "db_manifest db2 = db_manifest db" "same_log db db2"
    "ran (db_segment_files db2) \<subseteq> db_images cx db"
    using files by (auto simp: more_files_def same_log_def)
  have shadows: "shadows_unselected db2 = shadows_unselected db" by (simp add: fun_eq_iff shadows_unselected_def db2)
  have selected: "selected_segments db2 = selected_segments db" by (simp add: fun_eq_iff selected_segments_def db2)
  have ready: "compaction_ready cx backend db2 (cc_indices c) (cm_segments merge)"
    using sel segs compacts_subset unfolding compaction_ready_def selected C by (auto simp: db2)
  note sub = rows_after_subset(2) [OF ready]
  let ?R' = "rows_after cx db2 (cc_indices c) (cm_segments merge)"
  have reads: "same_reads keep (db_rows cx db) ?R'"
    using rows_after_reads [OF staged(1), of "cc_indices c" protected "cm_segments merge" all] sel durable C
    by (simp add: db2 shadows selected staged(2) keep)
  have settled: "compaction_settled cx j crc backend keep db db'"
    if "db_inv cx j crc backend db'" "db_rows cx db' = db_rows cx db \<or> db_rows cx db' = ?R'" "same_log db2 db'"
      "db_segment_files db' = db_segment_files db2" for db'
    using that reads sub same_log_trans [OF db2(3) that(3)] db2(4)
    unfolding compaction_settled_def staged(2) by (auto simp: same_reads_refl)
  show ?thesis
    by (rule ends_bind [OF ends_weaken [OF compaction_commit_ends [OF ok staged(1) ready refl]]], assumption)
      (use settled reads in \<open>auto simp: commit_ended_def compaction_ended_def staged(2) intro: ends_ret\<close>)
qed

lemma compact_candidate_ends:
  assumes ok: "codec_ok cx" "json_ok j" "backend_ok backend" and inv: "db_inv cx j crc backend db" and digests: "digests_ok cx db"
    and sel: "in_bounds db (cc_indices c)"
  shows "ends (compact_candidate cx j backend io protected at failure all c k) db
    (\<lambda>_. compaction_settled cx j crc backend (compaction_keeps db protected all) db)
    (compaction_ended cx j crc backend (compaction_keeps db protected all) db)"
    (is "ends _ _ (\<lambda>_. ?P) ?E")
proof -
  let ?d = "man_durable_sequence (db_manifest db)" and ?A = "db_images cx db" and ?db1 = "db\<lparr>db_reclamation_pending := True\<rparr>"
  have A: "distinct_digests cx ?A" "db_images cx ?db1 \<subseteq> ?A" using digests by (auto simp: digests_ok_def db_images_def db_rows_def)
  have same: "?E e db" for e using inv by (auto simp: compaction_ended_def compaction_settled_def same_reads_refl same_log_def db_images_def)
  have d: "?d \<le> u64_max" using inv by (auto simp: db_inv_def log_ok_def)
  have segs: "\<forall>seg \<in> set (db_segments ?db1). seg_inv cx seg" using inv by (simp add: db_inv_def reads_ok_def)
  have pending: "shadows_unselected ?db1 = shadows_unselected db" "selected_segments ?db1 = selected_segments db"
    by (simp_all add: fun_eq_iff shadows_unselected_def selected_segments_def)
  obtain admitted k1 where admit: "admit_compaction_input db (cmp_clock io) c k = (admitted, k1)" by fastforce
  show ?thesis
    unfolding compact_candidate_def
    apply (rule ends_read)
    unfolding admit Let_def prod.case
    apply (rule ends_lift_bind, rule same)
    apply (rule ends_lift_bind, rule same)
    apply (rule ends_modify_bind)
    subgoal premises steps for input_bytes pinned
    proof -
      let ?protected = "protected_set protected pinned ?d"
      have merged: "ends (merge_compaction_candidate cx backend io c ?d ?protected all k1) ?db1
        (\<lambda>(merge, _) db'. more_files ?A ?db1 db'
           \<and> segments_rows cx (cm_segments merge)
               = compacts (set ?protected) all (shadows_unselected ?db1 (cc_indices c)) (segments_rows cx (selected_segments ?db1 (cc_indices c)))
           \<and> (\<forall>seg \<in> set (cm_segments merge). seg_inv cx seg \<and> seg_stored cx backend (db_segment_files db') seg)) ?E"
        by (rule runs_ends [OF merge_compaction_candidate_runs [OF ok(1,3) A d segs]])
          (use sel staged_settled(3) [OF inv] in \<open>simp_all add: compaction_ended_def\<close>)
      show ?thesis
        apply (rule ends_bind [OF merged])
        unfolding case_prod_unfold
        apply (rule merged_commit_ends [OF ok(1,2) inv sel _ _ protected_set_keeps [OF steps(2), symmetric]])
           apply (auto simp: protected_set_def pending)
        done
    qed
    done
qed

lemma compact_segments_ends:
  assumes ok: "codec_ok cx" "json_ok j" "backend_ok backend" and inv: "db_inv cx j crc backend db" and digests: "digests_ok cx db"
  shows "ends (compact_segments_inner cx j backend io protected at failure force all) db
    (\<lambda>_. compaction_settled cx j crc backend (compaction_keeps db protected all) db)
    (compaction_ended cx j crc backend (compaction_keeps db protected all) db)"
    (is "ends _ _ (\<lambda>_. ?P) ?E")
proof -
  have same: "?P db" "?E e db" for e using inv by (auto simp: compaction_ended_def compaction_settled_def same_reads_refl same_log_def db_images_def)
  show ?thesis
    unfolding compact_segments_inner_def
    apply (rule ends_read)
    apply (rule ends_lift_bind, rule same)
    apply (rule ends_lift_bind, rule same)
    subgoal premises steps for _ selection
      using steps(2) compact_candidate_ends [OF ok inv digests] select_levels_bounds same(1)
      by (cases selection; cases "fst selection") (auto simp: select_compaction_candidate_def intro!: ends_ret)
    done
qed

end
