(* ===== verification/Database_Reclaim_Spec.thy ===== *)
theory Database_Reclaim_Spec
  imports Database_Reclaim Database_Compaction_Spec
begin

text \<open>
  Reclamation removes no file that recovery, a checkpoint or an active read view needs: the retained
  set is closed under the manifests it names, and a removed name is never the name of a retained
  object. So every outcome of a cycle, also an interrupted one, keeps the invariant of the database.
\<close>

section \<open>Names\<close>

lemma path_stem_append:
  assumes "s \<noteq> []" and "CHR ''.'' \<notin> set e"
  shows "path_stem (s @ CHR ''.'' # e) = s"
proof -
  have "dropWhile (\<lambda>c. c \<noteq> CHR ''.'') (rev e @ CHR ''.'' # rev s) = CHR ''.'' # rev s"
    using assms(2) by (subst dropWhile_append2) auto
  then show ?thesis using assms(1) by (simp add: path_stem_def)
qed

lemma path_extension_hidden:
  assumes "CHR ''.'' \<notin> set e"
  shows "path_extension (CHR ''.'' # e) = None"
proof -
  have "dropWhile (\<lambda>c. c \<noteq> CHR ''.'') (rev e @ [CHR ''.'']) = [CHR ''.'']"
    using assms by (subst dropWhile_append2) auto
  then show ?thesis by (simp add: path_extension_def)
qed

lemma json_name_stem: "path_extension (json_name s) = Some ext \<Longrightarrow> path_stem (json_name s) = s"
  using path_stem_append [of s "''json''"] path_extension_hidden [of "''json''"] by (cases "s = []") (auto simp: json_name_def)

lemma segment_name_stem: "path_extension (segment_name s) = Some ext \<Longrightarrow> path_stem (segment_name s) = s"
  using path_stem_append [of s "''seg''"] path_extension_hidden [of "''seg''"] by (cases "s = []") (auto simp: segment_name_def)

section \<open>The retained set\<close>

definition grows :: "retained_set \<Rightarrow> retained_set \<Rightarrow> bool" where
  "grows rs rs' \<longleftrightarrow> dom (map_of (rs_manifests rs)) \<subseteq> dom (map_of (rs_manifests rs'))
     \<and> dom (map_of (rs_segments rs)) \<subseteq> dom (map_of (rs_segments rs')) \<and> dom (map_of (rs_wals rs)) \<subseteq> dom (map_of (rs_wals rs'))"

lemma grows_refl: "grows rs rs"
  by (simp add: grows_def)

lemma grows_trans: "grows rs rs' \<Longrightarrow> grows rs' rs'' \<Longrightarrow> grows rs rs''"
  unfolding grows_def by blast

abbreviation holds_segment :: "retained_set \<Rightarrow> segment_descriptor \<Rightarrow> bool" where
  "holds_segment rs d \<equiv> sd_id d \<in> dom (map_of (rs_segments rs))"

definition retains :: "retained_set \<Rightarrow> manifest \<Rightarrow> bool" where
  "retains rs m \<longleftrightarrow> man_digest m \<in> dom (map_of (rs_manifests rs))
     \<and> wal_name (man_wal_start_sequence m) \<in> dom (map_of (rs_wals rs)) \<and> (\<forall>d \<in> set (man_segments m). holds_segment rs d)"

lemma retains_grows: "retains rs m \<Longrightarrow> grows rs rs' \<Longrightarrow> retains rs' m"
  unfolding retains_def grows_def by blast

definition retained_closed :: "codec \<Rightarrow> json \<Rightarrow> root_files \<Rightarrow> retained_set \<Rightarrow> bool" where
  "retained_closed cx j root rs \<longleftrightarrow>
     (\<forall>d \<in> dom (map_of (rs_manifests rs)). \<exists>m. store_load cx j root d = Inr m \<and> retains rs m)"

lemma retained_closedD:
  assumes "retained_closed cx j root rs" and "map_of (rs_manifests rs) d = Some u"
  obtains m where "store_load cx j root d = Inr m" and "retains rs m"
proof -
  have "d \<in> dom (map_of (rs_manifests rs))" using assms(2) by blast
  then show ?thesis using assms(1) that unfolding retained_closed_def by blast
qed

lemma try_fold_covers:
  assumes run: "try_fold f s xs = Inr s'"
    and step: "\<And>t x t'. x \<in> set xs \<Longrightarrow> I t \<Longrightarrow> f t x = Inr t' \<Longrightarrow> I t' \<and> grows (r t) (r t') \<and> Q x (r t')"
    and mono: "\<And>x rs rs'. Q x rs \<Longrightarrow> grows rs rs' \<Longrightarrow> Q x rs'" and start: "I s"
  shows "I s' \<and> grows (r s) (r s') \<and> (\<forall>x \<in> set xs. Q x (r s'))"
proof (rule try_fold_prefix [OF run, where P = "\<lambda>ys t. I t \<and> grows (r s) (r t) \<and> (\<forall>x \<in> set ys. Q x (r t))"])
  show "I s \<and> grows (r s) (r s) \<and> (\<forall>x \<in> set []. Q x (r s))" by (simp add: start grows_refl)
  fix ys x t t'
  assume "I t \<and> grows (r s) (r t) \<and> (\<forall>x \<in> set ys. Q x (r t))" "x \<in> set xs" "f t x = Inr t'"
  then show "I t' \<and> grows (r s) (r t') \<and> (\<forall>x \<in> set (ys @ [x]). Q x (r t'))"
    using step [of x t t'] mono grows_trans [of "r s" "r t" "r t'"] by auto
qed

lemma retain_segment_id_spec:
  "retain_segment_id message d rs = Inr rs' \<Longrightarrow> grows rs rs' \<and> holds_segment rs' d
     \<and> rs_manifests rs' = rs_manifests rs \<and> rs_wals rs' = rs_wals rs"
  by (auto simp: retain_segment_id_def rbind_Inr grows_def map_of_bt_insert)

lemma holds_segment_grows: "holds_segment rs d \<Longrightarrow> grows rs rs' \<Longrightarrow> holds_segment rs' d"
  unfolding grows_def by blast

lemma retain_manifest_segment_step:
  assumes "retain_manifest_segment clock t d = Inr t'"
  shows "grows (fst t) (fst t') \<and> holds_segment (fst t') d \<and> rs_manifests (fst t') = rs_manifests (fst t) \<and> rs_wals (fst t') = rs_wals (fst t)"
proof -
  obtain message where "retain_segment_id message d (fst t) = Inr (fst t')"
    using assms by (cases t) (auto simp: retain_manifest_segment_def rbind_Inr)
  from retain_segment_id_spec [OF this] show ?thesis .
qed

lemma retain_manifest_segments_spec:
  assumes "try_fold (retain_manifest_segment clock) (rs, b) ds = Inr (rs', b')"
  shows "grows rs rs' \<and> (\<forall>d \<in> set ds. holds_segment rs' d) \<and> rs_manifests rs' = rs_manifests rs \<and> rs_wals rs' = rs_wals rs"
proof -
  let ?I = "\<lambda>t. rs_manifests (fst t) = rs_manifests rs \<and> rs_wals (fst t) = rs_wals rs"
  have "?I (rs', b') \<and> grows (fst (rs, b)) (fst (rs', b')) \<and> (\<forall>d \<in> set ds. holds_segment (fst (rs', b')) d)"
  proof (rule try_fold_covers [OF assms, where I = ?I and r = fst and Q = "\<lambda>d rs. holds_segment rs d"])
    fix t d t'
    assume "?I t" and "retain_manifest_segment clock t d = Inr t'"
    from retain_manifest_segment_step [OF this(2)] this(1) show "?I t' \<and> grows (fst t) (fst t') \<and> holds_segment (fst t') d" by simp
  next
    fix d rs rs'
    assume "holds_segment rs d" "grows rs rs'"
    then show "holds_segment rs' d" by (rule holds_segment_grows)
  qed simp
  then show ?thesis by simp
qed

lemma retain_manifest_spec:
  assumes run: "retain_manifest cx j clock m (rs, b) = Inr (rs', b')" and load: "store_load cx j root (man_digest m) = Inr m"
    and closed: "retained_closed cx j root rs"
  shows "retained_closed cx j root rs' \<and> grows rs rs' \<and> retains rs' m"
proof (cases "map_of (rs_manifests rs) (man_digest m)")
  case (Some u)
  then have "rs' = rs" using run by (auto simp: retain_manifest_def rbind_Inr)
  moreover have "retains rs m" using retained_closedD [OF closed Some] load by (metis sum.inject(2))
  ultimately show ?thesis using closed by (simp add: grows_refl)
next
  case None
  let ?rs = "rs\<lparr>rs_manifests := bt_insert (man_digest m) () (rs_manifests rs),
    rs_wals := bt_insert (wal_name (man_wal_start_sequence m)) () (rs_wals rs)\<rparr>"
  obtain b1 where "try_fold (retain_manifest_segment clock) (?rs, b1) (man_segments m) = Inr (rs', b')"
    using run None by (auto simp: retain_manifest_def rbind_Inr)
  note segs = retain_manifest_segments_spec [OF this]
  have grows: "grows rs rs'" by (rule grows_trans [OF _ conjunct1 [OF segs]]) (auto simp: grows_def map_of_bt_insert)
  have "retains rs' m" using segs by (auto simp: retains_def map_of_bt_insert)
  moreover have "retained_closed cx j root rs'"
    unfolding retained_closed_def
  proof
    fix d
    assume "d \<in> dom (map_of (rs_manifests rs'))"
    then consider "d = man_digest m" | "d \<in> dom (map_of (rs_manifests rs))" using segs by (auto simp: map_of_bt_insert split: if_splits)
    then show "\<exists>m. store_load cx j root d = Inr m \<and> retains rs' m"
      using load \<open>retains rs' m\<close> closed retains_grows [OF _ grows] by cases (auto simp: retained_closed_def)
  qed
  ultimately show ?thesis using grows by simp
qed

lemma read_reclamation_content: "read_reclamation clock (RegularFile bs) b = Inr (bytes, b') \<Longrightarrow> bytes = bs"
  by (auto simp: read_reclamation_def read_metadata_def entry_file_def reclamation_tick_def Let_def rbind_Inr fail_if_Inr)

lemma load_reclamation: "load_using cx j (read_reclamation clock) root d b = Inr (m, b') \<Longrightarrow> store_load cx j root d = Inr m"
  by (auto simp: load_using_def store_load_Inr rbind_Inr fail_if_Inr dest!: read_reclamation_content split: option.splits dir_entry.splits)

lemma retain_checkpoint_spec:
  assumes run: "retain_checkpoint cx j clock root (rs, b) c = Inr (rs', b')" and closed: "retained_closed cx j root rs"
  shows "retained_closed cx j root rs' \<and> grows rs rs' \<and> (\<exists>m. store_load cx j root (ck_manifest c) = Inr m \<and> retains rs' m)"
proof (cases "map_of (rs_manifests rs) (ck_manifest c)")
  case (Some u)
  then have "rs' = rs" using run by (simp add: retain_checkpoint_def)
  moreover obtain m where "store_load cx j root (ck_manifest c) = Inr m" "retains rs m" by (rule retained_closedD [OF closed Some])
  ultimately show ?thesis using closed grows_refl by blast
next
  case None
  then obtain m b1 where "load_using cx j (read_reclamation clock) root (ck_manifest c) b = Inr (m, b1)"
    and retain: "retain_manifest cx j clock m (rs, b1) = Inr (rs', b')"
    using run by (auto simp: retain_checkpoint_def rbind_Inr)
  from load_reclamation [OF this(1)] have load: "store_load cx j root (ck_manifest c) = Inr m" .
  then have "man_digest m = ck_manifest c" by (auto simp: store_load_Inr)
  with retain_manifest_spec [OF retain _ closed] load show ?thesis by auto
qed

text \<open>The manifests that checkpoints on disk pin.\<close>

definition pinned_manifest :: "codec \<Rightarrow> json \<Rightarrow> root_files \<Rightarrow> manifest \<Rightarrow> bool" where
  "pinned_manifest cx j root m \<longleftrightarrow> (\<exists>name bs c. (name, RegularFile bs) \<in> set (rf_checkpoints root)
     \<and> path_extension name = Some ''json'' \<and> json_read_checkpoint j bs = Inr c \<and> store_load cx j root (ck_manifest c) = Inr m)"

lemma checkpoint_entries_all:
  "checkpoint_entries clock limit found es b = Inr (out, b') \<Longrightarrow> out = found @ es"
  by (induction clock limit found es b rule: checkpoint_entries.induct) (auto simp: rbind_Inr)

lemma read_checkpoints_all:
  assumes "try_fold (read_checkpoint cx j clock root) (found, b) es = Inr (out, b')"
    and "(name, RegularFile bs) \<in> set es" and "path_extension name = Some ''json''" and "json_read_checkpoint j bs = Inr c"
  shows "c \<in> set out"
  using assms(1,2)
proof (induction es arbitrary: found b)
  case (Cons e es)
  obtain found1 b1 where step: "read_checkpoint cx j clock root (found, b) e = Inr (found1, b1)"
    and rest: "try_fold (read_checkpoint cx j clock root) (found1, b1) es = Inr (out, b')"
    using Cons.prems(1) by (auto simp: rbind_Inr)
  have keep: "set found1 \<subseteq> set out"
    using try_fold_invariant [OF rest, of "\<lambda>t. set found1 \<subseteq> set (fst t)"]
    by (fastforce simp: read_checkpoint_def rbind_Inr split: if_splits)
  show ?case
  proof (cases "e = (name, RegularFile bs)")
    case True
    then have "c \<in> set found1"
      using step assms(3,4) by (auto simp: read_checkpoint_def rbind_Inr dest!: read_reclamation_content)
    then show ?thesis using keep by blast
  next
    case False
    with Cons.prems(2) Cons.IH [OF rest] show ?thesis by auto
  qed
qed simp

lemma checkpoints_inner_all:
  assumes "checkpoints_inner cx j clock store b = Inr (cs, b')" and "(name, RegularFile bs) \<in> set (rf_checkpoints (st_root store))"
    and "path_extension name = Some ''json''" and "json_read_checkpoint j bs = Inr c"
  shows "c \<in> set cs"
proof -
  obtain b1 out where "try_fold (read_checkpoint cx j clock (st_root store)) ([], b1) (sort_key fst (rf_checkpoints (st_root store))) = Inr (out, b')"
    and cs: "cs = sort_key ck_name out"
    using assms(1) by (auto simp: checkpoints_inner_def rbind_Inr dest!: checkpoint_entries_all)
  from read_checkpoints_all [OF this(1) _ assms(3,4)] assms(2) cs show ?thesis by simp
qed

definition rooted :: "codec \<Rightarrow> json \<Rightarrow> segment_descriptor list option \<Rightarrow> database \<Rightarrow> retained_set \<Rightarrow> bool" where
  "rooted cx j views db rs \<longleftrightarrow>
     retained_closed cx j (st_root (db_manifests db)) rs \<and> retains rs (db_manifest db)
     \<and> (\<forall>ds. views = Some ds \<longrightarrow> (\<forall>d \<in> set ds. holds_segment rs d))
     \<and> (\<forall>m. pinned_manifest cx j (st_root (db_manifests db)) m \<longrightarrow> retains rs m)"

lemma retain_view_step:
  assumes "retain_view clock t d = Inr t'"
  shows "grows (fst t) (fst t') \<and> holds_segment (fst t') d \<and> rs_manifests (fst t') = rs_manifests (fst t)"
proof -
  obtain message where "retain_segment_id message d (fst t) = Inr (fst t')"
    using assms by (cases t) (auto simp: retain_view_def rbind_Inr)
  from retain_segment_id_spec [OF this] show ?thesis by simp
qed

lemma retained_closed_grows:
  "retained_closed cx j root rs \<Longrightarrow> grows rs rs' \<Longrightarrow> rs_manifests rs' = rs_manifests rs \<Longrightarrow> retained_closed cx j root rs'"
  using retains_grows by (fastforce simp: retained_closed_def)

lemma visit_segments_spec:
  assumes run: "visit_segments views (retain_view clock) (rs, b) = Inr (rs', b')" and closed: "retained_closed cx j root rs"
  shows "retained_closed cx j root rs' \<and> grows rs rs' \<and> (\<forall>ds. views = Some ds \<longrightarrow> (\<forall>d \<in> set ds. holds_segment rs' d))"
proof -
  obtain ds where views: "views = Some ds" and fold: "try_fold (retain_view clock) (rs, b) ds = Inr (rs', b')"
    using run by (auto simp: visit_segments_def split: option.splits)
  let ?I = "\<lambda>t. retained_closed cx j root (fst t)"
  have "?I (rs', b') \<and> grows (fst (rs, b)) (fst (rs', b')) \<and> (\<forall>d \<in> set ds. holds_segment (fst (rs', b')) d)"
  proof (rule try_fold_covers [OF fold, where I = ?I and r = fst and Q = "\<lambda>d rs. holds_segment rs d"])
    fix t d t'
    assume "?I t" and "retain_view clock t d = Inr t'"
    with retain_view_step [OF this(2)] show "?I t' \<and> grows (fst t) (fst t') \<and> holds_segment (fst t') d"
      using retained_closed_grows by blast
  next
    fix d rs rs'
    assume "holds_segment rs d" "grows rs rs'"
    then show "holds_segment rs' d" by (rule holds_segment_grows)
  qed (simp add: closed)
  then show ?thesis by (simp add: views)
qed

lemma retain_checkpoints_spec:
  assumes fold: "try_fold (retain_checkpoint cx j clock root) (rs, b) cs = Inr (rs', b')" and closed: "retained_closed cx j root rs"
  shows "retained_closed cx j root rs' \<and> grows rs rs' \<and> (\<forall>c \<in> set cs. \<exists>m. store_load cx j root (ck_manifest c) = Inr m \<and> retains rs' m)"
proof -
  let ?I = "\<lambda>t. retained_closed cx j root (fst t)" and ?Q = "\<lambda>c rs. \<exists>m. store_load cx j root (ck_manifest c) = Inr m \<and> retains rs m"
  have "?I (rs', b') \<and> grows (fst (rs, b)) (fst (rs', b')) \<and> (\<forall>c \<in> set cs. ?Q c (fst (rs', b')))"
  proof (rule try_fold_covers [OF fold, where I = ?I and r = fst and Q = ?Q])
    fix t c t'
    assume "?I t" and step: "retain_checkpoint cx j clock root t c = Inr t'"
    then show "?I t' \<and> grows (fst t) (fst t') \<and> ?Q c (fst t')"
      using retain_checkpoint_spec [of cx j clock root "fst t" "snd t" c "fst t'" "snd t'"] by simp
  next
    fix c rs rs'
    assume "?Q c rs" "grows rs rs'"
    then show "?Q c rs'" using retains_grows by blast
  qed (simp add: closed)
  then show ?thesis by simp
qed

lemma reclaim_roots_spec:
  assumes run: "reclaim_roots cx j clock views db = Inr (rs, b)" and inv: "db_inv cx j crc backend db"
  shows "rooted cx j views db rs"
proof -
  let ?root = "st_root (db_manifests db)" and ?start = "\<lparr>rs_manifests = [], rs_segments = [], rs_wals = []\<rparr>"
  obtain rs1 b1 rs2 b2 cs b3 where
    one: "retain_manifest cx j clock (db_manifest db) (?start, reclamation_new (opt_reclamation (db_options db))) = Inr (rs1, b1)"
    and two: "visit_segments views (retain_view clock) (rs1, b1) = Inr (rs2, b2)"
    and ckpts: "checkpoints_inner cx j clock (db_manifests db) b2 = Inr (cs, b3)"
    and three: "try_fold (retain_checkpoint cx j clock ?root) (rs2, b3) cs = Inr (rs, b)"
    using run by (auto simp: reclaim_roots_def rbind_Inr)
  obtain p where "store_current cx j ?root = Inr (Some (p, db_manifest db))" using inv by (auto simp: db_inv_def store_ok_def)
  then have "store_load cx j ?root (cp_manifest p) = Inr (db_manifest db)" by (auto simp: store_current_Inr)
  then have load: "store_load cx j ?root (man_digest (db_manifest db)) = Inr (db_manifest db)" by (auto simp: store_load_Inr)
  have r1: "retained_closed cx j ?root rs1 \<and> retains rs1 (db_manifest db)"
    using retain_manifest_spec [OF one load] by (simp add: retained_closed_def)
  have r2: "retained_closed cx j ?root rs2 \<and> grows rs1 rs2 \<and> (\<forall>ds. views = Some ds \<longrightarrow> (\<forall>d \<in> set ds. holds_segment rs2 d))"
    using visit_segments_spec [OF two] r1 by blast
  have r3: "retained_closed cx j ?root rs \<and> grows rs2 rs
      \<and> (\<forall>c \<in> set cs. \<exists>m. store_load cx j ?root (ck_manifest c) = Inr m \<and> retains rs m)"
    using retain_checkpoints_spec [OF three] r2 by blast
  have "retains rs m" if "pinned_manifest cx j ?root m" for m
    using that r3 checkpoints_inner_all [OF ckpts] unfolding pinned_manifest_def by fastforce
  moreover have "retains rs (db_manifest db)" using r1 r2 r3 retains_grows by blast
  moreover have "\<forall>ds. views = Some ds \<longrightarrow> (\<forall>d \<in> set ds. holds_segment rs d)"
    using r2 holds_segment_grows [OF _ conjunct1 [OF conjunct2 [OF r3]]] by blast
  ultimately show ?thesis using r3 by (simp add: rooted_def)
qed

section \<open>Removal\<close>

text \<open>What a removal of files leaves: the retained objects, and everything outside the three directories.\<close>

abbreviation db_manifest_files :: "database \<Rightarrow> directory" where
  "db_manifest_files db \<equiv> rf_manifests (st_root (db_manifests db))"

definition reclaimed_files :: "retained_set \<Rightarrow> database \<Rightarrow> directory \<Rightarrow> segment_files \<Rightarrow> (nat \<rightharpoonup> bytes) \<Rightarrow> bool" where
  "reclaimed_files rs db ms files wals \<longleftrightarrow>
     (\<forall>d \<in> dom (map_of (rs_manifests rs)). map_of ms (json_name d) = map_of (db_manifest_files db) (json_name d))
     \<and> (\<forall>i \<in> dom (map_of (rs_segments rs)). files i = db_segment_files db i) \<and> files \<subseteq>\<^sub>m db_segment_files db
     \<and> (\<forall>s. wal_name s \<in> dom (map_of (rs_wals rs)) \<longrightarrow> wals s = db_wals db s) \<and> wals \<subseteq>\<^sub>m db_wals db"

definition with_files :: "directory \<Rightarrow> segment_files \<Rightarrow> (nat \<rightharpoonup> bytes) \<Rightarrow> database \<Rightarrow> database" where
  "with_files ms files wals db =
     db\<lparr>db_manifests := (db_manifests db)\<lparr>st_root := (st_root (db_manifests db))\<lparr>rf_manifests := ms\<rparr>\<rparr>,
        db_segment_files := files, db_wals := wals\<rparr>"

definition reclaimed :: "retained_set \<Rightarrow> database \<Rightarrow> database \<Rightarrow> bool" where
  "reclaimed rs db db' \<longleftrightarrow> (\<exists>ms files wals. db' = with_files ms files wals db \<and> reclaimed_files rs db ms files wals)"

lemma reclaimed_refl: "reclaimed rs db db"
  unfolding reclaimed_def
  by (intro exI [of _ "db_manifest_files db"] exI [of _ "db_segment_files db"] exI [of _ "db_wals db"])
    (simp add: with_files_def reclaimed_files_def)

lemma map_of_bt_remove_other: "x \<noteq> k \<Longrightarrow> map_of (bt_remove k m) x = map_of m x"
  by (induction m) (auto simp: bt_remove_def)

lemma reclaimed_manifest:
  assumes "reclaimed rs db db'" and "\<And>d. d \<in> dom (map_of (rs_manifests rs)) \<Longrightarrow> json_name d \<noteq> name"
  shows "reclaimed rs db (delete_manifest name db')"
proof -
  obtain ms files wals where db': "db' = with_files ms files wals db" and kept: "reclaimed_files rs db ms files wals"
    using assms(1) by (auto simp: reclaimed_def)
  have "delete_manifest name db' = with_files (bt_remove name ms) files wals db" by (simp add: db' delete_manifest_def with_files_def)
  moreover have "reclaimed_files rs db (bt_remove name ms) files wals"
    using kept assms(2) by (simp add: reclaimed_files_def map_of_bt_remove_other)
  ultimately show ?thesis by (auto simp: reclaimed_def)
qed

lemma reclaimed_segment:
  assumes "reclaimed rs db db'" and "\<And>i. i \<in> dom (map_of (rs_segments rs)) \<Longrightarrow> segment_name i \<noteq> name"
  shows "reclaimed rs db (delete_segment name db')"
proof -
  obtain ms files wals where db': "db' = with_files ms files wals db" and kept: "reclaimed_files rs db ms files wals"
    using assms(1) by (auto simp: reclaimed_def)
  let ?files = "\<lambda>i. if segment_name i = name then None else files i"
  have "delete_segment name db' = with_files ms ?files wals db" by (simp add: db' delete_segment_def with_files_def cong: if_cong)
  moreover have "reclaimed_files rs db ms ?files wals"
    using kept assms(2) by (auto simp: reclaimed_files_def map_le_def dom_def)
  ultimately show ?thesis by (auto simp: reclaimed_def)
qed

lemma reclaimed_wal:
  assumes "reclaimed rs db db'" and "name \<notin> dom (map_of (rs_wals rs))"
  shows "reclaimed rs db (delete_wal name db')"
proof -
  obtain ms files wals where db': "db' = with_files ms files wals db" and kept: "reclaimed_files rs db ms files wals"
    using assms(1) by (auto simp: reclaimed_def)
  let ?wals = "\<lambda>s. if wal_name s = name then None else wals s"
  have "delete_wal name db' = with_files ms files ?wals db" by (simp add: db' delete_wal_def with_files_def cong: if_cong)
  moreover have "reclaimed_files rs db ms files ?wals"
    using kept assms(2) by (auto simp: reclaimed_files_def map_le_def dom_def)
  ultimately show ?thesis by (auto simp: reclaimed_def)
qed

lemma remove_loop_keeps:
  assumes "remove_loop clock remove delete cs removed b db = (r, removed', db')" and "P db"
    and "\<And>name len db. (name, len) \<in> set cs \<Longrightarrow> P db \<Longrightarrow> P (delete name db)"
  shows "P db'"
  using assms
proof (induction clock remove delete cs removed b db rule: remove_loop.induct)
  case (2 clock remove delete name bytes cs removed b db)
  then show ?case by (fastforce split: sum.splits prod.splits bool.splits option.splits)
qed simp

lemma remove_candidates_runs:
  assumes "P db" and "\<And>name len db. (name, len) \<in> set cs \<Longrightarrow> P db \<Longrightarrow> P (delete name db)"
  shows "runs (remove_candidates clock remove sync delete cs b) db (\<lambda>_. P) P"
proof -
  obtain r removed db' where run: "remove_loop clock remove delete cs [] b db = (r, removed, db')" by (metis prod.exhaust)
  have "P db'" by (rule remove_loop_keeps [where P = P, OF run assms])
  then show ?thesis by (auto simp: runs_def remove_candidates_def run split: option.splits sum.splits)
qed

definition unreachable_name :: "string \<Rightarrow> (string, 'v) btree \<Rightarrow> string \<Rightarrow> bool" where
  "unreachable_name extension retained name \<longleftrightarrow> path_extension name = Some extension
     \<and> (if extension = ''wal'' then name else path_stem name) \<notin> dom (map_of retained)"

lemma unreachable_entry_step:
  assumes "unreachable_entry clock extension retained t e = Inr t'"
  shows "fst t' = fst t \<or> (\<exists>name len. fst t' = fst t @ [(name, len)] \<and> unreachable_name extension retained name)"
proof -
  obtain cs b where t: "t = (cs, b)" by (cases t)
  obtain b1 name is_file len where "reclamation_entry clock b = Inr b1" and "io_answer e = Inr (name, is_file, len)"
    using assms by (auto simp: unreachable_entry_def t rbind_Inr)
  then have "t' = (if is_file \<and> unreachable_name extension retained name then (cs @ [(name, len)], b1) else (cs, b1))"
    using assms unfolding unreachable_name_def by (auto simp: unreachable_entry_def t domIff split: if_splits)
  then show ?thesis by (auto simp: t)
qed

lemma unreachable_files_spec:
  assumes "unreachable_files clock entries extension retained b = Inr (cs, b')" and "(name, len) \<in> set cs"
  shows "unreachable_name extension retained name"
proof -
  obtain es out where fold: "try_fold (unreachable_entry clock extension retained) ([], b) es = Inr (out, b')" and cs: "cs = sort_key fst out"
    using assms(1) by (auto simp: unreachable_files_def rbind_Inr)
  have "\<forall>c \<in> set (fst (out, b')). unreachable_name extension retained (fst c)"
    by (rule try_fold_invariant [OF fold]) (auto dest!: unreachable_entry_step)
  then show ?thesis using assms(2) by (auto simp: cs)
qed

lemma garbage_collect_runs:
  assumes inv: "db_inv cx j crc backend db"
  shows "runs (garbage_collect cx j io views) db
    (\<lambda>_ db'. \<exists>rs. rooted cx j views db rs \<and> reclaimed rs db db')
    (\<lambda>db'. db' = db \<or> (\<exists>rs. rooted cx j views db rs \<and> reclaimed rs db db'))"
  unfolding garbage_collect_def
proof (rule runs_read, rule runs_lift_bind, simp)
  fix plan
  assume ok: "reclaim_plan cx j io views db = Inr plan"
  obtain rs manifests segments wals b where plan: "plan = (rs, manifests, segments, wals, b)" by (cases plan)
  obtain b0 b1 b2 b3 b4 b5 where roots: "reclaim_roots cx j (gio_clock io) views db = Inr (rs, b0)"
    and m: "unreachable_files (gio_clock io) (gio_manifests io) ''json'' (rs_manifests rs) b1 = Inr (manifests, b2)"
    and s: "unreachable_files (gio_clock io) (gio_segments io) ''seg'' (rs_segments rs) b2 = Inr (segments, b3)"
    and w: "unreachable_files (gio_clock io) (gio_wals io) ''wal'' (rs_wals rs) b3 = Inr (wals, b4)"
    using ok by (auto simp: reclaim_plan_def plan rbind_Inr)
  note rooted = reclaim_roots_spec [OF roots inv]
  have m': "reclaimed rs db (delete_manifest name d)" if "(name, len) \<in> set manifests" "reclaimed rs db d" for name len d
    using unreachable_files_spec [OF m that(1)] json_name_stem by (intro reclaimed_manifest [OF that(2)]) (auto simp: unreachable_name_def)
  have s': "reclaimed rs db (delete_segment name d)" if "(name, len) \<in> set segments" "reclaimed rs db d" for name len d
    using unreachable_files_spec [OF s that(1)] segment_name_stem by (intro reclaimed_segment [OF that(2)]) (auto simp: unreachable_name_def)
  have w': "reclaimed rs db (delete_wal name d)" if "(name, len) \<in> set wals" "reclaimed rs db d" for name len d
    using unreachable_files_spec [OF w that(1)] by (intro reclaimed_wal [OF that(2)]) (simp add: unreachable_name_def)
  note step = remove_candidates_runs [where P = "reclaimed rs db"]
  have "runs (reclaim_remove io plan) db (\<lambda>_. reclaimed rs db) (reclaimed rs db)"
    unfolding reclaim_remove_def plan prod.case
    unfolding case_prod_unfold
    by (rule runs_bind [OF step], rule reclaimed_refl, erule m', assumption,
        rule runs_bind [OF step], assumption, erule s', assumption,
        rule runs_bind [OF step], assumption, erule w', assumption, rule runs_ret)
  then show "runs (reclaim_remove io plan) db
    (\<lambda>_ db'. \<exists>rs. rooted cx j views db rs \<and> reclaimed rs db db')
    (\<lambda>db'. db' = db \<or> (\<exists>rs. rooted cx j views db rs \<and> reclaimed rs db db'))"
    by (rule runs_weaken) (use rooted in auto)
qed

section \<open>The invariant\<close>

lemma reclaimed_inv:
  assumes inv: "db_inv cx j crc backend db" and rooted: "rooted cx j views db rs" and rec: "reclaimed rs db db'"
  shows "db_inv cx j crc backend db'" and "db_rows cx db' = db_rows cx db"
    and "pinned_manifest cx j (st_root (db_manifests db)) m \<Longrightarrow> store_load cx j (st_root (db_manifests db')) (man_digest m) = Inr m
      \<and> db_wals db' (man_wal_start_sequence m) = db_wals db (man_wal_start_sequence m)
      \<and> (\<forall>d \<in> set (man_segments m). db_segment_files db' (sd_id d) = db_segment_files db (sd_id d))"
proof -
  obtain ms files wals where db': "db' = with_files ms files wals db" and kept: "reclaimed_files rs db ms files wals"
    using rec by (auto simp: reclaimed_def)
  let ?root = "st_root (db_manifests db)" and ?root' = "st_root (db_manifests db')"
  have cur: "rf_current ?root' = rf_current ?root" by (simp add: db' with_files_def)
  have load: "store_load cx j ?root' (man_digest m) = Inr m" if "retains rs m" "store_load cx j ?root (man_digest m) = Inr m" for m
    using that kept by (auto simp: store_load_Inr retains_def reclaimed_files_def db' with_files_def)
  show rows: "db_rows cx db' = db_rows cx db" by (simp add: db_rows_def db' with_files_def)
  have current: "retains rs (db_manifest db)" using rooted by (simp add: rooted_def)
  have "store_ok cx j db'"
  proof -
    obtain p where p: "store_current cx j ?root = Inr (Some (p, db_manifest db))" using inv by (auto simp: db_inv_def store_ok_def)
    then have "store_load cx j ?root (cp_manifest p) = Inr (db_manifest db)" by (auto simp: store_current_Inr)
    then have d: "cp_manifest p = man_digest (db_manifest db)" by (auto simp: store_load_Inr)
    with p load [OF current] have "store_current cx j ?root' = Inr (Some (p, db_manifest db))" by (auto simp: store_current_Inr cur)
    then show ?thesis by (auto simp: store_ok_def db' with_files_def)
  qed
  moreover have "segments_ok cx backend db'"
  proof -
    have "seg_stored cx backend files seg" if "seg \<in> set (db_segments db)" for seg
    proof -
      have "sg_descriptor seg \<in> set (man_segments (db_manifest db))"
        using inv that by (intro mset_descriptors) (auto simp: db_inv_def segments_ok_def)
      then have "files (sd_id (sg_descriptor seg)) = db_segment_files db (sd_id (sg_descriptor seg))"
        using current kept by (auto simp: retains_def reclaimed_files_def)
      then show ?thesis using inv that by (auto simp: db_inv_def segments_ok_def seg_stored_def)
    qed
    then show ?thesis using inv by (simp add: db_inv_def segments_ok_def db' with_files_def)
  qed
  moreover have "reads_ok cx db'" "memory_ok db'"
    using inv by (simp_all add: db_inv_def reads_ok_def memory_ok_def db_rows_def db' with_files_def)
  moreover have "log_ok crc bs db' \<longleftrightarrow> log_ok crc bs db" for bs by (simp add: log_ok_def db' with_files_def)
  ultimately show "db_inv cx j crc backend db'" using inv by (simp add: db_inv_def) (simp add: db' with_files_def)
  assume pinned: "pinned_manifest cx j ?root m"
  then have r: "retains rs m" and "store_load cx j ?root (man_digest m) = Inr m"
    using rooted by (auto simp: rooted_def pinned_manifest_def store_load_Inr)
  from load [OF this] r kept show "store_load cx j ?root' (man_digest m) = Inr m
      \<and> db_wals db' (man_wal_start_sequence m) = db_wals db (man_wal_start_sequence m)
      \<and> (\<forall>d \<in> set (man_segments m). db_segment_files db' (sd_id d) = db_segment_files db (sd_id d))"
    by (auto simp: retains_def reclaimed_files_def db' with_files_def)
qed

end
