(* ===== verification/Database_Write_Spec.thy ===== *)
theory Database_Write_Spec
  imports Database_Write Database_Reclaim_Spec
begin

text \<open>
  What a write does to the rows of the database: the admission (reclamation, compaction, flush)
  changes no read that is kept, an acknowledged batch adds exactly its rows, and every other outcome
  leaves on disk the rows without the batch or the rows with all of it.
\<close>

section \<open>Admission keeps the reads\<close>

definition write_keeps :: "database \<Rightarrow> nat list option \<Rightarrow> nat \<Rightarrow> bool" where
  "write_keeps db protected r \<longleftrightarrow> (case protected of None \<Rightarrow> True | Some s \<Rightarrow> r \<in> set s)
     \<or> r \<in> fst ` set (reg_pins (db_transaction_snapshots db)) \<or> db_snapshot db \<le> r"

definition steady ::
  "codec \<Rightarrow> json \<Rightarrow> crc_fn \<Rightarrow> (bytes \<Rightarrow> page_source) \<Rightarrow> (nat \<Rightarrow> bool) \<Rightarrow> database \<Rightarrow> database \<Rightarrow> bool" where
  "steady cx j crc backend keep db db' \<longleftrightarrow>
     db_inv cx j crc backend db' \<and> same_reads keep (db_rows cx db) (db_rows cx db') \<and> db_rows cx db' \<subseteq> db_rows cx db
     \<and> ran (db_segment_files db') \<subseteq> db_images cx db \<and> wals_fit db' \<and> db_options db' = db_options db
     \<and> db_transaction_snapshots db' = db_transaction_snapshots db \<and> db_snapshot db' = db_snapshot db"

lemma steady_refl: "db_inv cx j crc backend db \<Longrightarrow> wals_fit db \<Longrightarrow> steady cx j crc backend keep db db"
  by (auto simp: steady_def same_reads_refl db_images_def)

lemma steady_images: "steady cx j crc backend keep db db' \<Longrightarrow> db_images cx db' \<subseteq> db_images cx db"
  unfolding steady_def db_images_def by auto

lemma steady_trans:
  assumes "steady cx j crc backend keep db db'" and "steady cx j crc backend keep db' db''"
  shows "steady cx j crc backend keep db db''"
  using assms steady_images [OF assms(1)] same_reads_trans unfolding steady_def by (metis subset_trans)

lemma steady_digests:
  assumes "steady cx j crc backend keep db db'" and "digests_ok cx db"
  shows "digests_ok cx db'"
  using assms(2) steady_images [OF assms(1)] by (auto simp: digests_ok_def distinct_digests_def)

lemma steady_keeps: "steady cx j crc backend keep db db' \<Longrightarrow> write_keeps db' protected = write_keeps db protected"
  by (simp add: steady_def write_keeps_def fun_eq_iff)

text \<open>The outcome of a failed admission: reads as before, and a disk that recovers to the same reads.\<close>

definition safe ::
  "codec \<Rightarrow> json \<Rightarrow> crc_fn \<Rightarrow> (bytes \<Rightarrow> page_source) \<Rightarrow> (nat \<Rightarrow> bool) \<Rightarrow> database \<Rightarrow> database \<Rightarrow> bool" where
  "safe cx j crc backend keep db db' \<longleftrightarrow>
     reads_ok cx db' \<and> same_reads keep (db_rows cx db) (db_rows cx db')
     \<and> (\<exists>R. rows_unique R \<and> same_reads keep (db_rows cx db) R \<and> recovers_rows cx j crc backend (disk_of db') R)"

lemma steady_safe: "steady cx j crc backend keep db db' \<Longrightarrow> safe cx j crc backend keep db db'"
  using db_inv_recovers [of cx j crc backend db'] unfolding steady_def safe_def by (auto simp: db_inv_def reads_ok_def)

lemma safe_trans:
  assumes "steady cx j crc backend keep db db'" and "safe cx j crc backend keep db' db''"
  shows "safe cx j crc backend keep db db''"
  using assms same_reads_trans unfolding steady_def safe_def by metis

lemma same_reads_mono: "same_reads keep R R' \<Longrightarrow> (\<And>r. keep' r \<Longrightarrow> keep r) \<Longrightarrow> same_reads keep' R R'"
  by (simp add: same_reads_def)

lemma keeps_rows_safe:
  assumes "keeps_rows cx j crc backend (db_rows cx db) db'"
  shows "safe cx j crc backend keep db db'"
  using assms unfolding keeps_rows_def safe_def by (auto simp: same_reads_refl reads_ok_def)

lemma durable_le_snapshot:
  assumes "db_inv cx j crc backend db"
  shows "man_durable_sequence (db_manifest db) \<le> db_snapshot db"
proof -
  obtain bs where "log_ok crc bs db" using assms unfolding db_inv_def by blast
  then have d: "man_durable_sequence (db_manifest db) < u64_max" and chain: "chain (man_durable_sequence (db_manifest db) + 1) bs"
    and r: "replayed (man_durable_sequence (db_manifest db)) bs (db_table db)" by (auto simp: log_ok_def)
  from replayed_inv [OF r chain d] next_after_ge [OF chain] show ?thesis by (simp add: db_snapshot_def)
qed

lemma write_keeps_compaction:
  assumes "db_inv cx j crc backend db" and "write_keeps db protected r"
  shows "compaction_keeps db (case protected of None \<Rightarrow> [] | Some s \<Rightarrow> s) (protected = None) r"
  using assms(2) durable_le_snapshot [OF assms(1)]
  by (auto simp: write_keeps_def compaction_keeps_def split: option.splits)

text \<open>Counters and the pending flag are no part of the invariant.\<close>

definition same_core :: "database \<Rightarrow> database \<Rightarrow> bool" where
  "same_core db db' \<longleftrightarrow> (\<exists>stats pending. db' = db\<lparr>db_maintenance_stats := stats, db_reclamation_pending := pending\<rparr>)"

lemma same_core_inv:
  assumes "same_core db db'"
  shows "db_inv cx j crc backend db' \<longleftrightarrow> db_inv cx j crc backend db" and "db_rows cx db' = db_rows cx db"
    and "disk_of db' = disk_of db" and "reads_ok cx db' \<longleftrightarrow> reads_ok cx db" and "db_images cx db' = db_images cx db"
proof -
  obtain stats pending where db': "db' = db\<lparr>db_maintenance_stats := stats, db_reclamation_pending := pending\<rparr>"
    using assms by (auto simp: same_core_def)
  show rows: "db_rows cx db' = db_rows cx db" by (simp add: db' db_rows_def)
  show reads: "reads_ok cx db' \<longleftrightarrow> reads_ok cx db" by (simp add: reads_ok_def rows) (simp add: db')
  show "disk_of db' = disk_of db" by (simp add: db' disk_of_def disk_wals_def)
  show "db_images cx db' = db_images cx db" by (simp add: db_images_def rows) (simp add: db')
  show "db_inv cx j crc backend db' \<longleftrightarrow> db_inv cx j crc backend db"
    unfolding db_inv_def reads by (simp add: db' segments_ok_def store_ok_def memory_ok_def log_ok_def)
qed

lemma same_core_steady:
  assumes "steady cx j crc backend keep db db'" and "same_core db' db''"
  shows "steady cx j crc backend keep db db''"
proof -
  have "db_segment_files db'' = db_segment_files db'" "db_options db'' = db_options db'" "db_snapshot db'' = db_snapshot db'"
    "db_transaction_snapshots db'' = db_transaction_snapshots db'" "wals_fit db'' = wals_fit db'"
    using assms(2) by (auto simp: same_core_def db_snapshot_def wals_fit_def disk_wals_def)
  then show ?thesis using assms(1) same_core_inv [OF assms(2)] unfolding steady_def by simp
qed

lemma same_core_safe: "safe cx j crc backend keep db db' \<Longrightarrow> same_core db' db'' \<Longrightarrow> safe cx j crc backend keep db db''"
  using same_core_inv [of db' db''] by (simp add: safe_def)

lemma same_core_stats: "same_core db (db_update_stats f db)"
  unfolding same_core_def by (intro exI [of _ "f (db_maintenance_stats db)"] exI [of _ "db_reclamation_pending db"]) simp

lemma same_core_pending: "same_core db (db\<lparr>db_reclamation_pending := b\<rparr>)"
  unfolding same_core_def by (intro exI [of _ "db_maintenance_stats db"] exI [of _ b]) simp

section \<open>Steps of the admission\<close>

lemma map_le_ran: "f \<subseteq>\<^sub>m g \<Longrightarrow> ran f \<subseteq> ran g"
  by (force simp: map_le_def ran_def dom_def)

lemma reclaimed_steady:
  assumes inv: "db_inv cx j crc backend db" and fit: "wals_fit db" and rooted: "rooted cx j views db rs" and rec: "reclaimed rs db db'"
  shows "steady cx j crc backend keep db db'"
proof -
  obtain ms files wals where db': "db' = with_files ms files wals db" and kept: "reclaimed_files rs db ms files wals"
    using rec by (auto simp: reclaimed_def)
  have le: "files \<subseteq>\<^sub>m db_segment_files db" "wals \<subseteq>\<^sub>m db_wals db" using kept by (auto simp: reclaimed_files_def)
  have "ran files \<subseteq> db_images cx db" using map_le_ran [OF le(1)] by (auto simp: db_images_def)
  moreover have "disk_wals db' \<subseteq>\<^sub>m disk_wals db"
    using le(2) by (auto simp: db' with_files_def disk_wals_def map_le_def)
  then have "wals_fit db'" using fit map_le_ran by (auto simp: wals_fit_def)
  ultimately show ?thesis
    using reclaimed_inv(1,2) [OF inv rooted rec]
    by (simp add: steady_def same_reads_refl) (simp add: db' with_files_def db_snapshot_def)
qed

lemma garbage_collect_steady:
  assumes inv: "db_inv cx j crc backend db" and fit: "wals_fit db"
  shows "runs (garbage_collect cx j io views) db (\<lambda>_. steady cx j crc backend keep db) (steady cx j crc backend keep db)"
  by (rule runs_weaken [OF garbage_collect_runs [OF inv]])
    (use reclaimed_steady [OF inv fit] steady_refl [OF inv fit] in blast)+

lemma reclaim_if_pending_steady:
  assumes inv: "db_inv cx j crc backend db" and fit: "wals_fit db"
  shows "runs (reclaim_if_pending cx j io views) db (\<lambda>_. steady cx j crc backend keep db) (steady cx j crc backend keep db)"
  unfolding reclaim_if_pending_def
  apply (rule runs_read)
  apply (cases "db_reclamation_pending db"; simp only: if_True if_False)
   apply (rule runs_bind [OF garbage_collect_steady [OF inv fit]])
  subgoal premises st for report db1
    apply (rule runs_modify_bind)
    using same_core_steady [OF st(2) same_core_pending, of "gcr_has_more report"]
    by (cases "gcr_has_more report") (simp_all add: runs_ret runs_lift)
  by (rule runs_ret) (rule steady_refl [OF inv fit])

lemma settled_steady:
  assumes "compaction_settled cx j crc backend keep db db'" and fit: "wals_fit db" and "\<And>r. keep' r \<Longrightarrow> keep r"
  shows "steady cx j crc backend keep' db db'"
proof -
  have "same_log db db'" using assms(1) by (simp add: compaction_settled_def)
  then have "disk_wals db' = disk_wals db" "db_snapshot db' = db_snapshot db" "db_options db' = db_options db"
    "db_transaction_snapshots db' = db_transaction_snapshots db"
    by (simp_all add: same_log_def disk_wals_def db_snapshot_def)
  then show ?thesis using assms same_reads_mono [of keep] by (simp add: steady_def compaction_settled_def wals_fit_def)
qed

lemma ended_safe:
  assumes "compaction_ended cx j crc backend keep db e db'" and fit: "wals_fit db" and sub: "\<And>r. keep' r \<Longrightarrow> keep r"
  shows "(\<nexists>i. e = Some (Io i)) \<Longrightarrow> steady cx j crc backend keep' db db'" and "safe cx j crc backend keep' db db'"
proof -
  show "steady cx j crc backend keep' db db'" if "\<nexists>i. e = Some (Io i)"
    using assms(1) that settled_steady [OF _ fit sub] by (auto simp: compaction_ended_def unsettled_def)
  show "safe cx j crc backend keep' db db'"
  proof (cases "compaction_settled cx j crc backend keep db db'")
    case True
    then show ?thesis by (intro steady_safe settled_steady [OF _ fit sub])
  next
    case False
    then obtain R where "same_reads keep (db_rows cx db) R" "unsettled cx j crc backend (db_rows cx db) R e db'"
      using assms(1) by (auto simp: compaction_ended_def)
    then show ?thesis using same_reads_mono [of keep _ R keep'] sub by (auto simp: safe_def unsettled_def same_reads_refl)
  qed
qed

lemma offer_write_compaction_runs:
  assumes ok: "codec_ok cx" "json_ok j" "backend_ok backend" and inv: "db_inv cx j crc backend db" and digests: "digests_ok cx db"
    and fit: "wals_fit db"
  shows "runs (offer_write_compaction cx j backend io protected) db
    (\<lambda>_. steady cx j crc backend (write_keeps db protected) db) (safe cx j crc backend (write_keeps db protected) db)"
proof -
  let ?keep = "write_keeps db protected" and ?k = "compaction_keeps db (case protected of None \<Rightarrow> [] | Some s \<Rightarrow> s) (protected = None)"
  note sub = write_keeps_compaction [OF inv, of protected]
  let ?E = "\<lambda>e db'. safe cx j crc backend ?keep db db' \<and> ((\<nexists>i. e = Some (Io i)) \<longrightarrow> steady cx j crc backend ?keep db db')"
  have compacted: "ends (compact_for_write cx j backend io protected) db (\<lambda>_. steady cx j crc backend ?keep db) ?E"
    unfolding compact_for_write_def
    apply (rule ends_read, rule ends_weaken [OF compact_segments_ends [OF ok inv digests]])
     apply (erule settled_steady [OF _ fit], erule sub)
    apply (intro conjI impI)
     apply (erule ended_safe(2) [OF _ fit], erule sub)
    apply (erule ended_safe(1) [OF _ fit], erule sub, assumption)
    done
  have stats: "steady cx j crc backend ?keep db (db_update_stats f d)" if "steady cx j crc backend ?keep db d" for f d
    by (rule same_core_steady [OF that same_core_stats])
  have stats_safe: "safe cx j crc backend ?keep db (db_update_stats f d)" if "safe cx j crc backend ?keep db d" for f d
    by (rule same_core_safe [OF that same_core_stats])
  have recorded: "ends (scatch (compact_for_write cx j backend io protected) record_automatic_compaction) db
      (\<lambda>_. steady cx j crc backend ?keep db) ?E"
  proof (rule ends_catch [OF compacted])
    show "ends (record_automatic_compaction (Inr x)) s' (\<lambda>_. steady cx j crc backend ?keep db) ?E"
      if "steady cx j crc backend ?keep db s'" for x s'
      using that stats by (cases x) (auto simp: record_automatic_compaction_def intro!: ends_modify_bind ends_ret)
    show "ends (record_automatic_compaction (Inl e)) s' (\<lambda>_. steady cx j crc backend ?keep db) ?E" if "?E (Some e) s'" for e s'
      using that stats stats_safe by (auto simp: record_automatic_compaction_def intro!: ends_modify_bind ends_lift)
  qed simp
  have "ends (offer_write_compaction cx j backend io protected) db
    (\<lambda>_. steady cx j crc backend ?keep db) (\<lambda>_. safe cx j crc backend ?keep db)"
    unfolding offer_write_compaction_def
    by (rule ends_catch [OF recorded]) (auto simp: optional_merge_denied_def intro!: ends_ret ends_lift split: lsm_error.splits if_splits)
  then show ?thesis by (simp only: ends_runs)
qed

lemma flush_for_write_runs:
  assumes ok: "codec_ok cx" "json_ok j" "backend_ok backend" and inv: "db_inv cx j crc backend db" and digests: "digests_ok cx db"
    and fit: "wals_fit db"
  shows "runs (flush_for_write cx j crc backend io protected offered) db
    (\<lambda>_. steady cx j crc backend (write_keeps db protected) db) (safe cx j crc backend (write_keeps db protected) db)"
proof -
  let ?keep = "write_keeps db protected"
  let ?db = "db_update_stats (\<lambda>st. st\<lparr>mst_write_stalls := saturating_add (mst_write_stalls st) 1\<rparr>) db"
  note core = same_core_stats [of db "\<lambda>st. st\<lparr>mst_write_stalls := saturating_add (mst_write_stalls st) 1\<rparr>"]
  have start: "steady cx j crc backend ?keep db ?db" by (rule same_core_steady [OF steady_refl [OF inv fit] core])
  then have inv': "db_inv cx j crc backend ?db" and fit': "wals_fit ?db" by (simp_all only: steady_def)
  have flushed: "runs (flush_memtable_inner cx j crc backend (wr_flush io) at None) ?db
      (\<lambda>_. steady cx j crc backend ?keep db) (safe cx j crc backend ?keep db)" for at
  proof (rule runs_weaken [OF flush_runs [OF ok inv' steady_digests [OF start digests] fit']])
    show "steady cx j crc backend ?keep db d" if "db_inv cx j crc backend d \<and> db_rows cx d = db_rows cx ?db \<and> flush_frame cx ?db d" for x d
    proof (rule steady_trans [OF start])
      show "steady cx j crc backend ?keep ?db d" using that by (auto simp: steady_def flush_frame_def same_reads_refl)
    qed
    show "safe cx j crc backend ?keep db d" if "keeps_rows cx j crc backend (db_rows cx ?db) d" for d
      by (rule safe_trans [OF start keeps_rows_safe [OF that]])
  qed
  have offer: "runs (offer_write_compaction cx j backend io' protected) d
      (\<lambda>_. steady cx j crc backend ?keep db) (safe cx j crc backend ?keep db)" if d: "steady cx j crc backend ?keep db d" for d io'
  proof -
    have "db_inv cx j crc backend d" "wals_fit d" using d by (simp_all only: steady_def)
    note offered = offer_write_compaction_runs [OF ok this(1) steady_digests [OF d digests] this(2), of io' protected,
      unfolded steady_keeps [OF d]]
    show ?thesis
      by (rule runs_weaken [OF offered]) (erule steady_trans [OF d], erule safe_trans [OF d])
  qed
  show ?thesis
    unfolding flush_for_write_def
    apply (rule runs_modify_bind, rule runs_read, rule runs_catch [OF flushed])
    subgoal for x d
      by (cases x) (auto intro!: runs_modify_bind runs_ret offer same_core_steady [OF _ same_core_stats])
    subgoal for e d
      by (auto intro!: runs_modify_bind runs_lift same_core_safe [OF _ same_core_stats])
    apply assumption
    done
qed

lemma prepare_write_runs:
  assumes ok: "codec_ok cx" "json_ok j" "backend_ok backend" and inv: "db_inv cx j crc backend db" and digests: "digests_ok cx db"
    and fit: "wals_fit db"
  shows "runs (prepare_write cx j crc backend io batch n charge protected) db
    (\<lambda>_ db'. steady cx j crc backend (write_keeps db protected) db db'
       \<and> (\<exists>c. charge_add (memtable_charge (db_table db')) charge = Inr c))
    (safe cx j crc backend (write_keeps db protected) db)"
proof -
  let ?keep = "write_keeps db protected"
  let ?S = "steady cx j crc backend ?keep db" and ?Q = "safe cx j crc backend ?keep db"
  have from_steady: "runs m d (\<lambda>_. ?S) ?Q"
    if d: "?S d" and m: "runs m d (\<lambda>_. steady cx j crc backend (write_keeps d protected) d)
        (safe cx j crc backend (write_keeps d protected) d)" for d and m :: "(database, unit) op"
    by (rule runs_weaken [OF m [unfolded steady_keeps [OF d]]]) (erule steady_trans [OF d], erule safe_trans [OF d])
  have parts: "db_inv cx j crc backend d" "digests_ok cx d" "wals_fit d" if "?S d" for d
    using that steady_digests [OF that digests] by (simp_all only: steady_def)
  have reclaim: "runs (reclaim_if_pending cx j gio views) d (\<lambda>_. ?S) ?Q" if d: "?S d" for d gio views
    by (rule from_steady [OF d], rule runs_weaken [OF reclaim_if_pending_steady [OF parts(1,3) [OF d]]]) (simp, erule steady_safe)
  have offer: "runs (if b then offer_write_compaction cx j backend cio protected else sret ()) d (\<lambda>_. ?S) ?Q" if d: "?S d" for b d cio
    by (cases b) (simp_all add: from_steady [OF d offer_write_compaction_runs [OF ok parts [OF d]]] runs_ret d)
  have flush: "runs (if b then flush_for_write cx j crc backend io protected b' else sret ()) d (\<lambda>_. ?S) ?Q" if d: "?S d" for b b' d
    by (cases b) (simp_all add: from_steady [OF d flush_for_write_runs [OF ok parts [OF d]]] runs_ret d)
  show ?thesis
    unfolding prepare_write_def Let_def
    apply (rule runs_bind [OF reclaim [OF steady_refl [OF inv fit]]])
    apply (rule runs_read, rule runs_bind, erule offer)
    apply (rule runs_read, rule runs_bind, erule flush)
    apply (rule runs_read, rule runs_lift_bind, erule steady_safe)
    apply (rule runs_bind, erule reclaim)
    apply (rule runs_read, rule runs_lift_bind, erule steady_safe)
    subgoal for _ _ _ _ _ _ _ d
      by (auto simp: rbind_Inr runs_def smodify_def sret_def intro: same_core_steady [OF _ same_core_stats])
    done
qed

section \<open>The log\<close>

definition next_frame :: "database \<Rightarrow> mutation list \<Rightarrow> bytes \<Rightarrow> wal_batch" where
  "next_frame db ops payload = \<lparr>wb_first_sequence = db_snapshot db + 1, wb_last_sequence = db_snapshot db + length ops, wb_payload = payload\<rparr>"

abbreviation write_rows :: "database \<Rightarrow> mutation list \<Rightarrow> rows" where
  "write_rows db ops \<equiv> set (batch_rows (db_snapshot db + 1) ops)"

text \<open>The log file of the database, or that file and a part of one further frame.\<close>

definition log_extended :: "crc_fn \<Rightarrow> database \<Rightarrow> wal_batch \<Rightarrow> wal_writer \<Rightarrow> bool" where
  "log_extended crc db b w \<longleftrightarrow> wal_file w = wal_file (db_wal db)
     \<or> (\<exists>bs ws. log_ok crc bs db \<and> chain (man_wal_start_sequence (db_manifest db)) (bs @ [b])
          \<and> prefix ws (frame_image crc b) \<and> wal_file w = wal_file (db_wal db) @ ws)"

text \<open>The disk after an incomplete final frame, if there is one, is cut off (\<open>repair_torn_tail_from\<close>).\<close>

definition recovers_torn :: "codec \<Rightarrow> json \<Rightarrow> crc_fn \<Rightarrow> (bytes \<Rightarrow> page_source) \<Rightarrow> disk \<Rightarrow> rows \<Rightarrow> bool" where
  "recovers_torn cx j crc backend dk R \<longleftrightarrow> (\<exists>n image bs tail. dk_wals dk n = Some image \<and> wal_scan crc n image bs tail
     \<and> recovers_rows cx j crc backend (dk\<lparr>dk_wals := (dk_wals dk)(n \<mapsto> file_header crc @ frames_image crc bs)\<rparr>) R)"

lemma recovers_rows_torn:
  assumes "recovers_rows cx j crc backend dk R"
  shows "recovers_torn cx j crc backend dk R"
proof -
  obtain man segs bs m where r: "recovers cx j crc backend dk man segs bs m" and R: "R = mt_rows m \<union> segments_rows cx segs"
    using assms by (auto simp: recovers_rows_def)
  let ?n = "man_wal_start_sequence man" and ?image = "file_header crc @ frames_image crc bs"
  have wal: "dk_wals dk ?n = Some ?image" and scan: "wal_scan crc ?n ?image bs []" using r scan_complete by (auto simp: recovers_def)
  have "dk\<lparr>dk_wals := (dk_wals dk)(?n \<mapsto> ?image)\<rparr> = dk" using wal by (simp add: fun_upd_idem)
  then show ?thesis unfolding recovers_torn_def using wal scan assms by metis
qed

lemma log_okD:
  assumes "log_ok crc bs db"
  shows "chain (man_durable_sequence (db_manifest db) + 1) bs" and "man_durable_sequence (db_manifest db) < u64_max"
    and "replayed (man_durable_sequence (db_manifest db)) bs (db_table db)"
    and "next_after (man_durable_sequence (db_manifest db) + 1) bs = db_snapshot db + 1" and "mt_inv (db_table db)"
    and "db_snapshot db < u64_max"
proof -
  show c: "chain (man_durable_sequence (db_manifest db) + 1) bs" "man_durable_sequence (db_manifest db) < u64_max"
    "replayed (man_durable_sequence (db_manifest db)) bs (db_table db)" using assms by (auto simp: log_ok_def)
  from replayed_inv [OF c(3,1,2)] show "next_after (man_durable_sequence (db_manifest db) + 1) bs = db_snapshot db + 1"
    "mt_inv (db_table db)" "db_snapshot db < u64_max" by (simp_all add: db_snapshot_def)
qed

text \<open>An admitted batch whose frame is in the log replays.\<close>

lemma frame_replays:
  assumes log: "log_ok crc bs db" and new: "write_batch_new ops = Inr batch" and payload: "batch_encode batch = Inr payload"
    and charge: "charge_batch batch = Inr charge" "charge_add (memtable_charge (db_table db)) charge = Inr c"
    and valid: "batch_valid (next_frame db ops payload)"
  obtains m where "apply_write_batch (db_table db) batch (db_snapshot db + 1) (db_snapshot db + length ops) = Inr m"
    and "replay_step (db_table db) (next_frame db ops payload) = Inr m"
    and "mt_rows m = mt_rows (db_table db) \<union> write_rows db ops" and "mt_maximum_sequence m = db_snapshot db + length ops"
proof -
  have ops: "operations batch = ops" and vo: "validate_operations ops = Inr (encoded_len batch)" using new by (simp_all add: write_batch_new_iff)
  have "payload = batch_header (length ops) @ concat (map op_image ops)"
    using batch_encode_valid [of batch] vo payload by (simp add: ops)
  then have dec: "batch_decode payload = Inr batch" using batch_decode_image [OF new] by simp
  have "db_snapshot db + length ops \<le> u64_max" using valid by (simp add: batch_valid_def next_frame_def)
  moreover have "mt_approximate_bytes (db_table db) + sum_list (map mutation_bytes ops) \<le> u64_max"
    "mt_version_count (db_table db) + length ops \<le> u64_max"
    using charge by (simp_all add: charge_batch_Inr charge_add_Inr memtable_charge_def ops)
  ultimately obtain m where m: "apply_write_batch (db_table db) batch (db_snapshot db + 1) (db_snapshot db + length ops) = Inr m"
    using apply_write_batch_total [OF new] unfolding db_snapshot_def by blast
  have "mt_maximum_sequence (db_table db) < u64_max" using log_okD(6) [OF log] by (simp add: db_snapshot_def)
  note facts = apply_write_batch_Inr [OF log_okD(5) [OF log] this new m]
  show ?thesis
  proof (rule that [OF m])
    show "replay_step (db_table db) (next_frame db ops payload) = Inr m"
      using m by (simp add: replay_step_def next_frame_def dec)
  qed (use facts in \<open>simp_all add: db_snapshot_def\<close>)
qed

lemma repaired_recovers:
  assumes inv: "db_inv cx j crc backend db" and dk: "dk_root dk = st_root (db_manifests db)" "dk_segments dk = db_segment_files db"
    and log: "dk_wals dk (man_wal_start_sequence (db_manifest db)) = Some (file_header crc @ frames_image crc bs)"
      "chain (man_wal_start_sequence (db_manifest db)) bs" "replayed (man_durable_sequence (db_manifest db)) bs m"
  shows "recovers_rows cx j crc backend dk (mt_rows m \<union> segments_rows cx (db_segments db))"
proof -
  obtain p where "store_current cx j (st_root (db_manifests db)) = Inr (Some (p, db_manifest db))"
    using inv by (auto simp: db_inv_def store_ok_def)
  then have "store_current cx j (dk_root dk) = Inr (Some (p, db_manifest db))" by (simp add: dk)
  moreover have "mset (map sg_descriptor (db_segments db)) = mset (man_segments (db_manifest db))"
    "\<forall>seg \<in> set (db_segments db). seg_inv cx seg \<and> seg_stored cx backend (dk_segments dk) seg"
    using inv by (auto simp: db_inv_def segments_ok_def reads_ok_def dk)
  moreover have "man_wal_start_sequence (db_manifest db) = man_durable_sequence (db_manifest db) + 1"
    "man_durable_sequence (db_manifest db) < u64_max" using inv by (auto simp: db_inv_def log_ok_def)
  ultimately show ?thesis using published_recovers [OF _ _ _ _ _ log] by blast
qed

lemma extended_recovers:
  assumes inv: "db_inv cx j crc backend db" and new: "write_batch_new ops = Inr batch" and payload: "batch_encode batch = Inr payload"
    and charge: "charge_batch batch = Inr charge" "charge_add (memtable_charge (db_table db)) charge = Inr c"
    and ext: "log_extended crc db (next_frame db ops payload) (db_wal db')"
    and same: "db_manifests db' = db_manifests db" "db_manifest db' = db_manifest db" "db_segment_files db' = db_segment_files db"
      "db_wals db' = db_wals db"
  shows "recovers_torn cx j crc backend (disk_of db') (db_rows cx db)
    \<or> recovers_torn cx j crc backend (disk_of db') (db_rows cx db \<union> write_rows db ops)"
proof (cases "wal_file (db_wal db') = wal_file (db_wal db)")
  case True
  then have "disk_of db' = disk_of db" by (simp add: disk_of_def disk_wals_def same)
  then show ?thesis using recovers_rows_torn [OF db_inv_recovers [OF inv]] by simp
next
  case False
  let ?b = "next_frame db ops payload" and ?start = "man_wal_start_sequence (db_manifest db)" and ?dk = "disk_of db'"
  obtain bs ws where log: "log_ok crc bs db" and chain: "chain ?start (bs @ [?b])" and ws: "prefix ws (frame_image crc ?b)"
    and w: "wal_file (db_wal db') = wal_file (db_wal db) @ ws" using ext False by (auto simp: log_extended_def)
  have start: "?start \<noteq> 0" and image: "wal_file (db_wal db) = file_header crc @ frames_image crc bs"
    and r: "replayed (man_durable_sequence (db_manifest db)) bs (db_table db)" using log by (auto simp: log_ok_def)
  have valid: "batch_valid ?b" using chain by (simp add: chain_append)
  obtain m where m: "replay_step (db_table db) ?b = Inr m" "mt_rows m = mt_rows (db_table db) \<union> write_rows db ops"
    by (rule frame_replays [OF log new payload charge valid])
  let ?bs = "if length ws = frame_size ?b then bs @ [?b] else bs" and ?m = "if length ws = frame_size ?b then m else db_table db"
  obtain tail where scan: "wal_scan crc ?start (wal_file (db_wal db')) ?bs tail"
    using scan_partial [OF chain start ws] unfolding w image by (auto simp: append_assoc)
  have "dk_wals ?dk ?start = Some (wal_file (db_wal db'))" by (simp add: disk_of_def disk_wals_def same)
  moreover have "recovers_rows cx j crc backend (?dk\<lparr>dk_wals := (dk_wals ?dk)(?start \<mapsto> file_header crc @ frames_image crc ?bs)\<rparr>)
      (mt_rows ?m \<union> segments_rows cx (db_segments db))"
    by (rule repaired_recovers [OF inv])
      (use chain r m(1) in \<open>auto simp: disk_of_def same chain_append replayed_snoc\<close>)
  ultimately have "recovers_torn cx j crc backend ?dk (mt_rows ?m \<union> segments_rows cx (db_segments db))"
    unfolding recovers_torn_def using scan by blast
  then show ?thesis using m(2) by (auto simp: db_rows_def Un_ac split: if_splits)
qed

lemma append_extended:
  assumes inv: "db_inv cx j crc backend db" and ops: "operations batch = ops" "ops \<noteq> []"
    and run: "append_encoded_write_batch crc io (db_wal db) batch payload d = (r, w)"
  shows "log_extended crc db (next_frame db ops payload) w"
    and "r = Some (Inr receipt) \<Longrightarrow> ar_first_sequence receipt = db_snapshot db + 1 \<and> ar_last_sequence receipt = db_snapshot db + length ops
      \<and> ar_durable receipt = (d = Authoritative)
      \<and> (\<exists>bs. log_ok crc bs db \<and> wal_inv crc (man_wal_start_sequence (db_manifest db)) (bs @ [next_frame db ops payload]) w)"
proof -
  have "log_extended crc db (next_frame db ops payload) w \<and> (r = Some (Inr receipt) \<longrightarrow>
      ar_first_sequence receipt = db_snapshot db + 1 \<and> ar_last_sequence receipt = db_snapshot db + length ops
      \<and> ar_durable receipt = (d = Authoritative)
      \<and> (\<exists>bs. log_ok crc bs db \<and> wal_inv crc (man_wal_start_sequence (db_manifest db)) (bs @ [next_frame db ops payload]) w))"
  proof (cases "wal_poisoned (db_wal db) \<or> checked_add (wal_next_sequence (db_wal db)) (length (operations batch) - 1) = None")
    case True
    then have "w = db_wal db \<and> (\<nexists>x. r = Some (Inr x))"
      using run by (auto simp: append_encoded_write_batch_def append_poisoned split: option.splits)
    then show ?thesis by (simp add: log_extended_def)
  next
    case False
    then obtain bs where log: "log_ok crc bs db" and wal: "wal_inv crc (man_wal_start_sequence (db_manifest db)) bs (db_wal db)"
      using inv unfolding db_inv_def by blast
    have seq: "wal_next_sequence (db_wal db) = db_snapshot db + 1"
      using wal log_okD(4) [OF log] log by (simp add: wal_inv_def log_ok_def)
    let ?b = "next_frame db ops payload"
    have top: "checked_add (wal_next_sequence (db_wal db)) (length (operations batch) - 1) = Some (wb_last_sequence ?b)"
      "wb_last_sequence ?b \<le> u64_max"
      using False ops by (auto simp: seq next_frame_def checked_add_def split: if_splits)
    have inner: "append_inner crc io (db_wal db) ?b d = (r, w)"
      using run unfolding append_encoded_write_batch_def top(1) by (simp add: seq next_frame_def)
    from inner wal top(2) show ?thesis
    proof (cases rule: append_inner_cases)
      case (acknowledged x)
      have "log_extended crc db ?b w"
        using acknowledged(2) log unfolding log_extended_def
        by (auto simp: wal_inv_def log_ok_def intro!: exI [of _ bs] exI [of _ "frame_image crc ?b"])
      then show ?thesis using acknowledged log by (auto simp: next_frame_def)
    qed (use log in \<open>auto simp: log_extended_def\<close>)
  qed
  then show "log_extended crc db (next_frame db ops payload) w"
    and "r = Some (Inr receipt) \<Longrightarrow> ar_first_sequence receipt = db_snapshot db + 1 \<and> ar_last_sequence receipt = db_snapshot db + length ops
      \<and> ar_durable receipt = (d = Authoritative)
      \<and> (\<exists>bs. log_ok crc bs db \<and> wal_inv crc (man_wal_start_sequence (db_manifest db)) (bs @ [next_frame db ops payload]) w)"
    by blast+
qed

section \<open>The write\<close>

text \<open>Between the admission and the application a write touches the pool, the log and the reopen mark only.\<close>

definition write_staged :: "crc_fn \<Rightarrow> database \<Rightarrow> wal_batch \<Rightarrow> database \<Rightarrow> bool" where
  "write_staged crc db b db' \<longleftrightarrow> (\<exists>pool w reopen.
     db' = db\<lparr>db_mutable_memory := pool, db_wal := w, db_writer_requires_reopen := reopen\<rparr> \<and> log_extended crc db b w)"

definition write_in_log :: "crc_fn \<Rightarrow> database \<Rightarrow> mutation list \<Rightarrow> bytes \<Rightarrow> durability \<Rightarrow> mutable_pool \<Rightarrow> append_receipt \<Rightarrow> database \<Rightarrow> bool" where
  "write_in_log crc db ops payload d pool receipt db' \<longleftrightarrow>
     (\<exists>w bs. db' = db\<lparr>db_mutable_memory := pool, db_wal := w\<rparr> \<and> log_ok crc bs db
        \<and> wal_inv crc (man_wal_start_sequence (db_manifest db)) (bs @ [next_frame db ops payload]) w)
     \<and> ar_first_sequence receipt = db_snapshot db + 1 \<and> ar_last_sequence receipt = db_snapshot db + length ops
     \<and> ar_durable receipt = (d = Authoritative)"

lemma write_stagedI:
  assumes "db' = db\<lparr>db_mutable_memory := pool, db_wal := w, db_writer_requires_reopen := reopen\<rparr>" and "log_extended crc db b w"
  shows "write_staged crc db b db'"
  unfolding write_staged_def using assms by blast

lemma write_staged_reopen:
  assumes "write_staged crc db b db'"
  shows "write_staged crc db b (db'\<lparr>db_writer_requires_reopen := reopen\<rparr>)"
proof -
  obtain pool w r where "db' = db\<lparr>db_mutable_memory := pool, db_wal := w, db_writer_requires_reopen := r\<rparr>" "log_extended crc db b w"
    using assms by (auto simp: write_staged_def)
  then show ?thesis by (intro write_stagedI [where pool = pool and w = w and reopen = reopen]) simp_all
qed

lemma write_staged_pool:
  assumes "write_staged crc db b db'"
  shows "write_staged crc db b (db'\<lparr>db_mutable_memory := pool'\<rparr>)"
proof -
  obtain pool w r where "db' = db\<lparr>db_mutable_memory := pool, db_wal := w, db_writer_requires_reopen := r\<rparr>" "log_extended crc db b w"
    using assms by (auto simp: write_staged_def)
  then show ?thesis by (intro write_stagedI [where pool = pool' and w = w and reopen = r]) simp_all
qed

lemma require_reopen_runs: "write_staged crc db b db' \<Longrightarrow> runs (require_reopen boundary e) db' P (write_staged crc db b)"
  unfolding require_reopen_def by (intro runs_modify_bind runs_lift write_staged_reopen) simp_all

lemma db_wal_sync_staged:
  assumes "write_staged crc db b db'"
  shows "runs (db_wal_sync outcome) db' (\<lambda>_. write_staged crc db b) (write_staged crc db b)"
proof -
  obtain r w where run: "wal_sync outcome (db_wal db') = (r, w)" by fastforce
  then have "wal_file w = wal_file (db_wal db')" by (auto simp: wal_sync_def split: if_splits os_sync.splits)
  moreover obtain pool w0 reopen where "db' = db\<lparr>db_mutable_memory := pool, db_wal := w0, db_writer_requires_reopen := reopen\<rparr>"
    "log_extended crc db b w0" using assms by (auto simp: write_staged_def)
  ultimately have "write_staged crc db b (db'\<lparr>db_wal := w\<rparr>)"
    by (intro write_stagedI [where pool = pool and w = w and reopen = reopen]) (simp_all add: log_extended_def)
  then show ?thesis by (auto simp: runs_def db_wal_sync_def run split: option.splits sum.splits)
qed

lemma write_in_log_staged: "write_in_log crc db ops payload d pool receipt db' \<Longrightarrow> write_staged crc db (next_frame db ops payload) db'"
  unfolding write_in_log_def
  apply (elim exE conjE)
  subgoal for w bs
    by (rule write_stagedI [where pool = pool and w = w and reopen = "db_writer_requires_reopen db"])
      (auto simp: log_extended_def log_ok_def wal_inv_def intro!: exI [of _ bs] exI [of _ "frame_image crc (next_frame db ops payload)"])
  done

lemma write_logged_runs:
  assumes inv: "db_inv cx j crc backend db" and ops: "operations batch = ops" "ops \<noteq> []"
  shows "runs (write_logged crc io batch payload durability failure) (db\<lparr>db_mutable_memory := pool\<rparr>)
    (write_in_log crc db ops payload (append_durability durability failure) pool) (write_staged crc db (next_frame db ops payload))"
proof -
  let ?b = "next_frame db ops payload" and ?db = "db\<lparr>db_mutable_memory := pool\<rparr>" and ?d = "append_durability durability failure"
  have start: "write_staged crc db ?b ?db"
    by (rule write_stagedI [where pool = pool and w = "db_wal db" and reopen = "db_writer_requires_reopen db"]) (simp_all add: log_extended_def)
  obtain r w where run: "append_encoded_write_batch crc (wr_append io) (db_wal db) batch payload ?d = (r, w)" by fastforce
  note app = append_extended [OF inv ops run]
  have "write_staged crc db ?b (?db\<lparr>db_wal := w\<rparr>)"
    by (rule write_stagedI [where pool = pool and w = w and reopen = "db_writer_requires_reopen db"]) (simp_all add: app(1))
  then have appended: "runs (db_wal_append crc (wr_append io) batch payload ?d) ?db (write_in_log crc db ops payload ?d pool) (write_staged crc db ?b)"
    using app(2) by (auto simp: runs_def db_wal_append_def run write_in_log_def split: option.splits sum.splits)
  have post_append: "runs (inject_post_append_failure failure) d (\<lambda>_. write_in_log crc db ops payload ?d pool receipt) (write_staged crc db ?b)"
    if "write_in_log crc db ops payload ?d pool receipt d" for receipt d
    using that by (auto simp: inject_post_append_failure_def intro!: runs_ret require_reopen_runs [OF write_in_log_staged]
        split: option.splits prod.splits write_boundary.splits)
  have post_wal: "runs (inject_post_wal_failure (wr_sync io) failure receipt) d (\<lambda>_. write_in_log crc db ops payload ?d pool receipt) (write_staged crc db ?b)"
    if staged: "write_in_log crc db ops payload ?d pool receipt d" for receipt d
  proof -
    have sync: "runs (sbind (if \<not> ar_durable receipt then sbind (db_wal_sync (wr_sync io)) (\<lambda>_. sret ()) else sret ()) (\<lambda>_.
        require_reopen boundary e)) d P (write_staged crc db ?b)" for boundary e and P :: "unit \<Rightarrow> database \<Rightarrow> bool"
      by (rule runs_bind [where P = "\<lambda>_. write_staged crc db ?b"])
        (auto intro: runs_bind [OF db_wal_sync_staged] runs_ret require_reopen_runs write_in_log_staged [OF staged])
    show ?thesis
      using staged sync by (auto simp: inject_post_wal_failure_def intro!: runs_ret split: option.splits prod.splits write_boundary.splits)
  qed
  show ?thesis
    unfolding write_logged_def
    apply (rule runs_lift_bind, rule start)
    apply (rule runs_bind [OF appended])
    apply (rule runs_bind, erule post_append)
    apply (rule runs_bind, erule post_wal)
    apply (rule runs_ret, assumption)
    done
qed

text \<open>The database after the application of a batch that is in the log.\<close>

lemma visible_inv:
  assumes inv: "db_inv cx j crc backend db" and new: "write_batch_new ops = Inr batch" and payload: "batch_encode batch = Inr payload"
    and charge: "charge_batch batch = Inr charge" "charge_add (memtable_charge (db_table db)) charge = Inr c"
    and prepared: "mutable_prepare shared (db_memtable db) charge (db_mutable_memory db) = (Inr p, pool)"
    and log: "log_ok crc bs db" and wal: "wal_inv crc (man_wal_start_sequence (db_manifest db)) (bs @ [next_frame db ops payload]) w"
  obtains g where "apply_with shared p (db_memtable db)
      (\<lambda>table. apply_write_batch table batch (db_snapshot db + 1) (db_snapshot db + length ops)) = (Inr (), g, None)"
    and "mt_maximum_sequence (mg_table g) = db_snapshot db + length ops"
    and "\<And>n stats reopen. db_inv cx j crc backend (db\<lparr>db_mutable_memory := pool, db_wal := w, db_memtable := g, db_wal_payload_bytes := n,
        db_maintenance_stats := stats, db_writer_requires_reopen := reopen\<rparr>)"
    and "mt_rows (mg_table g) = mt_rows (db_table db) \<union> write_rows db ops"
proof -
  let ?b = "next_frame db ops payload"
  have chain: "chain (man_wal_start_sequence (db_manifest db)) (bs @ [?b])" using wal by (simp add: wal_inv_def)
  then have valid: "batch_valid ?b" by (simp add: chain_append)
  obtain m where m: "apply_write_batch (db_table db) batch (db_snapshot db + 1) (db_snapshot db + length ops) = Inr m"
    "replay_step (db_table db) ?b = Inr m" "mt_rows m = mt_rows (db_table db) \<union> write_rows db ops"
    "mt_maximum_sequence m = db_snapshot db + length ops"
    by (rule frame_replays [OF log new payload charge valid])
  obtain g where g: "apply_with shared p (db_memtable db)
      (\<lambda>table. apply_write_batch table batch (db_snapshot db + 1) (db_snapshot db + length ops)) = (Inr (), g, None)" and table: "mg_table g = m"
    using prepared m(1) by (auto simp: mutable_prepare_def apply_with_def split: if_splits sum.splits prod.splits)
  obtain rest where "memory_inv \<lparr>mst_pool = db_mutable_memory db, mst_current = db_memtable db, mst_retained = rest\<rparr>"
    using inv by (auto simp: db_inv_def memory_ok_def)
  moreover have "operations batch \<noteq> []" using new by (auto simp: write_batch_new_iff validate_operations_iff)
  ultimately have memory: "\<exists>rest. memory_inv \<lparr>mst_pool = pool, mst_current = g, mst_retained = rest\<rparr>"
    using memory_written [OF _ charge(1) _ prepared g] by blast
  have replayed: "replayed (man_durable_sequence (db_manifest db)) (bs @ [?b]) m"
    using log m(2) by (auto simp: replayed_snoc log_ok_def)
  note facts = replayed_inv [OF replayed _ log_okD(2) [OF log]]
  have start: "man_wal_start_sequence (db_manifest db) = man_durable_sequence (db_manifest db) + 1" using log by (simp add: log_ok_def)
  have mt: "mt_inv m" "\<forall>e \<in> mt_rows m. man_durable_sequence (db_manifest db) < vv_sequence (snd e)"
    using facts chain by (auto simp: start)
  have segs: "\<forall>e \<in> segments_rows cx (db_segments db). vv_sequence (snd e) \<le> man_durable_sequence (db_manifest db)"
    using inv by (simp add: db_inv_def segments_ok_def)
  have "db_inv cx j crc backend (db\<lparr>db_mutable_memory := pool, db_wal := w, db_memtable := g, db_wal_payload_bytes := n,
      db_maintenance_stats := stats, db_writer_requires_reopen := reopen\<rparr>)" (is "db_inv _ _ _ _ ?d") for n stats reopen
  proof -
    have rows: "db_rows cx ?d = mt_rows m \<union> segments_rows cx (db_segments db)" by (simp add: db_rows_def table)
    have "rows_unique (mt_rows m)" by (rule mt.rows_uniq [OF mt(1)])
    moreover have "rows_unique (segments_rows cx (db_segments db))"
      using inv reads_okD(4) by (auto simp: db_inv_def)
    ultimately have "rows_unique (db_rows cx ?d)"
      unfolding rows rows_unique_def using mt(2) segs by (metis Un_iff leD snd_conv)
    then have "reads_ok cx ?d"
      using inv mt segs unfolding reads_ok_def db_inv_def by (auto simp: table intro: le_less_trans)
    moreover have "segments_ok cx backend ?d" "store_ok cx j ?d" using inv by (simp_all add: db_inv_def segments_ok_def store_ok_def)
    moreover have "memory_ok ?d" using memory by (simp add: memory_ok_def)
    moreover have "log_ok crc (bs @ [?b]) ?d"
      using wal log replayed chain by (simp add: log_ok_def table wal_inv_def)
    moreover have "wal_inv crc (man_wal_start_sequence (db_manifest ?d)) (bs @ [?b]) (db_wal ?d)" using wal by simp
    ultimately show ?thesis unfolding db_inv_def by blast
  qed
  then show ?thesis using that [OF g] m(3,4) by (simp add: table)
qed

definition write_applied ::
  "codec \<Rightarrow> json \<Rightarrow> crc_fn \<Rightarrow> (bytes \<Rightarrow> page_source) \<Rightarrow> database \<Rightarrow> mutation list \<Rightarrow> database \<Rightarrow> bool" where
  "write_applied cx j crc backend db ops db' \<longleftrightarrow> db_inv cx j crc backend db' \<and> db_rows cx db' = db_rows cx db \<union> write_rows db ops
     \<and> db_snapshot db' = db_snapshot db + length ops \<and> db_transaction_snapshots db' = db_transaction_snapshots db"

lemma write_visible_runs:
  assumes inv: "db_inv cx j crc backend db" and new: "write_batch_new ops = Inr batch" and payload: "batch_encode batch = Inr payload"
    and charge: "charge_batch batch = Inr charge" "charge_add (memtable_charge (db_table db)) charge = Inr c"
    and prepared: "mutable_prepare (wr_shared io) (db_memtable db) charge (db_mutable_memory db) = (Inr p, pool)"
    and logged: "write_in_log crc db ops payload d pool receipt db'"
  shows "runs (write_visible io p batch payload failure receipt) db'
    (\<lambda>x d. x = receipt \<and> write_applied cx j crc backend db ops d) (write_applied cx j crc backend db ops)"
proof -
  obtain w bs where db': "db' = db\<lparr>db_mutable_memory := pool, db_wal := w\<rparr>" and log: "log_ok crc bs db"
    and wal: "wal_inv crc (man_wal_start_sequence (db_manifest db)) (bs @ [next_frame db ops payload]) w"
    and seqs: "ar_first_sequence receipt = db_snapshot db + 1" "ar_last_sequence receipt = db_snapshot db + length ops"
    using logged by (auto simp: write_in_log_def)
  obtain g where g: "apply_with (wr_shared io) p (db_memtable db)
      (\<lambda>table. apply_write_batch table batch (db_snapshot db + 1) (db_snapshot db + length ops)) = (Inr (), g, None)"
    and top: "mt_maximum_sequence (mg_table g) = db_snapshot db + length ops"
    and g_inv: "\<And>n stats reopen. db_inv cx j crc backend (db\<lparr>db_mutable_memory := pool, db_wal := w, db_memtable := g, db_wal_payload_bytes := n,
        db_maintenance_stats := stats, db_writer_requires_reopen := reopen\<rparr>)"
    and g_rows: "mt_rows (mg_table g) = mt_rows (db_table db) \<union> write_rows db ops"
    using visible_inv [OF inv new payload charge prepared log wal] by blast
  have applied: "write_applied cx j crc backend db ops (db\<lparr>db_mutable_memory := pool, db_wal := w, db_memtable := g, db_wal_payload_bytes := n,
      db_maintenance_stats := stats, db_writer_requires_reopen := reopen\<rparr>)" for n stats reopen
    using g_inv g_rows top by (auto simp: write_applied_def db_rows_def db_snapshot_def)
  let ?d = "record_memtable_peak (db'\<lparr>db_memtable := g, db_wal_payload_bytes := saturating_add (db_wal_payload_bytes db') (length payload)\<rparr>)"
  have d: "write_applied cx j crc backend db ops (?d\<lparr>db_writer_requires_reopen := reopen\<rparr>)" for reopen
    using applied by (simp add: record_memtable_peak_def db')
  have "write_applied cx j crc backend db ops ?d" using d [of "db_writer_requires_reopen db"] by (simp add: record_memtable_peak_def db')
  then have inject: "runs (inject_post_visibility_failure failure) ?d (\<lambda>_. write_applied cx j crc backend db ops) (write_applied cx j crc backend db ops)"
    using d by (auto simp: inject_post_visibility_failure_def require_reopen_def intro!: runs_ret runs_modify_bind runs_lift
        split: option.splits prod.splits write_boundary.splits)
  have "apply_with (wr_shared io) p (db_memtable db')
      (\<lambda>table. apply_write_batch table batch (ar_first_sequence receipt) (ar_last_sequence receipt)) = (Inr (), g, None)"
    using g by (simp add: db' seqs)
  then show ?thesis
    unfolding write_visible_def
    by (intro runs_read) (simp, intro runs_modify_bind runs_bind [OF inject] runs_ret, simp)
qed

lemma write_prepared_runs:
  assumes inv: "db_inv cx j crc backend db" and new: "write_batch_new ops = Inr batch" and payload: "batch_encode batch = Inr payload"
    and charge: "charge_batch batch = Inr charge" "charge_add (memtable_charge (db_table db)) charge = Inr c"
    and prepared: "mutable_prepare (wr_shared io) (db_memtable db) charge (db_mutable_memory db) = (Inr p, pool)"
  shows "runs (write_prepared crc io batch payload durability failure p) (db\<lparr>db_mutable_memory := pool\<rparr>)
    (\<lambda>receipt d. ar_first_sequence receipt = db_snapshot db + 1 \<and> ar_last_sequence receipt = db_snapshot db + length ops
       \<and> ar_durable receipt = (append_durability durability failure = Authoritative) \<and> write_applied cx j crc backend db ops d)
    (\<lambda>d. write_staged crc db (next_frame db ops payload) d \<or> write_applied cx j crc backend db ops d)"
proof -
  have ops: "operations batch = ops" "ops \<noteq> []" using new by (auto simp: write_batch_new_iff validate_operations_iff)
  let ?S = "write_staged crc db (next_frame db ops payload)"
  have dropped: "runs (sbind (db_drop_reservation rv) (\<lambda>_. slift (Inl e))) d P (\<lambda>d. ?S d \<or> write_applied cx j crc backend db ops d)"
    if "?S d" for rv e d and P :: "append_receipt \<Rightarrow> database \<Rightarrow> bool"
    using that write_staged_pool [OF that]
    by (auto simp: runs_def sbind_def slift_def db_drop_reservation_def split: sum.splits)
  show ?thesis
    unfolding write_prepared_def
    apply (rule runs_catch [OF write_logged_runs [OF inv ops]])
    subgoal for receipt d
      by (simp, rule runs_weaken [OF write_visible_runs [OF inv new payload charge prepared]], assumption)
        (auto simp: write_in_log_def)
    subgoal by (simp add: dropped)
    subgoal by simp
    done
qed

section \<open>A whole write\<close>

text \<open>
  An acknowledged write leaves a database whose rows are the old ones, up to versions no protected reader sees, and the
  whole batch. Any other ending leaves the open handle, and independently what a reopen recovers after a tail repair, with
  either none of the batch or all of it.
\<close>

definition write_done ::
  "codec \<Rightarrow> json \<Rightarrow> crc_fn \<Rightarrow> (bytes \<Rightarrow> page_source) \<Rightarrow> (nat \<Rightarrow> bool) \<Rightarrow> database \<Rightarrow> mutation list \<Rightarrow> append_receipt \<Rightarrow> database \<Rightarrow> bool" where
  "write_done cx j crc backend keep db ops receipt db' \<longleftrightarrow>
     db_inv cx j crc backend db' \<and> (\<exists>R. same_reads keep (db_rows cx db) R \<and> R \<subseteq> db_rows cx db \<and> db_rows cx db' = R \<union> write_rows db ops)
     \<and> ar_first_sequence receipt = db_snapshot db + 1 \<and> ar_last_sequence receipt = db_snapshot db + length ops
     \<and> db_snapshot db' = db_snapshot db + length ops \<and> db_transaction_snapshots db' = db_transaction_snapshots db"

definition write_failed ::
  "codec \<Rightarrow> json \<Rightarrow> crc_fn \<Rightarrow> (bytes \<Rightarrow> page_source) \<Rightarrow> (nat \<Rightarrow> bool) \<Rightarrow> database \<Rightarrow> mutation list \<Rightarrow> database \<Rightarrow> bool" where
  "write_failed cx j crc backend keep db ops db' \<longleftrightarrow>
     reads_ok cx db'
     \<and> (\<exists>R. same_reads keep (db_rows cx db) R
          \<and> (db_rows cx db' = R \<or> R \<subseteq> db_rows cx db \<and> db_rows cx db' = R \<union> write_rows db ops))
     \<and> (\<exists>R. rows_unique R \<and> same_reads keep (db_rows cx db) R
          \<and> (recovers_torn cx j crc backend (disk_of db') R
             \<or> R \<subseteq> db_rows cx db \<and> recovers_torn cx j crc backend (disk_of db') (R \<union> write_rows db ops)))"

lemma safe_write_failed: "safe cx j crc backend keep db db' \<Longrightarrow> write_failed cx j crc backend keep db ops db'"
  unfolding safe_def write_failed_def by (metis recovers_rows_torn)

lemma applied_write_failed:
  assumes s: "steady cx j crc backend keep db d" and a: "write_applied cx j crc backend d ops db'"
  shows "write_failed cx j crc backend keep db ops db'"
proof -
  have B: "write_rows d ops = write_rows db ops" and R: "same_reads keep (db_rows cx db) (db_rows cx d)" "db_rows cx d \<subseteq> db_rows cx db"
    and unique: "rows_unique (db_rows cx d)" using s by (simp_all add: steady_def db_inv_def reads_ok_def)
  have inv: "db_inv cx j crc backend db'" and rows: "db_rows cx db' = db_rows cx d \<union> write_rows db ops"
    using a B by (simp_all add: write_applied_def)
  have "recovers_torn cx j crc backend (disk_of db') (db_rows cx d \<union> write_rows db ops)"
    using recovers_rows_torn [OF db_inv_recovers [OF inv]] rows by simp
  moreover have "reads_ok cx db'" using inv by (simp add: db_inv_def)
  ultimately show ?thesis using R unique rows unfolding write_failed_def by blast
qed

lemma staged_write_failed:
  assumes s: "steady cx j crc backend keep db d" and new: "write_batch_new ops = Inr batch" and payload: "batch_encode batch = Inr payload"
    and charge: "charge_batch batch = Inr charge" "charge_add (memtable_charge (db_table d)) charge = Inr c"
    and staged: "write_staged crc d (next_frame d ops payload) db'"
  shows "write_failed cx j crc backend keep db ops db'"
proof -
  obtain pool w reopen where db': "db' = d\<lparr>db_mutable_memory := pool, db_wal := w, db_writer_requires_reopen := reopen\<rparr>"
    and ext: "log_extended crc d (next_frame d ops payload) w"
    using staged by (auto simp: write_staged_def)
  have inv: "db_inv cx j crc backend d" and R: "same_reads keep (db_rows cx db) (db_rows cx d)"
    and sub: "db_rows cx d \<subseteq> db_rows cx db" and B: "db_snapshot d = db_snapshot db" using s by (simp_all add: steady_def)
  then have unique: "rows_unique (db_rows cx d)" by (simp add: db_inv_def reads_ok_def)
  have rows: "db_rows cx db' = db_rows cx d" by (simp add: db' db_rows_def)
  have "reads_ok cx db'" using inv unfolding db_inv_def reads_ok_def rows by (simp add: db')
  moreover have "recovers_torn cx j crc backend (disk_of db') (db_rows cx d)
      \<or> recovers_torn cx j crc backend (disk_of db') (db_rows cx d \<union> write_rows db ops)"
    using extended_recovers [OF inv new payload charge, of db'] ext by (simp add: db' B)
  ultimately show ?thesis using R sub unique rows unfolding write_failed_def by blast
qed

lemma pool_refused_steady:
  assumes s: "steady cx j crc backend keep db d" and "mutable_prepare shared (db_memtable d) charge (db_mutable_memory d) = (Inl e, pool)"
  shows "steady cx j crc backend keep db (d\<lparr>db_mutable_memory := pool\<rparr>)"
proof -
  let ?d = "d\<lparr>db_mutable_memory := pool\<rparr>"
  have inv: "db_inv cx j crc backend d" using s by (simp add: steady_def)
  then obtain retained where "memory_inv \<lparr>mst_pool = db_mutable_memory d, mst_current = db_memtable d, mst_retained = retained\<rparr>"
    by (auto simp: db_inv_def memory_ok_def)
  then have "memory_inv \<lparr>mst_pool = pool, mst_current = db_memtable d, mst_retained = retained\<rparr>"
    using memory_step_inv [OF memory_step.refused [OF assms(2)]] by blast
  then have "memory_ok ?d" by (auto simp: memory_ok_def)
  moreover have rows: "db_rows cx ?d = db_rows cx d" by (simp add: db_rows_def)
  moreover have "reads_ok cx ?d" using inv unfolding db_inv_def reads_ok_def rows by simp
  ultimately have "db_inv cx j crc backend ?d"
    using inv unfolding db_inv_def segments_ok_def store_ok_def log_ok_def by simp metis
  then show ?thesis using s rows by (simp add: steady_def wals_fit_def disk_wals_def db_snapshot_def)
qed

lemma write_owned_runs:
  assumes ok: "codec_ok cx" "json_ok j" "backend_ok backend" and inv: "db_inv cx j crc backend db" and digests: "digests_ok cx db"
    and fit: "wals_fit db" and new: "write_batch_new ops = Inr batch"
  shows "runs (write_owned_inner cx j crc backend io batch durability failure protected) db
    (\<lambda>receipt db'. write_done cx j crc backend (write_keeps db protected) db ops receipt db'
       \<and> ar_durable receipt = (append_durability durability failure = Authoritative))
    (write_failed cx j crc backend (write_keeps db protected) db ops)"
proof -
  let ?keep = "write_keeps db protected"
  let ?Q = "write_failed cx j crc backend ?keep db ops"
  have start: "?Q db" by (rule safe_write_failed [OF steady_safe [OF steady_refl [OF inv fit]]])
  have prep: "runs (sbind (db_mutable_prepare (wr_shared io) charge) (write_prepared crc io batch payload durability failure)) d
      (\<lambda>receipt db'. write_done cx j crc backend ?keep db ops receipt db'
         \<and> ar_durable receipt = (append_durability durability failure = Authoritative)) ?Q"
    if s: "steady cx j crc backend ?keep db d" and payload: "batch_encode batch = Inr payload"
      and charge: "charge_batch batch = Inr charge" "charge_add (memtable_charge (db_table d)) charge = Inr c" for d payload charge c
  proof (cases "mutable_prepare (wr_shared io) (db_memtable d) charge (db_mutable_memory d)")
    case (Pair r pool)
    show ?thesis
    proof (cases r)
      case (Inl e)
      then show ?thesis
        using safe_write_failed [OF steady_safe [OF pool_refused_steady [OF s]]] Pair
        by (auto simp: runs_def sbind_def db_mutable_prepare_def)
    next
      case (Inr p)
      have d: "db_inv cx j crc backend d" "db_snapshot d = db_snapshot db" using s by (simp_all add: steady_def)
      have "runs (write_prepared crc io batch payload durability failure p) (d\<lparr>db_mutable_memory := pool\<rparr>)
          (\<lambda>receipt db'. write_done cx j crc backend ?keep db ops receipt db'
             \<and> ar_durable receipt = (append_durability durability failure = Authoritative)) ?Q"
        apply (rule runs_weaken [OF write_prepared_runs [OF d(1) new payload charge]])
          apply (use Pair Inr in simp)
         apply (use s d(2) in \<open>auto simp: write_done_def write_applied_def steady_def\<close>)[1]
        apply (use staged_write_failed [OF s new payload charge] applied_write_failed [OF s] in blast)
        done
      then show ?thesis using Pair Inr by (simp add: runs_def sbind_def db_mutable_prepare_def)
    qed
  qed
  have ready: "runs (prepare_write cx j crc backend io batch n charge protected) db
      (\<lambda>_ d. steady cx j crc backend ?keep db d \<and> (\<exists>c. charge_add (memtable_charge (db_table d)) charge = Inr c)) ?Q" for n charge
    by (rule runs_weaken [OF prepare_write_runs [OF ok inv digests fit]]) (auto intro: safe_write_failed)
  show ?thesis
    unfolding write_owned_inner_def
    apply (rule runs_read)
    apply (rule runs_lift_bind, rule start)
    apply (rule runs_lift_bind, rule start)
    apply (rule runs_lift_bind, rule start)
    apply (rule runs_lift_bind, rule start)
    apply (rule runs_bind [OF ready])
    apply (elim conjE exE)
    by (rule prep)
qed

section \<open>Committing a transaction\<close>

lemma same_registry_inv:
  assumes "db' = db\<lparr>db_transaction_snapshots := registry\<rparr>"
  shows "db_inv cx j crc backend db' \<longleftrightarrow> db_inv cx j crc backend db" and "db_rows cx db' = db_rows cx db"
    and "disk_of db' = disk_of db" and "reads_ok cx db' \<longleftrightarrow> reads_ok cx db" and "db_snapshot db' = db_snapshot db"
proof -
  show rows: "db_rows cx db' = db_rows cx db" by (simp add: assms db_rows_def)
  show reads: "reads_ok cx db' \<longleftrightarrow> reads_ok cx db" by (simp add: reads_ok_def rows) (simp add: assms)
  show "disk_of db' = disk_of db" by (simp add: assms disk_of_def disk_wals_def)
  show "db_snapshot db' = db_snapshot db" by (simp add: assms db_snapshot_def)
  show "db_inv cx j crc backend db' \<longleftrightarrow> db_inv cx j crc backend db"
    unfolding db_inv_def reads by (simp add: assms segments_ok_def store_ok_def memory_ok_def log_ok_def)
qed

lemma drop_consumed_registry: "\<exists>registry. drop_consumed tx db = db\<lparr>db_transaction_snapshots := registry\<rparr>"
proof (cases "tx_owner tx = db_identity db")
  case False
  then show ?thesis by (intro exI [of _ "db_transaction_snapshots db"]) (simp add: drop_consumed_def)
qed (auto simp: drop_consumed_def)

text \<open>First committer wins: no key the transaction writes has a version newer than the transaction's snapshot.\<close>

definition unconflicted :: "codec \<Rightarrow> database \<Rightarrow> transaction \<Rightarrow> bool" where
  "unconflicted cx db tx \<longleftrightarrow> (\<forall>k v. k \<in> fst ` set (tx_writes tx) \<and> (k, v) \<in> db_rows cx db \<and> vv_sequence v \<le> db_snapshot db
     \<longrightarrow> vv_sequence v \<le> tx_snapshot tx)"

lemma check_conflict_ok:
  assumes ok: "reads_ok cx db" and check: "check_conflict cx db snapshot () key = Inr ()"
    and row: "(key, v) \<in> db_rows cx db" "vv_sequence v \<le> db_snapshot db"
  shows "vv_sequence v \<le> snapshot"
proof -
  obtain w where w: "visible_at (db_rows cx db) key (db_snapshot db) w" using visible_exists [OF row] by blast
  then have "latest_sequence_for_key cx db key = Inr (Some (vv_sequence w))" using latest_sequence_spec [OF ok, of key] by metis
  then have "vv_sequence w \<le> snapshot" using check by (simp add: check_conflict_def fail_if_def split: if_splits)
  then show ?thesis using w row by (fastforce simp: visible_at_def)
qed

lemma conflicts_checked:
  assumes ok: "reads_ok cx db" and run: "try_fold (check_conflict cx db (tx_snapshot tx)) () (map fst (tx_writes tx)) = Inr ()"
  shows "unconflicted cx db tx"
proof -
  have "check_conflict cx db (tx_snapshot tx) () k = Inr ()" if "try_fold (check_conflict cx db (tx_snapshot tx)) () ks = Inr ()" and "k \<in> set ks"
    for k ks
    using that by (induction ks) (auto simp: rrf_res)
  from this [OF run] show ?thesis unfolding unconflicted_def set_map using check_conflict_ok [OF ok] by blast
qed

definition commit_done ::
  "codec \<Rightarrow> json \<Rightarrow> crc_fn \<Rightarrow> (bytes \<Rightarrow> page_source) \<Rightarrow> (nat \<Rightarrow> bool) \<Rightarrow> database \<Rightarrow> transaction \<Rightarrow> database \<Rightarrow> bool" where
  "commit_done cx j crc backend keep db tx db' \<longleftrightarrow>
     db_inv cx j crc backend db' \<and> tx_owner tx = db_identity db \<and> unconflicted cx db tx
     \<and> (\<exists>R. same_reads keep (db_rows cx db) R \<and> R \<subseteq> db_rows cx db
          \<and> db_rows cx db' = R \<union> write_rows db (map entry_mutation (tx_writes tx)))
     \<and> db_snapshot db' = db_snapshot db + length (tx_writes tx)"

lemma write_failed_registry:
  "write_failed cx j crc backend keep db ops d \<Longrightarrow> write_failed cx j crc backend keep db ops (drop_consumed tx d)"
  using drop_consumed_registry [of tx d] unfolding write_failed_def by (auto simp: same_registry_inv)

lemma commit_done_registry: "commit_done cx j crc backend keep db tx d \<Longrightarrow> commit_done cx j crc backend keep db tx (drop_consumed tx d)"
  using drop_consumed_registry [of tx d] unfolding commit_done_def by (auto simp: same_registry_inv)

lemma unwritten_commit:
  assumes "db_inv cx j crc backend db" and "tx_owner tx = db_identity db" and "unconflicted cx db tx" and "tx_writes tx = []"
  shows "commit_done cx j crc backend keep db tx db"
  using assms same_reads_refl unfolding commit_done_def by auto

lemma commit_checked_runs:
  assumes ok: "codec_ok cx" "json_ok j" "backend_ok backend" and inv: "db_inv cx j crc backend db" and digests: "digests_ok cx db"
    and fit: "wals_fit db"
  shows "runs (commit_checked cx j crc backend io tx durability failure protected) db
    (\<lambda>tc db'. commit_done cx j crc backend (write_keeps db protected) db tx db'
       \<and> tc_snapshot_sequence tc = tx_snapshot tx \<and> tc_mutation_count tc = length (tx_writes tx))
    (write_failed cx j crc backend (write_keeps db protected) db (map entry_mutation (tx_writes tx)))"
proof -
  let ?ops = "map entry_mutation (tx_writes tx)"
  let ?Q = "write_failed cx j crc backend (write_keeps db protected) db ?ops"
  have start: "?Q db" by (rule safe_write_failed [OF steady_safe [OF steady_refl [OF inv fit]]])
  have reads: "reads_ok cx db" using inv by (simp add: db_inv_def)
  show ?thesis
    unfolding commit_checked_def
    apply (rule runs_read)
    apply (rule runs_lift_bind, rule start)
    apply (rule runs_lift_bind, rule start)
    apply (rule runs_lift_bind, rule start)
    subgoal premises run
    proof -
      have free: "tx_owner tx = db_identity db" "unconflicted cx db tx"
        using run conflicts_checked [OF reads, of tx] by (auto simp: validate_transaction_owner_def fail_if_def split: if_splits)
      show ?thesis
      proof (cases "tx_writes tx = []")
        case True
        then show ?thesis using unwritten_commit [OF inv free True] by (auto intro!: runs_ret)
      next
        case False
        show ?thesis
          apply (simp add: False take_mutations_def)
          apply (rule runs_lift_bind, rule start)
          apply (rule runs_bind [OF write_owned_runs [OF ok inv digests fit]], assumption)
          apply (rule runs_ret)
          using free by (simp add: write_done_def commit_done_def)
      qed
    qed
    done
qed

lemma commit_transaction_runs:
  assumes "codec_ok cx" and "json_ok j" and "backend_ok backend" and "db_inv cx j crc backend db" and "digests_ok cx db"
    and "wals_fit db"
  shows "runs (commit_transaction_inner cx j crc backend io tx durability failure protected) db
    (\<lambda>tc db'. commit_done cx j crc backend (write_keeps db protected) db tx db'
       \<and> tc_snapshot_sequence tc = tx_snapshot tx \<and> tc_mutation_count tc = length (tx_writes tx))
    (write_failed cx j crc backend (write_keeps db protected) db (map entry_mutation (tx_writes tx)))"
  unfolding commit_transaction_inner_def
  by (rule runs_catch [OF commit_checked_runs [OF assms]])
    (auto simp: runs_def sbind_def smodify_def slift_def intro: commit_done_registry write_failed_registry)

lemma begin_transaction_runs:
  assumes "db_inv cx j crc backend db"
  shows "runs begin_transaction db
    (\<lambda>tx db'. db_inv cx j crc backend db' \<and> db_rows cx db' = db_rows cx db \<and> tx_owner tx = db_identity db' \<and> tx_snapshot tx = db_snapshot db'
       \<and> tx_writes tx = [])
    (\<lambda>db'. db' = db)"
  unfolding begin_transaction_def
  apply (rule runs_read)
  apply (rule runs_lift_bind, simp)
  subgoal for x
    using assms
    by (cases x) (auto simp: transaction_begin_def rrf_res same_registry_inv intro!: runs_modify_bind runs_ret)
  done

end
