(* ===== verification/Database_Open.thy ===== *)
theory Database_Open
  imports Database_Flush_Spec
begin

text \<open>
  Creating and opening a database (\<open>database.rs\<close>, \<open>create_anchored\<close> and \<open>open_anchored\<close>). What the
  operating system answers is a record per operation; opening reads a disk. Opening validates the
  layout, the options, the current manifest, every segment the manifest names and the log it
  names, all under one recovery budget, and replays the log into the memtable.
\<close>

section \<open>Native contexts\<close>

text \<open>\<open>ring\<close> says whether the probe finds \<open>io_uring\<close>.\<close>

definition io_context_new :: "bool \<Rightarrow> segment_io_policy \<Rightarrow> unit res" where
  "io_context_new ring policy =
     rbind (segment_io_policy_validate policy) (\<lambda>_.
     fail_if (sip_mode policy = IoUring \<and> \<not> ring \<and> \<not> sip_allow_fallback policy)
       (InvalidConfiguration ''io_uring was required but is unavailable''))"

text \<open>What \<open>metadata\<close> of a path answers: an error, or whether it is a directory that is no symbolic link.\<close>

type_synonym path_answer = "io_error + bool"

section \<open>Create\<close>

definition empty_disk :: disk where
  "empty_disk = \<lparr>dk_root = \<lparr>rf_current = None, rf_manifests = [], rf_checkpoints = []\<rparr>, dk_segments = Map.empty, dk_wals = Map.empty\<rparr>"

record database_create_io =
  dci_ring :: bool
  dci_root :: path_answer
  dci_entries :: "io_error + bool"
  dci_create_root :: "io_error option"
  dci_pin :: "io_error option"
  dci_reserve :: "io_error option"
  dci_manifest_directory :: "io_error option"
  dci_checkpoint_directory :: "io_error option"
  dci_writer :: writer_io
  dci_wal_directory :: "io_error option"
  dci_segment_directory :: "io_error option"
  dci_wal :: create_io
  dci_publish :: "rename_outcome \<times> rename_outcome"

definition establish_root :: "database_create_io \<Rightarrow> unit res" where
  "establish_root io =
     (let refused = InvalidManifest ''new database path exists and is not an empty non-symlink directory'' in
      case dci_root io of
        Inr False \<Rightarrow> Inl refused
      | Inr True \<Rightarrow>
          (case dci_entries io of
             Inl e \<Rightarrow> Inl (Io e)
           | Inr nonempty \<Rightarrow> fail_if nonempty refused)
      | Inl e \<Rightarrow> if e = not_found then io_result (dci_create_root io) else Inl (Io e))"

text \<open>\<open>ManifestStore::create_anchored\<close>: both directories are new, so they are empty.\<close>

definition store_create :: "database_create_io \<Rightarrow> manifest_store res" where
  "store_create io =
     rbind (case dci_manifest_directory io of
              None \<Rightarrow> Inr () | Some e \<Rightarrow> Inl (IoContext ''creating manifest directory'' ''manifests'' e)) (\<lambda>_.
     rbind (case dci_checkpoint_directory io of
              None \<Rightarrow> Inr () | Some e \<Rightarrow> Inl (IoContext ''creating checkpoint directory'' ''checkpoints'' e)) (\<lambda>_.
     acquire_writer (dci_writer io) True False (dk_root empty_disk)))"

definition disk_wal_create :: "crc_fn \<Rightarrow> create_io \<Rightarrow> nat \<Rightarrow> (disk, wal_writer) op" where
  "disk_wal_create crc io next_sequence dk =
     (let (r, content) = wal_create_at crc io next_sequence in
      (r, case content of None \<Rightarrow> dk | Some bs \<Rightarrow> dk\<lparr>dk_wals := (dk_wals dk)(next_sequence \<mapsto> bs)\<rparr>))"

definition disk_publish ::
  "codec \<Rightarrow> json \<Rightarrow> rename_outcome \<times> rename_outcome \<Rightarrow> manifest \<Rightarrow> manifest_store \<Rightarrow> (disk, manifest_store) op" where
  "disk_publish cx j os m store dk =
     (let (r, store') = store_publish cx j os m None store in
      (Some (rbind r (\<lambda>_. Inr store')), dk\<lparr>dk_root := st_root store'\<rparr>))"

definition created_database :: "nat \<Rightarrow> database_options \<Rightarrow> manifest_store \<Rightarrow> manifest \<Rightarrow> wal_writer \<Rightarrow> database" where
  "created_database identity opts store m w = \<lparr>db_manifests = store, db_manifest = m, db_wal = w, db_wals = Map.empty,
     db_memtable = mutable_empty 0, db_mutable_memory = mutable_memory_new (opt_mutable_retention opts),
     db_segments = [], db_segment_files = Map.empty, db_point_index = point_index_new (man_segments m),
     db_options = opts, db_reclamation_pending = True, db_maintenance_stats = maintenance_stats_default,
     db_wal_payload_bytes = 0, db_writer_requires_reopen = None,
     db_transaction_snapshots = registry_new (opt_transaction_limits opts), db_identity = identity\<rparr>"

definition create_files ::
  "codec \<Rightarrow> json \<Rightarrow> crc_fn \<Rightarrow> database_create_io \<Rightarrow> nat \<Rightarrow> database_options \<Rightarrow> nat option \<Rightarrow> manifest_store \<Rightarrow> (disk, database) op" where
  "create_files cx j crc io identity opts application_format store =
     sbind (slift (io_result (dci_wal_directory io))) (\<lambda>_.
     sbind (slift (io_result (dci_segment_directory io))) (\<lambda>_.
     sbind (slift (new_manifest cx j 1 None 0 0 1 [] application_format)) (\<lambda>m.
     sbind (disk_wal_create crc (dci_wal io) 1) (\<lambda>w.
     sbind (disk_publish cx j (dci_publish io) m store) (\<lambda>store.
     sbind (slift (protected_capacity_bytes (opt_page_cache_policy opts) (opt_page_cache_bytes opts))) (\<lambda>_.
     sret (created_database identity opts store m w)))))))"

definition database_create ::
  "codec \<Rightarrow> json \<Rightarrow> crc_fn \<Rightarrow> database_create_io \<Rightarrow> nat \<Rightarrow> database_options \<Rightarrow> nat option \<Rightarrow> (disk, database) op" where
  "database_create cx j crc io identity opts application_format =
     sbind (slift (fail_if (application_format = Some 0)
                     (InvalidConfiguration ''application format identity must be non-zero''))) (\<lambda>_.
     sbind (slift (options_validate opts)) (\<lambda>_.
     sbind (slift (io_context_new (dci_ring io) (opt_segment_io opts))) (\<lambda>_.
     sbind (slift (establish_root io)) (\<lambda>_.
     sbind (slift (io_result (dci_pin io))) (\<lambda>_.
     sbind (slift (io_result (dci_reserve io))) (\<lambda>_.
     sbind (slift (store_create io)) (\<lambda>store.
     sbind (slift (with_checkpoint_limits (opt_checkpoint_entries opts) (opt_reclamation opts) store)) (\<lambda>store.
     sbind (smodify (\<lambda>_. empty_disk)) (\<lambda>_.
     create_files cx j crc io identity opts application_format store)))))))))"

section \<open>Open\<close>

record database_open_io =
  doi_pin :: "io_error option"
  doi_layout :: "path_answer list"
  doi_reserve :: "io_error option"
  doi_ring :: bool
  doi_store_directories :: "(string \<times> path_answer) list"
  doi_writer :: writer_io
  doi_evidence :: "nat \<Rightarrow> lsm_error option"
  doi_open_wal :: "io_error option"
  doi_later :: nat

definition require_directory :: "lsm_error \<Rightarrow> (io_error \<Rightarrow> lsm_error) \<Rightarrow> path_answer \<Rightarrow> unit res" where
  "require_directory invalid context answer =
     (case answer of Inl e \<Rightarrow> Inl (context e) | Inr ok \<Rightarrow> fail_if (\<not> ok) invalid)"

text \<open>The answers are those for the root, the log directory and the segment directory.\<close>

definition validate_existing_database_layout :: "path_answer list \<Rightarrow> unit res" where
  "validate_existing_database_layout answers =
     try_fold (\<lambda>_. require_directory (InvalidManifest ''database directory is missing, symbolic, or invalid'')
       (IoContext ''validating database directory'' '''')) () answers"

definition store_open_existing :: "database_open_io \<Rightarrow> root_files \<Rightarrow> manifest_store res" where
  "store_open_existing io root =
     rbind (try_fold (\<lambda>_ (operation, answer). require_directory (InvalidManifest ''not a non-symlink directory'')
              (IoContext operation '''') answer) () (doi_store_directories io)) (\<lambda>_.
     acquire_writer (doi_writer io) False False root)"

text \<open>\<open>require_existing_regular_file\<close> on a directory of regular files.\<close>

definition require_existing_regular_file :: "bytes option \<Rightarrow> bytes res" where
  "require_existing_regular_file entry = ok_or (IoContext ''validating database file'' '''' not_found) entry"

definition admit_segment :: "(nat \<Rightarrow> nat) \<Rightarrow> recovery_budget \<times> nat \<Rightarrow> segment_descriptor \<Rightarrow> (recovery_budget \<times> nat) res" where
  "admit_segment clock = (\<lambda>(budget, segment_bytes) d.
     rbind (budget_file clock budget (sd_bytes d)) (\<lambda>budget.
     rbind (ok_or (InvalidManifest ''recovery segment byte count overflow'') (checked_add segment_bytes (sd_bytes d))) (\<lambda>segment_bytes.
     Inr (budget, segment_bytes))))"

definition open_segment ::
  "codec \<Rightarrow> (bytes \<Rightarrow> page_source) \<Rightarrow> (nat \<Rightarrow> nat) \<Rightarrow> (nat \<Rightarrow> lsm_error option) \<Rightarrow> segment_files
     \<Rightarrow> recovery_budget \<times> segment list \<Rightarrow> segment_descriptor \<Rightarrow> (recovery_budget \<times> segment list) res" where
  "open_segment cx backend clock evidence files = (\<lambda>(budget, segments) expected.
     rbind (budget_tick clock budget) (\<lambda>budget.
     rbind (require_existing_regular_file (files (sd_id expected))) (\<lambda>img.
     rbind (segment_open_expected cx backend img expected) (\<lambda>seg.
     rbind (fail_if (sg_descriptor seg \<noteq> expected)
              (InvalidManifest ''segment does not match its manifest descriptor'')) (\<lambda>_.
     rbind (case evidence (length segments) of None \<Rightarrow> Inr () | Some e \<Rightarrow> Inl e) (\<lambda>_.
     Inr (budget, segments @ [seg])))))))"

definition open_segments ::
  "codec \<Rightarrow> (bytes \<Rightarrow> page_source) \<Rightarrow> (nat \<Rightarrow> nat) \<Rightarrow> database_open_io \<Rightarrow> segment_files \<Rightarrow> manifest \<Rightarrow> recovery_budget
     \<Rightarrow> (recovery_budget \<times> segment list) res" where
  "open_segments cx backend clock io files m budget =
     rbind (try_fold (admit_segment clock) (budget, 0) (man_segments m)) (\<lambda>(budget, segment_bytes).
     rbind (try_fold (open_segment cx backend clock (doi_evidence io) files) (budget, []) (man_segments m)) (\<lambda>(budget, segments).
     rbind (budget_tick clock budget) (\<lambda>budget.
     Inr (budget, segments))))"

definition open_log ::
  "crc_fn \<Rightarrow> (nat \<Rightarrow> nat) \<Rightarrow> database_open_io \<Rightarrow> database_options \<Rightarrow> (nat \<rightharpoonup> bytes) \<Rightarrow> manifest \<Rightarrow> recovery_budget
     \<Rightarrow> (memtable \<times> wal_writer \<times> nat) res" where
  "open_log crc clock io opts wals m budget =
     rbind (require_existing_regular_file (wals (man_wal_start_sequence m))) (\<lambda>content.
     rbind (io_result (doi_open_wal io)) (\<lambda>_.
     rbind (replay_file_bounded crc clock content (doi_later io) (man_wal_start_sequence m) budget
              (\<lambda>batch table. apply_owned_recovered table batch (opt_mutable_limits opts)) (at_sequence (man_durable_sequence m)))
       (\<lambda>(recovery, _, table).
     case rs_torn_tail recovery of
       Some offset \<Rightarrow> Inl (TornTail offset)
     | None \<Rightarrow>
         rbind (from_recovered_file content recovery) (\<lambda>w.
         Inr (table, w, rs_payload_bytes recovery)))))"

definition opened_database ::
  "nat \<Rightarrow> database_options \<Rightarrow> disk \<Rightarrow> manifest_store \<Rightarrow> manifest \<Rightarrow> segment list \<Rightarrow> wal_writer \<Rightarrow> nat \<Rightarrow> mutable_generation
     \<Rightarrow> mutable_pool \<Rightarrow> database" where
  "opened_database identity opts dk store m segments w payload_bytes generation pool =
     \<lparr>db_manifests = store, db_manifest = m, db_wal = w, db_wals = dk_wals dk,
      db_memtable = generation, db_mutable_memory = pool,
      db_segments = segments, db_segment_files = dk_segments dk, db_point_index = point_index_new (man_segments m),
      db_options = opts, db_reclamation_pending = True,
      db_maintenance_stats = maintenance_stats_default\<lparr>mst_peak_wal_payload_bytes := payload_bytes,
        mst_peak_memtable_versions := mt_version_count (mg_table generation),
        mst_peak_accounted_memtable_bytes := mt_approximate_bytes (mg_table generation)\<rparr>,
      db_wal_payload_bytes = payload_bytes, db_writer_requires_reopen = None,
      db_transaction_snapshots = registry_new (opt_transaction_limits opts), db_identity = identity\<rparr>"

definition open_recovered ::
  "codec \<Rightarrow> json \<Rightarrow> crc_fn \<Rightarrow> (bytes \<Rightarrow> page_source) \<Rightarrow> (nat \<Rightarrow> nat) \<Rightarrow> database_open_io \<Rightarrow> nat \<Rightarrow> database_options \<Rightarrow> disk
     \<Rightarrow> manifest_store \<Rightarrow> database res" where
  "open_recovered cx j crc backend clock io identity opts dk store =
     rbind (current_using cx j (read_recovery clock) (st_root store) (budget_new (opt_recovery opts))) (\<lambda>(current, budget).
     rbind (ok_or (InvalidManifest ''database has no CURRENT manifest'') current) (\<lambda>(_, m).
     rbind (protected_capacity_bytes (opt_page_cache_policy opts) (opt_page_cache_bytes opts)) (\<lambda>_.
     rbind (open_segments cx backend clock io (dk_segments dk) m budget) (\<lambda>(budget, segments).
     rbind (open_log crc clock io opts (dk_wals dk) m budget) (\<lambda>(table, w, payload_bytes).
     case mutable_wrap table (mutable_memory_new (opt_mutable_retention opts)) of
       (Inl e, _) \<Rightarrow> Inl e
     | (Inr generation, pool) \<Rightarrow>
         Inr (opened_database identity opts dk store m segments w payload_bytes generation pool))))))"

definition database_open ::
  "codec \<Rightarrow> json \<Rightarrow> crc_fn \<Rightarrow> (bytes \<Rightarrow> page_source) \<Rightarrow> (nat \<Rightarrow> nat) \<Rightarrow> database_open_io \<Rightarrow> nat \<Rightarrow> database_options \<Rightarrow> disk
     \<Rightarrow> database res" where
  "database_open cx j crc backend clock io identity opts dk =
     rbind (io_result (doi_pin io)) (\<lambda>_.
     rbind (validate_existing_database_layout (doi_layout io)) (\<lambda>_.
     rbind (options_validate opts) (\<lambda>_.
     rbind (io_result (doi_reserve io)) (\<lambda>_.
     rbind (io_context_new (doi_ring io) (opt_segment_io opts)) (\<lambda>_.
     rbind (store_open_existing io (dk_root dk)) (\<lambda>store.
     rbind (with_checkpoint_limits (opt_checkpoint_entries opts) (opt_reclamation opts) store) (\<lambda>store.
     open_recovered cx j crc backend clock io identity opts dk store)))))))"

end
