(* ===== verification/Database_Open_Spec.thy ===== *)
theory Database_Open_Spec
  imports Database_Open
begin

text \<open>
  What creating and opening establish. A created database is consistent and empty. Opening a disk
  that recovers to a set of rows gives a consistent database with exactly these rows, or is
  refused by one of the configured limits.
\<close>

section \<open>Creation\<close>

lemma memory_ok_new: "memory_inv \<lparr>mst_pool = mutable_memory_new l, mst_current = mutable_empty n, mst_retained = []\<rparr>"
  by (simp add: memory_inv_def pool_accounts_def mutable_memory_new_def mutable_memory_stats_default_def mutable_empty_def
      generation_ok_def mutable_charge_default_def memtable_charge_def at_sequence_def)

lemma created_inv:
  assumes m: "new_manifest cx j 1 None 0 0 1 [] app = Inr m"
    and cur: "store_current cx j (st_root store) = Inr (Some (p, m))" and w: "wal_inv crc 1 [] w"
  shows "db_inv cx j crc backend (created_database identity opts store m w)"
    and "db_rows cx (created_database identity opts store m w) = {}"
    and "disk_of (created_database identity opts store m w)
      = \<lparr>dk_root = st_root store, dk_segments = Map.empty, dk_wals = Map.empty(1 \<mapsto> wal_file w)\<rparr>"
proof -
  let ?db = "created_database identity opts store m w"
  note new = new_manifest_Inr [OF m]
  have table: "db_table ?db = at_sequence 0" and segs: "db_segments ?db = []"
    by (simp_all add: created_database_def mutable_empty_def)
  show rows: "db_rows cx ?db = {}" by (simp add: db_rows_def table segs segments_rows_def mt_inv_at_sequence)
  have none: "man_segments m = []" using new(3) by simp
  have "reads_ok cx ?db"
    unfolding reads_ok_def rows by (simp add: table segs segments_rows_def rows_unique_def mt_inv_at_sequence)
      (simp add: created_database_def none)
  moreover have "segments_ok cx backend ?db"
    by (simp add: segments_ok_def segs segments_rows_def) (simp add: created_database_def none)
  moreover have "store_ok cx j ?db" using cur by (auto simp: store_ok_def created_database_def)
  moreover have "memory_ok ?db"
    unfolding memory_ok_def using memory_ok_new by (auto simp: created_database_def)
  moreover have "log_ok crc [] ?db"
    using w new(1,2) by (simp add: log_ok_def replayed_Nil table) (simp add: created_database_def wal_inv_def u64_max_def)
  moreover have "wal_inv crc (man_wal_start_sequence (db_manifest ?db)) [] (db_wal ?db)"
    using w new(2) by (simp add: created_database_def)
  ultimately show "db_inv cx j crc backend ?db" unfolding db_inv_def by blast
  show "disk_of ?db = \<lparr>dk_root = st_root store, dk_segments = Map.empty, dk_wals = Map.empty(1 \<mapsto> wal_file w)\<rparr>"
    using new(2) by (simp add: disk_of_def disk_wals_def) (simp add: created_database_def)
qed

lemma disk_wal_create_runs:
  "runs (disk_wal_create crc io n) dk (\<lambda>w dk'. wal_inv crc n [] w \<and> dk' = dk\<lparr>dk_wals := (dk_wals dk)(n \<mapsto> wal_file w)\<rparr>) (\<lambda>_. True)"
proof (cases "disk_wal_create crc io n dk" rule: op_cases)
  case (returned w dk')
  then obtain f where "wal_create_at crc io n = (Some (Inr w), f)" and "dk' = (case f of None \<Rightarrow> dk | Some bs \<Rightarrow> dk\<lparr>dk_wals := (dk_wals dk)(n \<mapsto> bs)\<rparr>)"
    by (auto simp: disk_wal_create_def split: prod.splits)
  then show ?thesis using wal_create_at_inv returned by (fastforce simp: runs_def)
qed (simp_all add: runs_def)

lemma disk_publish_runs:
  assumes "codec_ok cx" and "json_ok j" and "store_current cx j (st_root store) = Inr cur"
  shows "runs (disk_publish cx j os m store) dk
    (\<lambda>store' dk'. (\<exists>p. store_current cx j (st_root store') = Inr (Some (p, m))) \<and> \<not> st_publication_uncertain store'
       \<and> dk' = dk\<lparr>dk_root := st_root store'\<rparr>) (\<lambda>_. True)"
proof -
  obtain r store' where run: "store_publish cx j os m None store = (r, store')" by fastforce
  from store_publish_spec(1) [OF assms run] run show ?thesis
    by (cases r) (auto simp: runs_def disk_publish_def publication_ended_def)
qed

lemma acquire_writer_root:
  "acquire_writer io a b root = Inr store \<Longrightarrow> st_root store = root \<and> \<not> st_publication_uncertain store"
  by (auto simp: acquire_writer_def rbind_Inr)

lemma with_checkpoint_limits_root:
  "with_checkpoint_limits n l store = Inr store' \<Longrightarrow> st_root store' = st_root store
     \<and> st_publication_uncertain store' = st_publication_uncertain store"
  by (auto simp: with_checkpoint_limits_def rbind_Inr)

lemma create_files_runs:
  assumes ok: "codec_ok cx" "json_ok j" and store: "st_root store = dk_root empty_disk"
  shows "runs (create_files cx j crc io identity opts app store) empty_disk
    (\<lambda>db dk. db_inv cx j crc backend db \<and> db_rows cx db = {} \<and> disk_of db = dk \<and> ensure_writer_ready db = Inr ()
       \<and> db_options db = opts) (\<lambda>_. True)"
proof -
  have cur: "store_current cx j (st_root store) = Inr None" by (simp add: store store_current_None empty_disk_def)
  show ?thesis
    unfolding create_files_def
    apply (rule runs_lift_bind, simp)
    apply (rule runs_lift_bind, simp)
    apply (rule runs_lift_bind, simp)
    subgoal premises m for _ _ m
      apply (rule runs_bind [OF disk_wal_create_runs])
      subgoal premises w for w dk
        apply (rule runs_bind [OF disk_publish_runs [OF ok cur]])
        subgoal premises published for store' dk'
          apply (rule runs_lift_bind, simp)
          apply (rule runs_ret)
          using published w created_inv [OF m(3), of store' _ crc w] m(3)
          by (auto simp: empty_disk_def ensure_writer_ready_def ensure_publication_ready_def created_database_def)
        done
      done
    done
qed

lemma create_runs:
  assumes ok: "codec_ok cx" "json_ok j"
  shows "runs (database_create cx j crc io identity opts app) dk
    (\<lambda>db dk'. db_inv cx j crc backend db \<and> db_rows cx db = {} \<and> disk_of db = dk' \<and> ensure_writer_ready db = Inr ()
       \<and> db_options db = opts) (\<lambda>_. True)"
  unfolding database_create_def
  apply (rule runs_lift_bind, simp)+
  apply (rule runs_modify_bind)
  apply (rule create_files_runs [OF ok])
  apply (auto simp: store_create_def rbind_Inr dest!: acquire_writer_root with_checkpoint_limits_root)
  done

section \<open>Refusals\<close>

text \<open>The errors by which a configured limit refuses recovery.\<close>

definition limit_error :: "lsm_error \<Rightarrow> bool" where
  "limit_error e \<longleftrightarrow> (case e of
      RecoveryLimit _ _ _ \<Rightarrow> True
    | MutableLimit _ _ _ \<Rightarrow> True
    | InvalidManifest s \<Rightarrow> s \<in> {''recovery file count overflow'', ''recovery read charge overflow'',
        ''recovery frame count overflow'', ''recovery metadata charge overflow'', ''recovery segment byte count overflow''}
    | _ \<Rightarrow> False)"

text \<open>\<open>admits r P\<close>: the result satisfies \<open>P\<close> or a limit refused it.\<close>

definition admits :: "'a res \<Rightarrow> ('a \<Rightarrow> bool) \<Rightarrow> bool" where
  "admits r P \<longleftrightarrow> (case r of Inr x \<Rightarrow> P x | Inl e \<Rightarrow> limit_error e)"

lemma admits_bind: "admits m P \<Longrightarrow> (\<And>x. P x \<Longrightarrow> admits (f x) Q) \<Longrightarrow> admits (rbind m f) Q"
  by (cases m) (simp_all add: admits_def)

lemma admits_Inr [simp]: "admits (Inr x) P \<longleftrightarrow> P x"
  by (simp add: admits_def)

lemma admits_Inl [simp]: "admits (Inl e) P \<longleftrightarrow> limit_error e"
  by (simp add: admits_def)

lemma admits_weaken: "admits r P \<Longrightarrow> (\<And>x. P x \<Longrightarrow> Q x) \<Longrightarrow> admits r Q"
  by (auto simp: admits_def split: sum.splits)

lemma admits_fail_if: "admits (fail_if b e) P \<longleftrightarrow> (if b then limit_error e else P ())"
  by (simp add: fail_if_def)

lemma admits_ok_or: "limit_error e \<Longrightarrow> (\<And>x. o' = Some x \<Longrightarrow> P x) \<Longrightarrow> admits (ok_or e o') P"
  by (cases o') auto

lemma admits_fold:
  assumes "P [] s" and "\<And>ys x zs t. xs = ys @ x # zs \<Longrightarrow> P ys t \<Longrightarrow> admits (f t x) (P (ys @ [x]))"
  shows "admits (try_fold f s xs) (P xs)"
proof -
  have "admits (try_fold f s zs) (P xs)" if "xs = ys @ zs" "P ys s" for ys zs s
    using that
  proof (induction zs arbitrary: ys s)
    case (Cons z zs)
    then have "admits (f s z) (P (ys @ [z]))" using assms(2) by blast
    then show ?case using Cons.IH [of "ys @ [z]"] Cons.prems(1) by (auto intro: admits_bind)
  qed simp
  from this [of "[]" xs s] assms(1) show ?thesis by simp
qed

lemma budget_check_admits: "admits (budget_check resource limit observed) (\<lambda>_. True)"
  by (simp add: budget_check_def admits_fail_if limit_error_def)

lemma budget_tick_admits: "admits (budget_tick clock b) (\<lambda>_. True)"
  unfolding budget_tick_def by (rule admits_bind [OF budget_check_admits]) simp

lemma budget_file_admits: "admits (budget_file clock b n) (\<lambda>_. True)"
  unfolding budget_file_def
  by (rule admits_bind [OF budget_tick_admits], rule admits_bind [OF admits_ok_or], simp add: limit_error_def, rule TrueI,
      rule admits_bind [OF admits_ok_or], simp add: limit_error_def, rule TrueI,
      (rule admits_bind [OF budget_check_admits])+, simp)

lemma budget_wal_admits: "admits (budget_wal clock b n) (\<lambda>_. True)"
  unfolding budget_wal_def by (rule admits_bind [OF budget_check_admits], rule budget_file_admits)

lemma budget_frame_admits: "admits (budget_frame clock b) (\<lambda>_. True)"
  unfolding budget_frame_def
  by (rule admits_bind [OF budget_tick_admits], rule admits_bind [OF admits_ok_or], simp add: limit_error_def, rule TrueI,
      rule admits_bind [OF budget_check_admits], simp)

lemma read_recovery_admits: "admits (read_recovery clock (RegularFile bs) b) (\<lambda>out. fst out = bs)"
  unfolding read_recovery_def budget_metadata_def entry_file_def dir_entry.case sum.case rbind_simps metadata_file.select_convs
  apply (rule admits_bind [OF budget_tick_admits])
  apply simp
  apply (rule admits_bind [OF admits_ok_or, where P = "\<lambda>n. length bs \<le> u64_max"])
    apply (simp add: limit_error_def)
   apply simp
  apply (rule admits_bind [OF budget_check_admits])
  apply (rule admits_bind [OF budget_file_admits])
  apply (simp add: Let_def saturating_add_def admits_fail_if min_def)
  apply (rule admits_bind [OF budget_tick_admits])
  apply simp
  done

section \<open>Recovery\<close>

lemma load_using_admits:
  assumes "store_load cx j root digest = Inr m"
  shows "admits (load_using cx j (read_recovery clock) root digest b) (\<lambda>out. fst out = m)"
proof -
  from assms obtain bs where "is_sha256 digest" "map_of (rf_manifests root) (json_name digest) = Some (RegularFile bs)"
    "json_read_manifest j bs = Inr m" "manifest_validate cx j m = Inr ()" "man_digest m = digest"
    by (auto simp: store_load_Inr)
  then show ?thesis
    by (auto simp: load_using_def fail_if_def intro!: admits_bind [OF read_recovery_admits])
qed

lemma current_using_admits:
  assumes "store_current cx j root = Inr (Some (p, m))"
  shows "admits (current_using cx j (read_recovery clock) root b) (\<lambda>out. fst out = Some (p, m))"
proof -
  from assms obtain bs where cur: "rf_current root = Some (RegularFile bs)" "json_read_pointer j bs = Inr p"
    "pointer_validate cx p = Inr ()" and load: "store_load cx j root (cp_manifest p) = Inr m" and gen: "man_generation m = cp_generation p"
    by (auto simp: store_current_Inr)
  show ?thesis
    using cur gen by (auto simp: current_using_def intro!: admits_bind [OF read_recovery_admits] admits_bind [OF load_using_admits [OF load]])
qed

lemma admit_segments_admits: "admits (try_fold (admit_segment clock) s ds) (\<lambda>_. True)"
proof (rule admits_fold)
  fix t d
  show "admits (admit_segment clock t d) (\<lambda>_. True)"
    unfolding admit_segment_def
    by (cases t, simp, rule admits_bind [OF budget_file_admits], rule admits_bind [OF admits_ok_or], simp add: limit_error_def, rule TrueI, simp)
qed simp

lemma open_segments_admits:
  assumes segs: "map sg_descriptor segs = man_segments m" and stored: "\<forall>seg \<in> set segs. seg_stored cx backend files seg"
    and evidence: "\<And>i. doi_evidence io i = None"
  shows "admits (open_segments cx backend clock io files m b) (\<lambda>out. snd out = segs)"
proof -
  have opened: "admits (try_fold (open_segment cx backend clock (doi_evidence io) files) (b', []) (map sg_descriptor segs))
      (\<lambda>out. map sg_descriptor (snd out) = map sg_descriptor segs \<and> snd out = take (length (snd out)) segs)" for b'
  proof (rule admits_fold [where P = "\<lambda>ds out. map sg_descriptor (snd out) = ds \<and> snd out = take (length (snd out)) segs"])
    fix ds d es and t :: "recovery_budget \<times> segment list"
    assume split: "map sg_descriptor segs = ds @ d # es" and P: "map sg_descriptor (snd t) = ds \<and> snd t = take (length (snd t)) segs"
    obtain budget found where t: "t = (budget, found)" by (cases t)
    have ds: "ds = map sg_descriptor found" using P by (simp add: t)
    have len: "length found < length segs" using arg_cong [OF split, of length] by (simp add: ds)
    define seg where "seg = segs ! length found"
    have d: "d = sg_descriptor seg"
      using arg_cong [OF split, of "\<lambda>xs. xs ! length found"] len by (simp add: ds nth_append seg_def)
    have snoc: "take (length found + 1) segs = found @ [seg]"
      using P len by (simp add: t seg_def take_Suc_conv_app_nth)
    obtain img where img: "files (sd_id d) = Some img" "segment_open_expected cx backend img d = Inr seg"
      using stored len unfolding d seg_def seg_stored_def by (metis nth_mem)
    show "admits (open_segment cx backend clock (doi_evidence io) files t d)
       (\<lambda>out. map sg_descriptor (snd out) = ds @ [d] \<and> snd out = take (length (snd out)) segs)"
      unfolding open_segment_def t prod.case
      by (rule admits_bind [OF budget_tick_admits])
        (simp add: img require_existing_regular_file_def evidence d [symmetric] ds snoc [simplified])
  qed simp
  have same: "found = segs" if "map sg_descriptor found = map sg_descriptor segs" "found = take (length found) segs" for found
    using that(2) arg_cong [OF that(1), of length] by simp
  have "admits (try_fold (open_segment cx backend clock (doi_evidence io) files) (b', []) (man_segments m))
      (\<lambda>out. snd out = segs)" for b'
    unfolding segs [symmetric] by (rule admits_weaken [OF opened]) (metis same)
  then show ?thesis
    unfolding open_segments_def
    apply -
    apply (rule admits_bind [OF admit_segments_admits])
    apply (simp add: split_beta)
    apply (rule admits_bind, assumption)
    apply (auto intro!: admits_bind [OF budget_tick_admits])
    done
qed

lemma limits_check_admits: "admits (limits_check l c) (\<lambda>_. True)"
  by (simp add: limits_check_def fail_if_def limit_error_def)

lemma apply_recovered_admits:
  assumes "replay_step t b = Inr t'"
  shows "admits (apply_owned_recovered t (recovered_of crc off b) limits) (\<lambda>x. x = t')"
proof -
  obtain batch where dec: "batch_decode (wb_payload b) = Inr batch"
    and app: "apply_write_batch t batch (wb_first_sequence b) (wb_last_sequence b) = Inr t'"
    using assms by (auto simp: replay_step_def rbind_Inr)
  then obtain charge total where "charge_batch batch = Inr charge" "charge_add (memtable_charge t) charge = Inr total"
    by (auto simp: apply_write_batch_def rbind_Inr)
  then show ?thesis
    using dec app
    by (simp add: apply_owned_recovered_def recovered_of_def apply_owned_write_batch_def) (rule admits_bind [OF limits_check_admits], simp)
qed

lemma replay_loop_admits:
  assumes "chain n bs" and "file_fits (pre @ frames_image crc bs)" and "pb \<le> length pre" and "try_fold replay_step st bs = Inr m"
  shows "admits (replay_loop crc clock (\<lambda>batch table. apply_owned_recovered table batch limits) (pre @ frames_image crc bs)
      (length pre) n pb (Some b) st)
    (\<lambda>(e, stop, torn, pb', _, st'). e = next_after n bs \<and> stop = length pre + frames_size bs \<and> torn = None
       \<and> pb' = pb + payload_total bs \<and> st' = m)"
  using assms
proof (induction bs arbitrary: n pre pb st b)
  case Nil
  then show ?case by (simp add: replay_loop.simps)
next
  case (Cons x bs)
  let ?file = "pre @ frames_image crc (x # bs)" and ?replay = "\<lambda>batch table. apply_owned_recovered table batch limits"
  obtain st1 where st1: "replay_step st x = Inr st1" and rest: "try_fold replay_step st1 bs = Inr m"
    using Cons.prems(4) by (auto simp: rbind_Inr)
  have valid: "batch_valid x" and n: "wb_first_sequence x = n" using Cons.prems(1) by auto
  have frame: "read_frame crc ?file (length pre) n = Inr (Some (recovered_of crc (length pre) x, length pre + frame_size x))"
    using read_frame_image [OF valid, of pre crc "frames_image crc bs"] Cons.prems(2) n by simp
  have here: "length pre < length ?file" by (simp add: frame_size_def RECORD_HEADER_BYTES_def)
  have pb: "pb + length (wb_payload x) \<le> u64_max" and last: "wb_last_sequence x + 1 \<le> u64_max"
    using Cons.prems(2,3) valid by (simp_all add: file_fits_def frame_size_def rrf_consts batch_valid_def)
  have pb': "pb + length (wb_payload x) \<le> length (pre @ frame_image crc x)"
    using Cons.prems(3) by (simp add: frame_size_def)
  have IH: "admits (replay_loop crc clock ?replay ?file (length pre + frame_size x) (wb_last_sequence x + 1)
        (pb + length (wb_payload x)) (Some b') st1)
      (\<lambda>(e, stop, torn, pb', _, st'). e = next_after n (x # bs) \<and> stop = length pre + frames_size (x # bs) \<and> torn = None
         \<and> pb' = pb + payload_total (x # bs) \<and> st' = m)" for b'
    using Cons.IH [of "wb_last_sequence x + 1" "pre @ frame_image crc x" "pb + length (wb_payload x)" st1 b'] Cons.prems(1,2) pb' rest
    by (simp add: add.assoc)
  have fields: "rb_payload (recovered_of crc (length pre) x) = wb_payload x" "rb_last_sequence (recovered_of crc (length pre) x) = wb_last_sequence x"
    by (simp_all add: recovered_of_def)
  show ?case
    unfolding replay_loop.simps [of _ _ _ ?file "length pre"]
    using here
    apply (simp only: if_True with_budget_def option.case)
    apply (rule admits_bind [where P = "\<lambda>x. x \<noteq> None"])
     apply (rule admits_bind [OF budget_frame_admits], simp)
    apply (simp only: frame rbind_simps option.case prod.case fields)
    apply (simp only: checked_add_def pb last if_True ok_or_simps rbind_simps)
    apply (rule admits_bind [OF apply_recovered_admits [OF st1]])
    using IH by auto
qed

lemma open_log_admits:
  assumes log: "wals (man_wal_start_sequence m) = Some (file_header crc @ frames_image crc bs)"
    and fits: "file_fits (file_header crc @ frames_image crc bs)"
    and chain: "chain (man_wal_start_sequence m) bs" and start: "man_wal_start_sequence m = man_durable_sequence m + 1"
    and durable: "man_durable_sequence m < u64_max" and replayed: "replayed (man_durable_sequence m) bs t"
    and io: "doi_open_wal io = None" "doi_later io = length (file_header crc @ frames_image crc bs)"
  shows "admits (open_log crc clock io opts wals m b)
    (\<lambda>(t', w, n). t' = t \<and> wal_inv crc (man_wal_start_sequence m) bs w)"
proof -
  let ?file = "file_header crc @ frames_image crc bs" and ?start = "man_wal_start_sequence m"
  have hdr: "validate_file_header crc (take FILE_HEADER_BYTES ?file) = Inr ()"
    using validate_file_header_iff [of "file_header crc" crc "()"] by simp
  note inv = replayed_inv [OF replayed chain [unfolded start] durable]
  have bound: "next_after ?start bs \<le> u64_max" using inv start by simp
  have loop: "admits (replay_loop crc clock (\<lambda>batch table. apply_owned_recovered table batch (opt_mutable_limits opts)) ?file
        FILE_HEADER_BYTES ?start 0 (Some b') (at_sequence (man_durable_sequence m)))
      (\<lambda>(e, stop, torn, n, _, t'). e = next_after ?start bs \<and> stop = length ?file \<and> torn = None \<and> n = payload_total bs \<and> t' = t)" for b'
    using replay_loop_admits [OF chain fits, of 0 "at_sequence (man_durable_sequence m)" t clock "opt_mutable_limits opts" b'] replayed
    by (simp add: replayed_def)
  have tick: "admits (case budget of None \<Rightarrow> Inr None | Some b \<Rightarrow> rbind (budget_tick clock b) (\<lambda>b. Inr (Some b))) (\<lambda>_. True)" for budget
    by (cases budget) (auto intro: admits_bind [OF budget_tick_admits])
  have inner: "admits (replay_file_inner crc clock ?file (length ?file) ?start (Some b)
        (\<lambda>batch table. apply_owned_recovered table batch (opt_mutable_limits opts)) (at_sequence (man_durable_sequence m)))
      (\<lambda>(s, _, t'). t' = t \<and> s = \<lparr>rs_recovered_through = next_after ?start bs - 1, rs_valid_bytes = length ?file, rs_torn_tail = None,
         rs_payload_bytes = payload_total bs\<rparr>)"
    unfolding replay_file_inner_def with_budget_def option.case
    apply (rule admits_bind [where P = "\<lambda>_. True"], simp add: start)
    apply (rule admits_bind [where P = "\<lambda>x. x \<noteq> None"], rule admits_bind [OF budget_wal_admits], simp)
    apply (elim not_None_eq [THEN iffD1, THEN exE])
    apply (simp only: hdr rbind_simps fail_if_def)
    apply (simp only: length_append length_file_header not_add_less1 if_False rbind_simps)
    apply (rule admits_bind [OF loop])
    apply (clarsimp simp: saturating_sub_def)
    apply (rule admits_bind [OF tick])
    apply simp
    done
  show ?thesis
    unfolding open_log_def log require_existing_regular_file_def ok_or_simps rbind_simps io io_result_def option.case
      replay_file_bounded_def
    apply (rule admits_bind [where P = "\<lambda>(s, _, t'). t' = t \<and> s = \<lparr>rs_recovered_through = next_after ?start bs - 1,
        rs_valid_bytes = length ?file, rs_torn_tail = None, rs_payload_bytes = payload_total bs\<rparr>"])
     apply (rule admits_bind [OF inner], clarsimp)
    using bound next_after_pos [OF chain] start chain
    by (auto simp: from_recovered_file_def checked_add_def wal_inv_def)
qed

lemma mutable_wrap_admits:
  "admits (fst (mutable_wrap t (mutable_memory_new l)))
     (\<lambda>g. mg_table g = t \<and> memory_inv \<lparr>mst_pool = snd (mutable_wrap t (mutable_memory_new l)), mst_current = g, mst_retained = []\<rparr>)"
proof -
  let ?n = "if mt_version_count t \<noteq> 0 then 1 else 0"
  obtain r pool where res: "reserve (memtable_charge t) ?n (mutable_memory_new l) = (r, pool)" by fastforce
  then have wrap: "mutable_wrap t (mutable_memory_new l)
      = (case r of Inl e \<Rightarrow> (Inl e, pool) | Inr rv \<Rightarrow> (Inr \<lparr>mg_table = t, mg_reservation = rv\<rparr>, pool))"
    unfolding mutable_wrap_def by (simp only: prod.case)
  show ?thesis
  proof (cases r)
    case (Inl e)
    then have "limit_error e"
      using res by (auto simp: reserve_def reserve_check_def fail_if_def limit_error_def Let_def split: sum.splits if_splits)
    then show ?thesis by (simp add: wrap Inl)
  next
    case (Inr rv)
    from res show ?thesis
    proof (cases rule: reserve_cases)
      case admitted
      then show ?thesis unfolding wrap
        by (auto simp: memory_inv_def pool_accounts_def generation_ok_def mutable_memory_new_def
            mutable_memory_stats_default_def memtable_charge_def)
    qed (simp add: Inr)
  qed
qed

lemma recovers_durable:
  assumes "recovers cx j crc backend dk man segs bs m" and "e \<in> segments_rows cx segs"
  shows "vv_sequence (snd e) \<le> man_durable_sequence man"
proof -
  obtain seg where seg: "seg \<in> set segs" "e \<in> segment_rows cx seg" using assms(2) by (auto simp: segments_rows_def)
  obtain p where "store_current cx j (dk_root dk) = Inr (Some (p, man))" using assms(1) by (auto simp: recovers_def)
  then have "manifest_validate cx j man = Inr ()" by (auto simp: store_current_Inr store_load_Inr)
  then have "\<forall>d \<in> set (man_segments man). descriptor_ok (man_durable_sequence man) d"
    using validate_components_segments(2) manifest_validate_Inr(1) by blast
  moreover have "map sg_descriptor segs = man_segments man" and "seg_inv cx seg"
    using assms(1) seg(1) by (auto simp: recovers_def)
  moreover from this(1) have "sg_descriptor seg \<in> set (man_segments man)" using seg(1) by (metis imageI set_map)
  ultimately show ?thesis using seg(2) by (force simp: descriptor_ok_def seg_inv_def)
qed

lemma opened_inv:
  assumes rec: "recovers cx j crc backend dk man segs bs m" and unique: "rows_unique (mt_rows m \<union> segments_rows cx segs)"
    and store: "st_root store = dk_root dk" "\<not> st_publication_uncertain store"
    and w: "wal_inv crc (man_wal_start_sequence man) bs w" and g: "mg_table g = m"
    and memory: "memory_inv \<lparr>mst_pool = pool, mst_current = g, mst_retained = []\<rparr>"
    and db_def: "db = opened_database identity opts dk store man segs w n g pool"
  shows "db_inv cx j crc backend db" and "db_rows cx db = mt_rows m \<union> segments_rows cx segs" and "disk_of db = dk"
    and "ensure_writer_ready db = Inr ()" and "db_snapshot db = mt_maximum_sequence m" and "db_options db = opts"
proof -
  have r: "\<exists>p. store_current cx j (dk_root dk) = Inr (Some (p, man))" "map sg_descriptor segs = man_segments man"
    "\<forall>seg \<in> set segs. seg_inv cx seg \<and> seg_stored cx backend (dk_segments dk) seg"
    "man_wal_start_sequence man = man_durable_sequence man + 1" "man_durable_sequence man < u64_max"
    "dk_wals dk (man_wal_start_sequence man) = Some (file_header crc @ frames_image crc bs)"
    "chain (man_wal_start_sequence man) bs" "replayed (man_durable_sequence man) bs m"
    using rec by (auto simp: recovers_def)
  have fields: "db_table db = m" "db_segments db = segs" "db_manifest db = man" "db_wal db = w" "db_wals db = dk_wals dk"
    "db_segment_files db = dk_segments dk" "db_manifests db = store" "db_memtable db = g" "db_mutable_memory db = pool"
    "db_point_index db = point_index_new (man_segments man)"
    by (simp_all add: db_def opened_database_def g)
  have written: "wal_file w = file_header crc @ frames_image crc bs" using w by (simp add: wal_inv_def)
  show rows: "db_rows cx db = mt_rows m \<union> segments_rows cx segs" by (simp add: db_rows_def fields g)
  note inv = replayed_inv [OF r(8) r(7) [unfolded r(4)] r(5)]
  have older: "vv_sequence (snd e) < vv_sequence (snd f)" if "e \<in> segments_rows cx segs" "f \<in> mt_rows m" for e f
    using recovers_durable [OF rec that(1)] inv that(2) by (meson le_less_trans)
  have "reads_ok cx db"
    unfolding reads_ok_def rows fields g using inv r(2,3) unique older by simp
  moreover have "segments_ok cx backend db"
    unfolding segments_ok_def fields using r(2,3) recovers_durable [OF rec] by auto
  moreover have "store_ok cx j db" unfolding store_ok_def fields store using r(1) .
  moreover have "memory_ok db" unfolding memory_ok_def fields using memory by blast
  moreover have "log_ok crc bs db" unfolding log_ok_def fields g using r written by simp
  ultimately show "db_inv cx j crc backend db" unfolding db_inv_def using w fields by auto
  show "disk_of db = dk" by (simp add: disk_of_def disk_wals_def fields store written r(6) [symmetric] fun_upd_idem)
  show "ensure_writer_ready db = Inr ()"
    using store(2) by (simp add: ensure_writer_ready_def ensure_publication_ready_def fields) (simp add: db_def opened_database_def)
  show "db_snapshot db = mt_maximum_sequence m" by (simp add: db_snapshot_def fields g)
  show "db_options db = opts" by (simp add: db_def opened_database_def)
qed

text \<open>The operating system answers every request of an open, and the log keeps the length \<open>n\<close>.\<close>

definition open_answered :: "database_open_io \<Rightarrow> nat \<Rightarrow> bool" where
  "open_answered io n \<longleftrightarrow> doi_pin io = None \<and> (\<forall>a \<in> set (doi_layout io). a = Inr True) \<and> doi_reserve io = None
     \<and> doi_ring io \<and> (\<forall>(_, a) \<in> set (doi_store_directories io). a = Inr True)
     \<and> wio_lock_entry (doi_writer io) = Inr True \<and> wio_entropy (doi_writer io) \<and> wio_open (doi_writer io) = None
     \<and> wio_lock (doi_writer io) = LockAcquired \<and> wio_sync_root (doi_writer io) = None \<and> wio_sync_checkpoints (doi_writer io) = None
     \<and> (\<forall>i. doi_evidence io i = None) \<and> doi_open_wal io = None \<and> doi_later io = n"

lemma require_directories: "\<forall>a \<in> set as. f a = Inr () \<Longrightarrow> try_fold (\<lambda>_. f) () as = Inr ()"
  by (induction as) auto

lemma open_answered_store:
  assumes "open_answered io n"
  shows "\<exists>store. store_open_existing io root = Inr store \<and> st_root store = root \<and> \<not> st_publication_uncertain store"
proof -
  have "try_fold (\<lambda>_ (operation, answer). require_directory (InvalidManifest ''not a non-symlink directory'')
      (IoContext operation '''') answer) () (doi_store_directories io) = Inr ()"
    using assms by (intro require_directories) (auto simp: open_answered_def require_directory_def)
  then show ?thesis
    using assms by (simp add: store_open_existing_def acquire_writer_def open_answered_def io_result_def)
qed

text \<open>Opening a disk that recovers to some rows yields them, unless a limit refuses it.\<close>

lemma open_admits:
  assumes rec: "recovers cx j crc backend dk man segs bs m" and unique: "rows_unique (mt_rows m \<union> segments_rows cx segs)"
    and opts: "options_validate opts = Inr ()" and io: "open_answered io (length (file_header crc @ frames_image crc bs))"
    and fits: "file_fits (file_header crc @ frames_image crc bs)"
  shows "admits (database_open cx j crc backend clock io identity opts dk)
    (\<lambda>db. db_inv cx j crc backend db \<and> db_rows cx db = mt_rows m \<union> segments_rows cx segs \<and> disk_of db = dk
       \<and> ensure_writer_ready db = Inr () \<and> db_snapshot db = mt_maximum_sequence m \<and> db_options db = opts)"
proof -
  let ?P = "\<lambda>db. db_inv cx j crc backend db \<and> db_rows cx db = mt_rows m \<union> segments_rows cx segs \<and> disk_of db = dk
       \<and> ensure_writer_ready db = Inr () \<and> db_snapshot db = mt_maximum_sequence m \<and> db_options db = opts"
  obtain p where cur: "store_current cx j (dk_root dk) = Inr (Some (p, man))" using rec by (auto simp: recovers_def)
  have stored: "\<forall>seg \<in> set segs. seg_stored cx backend (dk_segments dk) seg" and segs: "map sg_descriptor segs = man_segments man"
    using rec by (simp_all add: recovers_def)
  have evidence: "\<And>i. doi_evidence io i = None" using io by (simp add: open_answered_def)
  have log: "admits (open_log crc clock io opts (dk_wals dk) man b)
      (\<lambda>(t', w, n). t' = m \<and> wal_inv crc (man_wal_start_sequence man) bs w)" for b
    using rec io fits by (intro open_log_admits) (auto simp: recovers_def open_answered_def)
  have wrapped: "admits (case mutable_wrap m (mutable_memory_new (opt_mutable_retention opts)) of
       (Inl e, _) \<Rightarrow> Inl e | (Inr g, pool) \<Rightarrow> Inr (opened_database identity opts dk store man segs w n g pool)) ?P"
    if "wal_inv crc (man_wal_start_sequence man) bs w" "st_root store = dk_root dk" "\<not> st_publication_uncertain store" for w n store
  proof -
    obtain r pool where wrap: "mutable_wrap m (mutable_memory_new (opt_mutable_retention opts)) = (r, pool)" by fastforce
    from mutable_wrap_admits [of m "opt_mutable_retention opts"] show ?thesis
      unfolding wrap using opened_inv [OF rec unique that(2,3,1) _ _ refl] by (cases r) simp_all
  qed
  obtain bytes where cache: "protected_capacity_bytes (opt_page_cache_policy opts) (opt_page_cache_bytes opts) = Inr bytes"
    using opts by (auto simp: options_validate_def rbind_Inr)
  have recovered: "admits (open_recovered cx j crc backend clock io identity opts dk store) ?P"
    if store: "st_root store = dk_root dk" "\<not> st_publication_uncertain store" for store
    unfolding open_recovered_def store(1) cache rbind_simps
    apply (rule admits_bind [OF current_using_admits [OF cur]])
    apply (clarsimp simp: cache)
    apply (rule admits_bind [OF open_segments_admits [OF segs stored evidence]])
    apply clarsimp
    apply (rule admits_bind [OF log])
    apply (clarsimp)
    apply (rule wrapped [OF _ store])
    apply assumption
    done
  obtain store where store: "store_open_existing io (dk_root dk) = Inr store" "st_root store = dk_root dk" "\<not> st_publication_uncertain store"
    using open_answered_store [OF io] by blast
  obtain store' where store': "with_checkpoint_limits (opt_checkpoint_entries opts) (opt_reclamation opts) store = Inr store'"
    using opts by (auto simp: options_validate_def rbind_Inr with_checkpoint_limits_def fail_if_Inr)
  have "validate_existing_database_layout (doi_layout io) = Inr ()"
    unfolding validate_existing_database_layout_def
    using io by (intro require_directories) (auto simp: open_answered_def require_directory_def)
  moreover have "io_context_new (doi_ring io) (opt_segment_io opts) = Inr ()"
    using opts io by (auto simp: io_context_new_def options_validate_def rbind_Inr open_answered_def)
  ultimately show ?thesis
    using opts io store store' recovered [of store'] with_checkpoint_limits_root [OF store']
    by (simp add: database_open_def open_answered_def io_result_def)
qed

end
