(* ===== verification/Database_Sample.thy ===== *)
theory Database_Sample
  imports Database_Write_Spec Database_Open_Spec
begin

text \<open>
  A small database run through its operations: it is created, then one batch is written and acknowledged. The witnesses
  of the database properties use it.
\<close>

section \<open>A created database\<close>

abbreviation sample_ok :: "database \<Rightarrow> bool" where
  "sample_ok db \<equiv> db_inv prefix_codec sample_json sample_crc SourceMapped db"

definition sample_created :: "manifest_store \<Rightarrow> manifest \<Rightarrow> database" where
  "sample_created store m = (created_database 7 database_options_default store m sample_writer)\<lparr>db_reclamation_pending := False\<rparr>"

lemma sample_created_ok:
  "\<exists>store m. sample_ok (sample_created store m) \<and> db_rows prefix_codec (sample_created store m) = {}
     \<and> ensure_writer_ready (sample_created store m) = Inr ()"
proof -
  obtain m where m: "manifest_new_inner prefix_codec sample_json 1 None 0 0 1 [] None = Inr m" using first_manifest by blast
  obtain store where run: "store_publish prefix_codec sample_json (Renamed, Renamed) m None empty_store
      = (Inr (pointer_new prefix_codec m), store)" using first_publish [OF m] by blast
  have start: "store_current prefix_codec sample_json (st_root empty_store) = Inr None"
    by (simp add: store_current_None empty_store_def)
  from store_publish_spec(1) [OF prefix_codec_ok sample_json_ok start run]
  have cur: "\<exists>p. store_current prefix_codec sample_json (st_root store) = Inr (Some (p, m))" and ready: "\<not> st_publication_uncertain store"
    by (auto simp: publication_ended_def)
  have new: "new_manifest prefix_codec sample_json 1 None 0 0 1 [] None = Inr m" using m by (simp add: new_manifest_def manifest_new_def)
  let ?db = "created_database 7 database_options_default store m sample_writer"
  have core: "same_core ?db (sample_created store m)" unfolding sample_created_def by (rule same_core_pending)
  from cur obtain p where "store_current prefix_codec sample_json (st_root store) = Inr (Some (p, m))" by blast
  note created = created_inv [OF new this sample_writer_inv]
  show ?thesis
    using created(1) [of SourceMapped 7 database_options_default] created(2) [of 7 database_options_default] core ready
    by (intro exI [of _ store] exI [of _ m]) (auto simp: same_core_inv [OF core],
      simp add: sample_created_def created_database_def ensure_writer_ready_def ensure_publication_ready_def)
qed

section \<open>Images\<close>

text \<open>An empty database, or one with a single version, has at most one image to write.\<close>

definition sample_row :: versioned_value where
  "sample_row = \<lparr>vv_sequence = 1, vv_value = Some [7]\<rparr>"

lemma versions_of_one:
  assumes "key_sorted vs" and "set (flat_versions vs) \<subseteq> {(k, v)}" and "\<forall>(k, vs) \<in> set vs. distinct vs"
  shows "(\<forall>e \<in> set vs. snd e = []) \<or> (\<exists>pre post. vs = pre @ (k, [v]) # post \<and> (\<forall>e \<in> set pre \<union> set post. snd e = []))"
proof (cases "\<forall>e \<in> set vs. snd e = []")
  case False
  then obtain e where "e \<in> set vs" and e: "snd e \<noteq> []" by blast
  then obtain pre post where vs: "vs = pre @ e # post" by (meson split_list)
  have one: "fst e' = k" "set (snd e') \<subseteq> {v}" if "e' \<in> set vs" "snd e' \<noteq> []" for e'
  proof -
    have row: "(fst e', w) \<in> set (flat_versions vs)" if "w \<in> set (snd e')" for w
      using \<open>e' \<in> set vs\<close> that unfolding set_flat_versions by (metis prod.collapse)
    show "set (snd e') \<subseteq> {v}" using row assms(2) by blast
    show "fst e' = k" using row [OF hd_in_set [OF that(2)]] assms(2) by blast
  qed
  have "snd e = [v]"
  proof -
    have "distinct (snd e)" using assms(3) vs by (cases e) simp
    moreover have "set (snd e) = {v}" using one(2) [of e] e vs by (auto simp: subset_singleton_iff)
    ultimately show ?thesis by (cases "snd e"; cases "tl (snd e)") (auto simp: insert_eq_iff)
  qed
  then have "e = (k, [v])" using one(1) [of e] vs by (cases e) simp
  moreover have "snd e' = []" if in_set: "e' \<in> set pre \<union> set post" for e'
  proof (rule ccontr)
    assume "snd e' \<noteq> []"
    then have "fst e' = fst e" using one(1) [of e'] one(1) [of e] in_set e vs by auto
    then show False using assms(1) in_set by (auto simp: vs sorted_wrt_append)
  qed
  ultimately show ?thesis using vs by blast
qed simp

lemma encode_no_versions:
  assumes "\<forall>e \<in> set es. snd e = []"
    and "builder_rows b = 0 \<or> builder_rows b \<le> gb_max_rows budget \<and> estimated_bytes b \<le> gb_target_bytes budget"
    and "builder_rows b \<le> u64_max" and "estimated_bytes b \<le> u64_max"
  shows "try_fold (encode_key cx budget policy) (out, groups, b) es = Inr (out, groups, b)"
  using assms by (induction es) (auto simp: encode_key_def saturating_add_def)

lemma sample_images:
  assumes "versions_ok vs" and "set (flat_versions vs) \<subseteq> {([1], sample_row)}"
    and enc: "encode_versions prefix_codec vs \<lparr>gb_max_rows = 2048, gb_target_bytes = 65536\<rparr> policy = Inr enc"
  shows "encode_versions prefix_codec [([1], [sample_row])] \<lparr>gb_max_rows = 2048, gb_target_bytes = 65536\<rparr> policy = Inr enc"
proof -
  let ?budget = "\<lparr>gb_max_rows = 2048, gb_target_bytes = 65536\<rparr>"
  have sorted: "key_sorted vs" using assms(1) by (simp add: versions_ok_def)
  have dist: "\<forall>(k, vs) \<in> set vs. distinct vs" using assms(1) by (auto simp: versions_ok_def strict_sorted_iff distinct_map)
  from versions_of_one [OF sorted assms(2) dist] show ?thesis
  proof
    assume empty: "\<forall>e \<in> set vs. snd e = []"
    then have none: "concat (map snd vs) = []" by simp
    have "encode_versions prefix_codec vs ?budget policy \<noteq> Inr enc"
      unfolding encode_versions_def none
      by (cases "row_group_budget_validate ?budget"; cases "compression_policy_validate policy") (simp_all add: fail_if_def)
    then show ?thesis using enc by contradiction
  next
    assume "\<exists>pre post. vs = pre @ ([1], [sample_row]) # post \<and> (\<forall>e \<in> set pre \<union> set post. snd e = [])"
    then obtain pre post where vs: "vs = pre @ ([1], [sample_row]) # post" and none: "\<forall>e \<in> set pre. snd e = []" "\<forall>e \<in> set post. snd e = []"
      by blast
    have "concat (map snd pre) = []" "concat (map snd post) = []" using none by (simp_all only: concat_eq_Nil_conv) auto
    then have rows: "concat (map snd vs) = [sample_row]" by (simp only: vs map_append list.map concat_append concat.simps snd_conv append.simps)
    obtain b where b: "\<And>p. encode_key prefix_codec ?budget p (replicate SEGMENT_HEADER_BYTES 0, [], builder_new 0) ([1], [sample_row])
        = Inr (replicate SEGMENT_HEADER_BYTES 0, [], b)" "builder_rows b = 1" "estimated_bytes b \<le> 65536"
      by (simp add: sample_row_def encode_key_def group_estimate_def builder_append_def builder_new_def validate_key_value_def value_or_default_def
          set_validity_def ok_or_def checked_add_def fail_if_def Let_def builder_rows_def estimated_bytes_def rrf_consts)
        (simp add: saturating_add_def saturating_mul_def u64_max_def)
    have keys: "try_fold (encode_key prefix_codec ?budget p) (replicate SEGMENT_HEADER_BYTES 0, [], builder_new 0) vs
        = try_fold (encode_key prefix_codec ?budget p) (replicate SEGMENT_HEADER_BYTES 0, [], builder_new 0) [([1], [sample_row])]" for p
    proof -
      have "try_fold (encode_key prefix_codec ?budget p) (out, gs, builder_new 0) pre = Inr (out, gs, builder_new 0)" for out gs
        by (rule encode_no_versions [OF none(1)])
          (simp_all add: builder_new_def builder_rows_def estimated_bytes_def saturating_add_def saturating_mul_def)
      moreover have "try_fold (encode_key prefix_codec ?budget p) (out, gs, b) post = Inr (out, gs, b)" for out gs
        by (rule encode_no_versions [OF none(2)]) (use b in \<open>simp_all add: u64_max_def\<close>)
      ultimately show ?thesis using b by (simp add: vs try_fold_append)
    qed
    have budget: "row_group_budget_validate ?budget = Inr ?budget" by (simp add: row_group_budget_validate_def fail_if_def rrf_consts)
    show ?thesis using enc unfolding encode_versions_def rows budget rbind_simps keys by simp
  qed
qed

lemma digests_one_row:
  assumes "db_rows prefix_codec db \<subseteq> {([1], sample_row)}" and "db_segment_files db = Map.empty" and "db_options db = database_options_default"
  shows "digests_ok prefix_codec db"
proof -
  let ?one = "encode_versions prefix_codec [([1], [sample_row])] \<lparr>gb_max_rows = 2048, gb_target_bytes = 65536\<rparr> (AdaptiveLz4 1250 16777216)"
  have one: "?one = Inr enc" if "versions_ok vs" "set (flat_versions vs) \<subseteq> db_rows prefix_codec db"
      "encode_versions prefix_codec vs (opt_segment_row_group_budget (db_options db)) (opt_segment_compression (db_options db)) = Inr enc" for vs enc
    using sample_images [OF that(1), of "AdaptiveLz4 1250 16777216" enc] that(2,3) assms(1,3)
    by (auto simp: database_options_default_def)
  have "\<exists>enc. ?one = Inr enc \<and> a = enc_bytes enc" if "a \<in> db_images prefix_codec db" for a
    using that one assms(2) unfolding db_images_def by auto
  then show ?thesis unfolding digests_ok_def distinct_digests_def by (metis Inr_inject)
qed

section \<open>One acknowledged write\<close>

definition idle_compaction :: compaction_io where
  "idle_compaction = \<lparr>cmp_clock = (\<lambda>_. 0), cmp_segment = (\<lambda>_. Published), cmp_publish = (Renamed, Renamed)\<rparr>"

definition idle_reclaim :: reclaim_io where
  "idle_reclaim = \<lparr>gio_clock = (\<lambda>_. 0), gio_segment_stat = (\<lambda>_. Inr (True, 0)), gio_wal_stat = (\<lambda>_. Inr True), gio_manifests = Inr [],
     gio_segments = Inr [], gio_wals = Inr [], gio_remove = (\<lambda>_. None), gio_sync_manifests = None, gio_sync_segments = None, gio_sync_wals = None\<rparr>"

definition idle_flush :: flush_io where
  "idle_flush = \<lparr>fio_key_elapsed = (\<lambda>_. 0), fio_sync = SyncOk, fio_partition_elapsed = (\<lambda>_. 0), fio_segment = (\<lambda>_. Published), fio_exists = None,
     fio_later = 0, fio_open_sync = SyncOk, fio_open_sync_dir = SyncOk,
     fio_create = \<lparr>cio_admit = None, cio_open = None, cio_writes = [Accepted 16], cio_sync = SyncOk, cio_sync_dir = SyncOk\<rparr>,
     fio_publish_elapsed = 0, fio_publish = (Renamed, Renamed), fio_retained = False\<rparr>"

definition quiet_io :: write_io where
  "quiet_io = \<lparr>wr_views = Some [], wr_reclaim_before = idle_reclaim, wr_compaction_before = idle_compaction, wr_flush = idle_flush,
     wr_compaction_after = idle_compaction, wr_reclaim_after = idle_reclaim, wr_shared = False,
     wr_append = \<lparr>io_admit = None, io_writes = [Accepted 58], io_sync = SyncOk\<rparr>, wr_sync = SyncOk\<rparr>"

lemma one_put_encoded: "\<exists>payload. batch_encode one_put = Inr payload \<and> length payload = 26"
  by (simp add: one_put_def batch_encode_def encode_op_def u32_try_from_def BATCH_MAGIC_def str_bytes_def rrf_consts)

lemma one_put_charge: "charge_batch one_put = Inr \<lparr>mc_bytes = 26, mc_versions = 1\<rparr>"
  by (simp add: one_put_def charge_batch_def version_charge_def checked_add_def rrf_consts)

lemma sample_fields:
  "db_reclamation_pending (sample_created store m) = False" "db_segments (sample_created store m) = []"
  "db_options (sample_created store m) = database_options_default" "db_memtable (sample_created store m) = mutable_empty 0"
  "db_mutable_memory (sample_created store m) = mutable_memory_new mutable_retention_limits_default" "db_wal (sample_created store m) = sample_writer"
  "db_segment_files (sample_created store m) = Map.empty" "db_wal_payload_bytes (sample_created store m) = 0" "db_wals (sample_created store m) = Map.empty"
  by (simp_all add: sample_created_def created_database_def database_options_default_def)

lemma sample_created_fits: "wals_fit (sample_created store m)"
  by (simp add: wals_fit_def disk_wals_def sample_fields) (simp add: file_fits_def sample_writer_def rrf_consts)

lemma sample_admits:
  "compaction_debt_segments (sample_created store m) = 0" "check_l0 (sample_created store m) = Inr ()"
  "\<not> write_needs_flush (sample_created store m) batch n charge"
  "charge_add (memtable_charge (mg_table (mutable_empty 0))) \<lparr>mc_bytes = 26, mc_versions = Suc 0\<rparr> = Inr \<lparr>mc_bytes = 26, mc_versions = 1\<rparr>"
  by (simp_all add: compaction_debt_segments_def check_l0_def l0_segment_count_def write_needs_flush_def sample_fields database_options_default_def
      compaction_limits_default_def mutable_empty_def at_sequence_def charge_add_def memtable_charge_def checked_add_def saturating_sub_def
      rrf_consts)

lemma sample_limits: "limits_check (opt_mutable_limits (db_options (sample_created store m))) \<lparr>mc_bytes = 26, mc_versions = 1\<rparr> = Inr ()"
  by (simp add: sample_fields limits_check_def database_options_default_def mutable_limits_default_def fail_if_def)

lemma sample_prepared:
  "prepare_write prefix_codec sample_json sample_crc SourceMapped io one_put 26 \<lparr>mc_bytes = 26, mc_versions = 1\<rparr> None (sample_created store m)
     = (Some (Inr ()), sample_created store m)"
  by (simp add: prepare_write_def reclaim_if_pending_def foreground_due_def sread_def sbind_def sret_def slift_def sample_fields sample_admits
      limits_check_def database_options_default_def mutable_limits_default_def maintenance_policy_default_def one_put_def rrf_consts)

lemma sample_reserved:
  "\<exists>rv pool. mutable_prepare False (db_memtable (sample_created store m)) \<lparr>mc_bytes = 26, mc_versions = 1\<rparr>
     (db_mutable_memory (sample_created store m)) = (Inr (Unique rv), pool)"
  by (simp add: sample_fields mutable_prepare_def mutable_empty_def at_sequence_def reserve_def reserve_check_def mutable_memory_new_def
      mutable_memory_stats_default_def saturating_sub_def mutable_retention_limits_default_def Let_def)

lemma sample_appended:
  assumes "length payload = 26"
  shows "\<exists>receipt w. append_encoded_write_batch sample_crc (wr_append quiet_io) sample_writer one_put payload Authoritative = (Some (Inr receipt), w)
    \<and> ar_first_sequence receipt = 1 \<and> ar_last_sequence receipt = 1 \<and> length (wal_file w) = 74"
proof -
  let ?b = "\<lparr>wb_first_sequence = 1, wb_last_sequence = 1, wb_payload = payload\<rparr>"
  have "payload \<noteq> []" using assms by auto
  then have valid: "batch_valid ?b" using assms by (simp add: batch_valid_def rrf_consts)
  then have "wal_batch_validate ?b = Inr ()" by (simp add: wal_batch_validate_iff batch_valid_def)
  moreover have "length (header_image sample_crc ?b) = 32" by (simp add: RECORD_HEADER_BYTES_def)
  ultimately show ?thesis
    using record_header_image [OF valid, of sample_crc] assms
    by (simp add: append_encoded_write_batch_def append_inner_def quiet_io_def sample_writer_def one_put_def checked_add_def write_all_steps rrf_consts)
qed

lemma sample_written:
  assumes writer: "ensure_writer_ready (sample_created store m) = Inr ()"
  shows "\<exists>receipt db. write_owned_inner prefix_codec sample_json sample_crc SourceMapped quiet_io one_put Authoritative None None (sample_created store m)
     = (Some (Inr receipt), db) \<and> db_segment_files db = Map.empty \<and> db_options db = database_options_default \<and> db_segments db = []
     \<and> db_wals db = Map.empty \<and> length (wal_file (db_wal db)) = 74 \<and> ensure_writer_ready db = Inr ()"
proof -
  let ?db = "sample_created store m"
  obtain payload where payload: "batch_encode one_put = Inr payload" "length payload = 26" using one_put_encoded by blast
  obtain rv pool where pool: "mutable_prepare False (db_memtable ?db) \<lparr>mc_bytes = 26, mc_versions = 1\<rparr> (db_mutable_memory ?db) = (Inr (Unique rv), pool)"
    using sample_reserved by blast
  obtain receipt w where w: "append_encoded_write_batch sample_crc (wr_append quiet_io) sample_writer one_put payload Authoritative = (Some (Inr receipt), w)"
    "ar_first_sequence receipt = 1" "ar_last_sequence receipt = 1" "length (wal_file w) = 74" using sample_appended [OF payload(2)] by blast
  obtain t where t: "apply_write_batch (at_sequence 0) one_put 1 1 = Inr t" using one_put_apply by blast
  have shared: "wr_shared quiet_io = False" by (simp add: quiet_io_def)
  let ?db1 = "?db\<lparr>db_mutable_memory := pool\<rparr>"
  let ?db2 = "?db1\<lparr>db_wal := w\<rparr>"
  let ?g = "(mutable_empty 0)\<lparr>mg_table := t, mg_reservation := absorb (mg_reservation (mutable_empty 0)) rv\<rparr>"
  let ?db3 = "record_memtable_peak (?db2\<lparr>db_memtable := ?g, db_wal_payload_bytes := saturating_add (db_wal_payload_bytes ?db2) (length payload)\<rparr>)"
  have logged: "write_logged sample_crc quiet_io one_put payload Authoritative None ?db1 = (Some (Inr receipt), ?db2)"
    by (simp add: write_logged_def inject_write_failure_def append_durability_def inject_post_append_failure_def inject_post_wal_failure_def
        db_wal_append_def sample_fields w sbind_def slift_def sret_def)
  have visible: "write_visible quiet_io (Unique rv) one_put payload None receipt ?db2 = (Some (Inr receipt), ?db3)"
  proof -
    have "apply_with (wr_shared quiet_io) (Unique rv) (mutable_empty 0) (\<lambda>table. apply_write_batch table one_put 1 1) = (Inr (), ?g, None)"
      using t by (simp add: apply_with_def quiet_io_def mutable_empty_def)
    moreover have "db_memtable ?db2 = mutable_empty 0" by (simp add: sample_fields)
    ultimately show ?thesis
      unfolding write_visible_def sread_def w(2,3) by (simp add: inject_post_visibility_failure_def sbind_def smodify_def sret_def)
  qed
  have "write_owned_inner prefix_codec sample_json sample_crc SourceMapped quiet_io one_put Authoritative None None ?db = (Some (Inr receipt), ?db3)"
    unfolding write_owned_inner_def
    using pool by (simp add: sread_def sbind_def slift_def writer one_put_charge sample_limits [simplified] payload sample_prepared [simplified]
        db_mutable_prepare_def shared write_prepared_def scatch_def logged visible)
  then show ?thesis using w(4) writer by (simp add: record_memtable_peak_def sample_fields ensure_writer_ready_def)
qed

text \<open>A consistent database with one version of one key, as the write leaves it.\<close>

lemma sample_one_row:
  "\<exists>db. sample_ok db \<and> db_rows prefix_codec db = {([1], sample_row)} \<and> db_snapshot db = 1 \<and> digests_ok prefix_codec db \<and> wals_fit db
     \<and> ensure_writer_ready db = Inr ()"
proof -
  obtain store m where ok: "sample_ok (sample_created store m)" "db_rows prefix_codec (sample_created store m) = {}"
    "ensure_writer_ready (sample_created store m) = Inr ()" using sample_created_ok by blast
  obtain receipt db where run: "write_owned_inner prefix_codec sample_json sample_crc SourceMapped quiet_io one_put Authoritative None None
      (sample_created store m) = (Some (Inr receipt), db)"
    and db: "db_segment_files db = Map.empty" "db_options db = database_options_default" "db_wals db = Map.empty" "length (wal_file (db_wal db)) = 74"
      "ensure_writer_ready db = Inr ()"
    using sample_written [OF ok(3)] by blast
  have digests: "digests_ok prefix_codec (sample_created store m)" by (rule digests_one_row) (simp_all add: ok sample_fields)
  have written: "write_done prefix_codec sample_json sample_crc SourceMapped (write_keeps (sample_created store m) None) (sample_created store m)
      [Put [1] [7]] receipt db"
    using runs_value [OF write_owned_runs [OF prefix_codec_ok sample_json_ok mapped_backend_ok ok(1) digests sample_created_fits one_put_new] run] by blast
  have rows: "db_rows prefix_codec db = {([1], sample_row)}" "db_snapshot db = 1"
    using written ok(2) by (auto simp: write_done_def sample_row_def db_snapshot_def sample_fields mutable_empty_def at_sequence_def)
  have "wals_fit db" by (simp add: wals_fit_def disk_wals_def db) (simp add: file_fits_def db)
  then show ?thesis
    using rows db(5) digests_one_row [OF _ db(1,2)] written by (intro exI [of _ db]) (simp add: write_done_def)
qed

section \<open>A creation\<close>

lemma default_options_valid: "options_validate database_options_default = Inr ()"
  by (simp add: options_validate_def database_options_default_def protected_capacity_bytes_def page_cache_policy_validate_def segment_io_policy_validate_def
      segment_io_policy_default_def row_group_budget_validate_def compression_policy_validate_def transaction_limits_validate_def transaction_limits_default_def
      maintenance_policy_validate_def maintenance_policy_default_def limits_validate_def mutable_limits_default_def mutable_retention_limits_default_def
      compaction_policy_validate_def compaction_policy_default_def compaction_limits_validate_def compaction_limits_default_def
      reclamation_limits_validate_def reclamation_limits_default_def recovery_limits_validate_def recovery_limits_default_def
      fail_if_def checked_mul_def ok_or_def DEFAULT_CHECKPOINT_ENTRIES_def rrf_consts)

definition fresh_io :: database_create_io where
  "fresh_io = \<lparr>dci_ring = True, dci_root = Inr True, dci_entries = Inr False, dci_create_root = None, dci_pin = None, dci_reserve = None,
     dci_manifest_directory = None, dci_checkpoint_directory = None,
     dci_writer = \<lparr>wio_lock_entry = Inr True, wio_entropy = True, wio_open = None, wio_lock = LockAcquired, wio_sync_root = None,
       wio_sync_checkpoints = None\<rparr>,
     dci_wal_directory = None, dci_segment_directory = None,
     dci_wal = \<lparr>cio_admit = None, cio_open = None, cio_writes = [Accepted 16], cio_sync = SyncOk, cio_sync_dir = SyncOk\<rparr>,
     dci_publish = (Renamed, Renamed)\<rparr>"

lemma sample_wal_create: "wal_create_at sample_crc (dci_wal fresh_io) 1 = (Some (Inr sample_writer), Some (wal_file sample_writer))"
proof -
  have "length (file_header sample_crc) = 16" by (simp add: FILE_HEADER_BYTES_def)
  then have "file_header sample_crc \<noteq> []" "drop 16 (file_header sample_crc) = []" "take 16 (file_header sample_crc) = file_header sample_crc" by force+
  then have "write_all [Accepted 16] (file_header sample_crc) = (file_header sample_crc, Written, [])" by (simp add: write_all_steps)
  then show ?thesis by (simp add: wal_create_at_def fresh_io_def sample_writer_def FILE_HEADER_BYTES_def)
qed

abbreviation opened_sample :: "manifest_store \<Rightarrow> database" where
  "opened_sample store \<equiv> created_database 7 database_options_default store opening_manifest sample_writer"

lemma opening_publish:
  "\<exists>store. store_publish prefix_codec sample_json (Renamed, Renamed) opening_manifest None empty_store
       = (Inr (pointer_new prefix_codec opening_manifest), store)
     \<and> map_of (rf_manifests (st_root store)) (json_name (man_digest opening_manifest)) = Some (RegularFile [])
     \<and> rf_checkpoints (st_root store) = []"
proof -
  obtain store where run: "store_publish prefix_codec sample_json (Renamed, Renamed) opening_manifest None empty_store
      = (Inr (pointer_new prefix_codec opening_manifest), store)" using first_publish [OF opening_manifest_new] by blast
  then have "map_of (rf_manifests (st_root store)) (json_name (man_digest opening_manifest)) = Some (RegularFile []) \<and> rf_checkpoints (st_root store) = []"
    by (auto simp: store_publish_def persist_manifest_def publish_pointer_def sample_json_def empty_store_def publication_result_def Let_def
        split: sum.splits)
  with run show ?thesis by blast
qed

lemma sample_create:
  "\<exists>store dk. database_create prefix_codec sample_json sample_crc fresh_io 7 database_options_default None empty_disk = (Some (Inr (opened_sample store)), dk)
     \<and> ensure_writer_ready (opened_sample store) = Inr () \<and> digests_ok prefix_codec (opened_sample store) \<and> wals_fit (opened_sample store)
     \<and> map_of (rf_manifests (st_root store)) (json_name (man_digest opening_manifest)) = Some (RegularFile [])
     \<and> rf_checkpoints (st_root store) = []"
proof -
  have new: "new_manifest prefix_codec sample_json 1 None 0 0 1 [] None = Inr opening_manifest"
    using opening_manifest_new by (simp add: new_manifest_def manifest_new_def)
  obtain store where run: "store_publish prefix_codec sample_json (Renamed, Renamed) opening_manifest None empty_store
      = (Inr (pointer_new prefix_codec opening_manifest), store)"
    and root: "map_of (rf_manifests (st_root store)) (json_name (man_digest opening_manifest)) = Some (RegularFile [])" "rf_checkpoints (st_root store) = []"
    using opening_publish by blast
  let ?db = "opened_sample store"
  have store: "rbind (store_create fresh_io) (with_checkpoint_limits (opt_checkpoint_entries database_options_default) (opt_reclamation database_options_default))
      = Inr empty_store"
    by (simp add: store_create_def fresh_io_def acquire_writer_def with_checkpoint_limits_def empty_store_def empty_disk_def database_options_default_def
        reclamation_limits_default_def reclamation_limits_validate_def DEFAULT_CHECKPOINT_ENTRIES_def io_result_def fail_if_def)
  then obtain raw where raw: "store_create fresh_io = Inr raw"
    "with_checkpoint_limits (opt_checkpoint_entries database_options_default) (opt_reclamation database_options_default) raw = Inr empty_store"
    by (auto simp: rbind_Inr)
  have capacity: "protected_capacity_bytes (opt_page_cache_policy database_options_default) (opt_page_cache_bytes database_options_default) \<noteq> Inl e" for e
    using default_options_valid by (auto simp: options_validate_def rbind_Inr)
  have files: "\<exists>dk. create_files prefix_codec sample_json sample_crc fresh_io 7 database_options_default None empty_store empty_disk = (Some (Inr ?db), dk)"
    using run sample_wal_create new capacity
    by (auto simp: create_files_def disk_wal_create_def disk_publish_def sbind_def slift_def sret_def fresh_io_def io_result_def split: sum.splits)
  have native: "io_context_new (dci_ring fresh_io) (opt_segment_io database_options_default) = Inr ()"
    and established: "establish_root fresh_io = Inr ()" "io_result (dci_pin fresh_io) = Inr ()" "io_result (dci_reserve fresh_io) = Inr ()"
    by (simp_all add: io_context_new_def fresh_io_def database_options_default_def segment_io_policy_default_def segment_io_policy_validate_def
        establish_root_def io_result_def fail_if_def)
  have created: "\<exists>dk. database_create prefix_codec sample_json sample_crc fresh_io 7 database_options_default None empty_disk = (Some (Inr ?db), dk)"
    using files by (simp add: database_create_def sbind_def slift_def smodify_def default_options_valid raw native established)
  then have ok: "db_rows prefix_codec ?db = {}" "ensure_writer_ready ?db = Inr ()"
    using runs_value [OF create_runs [OF prefix_codec_ok sample_json_ok]] by blast+
  have fields: "db_segment_files ?db = Map.empty" "db_options ?db = database_options_default" "db_wals ?db = Map.empty"
    "db_wal ?db = sample_writer" by (simp_all add: created_database_def)
  have "digests_ok prefix_codec ?db" by (rule digests_one_row) (simp_all add: ok fields)
  moreover have "wals_fit ?db"
    by (simp add: wals_fit_def disk_wals_def fields) (simp add: file_fits_def sample_writer_def rrf_consts)
  ultimately show ?thesis using created ok(2) root by blast
qed

section \<open>The first write\<close>

text \<open>The first write after a creation finds the reclamation pending: it retains the one manifest and its log and removes nothing.\<close>

lemma sample_roots:
  assumes "rf_checkpoints (st_root store) = []"
  shows "\<exists>b. reclaim_roots prefix_codec sample_json (\<lambda>_. 0) (Some []) (opened_sample store)
      = Inr (\<lparr>rs_manifests = [(man_digest opening_manifest, ())], rs_segments = [], rs_wals = [(wal_name 1, ())]\<rparr>, b)
    \<and> gb_limits b = reclamation_limits_default \<and> gb_entries b = 1 \<and> gb_metadata_bytes b = 0"
  using assms manifest_new_inner_validate [OF opening_manifest_new]
  by (simp add: reclaim_roots_def retain_manifest_def visit_segments_def checkpoints_inner_def reclamation_entry_def charge_entries_def reclamation_tick_def
      reclamation_check_def reclamation_new_def reclamation_limits_default_def created_database_def database_options_default_def fail_if_def
      checked_add_def opening_manifest_def Let_def rrf_consts)

lemma sample_checked:
  assumes "map_of (rf_manifests root) (json_name (man_digest opening_manifest)) = Some (RegularFile [])"
    and "gb_limits b = reclamation_limits_default" "gb_entries b = 1" "gb_metadata_bytes b = 0"
  shows "\<exists>b'. check_retained prefix_codec sample_json idle_reclaim root
      \<lparr>rs_manifests = [(man_digest opening_manifest, ())], rs_segments = [], rs_wals = [(wal_name 1, ())]\<rparr> b = Inr b'
    \<and> gb_limits b' = reclamation_limits_default"
proof -
  have "is_sha256 (man_digest opening_manifest)" using sha256_hex_is_sha256 [OF prefix_codec_ok] by (simp add: opening_manifest_def)
  then show ?thesis
    using assms manifest_new_inner_validate [OF opening_manifest_new]
    by (simp add: check_retained_def check_manifest_def check_wal_def load_using_def read_reclamation_def read_metadata_def entry_file_def
        idle_reclaim_def io_answer_def sample_json_def reclamation_entry_def charge_entries_def reclamation_tick_def reclamation_check_def
        reclamation_limits_default_def fail_if_def checked_add_def checked_sub_def saturating_add_def Let_def rrf_consts)
qed

lemma sample_collected:
  assumes writer: "ensure_writer_ready (opened_sample store) = Inr ()"
    and root: "map_of (rf_manifests (st_root store)) (json_name (man_digest opening_manifest)) = Some (RegularFile [])" "rf_checkpoints (st_root store) = []"
  shows "reclaim_if_pending prefix_codec sample_json idle_reclaim (Some []) (opened_sample store)
    = (Some (Inr ()), sample_created store opening_manifest)"
proof -
  obtain b where b: "reclaim_roots prefix_codec sample_json (\<lambda>_. 0) (Some []) (opened_sample store)
      = Inr (\<lparr>rs_manifests = [(man_digest opening_manifest, ())], rs_segments = [], rs_wals = [(wal_name 1, ())]\<rparr>, b)"
    "gb_limits b = reclamation_limits_default" "gb_entries b = 1" "gb_metadata_bytes b = 0" using sample_roots [OF root(2)] by blast
  obtain b' where b': "check_retained prefix_codec sample_json idle_reclaim (st_root store)
      \<lparr>rs_manifests = [(man_digest opening_manifest, ())], rs_segments = [], rs_wals = [(wal_name 1, ())]\<rparr> b = Inr b'"
    "gb_limits b' = reclamation_limits_default" using sample_checked [OF root(1) b(2-4)] by blast
  have fields: "db_manifests (opened_sample store) = store" "db_reclamation_pending (opened_sample store)" by (simp_all add: created_database_def)
  have lists: "gio_clock idle_reclaim = (\<lambda>_. 0)" "gio_manifests idle_reclaim = Inr []" "gio_segments idle_reclaim = Inr []" "gio_wals idle_reclaim = Inr []"
    by (simp_all add: idle_reclaim_def)
  have "\<exists>b. reclaim_plan prefix_codec sample_json idle_reclaim (Some []) (opened_sample store)
      = Inr (\<lparr>rs_manifests = [(man_digest opening_manifest, ())], rs_segments = [], rs_wals = [(wal_name 1, ())]\<rparr>, [], [], [], b)"
    using b(1) b' by (simp add: reclaim_plan_def writer fields lists unreachable_files_def io_answer_def reclamation_ticked_def reclamation_tick_def
        reclamation_check_def reclamation_limits_default_def fail_if_def)
  then show ?thesis
    by (auto simp: reclaim_if_pending_def garbage_collect_def reclaim_remove_def remove_candidates_def fields sread_def sbind_def slift_def sret_def
        smodify_def sample_created_def)
qed

lemma sample_first_write:
  assumes writer: "ensure_writer_ready (opened_sample store) = Inr ()"
    and root: "map_of (rf_manifests (st_root store)) (json_name (man_digest opening_manifest)) = Some (RegularFile [])" "rf_checkpoints (st_root store) = []"
  shows "\<exists>receipt db. write_owned_inner prefix_codec sample_json sample_crc SourceMapped quiet_io one_put Authoritative None None (opened_sample store)
    = (Some (Inr receipt), db)"
proof -
  let ?db = "sample_created store opening_manifest"
  have writer': "ensure_writer_ready ?db = Inr ()" using writer by (simp add: ensure_writer_ready_def sample_created_def)
  have options: "db_options (opened_sample store) = db_options ?db" by (simp add: sample_created_def)
  have io: "wr_reclaim_before quiet_io = idle_reclaim" "wr_views quiet_io = Some []" by (simp_all add: quiet_io_def)
  have "reclaim_if_pending prefix_codec sample_json idle_reclaim (Some []) ?db = (Some (Inr ()), ?db)"
    by (simp add: reclaim_if_pending_def sread_def sret_def sample_fields)
  with sample_collected [OF assms]
  have "prepare_write prefix_codec sample_json sample_crc SourceMapped quiet_io one_put n charge None (opened_sample store)
      = prepare_write prefix_codec sample_json sample_crc SourceMapped quiet_io one_put n charge None ?db" for n charge
    by (simp add: prepare_write_def sbind_def io)
  then have "write_owned_inner prefix_codec sample_json sample_crc SourceMapped quiet_io one_put Authoritative None None (opened_sample store)
      = write_owned_inner prefix_codec sample_json sample_crc SourceMapped quiet_io one_put Authoritative None None ?db"
    using writer writer' one_put_encoded by (auto simp: write_owned_inner_def sread_def sbind_def slift_def options one_put_charge sample_limits [simplified])
  then show ?thesis using sample_written [OF writer'] by auto
qed

end
