(* ===== verification/Database_Theorems.thy ===== *)
theory Database_Theorems
  imports Database_Sample
begin

text \<open>
  The properties of the database as its callers see them, in terms of \<open>Database::get\<close>: reads, flush, reopening,
  compaction, reclamation, writes and commits. Each follows from the lemma on the operation, which speaks about the rows.
\<close>

section \<open>Rows and reads\<close>

lemma inv_reads: "db_inv cx j crc backend db \<Longrightarrow> reads_ok cx db"
  by (simp add: db_inv_def)

lemma get_iff:
  assumes "reads_ok cx db"
  shows "database_get cx db k r = Inr out \<longleftrightarrow> reads_as (db_rows cx db) k r out"
  using database_get_reads [OF assms, of k r] reads_as_unique [OF reads_okD(3) [OF assms]] by auto

lemma get_same:
  assumes "reads_ok cx db" and "reads_ok cx db'" and "\<And>out. reads_as (db_rows cx db) k r out \<longleftrightarrow> reads_as (db_rows cx db') k r out"
  shows "database_get cx db' k r = database_get cx db k r"
  using database_get_reads [OF assms(1), of k r] assms(3) get_iff [OF assms(2)] by auto

lemma same_reads_get:
  "same_reads keep (db_rows cx db) (db_rows cx db') \<Longrightarrow> reads_ok cx db \<Longrightarrow> reads_ok cx db' \<Longrightarrow> keep r
     \<Longrightarrow> database_get cx db' k r = database_get cx db k r"
  by (rule get_same) (simp_all add: same_reads_def)

lemma rows_bounded:
  assumes "db_inv cx j crc backend db" and "(k, v) \<in> db_rows cx db"
  shows "vv_sequence v \<le> db_snapshot db"
proof -
  have "(k, v) \<in> mt_rows (db_table db) \<or> (k, v) \<in> segments_rows cx (db_segments db)" using assms(2) by (auto simp: db_rows_def)
  then show ?thesis
  proof
    assume "(k, v) \<in> mt_rows (db_table db)"
    then show ?thesis using inv_reads [OF assms(1)]
      by (fastforce simp: reads_ok_def mt_inv_def table_ok_def chain_ok_def mt_rows_def table_rows_def db_snapshot_def)
  next
    assume "(k, v) \<in> segments_rows cx (db_segments db)"
    then show ?thesis using assms(1) durable_le_snapshot [OF assms(1)] by (force simp: db_inv_def segments_ok_def)
  qed
qed

lemma get_unchanged:
  assumes "reads_ok cx db" and "\<And>v. (k, v) \<in> db_rows cx db \<Longrightarrow> vv_sequence v \<le> r \<longleftrightarrow> vv_sequence v \<le> n"
  shows "database_get cx db k r = database_get cx db k n"
proof -
  have "visible_at (db_rows cx db) k r v \<longleftrightarrow> visible_at (db_rows cx db) k n v" for v
    using assms(2) unfolding visible_at_def by blast
  then have "reads_as (db_rows cx db) k r out \<longleftrightarrow> reads_as (db_rows cx db) k n out" for out by (simp add: reads_as_def)
  then show ?thesis using get_iff [OF assms(1)] database_get_reads [OF assms(1), of k r] by metis
qed

lemma get_later: "db_inv cx j crc backend db \<Longrightarrow> db_snapshot db \<le> r \<Longrightarrow> database_get cx db k r = database_get cx db k (db_snapshot db)"
  by (rule get_unchanged [OF inv_reads]) (auto dest: rows_bounded intro: order_trans)

text \<open>The batch on top of older rows.\<close>

definition last_written :: "mutation list \<Rightarrow> bytes \<Rightarrow> mutation option" where
  "last_written ops k = find (\<lambda>op. mutation_key op = k) (rev ops)"

lemma last_written_row:
  "last_written ops k = Some op \<Longrightarrow> \<exists>i. i < length ops \<and> (k, \<lparr>vv_sequence = n + i, vv_value = mutation_value op\<rparr>) \<in> set (batch_rows n ops)
     \<and> (\<forall>v. (k, v) \<in> set (batch_rows n ops) \<longrightarrow> vv_sequence v \<le> n + i)"
proof (induction n ops rule: batch_rows.induct)
  case (2 n a ops)
  show ?case
  proof (cases "last_written ops k")
    case None
    then have "a = op" "mutation_key a = k" using 2(2) by (auto simp: last_written_def find_append split: option.splits if_splits)
    moreover have "(k, v) \<notin> set (batch_rows (n + 1) ops)" for v
      using None by (induction "n + 1" ops arbitrary: n rule: batch_rows.induct)
        (auto simp: last_written_def find_append split: option.splits if_splits)
    ultimately show ?thesis by (intro exI [of _ 0]) auto
  next
    case (Some op')
    then have "op' = op" using 2(2) by (simp add: last_written_def find_append)
    then obtain i where "i < length ops" "(k, \<lparr>vv_sequence = n + 1 + i, vv_value = mutation_value op\<rparr>) \<in> set (batch_rows (n + 1) ops)"
      "\<forall>v. (k, v) \<in> set (batch_rows (n + 1) ops) \<longrightarrow> vv_sequence v \<le> n + 1 + i" using 2(1) Some by auto
    then show ?thesis by (intro exI [of _ "i + 1"]) auto
  qed
qed (simp add: last_written_def)

lemma unwritten_row: "last_written ops k = None \<Longrightarrow> (k, v) \<notin> set (batch_rows n ops)"
  by (induction n ops rule: batch_rows.induct) (auto simp: last_written_def find_append split: option.splits if_splits)

lemma written_reads:
  assumes old: "\<forall>k v. (k, v) \<in> R \<longrightarrow> vv_sequence v \<le> n" and unique: "rows_unique (R \<union> set (batch_rows (n + 1) ops))"
  shows "r \<le> n \<Longrightarrow> reads_as (R \<union> set (batch_rows (n + 1) ops)) k r out \<longleftrightarrow> reads_as R k r out"
    and "reads_as (R \<union> set (batch_rows (n + 1) ops)) k (n + length ops) out
      \<longleftrightarrow> (case last_written ops k of Some op \<Rightarrow> out = mutation_value op | None \<Rightarrow> reads_as R k n out)"
proof -
  let ?B = "set (batch_rows (n + 1) ops)"
  have new: "n < vv_sequence v \<and> vv_sequence v \<le> n + length ops" if "(k, v) \<in> ?B" for k v
    using batch_rows_sequences [OF that] by auto
  show "reads_as (R \<union> ?B) k r out \<longleftrightarrow> reads_as R k r out" if "r \<le> n"
  proof -
    have "visible_at (R \<union> ?B) k r v \<longleftrightarrow> visible_at R k r v" for v
      using that new unfolding visible_at_def by (meson UnCI UnE leD le_trans)
    then show ?thesis by (simp add: reads_as_def)
  qed
  show "reads_as (R \<union> ?B) k (n + length ops) out
      \<longleftrightarrow> (case last_written ops k of Some op \<Rightarrow> out = mutation_value op | None \<Rightarrow> reads_as R k n out)"
  proof (cases "last_written ops k")
    case None
    then have "visible_at (R \<union> ?B) k (n + length ops) v \<longleftrightarrow> visible_at R k n v" for v
      using unwritten_row [OF None] old unfolding visible_at_def by (meson UnCI UnE trans_le_add1)
    then show ?thesis using None by (simp add: reads_as_def)
  next
    case (Some op)
    obtain i where i: "i < length ops" "(k, \<lparr>vv_sequence = n + 1 + i, vv_value = mutation_value op\<rparr>) \<in> ?B"
      "\<forall>v. (k, v) \<in> ?B \<longrightarrow> vv_sequence v \<le> n + 1 + i" using last_written_row [OF Some] by blast
    then have "visible_at (R \<union> ?B) k (n + length ops) \<lparr>vv_sequence = n + 1 + i, vv_value = mutation_value op\<rparr>"
      using old by (fastforce simp: visible_at_def)
    from reads_as_visible [OF unique this, of out] show ?thesis using Some by simp
  qed
qed

section \<open>Reads\<close>



text \<open>
  (C13) The batched read, which resolves the memtable hits first and then visits every segment once for the rest, returns
  what reading the keys one by one returns.
\<close>

theorem database_get_many_agrees:
  assumes "db_inv cx j crc backend db"
  shows "database_get_many cx db keys r = try_map (\<lambda>key. database_get cx db key r) keys"
  by (rule get_many_eq [OF inv_reads [OF assms]])

theorem database_get_many_agrees_witness:
  "\<exists>db. sample_ok db \<and> db_rows prefix_codec db = {([1], sample_row)}
     \<and> database_get_many prefix_codec db [[1], [2]] 1 = try_map (\<lambda>key. database_get prefix_codec db key 1) [[1], [2]]"
proof -
  obtain db where db: "sample_ok db" "db_rows prefix_codec db = {([1], sample_row)}" using sample_one_row by blast
  then show ?thesis using database_get_many_agrees [OF db(1), of "[[1], [2]]" 1] by blast
qed

text \<open>
  (C14) A multi-range scan returns, in ascending key order and without duplicates, exactly the keys of the ranges that a
  point read at the same sequence finds, with the values it finds.
\<close>

theorem database_scan_ranges_agrees:
  assumes "db_inv cx j crc backend db" and "ranges_ok ranges"
  shows "\<exists>rows. database_scan_ranges cx db ranges r = Inr rows \<and> key_sorted rows
    \<and> (\<forall>k b. (k, b) \<in> set rows \<longleftrightarrow> in_ranges ranges k \<and> database_get cx db k r = Inr (Some b))"
  using database_scan_ranges_reads [OF inv_reads [OF assms(1)] assms(2), of r] get_iff [OF inv_reads [OF assms(1)]]
  by (auto simp: scans_as_def)

theorem database_scan_ranges_agrees_witness:
  "\<exists>db rows. sample_ok db \<and> database_scan_ranges prefix_codec db [([], [2])] 1 = Inr rows
     \<and> (([1], [7]) \<in> set rows \<longleftrightarrow> in_ranges [([], [2])] [1] \<and> database_get prefix_codec db [1] 1 = Inr (Some [7]))"
proof -
  obtain db where db: "sample_ok db" using sample_one_row by blast
  have "ranges_ok [([], [2])]" by (simp add: ranges_ok_def)
  from database_scan_ranges_agrees [OF db this, of 1] db show ?thesis by blast
qed

section \<open>Flush and reopening\<close>



text \<open>
  (C8) Reopening the files of a consistent database, when no limit of the configuration refuses it, gives a consistent and
  writable database with the same snapshot that answers every read as before.
\<close>

theorem reopen_keeps_reads:
  assumes inv: "db_inv cx j crc backend db" and opts: "options_validate opts = Inr ()"
    and io: "open_answered io (length (wal_file (db_wal db)))" and fits: "file_fits (wal_file (db_wal db))"
  shows "admits (database_open cx j crc backend clock io identity opts (disk_of db))
    (\<lambda>db'. db_inv cx j crc backend db' \<and> ensure_writer_ready db' = Inr () \<and> db_snapshot db' = db_snapshot db
       \<and> (\<forall>k r. database_get cx db' k r = database_get cx db k r))"
proof -
  obtain segs bs where rec: "recovers cx j crc backend (disk_of db) (db_manifest db) segs bs (db_table db)"
    and rows: "db_rows cx db = mt_rows (db_table db) \<union> segments_rows cx segs" and wal: "wal_file (db_wal db) = file_header crc @ frames_image crc bs"
    using db_inv_recovers_table [OF inv] by blast
  have "rows_unique (mt_rows (db_table db) \<union> segments_rows cx segs)" using inv_reads [OF inv] rows by (simp add: reads_ok_def)
  from open_admits [OF rec this opts, of io clock identity] io fits wal
  have "admits (database_open cx j crc backend clock io identity opts (disk_of db))
      (\<lambda>db'. db_inv cx j crc backend db' \<and> db_rows cx db' = db_rows cx db \<and> ensure_writer_ready db' = Inr () \<and> db_snapshot db' = db_snapshot db)"
    unfolding rows by (auto elim!: admits_weaken simp: db_snapshot_def)
  then show ?thesis
    by (rule admits_weaken) (auto intro!: get_same [OF inv_reads [OF inv] inv_reads])
qed

definition ready_io :: "nat \<Rightarrow> database_open_io" where
  "ready_io n = \<lparr>doi_pin = None, doi_layout = [Inr True, Inr True, Inr True], doi_reserve = None, doi_ring = True,
     doi_store_directories = [], doi_writer = \<lparr>wio_lock_entry = Inr True, wio_entropy = True, wio_open = None, wio_lock = LockAcquired,
       wio_sync_root = None, wio_sync_checkpoints = None\<rparr>, doi_evidence = (\<lambda>_. None), doi_open_wal = None, doi_later = n\<rparr>"

theorem reopen_keeps_reads_witness:
  "\<exists>db. sample_ok db \<and> db_rows prefix_codec db = {([1], sample_row)}
     \<and> admits (database_open prefix_codec sample_json sample_crc SourceMapped (\<lambda>_. 0) (ready_io (length (wal_file (db_wal db)))) 8
          database_options_default (disk_of db))
         (\<lambda>db'. sample_ok db' \<and> ensure_writer_ready db' = Inr () \<and> db_snapshot db' = db_snapshot db
            \<and> (\<forall>k r. database_get prefix_codec db' k r = database_get prefix_codec db k r))"
proof -
  obtain db where db: "sample_ok db" "db_rows prefix_codec db = {([1], sample_row)}" "wals_fit db" using sample_one_row by blast
  have "wal_file (db_wal db) \<in> ran (disk_wals db)" by (auto simp: disk_wals_def ran_def)
  then have "file_fits (wal_file (db_wal db))" using db(3) by (auto simp: wals_fit_def)
  moreover have "open_answered (ready_io n) n" for n by (simp add: open_answered_def ready_io_def)
  ultimately show ?thesis using reopen_keeps_reads [OF db(1) default_options_valid] db(1,2) by blast
qed

section \<open>Compaction and reclamation\<close>

definition keeps_gets ::
  "codec \<Rightarrow> json \<Rightarrow> crc_fn \<Rightarrow> (bytes \<Rightarrow> page_source) \<Rightarrow> (nat \<Rightarrow> bool) \<Rightarrow> database \<Rightarrow> database \<Rightarrow> bool" where
  "keeps_gets cx j crc backend keep db db' \<longleftrightarrow> db_inv cx j crc backend db' \<and> (\<forall>k r. keep r \<longrightarrow> database_get cx db' k r = database_get cx db k r)"



text \<open>The files a checkpoint or a read view needs are as before.\<close>

definition reachable_kept :: "codec \<Rightarrow> json \<Rightarrow> segment_descriptor list option \<Rightarrow> database \<Rightarrow> database \<Rightarrow> bool" where
  "reachable_kept cx j views db db' \<longleftrightarrow>
     (\<forall>m. pinned_manifest cx j (st_root (db_manifests db)) m \<longrightarrow> store_load cx j (st_root (db_manifests db')) (man_digest m) = Inr m
         \<and> db_wals db' (man_wal_start_sequence m) = db_wals db (man_wal_start_sequence m)
         \<and> (\<forall>d \<in> set (man_segments m). db_segment_files db' (sd_id d) = db_segment_files db (sd_id d)))
     \<and> (\<forall>ds. views = Some ds \<longrightarrow> (\<forall>d \<in> set ds. db_segment_files db' (sd_id d) = db_segment_files db (sd_id d)))"

text \<open>
  (C7) Reclamation never removes what is reachable, however far it gets: afterwards the database is consistent and answers
  every read as before, every manifest a checkpoint names still loads and has its log and segment files, and the segment
  files of the active read views are still there.
\<close>

theorem garbage_collect_keeps_reachable:
  assumes inv: "db_inv cx j crc backend db"
  shows "runs (garbage_collect cx j io views) db
    (\<lambda>_ db'. keeps_gets cx j crc backend (\<lambda>_. True) db db' \<and> reachable_kept cx j views db db')
    (\<lambda>db'. keeps_gets cx j crc backend (\<lambda>_. True) db db' \<and> reachable_kept cx j views db db')"
proof -
  have kept: "keeps_gets cx j crc backend (\<lambda>_. True) db db' \<and> reachable_kept cx j views db db'"
    if rooted: "rooted cx j views db rs" and rec: "reclaimed rs db db'" for rs db'
  proof -
    note new = reclaimed_inv [OF inv that]
    have "database_get cx db' k r = database_get cx db k r" for k r
      by (rule get_same [OF inv_reads [OF inv] inv_reads [OF new(1)]]) (simp add: new(2))
    moreover have "db_segment_files db' (sd_id d) = db_segment_files db (sd_id d)" if "views = Some ds" "d \<in> set ds" for ds d
      using rooted rec that by (auto simp: rooted_def reclaimed_def reclaimed_files_def with_files_def)
    ultimately show ?thesis using new unfolding keeps_gets_def reachable_kept_def by blast
  qed
  have "keeps_gets cx j crc backend (\<lambda>_. True) db db \<and> reachable_kept cx j views db db"
    using inv by (auto simp: keeps_gets_def reachable_kept_def pinned_manifest_def store_load_Inr)
  then show ?thesis by (rule_tac runs_weaken [OF garbage_collect_runs [OF inv]]) (use kept in blast)+
qed

theorem garbage_collect_keeps_reachable_witness:
  "\<exists>db. sample_ok db \<and> db_rows prefix_codec db = {([1], sample_row)}
     \<and> runs (garbage_collect prefix_codec sample_json idle_reclaim (Some [])) db
        (\<lambda>_ db'. keeps_gets prefix_codec sample_json sample_crc SourceMapped (\<lambda>_. True) db db' \<and> reachable_kept prefix_codec sample_json (Some []) db db')
        (\<lambda>db'. keeps_gets prefix_codec sample_json sample_crc SourceMapped (\<lambda>_. True) db db' \<and> reachable_kept prefix_codec sample_json (Some []) db db')"
proof -
  obtain db where db: "sample_ok db" "db_rows prefix_codec db = {([1], sample_row)}" using sample_one_row by blast
  from garbage_collect_keeps_reachable [OF db(1), of idle_reclaim "Some []"] db show ?thesis by blast
qed

section \<open>Writes\<close>

lemma write_keeps_later: "db_snapshot db \<le> r \<Longrightarrow> write_keeps db protected r"
  by (simp add: write_keeps_def)

text \<open>What a batch on top of the current rows makes of a read at the new snapshot.\<close>

definition get_after :: "codec \<Rightarrow> database \<Rightarrow> mutation list \<Rightarrow> bytes \<Rightarrow> bytes option res" where
  "get_after cx db ops k = (case last_written ops k of Some op \<Rightarrow> Inr (mutation_value op) | None \<Rightarrow> database_get cx db k (db_snapshot db))"

lemma applied_gets:
  assumes inv: "db_inv cx j crc backend db" and ok: "reads_ok cx db'" and same: "same_reads (write_keeps db protected) (db_rows cx db) R"
    and sub: "R \<subseteq> db_rows cx db" and rows: "db_rows cx db' = R \<union> write_rows db ops"
  shows "database_get cx db' k (db_snapshot db + length ops) = get_after cx db ops k"
    and "write_keeps db protected r \<Longrightarrow> r \<le> db_snapshot db \<Longrightarrow> database_get cx db' k r = database_get cx db k r"
proof -
  have old: "\<forall>k v. (k, v) \<in> R \<longrightarrow> vv_sequence v \<le> db_snapshot db" using rows_bounded [OF inv] sub by blast
  have unique: "rows_unique (R \<union> set (batch_rows (db_snapshot db + 1) ops))" using reads_okD(3) [OF ok] rows by simp
  note reads = written_reads [OF old unique]
  have at_snapshot: "reads_as R k (db_snapshot db) out \<longleftrightarrow> database_get cx db k (db_snapshot db) = Inr out" for out
    using same write_keeps_later [of db "db_snapshot db" protected] get_iff [OF inv_reads [OF inv]] by (simp add: same_reads_def)
  obtain out where out: "database_get cx db' k (db_snapshot db + length ops) = Inr out" using database_get_reads [OF ok] by blast
  then have "reads_as (R \<union> set (batch_rows (db_snapshot db + 1) ops)) k (db_snapshot db + length ops) out" using get_iff [OF ok] rows by simp
  with reads(2) have "case last_written ops k of Some op \<Rightarrow> out = mutation_value op | None \<Rightarrow> reads_as R k (db_snapshot db) out" by blast
  then show "database_get cx db' k (db_snapshot db + length ops) = get_after cx db ops k"
    unfolding out by (auto simp: get_after_def at_snapshot split: option.splits)
  show "database_get cx db' k r = database_get cx db k r" if "write_keeps db protected r" "r \<le> db_snapshot db"
    by (rule get_same [OF inv_reads [OF inv] ok]) (use that same reads(1) rows in \<open>simp add: same_reads_def\<close>)
qed




definition crashing_io :: write_io where
  "crashing_io = quiet_io\<lparr>wr_append := \<lparr>io_admit = None, io_writes = [Accepted 40], io_sync = SyncOk\<rparr>\<rparr>"

lemma torn_append:
  assumes "length payload = 26"
  shows "\<exists>w. append_encoded_write_batch sample_crc (wr_append crashing_io) sample_writer one_put payload Authoritative = (None, w)"
proof -
  let ?b = "\<lparr>wb_first_sequence = 1, wb_last_sequence = 1, wb_payload = payload\<rparr>"
  have "payload \<noteq> []" using assms by auto
  then have valid: "batch_valid ?b" using assms by (simp add: batch_valid_def rrf_consts)
  then have "wal_batch_validate ?b = Inr ()" by (simp add: wal_batch_validate_iff batch_valid_def)
  moreover have "length (header_image sample_crc ?b) = 32" by (simp add: RECORD_HEADER_BYTES_def)
  moreover have "write_all [] (drop 8 payload) = ([], WriteStopped, [])" using assms by (intro write_all_steps) auto
  ultimately show ?thesis
    using record_header_image [OF valid, of sample_crc] assms
    by (simp add: append_encoded_write_batch_def append_inner_def crashing_io_def sample_writer_def one_put_def checked_add_def rrf_consts)
qed

lemma torn_write:
  assumes writer: "ensure_writer_ready (sample_created store m) = Inr ()"
  shows "\<exists>db'. write_owned_inner prefix_codec sample_json sample_crc SourceMapped crashing_io one_put Authoritative None None (sample_created store m)
    = (None, db')"
proof -
  let ?db = "sample_created store m"
  obtain payload where payload: "batch_encode one_put = Inr payload" "length payload = 26" using one_put_encoded by blast
  obtain rv pool where pool: "mutable_prepare False (db_memtable ?db) \<lparr>mc_bytes = 26, mc_versions = 1\<rparr> (db_mutable_memory ?db) = (Inr (Unique rv), pool)"
    using sample_reserved by blast
  obtain w where w: "append_encoded_write_batch sample_crc (wr_append crashing_io) sample_writer one_put payload Authoritative = (None, w)"
    using torn_append [OF payload(2)] by blast
  have shared: "wr_shared crashing_io = False" by (simp add: crashing_io_def quiet_io_def)
  have "write_logged sample_crc crashing_io one_put payload Authoritative None (?db\<lparr>db_mutable_memory := pool\<rparr>)
      = (None, ?db\<lparr>db_mutable_memory := pool, db_wal := w\<rparr>)"
    by (simp add: write_logged_def inject_write_failure_def append_durability_def db_wal_append_def sample_fields w sbind_def slift_def)
  then show ?thesis
    unfolding write_owned_inner_def
    using pool by (simp add: sread_def sbind_def slift_def writer one_put_charge sample_limits [simplified] payload sample_prepared [simplified]
        db_mutable_prepare_def shared write_prepared_def scatch_def)
qed


section \<open>Commits\<close>


definition sample_tx :: transaction where
  "sample_tx = \<lparr>tx_snapshot = 0, tx_writes = [([1], 1, Some \<lparr>vec_data = [7], vec_capacity = 1\<rparr>)], tx_write_size = write_batch_size_default, tx_buffered_bytes = 0,
     tx_owner = 7, tx_released = False\<rparr>"

lemma sample_tx_writes: "map entry_mutation (tx_writes sample_tx) = [Put [1] [7]]"
  by (simp add: sample_tx_def entry_mutation_def)

lemma sample_commit:
  assumes ok: "sample_ok (sample_created store m)" "db_rows prefix_codec (sample_created store m) = {}"
    "ensure_writer_ready (sample_created store m) = Inr ()"
  shows "\<exists>tc db'. commit_transaction_inner prefix_codec sample_json sample_crc SourceMapped quiet_io sample_tx Authoritative None None (sample_created store m)
    = (Some (Inr tc), db')"
proof -
  let ?db = "sample_created store m"
  obtain receipt db' where run: "write_owned_inner prefix_codec sample_json sample_crc SourceMapped quiet_io one_put Authoritative None None ?db
      = (Some (Inr receipt), db')" using sample_written [OF ok(3)] by blast
  have "latest_sequence_for_key prefix_codec ?db [1] = Inr None"
    using latest_sequence_spec [OF inv_reads [OF ok(1)], of "[1]"] by (auto simp: ok(2) visible_at_def)
  then have free: "try_fold (check_conflict prefix_codec ?db (tx_snapshot sample_tx)) () (map fst (tx_writes sample_tx)) = Inr ()"
    by (simp add: sample_tx_def check_conflict_def)
  have owner: "validate_transaction_owner ?db sample_tx = Inr ()"
    by (simp add: validate_transaction_owner_def sample_tx_def sample_created_def created_database_def)
  have "tx_writes sample_tx \<noteq> []" by (simp add: sample_tx_def)
  then have "\<exists>tc. commit_checked prefix_codec sample_json sample_crc SourceMapped quiet_io sample_tx Authoritative None None ?db = (Some (Inr tc), db')"
    using run by (simp add: commit_checked_def sread_def sbind_def slift_def sret_def ok(3) owner free take_mutations_def sample_tx_writes one_put_new)
  then show ?thesis by (auto simp: commit_transaction_inner_def scatch_def sbind_def smodify_def slift_def)
qed


end
