(* ===== verification/Database_History.thy ===== *)
theory Database_History
  imports Database_Theorems
begin

text \<open>
  Runs of a database: creation, acknowledged operations, operations that end otherwise, and recovery by the repair of a
  torn tail and reopening. The lemmas follow the reads at the newest snapshot through such steps.
\<close>

section \<open>Recovery\<close>

lemma repair_of_scan:
  assumes repair: "repair_torn_tail_from crc file later start = Inr (rep, file')" and fits: "file_fits file"
    and scan: "wal_scan crc start file bs tail"
  shows "file' = file_header crc @ frames_image crc bs"
proof -
  from repair obtain s where replay: "replay_file crc file later start push_batch [] = Inr (s, rec_batches rep)"
    and file': "file' = (if rs_torn_tail s \<noteq> None then take (rs_valid_bytes s) file else file)"
    by (auto simp: repair_torn_tail_from_def rrf_res simp del: rbind_simps split: prod.splits)
  define r where "r = \<lparr>rec_batches = rec_batches rep, rec_recovered_through = rs_recovered_through s,
    rec_valid_bytes = rs_valid_bytes s, rec_torn_tail = rs_torn_tail s\<rparr>"
  have rec: "recover_from crc file later start = Inr r" by (simp add: recover_from_def replay r_def)
  moreover have "later = length file" using recover_inv [OF rec fits] by blast
  ultimately have "r = report crc start bs tail" using recover_of_scan [OF scan fits] by simp
  then show ?thesis using scan unfolding file' by (auto simp: wal_scan_def report_def r_def)
qed

text \<open>The log of the current manifest is repaired and the files are opened.\<close>

definition recovered_from ::
  "codec \<Rightarrow> json \<Rightarrow> crc_fn \<Rightarrow> (bytes \<Rightarrow> page_source) \<Rightarrow> disk \<Rightarrow> database \<Rightarrow> bool" where
  "recovered_from cx j crc backend dk db \<longleftrightarrow> (\<exists>p man img later rep img' clock io identity opts.
     store_current cx j (dk_root dk) = Inr (Some (p, man)) \<and> dk_wals dk (man_wal_start_sequence man) = Some img \<and> file_fits img
     \<and> repair_torn_tail_from crc img later (man_wal_start_sequence man) = Inr (rep, img') \<and> open_answered io (length img')
     \<and> database_open cx j crc backend clock io identity opts (dk\<lparr>dk_wals := (dk_wals dk)(man_wal_start_sequence man \<mapsto> img')\<rparr>) = Inr db)"

lemma torn_repaired:
  assumes torn: "recovers_torn cx j crc backend dk R" and cur: "store_current cx j (dk_root dk) = Inr (Some (p, man))"
    and img: "dk_wals dk (man_wal_start_sequence man) = Some img" and fits: "file_fits img"
    and repair: "repair_torn_tail_from crc img later (man_wal_start_sequence man) = Inr (rep, img')"
  shows "recovers_rows cx j crc backend (dk\<lparr>dk_wals := (dk_wals dk)(man_wal_start_sequence man \<mapsto> img')\<rparr>) R"
proof -
  let ?start = "man_wal_start_sequence man"
  obtain n logged bs tail where found: "dk_wals dk n = Some logged" "wal_scan crc n logged bs tail"
    and rec: "recovers_rows cx j crc backend (dk\<lparr>dk_wals := (dk_wals dk)(n \<mapsto> file_header crc @ frames_image crc bs)\<rparr>) R"
    using torn by (auto simp: recovers_torn_def)
  show ?thesis
  proof (cases "n = ?start")
    case True
    then show ?thesis using repair_of_scan [OF repair fits] found rec img by auto
  next
    case False
    obtain man' segs bs' m where r: "recovers cx j crc backend (dk\<lparr>dk_wals := (dk_wals dk)(n \<mapsto> file_header crc @ frames_image crc bs)\<rparr>) man' segs bs' m"
      and R: "R = mt_rows m \<union> segments_rows cx segs" using rec by (auto simp: recovers_rows_def)
    have man': "man' = man" using r cur by (auto simp: recovers_def)
    then have wal: "img = file_header crc @ frames_image crc bs'" and scan: "wal_scan crc ?start img bs' []"
      using r img False scan_complete by (auto simp: recovers_def)
    have "img' = img" using repair_of_scan [OF repair fits scan] wal by simp
    then have "recovers cx j crc backend (dk\<lparr>dk_wals := (dk_wals dk)(?start \<mapsto> img')\<rparr>) man segs bs' m"
      using r wal unfolding recovers_def man' by auto
    then show ?thesis using R by (auto simp: recovers_rows_def)
  qed
qed

lemma repaired_fits:
  assumes "repair_torn_tail_from crc file later start = Inr (rep, file')" and "file_fits file"
  shows "file_fits file'"
  using assms by (auto simp: repair_torn_tail_from_def file_fits_def rrf_res simp del: rbind_simps split: prod.splits if_splits)

lemma recovered_from_rows:
  assumes torn: "recovers_torn cx j crc backend dk R" and unique: "rows_unique R" and recovered: "recovered_from cx j crc backend dk db"
  shows "db_inv cx j crc backend db \<and> db_rows cx db = R"
proof -
  obtain p man img later rep img' clock io identity opts where cur: "store_current cx j (dk_root dk) = Inr (Some (p, man))"
    and img: "dk_wals dk (man_wal_start_sequence man) = Some img" "file_fits img"
    and repair: "repair_torn_tail_from crc img later (man_wal_start_sequence man) = Inr (rep, img')"
    and io: "open_answered io (length img')"
    and opened: "database_open cx j crc backend clock io identity opts (dk\<lparr>dk_wals := (dk_wals dk)(man_wal_start_sequence man \<mapsto> img')\<rparr>) = Inr db"
    using recovered unfolding recovered_from_def by blast
  obtain man' segs bs m where rec: "recovers cx j crc backend (dk\<lparr>dk_wals := (dk_wals dk)(man_wal_start_sequence man \<mapsto> img')\<rparr>) man' segs bs m"
    and R: "R = mt_rows m \<union> segments_rows cx segs"
    using torn_repaired [OF torn cur img repair] by (auto simp: recovers_rows_def)
  have wal: "img' = file_header crc @ frames_image crc bs" using rec cur by (auto simp: recovers_def)
  have opts: "options_validate opts = Inr ()" using opened by (auto simp: database_open_def rbind_Inr)
  show ?thesis
    using open_admits [OF rec, of opts io clock identity] unique opts io repaired_fits [OF repair img(2)] opened
    by (simp add: R wal)
qed

section \<open>Reads at the newest snapshot\<close>

text \<open>What a database holds: the value of every key at its newest snapshot.\<close>

definition holds :: "codec \<Rightarrow> database \<Rightarrow> mutation list \<Rightarrow> bool" where
  "holds cx db h \<longleftrightarrow> (\<forall>k. database_get cx db k (db_snapshot db)
     = Inr (case last_written h k of Some op \<Rightarrow> mutation_value op | None \<Rightarrow> None))"

lemma last_written_append: "last_written (h @ ops) k = (case last_written ops k of Some op \<Rightarrow> Some op | None \<Rightarrow> last_written h k)"
  by (auto simp: last_written_def find_append split: option.split)

lemma holds_after: "holds cx db h \<Longrightarrow> (\<And>k. database_get cx db' k (db_snapshot db') = get_after cx db ops k) \<Longrightarrow> holds cx db' (h @ ops)"
  by (auto simp: holds_def get_after_def last_written_append split: option.splits)

lemma holds_same: "holds cx db h \<Longrightarrow> (\<And>k. database_get cx db' k (db_snapshot db') = database_get cx db k (db_snapshot db)) \<Longrightarrow> holds cx db' h"
  by (simp add: holds_def)

text \<open>Rows that read alike from the old snapshot on.\<close>

lemma holds_reads:
  assumes inv: "db_inv cx j crc backend db" and inv': "db_inv cx j crc backend db'" and h: "holds cx db h"
    and same: "\<And>k r out. db_snapshot db \<le> r \<Longrightarrow> reads_as (db_rows cx db) k r out \<longleftrightarrow> reads_as (db_rows cx db') k r out"
  shows "holds cx db' h"
proof (rule holds_same [OF h])
  fix k
  let ?r = "max (db_snapshot db) (db_snapshot db')"
  have "database_get cx db' k ?r = database_get cx db k ?r"
    by (rule get_same [OF inv_reads [OF inv] inv_reads [OF inv']]) (simp add: same)
  then show "database_get cx db' k (db_snapshot db') = database_get cx db k (db_snapshot db)"
    using get_later [OF inv, of ?r k] get_later [OF inv', of ?r k] by simp
qed

lemma holds_kept:
  assumes "db_inv cx j crc backend db" and "db_inv cx j crc backend db'" and "holds cx db h"
    and "same_reads keep (db_rows cx db) (db_rows cx db')" and "\<And>r. db_snapshot db \<le> r \<Longrightarrow> keep r"
  shows "holds cx db' h"
  by (rule holds_reads [OF assms(1-3)]) (use assms(4,5) in \<open>simp add: same_reads_def\<close>)

lemma holds_batch:
  assumes inv: "db_inv cx j crc backend db" and inv': "db_inv cx j crc backend db'" and h: "holds cx db h"
    and same: "same_reads (write_keeps db protected) (db_rows cx db) R" and sub: "R \<subseteq> db_rows cx db"
    and rows: "db_rows cx db' = R \<union> write_rows db ops"
  shows "holds cx db' (h @ ops)"
proof (rule holds_after [OF h])
  fix k
  have "vv_sequence v \<le> db_snapshot db + length ops" if "(k, v) \<in> db_rows cx db'" for v
    using that rows_bounded [OF inv] sub batch_rows_sequences [of "(k, v)" "db_snapshot db + 1" ops] unfolding rows by fastforce
  then have "database_get cx db' k (db_snapshot db') = database_get cx db' k (db_snapshot db + length ops)"
    using rows_bounded [OF inv'] by (intro get_unchanged [OF inv_reads [OF inv']]) auto
  then show "database_get cx db' k (db_snapshot db') = get_after cx db ops k"
    using applied_gets(1) [OF inv inv_reads [OF inv'] same sub rows] by simp
qed

lemma batch_rows_unique:
  assumes "rows_unique R" and "\<forall>k v. (k, v) \<in> R \<longrightarrow> vv_sequence v \<le> n"
  shows "rows_unique (R \<union> set (batch_rows (n + 1) ops))"
proof -
  have "x = y" if "x \<in> set (batch_rows m ops)" "y \<in> set (batch_rows m ops)" "vv_sequence (snd x) = vv_sequence (snd y)" for m x y
    using that by (induction m ops rule: batch_rows.induct) (fastforce dest: batch_rows_sequences)+
  moreover have "n < vv_sequence v" if "(k, v) \<in> set (batch_rows (n + 1) ops)" for k v using batch_rows_sequences [OF that] by simp
  ultimately show ?thesis using assms unfolding rows_unique_def by (metis UnE leD snd_conv prod.inject)
qed

section \<open>Steps\<close>

text \<open>After a write that was not acknowledged, recovery finds what the database held, or this and the whole batch.\<close>

lemma holds_failed:
  assumes inv: "db_inv cx j crc backend db" and h: "holds cx db h" and failed: "write_failed cx j crc backend (write_keeps db protected) db ops d"
    and recovered: "recovered_from cx j crc backend (disk_of d) db'"
  shows "db_inv cx j crc backend db' \<and> (holds cx db' h \<or> holds cx db' (h @ ops))"
proof -
  obtain R where unique: "rows_unique R" and same: "same_reads (write_keeps db protected) (db_rows cx db) R"
    and torn: "recovers_torn cx j crc backend (disk_of d) R
      \<or> R \<subseteq> db_rows cx db \<and> recovers_torn cx j crc backend (disk_of d) (R \<union> write_rows db ops)"
    using failed unfolding write_failed_def by blast
  from torn show ?thesis
  proof
    assume "recovers_torn cx j crc backend (disk_of d) R"
    from recovered_from_rows [OF this unique recovered] show ?thesis
      using holds_kept [OF inv _ h, of db' "write_keeps db protected"] same write_keeps_later by auto
  next
    assume sub: "R \<subseteq> db_rows cx db \<and> recovers_torn cx j crc backend (disk_of d) (R \<union> write_rows db ops)"
    then have "rows_unique (R \<union> write_rows db ops)" using batch_rows_unique [OF unique] rows_bounded [OF inv] by blast
    from recovered_from_rows [OF _ this recovered] sub show ?thesis using holds_batch [OF inv _ h same] by blast
  qed
qed

lemma holds_recovered:
  assumes inv: "db_inv cx j crc backend db" and h: "holds cx db h" and same: "same_reads keep (db_rows cx db) R" and unique: "rows_unique R"
    and keep: "\<And>r. db_snapshot db \<le> r \<Longrightarrow> keep r" and rec: "recovers_rows cx j crc backend (disk_of d) R"
    and recovered: "recovered_from cx j crc backend (disk_of d) db'"
  shows "db_inv cx j crc backend db' \<and> holds cx db' h"
  using recovered_from_rows [OF recovers_rows_torn [OF rec] unique recovered] holds_kept [OF inv _ h, of db' keep] same keep by auto

lemma holds_written:
  assumes "db_inv cx j crc backend db" and "holds cx db h" and "write_done cx j crc backend (write_keeps db protected) db ops receipt db'"
  shows "db_inv cx j crc backend db' \<and> holds cx db' (h @ ops)"
  using assms(3) holds_batch [OF assms(1) _ assms(2)] unfolding write_done_def by blast

lemma holds_committed:
  assumes "db_inv cx j crc backend db" and "holds cx db h" and "commit_done cx j crc backend (write_keeps db protected) db tx db'"
  shows "db_inv cx j crc backend db' \<and> holds cx db' (h @ map entry_mutation (tx_writes tx))"
  using assms(3) holds_batch [OF assms(1) _ assms(2)] unfolding commit_done_def by blast

lemma holds_rows: "db_inv cx j crc backend db \<Longrightarrow> db_inv cx j crc backend db' \<Longrightarrow> holds cx db h \<Longrightarrow> db_rows cx db' = db_rows cx db \<Longrightarrow> holds cx db' h"
  by (rule holds_reads) simp_all

lemma holds_compacted:
  assumes inv: "db_inv cx j crc backend db" and h: "holds cx db h"
    and settled: "compaction_settled cx j crc backend (compaction_keeps db protected all) db db'"
  shows "db_inv cx j crc backend db' \<and> holds cx db' h"
proof -
  have "compaction_keeps db protected all r" if "db_snapshot db \<le> r" for r
    using durable_le_snapshot [OF inv] that by (simp add: compaction_keeps_def)
  then show ?thesis using settled holds_kept [OF inv _ h] unfolding compaction_settled_def by blast
qed

lemma holds_uncompacted:
  assumes inv: "db_inv cx j crc backend db" and h: "holds cx db h"
    and ended: "compaction_ended cx j crc backend (compaction_keeps db protected all) db e d" and recovered: "recovered_from cx j crc backend (disk_of d) db'"
  shows "db_inv cx j crc backend db' \<and> holds cx db' h"
proof -
  have keep: "compaction_keeps db protected all r" if "db_snapshot db \<le> r" for r
    using durable_le_snapshot [OF inv] that by (simp add: compaction_keeps_def)
  have unique: "rows_unique (db_rows cx d)" if "db_inv cx j crc backend d" using inv_reads [OF that] by (simp add: reads_ok_def)
  from ended show ?thesis
    unfolding compaction_ended_def
  proof
    assume settled: "compaction_settled cx j crc backend (compaction_keeps db protected all) db d"
    then have d: "db_inv cx j crc backend d" "same_reads (compaction_keeps db protected all) (db_rows cx db) (db_rows cx d)"
      by (simp_all add: compaction_settled_def)
    show ?thesis by (rule holds_recovered [OF inv h d(2) unique [OF d(1)] keep db_inv_recovers [OF d(1)] recovered])
  next
    assume "\<exists>R'. same_reads (compaction_keeps db protected all) (db_rows cx db) R' \<and> unsettled cx j crc backend (db_rows cx db) R' e d"
    then obtain R' where R': "same_reads (compaction_keeps db protected all) (db_rows cx db) R'" "rows_unique R'" "recovers_rows cx j crc backend (disk_of d) R'"
      unfolding unsettled_def by blast
    show ?thesis by (rule holds_recovered [OF inv h R'(1,2) keep R'(3) recovered])
  qed
qed

lemma holds_unflushed:
  assumes inv: "db_inv cx j crc backend db" and h: "holds cx db h" and kept: "keeps_rows cx j crc backend (db_rows cx db) d"
    and recovered: "recovered_from cx j crc backend (disk_of d) db'"
  shows "db_inv cx j crc backend db' \<and> holds cx db' h"
  using holds_recovered [OF inv h same_reads_refl _ _ _ recovered, of "\<lambda>_. True"] kept inv_reads [OF inv] by (simp add: keeps_rows_def reads_ok_def)

section \<open>Runs\<close>

text \<open>
  The batches a database was asked to write, in order, each with whether its write was acknowledged. What they may amount
  to: the acknowledged ones are there, each other one is there as a whole or not at all.
\<close>

type_synonym attempts = "(bool \<times> mutation list) list"

fun histories :: "attempts \<Rightarrow> mutation list set" where
  "histories [] = {[]}"
| "histories ((acknowledged, ops) # as) = (@) ops ` histories as \<union> (if acknowledged then {} else histories as)"

lemma histories_snoc:
  "histories (as @ [(acknowledged, ops)]) = (\<lambda>h. h @ ops) ` histories as \<union> (if acknowledged then {} else histories as)"
  by (induction as rule: histories.induct) (auto simp: image_Un image_image)

text \<open>
  A database that some run leads to. The digests and the file sizes are what each operation relies on of SHA-256 and of the
  operating system. An operation that ends otherwise than by returning is followed by recovery from the files it leaves.
\<close>

inductive db_run ::
  "codec \<Rightarrow> json \<Rightarrow> crc_fn \<Rightarrow> (bytes \<Rightarrow> page_source) \<Rightarrow> database \<Rightarrow> attempts \<Rightarrow> bool"
  for cx j crc backend where
  created: "database_create cx j crc io identity opts app dk = (Some (Inr db), dk') \<Longrightarrow> db_run cx j crc backend db []"
| written: "db_run cx j crc backend db as \<Longrightarrow> digests_ok cx db \<Longrightarrow> wals_fit db \<Longrightarrow> write_batch_new ops = Inr batch
    \<Longrightarrow> write_owned_inner cx j crc backend io batch durability failure protected db = (Some (Inr receipt), db')
    \<Longrightarrow> db_run cx j crc backend db' (as @ [(True, ops)])"
| crashed: "db_run cx j crc backend db as \<Longrightarrow> digests_ok cx db \<Longrightarrow> wals_fit db \<Longrightarrow> write_batch_new ops = Inr batch
    \<Longrightarrow> write_owned_inner cx j crc backend io batch durability failure protected db = (outcome, d)
    \<Longrightarrow> (\<And>receipt. outcome \<noteq> Some (Inr receipt)) \<Longrightarrow> recovered_from cx j crc backend (disk_of d) db'
    \<Longrightarrow> db_run cx j crc backend db' (as @ [(False, ops)])"
| begun: "db_run cx j crc backend db as \<Longrightarrow> begin_transaction db = (Some (Inr tx), db') \<Longrightarrow> db_run cx j crc backend db' as"
| committed: "db_run cx j crc backend db as \<Longrightarrow> digests_ok cx db \<Longrightarrow> wals_fit db
    \<Longrightarrow> commit_transaction_inner cx j crc backend io tx durability failure protected db = (Some (Inr tc), db')
    \<Longrightarrow> db_run cx j crc backend db' (as @ [(True, map entry_mutation (tx_writes tx))])"
| uncommitted: "db_run cx j crc backend db as \<Longrightarrow> digests_ok cx db \<Longrightarrow> wals_fit db
    \<Longrightarrow> commit_transaction_inner cx j crc backend io tx durability failure protected db = (outcome, d)
    \<Longrightarrow> (\<And>tc. outcome \<noteq> Some (Inr tc)) \<Longrightarrow> recovered_from cx j crc backend (disk_of d) db'
    \<Longrightarrow> db_run cx j crc backend db' (as @ [(False, map entry_mutation (tx_writes tx))])"
| flushed: "db_run cx j crc backend db as \<Longrightarrow> digests_ok cx db \<Longrightarrow> wals_fit db
    \<Longrightarrow> flush_memtable_inner cx j crc backend fio at flush_failure db = (Some (Inr flushed), db') \<Longrightarrow> db_run cx j crc backend db' as"
| unflushed: "db_run cx j crc backend db as \<Longrightarrow> digests_ok cx db \<Longrightarrow> wals_fit db
    \<Longrightarrow> flush_memtable_inner cx j crc backend fio at flush_failure db = (flush_outcome, d)
    \<Longrightarrow> (\<And>flushed. flush_outcome \<noteq> Some (Inr flushed)) \<Longrightarrow> recovered_from cx j crc backend (disk_of d) db'
    \<Longrightarrow> db_run cx j crc backend db' as"
| compacted: "db_run cx j crc backend db as \<Longrightarrow> digests_ok cx db
    \<Longrightarrow> compact_segments_inner cx j backend cio snapshots at compaction_failure force all db = (Some (Inr compacted), db')
    \<Longrightarrow> db_run cx j crc backend db' as"
| uncompacted: "db_run cx j crc backend db as \<Longrightarrow> digests_ok cx db
    \<Longrightarrow> compact_segments_inner cx j backend cio snapshots at compaction_failure force all db = (compaction_result, d)
    \<Longrightarrow> (\<And>compacted. compaction_result \<noteq> Some (Inr compacted)) \<Longrightarrow> recovered_from cx j crc backend (disk_of d) db'
    \<Longrightarrow> db_run cx j crc backend db' as"
| collected: "db_run cx j crc backend db as \<Longrightarrow> garbage_collect cx j gio views db = (collection, db') \<Longrightarrow> db_run cx j crc backend db' as"
| reopened: "db_run cx j crc backend db as \<Longrightarrow> recovered_from cx j crc backend (disk_of db) db' \<Longrightarrow> db_run cx j crc backend db' as"

definition history_inv :: "codec \<Rightarrow> json \<Rightarrow> crc_fn \<Rightarrow> (bytes \<Rightarrow> page_source) \<Rightarrow> database \<Rightarrow> attempts \<Rightarrow> bool" where
  "history_inv cx j crc backend db as \<longleftrightarrow> db_inv cx j crc backend db \<and> (\<exists>h \<in> histories as. holds cx db h)"

lemma history_same:
  assumes "history_inv cx j crc backend db as" and "\<And>h. db_inv cx j crc backend db \<Longrightarrow> holds cx db h \<Longrightarrow> db_inv cx j crc backend db' \<and> holds cx db' h"
  shows "history_inv cx j crc backend db' as"
  using assms unfolding history_inv_def by blast

lemma history_acknowledged:
  assumes "history_inv cx j crc backend db as"
    and "\<And>h. db_inv cx j crc backend db \<Longrightarrow> holds cx db h \<Longrightarrow> db_inv cx j crc backend db' \<and> holds cx db' (h @ ops)"
  shows "history_inv cx j crc backend db' (as @ [(True, ops)])"
  using assms unfolding history_inv_def histories_snoc by auto

lemma history_failed:
  assumes "history_inv cx j crc backend db as"
    and "\<And>h. db_inv cx j crc backend db \<Longrightarrow> holds cx db h \<Longrightarrow> db_inv cx j crc backend db' \<and> (holds cx db' h \<or> holds cx db' (h @ ops))"
  shows "history_inv cx j crc backend db' (as @ [(False, ops)])"
  using assms unfolding history_inv_def histories_snoc by auto

lemma created_holds: "db_inv cx j crc backend db \<Longrightarrow> db_rows cx db = {} \<Longrightarrow> holds cx db []"
  using get_iff [OF inv_reads] by (fastforce simp: holds_def last_written_def reads_as_def visible_at_def)

lemma written_history:
  assumes ok: "codec_ok cx" "json_ok j" "backend_ok backend" and hist: "history_inv cx j crc backend db as" and env: "digests_ok cx db" "wals_fit db"
    and new: "write_batch_new ops = Inr batch"
    and run: "write_owned_inner cx j crc backend io batch durability failure protected db = (Some (Inr receipt), db')"
  shows "history_inv cx j crc backend db' (as @ [(True, ops)])"
proof -
  have inv: "db_inv cx j crc backend db" using hist by (simp add: history_inv_def)
  show ?thesis
    by (rule history_acknowledged [OF hist]) (use runs_value [OF write_owned_runs [OF ok inv env new] run] holds_written in blast)
qed

lemma crashed_history:
  assumes ok: "codec_ok cx" "json_ok j" "backend_ok backend" and hist: "history_inv cx j crc backend db as" and env: "digests_ok cx db" "wals_fit db"
    and new: "write_batch_new ops = Inr batch"
    and run: "write_owned_inner cx j crc backend io batch durability failure protected db = (outcome, d)" and failed: "\<And>receipt. outcome \<noteq> Some (Inr receipt)"
    and recovered: "recovered_from cx j crc backend (disk_of d) db'"
  shows "history_inv cx j crc backend db' (as @ [(False, ops)])"
proof -
  have inv: "db_inv cx j crc backend db" using hist by (simp add: history_inv_def)
  show ?thesis
    by (rule history_failed [OF hist]) (use runs_other [OF write_owned_runs [OF ok inv env new] run failed] recovered holds_failed in blast)
qed

lemma committed_history:
  assumes ok: "codec_ok cx" "json_ok j" "backend_ok backend" and hist: "history_inv cx j crc backend db as" and env: "digests_ok cx db" "wals_fit db"
    and run: "commit_transaction_inner cx j crc backend io tx durability failure protected db = (Some (Inr tc), db')"
  shows "history_inv cx j crc backend db' (as @ [(True, map entry_mutation (tx_writes tx))])"
proof -
  have inv: "db_inv cx j crc backend db" using hist by (simp add: history_inv_def)
  show ?thesis
    by (rule history_acknowledged [OF hist]) (use runs_value [OF commit_transaction_runs [OF ok inv env] run] holds_committed in blast)
qed

lemma uncommitted_history:
  assumes ok: "codec_ok cx" "json_ok j" "backend_ok backend" and hist: "history_inv cx j crc backend db as" and env: "digests_ok cx db" "wals_fit db"
    and run: "commit_transaction_inner cx j crc backend io tx durability failure protected db = (outcome, d)" and failed: "\<And>tc. outcome \<noteq> Some (Inr tc)"
    and recovered: "recovered_from cx j crc backend (disk_of d) db'"
  shows "history_inv cx j crc backend db' (as @ [(False, map entry_mutation (tx_writes tx))])"
proof -
  have inv: "db_inv cx j crc backend db" using hist by (simp add: history_inv_def)
  show ?thesis
    by (rule history_failed [OF hist]) (use runs_other [OF commit_transaction_runs [OF ok inv env] run failed] recovered holds_failed in blast)
qed

lemma flushed_history:
  assumes ok: "codec_ok cx" "json_ok j" "backend_ok backend" and hist: "history_inv cx j crc backend db as" and env: "digests_ok cx db" "wals_fit db"
    and run: "flush_memtable_inner cx j crc backend fio at failure db = (Some (Inr segments), db')"
  shows "history_inv cx j crc backend db' as"
proof -
  have inv: "db_inv cx j crc backend db" using hist by (simp add: history_inv_def)
  show ?thesis
    by (rule history_same [OF hist]) (use runs_value [OF flush_runs [OF ok inv env] run] holds_rows in blast)
qed

lemma unflushed_history:
  assumes ok: "codec_ok cx" "json_ok j" "backend_ok backend" and hist: "history_inv cx j crc backend db as" and env: "digests_ok cx db" "wals_fit db"
    and run: "flush_memtable_inner cx j crc backend fio at failure db = (outcome, d)" and failed: "\<And>segments. outcome \<noteq> Some (Inr segments)"
    and recovered: "recovered_from cx j crc backend (disk_of d) db'"
  shows "history_inv cx j crc backend db' as"
proof -
  have inv: "db_inv cx j crc backend db" using hist by (simp add: history_inv_def)
  show ?thesis
    by (rule history_same [OF hist]) (use runs_other [OF flush_runs [OF ok inv env] run failed] recovered holds_unflushed in blast)
qed

lemma compacted_history:
  assumes ok: "codec_ok cx" "json_ok j" "backend_ok backend" and hist: "history_inv cx j crc backend db as" and env: "digests_ok cx db"
    and run: "compact_segments_inner cx j backend cio snapshots at failure force all db = (Some (Inr compacted), db')"
  shows "history_inv cx j crc backend db' as"
proof -
  have inv: "db_inv cx j crc backend db" using hist by (simp add: history_inv_def)
  have "compaction_settled cx j crc backend (compaction_keeps db snapshots all) db db'"
    using compact_segments_ends [OF ok inv env, of cio snapshots at failure force all] run by (simp add: ends_def)
  then show ?thesis by (intro history_same [OF hist]) (use holds_compacted in blast)
qed

lemma uncompacted_history:
  assumes ok: "codec_ok cx" "json_ok j" "backend_ok backend" and hist: "history_inv cx j crc backend db as" and env: "digests_ok cx db"
    and run: "compact_segments_inner cx j backend cio snapshots at failure force all db = (outcome, d)" and failed: "\<And>compacted. outcome \<noteq> Some (Inr compacted)"
    and recovered: "recovered_from cx j crc backend (disk_of d) db'"
  shows "history_inv cx j crc backend db' as"
proof -
  have inv: "db_inv cx j crc backend db" using hist by (simp add: history_inv_def)
  have "\<exists>e. compaction_ended cx j crc backend (compaction_keeps db snapshots all) db e d"
    using compact_segments_ends [OF ok inv env, of cio snapshots at failure force all] run failed
    by (auto simp: ends_def split: option.splits sum.splits)
  then show ?thesis by (intro history_same [OF hist]) (use recovered holds_uncompacted in blast)
qed

lemma begun_history:
  assumes hist: "history_inv cx j crc backend db as" and run: "begin_transaction db = (Some (Inr tx), db')"
  shows "history_inv cx j crc backend db' as"
proof -
  have inv: "db_inv cx j crc backend db" using hist by (simp add: history_inv_def)
  show ?thesis by (rule history_same [OF hist]) (use runs_value [OF begin_transaction_runs [OF inv] run] holds_rows in blast)
qed

lemma collected_history:
  assumes hist: "history_inv cx j crc backend db as" and run: "garbage_collect cx j gio views db = (collection, db')"
  shows "history_inv cx j crc backend db' as"
proof -
  have inv: "db_inv cx j crc backend db" using hist by (simp add: history_inv_def)
  have "db' = db \<or> (\<exists>rs. rooted cx j views db rs \<and> reclaimed rs db db')"
    using runsD [OF garbage_collect_runs [OF inv] run] by blast
  then have "db_inv cx j crc backend db' \<and> db_rows cx db' = db_rows cx db" using reclaimed_inv [OF inv] inv by blast
  then show ?thesis by (intro history_same [OF hist]) (use holds_rows in blast)
qed

lemma reopened_history:
  assumes hist: "history_inv cx j crc backend db as" and recovered: "recovered_from cx j crc backend (disk_of db) db'"
  shows "history_inv cx j crc backend db' as"
  by (rule history_same [OF hist]) (use holds_unflushed [OF _ _ db_inv_keeps] recovered in blast)

lemma created_history:
  assumes ok: "codec_ok cx" "json_ok j" and run: "database_create cx j crc io identity opts app dk = (Some (Inr db), dk')"
  shows "history_inv cx j crc backend db []"
proof -
  have "db_inv cx j crc backend db \<and> db_rows cx db = {}" using runs_value [OF create_runs [OF ok] run] by blast
  then show ?thesis using created_holds by (auto simp: history_inv_def)
qed

lemma db_run_inv:
  assumes ok: "codec_ok cx" "json_ok j" "backend_ok backend" and run: "db_run cx j crc backend db as"
  shows "history_inv cx j crc backend db as"
  using run
proof (induction rule: db_run.induct)
  case (created io identity opts app dk db dk')
  show ?case by (rule created_history [OF ok(1,2) created])
next
  case written
  show ?case by (rule written_history [OF ok written.IH written(2-5)])
next
  case crashed
  show ?case by (rule crashed_history [OF ok crashed.IH crashed(2-7)])
next
  case committed
  show ?case by (rule committed_history [OF ok committed.IH committed(2-4)])
next
  case uncommitted
  show ?case by (rule uncommitted_history [OF ok uncommitted.IH uncommitted(2-6)])
next
  case flushed
  show ?case by (rule flushed_history [OF ok flushed.IH flushed(2-4)])
next
  case unflushed
  show ?case by (rule unflushed_history [OF ok unflushed.IH unflushed(2-6)])
next
  case compacted
  show ?case by (rule compacted_history [OF ok compacted.IH compacted(2,3)])
next
  case uncompacted
  show ?case by (rule uncompacted_history [OF ok uncompacted.IH uncompacted(2-5)])
next
  case begun
  show ?case by (rule begun_history [OF begun.IH begun(2)])
next
  case collected
  show ?case by (rule collected_history [OF collected.IH collected(2)])
next
  case reopened
  show ?case by (rule reopened_history [OF reopened.IH reopened(2)])
qed

end
